(* ===== verification/CcaiPrelude.thy ===== *)
theory CcaiPrelude
  imports Main "HOL-Library.Word" "HOL-Library.Code_Target_Numeral"
begin

text \<open>
  Shared vocabulary of the development: the machine integers of the x86-64 target, C++
  exceptions and undefined behaviour as values of a sum type, the sequencing of fallible
  computations, little-endian reads of byte lists, the character predicates of the C locale
  that the configuration parsers call, searching in strings, and the collections of rewrite rules the component
  theories extend.
\<close>

section \<open>Machine integers, exceptions, sequencing\<close>

type_synonym u8 = "8 word"
type_synonym u32 = "32 word"
type_synonym u64 = "64 word"

text \<open>
  The exception classes the sources throw, by class. \<open>Undefined\<close> is not an exception: it
  marks an evaluation to which the C++ standard gives no meaning (a shift by the operand's
  width, a read outside an array that has no bounds check, a null dereference), so a theorem
  that a result is not \<open>Inl Undefined\<close> says the code never gets there. \<open>Aborted\<close> is the end of the program by
  \<open>abort\<close> or \<open>std::terminate\<close>.
\<close>

datatype cxx_error =
    Out_of_range
  | Runtime_error
  | Logic_error
  | Range_error
  | Invalid_argument
  | Future_error
  | Aborted
  | Undefined

type_synonym 'a result = "cxx_error + 'a"

definition rbind :: "'a result \<Rightarrow> ('a \<Rightarrow> 'b result) \<Rightarrow> 'b result" where
  "rbind m f = (case m of Inl e \<Rightarrow> Inl e | Inr x \<Rightarrow> f x)"

definition throw_if :: "bool \<Rightarrow> cxx_error \<Rightarrow> 'a result \<Rightarrow> 'a result" where
  "throw_if b e m = (if b then Inl e else m)"

named_theorems result_simps \<open>rewriting of sequenced fallible computations\<close>
named_theorems section_simps \<open>rewriting of memory section operations\<close>

lemma rbind_Inl [simp]: "rbind (Inl e) f = Inl e"
  by (simp add: rbind_def)

lemma rbind_Inr [simp]: "rbind (Inr x) f = f x"
  by (simp add: rbind_def)

lemma rbind_eq_Inr [result_simps]:
  "rbind m f = Inr y \<longleftrightarrow> (\<exists>x. m = Inr x \<and> f x = Inr y)"
  by (auto simp: rbind_def split: sum.splits)

lemma rbind_eq_Inl [result_simps]:
  "rbind m f = Inl e \<longleftrightarrow> m = Inl e \<or> (\<exists>x. m = Inr x \<and> f x = Inl e)"
  by (auto simp: rbind_def split: sum.splits)

lemma throw_if_eq_Inr [result_simps]:
  "throw_if b e m = Inr y \<longleftrightarrow> \<not> b \<and> m = Inr y"
  by (simp add: throw_if_def)

lemma throw_if_eq_Inl [result_simps]:
  "throw_if b e m = Inl e' \<longleftrightarrow> b \<and> e = e' \<or> \<not> b \<and> m = Inl e'"
  by (auto simp: throw_if_def)

lemma throw_if_True [simp]: "throw_if True e m = Inl e"
  and throw_if_False [simp]: "throw_if False e m = m"
  by (simp_all add: throw_if_def)

text \<open>
  \<^verbatim>\<open>std::vector::operator[]\<close> has no bounds check, and a shift of a 64-bit value by 64 or more, or
  by a negative number, has no meaning.
\<close>

definition vec_at :: "'a list \<Rightarrow> nat \<Rightarrow> 'a result" where
  "vec_at xs i = (if i < length xs then Inr (xs ! i) else Inl Undefined)"

definition shl_u64 :: "u64 \<Rightarrow> int \<Rightarrow> u64 result" where
  "shl_u64 x n = (if 0 \<le> n \<and> n < 64 then Inr (push_bit (nat n) x) else Inl Undefined)"

definition shr_u64 :: "u64 \<Rightarrow> int \<Rightarrow> u64 result" where
  "shr_u64 x n = (if 0 \<le> n \<and> n < 64 then Inr (drop_bit (nat n) x) else Inl Undefined)"

lemma vec_at_in [simp]: "i < length xs \<Longrightarrow> vec_at xs i = Inr (xs ! i)"
  by (simp add: vec_at_def)

text \<open>A computation that may also run forever: \<open>None\<close>.\<close>

definition obind :: "'a result option \<Rightarrow> ('a \<Rightarrow> 'b result option) \<Rightarrow> 'b result option" where
  "obind m f = (case m of None \<Rightarrow> None | Some (Inl e) \<Rightarrow> Some (Inl e) | Some (Inr x) \<Rightarrow> f x)"

lemma obind_simps [simp]:
  "obind None f = None"
  "obind (Some (Inl e)) f = Some (Inl e)"
  "obind (Some (Inr x)) f = f x"
  by (simp_all add: obind_def)

section \<open>Evaluation\<close>

text \<open>
  Concrete files are evaluated in the kernel. Sequencing is unfolded into case distinctions,
  whose branches are not evaluated before they are chosen, and \<^verbatim>\<open>drop\<close> goes in blocks of
  eight so that few numerals are subtracted.
\<close>

lemmas [code_unfold] = rbind_def throw_if_def obind_def

definition drop_plain :: "nat \<Rightarrow> 'a list \<Rightarrow> 'a list" where
  "drop_plain = drop"

lemma drop_plain_code [code]:
  "drop_plain n xs = (if n = 0 then xs else case xs of [] \<Rightarrow> [] | x # r \<Rightarrow> drop_plain (n - 1) r)"
  by (simp add: drop_plain_def drop_Cons' split: list.split)

lemma drop_blocks [code]:
  "drop n xs = (if n < 8 then drop_plain n xs
     else case xs of x1 # x2 # x3 # x4 # x5 # x6 # x7 # x8 # r \<Rightarrow> drop (n - 8) r | _ \<Rightarrow> [])"
  by (auto simp: drop_plain_def drop_Cons' numeral_eq_Suc split: list.split)

section \<open>Words read as natural numbers\<close>

lemma unat_u64_less [simp]: "unat (w :: u64) < 18446744073709551616"
  using unsigned_less [of w, where 'a=nat] by simp

lemma unat_add_no_wrap:
  fixes a b :: u64
  assumes "unat a + unat b < 2 ^ 64"
  shows "unat (a + b) = unat a + unat b"
  using assms by (simp add: unat_word_ariths)

lemma unat_Suc_no_wrap:
  fixes a :: u64
  assumes "unat a < 2 ^ 64 - 1"
  shows "unat (a + 1) = Suc (unat a)"
  using assms unat_add_no_wrap [of a 1] by simp

lemma unat_mult_no_wrap:
  fixes a b :: u64
  assumes "unat a * unat b < 2 ^ 64"
  shows "unat (a * b) = unat a * unat b"
  using assms by (simp add: unat_word_ariths)

lemma unat_of_nat_u64:
  "n < 2 ^ 64 \<Longrightarrow> unat (of_nat n :: u64) = n"
  by (simp add: unat_of_nat)

lemma unat_drop_bit_div: "unat (drop_bit n (w :: u64)) = unat w div 2 ^ n"
proof -
  have "unat (drop_bit n w) = drop_bit n (unat w)" by (simp only: unat_drop_bit_eq)
  then show ?thesis by (simp only: drop_bit_eq_div)
qed

section \<open>Sorted ranges\<close>

text \<open>Sortedness of an indexed range in executable form.\<close>

lemma sorted_map_upt:
  fixes f :: "nat \<Rightarrow> 'a::linorder"
  assumes "sorted (map f [a..<b])" "a \<le> i" "i \<le> j" "j < b"
  shows "f i \<le> f j"
proof -
  have "map f [a..<b] ! (i - a) \<le> map f [a..<b] ! (j - a)"
    using assms by (intro sorted_nth_mono) auto
  with assms show ?thesis by simp
qed

section \<open>Little-endian reads\<close>

text \<open>The value of a byte list in the target's byte order, the first byte lowest.\<close>

fun le_value :: "u8 list \<Rightarrow> nat" where
  "le_value [] = 0"
| "le_value (b # bs) = unat b + 256 * le_value bs"

lemma le_value_append:
  "le_value (xs @ ys) = le_value xs + 256 ^ length xs * le_value ys"
  by (induction xs) (simp_all add: algebra_simps)

lemma unat_u8_le [simp]: "unat (b :: u8) \<le> 255"
  using unsigned_less [of b, where 'a=nat] by simp

lemma le_value_less: "le_value bs < 256 ^ length bs"
proof (induction bs)
  case Nil
  show ?case by simp
next
  case (Cons b bs)
  have "unat b + 256 * le_value bs \<le> 255 + 256 * (256 ^ length bs - 1)"
    using Cons by (intro add_mono) auto
  also have "\<dots> < 256 * 256 ^ length bs"
    by (simp add: diff_mult_distrib2)
  finally show ?case by simp
qed

lemma le_value_take_drop:
  assumes "i \<le> length bs"
  shows "le_value bs = le_value (take i bs) + 256 ^ i * le_value (drop i bs)"
  using assms le_value_append [of "take i bs" "drop i bs"] by simp

lemma le_value_take: "le_value (take i bs) = le_value bs mod 256 ^ i"
proof (cases "i \<le> length bs")
  case True
  then have "le_value (take i bs) < 256 ^ i"
    using le_value_less [of "take i bs"] by simp
  then show ?thesis
    by (simp add: le_value_take_drop [OF True])
next
  case False
  then have "le_value bs < 256 ^ i"
    using le_value_less [of bs] power_increasing [of "length bs" i "256::nat"] by linarith
  with False show ?thesis by simp
qed

lemma le_value_drop: "le_value (drop i bs) = le_value bs div 256 ^ i"
proof (cases "i \<le> length bs")
  case True
  then have "le_value (take i bs) < 256 ^ i"
    using le_value_less [of "take i bs"] by simp
  then show ?thesis
    by (simp add: le_value_take_drop [OF True])
next
  case False
  then have "le_value bs < 256 ^ i"
    using le_value_less [of bs] power_increasing [of "length bs" i "256::nat"] by linarith
  with False show ?thesis by simp
qed

section \<open>Characters of the C locale\<close>

text \<open>\<^verbatim>\<open>std::isspace\<close>: space, \<^verbatim>\<open>\t\<close>, \<^verbatim>\<open>\n\<close>, \<^verbatim>\<open>\v\<close>, \<^verbatim>\<open>\f\<close>, \<^verbatim>\<open>\r\<close>.\<close>

definition isspace :: "char \<Rightarrow> bool" where
  "isspace c \<longleftrightarrow> c = CHR '' '' \<or> of_char c \<in> {9 :: nat, 10, 11, 12, 13}"

definition isdigit :: "char \<Rightarrow> bool" where
  "isdigit c \<longleftrightarrow> 48 \<le> (of_char c :: nat) \<and> (of_char c :: nat) \<le> 57"

text \<open>Erasing the trailing, respectively the leading, white space of a string.\<close>

definition rtrim :: "string \<Rightarrow> string" where
  "rtrim s = rev (dropWhile isspace (rev s))"

definition ltrim :: "string \<Rightarrow> string" where
  "ltrim s = dropWhile isspace s"

section \<open>Transition systems\<close>

text \<open>What every step keeps holds along every run.\<close>

locale preserved_invariant =
  fixes step :: "'s \<Rightarrow> 's \<Rightarrow> bool" and holds :: "'s \<Rightarrow> bool"
  assumes step_keeps: "step s s' \<Longrightarrow> holds s \<Longrightarrow> holds s'"
begin

lemma run_keeps: "step\<^sup>*\<^sup>* s s' \<Longrightarrow> holds s \<Longrightarrow> holds s'"
  by (induction rule: rtranclp_induct) (auto intro: step_keeps)

end

section \<open>Searching\<close>

text \<open>\<^verbatim>\<open>std::string::find\<close>: the first occurrence at or after \<^verbatim>\<open>start\<close>.\<close>

definition occurs_at :: "'a list \<Rightarrow> 'a list \<Rightarrow> nat \<Rightarrow> bool" where
  "occurs_at s delim i \<longleftrightarrow> i + length delim \<le> length s \<and> take (length delim) (drop i s) = delim"

definition str_find :: "'a list \<Rightarrow> 'a list \<Rightarrow> nat \<Rightarrow> nat option" where
  "str_find s delim start = List.find (occurs_at s delim) [start..<Suc (length s)]"

lemma str_find_None: "str_find s delim start = None \<longleftrightarrow> (\<forall>i \<ge> start. i \<le> length s \<longrightarrow> \<not> occurs_at s delim i)"
  by (auto simp: str_find_def find_None_iff)

lemma str_find_Some:
  assumes "str_find s delim start = Some e"
  shows "start \<le> e \<and> occurs_at s delim e \<and> (\<forall>i. start \<le> i \<longrightarrow> i < e \<longrightarrow> \<not> occurs_at s delim i)"
proof -
  obtain k where k: "k < Suc (length s) - start" "occurs_at s delim e" "e = [start..<Suc (length s)] ! k"
    "\<And>j. j < k \<Longrightarrow> \<not> occurs_at s delim ([start..<Suc (length s)] ! j)"
    using assms by (auto simp: str_find_def find_Some_iff simp del: upt_Suc)
  have nth: "[start..<Suc (length s)] ! j = start + j" if "j \<le> k" for j
    using that k(1) by (simp del: upt_Suc)
  have "\<not> occurs_at s delim i" if "start \<le> i" "i < e" for i
    using k(4) [of "i - start"] nth [of "i - start"] nth [of k] k(3) that by auto
  with k nth [of k] show ?thesis by simp
qed

lemma occurs_at_single: "occurs_at s [d] i \<longleftrightarrow> i < length s \<and> s ! i = d"
  by (auto simp: occurs_at_def take_Suc hd_drop_conv_nth)

end
