(* ===== verification/CxxDouble.thy ===== *)
theory CxxDouble
  imports CcaiPrelude Complex_Main "HOL-Library.Log_Nat"
begin

text \<open>
  The part of IEEE 754 double arithmetic that the search routines of the language model use.
  A finite double is a rational; an operation computes the exact rational and rounds it to the
  nearest value with a significand of 53 bits, ties to even. The exponent range is left out:
  every intermediate value of the modelled code has a magnitude between \<open>2 ^ (-70)\<close> and
  \<open>2 ^ 70\<close>, far inside the range of normal doubles, so no overflow, underflow or subnormal
  result occurs there.
\<close>

section \<open>Rounding\<close>

text \<open>The position of the leading bit of a positive rational.\<close>

definition ilog2 :: "rat \<Rightarrow> int" where
  "ilog2 x = (let pq = quotient_of x; k = bitlen (fst pq) - bitlen (snd pq)
     in if 2 powi k \<le> x then k else k - 1)"

text \<open>Rounding to the nearest integer, ties to the even one.\<close>

definition rne :: "rat \<Rightarrow> int" where
  "rne x = (let f = \<lfloor>x\<rfloor>; d = x - of_int f
     in if d < 1 / 2 then f else if d > 1 / 2 then f + 1 else if even f then f else f + 1)"

definition dbl_pos :: "rat \<Rightarrow> rat" where
  "dbl_pos x = (let e = ilog2 x - 52 in of_int (rne (x / 2 powi e)) * 2 powi e)"

definition dbl :: "rat \<Rightarrow> rat" where
  "dbl x = (if x = 0 then 0 else if x < 0 then - dbl_pos (- x) else dbl_pos x)"

text \<open>The conversion of an unsigned 64-bit integer to \<^verbatim>\<open>double\<close>.\<close>

definition u2d :: "u64 \<Rightarrow> rat" where
  "u2d w = dbl (of_nat (unat w))"

section \<open>Laws of rounding\<close>

lemma bitlen_bounds_rat:
  assumes "0 < p"
  shows "(2::rat) powi (bitlen p - 1) \<le> of_int p" and "of_int p < (2::rat) powi bitlen p"
proof -
  have b: "1 \<le> bitlen p"
    using assms by (metis bitlen_nonneg bitlen_eq_zero_iff int_one_le_iff_zero_less not_less order_le_less)
  have "2 ^ nat (bitlen p - 1) \<le> p \<and> p < 2 ^ nat (bitlen p)"
    using assms by (rule bitlen_bounds)
  then have "(of_int (2 ^ nat (bitlen p - 1)) :: rat) \<le> of_int p"
    and "(of_int p :: rat) < of_int (2 ^ nat (bitlen p))"
    by (simp_all only: of_int_le_iff of_int_less_iff)
  with b show "(2::rat) powi (bitlen p - 1) \<le> of_int p" and "of_int p < (2::rat) powi bitlen p"
    by (simp_all add: power_int_def)
qed

lemma ilog2_bounds:
  assumes "0 < x"
  shows "2 powi ilog2 x \<le> x" and "x < 2 powi (ilog2 x + 1)"
proof -
  obtain p q where pq: "quotient_of x = (p, q)" by fastforce
  then have q: "0 < q" and x: "x = of_int p / of_int q"
    by (simp_all add: quotient_of_denom_pos quotient_of_div)
  with assms have p: "0 < p" by (simp add: zero_less_divide_iff)
  note bp = bitlen_bounds_rat [OF p] and bq = bitlen_bounds_rat [OF q]
  let ?k = "bitlen p - bitlen q"
  have "2 powi (bitlen p - 1) / 2 powi (bitlen q) \<le> x"
    unfolding x using bp bq q p by (intro frac_le) auto
  then have lo: "2 powi (?k - 1) \<le> x"
    by (simp add: power_int_diff divide_simps split: if_splits)
  have "x < 2 powi (bitlen p) / 2 powi (bitlen q - 1)"
    unfolding x using bp bq p by (intro frac_less) (auto intro: less_imp_le)
  then have hi: "x < 2 powi (?k + 1)"
    by (simp add: power_int_diff power_int_add divide_simps split: if_splits)
  show "2 powi ilog2 x \<le> x" and "x < 2 powi (ilog2 x + 1)"
    using lo hi by (simp_all add: ilog2_def pq Let_def)
qed

lemma powi_2_pos [simp]: "(0::rat) < 2 powi e"
  by simp

lemma powi_2_le_iff: "(2::rat) powi a \<le> 2 powi b \<longleftrightarrow> a \<le> b"
  using power_int_increasing [of a b "2::rat"] power_int_strict_increasing [of b a "2::rat"]
  by (auto simp: not_less [symmetric])

lemma ilog2_mono:
  assumes "0 < x" "x \<le> y"
  shows "ilog2 x \<le> ilog2 y"
proof (rule ccontr)
  assume "\<not> ilog2 x \<le> ilog2 y"
  then have "ilog2 y + 1 \<le> ilog2 x" by simp
  then have "(2::rat) powi (ilog2 y + 1) \<le> 2 powi ilog2 x" by (simp only: powi_2_le_iff)
  also have "\<dots> \<le> x" by (rule ilog2_bounds(1) [OF assms(1)])
  also have "\<dots> \<le> y" by (rule assms(2))
  also have "\<dots> < 2 powi (ilog2 y + 1)"
    using assms by (intro ilog2_bounds(2)) simp
  finally show False by simp
qed

lemma rne_mono:
  assumes "x \<le> y"
  shows "rne x \<le> rne y"
proof -
  have "\<lfloor>x\<rfloor> \<le> \<lfloor>y\<rfloor>" using assms by (rule floor_mono)
  then consider "\<lfloor>x\<rfloor> = \<lfloor>y\<rfloor>" | "\<lfloor>x\<rfloor> + 1 \<le> \<lfloor>y\<rfloor>" by linarith
  then show ?thesis
  proof cases
    case 1
    then show ?thesis using assms by (auto simp: rne_def Let_def)
  next
    case 2
    have "rne x \<le> \<lfloor>x\<rfloor> + 1" and "\<lfloor>y\<rfloor> \<le> rne y"
      by (auto simp: rne_def Let_def)
    with 2 show ?thesis by linarith
  qed
qed

lemma rne_of_int [simp]: "rne (of_int i) = i"
  by (simp add: rne_def)

lemma dbl_pos_bounds:
  assumes "0 < x"
  shows "2 powi ilog2 x \<le> dbl_pos x" and "dbl_pos x \<le> 2 powi (ilog2 x + 1)"
proof -
  let ?e = "ilog2 x - 52"
  have lo: "of_int (2 ^ 52) \<le> x / 2 powi ?e"
    using ilog2_bounds(1) [OF assms] by (simp add: power_int_diff field_simps)
  have hi: "x / 2 powi ?e \<le> of_int (2 ^ 53)"
    using ilog2_bounds(2) [OF assms] by (simp add: power_int_diff power_int_add field_simps)
  have "2 ^ 52 \<le> rne (x / 2 powi ?e)"
    using rne_mono [OF lo] by (simp only: rne_of_int)
  moreover have "rne (x / 2 powi ?e) \<le> 2 ^ 53"
    using rne_mono [OF hi] by (simp only: rne_of_int)
  ultimately have "(2 ^ 52 :: rat) \<le> of_int (rne (x / 2 powi ?e))"
    and "of_int (rne (x / 2 powi ?e)) \<le> (2 ^ 53 :: rat)"
    by (metis of_int_le_iff of_int_numeral of_int_power)+
  then have "2 ^ 52 * 2 powi ?e \<le> dbl_pos x" and "dbl_pos x \<le> 2 ^ 53 * 2 powi ?e"
    by (simp_all add: dbl_pos_def Let_def)
  then show "2 powi ilog2 x \<le> dbl_pos x" and "dbl_pos x \<le> 2 powi (ilog2 x + 1)"
    by (simp_all add: power_int_diff power_int_add)
qed

lemma dbl_pos_mono:
  assumes "0 < x" "x \<le> y"
  shows "dbl_pos x \<le> dbl_pos y"
proof (cases "ilog2 x = ilog2 y")
  case True
  let ?e = "ilog2 x - 52"
  have "x / 2 powi ?e \<le> y / 2 powi ?e"
    using assms by (simp add: divide_right_mono)
  then have "rne (x / 2 powi ?e) \<le> rne (y / 2 powi ?e)" by (rule rne_mono)
  with True show ?thesis by (simp add: dbl_pos_def Let_def)
next
  case False
  with ilog2_mono [OF assms] have "ilog2 x + 1 \<le> ilog2 y" by simp
  then have "(2::rat) powi (ilog2 x + 1) \<le> 2 powi ilog2 y" by (simp only: powi_2_le_iff)
  with dbl_pos_bounds(2) [OF assms(1)] dbl_pos_bounds(1) [of y] assms
  show ?thesis by linarith
qed

lemma dbl_pos_gt0: "0 < x \<Longrightarrow> 0 < dbl_pos x"
  using dbl_pos_bounds(1) [of x] powi_2_pos [of "ilog2 x"] by linarith

lemma dbl_0 [simp]: "dbl 0 = 0"
  by (simp add: dbl_def)

lemma dbl_gt0_iff [simp]: "0 < dbl x \<longleftrightarrow> 0 < x"
  using dbl_pos_gt0 [of x] dbl_pos_gt0 [of "- x"] by (auto simp: dbl_def)

lemma dbl_lt0_iff [simp]: "dbl x < 0 \<longleftrightarrow> x < 0"
  using dbl_pos_gt0 [of x] dbl_pos_gt0 [of "- x"] by (auto simp: dbl_def)

lemma dbl_eq_0_iff [simp]: "dbl x = 0 \<longleftrightarrow> x = 0"
  using dbl_pos_gt0 [of x] dbl_pos_gt0 [of "- x"] by (auto simp: dbl_def)

lemma dbl_mono_pos:
  assumes "0 \<le> x" "x \<le> y"
  shows "dbl x \<le> dbl y"
proof (cases "x = 0")
  case True
  then have "\<not> dbl y < 0" using assms by (simp only: dbl_lt0_iff)
  with True show ?thesis by (simp only: dbl_0)
next
  case False
  with assms show ?thesis by (simp add: dbl_def dbl_pos_mono)
qed

lemma dbl_minus [simp]: "dbl (- x) = - dbl x"
  by (simp add: dbl_def)

text \<open>A number of at most 53 significant bits is represented exactly.\<close>

lemma dbl_exact:
  assumes "x = of_nat n * 2 powi e" "n < 2 ^ 53"
  shows "dbl x = x"
proof (cases "n = 0")
  case True
  with assms show ?thesis by simp
next
  case False
  let ?e = "ilog2 x - 52"
  have pos: "0 < x" using False assms(1) by simp
  have "2 powi ilog2 x \<le> x" by (rule ilog2_bounds(1) [OF pos])
  also have "x < of_nat (2 ^ 53) * 2 powi e"
    unfolding assms(1) using assms(2) by (intro mult_strict_right_mono) (simp_all only: of_nat_less_iff powi_2_pos)
  finally have "(2::rat) powi ilog2 x < 2 powi (53 + e)" by (simp add: power_int_add)
  then have e: "0 \<le> e - ?e"
    using powi_2_le_iff [of "53 + e" "ilog2 x"] by linarith
  have "(2::rat) powi (e - ?e) = 2 powi e / 2 powi ?e"
    by (rule power_int_diff) simp
  then have "x / 2 powi ?e = of_nat n * 2 powi (e - ?e)"
    using assms(1) by (metis times_divide_eq_right)
  also have "\<dots> = of_int (int n * 2 ^ nat (e - ?e))"
    using e by (simp add: power_int_def)
  finally have "rne (x / 2 powi ?e) = int n * 2 ^ nat (e - ?e)" and
    q: "x / 2 powi ?e = of_int (int n * 2 ^ nat (e - ?e))"
    by (simp_all only: rne_of_int)
  then have "dbl_pos x = x / 2 powi ?e * 2 powi ?e"
    by (simp only: dbl_pos_def Let_def)
  with pos show ?thesis by (simp add: dbl_def)
qed

lemma dbl_of_nat [simp]: "n < 2 ^ 53 \<Longrightarrow> dbl (of_nat n) = of_nat n"
  by (rule dbl_exact [where n = n and e = 0]) simp_all

text \<open>The value an inexact number is rounded to.\<close>

lemma ilog2_unique:
  assumes "2 powi e \<le> x" "x < 2 powi (e + 1)"
  shows "ilog2 x = e"
proof -
  have pos: "0 < x" using assms(1) powi_2_pos [of e] by linarith
  have "(2::rat) powi e < 2 powi (ilog2 x + 1)" and "(2::rat) powi ilog2 x < 2 powi (e + 1)"
    using ilog2_bounds [OF pos] assms by linarith+
  then show ?thesis
    using powi_2_le_iff [of "ilog2 x + 1" e] powi_2_le_iff [of "e + 1" "ilog2 x"] by linarith
qed

lemma rne_near:
  assumes "\<bar>x - of_int k\<bar> < 1 / 2"
  shows "rne x = k"
proof (cases "of_int k \<le> x")
  case True
  then have "\<lfloor>x\<rfloor> = k" using assms by (intro floor_unique) linarith+
  with assms True show ?thesis by (simp add: rne_def)
next
  case False
  then have "\<lfloor>x\<rfloor> = k - 1" using assms by (intro floor_unique) (auto simp: abs_less_iff)
  with assms False show ?thesis by (simp add: rne_def)
qed

lemma dbl_near:
  assumes "2 powi (e + 52) \<le> x" "x < 2 powi (e + 53)" "\<bar>x / 2 powi e - of_int k\<bar> < 1 / 2"
  shows "dbl x = of_int k * 2 powi e"
proof -
  have "ilog2 x = e + 52" using assms(1,2) by (intro ilog2_unique) (simp_all add: add.assoc)
  moreover have "0 < x" using assms(1) powi_2_pos [of "e + 52"] by linarith
  ultimately show ?thesis
    using rne_near [OF assms(3)] by (simp add: dbl_def dbl_pos_def)
qed

lemma u2d_mono: "unat a \<le> unat b \<Longrightarrow> u2d a \<le> u2d b"
  by (simp add: u2d_def dbl_mono_pos del: of_nat_unat)

lemma u2d_less_imp: "u2d a < u2d b \<Longrightarrow> unat a < unat b"
  using u2d_mono [of b a] by linarith

lemma u2d_nonneg [simp]: "0 \<le> u2d a"
  using dbl_lt0_iff [of "of_nat (unat a)"] by (simp add: u2d_def not_less [symmetric] del: dbl_lt0_iff of_nat_unat)

lemma u2d_exact:
  assumes "unat a < 2 ^ 53"
  shows "u2d a = of_nat (unat a)"
  using assms by (simp only: u2d_def dbl_of_nat)

lemma u2d_inj:
  assumes "u2d a = u2d b" "unat a < 2 ^ 53" "unat b < 2 ^ 53"
  shows "a = b"
  using assms by (simp add: u2d_exact word_unat_eq_iff del: of_nat_unat)

section \<open>Single precision\<close>

text \<open>
  The values of \<^verbatim>\<open>float\<close>, with the two zeros identified, their decoding from 32 bits, and
  addition: exact, then rounded to 24 significant bits, gradually near zero and to an infinity
  beyond the largest finite value.
\<close>

datatype cfloat = Fin rat | Inf bool | NaN

definition f32_round :: "rat \<Rightarrow> cfloat" where
  "f32_round x =
     (if x = 0 then Fin 0
      else
        (let e = max (ilog2 \<bar>x\<bar> - 23) (- 149); y = of_int (rne (\<bar>x\<bar> / 2 powi e)) * 2 powi e
         in if y \<ge> 2 ^ 128 then Inf (x < 0) else Fin (sgn x * y)))"

fun f32_add :: "cfloat \<Rightarrow> cfloat \<Rightarrow> cfloat" where
  "f32_add NaN y = NaN"
| "f32_add x NaN = NaN"
| "f32_add (Inf s) (Inf t) = (if s = t then Inf s else NaN)"
| "f32_add (Inf s) (Fin y) = Inf s"
| "f32_add (Fin x) (Inf t) = Inf t"
| "f32_add (Fin x) (Fin y) = f32_round (x + y)"

text \<open>Division; the sources divide by sums of positive numbers, so a zero divisor counts as positive.\<close>

fun f32_div :: "cfloat \<Rightarrow> cfloat \<Rightarrow> cfloat" where
  "f32_div NaN y = NaN"
| "f32_div x NaN = NaN"
| "f32_div (Fin a) (Fin b) = (if b = 0 then (if a = 0 then NaN else Inf (a < 0)) else f32_round (a / b))"
| "f32_div (Fin a) (Inf t) = Fin 0"
| "f32_div (Inf s) (Fin b) = Inf (s \<noteq> (b < 0))"
| "f32_div (Inf s) (Inf t) = NaN"

definition f32_of_bits :: "nat \<Rightarrow> cfloat" where
  "f32_of_bits n =
     (let s = n div 2 ^ 31 mod 2 = 1; ex = n div 2 ^ 23 mod 256; man = n mod 2 ^ 23
      in if ex = 255 then (if man = 0 then Inf s else NaN)
         else Fin ((if s then - 1 else 1) *
                (if ex = 0 then of_nat man * 2 powi (- 149)
                 else of_nat (2 ^ 23 + man) * 2 powi (int ex - 150))))"

end
