(* ===== verification/CxxFloat.thy ===== *)
theory CxxFloat
  imports CxxDouble "HOL-Library.Multiset"
begin

text \<open>
  Arithmetic on \<^verbatim>\<open>float\<close> and \<^verbatim>\<open>double\<close> values that may be infinite or not a number, as the decoder
  uses it. Both types share \<^typ>\<open>cfloat\<close>; the operations differ in the rounding. The sign of a
  zero is not represented (the decoder divides by nothing). The elementary functions of the C
  library and the sorting algorithms of the C++ library, whose results the language leaves
  open in part, are fields of a record.
\<close>

section \<open>Comparisons and arithmetic\<close>

fun cf_less :: "cfloat \<Rightarrow> cfloat \<Rightarrow> bool" where
  "cf_less NaN y = False"
| "cf_less x NaN = False"
| "cf_less (Inf s) (Inf t) = (s \<and> \<not> t)"
| "cf_less (Inf s) (Fin y) = s"
| "cf_less (Fin x) (Inf t) = (\<not> t)"
| "cf_less (Fin x) (Fin y) = (x < y)"

fun cf_eq :: "cfloat \<Rightarrow> cfloat \<Rightarrow> bool" where
  "cf_eq NaN y = False"
| "cf_eq x NaN = False"
| "cf_eq x y = (x = y)"

definition cf_le :: "cfloat \<Rightarrow> cfloat \<Rightarrow> bool" where
  "cf_le x y \<longleftrightarrow> cf_less x y \<or> cf_eq x y"

fun cf_neg :: "cfloat \<Rightarrow> cfloat" where
  "cf_neg NaN = NaN"
| "cf_neg (Inf s) = Inf (\<not> s)"
| "cf_neg (Fin x) = Fin (- x)"

text \<open>\<^verbatim>\<open>std::max\<close>: the first argument unless it is smaller.\<close>

definition cf_max :: "cfloat \<Rightarrow> cfloat \<Rightarrow> cfloat" where
  "cf_max x y = (if cf_less x y then y else x)"

definition f32_sub :: "cfloat \<Rightarrow> cfloat \<Rightarrow> cfloat" where
  "f32_sub x y = f32_add x (cf_neg y)"

definition f64_round :: "rat \<Rightarrow> cfloat" where
  "f64_round x =
     (if x = 0 then Fin 0
      else
        (let e = max (ilog2 \<bar>x\<bar> - 52) (- 1074); y = of_int (rne (\<bar>x\<bar> / 2 powi e)) * 2 powi e
         in if y \<ge> 2 ^ 1024 then Inf (x < 0) else Fin (sgn x * y)))"

fun f64_add :: "cfloat \<Rightarrow> cfloat \<Rightarrow> cfloat" where
  "f64_add NaN y = NaN"
| "f64_add x NaN = NaN"
| "f64_add (Inf s) (Inf t) = (if s = t then Inf s else NaN)"
| "f64_add (Inf s) (Fin y) = Inf s"
| "f64_add (Fin x) (Inf t) = Inf t"
| "f64_add (Fin x) (Fin y) = f64_round (x + y)"

fun f64_mul :: "cfloat \<Rightarrow> cfloat \<Rightarrow> cfloat" where
  "f64_mul NaN y = NaN"
| "f64_mul x NaN = NaN"
| "f64_mul (Inf s) (Inf t) = Inf (s \<noteq> t)"
| "f64_mul (Inf s) (Fin y) = (if y = 0 then NaN else Inf (s \<noteq> (y < 0)))"
| "f64_mul (Fin x) (Inf t) = (if x = 0 then NaN else Inf (t \<noteq> (x < 0)))"
| "f64_mul (Fin x) (Fin y) = f64_round (x * y)"

definition f64_sub :: "cfloat \<Rightarrow> cfloat \<Rightarrow> cfloat" where
  "f64_sub x y = f64_add x (cf_neg y)"

text \<open>The conversion from \<^verbatim>\<open>double\<close> to \<^verbatim>\<open>float\<close>; the other way nothing is lost.\<close>

fun f32_of_f64 :: "cfloat \<Rightarrow> cfloat" where
  "f32_of_f64 (Fin x) = f32_round x"
| "f32_of_f64 x = x"

text \<open>\<^verbatim>\<open>std::numeric_limits<float>::max()\<close> and \<^verbatim>\<open>min()\<close>.\<close>

definition NUM_FLT_INF :: cfloat where
  "NUM_FLT_INF = Fin 340282346638528859811704183484516925440"

definition NUM_FLT_MIN :: cfloat where
  "NUM_FLT_MIN = Fin (1 / 85070591730234615865843651857942052864)"

definition FLT_LOWEST :: cfloat where
  "FLT_LOWEST = cf_neg NUM_FLT_INF"

section \<open>Laws of the comparison\<close>

lemma cf_less_irrefl [simp]: "\<not> cf_less x x"
  by (cases x) auto

lemma cf_less_trans: "cf_less x y \<Longrightarrow> cf_less y z \<Longrightarrow> cf_less x z"
  by (cases x; cases y; cases z) auto

lemma cf_less_asym: "cf_less x y \<Longrightarrow> \<not> cf_less y x"
  by (cases x; cases y) auto

text \<open>Incomparability is transitive as long as nothing is NaN, so the comparison can sort.\<close>

lemma cf_less_incomp:
  assumes "\<not> cf_less x y" "\<not> cf_less y z" "y \<noteq> NaN"
  shows "\<not> cf_less x z"
  using assms by (cases x; cases y; cases z) auto

lemma cf_less_linear: "x \<noteq> NaN \<Longrightarrow> y \<noteq> NaN \<Longrightarrow> cf_less x y \<or> x = y \<or> cf_less y x"
  by (cases x; cases y) auto

section \<open>Sorting by a comparison\<close>

text \<open>
  What \<^verbatim>\<open>std::sort\<close> guarantees: it permutes its range, and if the comparison is a weak order on
  the elements (here: if all of them satisfy \<open>valid\<close>, which will say that no key is NaN), no
  element is to come before an earlier one. The order of equivalent elements is left open.
  \<^verbatim>\<open>std::nth_element\<close> only separates the first \<open>n\<close> elements from the rest.
\<close>

definition sorted_by :: "('a \<Rightarrow> 'a \<Rightarrow> bool) \<Rightarrow> 'a list \<Rightarrow> bool" where
  "sorted_by before xs \<longleftrightarrow> sorted_wrt (\<lambda>x y. \<not> before y x) xs"

definition sorts :: "('a \<Rightarrow> bool) \<Rightarrow> ('a \<Rightarrow> 'a \<Rightarrow> bool) \<Rightarrow> ('a list \<Rightarrow> 'a list) \<Rightarrow> bool" where
  "sorts valid before f \<longleftrightarrow> (\<forall>xs. mset (f xs) = mset xs \<and> (list_all valid xs \<longrightarrow> sorted_by before (f xs)))"

definition separates :: "('a \<Rightarrow> bool) \<Rightarrow> ('a \<Rightarrow> 'a \<Rightarrow> bool) \<Rightarrow> (nat \<Rightarrow> 'a list \<Rightarrow> 'a list) \<Rightarrow> bool" where
  "separates valid before f \<longleftrightarrow> (\<forall>n xs. mset (f n xs) = mset xs \<and>
     (list_all valid xs \<longrightarrow> (\<forall>x \<in> set (take n (f n xs)). \<forall>y \<in> set (drop n (f n xs)). \<not> before y x)))"

definition weak_order_on :: "('a \<Rightarrow> bool) \<Rightarrow> ('a \<Rightarrow> 'a \<Rightarrow> bool) \<Rightarrow> bool" where
  "weak_order_on valid before \<longleftrightarrow>
     (\<forall>x y. valid x \<longrightarrow> valid y \<longrightarrow> before x y \<longrightarrow> \<not> before y x) \<and>
     (\<forall>x y z. valid x \<longrightarrow> valid y \<longrightarrow> valid z \<longrightarrow> \<not> before x y \<longrightarrow> \<not> before y z \<longrightarrow> \<not> before x z)"

lemma weak_order_asym: "weak_order_on valid before \<Longrightarrow> valid x \<Longrightarrow> valid y \<Longrightarrow> before x y \<Longrightarrow> \<not> before y x"
  unfolding weak_order_on_def by (drule conjunct1) blast

lemma weak_order_onI:
  assumes "\<And>x y. valid x \<Longrightarrow> valid y \<Longrightarrow> before x y \<Longrightarrow> \<not> before y x"
    and "\<And>x y z. valid x \<Longrightarrow> valid y \<Longrightarrow> valid z \<Longrightarrow> \<not> before x y \<Longrightarrow> \<not> before y z \<Longrightarrow> \<not> before x z"
  shows "weak_order_on valid before"
proof (unfold weak_order_on_def, intro conjI allI impI)
  show "\<not> before y x" if "valid x" "valid y" "before x y" for x y using that by (rule assms(1))
  show "\<not> before x z" if "valid x" "valid y" "valid z" "\<not> before x y" "\<not> before y z" for x y z
    using that by (rule assms(2))
qed

fun insert_by :: "('a \<Rightarrow> 'a \<Rightarrow> bool) \<Rightarrow> 'a \<Rightarrow> 'a list \<Rightarrow> 'a list" where
  "insert_by before x [] = [x]"
| "insert_by before x (y # ys) = (if before y x then y # insert_by before x ys else x # y # ys)"

definition insort_by :: "('a \<Rightarrow> 'a \<Rightarrow> bool) \<Rightarrow> 'a list \<Rightarrow> 'a list" where
  "insort_by before xs = foldr (insert_by before) xs []"

lemma mset_insert_by [simp]: "mset (insert_by before x xs) = add_mset x (mset xs)"
  by (induction xs) auto

lemma set_insert_by [simp]: "set (insert_by before x xs) = insert x (set xs)"
  by (metis mset_insert_by set_mset_add_mset_insert set_mset_mset)

lemma sorted_by_insert_by:
  assumes "weak_order_on valid before" "valid x" "list_all valid xs" "sorted_by before xs"
  shows "sorted_by before (insert_by before x xs)"
  using assms(3,4)
proof (induction xs)
  case (Cons y ys)
  show ?case
  proof (cases "before y x")
    case True
    then have "\<not> before x y" using weak_order_asym [OF assms(1) _ assms(2)] Cons.prems(1) by simp
    with True Cons.IH Cons.prems show ?thesis by (simp add: sorted_by_def)
  next
    case False
    have "\<not> before z x" if "z \<in> set ys" for z
    proof -
      have "\<not> before z y" "valid z" "valid y" using Cons.prems that by (auto simp: sorted_by_def list_all_iff)
      with False show ?thesis using assms(1,2) unfolding weak_order_on_def by blast
    qed
    with False Cons.prems(2) show ?thesis by (auto simp: sorted_by_def)
  qed
qed (simp add: sorted_by_def)

lemma sorts_insort_by:
  assumes "weak_order_on valid before"
  shows "sorts valid before (insort_by before)"
proof -
  have m: "mset (insort_by before xs) = mset xs" for xs :: "'a list"
    by (induction xs) (simp_all add: insort_by_def)
  then have se: "set (insort_by before xs) = set xs" for xs by (metis set_mset_mset)
  have "sorted_by before (insort_by before xs)" if "list_all valid xs" for xs
    using that
  proof (induction xs)
    case (Cons x xs)
    then have "sorted_by before (insert_by before x (insort_by before xs))"
      by (intro sorted_by_insert_by [OF assms]) (auto simp: list_all_iff se)
    then show ?case by (simp add: insort_by_def)
  qed (simp add: insort_by_def sorted_by_def)
  with m show ?thesis by (simp add: sorts_def)
qed

lemma separates_of_sorts:
  assumes "sorts valid before f"
  shows "separates valid before (\<lambda>n. f)"
proof -
  have "\<not> before y x" if "list_all valid xs" "x \<in> set (take n (f xs))" "y \<in> set (drop n (f xs))" for n xs x y
  proof -
    have "sorted_wrt (\<lambda>x y. \<not> before y x) (take n (f xs) @ drop n (f xs))"
      using assms that(1) by (simp add: sorts_def sorted_by_def)
    with that(2,3) show ?thesis by (auto simp only: sorted_wrt_append)
  qed
  with assms show ?thesis by (auto simp: separates_def sorts_def)
qed

section \<open>The library\<close>

text \<open>
  \<^verbatim>\<open>std::log\<close>, \<^verbatim>\<open>std::exp\<close>, the sort of probabilities by descending value, and the sort and the
  partial sort of prefixes, each given by its address, score and character.
\<close>

type_synonym prefix_key = "nat \<times> cfloat \<times> int"

record cxx_lib =
  lib_log :: "cfloat \<Rightarrow> cfloat"
  lib_exp :: "cfloat \<Rightarrow> cfloat"
  lib_sort_probs :: "(nat \<times> cfloat) list \<Rightarrow> (nat \<times> cfloat) list"
  lib_sort_prefixes :: "prefix_key list \<Rightarrow> prefix_key list"
  lib_nth_element :: "nat \<Rightarrow> prefix_key list \<Rightarrow> prefix_key list"

text \<open>The comparison functions of \<^verbatim>\<open>decoder_utils\<close>.\<close>

definition pair_comp_second_rev :: "'a \<times> cfloat \<Rightarrow> 'a \<times> cfloat \<Rightarrow> bool" where
  "pair_comp_second_rev a b \<longleftrightarrow> cf_less (snd b) (snd a)"

definition prefix_compare :: "prefix_key \<Rightarrow> prefix_key \<Rightarrow> bool" where
  "prefix_compare x y =
     (case (x, y) of ((_, sx, cx), (_, sy, cy)) \<Rightarrow>
        if cf_eq sx sy then (if cx = cy then False else cx < cy) else cf_less sy sx)"

lemma pair_comp_weak_order: "weak_order_on (\<lambda>p. snd p \<noteq> NaN) pair_comp_second_rev"
  unfolding weak_order_on_def pair_comp_second_rev_def by (meson cf_less_asym cf_less_incomp)

lemma cf_eq_iff: "x \<noteq> NaN \<Longrightarrow> cf_eq x y \<longleftrightarrow> x = y"
  by (cases x; cases y) auto

lemma prefix_compare_weak_order: "weak_order_on (\<lambda>(_, s, _). s \<noteq> NaN) prefix_compare"
proof -
  have 1: "\<not> prefix_compare (b, t, d) (a, s, c)"
    if "s \<noteq> NaN" "t \<noteq> NaN" "prefix_compare (a, s, c) (b, t, d)" for a b s t c d
    using that cf_less_asym by (auto simp: prefix_compare_def cf_eq_iff split: if_splits)
  have 2: "\<not> prefix_compare (a, s, c) (f, u, e)"
    if "s \<noteq> NaN" "t \<noteq> NaN" "u \<noteq> NaN" "\<not> prefix_compare (a, s, c) (b, t, d)" "\<not> prefix_compare (b, t, d) (f, u, e)"
    for a b f s t u c d e
    using that by (cases s; cases t; cases u) (auto simp: prefix_compare_def split: if_splits)
  show ?thesis
  proof (rule weak_order_onI)
    fix x y z :: prefix_key
    assume v: "case x of (_, s, _) \<Rightarrow> s \<noteq> NaN" "case y of (_, s, _) \<Rightarrow> s \<noteq> NaN"
    obtain a s c b t d f u e where e: "x = (a, s, c)" "y = (b, t, d)" "z = (f, u, e)"
      by (metis prod.exhaust)
    show "\<not> prefix_compare y x" if "prefix_compare x y"
      using v that 1 [of s t a c b d] by (simp add: e)
    show "\<not> prefix_compare x z"
      if "case z of (_, s, _) \<Rightarrow> s \<noteq> NaN" "\<not> prefix_compare x y" "\<not> prefix_compare y z"
      using v that 2 [of s t u a c b d f e] by (simp add: e)
  qed
qed

definition lib_ok :: "cxx_lib \<Rightarrow> bool" where
  "lib_ok lib \<longleftrightarrow> sorts (\<lambda>p. snd p \<noteq> NaN) pair_comp_second_rev (lib_sort_probs lib) \<and>
     sorts (\<lambda>(_, s, _). s \<noteq> NaN) prefix_compare (lib_sort_prefixes lib) \<and>
     separates (\<lambda>(_, s, _). s \<noteq> NaN) prefix_compare (lib_nth_element lib)"

text \<open>A concrete library, for evaluation: insertion sorts, with given elementary functions.\<close>

definition insertion_lib :: "(cfloat \<Rightarrow> cfloat) \<Rightarrow> (cfloat \<Rightarrow> cfloat) \<Rightarrow> cxx_lib" where
  "insertion_lib lg ex = \<lparr>lib_log = lg, lib_exp = ex, lib_sort_probs = insort_by pair_comp_second_rev,
     lib_sort_prefixes = insort_by prefix_compare, lib_nth_element = (\<lambda>n. insort_by prefix_compare)\<rparr>"

lemma insertion_lib_ok: "lib_ok (insertion_lib lg ex)"
  using sorts_insort_by [OF pair_comp_weak_order] sorts_insort_by [OF prefix_compare_weak_order]
    separates_of_sorts [OF sorts_insort_by [OF prefix_compare_weak_order]]
  by (simp add: lib_ok_def insertion_lib_def)

lemma sorts_set: "sorts valid before f \<Longrightarrow> set (f xs) = set xs"
  by (metis sorts_def set_mset_mset)

lemma sorts_length: "sorts valid before f \<Longrightarrow> length (f xs) = length xs"
  by (metis sorts_def size_mset)

lemma separates_set: "separates valid before f \<Longrightarrow> set (f n xs) = set xs"
  by (metis separates_def set_mset_mset)

lemma separates_distinct: "separates valid before f \<Longrightarrow> distinct (f n xs) \<longleftrightarrow> distinct xs"
  by (metis separates_def mset_eq_imp_distinct_iff)

lemma sorts_distinct: "sorts valid before f \<Longrightarrow> distinct (f xs) \<longleftrightarrow> distinct xs"
  by (metis sorts_def mset_eq_imp_distinct_iff)

end
