(* ===== verification/DecoderUtils.thy ===== *)
theory DecoderUtils
  imports CxxFloat
begin

unbundle bit_operations_syntax

text \<open>
  The helpers of \<^verbatim>\<open>decoder_utils.h\<close> and \<^verbatim>\<open>.cpp\<close> that do not touch the prefix trie: sums of
  probabilities in log scale, the pruning of one frame's probabilities, and the splitting of
  byte strings into UTF-8 characters, bytes and words. A string is its list of bytes.
\<close>

section \<open>Probabilities\<close>

definition log_sum_exp :: "cxx_lib \<Rightarrow> cfloat \<Rightarrow> cfloat \<Rightarrow> cfloat" where
  "log_sum_exp lib x y =
     (if cf_le x FLT_LOWEST then y
      else if cf_le y FLT_LOWEST then x
      else
        (let xmax = cf_max x y
         in f32_add (lib_log lib (f32_add (lib_exp lib (f32_sub x xmax)) (lib_exp lib (f32_sub y xmax)))) xmax))"

text \<open>The values of one frame, \<^verbatim>\<open>prob_step[i * prob_stride]\<close>, in an array without bounds check.\<close>

fun read_step :: "cfloat list \<Rightarrow> nat \<Rightarrow> nat \<Rightarrow> nat \<Rightarrow> (nat \<times> cfloat) list result" where
  "read_step prob_step stride 0 i = Inr []"
| "read_step prob_step stride (Suc n) i =
     rbind (vec_at prob_step (i * stride)) (\<lambda>p.
     rbind (read_step prob_step stride n (i + 1)) (\<lambda>ps. Inr ((i, p) # ps)))"

text \<open>The loop that accumulates probability until one of the two cut-offs is reached.\<close>

fun cutoff_loop :: "cxx_lib \<Rightarrow> cfloat \<Rightarrow> nat \<Rightarrow> bool \<Rightarrow> (nat \<times> cfloat) list \<Rightarrow> cfloat \<Rightarrow> nat \<Rightarrow> nat" where
  "cutoff_loop lib cutoff_prob top_n log_probs [] cum_prob cutoff_len = cutoff_len"
| "cutoff_loop lib cutoff_prob top_n log_probs ((i, p) # ps) cum_prob cutoff_len =
     (let cum_prob = log_sum_exp lib cum_prob (if log_probs then p else lib_log lib p);
          cutoff_len = cutoff_len + 1
      in if cf_le cutoff_prob cum_prob \<or> cutoff_len \<ge> top_n then cutoff_len
         else cutoff_loop lib cutoff_prob top_n log_probs ps cum_prob cutoff_len)"

definition get_pruned_log_probs ::
  "cxx_lib \<Rightarrow> cfloat list \<Rightarrow> nat \<Rightarrow> nat \<Rightarrow> cfloat \<Rightarrow> nat \<Rightarrow> bool \<Rightarrow> (nat \<times> cfloat) list result" where
  "get_pruned_log_probs lib prob_step alphabet_len prob_stride cutoff_prob cutoff_top_n log_probs =
     rbind (read_step prob_step prob_stride alphabet_len 0) (\<lambda>prob_idx.
       (let log_cutoff_prob = lib_log lib cutoff_prob;
            pruned = (if cf_less log_cutoff_prob (Fin 0) \<or> cutoff_top_n < alphabet_len
              then
                (let by_prob = lib_sort_probs lib prob_idx;
                     cutoff_len = (if cf_less log_cutoff_prob (Fin 0)
                       then cutoff_loop lib cutoff_prob cutoff_top_n log_probs by_prob (Fin 0) 0
                       else cutoff_top_n)
                 in take cutoff_len by_prob)
              else prob_idx)
        in Inr (map (\<lambda>(i, p). (i, if log_probs then p else lib_log lib (f32_add p NUM_FLT_MIN))) pruned)))"

section \<open>Strings\<close>

type_synonym bytes = "u8 list"

text \<open>Only continuation bytes have \<^verbatim>\<open>10\<close> as their two highest bits.\<close>

definition byte_is_codepoint_boundary :: "u8 \<Rightarrow> bool" where
  "byte_is_codepoint_boundary c \<longleftrightarrow> c AND 192 \<noteq> 128"

definition get_utf8_str_len :: "bytes \<Rightarrow> nat" where
  "get_utf8_str_len str = foldl (\<lambda>n c. n + (if byte_is_codepoint_boundary c then 1 else 0)) 0 str"

fun split_utf8_loop :: "bytes \<Rightarrow> bytes list \<Rightarrow> bytes \<Rightarrow> bytes list" where
  "split_utf8_loop [] result out_str = result @ [out_str]"
| "split_utf8_loop (c # cs) result out_str =
     (if byte_is_codepoint_boundary c \<and> out_str \<noteq> []
      then split_utf8_loop cs (result @ [out_str]) [c]
      else split_utf8_loop cs result (out_str @ [c]))"

definition split_utf8_str :: "bytes \<Rightarrow> bytes list" where
  "split_utf8_str str = split_utf8_loop str [] []"

definition split_into_bytes :: "bytes \<Rightarrow> bytes list" where
  "split_into_bytes str = map (\<lambda>c. [c]) str"

text \<open>For an empty delimiter the loop does not advance: \<open>None\<close>.\<close>

partial_function (option) split_str_loop :: "bytes \<Rightarrow> bytes \<Rightarrow> nat \<Rightarrow> bytes list \<Rightarrow> bytes list option" where
  "split_str_loop s delim start result =
     (case str_find s delim start of
        None \<Rightarrow> Some (if start < length s then result @ [drop start s] else result)
      | Some e \<Rightarrow>
          split_str_loop s delim (e + length delim)
            (if e > start then result @ [take (e - start) (drop start s)] else result))"

definition split_str :: "bytes \<Rightarrow> bytes \<Rightarrow> bytes list option" where
  "split_str s delim = split_str_loop s delim 0 []"

text \<open>
  \<^verbatim>\<open>add_word_to_dictionary\<close>: a word with a character outside the alphabet is not added. The
  result is the return value and the new vocabulary.
\<close>

fun map_chars :: "(bytes \<rightharpoonup> int) \<Rightarrow> bytes list \<Rightarrow> int list option" where
  "map_chars char_map [] = Some []"
| "map_chars char_map (c # cs) =
     (case char_map c of
        None \<Rightarrow> None
      | Some i \<Rightarrow> map_option (\<lambda>is. i # is) (map_chars char_map cs))"

definition add_word_to_dictionary ::
  "bytes \<Rightarrow> (bytes \<rightharpoonup> int) \<Rightarrow> bool \<Rightarrow> int \<Rightarrow> int list list \<Rightarrow> bool \<times> int list list" where
  "add_word_to_dictionary word char_map add_space space_id int_vocabulary =
     (case map_chars char_map (if add_space then split_utf8_str word else split_into_bytes word) of
        None \<Rightarrow> (False, int_vocabulary)
      | Some int_word \<Rightarrow> (True, int_vocabulary @ [if add_space then int_word @ [space_id] else int_word]))"

section \<open>Splitting\<close>

lemma split_utf8_loop_concat: "concat (split_utf8_loop cs result out) = concat result @ out @ cs"
  by (induction cs result out rule: split_utf8_loop.induct) auto

text \<open>A code point: a boundary byte with the continuation bytes behind it.\<close>

definition codepoint :: "bytes \<Rightarrow> bool" where
  "codepoint w \<longleftrightarrow> w \<noteq> [] \<and> byte_is_codepoint_boundary (hd w) \<and>
     list_all (\<lambda>c. \<not> byte_is_codepoint_boundary c) (tl w)"

lemma split_utf8_loop_codepoints:
  assumes "list_all codepoint result" "codepoint out"
  shows "list_all codepoint (split_utf8_loop cs result out)"
  using assms
proof (induction cs arbitrary: result out)
  case (Cons c cs)
  show ?case
  proof (cases "byte_is_codepoint_boundary c")
    case True
    with Cons have "list_all codepoint (split_utf8_loop cs (result @ [out]) [c])"
      by (intro Cons.IH) (simp_all add: codepoint_def)
    moreover have "out \<noteq> []" using Cons.prems(2) by (simp add: codepoint_def)
    ultimately show ?thesis using True by simp
  next
    case False
    with Cons have "list_all codepoint (split_utf8_loop cs result (out @ [c]))"
      by (intro Cons.IH) (simp_all add: codepoint_def)
    with False show ?thesis by simp
  qed
qed simp

lemma foldl_count: "foldl (\<lambda>n c. n + (if P c then 1 else 0)) k xs = k + length (filter P xs)"
  by (induction xs arbitrary: k) auto

lemma codepoint_count: "codepoint w \<Longrightarrow> length (filter byte_is_codepoint_boundary w) = 1"
  by (cases w) (auto simp: codepoint_def list_all_iff filter_empty_conv)

lemma concat_codepoints_count:
  "list_all codepoint ws \<Longrightarrow> length (filter byte_is_codepoint_boundary (concat ws)) = length ws"
  by (induction ws) (simp_all add: codepoint_count)

text \<open>The pieces between single-byte delimiters, empty ones included: the reference.\<close>

fun pieces :: "'a \<Rightarrow> 'a list \<Rightarrow> 'a list list" where
  "pieces d [] = [[]]"
| "pieces d (c # cs) = (if c = d then [] # pieces d cs else (c # hd (pieces d cs)) # tl (pieces d cs))"

lemma pieces_not_Nil: "pieces d cs \<noteq> []"
  by (cases cs) auto

lemma pieces_until: "d \<notin> set xs \<Longrightarrow> pieces d (xs @ d # ys) = xs # pieces d ys"
  by (induction xs) auto

lemma pieces_no_delim: "d \<notin> set xs \<Longrightarrow> pieces d xs = [xs]"
  by (induction xs) auto

lemma split_str_loop_pieces:
  assumes "start \<le> length s"
  shows "split_str_loop s [d] start result =
    Some (result @ filter (\<lambda>w. w \<noteq> []) (pieces d (drop start s)))"
  using assms
proof (induction "length s - start" arbitrary: start result rule: less_induct)
  case less
  show ?case
  proof (cases "str_find s [d] start")
    case None
    then have "s ! i \<noteq> d" if "start \<le> i" "i < length s" for i
      using that by (auto simp: str_find_None occurs_at_single)
    then have "d \<notin> set (drop start s)" by (auto simp: in_set_conv_nth)
    with None less.prems show ?thesis
      by (subst split_str_loop.simps) (auto simp: pieces_no_delim)
  next
    case (Some e)
    then have e: "start \<le> e" "e < length s" "s ! e = d" "\<And>i. start \<le> i \<Longrightarrow> i < e \<Longrightarrow> s ! i \<noteq> d"
      using str_find_Some [OF Some] by (auto simp: occurs_at_single)
    let ?w = "take (e - start) (drop start s)"
    have "drop start s = ?w @ d # drop (e + 1) s"
      using e(1-3) by (metis Cons_nth_drop_Suc Suc_eq_plus1 append_take_drop_id drop_drop le_add_diff_inverse2)
    moreover have "d \<notin> set ?w" using e(4) by (auto simp: in_set_conv_nth)
    ultimately have "pieces d (drop start s) = ?w # pieces d (drop (e + 1) s)"
      using pieces_until [of d ?w] by metis
    moreover have "?w \<noteq> [] \<longleftrightarrow> e > start" using e(1,2) by auto
    moreover have "split_str_loop s [d] (e + 1) r = Some (r @ filter (\<lambda>w. w \<noteq> []) (pieces d (drop (e + 1) s)))" for r
      using e(1,2) by (intro less.hyps) auto
    ultimately show ?thesis using Some by (subst split_str_loop.simps) simp
  qed
qed

section \<open>Pruning\<close>

lemma read_step_spec:
  "read_step ps stride n i = Inr xs \<Longrightarrow>
     xs = map (\<lambda>j. (j, ps ! (j * stride))) [i..<i + n] \<and> (n = 0 \<or> (i + n - 1) * stride < length ps)"
proof (induction ps stride n i arbitrary: xs rule: read_step.induct)
  case (2 ps stride n i)
  then obtain ys where ys: "i * stride < length ps" "read_step ps stride n (i + 1) = Inr ys"
    "xs = (i, ps ! (i * stride)) # ys"
    by (auto simp: result_simps vec_at_def split: if_splits)
  note ih = "2.IH" [OF ys(2)]
  moreover have "[i..<i + Suc n] = i # [i + 1..<i + 1 + n]" by (simp add: upt_conv_Cons)
  moreover have "(i + Suc n - 1) * stride < length ps" using ih ys(1) by (cases "n = 0") auto
  ultimately show ?case using ys(3) by (simp del: upt_Suc)
qed simp

lemma cutoff_loop_bounds:
  "k \<le> cutoff_loop lib cp n lp xs cum k \<and> cutoff_loop lib cp n lp xs cum k \<le> k + length xs"
proof (induction xs arbitrary: cum k)
  case (Cons x xs)
  obtain i p where x: "x = (i, p)" by fastforce
  let ?c = "log_sum_exp lib cum (if lp then p else lib_log lib p)"
  show ?case
  proof (cases "cf_le cp ?c \<or> n \<le> k + 1")
    case False
    with Cons.IH [of "k + 1" ?c] show ?thesis by (simp only: x cutoff_loop.simps Let_def) simp
  qed (simp only: x cutoff_loop.simps Let_def, simp)
qed simp

lemma cutoff_loop_top: "xs \<noteq> [] \<Longrightarrow> k < n \<Longrightarrow> cutoff_loop lib cp n lp xs cum k \<le> n"
proof (induction lib cp n lp xs cum k rule: cutoff_loop.induct)
  case (2 lib cp n lp i p ps cum k)
  then show ?case by (cases ps) (auto simp: Let_def)
qed simp

lemma pruned_entries:
  assumes "lib_ok lib" "get_pruned_log_probs lib ps n stride cp topn lp = Inr xs"
  shows "\<exists>ys zs. mset (ys @ zs) = mset (map (\<lambda>j. (j, ps ! (j * stride))) [0..<n]) \<and>
    xs = map (\<lambda>(i, p). (i, if lp then p else lib_log lib (f32_add p NUM_FLT_MIN))) ys \<and>
    (list_all (\<lambda>p. p \<noteq> NaN) ps \<longrightarrow> (\<forall>y \<in> set ys. \<forall>z \<in> set zs. \<not> cf_less (snd y) (snd z)))"
proof -
  let ?idx = "map (\<lambda>j. (j, ps ! (j * stride))) [0..<n]"
  let ?f = "\<lambda>(i, p). (i, if lp then p else lib_log lib (f32_add p NUM_FLT_MIN))"
  let ?cut = "cf_less (lib_log lib cp) (Fin 0)"
  obtain idx where r: "read_step ps stride n 0 = Inr idx"
    using assms(2) by (auto simp: get_pruned_log_probs_def result_simps)
  then have idx: "idx = ?idx" "n = 0 \<or> (n - 1) * stride < length ps" using read_step_spec by force+
  define m where "m = (if ?cut then cutoff_loop lib cp topn lp (lib_sort_probs lib idx) (Fin 0) 0 else topn)"
  show ?thesis
  proof (cases "?cut \<or> topn < n")
    case True
    have so: "sorts (\<lambda>p. snd p \<noteq> NaN) pair_comp_second_rev (lib_sort_probs lib)"
      using assms(1) by (simp add: lib_ok_def)
    have "\<not> cf_less (snd y) (snd z)" if "list_all (\<lambda>p. p \<noteq> NaN) ps"
      "y \<in> set (take m (lib_sort_probs lib idx))" "z \<in> set (drop m (lib_sort_probs lib idx))" for y z
    proof -
      have "j * stride < length ps" if "j < n" for j
        using idx(2) that mult_le_mono1 [of j "n - 1" stride] by linarith
      then have "list_all (\<lambda>p. snd p \<noteq> NaN) idx"
        using that(1) by (auto simp: idx(1) list_all_iff)
      then have "sorted_wrt (\<lambda>x y. \<not> pair_comp_second_rev y x)
          (take m (lib_sort_probs lib idx) @ drop m (lib_sort_probs lib idx))"
        using so by (simp add: sorts_def sorted_by_def)
      with that(2,3) show ?thesis by (auto simp only: sorted_wrt_append pair_comp_second_rev_def)
    qed
    moreover have "xs = map ?f (take m (lib_sort_probs lib idx))"
      using assms(2) r True by (auto simp: get_pruned_log_probs_def m_def Let_def)
    moreover have "mset (take m (lib_sort_probs lib idx) @ drop m (lib_sort_probs lib idx)) = mset ?idx"
      using so by (simp only: append_take_drop_id sorts_def idx(1) [symmetric])
    ultimately show ?thesis by blast
  next
    case False
    with assms(2) r have "xs = map ?f idx" by (auto simp: get_pruned_log_probs_def Let_def)
    then show ?thesis using idx(1) by (intro exI [of _ idx] exI [of _ "[]"]) simp
  qed
qed

section \<open>Properties\<close>

text \<open>
  Splitting a byte string that starts at a code point boundary yields its code points in
  order: nothing is lost, every piece is a boundary byte with its continuation bytes, and there
  are as many pieces as \<^verbatim>\<open>get_utf8_str_len\<close> counts.
\<close>

theorem split_utf8_str_codepoints:
  assumes "str \<noteq> []" "byte_is_codepoint_boundary (hd str)"
  shows "concat (split_utf8_str str) = str \<and> list_all codepoint (split_utf8_str str) \<and>
    length (split_utf8_str str) = get_utf8_str_len str"
proof -
  obtain c cs where str: "str = c # cs" using assms(1) by (cases str) auto
  have c: "concat (split_utf8_str str) = str" by (simp add: split_utf8_str_def split_utf8_loop_concat)
  have w: "list_all codepoint (split_utf8_str str)"
    using split_utf8_loop_codepoints [of "[]" "[c]" cs] assms(2)
    by (simp add: split_utf8_str_def str codepoint_def)
  show ?thesis
    using c w concat_codepoints_count [OF w] by (simp add: get_utf8_str_len_def foldl_count)
qed

theorem split_utf8_str_codepoints_witness:
  "concat (split_utf8_str [97, 195, 164, 98]) = [97, 195, 164, 98] \<and>
   length (split_utf8_str [97, 195, 164, 98]) = 3"
proof -
  have "byte_is_codepoint_boundary 97" "get_utf8_str_len [97, 195, 164, 98] = 3" by code_simp+
  with split_utf8_str_codepoints [of "[97, 195, 164, 98]"] show ?thesis by simp
qed

text \<open>
  Splitting at a one-byte delimiter terminates and gives exactly the non-empty pieces
  between the delimiters, in order.
\<close>

theorem split_str_pieces:
  "split_str s [d] = Some (filter (\<lambda>w. w \<noteq> []) (pieces d s))"
  using split_str_loop_pieces [of 0 s d "[]"] by (simp add: split_str_def)

text \<open>
  Pruning the probabilities of a frame keeps, for every library that sorts, distinct
  indices of the alphabet with their own probabilities, and no probability that was dropped is
  greater than one that was kept (unless the frame contains NaN).
\<close>

theorem get_pruned_log_probs_best:
  assumes "lib_ok lib" "get_pruned_log_probs lib ps n stride cp topn True = Inr xs"
  shows "distinct (map fst xs) \<and> (\<forall>(i, p) \<in> set xs. i < n \<and> p = ps ! (i * stride)) \<and>
    (list_all (\<lambda>p. p \<noteq> NaN) ps \<longrightarrow>
      (\<forall>j < n. j \<notin> fst ` set xs \<longrightarrow> (\<forall>(i, p) \<in> set xs. \<not> cf_less p (ps ! (j * stride)))))"
proof -
  obtain ys zs where yz: "mset (ys @ zs) = mset (map (\<lambda>j. (j, ps ! (j * stride))) [0..<n])" "xs = ys"
    "list_all (\<lambda>p. p \<noteq> NaN) ps \<longrightarrow> (\<forall>y \<in> set ys. \<forall>z \<in> set zs. \<not> cf_less (snd y) (snd z))"
    using pruned_entries [OF assms] by auto
  have "mset (map fst (ys @ zs)) = mset (map fst (map (\<lambda>j. (j, ps ! (j * stride))) [0..<n]))"
    using yz(1) by (metis mset_map)
  then have "mset (map fst (ys @ zs)) = mset [0..<n]" by (simp add: comp_def)
  then have d: "distinct (map fst (ys @ zs))" by (metis mset_eq_imp_distinct_iff distinct_upt)
  have s: "set (ys @ zs) = (\<lambda>j. (j, ps ! (j * stride))) ` {0..<n}"
    using yz(1) by (metis set_mset_mset set_map set_upt)
  have "(j, ps ! (j * stride)) \<in> set zs" if "j < n" "j \<notin> fst ` set xs" for j
  proof -
    have "(j, ps ! (j * stride)) \<in> set (ys @ zs)" using s that(1) by auto
    with that(2) yz(2) show ?thesis by force
  qed
  then have "\<not> cf_less p (ps ! (j * stride))" if "list_all (\<lambda>p. p \<noteq> NaN) ps" "j < n" "j \<notin> fst ` set xs" "(i, p) \<in> set xs" for i j p
    using yz(2,3) that by fastforce
  moreover have "i < n \<and> p = ps ! (i * stride)" if "(i, p) \<in> set xs" for i p
  proof -
    have "(i, p) \<in> set (ys @ zs)" using that yz(2) by simp
    with s show ?thesis by auto
  qed
  ultimately show ?thesis using d yz(2) by auto
qed

theorem get_pruned_log_probs_best_witness:
  "\<exists>xs. get_pruned_log_probs (insertion_lib id id) [Fin 1, Fin 3, Fin 2] 3 1 (Fin 1) 2 True = Inr xs \<and>
     distinct (map fst xs) \<and> 0 \<notin> fst ` set xs"
proof -
  have "get_pruned_log_probs (insertion_lib id id) [Fin 1, Fin 3, Fin 2] 3 1 (Fin 1) 2 True =
    Inr [(1, Fin 3), (2, Fin 2)]" by code_simp
  with get_pruned_log_probs_best [OF insertion_lib_ok this] show ?thesis by simp
qed

end
