(* ===== verification/WordPrefixSet.thy ===== *)
theory WordPrefixSet
  imports CcaiPrelude "HOL-Library.List_Lexorder" "HOL-Library.Sublist"
begin

text \<open>
  The dictionary of word prefixes, \<^verbatim>\<open>word_prefix_set.cpp\<close>: a trie in breadth-first layers. Layer
  \<open>n\<close> lists, for all nodes of depth \<open>n\<close> one after the other, the labels of their arcs, the start
  of each arc's children in layer \<open>n + 1\<close> and whether a word ends with the arc. The main result
  is that walking through it accepts exactly the prefixes of the words, provided no word is a
  proper prefix of another; without that proviso words can get lost, which is shown as well.
\<close>

section \<open>Operations\<close>

record word_prefix_set =
  trie_chars :: "int list list"
  trie_starts :: "nat list list"
  trie_weights :: "bool list list"

record wps_state =
  wps_length :: nat
  wps_start :: nat
  wps_end :: nat
  wps_weight :: bool

definition push_arc :: "word_prefix_set \<Rightarrow> nat \<Rightarrow> int \<Rightarrow> nat \<Rightarrow> bool \<Rightarrow> word_prefix_set" where
  "push_arc ps i c start w =
     ps\<lparr>trie_chars := (trie_chars ps)[i := trie_chars ps ! i @ [c]],
        trie_starts := (trie_starts ps)[i := trie_starts ps ! i @ [start]],
        trie_weights := (trie_weights ps)[i := trie_weights ps ! i @ [w]]\<rparr>"

definition push_layer :: "word_prefix_set \<Rightarrow> int \<Rightarrow> bool \<Rightarrow> word_prefix_set" where
  "push_layer ps c w =
     ps\<lparr>trie_chars := trie_chars ps @ [[c]], trie_starts := trie_starts ps @ [[0]],
        trie_weights := trie_weights ps @ [[w]]\<rparr>"

text \<open>
  The four loops over \<^verbatim>\<open>char_index\<close>, each going on where the one before stopped: the part of the
  word that is there already, arcs in inner layers, an arc in the last layer, new layers.
  \<^verbatim>\<open>back()\<close> is never called on an empty layer.
\<close>

function skip_present :: "int list list \<Rightarrow> int list \<Rightarrow> nat \<Rightarrow> nat" where
  "skip_present chars word i =
     (if i < length word \<and> i < length chars \<and> last (chars ! i) = word ! i
      then skip_present chars word (i + 1) else i)"
  by pat_completeness auto
termination by (relation "measure (\<lambda>(chars, word, i). length word - i)") auto

function add_inner :: "int list \<Rightarrow> nat \<Rightarrow> word_prefix_set \<Rightarrow> nat \<times> word_prefix_set" where
  "add_inner word i ps =
     (if i < length word \<and> i + 1 < length (trie_chars ps)
      then add_inner word (i + 1)
             (push_arc ps i (word ! i) (length (trie_chars ps ! (i + 1))) (i + 1 = length word))
      else (i, ps))"
  by pat_completeness auto
termination by (relation "measure (\<lambda>(word, i, ps). length word - i)") auto

function add_last :: "int list \<Rightarrow> nat \<Rightarrow> word_prefix_set \<Rightarrow> nat \<times> word_prefix_set" where
  "add_last word i ps =
     (if i < length word \<and> i + 1 = length (trie_chars ps)
      then add_last word (i + 1) (push_arc ps i (word ! i) 0 (i + 1 = length word))
      else (i, ps))"
  by pat_completeness auto
termination by (relation "measure (\<lambda>(word, i, ps). length word - i)") auto

function add_layers :: "int list \<Rightarrow> nat \<Rightarrow> word_prefix_set \<Rightarrow> word_prefix_set" where
  "add_layers word i ps =
     (if i < length word
      then add_layers word (i + 1) (push_layer ps (word ! i) (i + 1 = length word)) else ps)"
  by pat_completeness auto
termination by (relation "measure (\<lambda>(word, i, ps). length word - i)") auto

declare skip_present.simps [simp del] add_inner.simps [simp del] add_last.simps [simp del]
  add_layers.simps [simp del]

definition add_word :: "int list \<Rightarrow> word_prefix_set \<Rightarrow> word_prefix_set" where
  "add_word word ps =
     (let i = skip_present (trie_chars ps) word 0; (i, ps) = add_inner word i ps;
          (i, ps) = add_last word i ps
      in add_layers word i ps)"

text \<open>The size of the next layer closes the list of starts.\<close>

definition finalize_starts :: "word_prefix_set \<Rightarrow> word_prefix_set" where
  "finalize_starts ps =
     ps\<lparr>trie_starts :=
       map (\<lambda>n. trie_starts ps ! n @
                [if n + 1 < length (trie_chars ps) then length (trie_chars ps ! (n + 1)) else 0])
         [0..<length (trie_starts ps)]\<rparr>"

text \<open>
  \<^verbatim>\<open>std::sort\<close> by content followed by \<^verbatim>\<open>std::unique\<close>: equal words cannot be told apart, so the
  result does not depend on the sorting algorithm. The number of words is returned.
\<close>

definition add_words :: "int list list \<Rightarrow> nat \<times> word_prefix_set" where
  "add_words words =
     (let ws = remdups_adj (sort words)
      in (length ws, finalize_starts
            (foldl (\<lambda>ps w. add_word w ps) \<lparr>trie_chars = [], trie_starts = [], trie_weights = []\<rparr> ws)))"

definition empty_state :: "word_prefix_set \<Rightarrow> wps_state" where
  "empty_state ps =
     \<lparr>wps_length = 0, wps_start = 0,
      wps_end = (if length (trie_chars ps) \<noteq> 0 then length (trie_chars ps ! 0) else 0),
      wps_weight = False\<rparr>"

text \<open>The loop of \<^verbatim>\<open>append_character\<close> from \<^verbatim>\<open>next_index\<close> on, with \<open>n\<close> candidates left.\<close>

fun find_arc :: "int list \<Rightarrow> int \<Rightarrow> nat \<Rightarrow> nat \<Rightarrow> nat option" where
  "find_arc chars c 0 next_index = None"
| "find_arc chars c (Suc n) next_index =
     (if chars ! next_index = c then Some next_index else find_arc chars c n (next_index + 1))"

definition append_character :: "word_prefix_set \<Rightarrow> int \<Rightarrow> wps_state \<Rightarrow> bool \<times> wps_state" where
  "append_character ps c st =
     (case find_arc (trie_chars ps ! wps_length st) c (wps_end st - wps_start st) (wps_start st) of
        Some k \<Rightarrow>
          (True, \<lparr>wps_length = wps_length st + 1,
                  wps_start = trie_starts ps ! wps_length st ! k,
                  wps_end = trie_starts ps ! wps_length st ! (k + 1),
                  wps_weight = (wps_weight st \<or> trie_weights ps ! wps_length st ! k)\<rparr>)
      | None \<Rightarrow> (False, empty_state ps))"

section \<open>What adding one word does to the layers\<close>

text \<open>Layer \<open>i\<close>, empty beyond the deepest one.\<close>

definition layer :: "'a list list \<Rightarrow> nat \<Rightarrow> 'a list" where
  "layer xs i = (if i < length xs then xs ! i else [])"

lemma layer_update: "i < length xs \<Longrightarrow> layer (xs[i := v]) j = (if j = i then v else layer xs j)"
  by (simp add: layer_def)

lemma layer_snoc: "layer (xs @ [v]) j = (if j = length xs then v else layer xs j)"
  by (simp add: layer_def nth_append)

definition depth :: "word_prefix_set \<Rightarrow> nat" where
  "depth ps = length (trie_chars ps)"

definition layers_aligned :: "word_prefix_set \<Rightarrow> bool" where
  "layers_aligned ps \<longleftrightarrow> length (trie_starts ps) = depth ps \<and> length (trie_weights ps) = depth ps"

text \<open>
  \<open>extended ps ps' word k n\<close>: \<open>ps'\<close> is \<open>ps\<close> with one more arc in each of the layers \<open>k\<close> to
  \<open>n - 1\<close>, labelled by the word and pointing behind the arcs its next layer had in \<open>ps\<close>.
\<close>

definition extended :: "word_prefix_set \<Rightarrow> word_prefix_set \<Rightarrow> int list \<Rightarrow> nat \<Rightarrow> nat \<Rightarrow> bool" where
  "extended ps ps' word k n \<longleftrightarrow> layers_aligned ps' \<and> depth ps' = max (depth ps) n \<and>
     (\<forall>j. layer (trie_chars ps') j = layer (trie_chars ps) j @ (if k \<le> j \<and> j < n then [word ! j] else [])) \<and>
     (\<forall>j. layer (trie_starts ps') j = layer (trie_starts ps) j @
        (if k \<le> j \<and> j < n then [length (layer (trie_chars ps) (j + 1))] else [])) \<and>
     (\<forall>j. layer (trie_weights ps') j = layer (trie_weights ps) j @
        (if k \<le> j \<and> j < n then [j + 1 = length word] else []))"

lemma extended_refl: "layers_aligned ps \<Longrightarrow> k \<le> depth ps \<Longrightarrow> extended ps ps word k k"
  by (simp add: extended_def)

lemma extended_push_arc:
  assumes "extended ps ps' word k i" "k \<le> i" "i < depth ps"
    and "start = length (layer (trie_chars ps) (i + 1))"
  shows "extended ps (push_arc ps' i (word ! i) start (i + 1 = length word)) word k (i + 1)"
proof -
  define p where "p = push_arc ps' i (word ! i) start (i + 1 = length word)"
  have d: "i < length (trie_chars ps')" "i < length (trie_starts ps')" "i < length (trie_weights ps')"
    using assms(1,3) by (auto simp: extended_def layers_aligned_def depth_def)
  then have "trie_chars ps' ! i = layer (trie_chars ps) i" "trie_starts ps' ! i = layer (trie_starts ps) i"
    "trie_weights ps' ! i = layer (trie_weights ps) i"
    using assms(1) layer_def [of "trie_chars ps'" i] layer_def [of "trie_starts ps'" i]
      layer_def [of "trie_weights ps'" i] by (simp_all add: extended_def)
  then have l: "layer (trie_chars p) j = (if j = i then layer (trie_chars ps) i @ [word ! i] else layer (trie_chars ps') j)"
    "layer (trie_starts p) j = (if j = i then layer (trie_starts ps) i @ [start] else layer (trie_starts ps') j)"
    "layer (trie_weights p) j = (if j = i then layer (trie_weights ps) i @ [i + 1 = length word] else layer (trie_weights ps') j)"
    for j using d by (simp_all add: p_def push_arc_def layer_update)
  have "depth p = depth ps'" "layers_aligned p"
    using assms(1) by (simp_all add: p_def push_arc_def depth_def layers_aligned_def extended_def)
  then show ?thesis
    using assms(1-4) by (fold p_def) (simp add: l less_Suc_eq extended_def)
qed

lemma extended_push_layer:
  assumes "extended ps ps' word k i" "k \<le> i" "i = depth ps'" "depth ps \<le> i"
  shows "extended ps (push_layer ps' (word ! i) (i + 1 = length word)) word k (i + 1)"
proof -
  have "layer (trie_chars ps) (i + 1) = []" "layer (trie_chars ps) i = []"
    using assms(4) by (simp_all add: layer_def depth_def)
  moreover have "layer (trie_starts ps) i = [] \<and> layer (trie_weights ps) i = []"
  proof -
    have "layer (trie_starts ps') i = []" "layer (trie_weights ps') i = []"
      using assms(1,3) by (simp_all add: extended_def layers_aligned_def layer_def)
    then show ?thesis using assms(1) by (simp add: extended_def)
  qed
  ultimately show ?thesis
    using assms by (auto simp: extended_def push_layer_def layer_snoc layers_aligned_def depth_def less_Suc_eq)
qed

lemma add_inner_extended:
  assumes "extended ps ps' word k i" "k \<le> i" "i < depth ps \<or> i = length word \<or> depth ps = 0" "i \<le> length word"
    "depth ps' = depth ps"
  shows "\<exists>i' ps''. add_inner word i ps' = (i', ps'') \<and> i \<le> i' \<and> i' \<le> length word \<and>
    extended ps ps'' word k i' \<and> depth ps'' = depth ps \<and> (i' = length word \<or> i' + 1 = depth ps \<or> depth ps = 0 \<and> i' = i)"
  using assms
proof (induction word i ps' rule: add_inner.induct)
  case (1 word i ps')
  show ?case
  proof (cases "i < length word \<and> i + 1 < length (trie_chars ps')")
    case True
    then have d: "i + 1 < depth ps" using 1(6) by (simp add: depth_def)
    have "layer (trie_chars ps) (i + 1) = layer (trie_chars ps') (i + 1)"
      using 1(2) by (simp add: extended_def)
    also have "\<dots> = trie_chars ps' ! (i + 1)" using True by (simp add: layer_def)
    finally have e: "extended ps (push_arc ps' i (word ! i) (length (trie_chars ps' ! (i + 1))) (i + 1 = length word))
        word k (i + 1)"
      using extended_push_arc [OF 1(2,3)] d by simp
    moreover have "depth (push_arc ps' i c s w) = depth ps" for c s w
      using 1(6) by (simp add: depth_def push_arc_def)
    ultimately show ?thesis
      using 1(1) [OF True e] 1(3) True d by (subst add_inner.simps) auto
  next
    case False
    then have "add_inner word i ps' = (i, ps')" by (subst add_inner.simps) auto
    with False 1 show ?thesis by (auto simp: depth_def)
  qed
qed

lemma add_layers_extended:
  assumes "extended ps ps' word k i" "k \<le> i" "i \<le> length word" "i = length word \<or> i = depth ps'" "depth ps \<le> depth ps'"
  shows "extended ps (add_layers word i ps') word k (length word)"
  using assms
proof (induction word i ps' rule: add_layers.induct)
  case (1 word i ps')
  show ?case
  proof (cases "i < length word")
    case True
    let ?p = "push_layer ps' (word ! i) (i + 1 = length word)"
    have "extended ps ?p word k (i + 1)" "i + 1 = depth ?p" "depth ps \<le> depth ?p"
      using extended_push_layer 1 True by (auto simp: push_layer_def depth_def)
    then show ?thesis using 1(1) [OF True] 1(3) True by (subst add_layers.simps) simp
  next
    case False
    with 1 show ?thesis by (subst add_layers.simps) simp
  qed
qed

lemma add_word_extended:
  assumes "layers_aligned ps" "k = skip_present (trie_chars ps) word 0" "k \<le> length word" "k \<le> depth ps"
    and "k < depth ps \<or> k = length word \<or> depth ps = 0"
  shows "extended ps (add_word word ps) word k (length word)"
proof -
  obtain i ps1 where 1: "add_inner word k ps = (i, ps1)" "k \<le> i" "i \<le> length word"
    "extended ps ps1 word k i" "depth ps1 = depth ps" "i = length word \<or> i + 1 = depth ps \<or> depth ps = 0 \<and> i = k"
    using add_inner_extended [OF extended_refl [OF assms(1,4)]] assms(3,5) by blast
  obtain i' ps2 where 2: "add_last word i ps1 = (i', ps2)" "k \<le> i'" "i' \<le> length word"
    "extended ps ps2 word k i'" "i' = length word \<or> i' = depth ps2" "depth ps \<le> depth ps2"
  proof (cases "i < length word \<and> i + 1 = depth ps1")
    case True
    let ?p = "push_arc ps1 i (word ! i) 0 (i + 1 = length word)"
    have d: "depth ?p = depth ps1" by (simp add: push_arc_def depth_def)
    have "extended ps ?p word k (i + 1)"
      using extended_push_arc [OF 1(4,2)] True 1(5) by (simp add: layer_def depth_def)
    moreover have "add_last word i ps1 = (i + 1, ?p)"
      using True d by (subst add_last.simps, subst add_last.simps) (simp add: depth_def)
    ultimately show ?thesis using that 1(2,5) True d by simp
  next
    case False
    then have "add_last word i ps1 = (i, ps1)" by (subst add_last.simps) (auto simp: depth_def)
    moreover have "i = length word \<or> i = depth ps1" using False 1 assms(4) by auto
    ultimately show ?thesis using that 1 by simp
  qed
  have "add_word word ps = add_layers word i' ps2"
    using assms(2) 1(1) 2(1) by (simp add: add_word_def Let_def)
  with add_layers_extended [OF 2(4,2,3,5,6)] show ?thesis by simp
qed

section \<open>The prefixes a sorted list of words has\<close>

lemma take_mono_lex:
  fixes u v :: "'a::linorder list"
  assumes "v \<le> u"
  shows "take n v \<le> take n u"
  using assms
proof (induction n arbitrary: v u)
  case (Suc n)
  then show ?case by (cases v; cases u) (auto simp: Cons_le_Cons)
qed simp

text \<open>The prefixes of length \<open>i + 1\<close>, in order.\<close>

definition prefs :: "int list list \<Rightarrow> nat \<Rightarrow> int list list" where
  "prefs ws i = remdups_adj (map (take (Suc i)) (filter (\<lambda>w. i < length w) ws))"

lemma set_prefs: "set (prefs ws i) = take (Suc i) ` {w \<in> set ws. i < length w}"
  by (simp add: prefs_def)

lemma remdups_adj_snoc:
  "remdups_adj (xs @ [x]) = (if xs \<noteq> [] \<and> last xs = x then remdups_adj xs else remdups_adj xs @ [x])"
  by (induction xs rule: remdups_adj.induct) auto

lemma prefs_snoc:
  "prefs (ws @ [w]) i = (if i < length w \<and> \<not> (prefs ws i \<noteq> [] \<and> last (prefs ws i) = take (Suc i) w)
     then prefs ws i @ [take (Suc i) w] else prefs ws i)"
  by (auto simp: prefs_def remdups_adj_snoc)

lemma strict_sorted_remdups_adj:
  fixes xs :: "'a::linorder list"
  shows "sorted xs \<Longrightarrow> sorted_wrt (<) (remdups_adj xs)"
  by (induction xs rule: remdups_adj.induct) (auto simp: less_le)

lemma prefs_sorted:
  assumes "sorted ws"
  shows "sorted_wrt (<) (prefs ws i)"
proof -
  have "sorted (map (take (Suc i)) (filter (\<lambda>w. i < length w) ws))"
    using sorted_filter [of "\<lambda>w. w" ws] assms
    by (auto simp: sorted_map intro: sorted_wrt_mono_rel [rotated] take_mono_lex)
  then show ?thesis unfolding prefs_def by (rule strict_sorted_remdups_adj)
qed

lemma prefs_length: "q \<in> set (prefs ws i) \<Longrightarrow> length q = Suc i"
  by (auto simp: set_prefs)

text \<open>The inputs for which the construction is right: increasing, and no word inside another.\<close>

definition prefix_free :: "'a list list \<Rightarrow> bool" where
  "prefix_free ws \<longleftrightarrow> list_all (\<lambda>u. list_all (\<lambda>v. \<not> strict_prefix u v) ws) ws"

definition good_words :: "int list list \<Rightarrow> bool" where
  "good_words ws \<longleftrightarrow> sorted_wrt (<) ws \<and> prefix_free ws"

lemma good_words_butlast: "good_words (ws @ [w]) \<Longrightarrow> good_words ws"
  by (auto simp: good_words_def prefix_free_def sorted_wrt_append list_all_iff)

lemma good_words_sorted: "good_words ws \<Longrightarrow> sorted ws"
  by (auto simp: good_words_def strict_sorted_iff)

text \<open>The position where a new word leaves the last one.\<close>

definition branch :: "int list list \<Rightarrow> int list \<Rightarrow> nat" where
  "branch ws w = (if ws = [] then 0 else length (longest_common_prefix (last ws) w))"

lemma branch_last:
  assumes "good_words (ws @ [w])" "ws \<noteq> []"
  shows "branch ws w < length (last ws)" "branch ws w < length w"
    "take (branch ws w) (last ws) = take (branch ws w) w" "last ws ! branch ws w \<noteq> w ! branch ws w"
proof -
  let ?u = "last ws"
  have "?u < w" "\<not> strict_prefix ?u w" "\<not> strict_prefix w ?u"
    using assms by (auto simp: good_words_def prefix_free_def sorted_wrt_append list_all_iff)
  then have "parallel ?u w" by (auto simp: parallel_def strict_prefix_def)
  then obtain as b bs c cs where d: "b \<noteq> c" "?u = as @ b # bs" "w = as @ c # cs"
    using parallel_decomp by blast
  have "longest_common_prefix (as @ b # bs) (as @ c # cs) = as"
    using d(1) by (induction as) auto
  then have "longest_common_prefix ?u w = as" using d by simp
  then have "branch ws w = length as" using assms(2) by (simp add: branch_def)
  with d show "branch ws w < length (last ws)" "branch ws w < length w"
    "take (branch ws w) (last ws) = take (branch ws w) w" "last ws ! branch ws w \<noteq> w ! branch ws w"
    by simp_all
qed

lemma last_prefs:
  assumes "ws \<noteq> []" "i < length (last ws)"
  shows "prefs ws i \<noteq> [] \<and> last (prefs ws i) = take (Suc i) (last ws)"
proof -
  obtain vs u where ws: "ws = vs @ [u]" using assms(1) by (metis append_butlast_last_id)
  with assms(2) show ?thesis by (simp add: prefs_def last_remdups_adj)
qed

lemma new_prefix:
  assumes "good_words (ws @ [w])" "branch ws w \<le> i" "i < length w"
  shows "take (Suc i) w \<notin> set (prefs ws i)"
proof
  assume "take (Suc i) w \<in> set (prefs ws i)"
  then obtain v where v: "v \<in> set ws" "i < length v" "take (Suc i) v = take (Suc i) w"
    by (auto simp: set_prefs)
  then have ne: "ws \<noteq> []" by auto
  let ?u = "last ws" and ?k = "branch ws w"
  have "v \<le> ?u"
    using v(1) ne good_words_sorted [OF good_words_butlast [OF assms(1)]]
    by (metis last_conv_nth in_set_conv_nth sorted_nth_mono diff_less length_greater_0_conv zero_less_one
        Suc_pred' less_Suc_eq_le)
  moreover have "?u < w" using assms(1) ne by (auto simp: good_words_def sorted_wrt_append)
  ultimately have "take (Suc i) ?u = take (Suc i) w"
    using take_mono_lex [of v ?u "Suc i"] take_mono_lex [of ?u w "Suc i"] v(3) by simp
  then have "take (Suc i) ?u ! ?k = take (Suc i) w ! ?k" by simp
  with branch_last [OF assms(1) ne] assms(2) show False by simp
qed

lemma prefs_add:
  assumes "good_words (ws @ [w])"
  shows "prefs (ws @ [w]) i = prefs ws i @ (if branch ws w \<le> i \<and> i < length w then [take (Suc i) w] else [])"
proof (cases "branch ws w \<le> i")
  case True
  have "\<not> (prefs ws i \<noteq> [] \<and> last (prefs ws i) = take (Suc i) w)" if "i < length w"
    using new_prefix [OF assms True that] last_in_set by metis
  with True show ?thesis by (auto simp: prefs_snoc)
next
  case False
  then have ne: "ws \<noteq> []" by (auto simp: branch_def)
  note b = branch_last [OF assms ne]
  have "take (Suc i) (last ws) = take (Suc i) w"
    using b(3) False by (metis Suc_leI min.absorb1 not_le take_take)
  with last_prefs [OF ne, of i] False b(1) show ?thesis by (simp add: prefs_snoc)
qed

section \<open>The layers hold the prefixes\<close>

text \<open>The arcs of layer \<open>i + 1\<close> that leave one of the first \<open>j\<close> nodes reached by layer \<open>i\<close>.\<close>

definition children_before :: "int list list \<Rightarrow> nat \<Rightarrow> nat \<Rightarrow> nat" where
  "children_before ws i j =
     length (filter (\<lambda>r. take (Suc i) r \<in> set (take j (prefs ws i))) (prefs ws (Suc i)))"

definition holds :: "int list list \<Rightarrow> word_prefix_set \<Rightarrow> bool" where
  "holds ws ps \<longleftrightarrow> layers_aligned ps \<and> (\<forall>i. i < depth ps \<longleftrightarrow> prefs ws i \<noteq> []) \<and>
     (\<forall>i. layer (trie_chars ps) i = map last (prefs ws i)) \<and>
     (\<forall>i. layer (trie_weights ps) i = map (\<lambda>q. q \<in> set ws) (prefs ws i)) \<and>
     (\<forall>i. layer (trie_starts ps) i = map (children_before ws i) [0..<length (prefs ws i)])"

lemma holds_empty: "holds [] \<lparr>trie_chars = [], trie_starts = [], trie_weights = []\<rparr>"
  by (simp add: holds_def layers_aligned_def depth_def prefs_def layer_def)

lemma prefs_empty_beyond: "prefs ws i = [] \<longleftrightarrow> (\<forall>w \<in> set ws. length w \<le> i)"
  by (auto simp: prefs_def filter_empty_conv not_less)

lemma skip_present_branch:
  assumes "holds ws ps" "good_words (ws @ [w])" "i \<le> branch ws w"
  shows "skip_present (trie_chars ps) w i = branch ws w"
proof (cases "ws = []")
  case True
  with assms(1,3) show ?thesis
    by (subst skip_present.simps) (simp add: holds_def depth_def prefs_def branch_def)
next
  case False
  note b = branch_last [OF assms(2) False]
  have lst: "i < length (trie_chars ps) \<and> last (trie_chars ps ! i) = last ws ! i" if "i < length (last ws)" for i
  proof -
    have p: "prefs ws i \<noteq> []" "last (prefs ws i) = take (Suc i) (last ws)" using last_prefs [OF False that] by simp_all
    then have "i < length (trie_chars ps)" using assms(1) by (simp add: holds_def depth_def)
    moreover from this have "trie_chars ps ! i = map last (prefs ws i)"
      using assms(1) layer_def [of "trie_chars ps" i] by (simp add: holds_def)
    ultimately show ?thesis using p that by (simp add: last_map take_Suc_conv_app_nth)
  qed
  have same: "last ws ! i = w ! i" if "i < branch ws w" for i
    using b(3) that nth_take [of i "branch ws w"] by metis
  show ?thesis using assms(3)
  proof (induction "branch ws w - i" arbitrary: i)
    case 0
    with b lst [of "branch ws w"] show ?case by (subst skip_present.simps) auto
  next
    case (Suc n)
    then have i: "i < branch ws w" by simp
    have "skip_present (trie_chars ps) w (i + 1) = branch ws w" using Suc by simp
    with i b lst [of i] same [OF i] show ?case by (subst skip_present.simps) simp
  qed
qed

lemma parent_in_prefs: "r \<in> set (prefs ws (Suc i)) \<Longrightarrow> take (Suc i) r \<in> set (prefs ws i)"
  by (auto simp: set_prefs)

lemma children_before_add:
  assumes "good_words (ws @ [w])" "j \<le> length (prefs ws i)" "j < length (prefs (ws @ [w]) i)"
  shows "children_before (ws @ [w]) i j =
    (if j < length (prefs ws i) then children_before ws i j else length (prefs ws (Suc i)))"
proof -
  let ?new = "if branch ws w \<le> Suc i \<and> Suc i < length w then [take (Suc (Suc i)) w] else []"
  have sorted: "sorted_wrt (<) (prefs (ws @ [w]) i)" by (rule prefs_sorted [OF good_words_sorted [OF assms(1)]])
  have tk: "take j (prefs (ws @ [w]) i) = take j (prefs ws i)" using assms(2) by (simp add: prefs_add [OF assms(1)])
  have new: "take (Suc i) w \<notin> set (take j (prefs ws i))" if "Suc i < length w" "branch ws w \<le> Suc i"
  proof (cases "branch ws w \<le> i")
    case True
    with new_prefix [OF assms(1) True] that(1) show ?thesis by (auto dest: in_set_takeD)
  next
    case False
    then have ne: "ws \<noteq> []" and k: "branch ws w = Suc i" using that(2) by (auto simp: branch_def)
    have "prefs (ws @ [w]) i = prefs ws i" using False by (simp add: prefs_add [OF assms(1)])
    with assms(3) have j: "j < length (prefs ws i)" by simp
    have "last (prefs ws i) = take (Suc i) w"
      using last_prefs [OF ne, of i] branch_last [OF assms(1) ne] k by simp
    moreover have "distinct (prefs ws i)"
      using prefs_sorted [OF good_words_sorted [OF good_words_butlast [OF assms(1)]]] strict_sorted_iff by blast
    ultimately show ?thesis using j
      by (metis append_take_drop_id distinct_append disjoint_iff last_drop last_in_set drop_eq_Nil not_le)
  qed
  have "filter (\<lambda>r. take (Suc i) r \<in> set (take j (prefs ws i))) ?new = []"
    using new by auto
  then have "children_before (ws @ [w]) i j = children_before ws i j"
    by (simp only: children_before_def tk prefs_add [OF assms(1), of "Suc i"] filter_append append_Nil2)
  moreover have "children_before ws i j = length (prefs ws (Suc i))" if "j = length (prefs ws i)"
    using that parent_in_prefs [of _ ws i] by (simp add: children_before_def)
  ultimately show ?thesis using assms(2) by auto
qed

lemma holds_add_word:
  assumes "holds ws ps" "good_words (ws @ [w])"
  shows "holds (ws @ [w]) (add_word w ps)"
proof -
  let ?k = "branch ws w"
  have al: "layers_aligned ps" and dp: "\<And>i. i < depth ps \<longleftrightarrow> prefs ws i \<noteq> []"
    using assms(1) by (simp_all add: holds_def)
  have k: "?k = skip_present (trie_chars ps) w 0" using skip_present_branch [OF assms] by simp
  have kb: "?k \<le> length w" "?k \<le> depth ps" "?k < depth ps \<or> ?k = length w \<or> depth ps = 0"
  proof (atomize (full), cases "ws = []")
    case True
    then show "?k \<le> length w \<and> ?k \<le> depth ps \<and> (?k < depth ps \<or> ?k = length w \<or> depth ps = 0)"
      using dp [of 0] by (simp add: branch_def prefs_def)
  next
    case False
    then show "?k \<le> length w \<and> ?k \<le> depth ps \<and> (?k < depth ps \<or> ?k = length w \<or> depth ps = 0)"
      using branch_last(1,2) [OF assms(2) False] last_prefs [OF False] dp [of ?k] by simp
  qed
  have ext: "extended ps (add_word w ps) w ?k (length w)"
    by (rule add_word_extended [OF al k kb])
  have old: "q \<noteq> w" "q \<in> set (ws @ [w]) \<longleftrightarrow> q \<in> set ws" if q: "q \<in> set (prefs ws i)" for q i
  proof -
    obtain v where "v \<in> set ws" "prefix q v" using q take_is_prefix by (fastforce simp: set_prefs)
    then show "q \<noteq> w"
      using assms(2) by (auto simp: good_words_def prefix_free_def sorted_wrt_append list_all_iff strict_prefix_def)
    then show "q \<in> set (ws @ [w]) \<longleftrightarrow> q \<in> set ws" by simp
  qed
  have new: "take (Suc i) w \<in> set (ws @ [w]) \<longleftrightarrow> i + 1 = length w" if "i < length w" for i
  proof -
    have "take (Suc i) w \<notin> set ws" if "Suc i < length w"
      using assms(2) take_is_prefix [of "Suc i" w] that
      by (auto simp: good_words_def prefix_free_def list_all_iff strict_prefix_def)
    with that show ?thesis
      using assms(2) by (cases "Suc i = length w") (auto dest: arg_cong [where f = length])
  qed
  have len: "length (layer (trie_chars ps) i) = length (prefs ws i)" for i using assms(1) by (simp add: holds_def)
  have "layer (trie_chars (add_word w ps)) i = map last (prefs (ws @ [w]) i)" for i
    using ext assms(1) by (simp add: extended_def holds_def prefs_add [OF assms(2)] take_Suc_conv_app_nth)
  moreover have "layer (trie_weights (add_word w ps)) i = map (\<lambda>q. q \<in> set (ws @ [w])) (prefs (ws @ [w]) i)" for i
    using ext assms(1) old(1) [of _ i] new [of i] by (simp add: extended_def holds_def prefs_add [OF assms(2)])
  moreover have "layer (trie_starts (add_word w ps)) i =
      map (children_before (ws @ [w]) i) [0..<length (prefs (ws @ [w]) i)]" for i
    using ext assms(1) len [of "Suc i"] children_before_add [OF assms(2), of _ i]
    by (simp add: extended_def holds_def prefs_add [OF assms(2), of i])
  moreover have "i < depth (add_word w ps) \<longleftrightarrow> prefs (ws @ [w]) i \<noteq> []" for i
    using ext dp [of i] by (auto simp: extended_def prefs_empty_beyond)
  ultimately show ?thesis using ext by (simp add: holds_def extended_def)
qed

section \<open>Walking through the set\<close>

text \<open>
  What a dictionary of word prefixes promises to its clients: a state \<open>at\<close> a prefix can be
  extended by exactly the characters that give a prefix of a word, any other character resets
  the state, and the state tells whether a word has been completed on the way.
\<close>

locale prefix_dictionary =
  fixes start :: "'d \<Rightarrow> 's" and step :: "'d \<Rightarrow> int \<Rightarrow> 's \<Rightarrow> bool \<times> 's" and final :: "'s \<Rightarrow> bool"
    and represents :: "int list list \<Rightarrow> 'd \<Rightarrow> bool" and at :: "int list list \<Rightarrow> int list \<Rightarrow> 's \<Rightarrow> bool"
  assumes at_start: "represents ws d \<Longrightarrow> at ws [] (start d)"
    and step_in: "represents ws d \<Longrightarrow> at ws p s \<Longrightarrow> \<exists>w \<in> set ws. prefix (p @ [c]) w \<Longrightarrow>
      \<exists>s'. step d c s = (True, s') \<and> at ws (p @ [c]) s'"
    and step_out: "represents ws d \<Longrightarrow> at ws p s \<Longrightarrow> \<not> (\<exists>w \<in> set ws. prefix (p @ [c]) w) \<Longrightarrow>
      step d c s = (False, start d)"
    and final_iff: "at ws p s \<Longrightarrow> final s \<longleftrightarrow> (\<exists>q. q \<noteq> [] \<and> prefix q p \<and> q \<in> set ws)"

text \<open>Extending a state character by character, until a character is refused.\<close>

primrec walk :: "('d \<Rightarrow> int \<Rightarrow> 's \<Rightarrow> bool \<times> 's) \<Rightarrow> 'd \<Rightarrow> 's \<Rightarrow> int list \<Rightarrow> 's option" where
  "walk step d s [] = Some s"
| "walk step d s (c # cs) = (case step d c s of (ok, s') \<Rightarrow> if ok then walk step d s' cs else None)"

context prefix_dictionary
begin

lemma walk_at:
  assumes "represents ws d" "at ws p s"
  shows "if cs = [] \<or> (\<exists>w \<in> set ws. prefix (p @ cs) w)
    then \<exists>s'. walk step d s cs = Some s' \<and> at ws (p @ cs) s' else walk step d s cs = None"
  using assms(2)
proof (induction cs arbitrary: p s)
  case (Cons c cs)
  show ?case
  proof (cases "\<exists>w \<in> set ws. prefix (p @ [c]) w")
    case True
    then obtain s' where s': "step d c s = (True, s')" "at ws (p @ [c]) s'"
      using step_in [OF assms(1) Cons.prems] by blast
    from Cons.IH [OF s'(2)] s' True show ?thesis by (auto split: if_splits)
  next
    case False
    moreover have "\<not> (\<exists>w \<in> set ws. prefix (p @ c # cs) w)"
      using False append_prefixD [of "p @ [c]" cs] by auto
    ultimately show ?thesis using step_out [OF assms(1) Cons.prems] by simp
  qed
qed simp

lemma walk_accepts:
  assumes "represents ws d"
  shows "walk step d (start d) cs \<noteq> None \<longleftrightarrow> cs = [] \<or> (\<exists>w \<in> set ws. prefix cs w)"
    and "walk step d (start d) cs = Some s \<Longrightarrow> final s \<longleftrightarrow> (\<exists>q. q \<noteq> [] \<and> prefix q cs \<and> q \<in> set ws)"
  using walk_at [OF assms at_start [OF assms], of cs] final_iff by (auto split: if_splits)

end

subsection \<open>The layered trie is such a dictionary\<close>

definition finalized :: "int list list \<Rightarrow> word_prefix_set \<Rightarrow> bool" where
  "finalized ws ps \<longleftrightarrow> sorted ws \<and> (\<forall>i. i < depth ps \<longleftrightarrow> prefs ws i \<noteq> []) \<and>
     (\<forall>i < depth ps. trie_chars ps ! i = map last (prefs ws i) \<and>
        trie_weights ps ! i = map (\<lambda>q. q \<in> set ws) (prefs ws i) \<and>
        trie_starts ps ! i = map (children_before ws i) [0..<Suc (length (prefs ws i))])"

lemma finalize_holds:
  assumes "holds ws ps" "sorted ws"
  shows "finalized ws (finalize_starts ps)"
proof -
  have cb: "children_before ws i (length (prefs ws i)) = length (prefs ws (Suc i))" for i
    using parent_in_prefs [of _ ws i] by (simp add: children_before_def)
  have len: "length (layer (trie_chars ps) i) = length (prefs ws i)" for i using assms(1) by (simp add: holds_def)
  have l: "layer (trie_chars ps) i = trie_chars ps ! i" "layer (trie_starts ps) i = trie_starts ps ! i"
    "layer (trie_weights ps) i = trie_weights ps ! i" if "i < depth ps" for i
    using assms(1) that by (simp_all add: layer_def depth_def holds_def layers_aligned_def)
  have nxt: "(if i + 1 < length (trie_chars ps) then length (trie_chars ps ! (i + 1)) else 0) = length (prefs ws (Suc i))" for i
    using len [of "Suc i"] by (simp add: layer_def split: if_splits)
  show ?thesis
    using assms l nxt by (auto simp: finalized_def finalize_starts_def holds_def depth_def layers_aligned_def cb)
qed

lemma finalized_add_words:
  assumes "prefix_free words"
  shows "finalized (remdups_adj (sort words)) (snd (add_words words))"
proof -
  let ?ws = "remdups_adj (sort words)"
  have g: "good_words ?ws"
    using assms strict_sorted_remdups_adj [of "sort words"] by (simp add: good_words_def prefix_free_def list_all_iff)
  have "holds vs (foldl (\<lambda>ps w. add_word w ps) \<lparr>trie_chars = [], trie_starts = [], trie_weights = []\<rparr> vs)"
    if "good_words vs" for vs
    using that
  proof (induction vs rule: rev_induct)
    case (snoc w vs)
    with holds_add_word [OF _ snoc.prems] good_words_butlast show ?case by simp
  qed (simp add: holds_empty)
  from finalize_holds [OF this [OF g] good_words_sorted [OF g]] show ?thesis
    by (simp add: add_words_def Let_def)
qed

lemma find_arc_spec:
  "case find_arc cs c n s of
     Some k \<Rightarrow> s \<le> k \<and> k < s + n \<and> cs ! k = c
   | None \<Rightarrow> (\<forall>k. s \<le> k \<longrightarrow> k < s + n \<longrightarrow> cs ! k \<noteq> c)"
proof (induction cs c n s rule: find_arc.induct)
  case (2 cs c n s)
  show ?case
  proof (cases "cs ! s = c")
    case False
    have "cs ! k \<noteq> c" if "find_arc cs c n (s + 1) = None" "s \<le> k" "k < s + Suc n" for k
      using 2 False that by (cases "k = s") auto
    with 2 False show ?thesis by (auto split: option.splits)
  qed simp
qed simp

lemma filter_downset:
  assumes "sorted (map f xs)" "m < length xs"
    and "\<And>x y. x \<in> set xs \<Longrightarrow> y \<in> set xs \<Longrightarrow> f x \<le> f y \<Longrightarrow> P (f y) \<Longrightarrow> P (f x)"
  shows "P (f (xs ! m)) \<longleftrightarrow> m < length (filter (\<lambda>x. P (f x)) xs)"
  using assms
proof (induction xs arbitrary: m)
  case (Cons x xs)
  show ?case
  proof (cases "P (f x)")
    case True
    show ?thesis
    proof (cases m)
      case (Suc n)
      have "P (f (xs ! n)) \<longleftrightarrow> n < length (filter (\<lambda>x. P (f x)) xs)"
        using Cons.prems Suc by (intro Cons.IH) auto
      with True Suc show ?thesis by simp
    qed (use True in simp)
  next
    case False
    then have none: "\<not> P (f y)" if "y \<in> set xs" for y
      using Cons.prems(1,3) that by auto
    then have "filter (\<lambda>x. P (f x)) xs = []" by (auto simp: filter_empty_conv)
    moreover have "\<not> P (f ((x # xs) ! m))" using False none Cons.prems(2) by (cases m) auto
    ultimately show ?thesis using False by simp
  qed
qed simp

lemma children_range:
  assumes "sorted ws" "k < length (prefs ws i)"
  shows "children_before ws i k \<le> m \<and> m < children_before ws i (Suc k) \<longleftrightarrow>
    m < length (prefs ws (Suc i)) \<and> take (Suc i) (prefs ws (Suc i) ! m) = prefs ws i ! k"
proof -
  let ?ps = "prefs ws i" and ?qs = "prefs ws (Suc i)"
  have so: "sorted_wrt (<) ?ps" "sorted ?qs" using prefs_sorted [OF assms(1)] strict_sorted_iff by blast+
  have sm: "sorted (map (take (Suc i)) ?qs)"
    using so(2) by (auto simp: sorted_map intro: sorted_wrt_mono_rel [rotated] take_mono_lex)
  have before: "take (Suc i) (?qs ! m) \<in> set (take j ?ps) \<longleftrightarrow> m < children_before ws i j" if "m < length ?qs" for j
    unfolding children_before_def
  proof (rule filter_downset [OF sm that])
    fix x y assume "x \<in> set ?qs" "take (Suc i) x \<le> take (Suc i) y" "take (Suc i) y \<in> set (take j ?ps)"
    then obtain a b where "a < length ?ps" "b < j" "b < length ?ps" "?ps ! a = take (Suc i) x"
      "?ps ! b = take (Suc i) y" "?ps ! a \<le> ?ps ! b"
      using parent_in_prefs [of x ws i] by (auto simp: in_set_conv_nth)
    moreover from this have "a \<le> b" using so(1) sorted_wrt_nth_less [OF so(1), of b a] by (meson not_le)
    ultimately show "take (Suc i) x \<in> set (take j ?ps)" by (auto simp: in_set_conv_nth intro!: exI [of _ a])
  qed
  have "children_before ws i j \<le> length ?qs" for j by (simp add: children_before_def)
  then have "m < children_before ws i (Suc k) \<Longrightarrow> m < length ?qs" using less_le_trans by blast
  moreover have "take (Suc k) ?ps = take k ?ps @ [?ps ! k]" by (rule take_Suc_conv_app_nth [OF assms(2)])
  moreover have "?ps ! k \<notin> set (take k ?ps)"
    using so(1) assms(2) by (auto simp: in_set_conv_nth dest: sorted_wrt_nth_less)
  ultimately show ?thesis using before [of k] before [of "Suc k"] by (auto simp: not_less)
qed

text \<open>The state of a walk that is at the prefix \<open>p\<close>: its range is that of the arcs leaving \<open>p\<close>.\<close>

definition at_prefix :: "int list list \<Rightarrow> int list \<Rightarrow> wps_state \<Rightarrow> bool" where
  "at_prefix ws p st \<longleftrightarrow> wps_length st = length p \<and>
     (\<forall>m. wps_start st \<le> m \<and> m < wps_end st \<longleftrightarrow>
        m < length (prefs ws (length p)) \<and> take (length p) (prefs ws (length p) ! m) = p) \<and>
     (wps_weight st \<longleftrightarrow> (\<exists>q. q \<noteq> [] \<and> prefix q p \<and> q \<in> set ws))"

lemma at_prefix_empty:
  assumes "finalized ws ps"
  shows "at_prefix ws [] (empty_state ps)"
proof -
  have "wps_end (empty_state ps) = length (prefs ws 0)"
    using assms by (cases "0 < depth ps") (auto simp: empty_state_def finalized_def depth_def)
  then show ?thesis by (auto simp: at_prefix_def empty_state_def)
qed

lemma prefs_member: "p @ [c] \<in> set (prefs ws (length p)) \<longleftrightarrow> (\<exists>w \<in> set ws. prefix (p @ [c]) w)"
proof -
  have "p @ [c] = take (Suc (length p)) w \<and> length p < length w \<longleftrightarrow> prefix (p @ [c]) w" for w
  proof
    show "prefix (p @ [c]) w" if "p @ [c] = take (Suc (length p)) w \<and> length p < length w"
      using that take_is_prefix by metis
    show "p @ [c] = take (Suc (length p)) w \<and> length p < length w" if "prefix (p @ [c]) w"
      using that by (auto simp: prefix_def)
  qed
  then show ?thesis by (auto simp only: set_prefs image_iff mem_Collect_eq)
qed

lemma append_character_at:
  assumes "finalized ws ps" "at_prefix ws p st"
  shows "if p @ [c] \<in> set (prefs ws (length p))
    then \<exists>st'. append_character ps c st = (True, st') \<and> at_prefix ws (p @ [c]) st'
    else append_character ps c st = (False, empty_state ps)"
proof -
  let ?n = "length p" and ?qs = "prefs ws (length p)"
  have n: "wps_length st = ?n" and sorted: "sorted ws"
    and rng: "\<And>m. wps_start st \<le> m \<and> m < wps_end st \<longleftrightarrow> m < length ?qs \<and> take ?n (?qs ! m) = p"
    using assms by (simp_all add: at_prefix_def finalized_def)
  have arrays: "trie_chars ps ! ?n = map last ?qs" "trie_weights ps ! ?n = map (\<lambda>q. q \<in> set ws) ?qs"
    "trie_starts ps ! ?n = map (children_before ws ?n) [0..<Suc (length ?qs)]" if "?qs \<noteq> []"
    using assms(1) that by (simp_all add: finalized_def)
  have lbl: "trie_chars ps ! ?n ! m = c \<longleftrightarrow> ?qs ! m = p @ [c]" if "wps_start st \<le> m" "m < wps_end st" for m
  proof -
    have m: "m < length ?qs" "take ?n (?qs ! m) = p" using rng [of m] that by simp_all
    then have "length (?qs ! m) = Suc ?n" using prefs_length nth_mem by blast
    then have "?qs ! m = p @ [last (?qs ! m)]"
      using m(2) by (metis append_butlast_last_id butlast_conv_take diff_Suc_1 length_0_conv nat.distinct(1))
    moreover have "trie_chars ps ! ?n ! m = last (?qs ! m)" using arrays(1) m(1) by (cases "?qs = []") auto
    ultimately show ?thesis by (metis last_snoc)
  qed
  note arc = find_arc_spec [where cs = "trie_chars ps ! ?n" and c = c and n = "wps_end st - wps_start st"
      and s = "wps_start st"]
  show ?thesis
  proof (cases "find_arc (trie_chars ps ! ?n) c (wps_end st - wps_start st) (wps_start st)")
    case None
    have "p @ [c] \<notin> set ?qs"
    proof
      assume "p @ [c] \<in> set ?qs"
      then obtain m where "m < length ?qs" "?qs ! m = p @ [c]" by (auto simp: in_set_conv_nth)
      with rng [of m] lbl [of m] arc None show False by simp
    qed
    with None n show ?thesis by (simp add: append_character_def)
  next
    case (Some k)
    then have "wps_start st \<le> k" "k < wps_end st" "trie_chars ps ! ?n ! k = c" using arc by auto
    then have k: "k < length ?qs" "?qs ! k = p @ [c]" using rng lbl by auto
    then have mem: "p @ [c] \<in> set ?qs" and ne: "?qs \<noteq> []" by (metis nth_mem, auto)
    have st: "trie_starts ps ! ?n ! k = children_before ws ?n k"
      "trie_starts ps ! ?n ! Suc k = children_before ws ?n (Suc k)"
      using arrays(3) [OF ne] k(1) by (simp_all del: upt_Suc)
    have "wps_weight st \<or> trie_weights ps ! ?n ! k \<longleftrightarrow> (\<exists>q. q \<noteq> [] \<and> prefix q (p @ [c]) \<and> q \<in> set ws)"
      using assms(2) arrays(2) [OF ne] k by (auto simp: at_prefix_def)
    with Some n mem st k children_range [OF sorted k(1)] show ?thesis
      by (simp add: append_character_def at_prefix_def)
  qed
qed

interpretation wps: prefix_dictionary empty_state append_character wps_weight finalized at_prefix
proof
  fix ws ps p st and c :: int
  assume f: "finalized ws ps"
  show "at_prefix ws [] (empty_state ps)" using f by (rule at_prefix_empty)
  assume a: "at_prefix ws p st"
  show "\<exists>st'. append_character ps c st = (True, st') \<and> at_prefix ws (p @ [c]) st'"
    if "\<exists>w \<in> set ws. prefix (p @ [c]) w"
    using append_character_at [OF f a, of c] that by (simp add: prefs_member)
  show "append_character ps c st = (False, empty_state ps)" if "\<not> (\<exists>w \<in> set ws. prefix (p @ [c]) w)"
    using append_character_at [OF f a, of c] that by (simp add: prefs_member)
qed (simp add: at_prefix_def)

section \<open>Properties\<close>

text \<open>
  C32: After \<^verbatim>\<open>add_words\<close>, starting from the empty state and appending characters one by one
  succeeds exactly for the prefixes of the words, and the weight of the state says whether one
  of the words has been spelled out on the way; duplicates and the order of the words do not
  matter and the number of different words is returned. No word may be a proper prefix of
  another, which holds for words that end with the space.
\<close>

theorem add_words_refines:
  assumes "prefix_free words"
  shows "fst (add_words words) = card (set words) \<and>
    (walk append_character (snd (add_words words)) (empty_state (snd (add_words words))) cs \<noteq> None \<longleftrightarrow>
       cs = [] \<or> (\<exists>w \<in> set words. prefix cs w)) \<and>
    (\<forall>st. walk append_character (snd (add_words words)) (empty_state (snd (add_words words))) cs = Some st \<longrightarrow>
       (wps_weight st \<longleftrightarrow> (\<exists>q. q \<noteq> [] \<and> prefix q cs \<and> q \<in> set words)))"
proof -
  note f = finalized_add_words [OF assms]
  have "distinct (remdups_adj (sort words))"
    using strict_sorted_remdups_adj [of "sort words"] strict_sorted_iff by auto
  then have "fst (add_words words) = card (set words)"
    using distinct_card [of "remdups_adj (sort words)"] by (simp add: add_words_def Let_def)
  with wps.walk_accepts [OF f, of cs] show ?thesis by simp
qed

theorem add_words_refines_witness:
  "walk append_character (snd (add_words [[1, 2, 9], [2, 9], [2, 2, 9]]))
     (empty_state (snd (add_words [[1, 2, 9], [2, 9], [2, 2, 9]]))) [2, 2] \<noteq> None"
proof -
  have "prefix_free [[1, 2, 9], [2, 9], [2, 2, 9 :: int]]" by code_simp
  moreover have "prefix [2, 2] [2, 2, 9 :: int]" by simp
  ultimately show ?thesis
    using add_words_refines [of "[[1, 2, 9], [2, 9], [2, 2, 9]]" "[2, 2]"] by auto
qed

text \<open>
  Without that proviso a word can get lost: of the words \<open>12\<close>, \<open>2\<close> and \<open>22\<close> the last one is
  not in the trie afterwards, although it is counted, because only the label of the last arc of
  a layer is compared and not the node the arc leaves.
\<close>

theorem add_words_loses_word:
  "fst (add_words [[1, 2], [2], [2, 2]]) = 3 \<and>
   walk append_character (snd (add_words [[1, 2], [2], [2, 2]]))
     (empty_state (snd (add_words [[1, 2], [2], [2, 2]]))) [2, 2] = None"
  by code_simp

end
