(* ===== verification/PathTrie.thy ===== *)
theory PathTrie
  imports DecoderUtils WordPrefixSet
begin

text \<open>
  The prefix trie of the beam search, \<^verbatim>\<open>path_trie.cpp\<close>. The nodes live in an explicit heap, because
  the decoder keeps pointers into the trie across steps and \<^verbatim>\<open>remove\<close> deletes nodes: an address
  is an index into the heap, deleting a node leaves \<open>None\<close> there, and using such an address is
  \<open>Undefined\<close>. Addresses are never handed out twice. The recursive methods follow parent or
  child pointers; they take a bound on the depth, for which the size of the heap is always
  enough, since a child is allocated after its parent.
\<close>

section \<open>Nodes and the heap\<close>

record path_node =
  log_prob_b_prev :: cfloat
  log_prob_nb_prev :: cfloat
  log_prob_b_cur :: cfloat
  log_prob_nb_cur :: cfloat
  log_prob_c :: cfloat
  node_score :: cfloat
  approx_ctc :: cfloat
  node_char :: int
  node_time :: int
  node_parent :: "nat option"
  node_exists :: bool
  has_dictionary :: bool
  node_children :: "(int \<times> nat) list"
  dictionary_state :: wps_state

type_synonym trie_heap = "path_node option list"

definition ROOT :: int where
  "ROOT = - 1"

definition path_node_init :: path_node where
  "path_node_init = \<lparr>log_prob_b_prev = FLT_LOWEST, log_prob_nb_prev = FLT_LOWEST, log_prob_b_cur = FLT_LOWEST,
     log_prob_nb_cur = FLT_LOWEST, log_prob_c = FLT_LOWEST, node_score = FLT_LOWEST, approx_ctc = FLT_LOWEST,
     node_char = ROOT, node_time = 0, node_parent = None, node_exists = True, has_dictionary = False,
     node_children = [], dictionary_state = \<lparr>wps_length = 0, wps_start = 0, wps_end = 0, wps_weight = False\<rparr>\<rparr>"

definition deref :: "trie_heap \<Rightarrow> nat \<Rightarrow> path_node result" where
  "deref h a = (if a < length h then (case h ! a of None \<Rightarrow> Inl Undefined | Some nd \<Rightarrow> Inr nd) else Inl Undefined)"

section \<open>Operations\<close>

text \<open>
  \<^verbatim>\<open>get_path_trie\<close>: the child for a character, revived or created, or nothing if the dictionary
  refuses the character. The pointer to the dictionary is the same for all nodes and an
  argument here.
\<close>

definition revive :: "path_node \<Rightarrow> int \<Rightarrow> cfloat \<Rightarrow> path_node" where
  "revive ch new_timestep cur_log_prob_c =
     (let ch1 = (if cf_less (log_prob_c ch) cur_log_prob_c
                 then ch\<lparr>log_prob_c := cur_log_prob_c, node_time := new_timestep\<rparr> else ch)
      in if \<not> node_exists ch1
         then ch1\<lparr>node_exists := True, log_prob_b_prev := FLT_LOWEST, log_prob_nb_prev := FLT_LOWEST,
                  log_prob_b_cur := FLT_LOWEST, log_prob_nb_cur := FLT_LOWEST\<rparr>
         else ch1)"

definition new_child :: "trie_heap \<Rightarrow> nat \<Rightarrow> path_node \<Rightarrow> path_node \<Rightarrow> nat option \<times> trie_heap" where
  "new_child h a nd new =
     (Some (length h),
      h[a := Some (nd\<lparr>node_children := node_children nd @ [(node_char new, length h)]\<rparr>)] @ [Some new])"

definition get_path_trie ::
  "word_prefix_set option \<Rightarrow> trie_heap \<Rightarrow> nat \<Rightarrow> int \<Rightarrow> int \<Rightarrow> cfloat \<Rightarrow> bool \<Rightarrow> (nat option \<times> trie_heap) result" where
  "get_path_trie dict h a new_char new_timestep cur_log_prob_c reset =
     rbind (deref h a) (\<lambda>nd.
       (case List.find (\<lambda>(c, _). c = new_char) (node_children nd) of
          Some (_, b) \<Rightarrow>
            rbind (deref h b) (\<lambda>ch. Inr (Some b, h[b := Some (revive ch new_timestep cur_log_prob_c)]))
        | None \<Rightarrow>
            (let new = path_node_init\<lparr>node_char := new_char, node_time := new_timestep, node_parent := Some a,
                         log_prob_c := cur_log_prob_c\<rparr>
             in if has_dictionary nd
                then
                  (case dict of
                     None \<Rightarrow> Inl Undefined
                   | Some d \<Rightarrow>
                       (case append_character d (new_char + 1) (dictionary_state nd) of
                          (found, new_state) \<Rightarrow>
                            if \<not> found
                            then Inr (None, h[a := Some (if wps_weight (dictionary_state nd) \<and> reset
                                   then nd\<lparr>dictionary_state := empty_state d\<rparr> else nd)])
                            else Inr (new_child h a nd (new\<lparr>has_dictionary := True,
                                   dictionary_state := (if wps_weight new_state \<and> reset then empty_state d else new_state)\<rparr>))))
                else Inr (new_child h a nd new))))"

text \<open>\<^verbatim>\<open>get_path_vec\<close>: labels and time steps up to a stop character, and the node where it stopped.\<close>

fun path_vec_loop ::
  "nat \<Rightarrow> trie_heap \<Rightarrow> nat \<Rightarrow> int \<Rightarrow> nat \<Rightarrow> int list \<Rightarrow> int list \<Rightarrow> (nat \<times> int list \<times> int list) result option" where
  "path_vec_loop 0 h a stop max_steps output timesteps = None"
| "path_vec_loop (Suc n) h a stop max_steps output timesteps =
     obind (Some (deref h a)) (\<lambda>nd.
       if node_char nd = stop \<or> node_char nd = ROOT \<or> length output = max_steps
       then Some (Inr (a, rev output, rev timesteps))
       else
         (case node_parent nd of
            None \<Rightarrow> Some (Inl Undefined)
          | Some p \<Rightarrow> path_vec_loop n h p stop max_steps (output @ [node_char nd]) (timesteps @ [node_time nd])))"

definition get_path_vec_stop :: "trie_heap \<Rightarrow> nat \<Rightarrow> int \<Rightarrow> (nat \<times> int list \<times> int list) result option" where
  "get_path_vec_stop h a stop = path_vec_loop (length h) h a stop 18446744073709551615 [] []"

definition get_path_vec :: "trie_heap \<Rightarrow> nat \<Rightarrow> (nat \<times> int list \<times> int list) result option" where
  "get_path_vec h a = get_path_vec_stop h a ROOT"

text \<open>\<^verbatim>\<open>std::string::operator[](0)\<close> of an empty string is the null character.\<close>

definition first_byte_of :: "bytes list \<Rightarrow> int \<Rightarrow> u8 result" where
  "first_byte_of char_list c =
     (if c < 0 then Inl Undefined
      else rbind (vec_at char_list (nat c)) (\<lambda>s. Inr (case s of [] \<Rightarrow> 0 | b # _ \<Rightarrow> b)))"

fun prev_grapheme_loop ::
  "nat \<Rightarrow> trie_heap \<Rightarrow> nat \<Rightarrow> bytes list \<Rightarrow> (nat \<times> int list \<times> int list) result option" where
  "prev_grapheme_loop 0 h a char_list = None"
| "prev_grapheme_loop (Suc n) h a char_list =
     obind (Some (deref h a)) (\<lambda>nd.
       if node_char nd = ROOT then Some (Inr (a, [], []))
       else
         obind (Some (first_byte_of char_list (node_char nd))) (\<lambda>b.
         obind (if byte_is_codepoint_boundary b then Some (Inr (a, [], []))
                else (case node_parent nd of
                        None \<Rightarrow> Some (Inl Undefined)
                      | Some p \<Rightarrow> prev_grapheme_loop n h p char_list)) (\<lambda>(stop, output, timesteps).
           Some (Inr (stop, output @ [node_char nd], timesteps @ [node_time nd])))))"

definition get_prev_grapheme :: "trie_heap \<Rightarrow> nat \<Rightarrow> bytes list \<Rightarrow> (nat \<times> int list \<times> int list) result option" where
  "get_prev_grapheme h a char_list = prev_grapheme_loop (length h) h a char_list"

text \<open>\<^verbatim>\<open>iterate_to_vec\<close>: shift the probabilities of all live nodes and list them in preorder.\<close>

definition shift_probs :: "cxx_lib \<Rightarrow> path_node \<Rightarrow> path_node" where
  "shift_probs lib nd =
     nd\<lparr>log_prob_b_prev := log_prob_b_cur nd, log_prob_nb_prev := log_prob_nb_cur nd,
        log_prob_b_cur := FLT_LOWEST, log_prob_nb_cur := FLT_LOWEST,
        node_score := log_sum_exp lib (log_prob_b_cur nd) (log_prob_nb_cur nd)\<rparr>"

fun iterate_node :: "cxx_lib \<Rightarrow> nat \<Rightarrow> trie_heap \<Rightarrow> nat \<Rightarrow> nat list \<Rightarrow> (trie_heap \<times> nat list) result option"
  and iterate_children ::
    "cxx_lib \<Rightarrow> nat \<Rightarrow> trie_heap \<Rightarrow> (int \<times> nat) list \<Rightarrow> nat list \<Rightarrow> (trie_heap \<times> nat list) result option" where
  "iterate_node lib 0 h a output = None"
| "iterate_node lib (Suc n) h a output =
     obind (Some (deref h a)) (\<lambda>nd.
       if node_exists nd
       then iterate_children lib n (h[a := Some (shift_probs lib nd)]) (node_children nd) (output @ [a])
       else iterate_children lib n h (node_children nd) output)"
| "iterate_children lib n h [] output = Some (Inr (h, output))"
| "iterate_children lib n h ((c, b) # cs) output =
     obind (iterate_node lib n h b output) (\<lambda>(h', output'). iterate_children lib n h' cs output')"

definition iterate_to_vec :: "cxx_lib \<Rightarrow> trie_heap \<Rightarrow> nat \<Rightarrow> (trie_heap \<times> nat list) result option" where
  "iterate_to_vec lib h a = iterate_node lib (length h) h a []"

text \<open>\<^verbatim>\<open>remove\<close>: a node without children is deleted, and its parent if that was only kept for it.\<close>

fun erase_child :: "int \<Rightarrow> (int \<times> nat) list \<Rightarrow> (int \<times> nat) list" where
  "erase_child c [] = []"
| "erase_child c ((d, b) # cs) = (if d = c then cs else (d, b) # erase_child c cs)"

fun remove_loop :: "nat \<Rightarrow> trie_heap \<Rightarrow> nat \<Rightarrow> trie_heap result option" where
  "remove_loop 0 h a = None"
| "remove_loop (Suc n) h a =
     obind (Some (deref h a)) (\<lambda>nd.
       (let h1 = h[a := Some (nd\<lparr>node_exists := False\<rparr>)]
        in if node_children nd \<noteq> [] then Some (Inr h1)
           else
             (case node_parent nd of
                None \<Rightarrow> Some (Inl Undefined)
              | Some p \<Rightarrow>
                  obind (Some (deref h1 p)) (\<lambda>pnd.
                    (let pnd' = pnd\<lparr>node_children := erase_child (node_char nd) (node_children pnd)\<rparr>;
                         h2 = h1[p := Some pnd']
                     in obind (if node_children pnd' = [] \<and> \<not> node_exists pnd' then remove_loop n h2 p
                               else Some (Inr h2)) (\<lambda>h3. Some (Inr (h3[a := None]))))))))"

definition remove_node :: "trie_heap \<Rightarrow> nat \<Rightarrow> trie_heap result option" where
  "remove_node h a = remove_loop (length h) h a"

definition set_dictionary :: "word_prefix_set \<Rightarrow> path_node \<Rightarrow> path_node" where
  "set_dictionary d nd = nd\<lparr>dictionary_state := empty_state d, has_dictionary := True\<rparr>"

section \<open>Results of the beam search\<close>

record beam_output =
  tokens :: "int list"
  timesteps :: "int list"
  audio_score :: cfloat

fun beam_results :: "trie_heap \<Rightarrow> nat list \<Rightarrow> (cfloat \<times> beam_output) list result option" where
  "beam_results h [] = Some (Inr [])"
| "beam_results h (a # as) =
     obind (Some (deref h a)) (\<lambda>nd.
     obind (get_path_vec h a) (\<lambda>(_, toks, times).
     obind (beam_results h as) (\<lambda>rest.
       Some (Inr ((cf_neg (node_score nd),
         \<lparr>tokens = toks, timesteps = times, audio_score = cf_neg (approx_ctc nd)\<rparr>) # rest)))))"

definition get_beam_search_result :: "trie_heap \<Rightarrow> nat list \<Rightarrow> nat \<Rightarrow> (cfloat \<times> beam_output) list result option" where
  "get_beam_search_result h candidates num_candidates = beam_results h (take num_candidates candidates)"

section \<open>Well-formed tries\<close>

definition node_at :: "trie_heap \<Rightarrow> nat \<Rightarrow> path_node option" where
  "node_at h a = (if a < length h then h ! a else None)"

named_theorems heap_simps \<open>reads after writes of the trie heap\<close>

lemma deref_node_at [heap_simps]: "deref h a = (case node_at h a of None \<Rightarrow> Inl Undefined | Some nd \<Rightarrow> Inr nd)"
  by (simp add: deref_def node_at_def)

lemma node_at_update [heap_simps]:
  "node_at (h[a := x]) b = (if b = a \<and> a < length h then x else node_at h b)"
  by (auto simp: node_at_def)

lemma node_at_snoc [heap_simps]: "node_at (h @ [x]) b = (if b = length h then x else node_at h b)"
  by (auto simp: node_at_def nth_append)

lemma node_at_bound: "node_at h a = Some nd \<Longrightarrow> a < length h"
  by (auto simp: node_at_def split: if_splits)

definition root_ok :: "trie_heap \<Rightarrow> bool" where
  "root_ok h \<longleftrightarrow> (\<exists>r. node_at h 0 = Some r \<and> node_parent r = None \<and> node_char r = ROOT)"

definition children_ok :: "trie_heap \<Rightarrow> nat \<Rightarrow> path_node \<Rightarrow> bool" where
  "children_ok h a nd \<longleftrightarrow> distinct (map fst (node_children nd)) \<and>
     (\<forall>c b. (c, b) \<in> set (node_children nd) \<longrightarrow>
        (\<exists>ch. node_at h b = Some ch \<and> node_parent ch = Some a \<and> node_char ch = c \<and> a < b))"

definition parent_ok :: "trie_heap \<Rightarrow> nat \<Rightarrow> path_node \<Rightarrow> bool" where
  "parent_ok h a nd \<longleftrightarrow> 0 \<le> node_char nd \<and>
     (\<exists>p pnd. node_parent nd = Some p \<and> p < a \<and> node_at h p = Some pnd \<and> (node_char nd, a) \<in> set (node_children pnd))"

definition trie_ok :: "trie_heap \<Rightarrow> bool" where
  "trie_ok h \<longleftrightarrow> root_ok h \<and>
     (\<forall>a nd. node_at h a = Some nd \<longrightarrow> children_ok h a nd \<and> (a \<noteq> 0 \<longrightarrow> parent_ok h a nd))"

lemma trie_okD:
  assumes "trie_ok h" "node_at h a = Some nd"
  shows "distinct (map fst (node_children nd))"
    and "(c, b) \<in> set (node_children nd) \<Longrightarrow>
      \<exists>ch. node_at h b = Some ch \<and> node_parent ch = Some a \<and> node_char ch = c \<and> a < b"
    and "a \<noteq> 0 \<Longrightarrow> 0 \<le> node_char nd"
    and "a \<noteq> 0 \<Longrightarrow> \<exists>p pnd. node_parent nd = Some p \<and> p < a \<and> node_at h p = Some pnd \<and>
      (node_char nd, a) \<in> set (node_children pnd)"
  using assms by (auto simp: trie_ok_def children_ok_def parent_ok_def)

lemma trie_ok_root: "trie_ok h \<Longrightarrow> \<exists>r. node_at h 0 = Some r \<and> node_parent r = None \<and> node_char r = ROOT"
  by (simp add: trie_ok_def root_ok_def)

text \<open>Two heaps with the same nodes and links, which may differ in probabilities, marks and states.\<close>

definition links :: "path_node \<Rightarrow> int \<times> nat option \<times> (int \<times> nat) list" where
  "links nd = (node_char nd, node_parent nd, node_children nd)"

definition same_shape :: "trie_heap \<Rightarrow> trie_heap \<Rightarrow> bool" where
  "same_shape h h' \<longleftrightarrow> length h' = length h \<and> (\<forall>a. map_option links (node_at h' a) = map_option links (node_at h a))"

lemma same_shape_refl [simp]: "same_shape h h"
  and same_shape_sym: "same_shape h h' \<Longrightarrow> same_shape h' h"
  and same_shape_trans: "same_shape h h' \<Longrightarrow> same_shape h' h'' \<Longrightarrow> same_shape h h''"
  by (simp_all add: same_shape_def)

lemma same_shape_update:
  assumes "node_at h a = Some nd" "links nd' = links nd"
  shows "same_shape h (h[a := Some nd'])"
  using assms by (simp add: same_shape_def heap_simps)

lemma same_shape_node:
  assumes "same_shape h h'" "node_at h a = Some nd"
  obtains nd' where "node_at h' a = Some nd'" "node_char nd' = node_char nd" "node_parent nd' = node_parent nd"
    "node_children nd' = node_children nd"
proof -
  have "map_option links (node_at h' a) = map_option links (node_at h a)" using assms(1) by (simp add: same_shape_def)
  with assms(2) that show thesis by (auto simp: links_def)
qed

lemma trie_ok_same_shape:
  assumes "trie_ok h" "same_shape h h'"
  shows "trie_ok h'"
proof -
  note sym = same_shape_sym [OF assms(2)]
  have "root_ok h'"
    using trie_ok_root [OF assms(1)] same_shape_node [OF assms(2)] by (metis root_ok_def)
  moreover have "children_ok h' a nd' \<and> (a \<noteq> 0 \<longrightarrow> parent_ok h' a nd')" if nd': "node_at h' a = Some nd'" for a nd'
  proof -
    obtain nd where nd: "node_at h a = Some nd" "node_char nd = node_char nd'" "node_parent nd = node_parent nd'"
      "node_children nd = node_children nd'" using same_shape_node [OF sym nd'] .
    note ok = trie_okD [OF assms(1) nd(1)]
    have "children_ok h' a nd'"
      unfolding children_ok_def using ok(1,2) nd(4) same_shape_node [OF assms(2)] by metis
    moreover have "parent_ok h' a nd'" if "a \<noteq> 0"
      unfolding parent_ok_def using ok(3,4) [OF that] nd same_shape_node [OF assms(2)] by metis
    ultimately show ?thesis by blast
  qed
  ultimately show ?thesis by (simp add: trie_ok_def)
qed

text \<open>The live nodes are the prefixes the search still considers. A leaf is always live.\<close>

definition live :: "trie_heap \<Rightarrow> nat set" where
  "live h = {a. \<exists>nd. node_at h a = Some nd \<and> node_exists nd}"

definition tight :: "trie_heap \<Rightarrow> bool" where
  "tight h \<longleftrightarrow> (\<forall>a nd. node_at h a = Some nd \<longrightarrow> node_children nd = [] \<longrightarrow> node_exists nd)"

section \<open>Creating and finding children\<close>

lemma find_child:
  assumes "distinct (map fst cs)"
  shows "List.find (\<lambda>(c, _). c = x) cs = Some (c, b) \<longleftrightarrow> c = x \<and> (x, b) \<in> set cs"
    and "List.find (\<lambda>(c, _). c = x) cs = None \<longleftrightarrow> x \<notin> fst ` set cs"
  using assms by (induction cs) force+

lemma new_child_ok:
  assumes "trie_ok h" "node_at h a = Some nd" "node_char new \<notin> fst ` set (node_children nd)"
    and "0 \<le> node_char new" "node_parent new = Some a" "node_children new = []"
  shows "trie_ok (snd (new_child h a nd new))"
proof -
  let ?b = "length h" and ?nd = "nd\<lparr>node_children := node_children nd @ [(node_char new, length h)]\<rparr>"
  let ?h = "h[a := Some ?nd] @ [Some new]"
  have a: "a < length h" using assms(2) by (rule node_at_bound)
  have at: "node_at ?h x = (if x = ?b then Some new else if x = a then Some ?nd else node_at h x)" for x
    using a by (auto simp: heap_simps)
  have keep: "\<exists>ch. node_at ?h x = Some ch \<and> node_parent ch = node_parent nd' \<and> node_char ch = node_char nd' \<and>
      set (node_children nd') \<subseteq> set (node_children ch)" if "node_at h x = Some nd'" for x nd'
    using that assms(2) node_at_bound [OF that] by (auto simp: at)
  have "root_ok ?h" using trie_ok_root [OF assms(1)] keep unfolding root_ok_def by metis
  moreover have "children_ok ?h x nd' \<and> (x \<noteq> 0 \<longrightarrow> parent_ok ?h x nd')" if x: "node_at ?h x = Some nd'" for x nd'
  proof (cases "x = ?b")
    case True
    with x at a assms(4-6) show ?thesis by (auto simp: children_ok_def parent_ok_def)
  next
    case False
    obtain nd0 where nd0: "node_at h x = Some nd0" "node_char nd' = node_char nd0" "node_parent nd' = node_parent nd0"
      "node_children nd' = node_children nd0 @ (if x = a then [(node_char new, ?b)] else [])"
      using x False at [of x] assms(2) by (auto split: if_splits)
    note ok = trie_okD [OF assms(1) nd0(1)]
    have "children_ok ?h x nd'"
      unfolding children_ok_def
    proof (intro conjI allI impI)
      show "distinct (map fst (node_children nd'))"
        using ok(1) nd0 assms(2,3) by (auto split: if_splits)
      fix c b assume "(c, b) \<in> set (node_children nd')"
      then consider "(c, b) \<in> set (node_children nd0)" | "x = a" "c = node_char new" "b = ?b"
        using nd0(4) by (auto split: if_splits)
      then show "\<exists>ch. node_at ?h b = Some ch \<and> node_parent ch = Some x \<and> node_char ch = c \<and> x < b"
      proof cases
        case 1
        from ok(2) [OF this] keep show ?thesis by metis
      next
        case 2
        with at assms(5) a show ?thesis by simp
      qed
    qed
    moreover have "parent_ok ?h x nd'" if x0: "x \<noteq> 0"
    proof -
      obtain p pnd where "node_parent nd0 = Some p" "p < x" "node_at h p = Some pnd"
        "(node_char nd0, x) \<in> set (node_children pnd)" using ok(4) [OF x0] by blast
      with keep [of p pnd] ok(3) [OF x0] nd0(2,3) show ?thesis unfolding parent_ok_def by auto
    qed
    ultimately show ?thesis by blast
  qed
  ultimately show ?thesis by (simp add: trie_ok_def new_child_def)
qed

text \<open>What an operation keeps of the nodes that were there: everything but marks, times, states and probabilities of one step.\<close>

definition grown :: "trie_heap \<Rightarrow> trie_heap \<Rightarrow> bool" where
  "grown h h' \<longleftrightarrow> (\<forall>x nd. node_at h x = Some nd \<longrightarrow>
     (\<exists>nd'. node_at h' x = Some nd' \<and> node_char nd' = node_char nd \<and> node_parent nd' = node_parent nd \<and>
        node_score nd' = node_score nd \<and> has_dictionary nd' = has_dictionary nd \<and> (node_exists nd \<longrightarrow> node_exists nd')))"

lemma grown_refl [simp]: "grown h h"
  by (simp add: grown_def)

lemma grown_trans: "grown h h' \<Longrightarrow> grown h' h'' \<Longrightarrow> grown h h''"
  unfolding grown_def by (metis (no_types, lifting))

lemma grown_live: "grown h h' \<Longrightarrow> live h \<subseteq> live h'"
  unfolding grown_def live_def by blast

lemma grown_update:
  assumes "node_at h a = Some nd" "node_char nd' = node_char nd" "node_parent nd' = node_parent nd"
    "node_score nd' = node_score nd" "has_dictionary nd' = has_dictionary nd" "node_exists nd \<longrightarrow> node_exists nd'"
  shows "grown h (h[a := Some nd'])"
  using assms node_at_bound [OF assms(1)] by (auto simp: grown_def heap_simps)

text \<open>Either every node has the dictionary or none.\<close>

definition dictionary_flags :: "word_prefix_set option \<Rightarrow> trie_heap \<Rightarrow> bool" where
  "dictionary_flags dict h \<longleftrightarrow> (\<forall>x nd. node_at h x = Some nd \<longrightarrow> has_dictionary nd = (dict \<noteq> None))"

definition heap_ok :: "word_prefix_set option \<Rightarrow> trie_heap \<Rightarrow> bool" where
  "heap_ok dict h \<longleftrightarrow> trie_ok h \<and> tight h \<and> dictionary_flags dict h"

lemma revive_links:
  "links (revive ch t p) = links ch" "node_exists (revive ch t p)" "node_score (revive ch t p) = node_score ch"
  "has_dictionary (revive ch t p) = has_dictionary ch" "dictionary_state (revive ch t p) = dictionary_state ch"
  by (simp_all add: revive_def links_def Let_def)

lemma heap_ok_update:
  assumes "heap_ok dict h" "node_at h a = Some nd" "links nd' = links nd"
    and "node_exists nd \<longrightarrow> node_exists nd'" "has_dictionary nd' = has_dictionary nd"
  shows "heap_ok dict (h[a := Some nd'])"
proof -
  have "trie_ok (h[a := Some nd'])"
    using trie_ok_same_shape [OF _ same_shape_update [OF assms(2,3)]] assms(1) by (simp add: heap_ok_def)
  with assms show ?thesis
    by (auto simp: heap_ok_def tight_def dictionary_flags_def heap_simps links_def)
qed

lemma heap_ok_new_child:
  assumes "heap_ok dict h" "node_at h a = Some nd" "node_char new \<notin> fst ` set (node_children nd)"
    and "0 \<le> node_char new" "node_parent new = Some a" "node_children new = []" "node_exists new"
    and "has_dictionary new = (dict \<noteq> None)"
  shows "heap_ok dict (snd (new_child h a nd new)) \<and> grown h (snd (new_child h a nd new)) \<and>
    node_at (snd (new_child h a nd new)) (length h) = Some new"
proof -
  have "trie_ok (snd (new_child h a nd new))"
    using new_child_ok [OF _ assms(2-6)] assms(1) by (simp add: heap_ok_def)
  moreover have "a < length h" using assms(2) by (rule node_at_bound)
  ultimately show ?thesis
    using assms
    by (auto simp: heap_ok_def tight_def dictionary_flags_def new_child_def heap_simps grown_def
        dest: node_at_bound)
qed

lemma get_path_trie_spec:
  assumes "heap_ok dict h" "node_at h a = Some nd" "0 \<le> c"
  shows "\<exists>r h'. get_path_trie dict h a c t p reset = Inr (r, h') \<and> heap_ok dict h' \<and> grown h h' \<and>
    (\<forall>b. r = Some b \<longrightarrow> (\<exists>ch. node_at h' b = Some ch \<and> node_parent ch = Some a \<and> node_char ch = c \<and> node_exists ch))"
proof -
  have ok: "trie_ok h" and fl: "has_dictionary nd = (dict \<noteq> None)"
    using assms(1,2) by (auto simp: heap_ok_def dictionary_flags_def)
  note child = find_child [OF trie_okD(1) [OF ok assms(2)], of c]
  show ?thesis
  proof (cases "List.find (\<lambda>(x, _). x = c) (node_children nd)")
    case (Some cb)
    then obtain b where b: "cb = (c, b)" "(c, b) \<in> set (node_children nd)" using child(1) by (cases cb) auto
    from trie_okD(2) [OF ok assms(2) b(2)] obtain ch where
      ch: "node_at h b = Some ch" "node_parent ch = Some a" "node_char ch = c" by blast
    have "get_path_trie dict h a c t p reset = Inr (Some b, h[b := Some (revive ch t p)])"
      using assms(2) ch(1) Some b(1) by (simp add: get_path_trie_def heap_simps)
    moreover have "heap_ok dict (h[b := Some (revive ch t p)])"
      by (rule heap_ok_update [OF assms(1) ch(1)]) (simp_all add: revive_links)
    moreover have "grown h (h[b := Some (revive ch t p)])"
      using revive_links [of ch t p] by (intro grown_update [OF ch(1)]) (simp_all add: links_def)
    ultimately show ?thesis
      using ch node_at_bound [OF ch(1)] revive_links [of ch t p] by (simp add: heap_simps links_def)
  next
    case None
    let ?new = "path_node_init\<lparr>node_char := c, node_time := t, node_parent := Some a, log_prob_c := p\<rparr>"
    have new: "heap_ok dict (snd (new_child h a nd new)) \<and> grown h (snd (new_child h a nd new)) \<and>
        node_at (snd (new_child h a nd new)) (length h) = Some new"
      if "node_char new = c" "node_parent new = Some a" "node_children new = []" "node_exists new"
        "has_dictionary new = (dict \<noteq> None)" for new
      using heap_ok_new_child [OF assms(1,2) _ _ that(2-5)] None child(2) assms(3) that(1) by simp
    have fst: "fst (new_child h a nd new) = Some (length h)" for new by (simp add: new_child_def)
    show ?thesis
    proof (cases dict)
      case no_dict: None
      then have "get_path_trie dict h a c t p reset = Inr (new_child h a nd ?new)"
        using None assms(2) fl by (simp add: get_path_trie_def heap_simps)
      with new [of ?new] no_dict show ?thesis
        by (cases "new_child h a nd ?new") (auto simp: path_node_init_def new_child_def)
    next
      case (Some d)
      obtain found st where ap: "append_character d (c + 1) (dictionary_state nd) = (found, st)" by fastforce
      show ?thesis
      proof (cases found)
        case True
        let ?n = "?new\<lparr>has_dictionary := True,
          dictionary_state := (if wps_weight st \<and> reset then empty_state d else st)\<rparr>"
        have "get_path_trie dict h a c t p reset = Inr (new_child h a nd ?n)"
          using None assms(2) fl Some ap True by (simp add: get_path_trie_def heap_simps)
        with new [of ?n] Some show ?thesis
          by (cases "new_child h a nd ?n") (auto simp: path_node_init_def new_child_def)
      next
        case False
        let ?n = "if wps_weight (dictionary_state nd) \<and> reset then nd\<lparr>dictionary_state := empty_state d\<rparr> else nd"
        have "get_path_trie dict h a c t p reset = Inr (None, h[a := Some ?n])"
          using None assms(2) fl Some ap False by (simp add: get_path_trie_def heap_simps)
        moreover have "heap_ok dict (h[a := Some ?n])" "grown h (h[a := Some ?n])"
          by (rule heap_ok_update [OF assms(1,2)] grown_update [OF assms(2)]; simp add: links_def)+
        ultimately show ?thesis by simp
      qed
    qed
  qed
qed

section \<open>Removing nodes\<close>

lemma remove_loop_masked:
  assumes "remove_loop n (h[x := None]) a = Some (Inr h')"
  shows "\<exists>g. remove_loop n h a = Some (Inr g) \<and> g[x := None] = h'"
  using assms
proof (induction n arbitrary: h a h')
  case (Suc n)
  have d: "node_at h y = Some nd \<and> y \<noteq> x" if "node_at (h[x := None]) y = Some nd" for y nd and h :: trie_heap
    using that node_at_bound [OF that] by (auto simp: heap_simps split: if_splits)
  have sw: "(g[x := None])[y := v] = (g[y := v])[x := None]" if "y \<noteq> x" for g :: trie_heap and y v
    using that by (metis list_update_swap)
  from Suc.prems obtain nd where nd: "node_at (h[x := None]) a = Some nd"
    by (cases "node_at (h[x := None]) a") (auto simp: heap_simps)
  note a = d [OF nd]
  let ?h1 = "h[a := Some (nd\<lparr>node_exists := False\<rparr>)]"
  show ?case
  proof (cases "node_children nd = []")
    case False
    then have "h' = (h[x := None])[a := Some (nd\<lparr>node_exists := False\<rparr>)]"
      using Suc.prems nd by (simp add: deref_node_at Let_def)
    with a False sw show ?thesis by (auto simp: deref_node_at Let_def)
  next
    case True
    then obtain p where p: "node_parent nd = Some p"
      using Suc.prems nd by (cases "node_parent nd") (simp_all add: deref_node_at Let_def)
    obtain pnd where pnd0: "node_at ((h[x := None])[a := Some (nd\<lparr>node_exists := False\<rparr>)]) p = Some pnd"
      using Suc.prems nd True p
      by (cases "node_at ((h[x := None])[a := Some (nd\<lparr>node_exists := False\<rparr>)]) p") (simp_all add: deref_node_at Let_def)
    then have pnd: "node_at ?h1 p = Some pnd" "p \<noteq> x" using a sw d by metis+
    let ?pnd = "pnd\<lparr>node_children := erase_child (node_char nd) (node_children pnd)\<rparr>"
    let ?h2 = "?h1[p := Some ?pnd]"
    have h2: "((h[x := None])[a := Some (nd\<lparr>node_exists := False\<rparr>)])[p := Some ?pnd] = ?h2[x := None]"
      using a pnd(2) sw by metis
    show ?thesis
    proof (cases "node_children ?pnd = [] \<and> \<not> node_exists ?pnd")
      case c: True
      obtain h3 where h3: "remove_loop n (?h2[x := None]) p = Some (Inr h3)" "h' = h3[a := None]"
        using Suc.prems nd True p pnd0 c h2
        by (cases "remove_loop n (?h2[x := None]) p")
          (auto simp: deref_node_at Let_def obind_def split: sum.splits)
      from Suc.IH [OF this(1)] obtain g where "remove_loop n ?h2 p = Some (Inr g)" "g[x := None] = h3" by blast
      then show ?thesis
        using a True p pnd(1) c h3(2) sw [of a g None] by (auto simp: deref_node_at Let_def)
    next
      case c: False
      then have "h' = (?h2[x := None])[a := None]"
        using Suc.prems nd True p pnd0 h2 by (auto simp: deref_node_at Let_def)
      moreover have "remove_loop (Suc n) h a = Some (Inr (?h2[a := None]))"
        using a True p pnd(1) c by (auto simp: deref_node_at Let_def)
      ultimately show ?thesis
        using a sw [of a ?h2 None] by auto
    qed
  qed
qed simp

lemma erase_child_set:
  assumes "distinct (map fst cs)"
  shows "set (erase_child c cs) = {(d, b) \<in> set cs. d \<noteq> c}" "distinct (map fst (erase_child c cs))"
  using assms by (induction c cs rule: erase_child.induct) force+

lemma child_unique:
  assumes "distinct (map fst cs)" "(c, x) \<in> set cs" "(c, y) \<in> set cs"
  shows "x = y"
  using assms by (rule eq_key_imp_eq_value)

lemma root_has_children:
  assumes "trie_ok h" "node_at h 0 = Some r" "node_children r = []" "node_at h a = Some nd"
  shows "a = 0"
  using assms(4)
proof (induction a arbitrary: nd rule: less_induct)
  case (less a)
  show ?case
  proof (rule ccontr)
    assume a: "a \<noteq> 0"
    from trie_okD(4) [OF assms(1) less.prems a] obtain p pnd where
      p: "p < a" "node_at h p = Some pnd" "(node_char nd, a) \<in> set (node_children pnd)" by blast
    with less.IH [OF p(1,2)] assms(2,3) show False by simp
  qed
qed

text \<open>Deleting a leaf and its entry in the parent.\<close>

definition without_leaf :: "trie_heap \<Rightarrow> nat \<Rightarrow> path_node \<Rightarrow> nat \<Rightarrow> path_node \<Rightarrow> trie_heap" where
  "without_leaf h a nd p pnd =
     (h[p := Some (pnd\<lparr>node_children := erase_child (node_char nd) (node_children pnd)\<rparr>)])[a := None]"

lemma node_at_without_leaf:
  assumes "node_at h a = Some nd" "node_at h p = Some pnd"
  shows "node_at (without_leaf h a nd p pnd) x =
    (if x = a then None
     else if x = p then Some (pnd\<lparr>node_children := erase_child (node_char nd) (node_children pnd)\<rparr>)
     else node_at h x)"
  using node_at_bound [OF assms(1)] node_at_bound [OF assms(2)] by (auto simp: without_leaf_def heap_simps)

lemma trie_ok_without_leaf:
  assumes ok: "trie_ok h" and nd: "node_at h a = Some nd" "node_children nd = []"
    and p: "node_parent nd = Some p" "p < a" "node_at h p = Some pnd" "(node_char nd, a) \<in> set (node_children pnd)"
  shows "trie_ok (without_leaf h a nd p pnd)"
proof -
  let ?m = "without_leaf h a nd p pnd"
  note at = node_at_without_leaf [OF nd(1) p(3)]
  note pd = trie_okD(1) [OF ok p(3)]
  have keep: "\<exists>nd1. node_at ?m x = Some nd1 \<and> node_parent nd1 = node_parent nd' \<and> node_char nd1 = node_char nd'"
    if "node_at h x = Some nd'" "x \<noteq> a" for x nd'
    using that p(3) by (auto simp: at)
  have "root_ok ?m" using trie_ok_root [OF ok] keep [of 0] p(2) unfolding root_ok_def by (metis not_less0)
  moreover have "children_ok ?m x nd' \<and> (x \<noteq> 0 \<longrightarrow> parent_ok ?m x nd')" if x: "node_at ?m x = Some nd'" for x nd'
  proof -
    have xa: "x \<noteq> a" using x at by auto
    obtain nd0 where nd0: "node_at h x = Some nd0" "node_char nd' = node_char nd0" "node_parent nd' = node_parent nd0"
      "node_children nd' = (if x = p then erase_child (node_char nd) (node_children nd0) else node_children nd0)"
      using x at [of x] p(3) by (auto split: if_splits)
    note ndd = trie_okD [OF ok nd0(1)]
    have sub: "(c, b) \<in> set (node_children nd0) \<and> b \<noteq> a" if cb: "(c, b) \<in> set (node_children nd')" for c b
    proof -
      have in0: "(c, b) \<in> set (node_children nd0)" and c: "x = p \<Longrightarrow> c \<noteq> node_char nd"
        using cb nd0(4) erase_child_set(1) [OF ndd(1)] by (auto split: if_splits)
      from ndd(2) [OF in0] nd(1) p(1) c show ?thesis using in0 by force
    qed
    have "children_ok ?m x nd'"
      unfolding children_ok_def
    proof (intro conjI allI impI)
      show "distinct (map fst (node_children nd'))"
        using ndd(1) erase_child_set(2) nd0(4) by (auto split: if_splits)
      fix c b assume "(c, b) \<in> set (node_children nd')"
      with sub ndd(2) keep show "\<exists>ch. node_at ?m b = Some ch \<and> node_parent ch = Some x \<and> node_char ch = c \<and> x < b"
        by metis
    qed
    moreover have "parent_ok ?m x nd'" if x0: "x \<noteq> 0"
    proof -
      obtain q qnd where q: "node_parent nd0 = Some q" "q < x" "node_at h q = Some qnd"
        "(node_char nd0, x) \<in> set (node_children qnd)" using ndd(4) [OF x0] by blast
      have "q \<noteq> a" using q(3,4) nd by auto
      moreover have "node_char nd0 \<noteq> node_char nd" if "q = p"
        using q(3,4) that p(3,4) pd child_unique xa by fastforce
      ultimately show ?thesis
        using q ndd(3) [OF x0] nd0(2,3) p(3) erase_child_set(1) [OF pd] by (auto simp: parent_ok_def at)
    qed
    ultimately show ?thesis by blast
  qed
  ultimately show ?thesis by (simp add: trie_ok_def)
qed

text \<open>What removal leaves of a node: everything but its mark and its list of children.\<close>

definition core :: "path_node \<Rightarrow> path_node" where
  "core nd = nd\<lparr>node_exists := False, node_children := []\<rparr>"

lemma core_simps [simp]:
  "has_dictionary (core nd) = has_dictionary nd" "node_char (core nd) = node_char nd"
  "node_parent (core nd) = node_parent nd" "node_score (core nd) = node_score nd"
  "dictionary_state (core nd) = dictionary_state nd"
  by (simp_all add: core_def)

lemma core_eqD:
  assumes "core nd' = core nd"
  shows "has_dictionary nd' = has_dictionary nd" "node_char nd' = node_char nd" "node_parent nd' = node_parent nd"
    "node_score nd' = node_score nd" "dictionary_state nd' = dictionary_state nd"
  using assms core_simps by metis+

definition pruned :: "trie_heap \<Rightarrow> trie_heap \<Rightarrow> bool" where
  "pruned h h' \<longleftrightarrow> length h' = length h \<and>
     (\<forall>x nd'. node_at h' x = Some nd' \<longrightarrow> (\<exists>nd. node_at h x = Some nd \<and> core nd' = core nd))"

lemma pruned_refl [simp]: "pruned h h"
  by (simp add: pruned_def)

lemma pruned_trans: "pruned h h' \<Longrightarrow> pruned h' h'' \<Longrightarrow> pruned h h''"
  unfolding pruned_def by metis

lemma pruned_update: "node_at h a = Some nd \<Longrightarrow> core nd' = core nd \<Longrightarrow> pruned h (h[a := Some nd'])"
  by (auto simp: pruned_def heap_simps split: if_splits)

lemma pruned_without_leaf:
  assumes "node_at h a = Some nd" "node_at h p = Some pnd"
  shows "pruned h (without_leaf h a nd p pnd)"
  using assms(2) node_at_without_leaf [OF assms] by (auto simp: pruned_def core_def without_leaf_def split: if_splits)

definition tight_except :: "nat \<Rightarrow> trie_heap \<Rightarrow> bool" where
  "tight_except a h \<longleftrightarrow>
     (\<forall>x nd. node_at h x = Some nd \<longrightarrow> x \<noteq> a \<longrightarrow> node_children nd = [] \<longrightarrow> node_exists nd)"

lemma tight_except_tight:
  assumes "tight_except p h" "node_at h p = Some nd" "node_children nd \<noteq> [] \<or> node_exists nd"
  shows "tight h"
  unfolding tight_def using assms by (metis option.inject tight_except_def)

lemma remove_loop_spec:
  assumes "a < n" "trie_ok h" "tight_except a h" "node_at h a = Some nd" "live h - {a} \<noteq> {}"
  shows "\<exists>h'. remove_loop n h a = Some (Inr h') \<and> trie_ok h' \<and> tight h' \<and> live h' = live h - {a} \<and> pruned h h'"
  using assms
proof (induction n arbitrary: h a nd)
  case (Suc n)
  note ok = Suc.prems(2) and nd = Suc.prems(4)
  note na = node_at_bound [OF nd]
  let ?h1 = "h[a := Some (nd\<lparr>node_exists := False\<rparr>)]"
  show ?case
  proof (cases "node_children nd = []")
    case False
    have "trie_ok ?h1"
      by (rule trie_ok_same_shape [OF ok same_shape_update [OF nd]]) (simp add: links_def)
    moreover have "pruned h ?h1" by (rule pruned_update [OF nd]) (simp add: core_def)
    moreover have "tight ?h1" using Suc.prems(3) na False by (auto simp: tight_def tight_except_def heap_simps)
    moreover have "live ?h1 = live h - {a}" using na by (auto simp: live_def heap_simps)
    moreover have "remove_loop (Suc n) h a = Some (Inr ?h1)" using nd False by (simp add: heap_simps)
    ultimately show ?thesis by blast
  next
    case True
    have a0: "a \<noteq> 0"
    proof
      assume a: "a = 0"
      from Suc.prems(5) obtain b bnd where "node_at h b = Some bnd" "b \<noteq> a" by (auto simp: live_def)
      with root_has_children [OF ok] nd True a show False by blast
    qed
    from trie_okD(4) [OF ok nd a0] obtain p pnd where
      p: "node_parent nd = Some p" "p < a" "node_at h p = Some pnd" "(node_char nd, a) \<in> set (node_children pnd)" by blast
    let ?pnd = "pnd\<lparr>node_children := erase_child (node_char nd) (node_children pnd)\<rparr>"
    let ?h2 = "?h1[p := Some ?pnd]" and ?m = "without_leaf h a nd p pnd"
    note at = node_at_without_leaf [OF nd p(3)]
    have m: "?m = ?h2[a := None]" using p(2) by (simp add: without_leaf_def list_update_swap)
    have okm: "trie_ok ?m" by (rule trie_ok_without_leaf [OF ok nd True p])
    have lm: "live ?m = live h - {a}" using p(3) by (auto simp: live_def at)
    have tm: "tight_except p ?m" using Suc.prems(3) by (auto simp: tight_except_def at)
    have pm: "node_at ?m p = Some ?pnd" using p(2) by (simp add: at)
    have step: "remove_loop (Suc n) h a =
        obind (if node_children ?pnd = [] \<and> \<not> node_exists ?pnd then remove_loop n ?h2 p else Some (Inr ?h2))
          (\<lambda>h3. Some (Inr (h3[a := None])))"
      using nd True p na by (simp add: heap_simps Let_def)
    show ?thesis
    proof (cases "node_children ?pnd = [] \<and> \<not> node_exists ?pnd")
      case c: True
      then have "p \<notin> live ?m" using pm by (auto simp: live_def)
      with Suc.prems(5) lm have "live ?m - {p} = live h - {a}" "live ?m - {p} \<noteq> {}" by auto
      with Suc.IH [OF _ okm tm pm] Suc.prems(1) p(2) obtain h' where
        h': "remove_loop n ?m p = Some (Inr h')" "trie_ok h'" "tight h'" "live h' = live h - {a}" "pruned ?m h'" by auto
      from remove_loop_masked [of n ?h2 a p h'] h'(1) m obtain g where
        "remove_loop n ?h2 p = Some (Inr g)" "g[a := None] = h'" by auto
      with step c have "remove_loop (Suc n) h a = Some (Inr h')" by simp
      with h' pruned_trans [OF pruned_without_leaf [OF nd p(3)]] show ?thesis by blast
    next
      case c: False
      then have "remove_loop (Suc n) h a = Some (Inr ?m)" using step m by auto
      moreover have "tight ?m" by (rule tight_except_tight [OF tm pm]) (use c in auto)
      ultimately show ?thesis using okm lm pruned_without_leaf [OF nd p(3)] by blast
    qed
  qed
qed simp

lemma remove_node_spec:
  assumes "heap_ok dict h" "node_at h a = Some nd" "live h - {a} \<noteq> {}"
  shows "\<exists>h'. remove_node h a = Some (Inr h') \<and> heap_ok dict h' \<and> live h' = live h - {a} \<and> pruned h h'"
proof -
  have "tight_except a h" "trie_ok h" using assms(1) by (auto simp: heap_ok_def tight_def tight_except_def)
  with remove_loop_spec [OF node_at_bound [OF assms(2)] _ _ assms(2,3)] obtain h' where
    h': "remove_node h a = Some (Inr h')" "trie_ok h'" "tight h'" "live h' = live h - {a}" "pruned h h'"
    by (auto simp: remove_node_def)
  have "has_dictionary nd' = (dict \<noteq> None)" if "node_at h' x = Some nd'" for x nd'
  proof -
    from that h'(5) obtain nd0 where nd0: "node_at h x = Some nd0" "core nd' = core nd0" by (auto simp: pruned_def)
    then have "has_dictionary nd' = has_dictionary nd0" using core_eqD by blast
    with nd0 assms(1) show ?thesis by (auto simp: heap_ok_def dictionary_flags_def)
  qed
  with h' show ?thesis by (auto simp: heap_ok_def dictionary_flags_def)
qed

section \<open>Listing the nodes\<close>

text \<open>The nodes of a subtree in preorder, whatever their marks.\<close>

fun preorder :: "nat \<Rightarrow> trie_heap \<Rightarrow> nat \<Rightarrow> nat list" where
  "preorder 0 h a = []"
| "preorder (Suc n) h a =
     (case node_at h a of
        None \<Rightarrow> []
      | Some nd \<Rightarrow> a # concat (map (\<lambda>(_, b). preorder n h b) (node_children nd)))"

inductive below :: "trie_heap \<Rightarrow> nat \<Rightarrow> nat \<Rightarrow> bool" for h where
  below_refl: "node_at h a = Some nd \<Longrightarrow> below h a a"
| below_child: "below h a p \<Longrightarrow> node_at h x = Some nd \<Longrightarrow> node_parent nd = Some p \<Longrightarrow> below h a x"

lemma parent_node:
  assumes "trie_ok h" "node_at h x = Some nd" "node_parent nd = Some p"
  obtains pnd where "p < x" "node_at h p = Some pnd" "(node_char nd, x) \<in> set (node_children pnd)" "x \<noteq> 0"
proof -
  have "x \<noteq> 0" using trie_ok_root [OF assms(1)] assms(2,3) by (cases "x = 0") auto
  with trie_okD(4) [OF assms(1,2)] assms(3) that show thesis by auto
qed

lemma below_le:
  assumes "below h a x" "trie_ok h"
  shows "a \<le> x"
  using assms(1)
proof induction
  case (below_child a p x nd)
  from parent_node [OF assms(2) below_child.hyps(2,3)] have "p < x" by blast
  with below_child.IH show ?case by simp
qed simp

lemma below_node: "below h a x \<Longrightarrow> \<exists>nd. node_at h x = Some nd"
  by (induction rule: below.induct) auto

lemma below_trans: "below h b x \<Longrightarrow> below h a b \<Longrightarrow> below h a x"
  by (induction rule: below.induct) (auto intro: below.intros)

lemma below_chain:
  assumes "below h a x" "below h b x"
  shows "below h a b \<or> below h b a"
  using assms
proof (induction arbitrary: b)
  case (below_child a p x nd)
  from below_child.prems show ?case
  proof cases
    case below_refl
    with below_child.hyps show ?thesis by (auto intro: below.intros)
  next
    case (below_child q nd')
    with below_child.hyps below_child.IH [of b] show ?thesis by auto
  qed
qed blast

lemma below_sibling:
  assumes ok: "trie_ok h" and x: "below h b x" "below h b' x"
    and b: "node_at h b = Some nd" "node_parent nd = Some a" and b': "node_at h b' = Some nd'" "node_parent nd' = Some a"
  shows "b = b'"
proof -
  have up: "y = z" if "below h y z" "node_at h y = Some ny" "node_parent ny = Some a"
    "node_at h z = Some nz" "node_parent nz = Some a" for y z ny nz
    using that(1)
  proof cases
    case (below_child p nd1)
    from parent_node [OF ok that(2,3)] have "a < y" by blast
    moreover have "y \<le> a" using below_le [OF _ ok] below_child that(4,5) by auto
    ultimately show ?thesis by simp
  qed simp
  from below_chain [OF x] up [of b b' nd nd'] up [of b' b nd' nd] b b' show ?thesis by blast
qed

lemma all_below_root:
  assumes "trie_ok h" "node_at h x = Some nd"
  shows "below h 0 x"
  using assms(2)
proof (induction x arbitrary: nd rule: less_induct)
  case (less x)
  show ?case
  proof (cases "x = 0")
    case False
    from trie_okD(4) [OF assms(1) less.prems this] less.IH less.prems show ?thesis by (blast intro: below_child)
  qed (use less.prems in \<open>auto intro: below_refl\<close>)
qed

lemma below_unfold:
  assumes "below h a x" "trie_ok h" "node_at h a = Some nd" "x \<noteq> a"
  shows "\<exists>c b. (c, b) \<in> set (node_children nd) \<and> below h b x"
  using assms(1,3,4)
proof (induction rule: below.induct)
  case (below_child a p x xnd)
  obtain pnd where p: "node_at h p = Some pnd" "(node_char xnd, x) \<in> set (node_children pnd)"
    using parent_node [OF assms(2) below_child.hyps(2,3)] by blast
  show ?case
  proof (cases "p = a")
    case True
    with p below_child.prems below_child.hyps(2) show ?thesis by (auto intro: below_refl)
  next
    case False
    with below_child.IH [OF below_child.prems(1)] below_child.hyps show ?thesis by (blast intro: below.below_child)
  qed
qed simp

lemma preorder_set:
  assumes "trie_ok h" "node_at h a = Some nd" "length h \<le> n + a"
  shows "set (preorder n h a) = {x. below h a x}"
  using assms(2,3)
proof (induction n arbitrary: a nd)
  case 0
  then show ?case using node_at_bound by fastforce
next
  case (Suc n)
  have child: "set (preorder n h b) = {x. below h b x} \<and> below h a b" if "(c, b) \<in> set (node_children nd)" for c b
  proof -
    from trie_okD(2) [OF assms(1) Suc.prems(1) that] obtain ch where
      ch: "node_at h b = Some ch" "node_parent ch = Some a" "a < b" by blast
    with Suc.IH [OF ch(1)] Suc.prems show ?thesis by (auto intro: below_child below_refl)
  qed
  have "x \<in> set (preorder (Suc n) h a) \<longleftrightarrow> below h a x" for x
  proof
    assume "x \<in> set (preorder (Suc n) h a)"
    with Suc.prems(1) child show "below h a x" by (auto intro: below_refl below_trans)
  next
    assume "below h a x"
    with below_unfold [OF this assms(1) Suc.prems(1)] Suc.prems(1) child
    show "x \<in> set (preorder (Suc n) h a)" by (cases "x = a") (auto, blast)
  qed
  then show ?case by blast
qed

lemma distinct_concat_map:
  assumes "distinct xs" "\<And>x. x \<in> set xs \<Longrightarrow> distinct (f x)"
    and "\<And>x y z. x \<in> set xs \<Longrightarrow> y \<in> set xs \<Longrightarrow> z \<in> set (f x) \<Longrightarrow> z \<in> set (f y) \<Longrightarrow> x = y"
  shows "distinct (concat (map f xs))"
  using assms
proof (induction xs)
  case (Cons a xs)
  have "distinct (concat (map f xs))"
    using Cons.prems by (intro Cons.IH) (auto intro: Cons.prems(3))
  moreover have "set (f a) \<inter> set (concat (map f xs)) = {}"
    using Cons.prems(1,3) by fastforce
  ultimately show ?case using Cons.prems(2) by simp
qed simp

lemma preorder_distinct:
  assumes "trie_ok h" "node_at h a = Some nd" "length h \<le> n + a"
  shows "distinct (preorder n h a)"
  using assms(2,3)
proof (induction n arbitrary: a nd)
  case (Suc n)
  have child: "\<exists>ch. node_at h b = Some ch \<and> node_char ch = c \<and> node_parent ch = Some a \<and> a < b \<and>
      distinct (preorder n h b) \<and> set (preorder n h b) = {x. below h b x}"
    if "(c, b) \<in> set (node_children nd)" for c b
  proof -
    from trie_okD(2) [OF assms(1) Suc.prems(1) that] obtain ch where
      ch: "node_at h b = Some ch" "node_parent ch = Some a" "node_char ch = c" "a < b" by blast
    with Suc.IH [OF ch(1)] preorder_set [OF assms(1) ch(1)] Suc.prems show ?thesis by auto
  qed
  have "distinct (concat (map (\<lambda>(_, b). preorder n h b) (node_children nd)))"
  proof (rule distinct_concat_map)
    show "distinct (node_children nd)" using trie_okD(1) [OF assms(1) Suc.prems(1)] by (simp add: distinct_map)
    show "distinct (case x of (_, b) \<Rightarrow> preorder n h b)" if "x \<in> set (node_children nd)" for x
      using that child [of "fst x" "snd x"] by (auto simp: case_prod_beta)
    show "x = y" if x: "x \<in> set (node_children nd)" and y: "y \<in> set (node_children nd)"
      and z: "z \<in> set (case x of (_, b) \<Rightarrow> preorder n h b)" "z \<in> set (case y of (_, b) \<Rightarrow> preorder n h b)" for x y z
    proof (cases x, cases y)
      fix c b c' b' assume xy: "x = (c, b)" "y = (c', b')"
      from child [of c b] x xy(1) obtain ch where ch: "node_at h b = Some ch" "node_char ch = c" "node_parent ch = Some a"
        "set (preorder n h b) = {x. below h b x}" by blast
      from child [of c' b'] y xy(2) obtain ch' where ch': "node_at h b' = Some ch'" "node_char ch' = c'" "node_parent ch' = Some a"
        "set (preorder n h b') = {x. below h b' x}" by blast
      from z xy ch(4) ch'(4) have "below h b z" "below h b' z" by auto
      then have "b = b'" by (rule below_sibling [OF assms(1) _ _ ch(1,3) ch'(1,3)])
      with xy ch(1,2) ch'(1,2) show "x = y" by simp
    qed
  qed
  moreover have "a \<notin> set (concat (map (\<lambda>(_, b). preorder n h b) (node_children nd)))"
  proof
    assume "a \<in> set (concat (map (\<lambda>(_, b). preorder n h b) (node_children nd)))"
    then obtain c b where "(c, b) \<in> set (node_children nd)" "a \<in> set (preorder n h b)" by auto
    with child [of c b] below_le [of h b a] assms(1) show False by auto
  qed
  ultimately show ?case using Suc.prems(1) by simp
qed simp

lemma preorder_same_shape_at: "same_shape h h' \<Longrightarrow> preorder n h' a = preorder n h a"
proof (induction n arbitrary: a)
  case (Suc n)
  have m: "map_option links (node_at h' a) = map_option links (node_at h a)" using Suc.prems by (simp add: same_shape_def)
  show ?case
  proof (cases "node_at h a")
    case None
    with m show ?thesis by simp
  next
    case (Some nd)
    with m obtain nd' where "node_at h' a = Some nd'" "node_children nd' = node_children nd" by (auto simp: links_def)
    moreover have "preorder n h' = preorder n h" by (rule ext) (rule Suc.IH [OF Suc.prems])
    ultimately show ?thesis using Some by simp
  qed
qed simp

lemma preorder_same_shape: "same_shape h h' \<Longrightarrow> preorder n h' = preorder n h"
  by (rule ext) (rule preorder_same_shape_at)

definition marked :: "trie_heap \<Rightarrow> nat \<Rightarrow> bool" where
  "marked h a \<longleftrightarrow> (case node_at h a of None \<Rightarrow> False | Some nd \<Rightarrow> node_exists nd)"

lemma marked_live: "marked h a \<longleftrightarrow> a \<in> live h"
  by (auto simp: marked_def live_def split: option.splits)

definition shift_at :: "cxx_lib \<Rightarrow> nat \<Rightarrow> trie_heap \<Rightarrow> trie_heap" where
  "shift_at lib a h =
     (case node_at h a of None \<Rightarrow> h | Some nd \<Rightarrow> if node_exists nd then h[a := Some (shift_probs lib nd)] else h)"

lemma shift_probs_simps [simp]:
  "links (shift_probs lib nd) = links nd" "node_exists (shift_probs lib nd) = node_exists nd"
  "has_dictionary (shift_probs lib nd) = has_dictionary nd" "node_children (shift_probs lib nd) = node_children nd"
  "dictionary_state (shift_probs lib nd) = dictionary_state nd"
  by (simp_all add: shift_probs_def links_def)

lemma shift_at_shape [simp]: "same_shape h (shift_at lib a h)" and shift_at_marked [simp]: "marked (shift_at lib a h) x = marked h x"
  and shift_at_node: "node_at (shift_at lib a h) x =
    (if x = a then map_option (\<lambda>nd. if node_exists nd then shift_probs lib nd else nd) (node_at h x) else node_at h x)"
proof -
  show at: "node_at (shift_at lib a h) x =
    (if x = a then map_option (\<lambda>nd. if node_exists nd then shift_probs lib nd else nd) (node_at h x) else node_at h x)" for x
    using node_at_bound by (auto simp: shift_at_def heap_simps split: option.split)
  then show "marked (shift_at lib a h) x = marked h x" by (auto simp: marked_def split: option.split)
  show "same_shape h (shift_at lib a h)" by (auto simp: shift_at_def split: option.split intro: same_shape_update)
qed

lemma fold_shift_shape [simp]: "same_shape h (fold (shift_at lib) xs h)"
proof (induction xs arbitrary: h)
  case (Cons a xs)
  from same_shape_trans [OF shift_at_shape Cons.IH] show ?case by simp
qed simp

lemma fold_shift_marked [simp]: "marked (fold (shift_at lib) xs h) x = marked h x"
  by (induction xs arbitrary: h) auto

lemma fold_shift_node:
  assumes "distinct xs"
  shows "node_at (fold (shift_at lib) xs h) x =
    (if x \<in> set xs then map_option (\<lambda>nd. if node_exists nd then shift_probs lib nd else nd) (node_at h x) else node_at h x)"
  using assms by (induction xs arbitrary: h) (auto simp: shift_at_node)

lemma iterate_node_preorder:
  "trie_ok h \<Longrightarrow> node_at h a \<noteq> None \<Longrightarrow> length h \<le> n + a \<Longrightarrow>
     iterate_node lib n h a out = Some (Inr (fold (shift_at lib) (preorder n h a) h, out @ filter (marked h) (preorder n h a)))"
  and iterate_children_preorder:
  "trie_ok h \<Longrightarrow> (\<forall>c b. (c, b) \<in> set cs \<longrightarrow> node_at h b \<noteq> None \<and> length h \<le> n + b) \<Longrightarrow>
     iterate_children lib n h cs out =
       Some (Inr (fold (shift_at lib) (concat (map (\<lambda>(_, b). preorder n h b) cs)) h,
         out @ filter (marked h) (concat (map (\<lambda>(_, b). preorder n h b) cs))))"
proof (induction lib n h a out and lib n h cs out rule: iterate_node_iterate_children.induct)
  case (1 lib h a out)
  then show ?case using node_at_bound by fastforce
next
  case (2 lib n h a out)
  then obtain nd where nd: "node_at h a = Some nd" by blast
  have len: "same_shape h h' \<Longrightarrow> length h' = length h" for h' by (simp add: same_shape_def)
  have pre: "\<forall>c b. (c, b) \<in> set (node_children nd) \<longrightarrow> node_at h' b \<noteq> None \<and> length h' \<le> n + b" if h': "same_shape h h'" for h'
  proof (intro allI impI)
    fix c b assume "(c, b) \<in> set (node_children nd)"
    from trie_okD(2) [OF 2(3) nd this] obtain ch where ch: "node_at h b = Some ch" "a < b" by blast
    from same_shape_node [OF h' ch(1)] have "node_at h' b \<noteq> None" by (metis option.distinct(1))
    with ch(2) 2(5) len [OF h'] show "node_at h' b \<noteq> None \<and> length h' \<le> n + b" by simp
  qed
  show ?case
  proof (cases "node_exists nd")
    case True
    let ?h = "h[a := Some (shift_probs lib nd)]"
    have sh: "shift_at lib a h = ?h" using nd True by (simp add: shift_at_def)
    have shape: "same_shape h ?h" using sh shift_at_shape by metis
    have mk: "marked ?h = marked h" by (rule ext) (metis sh shift_at_marked)
    have "iterate_children lib n ?h (node_children nd) (out @ [a]) =
        Some (Inr (fold (shift_at lib) (concat (map (\<lambda>(_, b). preorder n h b) (node_children nd))) ?h,
         (out @ [a]) @ filter (marked h) (concat (map (\<lambda>(_, b). preorder n h b) (node_children nd)))))"
      using 2(1) [OF True trie_ok_same_shape [OF 2(3) shape] pre [OF shape]] nd
      by (simp add: preorder_same_shape [OF shape] mk heap_simps)
    moreover have "marked h a" using nd True by (simp add: marked_def)
    ultimately show ?thesis using nd True sh by (simp add: heap_simps)
  next
    case False
    have "shift_at lib a h = h" using nd False by (simp add: shift_at_def)
    moreover have "\<not> marked h a" using nd False by (simp add: marked_def)
    ultimately show ?thesis using nd False 2(2) [OF False 2(3) pre [OF same_shape_refl]] by (simp add: heap_simps)
  qed
next
  case (3 lib n h out)
  then show ?case by simp
next
  case (4 lib n h c b cs out)
  let ?h = "fold (shift_at lib) (preorder n h b) h" and ?out = "out @ filter (marked h) (preorder n h b)"
  have shape: "same_shape h ?h" by simp
  have node: "iterate_node lib n h b out = Some (Inr (?h, ?out))" using 4(1) 4(3,4) by auto
  have "node_at ?h b' \<noteq> None \<and> length ?h \<le> n + b'" if "(c', b') \<in> set cs" for c' b'
  proof -
    from 4(4) that obtain nd' where "node_at h b' = Some nd'" "length h \<le> n + b'" by fastforce
    with same_shape_node [OF shape] show ?thesis using shape unfolding same_shape_def by (metis option.distinct(1))
  qed
  then have "iterate_children lib n ?h cs ?out =
      Some (Inr (fold (shift_at lib) (concat (map (\<lambda>(_, b). preorder n h b) cs)) ?h,
        ?out @ filter (marked h) (concat (map (\<lambda>(_, b). preorder n h b) cs))))"
    using 4(2) [of ?h ?out] trie_ok_same_shape [OF 4(3) shape]
    by (simp add: preorder_same_shape [OF shape])
  with node show ?case by simp
qed

lemma iterate_to_vec_spec:
  assumes "heap_ok dict h"
  shows "\<exists>h' out. iterate_to_vec lib h 0 = Some (Inr (h', out)) \<and> distinct out \<and> set out = live h \<and> heap_ok dict h' \<and>
    same_shape h h' \<and>
    (\<forall>x. node_at h' x = map_option (\<lambda>nd. if node_exists nd then shift_probs lib nd else nd) (node_at h x))"
proof -
  have ok: "trie_ok h" using assms by (simp add: heap_ok_def)
  obtain r where r: "node_at h 0 = Some r" using trie_ok_root [OF ok] by blast
  let ?xs = "preorder (length h) h 0"
  let ?h = "fold (shift_at lib) ?xs h"
  have d: "distinct ?xs" and s: "set ?xs = {x. below h 0 x}"
    using preorder_distinct [OF ok r] preorder_set [OF ok r] by simp_all
  have all: "x \<in> set ?xs" if "node_at h x = Some nd" for x nd using all_below_root [OF ok that] s by blast
  have at: "node_at ?h x = map_option (\<lambda>nd. if node_exists nd then shift_probs lib nd else nd) (node_at h x)" for x
    using fold_shift_node [OF d] all by (cases "node_at h x") auto
  have "heap_ok dict ?h"
    using assms trie_ok_same_shape [OF ok fold_shift_shape]
    by (auto simp: heap_ok_def tight_def dictionary_flags_def at split: if_splits)
  moreover have "set (filter (marked h) ?xs) = live h"
    using all by (auto simp: marked_live live_def)
  moreover have "iterate_to_vec lib h 0 = Some (Inr (?h, filter (marked h) ?xs))"
    using iterate_node_preorder [OF ok] r by (simp add: iterate_to_vec_def)
  ultimately show ?thesis using d at fold_shift_shape by (metis distinct_filter)
qed

section \<open>Paths\<close>

text \<open>The labels from the root to a node, and the way back down.\<close>

inductive path_to :: "trie_heap \<Rightarrow> nat \<Rightarrow> int list \<Rightarrow> bool" for h where
  path_root: "node_at h 0 = Some nd \<Longrightarrow> path_to h 0 []"
| path_child: "path_to h p ts \<Longrightarrow> node_at h a = Some nd \<Longrightarrow> node_parent nd = Some p \<Longrightarrow> path_to h a (ts @ [node_char nd])"

fun follow :: "trie_heap \<Rightarrow> nat \<Rightarrow> int list \<Rightarrow> nat option" where
  "follow h a [] = Some a"
| "follow h a (c # cs) =
     (case node_at h a of
        None \<Rightarrow> None
      | Some nd \<Rightarrow> (case map_of (node_children nd) c of None \<Rightarrow> None | Some b \<Rightarrow> follow h b cs))"

lemma follow_append: "follow h a (xs @ ys) = (case follow h a xs of None \<Rightarrow> None | Some b \<Rightarrow> follow h b ys)"
  by (induction xs arbitrary: a) (auto split: option.split)

lemma follow_path:
  assumes "path_to h a ts" "trie_ok h"
  shows "follow h 0 ts = Some a"
  using assms(1)
proof induction
  case (path_child p ts a nd)
  obtain pnd where "node_at h p = Some pnd" "(node_char nd, a) \<in> set (node_children pnd)"
    using parent_node [OF assms(2) path_child.hyps(2,3)] by blast
  moreover from this have "map_of (node_children pnd) (node_char nd) = Some a"
    using trie_okD(1) [OF assms(2)] by (simp add: map_of_is_SomeI)
  ultimately show ?case using path_child.IH by (simp add: follow_append)
qed simp

lemma path_vec_loop_spec:
  assumes "trie_ok h" "node_at h a = Some nd" "a < n" "length out + a < m"
  shows "\<exists>ts times. path_vec_loop n h a ROOT m out steps = Some (Inr (0, ts @ rev out, times @ rev steps)) \<and>
    path_to h a ts \<and> length times = length ts"
  using assms(2-4)
proof (induction n arbitrary: a nd out steps)
  case (Suc n)
  show ?case
  proof (cases "a = 0")
    case True
    with trie_ok_root [OF assms(1)] Suc.prems(1) have "node_char nd = ROOT" by simp
    then have "path_vec_loop (Suc n) h a ROOT m out steps = Some (Inr (0, [] @ rev out, [] @ rev steps))"
      using Suc.prems(1) True by (simp add: heap_simps)
    moreover have "path_to h a []" using Suc.prems(1) True by (auto intro: path_root)
    ultimately show ?thesis by (metis list.size(3))
  next
    case False
    from trie_okD(3,4) [OF assms(1) Suc.prems(1) False] obtain p pnd where
      p: "0 \<le> node_char nd" "node_parent nd = Some p" "p < a" "node_at h p = Some pnd" by blast
    from Suc.IH [OF p(4), of "out @ [node_char nd]" "steps @ [node_time nd]"] p(3) Suc.prems(2,3) obtain ts times where
      r: "path_vec_loop n h p ROOT m (out @ [node_char nd]) (steps @ [node_time nd]) =
        Some (Inr (0, (ts @ [node_char nd]) @ rev out, (times @ [node_time nd]) @ rev steps))"
      "path_to h p ts" "length times = length ts" by auto
    have "path_vec_loop (Suc n) h a ROOT m out steps =
        Some (Inr (0, (ts @ [node_char nd]) @ rev out, (times @ [node_time nd]) @ rev steps))"
      using Suc.prems(1,3) p(1,2) r(1) by (simp add: heap_simps ROOT_def)
    moreover have "path_to h a (ts @ [node_char nd])" using r(2) Suc.prems(1) p(2) by (rule path_child)
    ultimately show ?thesis using r(3) by (metis length_append_singleton)
  qed
qed simp

lemma get_path_vec_spec:
  assumes "trie_ok h" "node_at h a = Some nd" "length h \<le> 18446744073709551615"
  shows "\<exists>ts times. get_path_vec h a = Some (Inr (0, ts, times)) \<and> path_to h a ts \<and> length times = length ts"
  using path_vec_loop_spec [OF assms(1,2) node_at_bound [OF assms(2)], of "[]" 18446744073709551615 "[]"]
    node_at_bound [OF assms(2)] assms(3)
  by (simp add: get_path_vec_def get_path_vec_stop_def)

section \<open>The dictionary along a path\<close>

text \<open>
  With the resetting lookups of the decoder, the labels of a node, shifted as in the dictionary,
  are words one after the other and the beginning of a word, and the node's state is the one
  the dictionary has after that beginning.
\<close>

definition spelled :: "int list list \<Rightarrow> int list \<Rightarrow> wps_state \<Rightarrow> bool" where
  "spelled ws s st \<longleftrightarrow> \<not> wps_weight st \<and>
     (\<exists>vs p. s = concat vs @ p \<and> set vs \<subseteq> set ws \<and> at_prefix ws p st \<and> (p = [] \<or> (\<exists>w \<in> set ws. prefix p w)))"

definition dictionary_ok :: "int list list \<Rightarrow> trie_heap \<Rightarrow> bool" where
  "dictionary_ok ws h \<longleftrightarrow>
     (\<forall>a nd ts. node_at h a = Some nd \<longrightarrow> path_to h a ts \<longrightarrow> spelled ws (map (\<lambda>c. c + 1) ts) (dictionary_state nd))"

definition inherits :: "trie_heap \<Rightarrow> trie_heap \<Rightarrow> bool" where
  "inherits h h' \<longleftrightarrow> (\<forall>x nd'. node_at h' x = Some nd' \<longrightarrow>
     (\<exists>nd. node_at h x = Some nd \<and> node_char nd' = node_char nd \<and> node_parent nd' = node_parent nd \<and>
        dictionary_state nd' = dictionary_state nd))"

lemma inherits_refl [simp]: "inherits h h"
  and inherits_trans: "inherits h h' \<Longrightarrow> inherits h' h'' \<Longrightarrow> inherits h h''"
  unfolding inherits_def by metis+

lemma inherits_update:
  assumes "node_at h a = Some nd" "node_char nd' = node_char nd" "node_parent nd' = node_parent nd"
    "dictionary_state nd' = dictionary_state nd"
  shows "inherits h (h[a := Some nd'])"
  using assms by (auto simp: inherits_def heap_simps)

lemma inherits_pruned: "pruned h h' \<Longrightarrow> inherits h h'"
  unfolding pruned_def inherits_def by (metis core_eqD(2,3,5))

lemma inherits_path: "inherits h h' \<Longrightarrow> path_to h' a ts \<Longrightarrow> path_to h a ts"
proof (rotate_tac 1, induction rule: path_to.induct)
  case (path_root nd)
  then show ?case by (auto simp: inherits_def intro: path_to.path_root)
next
  case (path_child p ts a nd')
  then obtain nd where "node_at h a = Some nd" "node_char nd' = node_char nd" "node_parent nd' = node_parent nd"
    unfolding inherits_def by metis
  with path_child show ?case using path_to.path_child [of h p ts a nd] by simp
qed

lemma dictionary_ok_inherits: "inherits h h' \<Longrightarrow> dictionary_ok ws h \<Longrightarrow> dictionary_ok ws h'"
proof -
  assume i: "inherits h h'" and ok: "dictionary_ok ws h"
  have "spelled ws (map (\<lambda>c. c + 1) ts) (dictionary_state nd')" if x: "node_at h' a = Some nd'" "path_to h' a ts" for a nd' ts
  proof -
    from i x(1) obtain nd where "node_at h a = Some nd" "dictionary_state nd' = dictionary_state nd"
      unfolding inherits_def by metis
    with ok inherits_path [OF i x(2)] show ?thesis by (auto simp: dictionary_ok_def)
  qed
  then show ?thesis by (auto simp: dictionary_ok_def)
qed

lemma spelled_step:
  assumes "finalized ws d" "spelled ws s st" "append_character d c st = (True, st')"
  shows "spelled ws (s @ [c]) (if wps_weight st' then empty_state d else st')"
proof -
  from assms(2) obtain vs p where p: "s = concat vs @ p" "set vs \<subseteq> set ws" "at_prefix ws p st"
    "p = [] \<or> (\<exists>w \<in> set ws. prefix p w)" and nw: "\<not> wps_weight st" by (auto simp: spelled_def)
  have ex: "\<exists>w \<in> set ws. prefix (p @ [c]) w" using wps.step_out [OF assms(1) p(3)] assms(3) by force
  have st': "at_prefix ws (p @ [c]) st'" using wps.step_in [OF assms(1) p(3) ex] assms(3) by auto
  show ?thesis
  proof (cases "wps_weight st'")
    case True
    then obtain q where q: "q \<noteq> []" "prefix q (p @ [c])" "q \<in> set ws" using wps.final_iff [OF st'] by blast
    moreover have "\<not> prefix q p" using q nw wps.final_iff [OF p(3)] by blast
    ultimately have "p @ [c] \<in> set ws" by (auto simp: prefix_snoc)
    moreover have "\<not> wps_weight (empty_state d)"
      using wps.final_iff [OF wps.at_start [OF assms(1)]] by auto
    ultimately show ?thesis using True p(1,2) wps.at_start [OF assms(1)]
      unfolding spelled_def by (intro conjI exI [of _ "vs @ [p @ [c]]"] exI [of _ "[]"]) auto
  next
    case False
    with st' ex p(1,2) show ?thesis
      unfolding spelled_def by (intro conjI exI [of _ vs] exI [of _ "p @ [c]"]) auto
  qed
qed

lemma path_to_old:
  assumes "trie_ok h" "node_at h a = Some nd" "\<forall>x < length h. \<forall>nd'. node_at h' x = Some nd' \<longrightarrow>
     (\<exists>nd. node_at h x = Some nd \<and> node_char nd' = node_char nd \<and> node_parent nd' = node_parent nd)"
    and "path_to h' a ts"
  shows "path_to h a ts"
  using assms(4,2)
proof (induction arbitrary: nd rule: path_to.induct)
  case (path_root nd')
  then show ?case by (auto intro: path_to.path_root)
next
  case (path_child p ts a nd')
  obtain nd0 where nd0: "node_at h a = Some nd0" "node_char nd' = node_char nd0" "node_parent nd' = node_parent nd0"
    using assms(3) node_at_bound [OF path_child.prems] path_child.hyps(2) by blast
  with path_child.hyps(3) obtain pnd where "node_at h p = Some pnd" using parent_node [OF assms(1) nd0(1)] by metis
  from path_to.path_child [OF path_child.IH [OF this] nd0(1)] nd0 path_child.hyps(3) show ?case by simp
qed

lemma dictionary_ok_get_path_trie:
  assumes ok: "heap_ok (Some d) h" "dictionary_ok ws h" "finalized ws d" and nd: "node_at h a = Some nd"
    and r: "get_path_trie (Some d) h a c t p True = Inr (r, h')"
  shows "dictionary_ok ws h'"
proof -
  have tr: "trie_ok h" and fl: "has_dictionary nd" using ok(1) nd by (auto simp: heap_ok_def dictionary_flags_def)
  have nw: "\<not> wps_weight (dictionary_state nd)"
  proof -
    from nd obtain ts times where "path_to h a ts"
      using path_vec_loop_spec [OF tr nd, of "Suc a" "[]" "Suc a" "[]"] by auto
    with ok(2) nd show ?thesis by (auto simp: dictionary_ok_def spelled_def)
  qed
  note child = find_child [OF trie_okD(1) [OF tr nd], of c]
  show ?thesis
  proof (cases "List.find (\<lambda>(x, _). x = c) (node_children nd)")
    case (Some cb)
    then obtain b where b: "cb = (c, b)" "(c, b) \<in> set (node_children nd)" using child(1) by (cases cb) auto
    from trie_okD(2) [OF tr nd b(2)] obtain ch where ch: "node_at h b = Some ch" by blast
    have "h' = h[b := Some (revive ch t p)]" using r nd ch Some b(1) by (simp add: get_path_trie_def heap_simps)
    moreover have "inherits h (h[b := Some (revive ch t p)])"
      using revive_links [of ch t p] by (intro inherits_update [OF ch]) (simp_all add: links_def)
    ultimately show ?thesis using dictionary_ok_inherits ok(2) by blast
  next
    case None
    obtain found st where ap: "append_character d (c + 1) (dictionary_state nd) = (found, st)" by fastforce
    show ?thesis
    proof (cases found)
      case False
      then have "h' = h[a := Some nd]" using r nd None ap fl nw by (simp add: get_path_trie_def heap_simps)
      moreover have "inherits h (h[a := Some nd])" by (rule inherits_update [OF nd]) simp_all
      ultimately show ?thesis using dictionary_ok_inherits ok(2) by blast
    next
      case True
      let ?new = "path_node_init\<lparr>node_char := c, node_time := t, node_parent := Some a, log_prob_c := p,
        has_dictionary := True, dictionary_state := (if wps_weight st then empty_state d else st)\<rparr>"
      have h': "h' = snd (new_child h a nd ?new)"
        using r nd None ap fl True by (simp add: get_path_trie_def heap_simps)
      note na = node_at_bound [OF nd]
      have at: "node_at h' x = (if x = length h then Some ?new
          else if x = a then Some (nd\<lparr>node_children := node_children nd @ [(node_char ?new, length h)]\<rparr>) else node_at h x)" for x
        using na by (auto simp: h' new_child_def heap_simps)
      have old: "\<forall>x < length h. \<forall>nd'. node_at h' x = Some nd' \<longrightarrow>
          (\<exists>nd. node_at h x = Some nd \<and> node_char nd' = node_char nd \<and> node_parent nd' = node_parent nd)"
        using nd by (auto simp: at)
      note path = path_to_old [OF tr _ old]
      show ?thesis
        unfolding dictionary_ok_def
      proof (intro allI impI)
        fix x nd' ts assume x: "node_at h' x = Some nd'" "path_to h' x ts"
        show "spelled ws (map (\<lambda>c. c + 1) ts) (dictionary_state nd')"
        proof (cases "x = length h")
          case new: True
          with x(1) at have nd': "nd' = ?new" by simp
          from x(2) obtain ts0 where ts: "ts = ts0 @ [c]" "path_to h' a ts0"
          proof cases
            case path_root
            with new na show thesis by simp
          next
            case (path_child p ts0 nd1)
            with x(1) nd' that show thesis by (simp add: path_node_init_def)
          qed
          from ok(2) nd path [OF nd ts(2)] have "spelled ws (map (\<lambda>c. c + 1) ts0) (dictionary_state nd)"
            by (auto simp: dictionary_ok_def)
          from spelled_step [OF ok(3) this] ap True nd' ts(1) show ?thesis by simp
        next
          case False
          with x(1) at nd obtain nd0 where nd0: "node_at h x = Some nd0" "dictionary_state nd' = dictionary_state nd0"
            by (auto split: if_splits)
          from ok(2) nd0 path [OF nd0(1) x(2)] show ?thesis by (auto simp: dictionary_ok_def)
        qed
      qed
    qed
  qed
qed

lemma heap_ok_root:
  assumes "node_parent r = None" "node_char r = ROOT" "node_children r = []" "node_exists r" "has_dictionary r = (dict \<noteq> None)"
  shows "heap_ok dict [Some r]"
proof -
  have "node_at [Some r] x = (if x = 0 then Some r else None)" for x by (simp add: node_at_def)
  with assms show ?thesis
    by (auto simp: heap_ok_def trie_ok_def root_ok_def children_ok_def tight_def dictionary_flags_def)
qed

section \<open>The interface of the trie\<close>

text \<open>
  What the beam search relies on when it thins out the trie: removing a live node that is not the
  last one succeeds, takes exactly that node from the live ones and keeps the rest.
\<close>

locale prunable =
  fixes ok :: "'h \<Rightarrow> bool" and alive :: "'h \<Rightarrow> nat set" and remove :: "'h \<Rightarrow> nat \<Rightarrow> 'h result option"
    and keeps :: "'h \<Rightarrow> 'h \<Rightarrow> bool"
  assumes remove_alive: "ok h \<Longrightarrow> a \<in> alive h \<Longrightarrow> alive h - {a} \<noteq> {} \<Longrightarrow>
      \<exists>h'. remove h a = Some (Inr h') \<and> ok h' \<and> alive h' = alive h - {a} \<and> keeps h h'"
    and keeps_refl: "keeps h h"
    and keeps_trans: "keeps h h' \<Longrightarrow> keeps h' h'' \<Longrightarrow> keeps h h''"

primrec remove_each :: "('h \<Rightarrow> nat \<Rightarrow> 'h result option) \<Rightarrow> 'h \<Rightarrow> nat list \<Rightarrow> 'h result option" where
  "remove_each remove h [] = Some (Inr h)"
| "remove_each remove h (a # as) = obind (remove h a) (\<lambda>h'. remove_each remove h' as)"

context prunable
begin

lemma remove_each_alive:
  assumes "ok h" "distinct as" "set as \<subseteq> alive h" "alive h - set as \<noteq> {}"
  shows "\<exists>h'. remove_each remove h as = Some (Inr h') \<and> ok h' \<and> alive h' = alive h - set as \<and> keeps h h'"
  using assms
proof (induction as arbitrary: h)
  case (Cons a as)
  have "alive h - {a} \<noteq> {}" using Cons.prems(4) by auto
  with remove_alive [OF Cons.prems(1), of a] Cons.prems(3) obtain h1 where
    h1: "remove h a = Some (Inr h1)" "ok h1" "alive h1 = alive h - {a}" "keeps h h1" by auto
  have "set as \<subseteq> alive h1" "alive h1 - set as = alive h - set (a # as)"
    using Cons.prems(2,3) h1(3) by auto
  with Cons.IH [OF h1(2)] Cons.prems(2,4) obtain h' where
    "remove_each remove h1 as = Some (Inr h')" "ok h'" "alive h' = alive h - set (a # as)" "keeps h1 h'" by auto
  with h1 keeps_trans show ?case by auto
qed (simp add: keeps_refl)

end

interpretation trie: prunable "heap_ok dict" live remove_node pruned for dict
proof
  fix h a
  assume "heap_ok dict h" "a \<in> live h" "live h - {a} \<noteq> {}"
  moreover from this obtain nd where "node_at h a = Some nd" by (auto simp: live_def)
  ultimately show "\<exists>h'. remove_node h a = Some (Inr h') \<and> heap_ok dict h' \<and> live h' = live h - {a} \<and> pruned h h'"
    using remove_node_spec by blast
qed (auto intro: pruned_trans)

section \<open>Properties\<close>

definition sample_child :: path_node where
  "sample_child = path_node_init\<lparr>node_char := 7, node_time := 3, node_parent := Some 0\<rparr>"

definition sample_trie :: trie_heap where
  "sample_trie = snd (new_child [Some path_node_init] 0 path_node_init sample_child)"

lemma sample_trie_node: "node_at sample_trie x = (if x = 0 then Some (path_node_init\<lparr>node_children := [(7, 1)]\<rparr>)
    else if x = 1 then Some sample_child else None)"
  by (auto simp: sample_trie_def new_child_def sample_child_def path_node_init_def node_at_def nth_Cons')

lemma sample_trie_ok: "heap_ok None sample_trie"
  unfolding sample_trie_def
  using heap_ok_new_child [of None "[Some path_node_init]" 0 path_node_init sample_child]
    heap_ok_root [of path_node_init None]
  by (simp add: sample_child_def path_node_init_def node_at_def)

lemma sample_trie_live: "live sample_trie = {0, 1}"
  by (auto simp: live_def sample_trie_node sample_child_def path_node_init_def split: if_splits)

text \<open>
  Asking a node for the child of a label never touches freed memory, keeps the trie
  well-formed and keeps every node that was there with its label, parent and score. The node it
  returns, if any, hangs below the asked node under that label and is live.
\<close>

theorem get_path_trie_keeps_trie:
  assumes "heap_ok dict h" "node_at h a = Some nd" "0 \<le> c"
  shows "\<exists>r h'. get_path_trie dict h a c t p reset = Inr (r, h') \<and> heap_ok dict h' \<and> grown h h' \<and>
    (\<forall>b. r = Some b \<longrightarrow> (\<exists>ch. node_at h' b = Some ch \<and> node_parent ch = Some a \<and> node_char ch = c \<and> node_exists ch))"
  using assms by (rule get_path_trie_spec)

theorem get_path_trie_keeps_trie_witness:
  "\<exists>r h'. get_path_trie None sample_trie 1 9 4 FLT_LOWEST True = Inr (r, h') \<and> heap_ok None h' \<and> grown sample_trie h' \<and>
    (\<forall>b. r = Some b \<longrightarrow> (\<exists>ch. node_at h' b = Some ch \<and> node_parent ch = Some 1 \<and> node_char ch = 9 \<and> node_exists ch))"
  by (rule get_path_trie_keeps_trie [OF sample_trie_ok, of 1 sample_child]) (simp_all add: sample_trie_node)

text \<open>
  C21: Removing a live node that is not the only one succeeds, without touching freed memory: the
  node is no longer live, every other live node stays live, and what remains of the trie is
  well-formed, without dead leaves, and unchanged but for marks and lists of children.
\<close>

theorem remove_node_removes:
  assumes "heap_ok dict h" "a \<in> live h" "b \<in> live h" "a \<noteq> b"
  shows "\<exists>h'. remove_node h a = Some (Inr h') \<and> heap_ok dict h' \<and> live h' = live h - {a} \<and> pruned h h'"
  using trie.remove_alive [OF assms(1,2)] assms(3,4) by auto

theorem remove_node_removes_witness:
  "\<exists>h'. remove_node sample_trie 1 = Some (Inr h') \<and> live h' = {0}"
proof -
  have "{0, 1} - {1 :: nat} = {0}" by auto
  with remove_node_removes [OF sample_trie_ok, of 1 0] show ?thesis by (auto simp: sample_trie_live)
qed

text \<open>
  The labels \<^verbatim>\<open>get_path_vec\<close> returns for a node lead from the root back to that node, and there
  is one time step for each label. So two different nodes never give the same labels.
\<close>

theorem get_path_vec_roundtrip:
  assumes "heap_ok dict h" "node_at h a = Some nd" "length h \<le> 18446744073709551615"
  shows "\<exists>ts times. get_path_vec h a = Some (Inr (0, ts, times)) \<and> follow h 0 ts = Some a \<and> length times = length ts"
proof -
  have "trie_ok h" using assms(1) by (simp add: heap_ok_def)
  from get_path_vec_spec [OF this assms(2,3)] follow_path [OF _ this] show ?thesis by blast
qed

theorem get_path_vec_roundtrip_witness:
  "\<exists>ts times. get_path_vec sample_trie 1 = Some (Inr (0, ts, times)) \<and> follow sample_trie 0 ts = Some 1 \<and>
    length times = length ts"
proof (rule get_path_vec_roundtrip [OF sample_trie_ok])
  show "node_at sample_trie 1 = Some sample_child" by (simp add: sample_trie_node)
  show "length sample_trie \<le> 18446744073709551615" by (simp add: sample_trie_def new_child_def)
qed

text \<open>
  C31: \<^verbatim>\<open>iterate_to_vec\<close> from the root returns, within a recursion depth of at most the number of
  nodes ever created. It lists every live node exactly once, moves the probabilities of exactly
  the live nodes to the previous step, and leaves the rest of the trie alone.
\<close>

theorem iterate_to_vec_lists_live:
  assumes "heap_ok dict h"
  shows "\<exists>h' out. iterate_to_vec lib h 0 = Some (Inr (h', out)) \<and> distinct out \<and> set out = live h \<and> heap_ok dict h' \<and>
    (\<forall>x. node_at h' x = map_option (\<lambda>nd. if node_exists nd then shift_probs lib nd else nd) (node_at h x))"
  using iterate_to_vec_spec [OF assms, of lib] by blast

theorem iterate_to_vec_lists_live_witness:
  "\<exists>h' out. iterate_to_vec (insertion_lib id id) sample_trie 0 = Some (Inr (h', out)) \<and> distinct out \<and> set out = {0, 1}"
  using iterate_to_vec_lists_live [OF sample_trie_ok, of "insertion_lib id id"] by (auto simp: sample_trie_live)

end
