(* ===== verification/SortedSearch.thy ===== *)
theory SortedSearch
  imports CxxDouble
begin

text \<open>
  The search templates of \<^verbatim>\<open>yoklm/sorted_search.hpp\<close> at their only instantiation,
  \<^verbatim>\<open>IndexT = ValueT = uint64_t\<close>. The array is an accessor \<open>u64 \<Rightarrow> u64 result\<close>, because the
  arrays the library passes are memory sections whose \<^verbatim>\<open>operator[]\<close> throws. The loops are
  partial functions: without the guard of \<open>binary_search\<close> on \<open>l + r\<close> the loop can run
  forever, so that they return is part of what is proved. The locale \<open>array_reader\<close> is the
  contract of such an array; the correctness of both searches is proved once inside it.
\<close>

section \<open>The searches\<close>

subsection \<open>binary_search\<close>

partial_function (option) binary_search_loop ::
  "(u64 \<Rightarrow> u64 result) \<Rightarrow> u64 \<Rightarrow> u64 \<Rightarrow> u64 \<Rightarrow> u64 result option" where
  [code]: "binary_search_loop arr value l r =
     (if l + 1 < r then
        (let m = (l + r) div 2
         in case arr m of
              Inl e \<Rightarrow> Some (Inl e)
            | Inr a \<Rightarrow>
                if a \<le> value then binary_search_loop arr value m r
                else binary_search_loop arr value l m)
      else Some (Inr l))"

definition binary_search ::
  "(u64 \<Rightarrow> u64 result) \<Rightarrow> u64 \<Rightarrow> u64 \<Rightarrow> u64 \<Rightarrow> u64 result option" where
  "binary_search arr l r value =
     (if l \<ge> - 1 - r then Some (Inl Runtime_error)
      else binary_search_loop arr value l r)"

subsection \<open>secant_search\<close>

text \<open>
  The probe position \<^verbatim>\<open>m_\<close>: linear interpolation in double arithmetic, clamped to
  \<open>[l, r - 1]\<close> and truncated. A zero denominator makes the quotient infinite, and the
  clamp picks an end of the window, unless the numerator is zero too: then \<^verbatim>\<open>m_\<close> is NaN,
  both clamps fail and the conversion to \<^verbatim>\<open>uint64_t\<close> is undefined, as is the conversion of
  a value of \<open>2 ^ 64\<close> or more.
\<close>

definition clamp_probe :: "u64 \<Rightarrow> u64 \<Rightarrow> rat \<Rightarrow> rat" where
  "clamp_probe l r x =
     (let y = (if x < u2d l then u2d l else x)
      in if y > u2d (r - 1) then u2d (r - 1) else y)"

definition probe_index :: "rat \<Rightarrow> u64 option" where
  "probe_index x = (if x < 2 ^ 64 then Some (word_of_int \<lfloor>x\<rfloor>) else None)"

definition secant_probe :: "u64 \<Rightarrow> u64 \<Rightarrow> rat \<Rightarrow> rat \<Rightarrow> u64 option" where
  "secant_probe l r plv rv =
     (let d = dbl (rv - plv)
      in if d = 0 then
           (if plv < 0 then probe_index (u2d (r - 1))
            else if plv > 0 then probe_index (clamp_probe l r (u2d l))
            else None)
         else
           probe_index (clamp_probe l r
             (dbl (dbl (u2d l + dbl (u2d (r - l + 1) * dbl (- plv / d))) - 1 / 2))))"

datatype probe_result = Found u64 | Window u64 u64

partial_function (option) secant_loop ::
  "(u64 \<Rightarrow> u64 result) \<Rightarrow> u64 \<Rightarrow> u64 \<Rightarrow> u64 \<Rightarrow> rat \<Rightarrow> rat \<Rightarrow> probe_result result option" where
  [code]: "secant_loop arr value l r plv rv =
     (if l + 1 < r then
        (case secant_probe l r plv rv of
           None \<Rightarrow> Some (Inl Undefined)
         | Some m \<Rightarrow>
             (case arr m of
                Inl e \<Rightarrow> Some (Inl e)
              | Inr a \<Rightarrow>
                  (let mv = dbl (u2d a - u2d value)
                   in if mv < 0 then secant_loop arr value (m + 1) r mv rv
                      else if mv > 0 then secant_loop arr value l m plv mv
                      else Some (Inr (Found m)))))
      else Some (Inr (Window l r)))"

definition secant_search ::
  "(u64 \<Rightarrow> u64 result) \<Rightarrow> u64 \<Rightarrow> u64 \<Rightarrow> u64 \<Rightarrow> u64 \<Rightarrow> u64 \<Rightarrow> u64 \<Rightarrow> u64 result option" where
  "secant_search arr l r plv rv not_found value =
     (case secant_loop arr value l r (dbl (u2d plv - u2d value)) (dbl (u2d rv - u2d value)) of
        None \<Rightarrow> None
      | Some (Inl e) \<Rightarrow> Some (Inl e)
      | Some (Inr (Found m)) \<Rightarrow> Some (Inr m)
      | Some (Inr (Window l' r')) \<Rightarrow>
          (if l' < r' then
             Some (rbind (arr l') (\<lambda>a. Inr (if a = value then l' else not_found)))
           else Some (Inr not_found)))"

section \<open>Words and probes\<close>

lemma word_Suc_less_iff:
  fixes l r :: u64
  assumes "unat l < 2 ^ 64 - 1"
  shows "l + 1 < r \<longleftrightarrow> Suc (unat l) < unat r"
  using assms by (simp add: word_less_nat_alt unat_Suc_no_wrap)

lemma unat_half_sum:
  fixes l r :: u64
  assumes "unat l + unat r < 2 ^ 64"
  shows "unat ((l + r) div 2) = (unat l + unat r) div 2"
  using assms by (simp add: unat_div_distrib unat_add_no_wrap)

lemma unat_pred:
  fixes r :: u64
  assumes "0 < unat r"
  shows "unat (r - 1) = unat r - 1"
proof -
  have "(1 :: u64) \<le> r" using assms by (simp add: word_le_nat_alt)
  then show ?thesis by (simp add: unat_sub)
qed

lemma secant_probe_in_window:
  assumes "Suc (unat l) < unat r" "unat r < 2 ^ 52" "plv \<le> 0" "0 \<le> rv" "plv < rv"
  shows "\<exists>m. secant_probe l r plv rv = Some m \<and> unat l \<le> unat m \<and> unat m < unat r"
proof -
  have r1: "unat (r - 1) = unat r - 1" using assms by (intro unat_pred) simp
  have ul: "u2d l = of_nat (unat l)" and ur: "u2d (r - 1) = of_nat (unat r - 1)"
    using assms r1 u2d_exact [of l] u2d_exact [of "r - 1"] by auto
  define x where "x = dbl (dbl (u2d l + dbl (u2d (r - l + 1) * dbl (- plv / dbl (rv - plv)))) - 1 / 2)"
  define y where "y = clamp_probe l r x"
  have le: "(of_nat (unat l) :: rat) \<le> of_nat (unat r - 1)"
    using assms(1) by (intro of_nat_mono) simp
  have y: "of_nat (unat l) \<le> y" "y \<le> of_nat (unat r - 1)"
    using le by (auto simp: y_def clamp_probe_def ul ur Let_def simp del: of_nat_unat)
  have lo: "int (unat l) \<le> \<lfloor>y\<rfloor>"
    using y(1) by (simp add: le_floor_iff del: of_nat_unat)
  have "(of_int \<lfloor>y\<rfloor> :: rat) \<le> of_int (int (unat r - 1))"
    using y(2) of_int_floor_le [of y] by (metis of_int_of_nat_eq order_trans)
  then have hi: "\<lfloor>y\<rfloor> \<le> int (unat r - 1)" by (simp only: of_int_le_iff)
  have "(of_nat (unat r - 1) :: rat) < of_nat (2 ^ 64)"
    using assms(2) by (simp only: of_nat_less_iff) simp
  with y(2) have "y < 2 ^ 64" by simp
  then have p: "secant_probe l r plv rv = Some (word_of_int \<lfloor>y\<rfloor>)"
    using assms by (simp add: secant_probe_def probe_index_def y_def x_def)
  obtain n where n: "\<lfloor>y\<rfloor> = int n"
    using lo by (metis nonneg_int_cases of_nat_0_le_iff order_trans)
  then have "unat (word_of_int \<lfloor>y\<rfloor> :: u64) = n"
    using hi assms(1,2) unat_of_nat_u64 [of n] by (simp del: of_nat_unat)
  with p lo hi n assms(1) show ?thesis by (auto simp del: of_nat_unat)
qed

section \<open>The contract of an array and the searches over it\<close>

text \<open>
  \<open>count s\<close> elements, read without failure; a read beyond them throws and never is
  undefined.
\<close>

locale array_reader =
  fixes get :: "'s \<Rightarrow> u64 \<Rightarrow> u64 result"
    and count :: "'s \<Rightarrow> nat"
    and elem :: "'s \<Rightarrow> nat \<Rightarrow> u64"
    and ok :: "'s \<Rightarrow> bool"
  assumes get_in: "ok s \<Longrightarrow> unat i < count s \<Longrightarrow> get s i = Inr (elem s (unat i))"
    and get_out: "ok s \<Longrightarrow> count s \<le> unat i \<Longrightarrow> \<exists>e. get s i = Inl e \<and> e \<noteq> Undefined"
begin

definition sorted_range :: "'s \<Rightarrow> nat \<Rightarrow> nat \<Rightarrow> bool" where
  "sorted_range s a b \<longleftrightarrow> (\<forall>i j. a \<le> i \<longrightarrow> i \<le> j \<longrightarrow> j < b \<longrightarrow> elem s i \<le> elem s j)"

lemma binary_search_loop_last:
  assumes "ok s" "unat r \<le> count s" "unat l < unat r" "unat r < 2 ^ 63"
    and "sorted_range s (Suc (unat l)) (unat r)"
  shows "\<exists>m. binary_search_loop (get s) v l r = Some (Inr m) \<and> unat l \<le> unat m \<and> unat m < unat r \<and>
    (\<forall>i. unat l < i \<longrightarrow> i \<le> unat m \<longrightarrow> elem s i \<le> v) \<and>
    (\<forall>i. unat m < i \<longrightarrow> i < unat r \<longrightarrow> v < elem s i)"
  using assms(2-)
proof (induction "unat r - unat l" arbitrary: l r rule: less_induct)
  case less
  have l1: "l + 1 < r \<longleftrightarrow> Suc (unat l) < unat r"
    using less.prems(2) unat_u64_less [of r]
    by (intro word_Suc_less_iff) (simp del: unat_u64_less)
  show ?case
  proof (cases "Suc (unat l) < unat r")
    case False
    with l1 less.prems show ?thesis
      by (subst binary_search_loop.simps) auto
  next
    case True
    let ?m = "(l + r) div 2"
    have m: "unat ?m = (unat l + unat r) div 2" using less.prems by (intro unat_half_sum) simp
    with True have lm: "unat l < unat ?m" and mr: "unat ?m < unat r" by simp_all
    have rd: "get s ?m = Inr (elem s (unat ?m))"
      using assms(1) mr less.prems(1) by (intro get_in) simp_all
    show ?thesis
    proof (cases "elem s (unat ?m) \<le> v")
      case True
      have "\<exists>k. binary_search_loop (get s) v ?m r = Some (Inr k) \<and> unat ?m \<le> unat k \<and> unat k < unat r \<and>
        (\<forall>i. unat ?m < i \<longrightarrow> i \<le> unat k \<longrightarrow> elem s i \<le> v) \<and>
        (\<forall>i. unat k < i \<longrightarrow> i < unat r \<longrightarrow> v < elem s i)"
        by (rule less.hyps) (use lm mr less.prems in \<open>auto simp: sorted_range_def\<close>)
      then obtain k where k: "binary_search_loop (get s) v ?m r = Some (Inr k)" "unat ?m \<le> unat k"
        "unat k < unat r" "\<And>i. unat ?m < i \<Longrightarrow> i \<le> unat k \<Longrightarrow> elem s i \<le> v"
        "\<And>i. unat k < i \<Longrightarrow> i < unat r \<Longrightarrow> v < elem s i" by blast
      have below: "elem s i \<le> v" if "unat l < i" "i \<le> unat ?m" for i
      proof -
        have "elem s i \<le> elem s (unat ?m)"
          using less.prems(4) that mr by (simp add: sorted_range_def)
        with True show ?thesis by simp
      qed
      have "binary_search_loop (get s) v l r = Some (Inr k)"
        using k(1) rd True l1 \<open>Suc (unat l) < unat r\<close> by (subst binary_search_loop.simps) simp
      moreover have "elem s i \<le> v" if "unat l < i" "i \<le> unat k" for i
        using below [of i] k(4) [of i] that by (cases "i \<le> unat ?m") auto
      ultimately show ?thesis using k lm by (intro exI [of _ k]) auto
    next
      case False
      have "\<exists>k. binary_search_loop (get s) v l ?m = Some (Inr k) \<and> unat l \<le> unat k \<and> unat k < unat ?m \<and>
        (\<forall>i. unat l < i \<longrightarrow> i \<le> unat k \<longrightarrow> elem s i \<le> v) \<and>
        (\<forall>i. unat k < i \<longrightarrow> i < unat ?m \<longrightarrow> v < elem s i)"
        by (rule less.hyps) (use lm mr less.prems in \<open>auto simp: sorted_range_def\<close>)
      then obtain k where k: "binary_search_loop (get s) v l ?m = Some (Inr k)" "unat l \<le> unat k"
        "unat k < unat ?m" "\<And>i. unat l < i \<Longrightarrow> i \<le> unat k \<Longrightarrow> elem s i \<le> v"
        "\<And>i. unat k < i \<Longrightarrow> i < unat ?m \<Longrightarrow> v < elem s i" by blast
      have above: "v < elem s i" if "unat ?m \<le> i" "i < unat r" for i
      proof -
        have "elem s (unat ?m) \<le> elem s i"
          using less.prems(4) that lm by (simp add: sorted_range_def)
        with False show ?thesis by simp
      qed
      have "binary_search_loop (get s) v l r = Some (Inr k)"
        using k(1) rd False l1 \<open>Suc (unat l) < unat r\<close> by (subst binary_search_loop.simps) simp
      moreover have "v < elem s i" if "unat k < i" "i < unat r" for i
        using above [of i] k(5) [of i] that by (cases "i < unat ?m") auto
      ultimately show ?thesis using k mr by (intro exI [of _ k]) auto
    qed
  qed
qed

lemma binary_search_last:
  assumes "ok s" "unat r \<le> count s" "unat l < unat r" "unat r < 2 ^ 63"
    and "sorted_range s (Suc (unat l)) (unat r)"
  shows "\<exists>m. binary_search (get s) l r v = Some (Inr m) \<and> unat l \<le> unat m \<and> unat m < unat r \<and>
    (\<forall>i. unat l < i \<longrightarrow> i \<le> unat m \<longrightarrow> elem s i \<le> v) \<and>
    (\<forall>i. unat m < i \<longrightarrow> i < unat r \<longrightarrow> v < elem s i)"
proof -
  have "unat (- 1 - r) = unat (- 1 :: u64) - unat r"
    by (intro unat_sub) simp
  also have "unat (- 1 :: u64) = 2 ^ 64 - 1"
    by (simp add: unsigned_minus_1_eq_mask mask_eq_exp_minus_1)
  finally have "unat (- 1 - r) = 2 ^ 64 - 1 - unat r" .
  with assms(3,4) have "\<not> l \<ge> - 1 - r"
    by (simp add: word_le_nat_alt)
  with binary_search_loop_last [of s r l v] assms show ?thesis
    by (simp add: binary_search_def)
qed

definition window_ok :: "'s \<Rightarrow> u64 \<Rightarrow> nat \<Rightarrow> nat \<Rightarrow> probe_result \<Rightarrow> bool" where
  "window_ok s v a b p \<longleftrightarrow>
     (case p of
        Found m \<Rightarrow> a \<le> unat m \<and> unat m < b \<and> u2d (elem s (unat m)) = u2d v
      | Window l r \<Rightarrow> a \<le> unat l \<and> unat l \<le> unat r \<and> unat r \<le> b \<and> unat r \<le> Suc (unat l) \<and>
          (\<forall>i. a \<le> i \<longrightarrow> i < unat l \<longrightarrow> elem s i < v) \<and>
          (\<forall>i. unat r \<le> i \<longrightarrow> i < b \<longrightarrow> v < elem s i))"

lemma window_ok_extend_left:
  assumes "window_ok s v c b p" "a \<le> c" "\<And>i. a \<le> i \<Longrightarrow> i < c \<Longrightarrow> elem s i < v"
  shows "window_ok s v a b p"
proof -
  have "elem s i < v" if "a \<le> i" "i < k" "\<forall>j. c \<le> j \<longrightarrow> j < k \<longrightarrow> elem s j < v" for i k
    using that assms(3) [of i] by (cases "i < c") auto
  with assms(1,2) show ?thesis
    by (auto simp: window_ok_def split: probe_result.splits)
qed

lemma window_ok_extend_right:
  assumes "window_ok s v a c p" "c \<le> b" "\<And>i. c \<le> i \<Longrightarrow> i < b \<Longrightarrow> v < elem s i"
  shows "window_ok s v a b p"
proof -
  have "v < elem s i" if "k \<le> i" "i < b" "\<forall>j. k \<le> j \<longrightarrow> j < c \<longrightarrow> v < elem s j" for i k
    using that assms(3) [of i] by (cases "i < c") auto
  with assms(1,2) show ?thesis
    by (auto simp: window_ok_def split: probe_result.splits)
qed

lemma secant_loop_window:
  assumes "ok s" "unat r \<le> count s" "unat l \<le> unat r" "unat r < 2 ^ 52"
    and "sorted_range s (unat l) (unat r)" "plv \<le> 0" "0 \<le> rv" "plv < rv"
  shows "\<exists>p. secant_loop (get s) v l r plv rv = Some (Inr p) \<and> window_ok s v (unat l) (unat r) p"
  using assms(2-)
proof (induction "unat r - unat l" arbitrary: l r plv rv rule: less_induct)
  case less
  have l1: "l + 1 < r \<longleftrightarrow> Suc (unat l) < unat r"
    using less.prems(2,3) by (intro word_Suc_less_iff) simp
  show ?case
  proof (cases "Suc (unat l) < unat r")
    case False
    then have "secant_loop (get s) v l r plv rv = Some (Inr (Window l r))"
      using l1 by (subst secant_loop.simps) simp
    with False less.prems show ?thesis by (auto simp: window_ok_def)
  next
    case True
    then obtain m where m: "secant_probe l r plv rv = Some m" "unat l \<le> unat m" "unat m < unat r"
      using secant_probe_in_window less.prems by blast
    have rd: "get s m = Inr (elem s (unat m))"
      using assms(1) m(3) less.prems(1) by (intro get_in) simp_all
    define mv where "mv = dbl (u2d (elem s (unat m)) - u2d v)"
    have step: "secant_loop (get s) v l r plv rv =
      (if mv < 0 then secant_loop (get s) v (m + 1) r mv rv
       else if mv > 0 then secant_loop (get s) v l m plv mv else Some (Inr (Found m)))"
      using True l1 m(1) rd by (subst secant_loop.simps) (simp add: mv_def)
    consider (lt) "mv < 0" | (gt) "mv > 0" | (eq) "mv = 0" by linarith
    then show ?thesis
    proof cases
      case lt
      then have less_v: "elem s (unat m) < v"
        by (auto simp: mv_def word_less_nat_alt intro: u2d_less_imp)
      have m1: "unat (m + 1) = Suc (unat m)"
        using m(3) less.prems(3) by (intro unat_Suc_no_wrap) simp
      have "\<exists>p. secant_loop (get s) v (m + 1) r mv rv = Some (Inr p) \<and>
          window_ok s v (unat (m + 1)) (unat r) p"
        by (rule less.hyps) (use m m1 less.prems lt in \<open>auto simp: sorted_range_def\<close>)
      moreover have "elem s i < v" if "unat l \<le> i" "i < unat (m + 1)" for i
      proof -
        have "elem s i \<le> elem s (unat m)"
          using less.prems(4) that m m1 by (simp add: sorted_range_def)
        with less_v show ?thesis by simp
      qed
      ultimately show ?thesis
        using step lt m m1 by (fastforce intro: window_ok_extend_left)
    next
      case gt
      then have v_less: "v < elem s (unat m)"
        by (auto simp: mv_def word_less_nat_alt intro: u2d_less_imp)
      have "\<exists>p. secant_loop (get s) v l m plv mv = Some (Inr p) \<and>
          window_ok s v (unat l) (unat m) p"
        by (rule less.hyps) (use m less.prems gt in \<open>auto simp: sorted_range_def\<close>)
      moreover have "v < elem s i" if "unat m \<le> i" "i < unat r" for i
      proof -
        have "elem s (unat m) \<le> elem s i"
          using less.prems(4) that m by (simp add: sorted_range_def)
        with v_less show ?thesis by simp
      qed
      ultimately show ?thesis
        using step gt m by (fastforce intro: window_ok_extend_right)
    next
      case eq
      with step m show ?thesis by (auto simp: window_ok_def mv_def)
    qed
  qed
qed

definition member_range :: "'s \<Rightarrow> nat \<Rightarrow> nat \<Rightarrow> u64 \<Rightarrow> bool" where
  "member_range s a b v \<longleftrightarrow> (\<exists>i. a \<le> i \<and> i < b \<and> elem s i = v)"

lemma window_not_member:
  assumes "window_ok s v a b (Window l r)" "unat l < unat r \<Longrightarrow> elem s (unat l) \<noteq> v"
  shows "\<not> member_range s a b v"
proof
  assume "member_range s a b v"
  then obtain i where i: "a \<le> i" "i < b" "elem s i = v" by (auto simp: member_range_def)
  from assms(1) have w: "unat l \<le> unat r" "unat r \<le> Suc (unat l)"
    "\<And>i. a \<le> i \<Longrightarrow> i < unat l \<Longrightarrow> elem s i < v" "\<And>i. unat r \<le> i \<Longrightarrow> i < b \<Longrightarrow> v < elem s i"
    by (auto simp: window_ok_def)
  consider "i < unat l" | "unat r \<le> i" | "i = unat l" "unat l < unat r" using w(1,2) by linarith
  then show False
    using i w(3) [of i] w(4) [of i] assms(2) by cases auto
qed

lemma secant_search_total:
  assumes "ok s" "unat r \<le> count s" "unat l \<le> unat r" "unat r < 2 ^ 52"
    and "sorted_range s (unat l) (unat r)"
    and "unat plv \<le> unat v" "unat v \<le> unat rv" "u2d plv < u2d rv"
  shows "\<exists>k. secant_search (get s) l r plv rv nf v = Some (Inr k) \<and>
    (unat l \<le> unat k \<and> unat k < unat r \<and> u2d (elem s (unat k)) = u2d v
     \<or> k = nf \<and> \<not> member_range s (unat l) (unat r) v)"
proof -
  have "u2d plv \<le> u2d v" and "u2d v \<le> u2d rv"
    using assms by (simp_all add: u2d_mono)
  then have le: "\<not> 0 < dbl (u2d plv - u2d v)" "\<not> dbl (u2d rv - u2d v) < 0"
    and ne: "dbl (u2d plv - u2d v) < 0 \<or> 0 < dbl (u2d rv - u2d v)"
    using assms(8) by auto
  obtain p where p: "secant_loop (get s) v l r (dbl (u2d plv - u2d v)) (dbl (u2d rv - u2d v)) = Some (Inr p)"
    "window_ok s v (unat l) (unat r) p"
    using secant_loop_window [of s r l "dbl (u2d plv - u2d v)" "dbl (u2d rv - u2d v)" v]
      assms(1-5) le ne by (auto simp del: dbl_gt0_iff dbl_lt0_iff)
  show ?thesis
  proof (cases p)
    case (Found m)
    with p show ?thesis by (auto simp: secant_search_def window_ok_def)
  next
    case (Window l' r')
    note w = p(2) [unfolded Window]
    then have wb: "unat l \<le> unat l'" "unat l' \<le> unat r'" "unat r' \<le> unat r" by (auto simp: window_ok_def)
    show ?thesis
    proof (cases "l' < r'")
      case True
      then have lr: "unat l' < unat r'" by (simp add: word_less_nat_alt)
      then have "get s l' = Inr (elem s (unat l'))"
        using assms(1,2) wb by (intro get_in) simp_all
      with p(1) Window True w wb lr show ?thesis
        by (auto simp: secant_search_def dest: window_not_member)
    next
      case False
      then have "\<not> member_range s (unat l) (unat r) v"
        by (intro window_not_member [OF w]) (simp add: word_less_nat_alt)
      with p(1) Window False show ?thesis by (simp add: secant_search_def)
    qed
  qed
qed

text \<open>
  Where all values fit into a significand, the search is exact: it returns a position of the
  value if there is one, and \<open>not_found\<close> otherwise.
\<close>

lemma secant_search_exact:
  assumes "ok s" "unat r \<le> count s" "unat l \<le> unat r" "unat r < 2 ^ 52"
    and "sorted_range s (unat l) (unat r)"
    and "unat plv \<le> unat v" "unat v \<le> unat rv" "u2d plv < u2d rv"
    and "\<And>i. unat l \<le> i \<Longrightarrow> i < unat r \<Longrightarrow> unat (elem s i) < 2 ^ 53" "unat v < 2 ^ 53"
  shows "\<exists>k. secant_search (get s) l r plv rv nf v = Some (Inr k) \<and>
    (if member_range s (unat l) (unat r) v
     then unat l \<le> unat k \<and> unat k < unat r \<and> elem s (unat k) = v else k = nf)"
proof -
  from secant_search_total [OF assms(1-8)] obtain k where
    k: "secant_search (get s) l r plv rv nf v = Some (Inr k)"
    and c: "unat l \<le> unat k \<and> unat k < unat r \<and> u2d (elem s (unat k)) = u2d v
      \<or> k = nf \<and> \<not> member_range s (unat l) (unat r) v" by blast
  from c show ?thesis
  proof (elim disjE conjE)
    assume i: "unat l \<le> unat k" "unat k < unat r" "u2d (elem s (unat k)) = u2d v"
    then have "elem s (unat k) = v" using assms(9,10) by (intro u2d_inj) simp_all
    with i k show ?thesis by (auto simp: member_range_def)
  next
    assume "k = nf" "\<not> member_range s (unat l) (unat r) v"
    with k show ?thesis by simp
  qed
qed

end

end
