(* ===== verification/MemorySections.thy ===== *)
theory MemorySections
  imports SortedSearch
begin

unbundle bit_operations_syntax

text \<open>
  The memory sections of \<^verbatim>\<open>yoklm/memory_section.hpp\<close> and \<^verbatim>\<open>.cpp\<close>: bounded views into the
  bytes of a loaded language model file. A section holds the bytes of the \<^verbatim>\<open>ManagedMemory\<close>
  that owns it, the offsets of \<^verbatim>\<open>ptr_\<close> and \<^verbatim>\<open>base_ptr_\<close> into them and \<^verbatim>\<open>size_\<close>. Reading outside
  the owner's bytes is \<open>Undefined\<close>. The main results are that no checked accessor ever reads
  outside its section and what the bit array accessor returns.
\<close>

section \<open>Sections\<close>

record mem_section =
  ms_owner :: "u8 list"
  ms_ptr :: nat
  ms_base :: int
  ms_size :: u64

definition empty_section :: mem_section where
  "empty_section = \<lparr>ms_owner = [], ms_ptr = 0, ms_base = 0, ms_size = 0\<rparr>"

definition section_of_memory :: "u8 list \<Rightarrow> mem_section" where
  "section_of_memory bs =
     \<lparr>ms_owner = bs, ms_ptr = 0, ms_base = 0, ms_size = of_nat (length bs)\<rparr>"

text \<open>The read of \<open>n\<close> bytes at an address, as a little-endian number.\<close>

definition raw_read :: "('a mem_section_scheme) \<Rightarrow> nat \<Rightarrow> nat \<Rightarrow> nat result" where
  "raw_read m addr n =
     (if addr + n \<le> length (ms_owner m) then Inr (le_value (take n (drop addr (ms_owner m))))
      else Inl Undefined)"

definition byte_at :: "('a mem_section_scheme) \<Rightarrow> u64 \<Rightarrow> nat result" where
  "byte_at m index =
     throw_if (index \<ge> ms_size m) Out_of_range (raw_read m (ms_ptr m + unat index) 1)"

text \<open>\<^verbatim>\<open>at<T>\<close> with \<^verbatim>\<open>sizeof(T)\<close> as its first argument.\<close>

definition at_offset :: "u64 \<Rightarrow> ('a mem_section_scheme) \<Rightarrow> u64 \<Rightarrow> nat result" where
  "at_offset tsize m index =
     throw_if (ms_size m < tsize \<or> index > ms_size m - tsize) Out_of_range
       (raw_read m (ms_ptr m + unat index) (unat tsize))"

definition sub_section :: "mem_section \<Rightarrow> u64 \<Rightarrow> u64 \<Rightarrow> mem_section result" where
  "sub_section m start sz =
     throw_if (sz > ms_size m \<or> start > ms_size m - sz) Out_of_range
       (Inr (m\<lparr>ms_ptr := ms_ptr m + unat start, ms_size := sz\<rparr>))"

definition without_prefix :: "mem_section \<Rightarrow> u64 \<Rightarrow> mem_section result" where
  "without_prefix m skip =
     throw_if (skip > ms_size m) Out_of_range
       (Inr (m\<lparr>ms_ptr := ms_ptr m + unat skip, ms_size := ms_size m - skip\<rparr>))"

definition prefix_section :: "mem_section \<Rightarrow> u64 \<Rightarrow> mem_section result" where
  "prefix_section m sz =
     throw_if (sz > ms_size m) Out_of_range (Inr (m\<lparr>ms_size := sz\<rparr>))"

text \<open>The operations that change the section in place return the changed section.\<close>

definition drop_prefix :: "mem_section \<Rightarrow> u64 \<Rightarrow> mem_section result" where
  "drop_prefix m skip =
     throw_if (skip > ms_size m) Out_of_range
       (Inr (m\<lparr>ms_size := ms_size m - skip, ms_ptr := ms_ptr m + unat skip\<rparr>))"

definition get_and_drop_prefix :: "mem_section \<Rightarrow> u64 \<Rightarrow> (mem_section \<times> mem_section) result" where
  "get_and_drop_prefix m sz =
     throw_if (sz > ms_size m) Out_of_range
       (Inr (m\<lparr>ms_size := sz\<rparr>,
             m\<lparr>ms_size := ms_size m - sz, ms_ptr := ms_ptr m + unat sz\<rparr>))"

text \<open>
  \<^verbatim>\<open>at0_and_drop_prefix<T>\<close>: a reference to the object at the front, given as the section of its
  bytes, and the section behind it. A member of the object is read by its offset and length.
\<close>

definition at0_and_drop_prefix :: "u64 \<Rightarrow> mem_section \<Rightarrow> (mem_section \<times> mem_section) result" where
  "at0_and_drop_prefix tsize m =
     rbind (get_and_drop_prefix m tsize) (\<lambda>(p, q). rbind (at_offset tsize p 0) (\<lambda>_. Inr (p, q)))"

definition struct_field :: "mem_section \<Rightarrow> nat \<Rightarrow> nat \<Rightarrow> nat" where
  "struct_field m off len = le_value (take len (drop (ms_ptr m + off) (ms_owner m)))"

definition reset_section :: "mem_section \<Rightarrow> mem_section" where
  "reset_section m = empty_section"

definition set_base_offset :: "mem_section \<Rightarrow> int \<Rightarrow> mem_section" where
  "set_base_offset m base_offset = m\<lparr>ms_base := int (ms_ptr m) - base_offset\<rparr>"

definition base_offset :: "('a mem_section_scheme) \<Rightarrow> int" where
  "base_offset m = int (ms_ptr m) - ms_base m"

text \<open>\<^verbatim>\<open>MemorySectionArray<T>::operator[]\<close>, again with \<^verbatim>\<open>sizeof(T)\<close>.\<close>

definition array_at :: "u64 \<Rightarrow> ('a mem_section_scheme) \<Rightarrow> u64 \<Rightarrow> nat result" where
  "array_at tsize m index =
     throw_if (index \<ge> ms_size m div tsize) Out_of_range
       (raw_read m (ms_ptr m + unat index * unat tsize) (unat tsize))"

definition array_u64 :: "('a mem_section_scheme) \<Rightarrow> u64 \<Rightarrow> u64 result" where
  "array_u64 m index = rbind (array_at 8 m index) (\<lambda>n. Inr (of_nat n))"

section \<open>Bit arrays\<close>

record bit_field =
  bf_offset :: int
  bf_mask :: u64

record bit_array = mem_section +
  ba_stride :: int
  ba_field :: bit_field
  ba_limit :: u64

definition bit_array_of :: "mem_section \<Rightarrow> bit_array" where
  "bit_array_of m = mem_section.extend m
     \<lparr>ba_stride = 0, ba_field = \<lparr>bf_offset = 0, bf_mask = 0\<rparr>, ba_limit = 0\<rparr>"

definition bit_get :: "bit_array \<Rightarrow> u64 \<Rightarrow> bit_field \<Rightarrow> u64 result" where
  "bit_get b index bf =
     (let bit_index = index * word_of_int (ba_stride b) + word_of_int (bf_offset bf)
      in throw_if (index \<ge> ba_limit b) Logic_error
           (rbind (raw_read b (ms_ptr b + unat (bit_index div 8)) 8)
              (\<lambda>d. Inr (drop_bit (unat (bit_index AND 7)) (of_nat d) AND bf_mask bf))))"

definition bit_at :: "bit_array \<Rightarrow> u64 \<Rightarrow> u64 result" where
  "bit_at b index = bit_get b index (ba_field b)"

definition set_stride :: "bit_array \<Rightarrow> int \<Rightarrow> bit_array result" where
  "set_stride b stride =
     throw_if (stride \<le> 0 \<or> ms_size b div word_of_int stride \<ge> (- 1) div 8 div 2) Range_error
       (Inr (b\<lparr>ba_stride := stride,
               ba_limit := (if ms_size b \<ge> 8 then (ms_size b - 8) * 8 div word_of_int stride else 0)\<rparr>))"

definition set_bit_field :: "bit_array \<Rightarrow> bit_field \<Rightarrow> bit_array" where
  "set_bit_field b bf = b\<lparr>ba_field := bf\<rparr>"

text \<open>
  \<^verbatim>\<open>load_file\<close>. The file system is a parameter: for a file that can be opened, its length and the
  bytes that a read of that many bytes delivers.
\<close>

definition load_file :: "(string \<Rightarrow> (nat \<times> u8 list) option) \<Rightarrow> string \<Rightarrow> mem_section result" where
  "load_file fs filename =
     (case fs filename of
        None \<Rightarrow> Inl Runtime_error
      | Some (file_length, bs) \<Rightarrow>
          throw_if (file_length \<ge> 18446744073709551615) Range_error
         (throw_if (length bs \<noteq> file_length) Runtime_error (Inr (section_of_memory bs))))"

lemma load_file_bytes:
  assumes "load_file fs filename = Inr m"
  shows "\<exists>bs. fs filename = Some (length bs, bs) \<and> m = section_of_memory bs \<and> length bs < 2 ^ 64"
  using assms by (auto simp: load_file_def result_simps split: option.splits)

section \<open>Well-formed sections\<close>

text \<open>The bytes a section spans lie inside its owner.\<close>

definition section_ok :: "('a mem_section_scheme) \<Rightarrow> bool" where
  "section_ok m \<longleftrightarrow> ms_ptr m + unat (ms_size m) \<le> length (ms_owner m)"

definition section_bytes :: "('a mem_section_scheme) \<Rightarrow> u8 list" where
  "section_bytes m = take (unat (ms_size m)) (drop (ms_ptr m) (ms_owner m))"

text \<open>\<open>inside m p\<close>: \<open>m\<close> views a part of the bytes \<open>p\<close> views, relative to the same base.\<close>

definition inside :: "mem_section \<Rightarrow> mem_section \<Rightarrow> bool" where
  "inside m p \<longleftrightarrow> ms_owner m = ms_owner p \<and> ms_base m = ms_base p \<and> ms_ptr p \<le> ms_ptr m \<and>
     ms_ptr m + unat (ms_size m) \<le> ms_ptr p + unat (ms_size p)"

lemma inside_refl [simp]: "inside m m"
  by (simp add: inside_def)

lemma inside_trans [trans]: "inside a b \<Longrightarrow> inside b c \<Longrightarrow> inside a c"
  by (auto simp: inside_def)

lemma inside_ok: "inside m p \<Longrightarrow> section_ok p \<Longrightarrow> section_ok m"
  by (auto simp: inside_def section_ok_def)

lemma length_section_bytes [simp]:
  "section_ok m \<Longrightarrow> length (section_bytes m) = unat (ms_size m)"
  by (simp add: section_ok_def section_bytes_def)

lemma section_of_memory_ok:
  assumes "length bs < 2 ^ 64"
  shows "section_ok (section_of_memory bs) \<and> section_bytes (section_of_memory bs) = bs"
  using unat_of_nat_u64 [OF assms] by (simp add: section_ok_def section_bytes_def section_of_memory_def)

lemma empty_section_ok [simp]: "section_ok empty_section"
  by (simp add: section_ok_def empty_section_def)

lemma sub_section_Inr [section_simps]:
  "sub_section m start sz = Inr p \<longleftrightarrow> unat start + unat sz \<le> unat (ms_size m) \<and>
     p = m\<lparr>ms_ptr := ms_ptr m + unat start, ms_size := sz\<rparr>"
proof -
  have "\<not> (sz > ms_size m \<or> start > ms_size m - sz) \<longleftrightarrow> unat start + unat sz \<le> unat (ms_size m)"
    by (auto simp: not_less word_le_nat_alt unat_sub)
  then show ?thesis by (auto simp: sub_section_def result_simps)
qed

lemma get_and_drop_prefix_Inr [section_simps]:
  "get_and_drop_prefix m sz = Inr (p, q) \<longleftrightarrow> unat sz \<le> unat (ms_size m) \<and>
     p = m\<lparr>ms_size := sz\<rparr> \<and> q = m\<lparr>ms_size := ms_size m - sz, ms_ptr := ms_ptr m + unat sz\<rparr>"
  by (auto simp: get_and_drop_prefix_def result_simps word_le_nat_alt not_less)

lemma prefix_section_Inr [section_simps]:
  "prefix_section m sz = Inr p \<longleftrightarrow> unat sz \<le> unat (ms_size m) \<and> p = m\<lparr>ms_size := sz\<rparr>"
  by (auto simp: prefix_section_def result_simps word_le_nat_alt not_less)

lemma drop_prefix_Inr [section_simps]:
  "drop_prefix m skip = Inr p \<longleftrightarrow> unat skip \<le> unat (ms_size m) \<and>
     p = m\<lparr>ms_size := ms_size m - skip, ms_ptr := ms_ptr m + unat skip\<rparr>"
  by (auto simp: drop_prefix_def result_simps word_le_nat_alt not_less)

lemma without_prefix_eq_drop_prefix: "without_prefix m skip = drop_prefix m skip"
  by (cases m) (simp add: without_prefix_def drop_prefix_def)

lemma unat_size_minus:
  "unat sz \<le> unat (ms_size m) \<Longrightarrow> unat (ms_size m - sz) = unat (ms_size m) - unat sz"
  by (simp add: unat_sub word_le_nat_alt)

text \<open>Every operation that derives a section yields one inside its argument.\<close>

lemma sub_section_inside: "sub_section m start sz = Inr p \<Longrightarrow> inside p m"
  by (auto simp: section_simps inside_def)

lemma prefix_section_inside: "prefix_section m sz = Inr p \<Longrightarrow> inside p m"
  by (auto simp: section_simps inside_def)

lemma drop_prefix_inside: "drop_prefix m skip = Inr p \<Longrightarrow> inside p m"
  by (auto simp: section_simps inside_def unat_size_minus)

lemma get_and_drop_prefix_inside:
  "get_and_drop_prefix m sz = Inr (p, q) \<Longrightarrow> inside p m \<and> inside q m"
  by (auto simp: section_simps inside_def unat_size_minus)

lemmas derived_inside =
  sub_section_inside prefix_section_inside drop_prefix_inside get_and_drop_prefix_inside

section \<open>Reads stay inside the section\<close>

lemma raw_read_section:
  assumes "section_ok m" "off + n \<le> unat (ms_size m)"
  shows "raw_read m (ms_ptr m + off) n = Inr (le_value (take n (drop off (section_bytes m))))"
proof -
  have "take n (drop off (section_bytes m)) = take n (drop (ms_ptr m + off) (ms_owner m))"
    using assms(2) by (simp add: section_bytes_def drop_take add.commute min_absorb1)
  with assms show ?thesis by (simp add: raw_read_def section_ok_def)
qed

lemma byte_at_in:
  assumes "section_ok m" "unat i < unat (ms_size m)"
  shows "byte_at m i = Inr (unat (section_bytes m ! unat i))"
proof -
  have "take 1 (drop (unat i) (section_bytes m)) = [section_bytes m ! unat i]"
    using assms by (simp add: take_Suc hd_drop_conv_nth)
  with raw_read_section [OF assms(1), of "unat i" 1] assms show ?thesis
    by (simp add: byte_at_def word_le_nat_alt)
qed

lemma at_offset_cases:
  assumes "section_ok m"
  shows "at_offset n m i =
    (if unat i + unat n \<le> unat (ms_size m)
     then Inr (le_value (take (unat n) (drop (unat i) (section_bytes m)))) else Inl Out_of_range)"
proof -
  have "\<not> (ms_size m < n \<or> i > ms_size m - n) \<longleftrightarrow> unat i + unat n \<le> unat (ms_size m)"
    by (auto simp: not_less word_le_nat_alt unat_sub)
  then show ?thesis
    using raw_read_section [OF assms, of "unat i" "unat n"] by (auto simp: at_offset_def throw_if_def)
qed

lemma array_at_cases:
  assumes "section_ok m" "0 < unat n"
  shows "array_at n m i =
    (if unat i < unat (ms_size m) div unat n
     then Inr (le_value (take (unat n) (drop (unat i * unat n) (section_bytes m)))) else Inl Out_of_range)"
proof -
  have c: "index \<ge> ms_size m div n \<longleftrightarrow> \<not> unat index < unat (ms_size m) div unat n" for index
    by (simp add: word_le_nat_alt unat_div_distrib not_less)
  have "unat i * unat n + unat n \<le> unat (ms_size m)" if "unat i < unat (ms_size m) div unat n"
  proof -
    have "Suc (unat i) * unat n \<le> unat (ms_size m) div unat n * unat n"
      using that by (intro mult_le_mono1) simp
    also have "\<dots> \<le> unat (ms_size m)" by simp
    finally show ?thesis by simp
  qed
  with raw_read_section [OF assms(1), of "unat i * unat n" "unat n"] show ?thesis
    by (auto simp: array_at_def throw_if_def c)
qed

definition section_u64 :: "('a mem_section_scheme) \<Rightarrow> nat \<Rightarrow> u64" where
  "section_u64 m i = of_nat (le_value (take 8 (drop (i * 8) (section_bytes m))))"

interpretation u64_array: array_reader array_u64 "\<lambda>m. unat (ms_size m) div 8" section_u64 section_ok
proof
  fix m :: "'a mem_section_scheme" and i :: u64
  assume ok: "section_ok m"
  show "array_u64 m i = Inr (section_u64 m (unat i))" if "unat i < unat (ms_size m) div 8"
    using ok that by (simp add: array_u64_def array_at_cases section_u64_def)
  show "\<exists>e. array_u64 m i = Inl e \<and> e \<noteq> Undefined" if "unat (ms_size m) div 8 \<le> unat i"
    using ok that by (simp add: array_u64_def array_at_cases)
qed

section \<open>What a bit array access returns\<close>

text \<open>
  The bound on the size is the memory of the machine: \<^verbatim>\<open>(size() - 8) * 8\<close> is computed in
  64 bits. \<open>field_ok\<close> allows \<open>offset = stride\<close>, the offset the loader gives to an empty
  last field.
\<close>

definition bit_array_ok :: "bit_array \<Rightarrow> bool" where
  "bit_array_ok b \<longleftrightarrow> section_ok b \<and> unat (ms_size b) < 2 ^ 61 \<and> 0 < ba_stride b \<and>
     ba_stride b < 2 ^ 31 \<and> (0 < unat (ba_limit b) \<longrightarrow> 8 \<le> unat (ms_size b)) \<and>
     unat (ba_limit b) * nat (ba_stride b) \<le> (unat (ms_size b) - 8) * 8"

definition field_ok :: "bit_array \<Rightarrow> bit_field \<Rightarrow> bool" where
  "field_ok b bf \<longleftrightarrow> 0 \<le> bf_offset bf \<and> bf_offset bf \<le> ba_stride b"

text \<open>The position of a field in the section, in bits, and the number found there.\<close>

definition bit_position :: "bit_array \<Rightarrow> nat \<Rightarrow> bit_field \<Rightarrow> nat" where
  "bit_position b i bf = i * nat (ba_stride b) + nat (bf_offset bf)"

definition bits_from :: "bit_array \<Rightarrow> nat \<Rightarrow> u64" where
  "bits_from b k = of_nat (le_value (section_bytes b) div 2 ^ k mod 2 ^ (64 - k mod 8))"

lemma word_of_int_nonneg: "0 \<le> x \<Longrightarrow> (word_of_int x :: u64) = of_nat (nat x)"
  by simp

lemma unat_word_of_int:
  assumes "0 \<le> x" "x < 2 ^ 64"
  shows "unat (word_of_int x :: u64) = nat x"
proof -
  have "nat x < 2 ^ 64" using assms by simp
  with assms(1) show ?thesis by (simp only: word_of_int_nonneg unat_of_nat_u64)
qed

lemma and_7: "unat ((x :: u64) AND 7) = unat x mod 8"
proof -
  have "(7 :: u64) = mask 3" by (simp add: mask_eq_exp_minus_1)
  then have "x AND 7 = take_bit 3 x" by (simp only: take_bit_eq_mask)
  then show ?thesis by (simp add: take_bit_eq_mod unat_mod_distrib)
qed

lemma set_stride_ok:
  assumes "section_ok b" "unat (ms_size b) < 2 ^ 61" "stride < 2 ^ 31" "set_stride b stride = Inr b'"
  shows "bit_array_ok b' \<and> ba_stride b' = stride \<and> section_bytes b' = section_bytes b \<and>
    unat (ba_limit b') = (unat (ms_size b) - 8) * 8 div nat stride"
proof -
  let ?w = "word_of_int stride :: u64"
  from assms(4) have st: "0 < stride"
    and b': "b' = b\<lparr>ba_stride := stride,
               ba_limit := (if ms_size b \<ge> 8 then (ms_size b - 8) * 8 div ?w else 0)\<rparr>"
    by (auto simp: set_stride_def result_simps)
  have w: "unat ?w = nat stride" using st assms(3) by (intro unat_word_of_int) simp_all
  have lim: "unat ((ms_size b - 8) * 8 div ?w) = (unat (ms_size b) - 8) * 8 div nat stride"
    if "8 \<le> ms_size b"
  proof -
    have "unat (ms_size b - 8) = unat (ms_size b) - 8" using that by (simp add: unat_sub)
    moreover from this have "unat ((ms_size b - 8) * 8) = unat (ms_size b - 8) * unat (8 :: u64)"
      using assms(2) by (intro unat_mult_no_wrap) simp
    ultimately show ?thesis using w by (simp add: unat_div_distrib)
  qed
  have le: "ms_size b \<ge> 8 \<longleftrightarrow> 8 \<le> unat (ms_size b)" by (simp add: word_le_nat_alt)
  have limit: "unat (ba_limit b') = (unat (ms_size b) - 8) * 8 div nat stride"
    using lim le by (auto simp: b')
  then have "unat (ba_limit b') * nat stride \<le> (unat (ms_size b) - 8) * 8" by simp
  with limit assms(1-3) st show ?thesis
    by (auto simp: b' bit_array_ok_def section_ok_def section_bytes_def split: if_splits)
       (metis bot_nat_0.not_eq_extremum diff_is_0_eq div_0 mult_0 nat_le_linear)+
qed

lemma bit_position_bound:
  assumes "bit_array_ok b" "field_ok b bf" "i < unat (ba_limit b)"
  shows "bit_position b i bf div 8 + 8 \<le> unat (ms_size b)" and "bit_position b i bf < 2 ^ 64"
proof -
  have "bit_position b i bf \<le> Suc i * nat (ba_stride b)"
    using assms(2) by (auto simp: bit_position_def field_ok_def)
  also have "\<dots> \<le> unat (ba_limit b) * nat (ba_stride b)"
    using assms(3) by (intro mult_le_mono1) simp
  also have "\<dots> \<le> (unat (ms_size b) - 8) * 8" using assms(1) by (simp add: bit_array_ok_def)
  finally have k: "bit_position b i bf \<le> (unat (ms_size b) - 8) * 8" .
  have sz: "8 \<le> unat (ms_size b)" "unat (ms_size b) < 2 ^ 61"
    using assms by (auto simp: bit_array_ok_def)
  from k sz show "bit_position b i bf div 8 + 8 \<le> unat (ms_size b)" by linarith
  from k sz show "bit_position b i bf < 2 ^ 64" by simp
qed

lemma bits_window:
  fixes v :: nat
  shows "v div 256 ^ (k div 8) mod 256 ^ 8 div 2 ^ (k mod 8) = v div 2 ^ k mod 2 ^ (64 - k mod 8)"
proof -
  have "(256 :: nat) ^ (k div 8) = 2 ^ (8 * (k div 8))" by (simp add: power_mult)
  then have "v div 256 ^ (k div 8) mod 256 ^ 8 div 2 ^ (k mod 8) =
      drop_bit (k mod 8) (take_bit 64 (drop_bit (8 * (k div 8)) v))"
    by (simp add: drop_bit_eq_div take_bit_eq_mod)
  also have "\<dots> = take_bit (64 - k mod 8) (drop_bit (8 * (k div 8) + k mod 8) v)"
    by (simp only: drop_bit_take_bit drop_bit_drop_bit add.commute)
  finally show ?thesis by (simp add: drop_bit_eq_div take_bit_eq_mod)
qed

lemma bit_get_in:
  assumes "bit_array_ok b" "field_ok b bf" "unat i < unat (ba_limit b)"
  shows "bit_get b i bf = Inr (bits_from b (bit_position b (unat i) bf) AND bf_mask bf)"
proof -
  define k where "k = bit_position b (unat i) bf"
  let ?st = "word_of_int (ba_stride b) :: u64" and ?off = "word_of_int (bf_offset bf) :: u64"
  have kb: "k div 8 + 8 \<le> unat (ms_size b)" "k < 2 ^ 64"
    using bit_position_bound [OF assms] by (simp_all add: k_def)
  have st: "unat ?st = nat (ba_stride b)" and off: "unat ?off = nat (bf_offset bf)"
    using assms(1,2) by (auto simp: bit_array_ok_def field_ok_def intro!: unat_word_of_int)
  have mul: "unat (i * ?st) = unat i * nat (ba_stride b)"
    using kb(2) st by (subst unat_mult_no_wrap) (auto simp: k_def bit_position_def)
  have bi: "unat (i * ?st + ?off) = k"
    using kb(2) mul off by (subst unat_add_no_wrap) (auto simp: k_def bit_position_def)
  define d where "d = le_value (take 8 (drop (k div 8) (section_bytes b)))"
  have rd: "raw_read b (ms_ptr b + k div 8) 8 = Inr d"
    using raw_read_section [of b "k div 8" 8] kb(1) assms(1) by (simp add: d_def bit_array_ok_def)
  have dk: "d div 2 ^ (k mod 8) = le_value (section_bytes b) div 2 ^ k mod 2 ^ (64 - k mod 8)"
    by (simp only: d_def le_value_take le_value_drop bits_window)
  have "d < 2 ^ 64"
    using le_value_less [of "take 8 (drop (k div 8) (section_bytes b))"] kb(1) assms(1)
    by (simp add: d_def bit_array_ok_def)
  then have "unat (drop_bit (k mod 8) (of_nat d :: u64)) = d div 2 ^ (k mod 8)"
    by (simp only: unat_drop_bit_div unat_of_nat_u64)
  then have "drop_bit (k mod 8) (of_nat d :: u64) = bits_from b k"
    using dk by (metis bits_from_def of_nat_unat ucast_id)
  with rd bi assms(3) show ?thesis
    by (simp add: bit_get_def Let_def word_le_nat_alt unat_div_distrib and_7 k_def)
qed

text \<open>
  A field of at most 57 bits is read exactly: the number stored in its bits. A wider field can
  start at bit 7 of its first byte, and the eight bytes that are read then miss its top.
\<close>

lemma unat_and_mask:
  assumes "w \<le> 64"
  shows "unat ((x :: u64) AND mask w) = unat x mod 2 ^ w"
proof -
  have "x AND mask w = take_bit w x" by (simp only: take_bit_eq_mask)
  then have "unat (x AND mask w) = take_bit w (unat x)"
    by (simp only: unsigned_take_bit_eq)
  then show ?thesis by (simp add: take_bit_eq_mod)
qed

lemma bit_get_packed:
  assumes "bit_array_ok b" "field_ok b bf" "unat i < unat (ba_limit b)"
    and "bf_mask bf = mask w" "w \<le> 57"
  shows "\<exists>x. bit_get b i bf = Inr x \<and>
    unat x = le_value (section_bytes b) div 2 ^ bit_position b (unat i) bf mod 2 ^ w"
proof -
  let ?k = "bit_position b (unat i) bf" and ?v = "le_value (section_bytes b)"
  have w: "w \<le> 64 - ?k mod 8" using assms(5) by simp
  have "?v div 2 ^ ?k mod 2 ^ (64 - ?k mod 8) < 2 ^ (64 - ?k mod 8)" by simp
  also have "\<dots> \<le> (2 :: nat) ^ 64" by (rule power_increasing) simp_all
  finally have "unat (bits_from b ?k) = ?v div 2 ^ ?k mod 2 ^ (64 - ?k mod 8)"
    by (simp only: bits_from_def unat_of_nat_u64)
  then have "unat (bits_from b ?k AND mask w) = ?v div 2 ^ ?k mod 2 ^ (64 - ?k mod 8) mod 2 ^ w"
    using assms(5) by (simp add: unat_and_mask)
  also have "\<dots> = ?v div 2 ^ ?k mod 2 ^ w"
    using w by (simp add: mod_mod_cancel le_imp_power_dvd)
  finally show ?thesis
    using bit_get_in [OF assms(1-3)] assms(4) by simp
qed

definition bit_elem :: "bit_array \<Rightarrow> nat \<Rightarrow> u64" where
  "bit_elem b i = bits_from b (bit_position b i (ba_field b)) AND bf_mask (ba_field b)"

definition readable_bits :: "bit_array \<Rightarrow> bool" where
  "readable_bits b \<longleftrightarrow> bit_array_ok b \<and> field_ok b (ba_field b)"

interpretation bits: array_reader bit_at "\<lambda>b. unat (ba_limit b)" bit_elem readable_bits
proof
  fix b :: bit_array and i :: u64
  assume ok: "readable_bits b"
  show "bit_at b i = Inr (bit_elem b (unat i))" if "unat i < unat (ba_limit b)"
    using ok that bit_get_in by (simp add: bit_at_def bit_elem_def readable_bits_def)
  show "\<exists>e. bit_at b i = Inl e \<and> e \<noteq> Undefined" if "unat (ba_limit b) \<le> unat i"
    using that by (simp add: bit_at_def bit_get_def Let_def word_le_nat_alt)
qed

section \<open>Properties\<close>

text \<open>The sections a program can derive from a loaded file with the public operations.\<close>

inductive derived_section :: "mem_section \<Rightarrow> mem_section \<Rightarrow> bool" for f where
  whole: "derived_section f f"
| sub: "derived_section f m \<Longrightarrow> sub_section m a n = Inr p \<Longrightarrow> derived_section f p"
| front: "derived_section f m \<Longrightarrow> prefix_section m n = Inr p \<Longrightarrow> derived_section f p"
| without: "derived_section f m \<Longrightarrow> without_prefix m n = Inr p \<Longrightarrow> derived_section f p"
| dropped: "derived_section f m \<Longrightarrow> drop_prefix m n = Inr p \<Longrightarrow> derived_section f p"
| taken: "derived_section f m \<Longrightarrow> get_and_drop_prefix m n = Inr (p, q) \<Longrightarrow> derived_section f p"
| rest: "derived_section f m \<Longrightarrow> get_and_drop_prefix m n = Inr (p, q) \<Longrightarrow> derived_section f q"
| rebased: "derived_section f m \<Longrightarrow> derived_section f (set_base_offset m k)"
| reset: "derived_section f m \<Longrightarrow> derived_section f (reset_section m)"

lemma derived_section_ok: "derived_section f m \<Longrightarrow> section_ok f \<Longrightarrow> section_ok m"
proof (induction rule: derived_section.induct)
  case (rebased m k)
  then show ?case by (simp add: set_base_offset_def section_ok_def)
next
  case (reset m)
  show ?case by (simp add: reset_section_def)
qed (auto simp: without_prefix_eq_drop_prefix dest: derived_inside inside_ok)

text \<open>
  C22: However a section was cut out of a loaded file, a byte read, a typed read and an array
  read either throw \<^verbatim>\<open>out_of_range\<close> or return bytes of the file; none of them touches memory
  outside it.
\<close>

theorem section_reads_in_bounds:
  assumes "length bs < 2 ^ 64" "derived_section (section_of_memory bs) m"
  shows "byte_at m i \<noteq> Inl Undefined \<and> at_offset n m i \<noteq> Inl Undefined \<and>
    (0 < unat n \<longrightarrow> array_at n m i \<noteq> Inl Undefined)"
proof -
  have ok: "section_ok m"
    using derived_section_ok [OF assms(2)] section_of_memory_ok [OF assms(1)] by blast
  have "byte_at m i \<noteq> Inl Undefined"
    using byte_at_in [OF ok, of i] by (auto simp: byte_at_def throw_if_def word_le_nat_alt not_le)
  with ok show ?thesis by (simp add: at_offset_cases array_at_cases)
qed

theorem section_reads_in_bounds_witness:
  "\<exists>m. get_and_drop_prefix (section_of_memory [1, 2, 3]) 2 = Inr m \<and> at_offset 2 (snd m) 0 \<noteq> Inl Undefined"
proof -
  obtain p q where g: "get_and_drop_prefix (section_of_memory [1, 2, 3]) 2 = Inr (p, q)"
    by (simp add: get_and_drop_prefix_def section_of_memory_def)
  then have "derived_section (section_of_memory [1, 2, 3]) q"
    by (rule derived_section.rest [OF derived_section.whole])
  with section_reads_in_bounds [of "[1, 2, 3]" q 0 2] g show ?thesis by auto
qed

text \<open>
  A bit array over a section, once its stride is set, returns for every index below its
  limit exactly the number stored in the bits of the field, for fields of up to 57 bits that
  lie inside the record, and never reads beyond the section.
\<close>

theorem bit_array_read:
  assumes "section_ok m" "unat (ms_size m) < 2 ^ 61" "stride < 2 ^ 31"
    and "set_stride (bit_array_of m) stride = Inr b"
    and "0 \<le> off" "off + int w \<le> stride" "w \<le> 57"
    and "unat i < (unat (ms_size m) - 8) * 8 div nat stride"
  shows "\<exists>x. bit_get b i \<lparr>bf_offset = off, bf_mask = mask w\<rparr> = Inr x \<and>
    unat x = le_value (section_bytes m) div 2 ^ (unat i * nat stride + nat off) mod 2 ^ w"
proof -
  let ?b0 = "bit_array_of m" and ?bf = "\<lparr>bf_offset = off, bf_mask = mask w\<rparr> :: bit_field"
  have same: "section_ok ?b0" "ms_size ?b0 = ms_size m" "section_bytes ?b0 = section_bytes m"
    using assms(1) by (simp_all add: bit_array_of_def mem_section.defs section_ok_def section_bytes_def)
  have b: "bit_array_ok b" "ba_stride b = stride" "section_bytes b = section_bytes m"
    "unat (ba_limit b) = (unat (ms_size m) - 8) * 8 div nat stride"
    using set_stride_ok [OF same(1) _ assms(3,4)] assms(2) same by simp_all
  have "field_ok b ?bf" using assms(5,6) b(2) by (simp add: field_ok_def)
  then show ?thesis
    using bit_get_packed [of b ?bf i w] b assms(7,8) by (simp add: bit_position_def)
qed

theorem bit_array_read_witness:
  "\<exists>b x. set_stride (bit_array_of (section_of_memory [171, 205, 239, 0, 0, 0, 0, 0, 0, 0, 0])) 12 = Inr b \<and>
     bit_get b 1 \<lparr>bf_offset = 4, bf_mask = mask 8\<rparr> = Inr x \<and> unat x = 239"
proof -
  let ?m = "section_of_memory [171, 205, 239, 0, 0, 0, 0, 0, 0, 0, 0]"
  obtain b where b: "set_stride (bit_array_of ?m) 12 = Inr b"
    by (simp add: set_stride_def bit_array_of_def mem_section.defs section_of_memory_def word_le_nat_alt
        unat_div_distrib unsigned_minus_1_eq_mask mask_eq_exp_minus_1)
  have "le_value (section_bytes ?m) div 2 ^ (1 * 12 + 4) mod 2 ^ 8 = 239"
    by (simp add: section_bytes_def section_of_memory_def)
  moreover have "section_ok ?m" using section_of_memory_ok by simp
  ultimately show ?thesis
    using bit_array_read [of ?m 12 b 4 8 1] b by (auto simp: section_of_memory_def)
qed

text \<open>
  On a sorted array in memory \<^verbatim>\<open>binary_search\<close> always returns, and returns the last index of
  \<open>[l, r)\<close> whose element is not greater than the value (the element at \<open>l\<close> is never read
  and counts as small).
\<close>

theorem binary_search_correct:
  assumes "section_ok m" "unat r \<le> unat (ms_size m) div 8" "unat l < unat r"
    and "sorted (map (section_u64 m) [Suc (unat l)..<unat r])"
  shows "\<exists>k. binary_search (array_u64 m) l r v = Some (Inr k) \<and> unat l \<le> unat k \<and> unat k < unat r \<and>
    (\<forall>i. unat l < i \<longrightarrow> i \<le> unat k \<longrightarrow> section_u64 m i \<le> v) \<and>
    (\<forall>i. unat k < i \<longrightarrow> i < unat r \<longrightarrow> v < section_u64 m i)"
proof (rule u64_array.binary_search_last [OF assms(1-3)])
  show "unat r < 2 ^ 63" using assms(2) unat_u64_less [of "ms_size m"] by (simp del: unat_u64_less)
  show "u64_array.sorted_range m (Suc (unat l)) (unat r)"
    using assms(4) by (auto simp: u64_array.sorted_range_def intro: sorted_map_upt)
qed

theorem binary_search_correct_witness:
  "\<exists>k. binary_search (array_u64 (section_of_memory ([0, 0, 0, 0, 0, 0, 0, 0] @ [5, 0, 0, 0, 0, 0, 0, 0]))) 0 2 7
     = Some (Inr k) \<and> unat k = 1"
proof -
  let ?m = "section_of_memory ([0, 0, 0, 0, 0, 0, 0, 0] @ [5, 0, 0, 0, 0, 0, 0, 0])"
  have "section_ok ?m" "unat (2 :: u64) \<le> unat (ms_size ?m) div 8"
    "sorted (map (section_u64 ?m) [Suc (unat (0 :: u64))..<unat (2 :: u64)])"
    "section_u64 ?m 1 = 5" by code_simp+
  with binary_search_correct [of ?m 2 0 7] show ?thesis by fastforce
qed

end
