(* ===== verification/Vocabulary.thy ===== *)
theory Vocabulary
  imports MemorySections
begin

unbundle bit_operations_syntax

text \<open>
  The vocabulary of a language model, \<^verbatim>\<open>yoklm/vocabulary.hpp\<close> and \<^verbatim>\<open>.cpp\<close>: the MurmurHash64A of
  a word, the search for the hash in the sorted hash table of the model file, and the iteration
  over the word strings. Shown here: the hash equals the published algorithm, whose tail is
  folded in byte by byte; a lookup finds every word of the table; the word strings come out
  as they were written.
\<close>

section \<open>The hash\<close>

definition MURMUR64A_MUL :: u64 where
  "MURMUR64A_MUL = 0xc6a4a7935bd1e995"

definition MURMUR64A_SHR :: nat where
  "MURMUR64A_SHR = 47"

text \<open>The unaligned load of a 64-bit chunk at an index of the string.\<close>

definition load_chunk :: "u8 list \<Rightarrow> nat \<Rightarrow> u64" where
  "load_chunk word i = of_nat (le_value (take 8 (drop i word)))"

definition mix_chunk :: "u64 \<Rightarrow> u64" where
  "mix_chunk chunk =
     (let c = chunk * MURMUR64A_MUL; d = c XOR drop_bit MURMUR64A_SHR c in d * MURMUR64A_MUL)"

function hash_loop :: "u8 list \<Rightarrow> nat \<Rightarrow> u64 \<Rightarrow> u64" where
  "hash_loop word i hash =
     (if i + 7 < length word
      then hash_loop word (i + 8) ((hash XOR mix_chunk (load_chunk word i)) * MURMUR64A_MUL)
      else hash)"
  by pat_completeness auto
termination
  by (relation "measure (\<lambda>(word, i, hash). length word - i)") auto

declare hash_loop.simps [simp del]

text \<open>
  The last zero to seven bytes: for a string of at least eight bytes the code loads the last
  eight and shifts the ones already hashed out, in two shifts because one by 64 is undefined.
\<close>

definition tail_chunk :: "u8 list \<Rightarrow> u64" where
  "tail_chunk word =
     (let sz = length word
      in if sz \<ge> 8
         then drop_bit 8 (drop_bit ((7 - sz mod 8) * 8) (load_chunk word (sz - 8)))
         else of_nat (le_value word))"

definition word_hash :: "u8 list \<Rightarrow> u64" where
  "word_hash word =
     (let sz = length word;
          h0 = of_nat sz * MURMUR64A_MUL;
          h1 = hash_loop word 0 h0;
          h2 = h1 XOR tail_chunk word;
          h3 = h2 * (if sz mod 8 \<noteq> 0 then MURMUR64A_MUL else 1);
          h4 = h3 XOR drop_bit MURMUR64A_SHR h3;
          h5 = h4 * MURMUR64A_MUL
      in h5 XOR drop_bit MURMUR64A_SHR h5)"

section \<open>Lookup\<close>

record vocabulary_config =
  num_words :: u64
  word_hashes :: mem_section
  num_word_strings :: u64
  word_strings :: mem_section

record vocabulary =
  voc_config :: vocabulary_config
  voc_bos :: u64
  voc_eos :: u64

text \<open>The position in the hash table plus one; an absent hash is \<open>- 1 + 1 = 0\<close>, \<^verbatim>\<open><unk>\<close>.\<close>

definition find_hash :: "vocabulary_config \<Rightarrow> u64 \<Rightarrow> u64 result option" where
  "find_hash cfg hash =
     map_option (\<lambda>r. rbind r (\<lambda>i. Inr (i + 1)))
       (secant_search (array_u64 (word_hashes cfg)) 0 (num_words cfg - 1) 0 (- 1) (- 1) hash)"

definition find_word :: "vocabulary_config \<Rightarrow> u8 list \<Rightarrow> u64 result option" where
  "find_word cfg word = find_hash cfg (word_hash word)"

definition bytes_of_string :: "string \<Rightarrow> u8 list" where
  "bytes_of_string s = map of_char s"

definition load_vocabulary :: "vocabulary_config \<Rightarrow> vocabulary result option" where
  "load_vocabulary cfg =
     (case find_word cfg (bytes_of_string ''<s>'') of
        None \<Rightarrow> None
      | Some (Inl e) \<Rightarrow> Some (Inl e)
      | Some (Inr b) \<Rightarrow>
          (case find_word cfg (bytes_of_string ''</s>'') of
             None \<Rightarrow> None
           | Some (Inl e) \<Rightarrow> Some (Inl e)
           | Some (Inr s) \<Rightarrow> Some (Inr \<lparr>voc_config = cfg, voc_bos = b, voc_eos = s\<rparr>)))"

section \<open>Word strings\<close>

text \<open>
  The loop of \<^verbatim>\<open>iterate_word_strings\<close>. The callback receives the index and the C string that
  starts at \<^verbatim>\<open>prev_offset\<close>; the calls are collected in order. The bounds check of
  \<^verbatim>\<open>operator[]\<close> never fires: both offsets are below the section's size.
\<close>

function word_strings_loop ::
  "u8 list \<Rightarrow> nat \<Rightarrow> nat \<Rightarrow> nat \<Rightarrow> nat \<Rightarrow> (nat \<times> u8 list) list \<Rightarrow> nat \<times> (nat \<times> u8 list) list" where
  "word_strings_loop bs limit offset word_index prev calls =
     (if offset < length bs \<and> word_index < limit then
        (if bs ! offset = 0
         then word_strings_loop bs limit (offset + 1) (word_index + 1) (offset + 1)
                (calls @ [(word_index, takeWhile (\<lambda>b. b \<noteq> 0) (drop prev bs))])
         else word_strings_loop bs limit (offset + 1) word_index prev calls)
      else (word_index, calls))"
  by pat_completeness auto
termination
  by (relation "measure (\<lambda>(bs, limit, offset, word_index, prev, calls). length bs - offset)") auto

declare word_strings_loop.simps [simp del]

definition iterate_word_strings :: "vocabulary_config \<Rightarrow> (bool \<times> (nat \<times> u8 list) list) result" where
  "iterate_word_strings cfg =
     (if num_word_strings cfg \<le> 0 then Inr (False, [])
      else
        (let res = word_strings_loop (section_bytes (word_strings cfg))
                     (unat (num_word_strings cfg)) 0 0 0 []
         in throw_if (fst res < unat (num_word_strings cfg)) Runtime_error (Inr (True, snd res))))"

section \<open>The hash is MurmurHash64A\<close>

text \<open>
  The published algorithm with seed 0: whole blocks of eight bytes first, then the remaining
  bytes one by one, the last one first, each shifted to its place.
\<close>

fun murmur_blocks :: "u64 \<Rightarrow> u8 list \<Rightarrow> u64 \<times> u8 list" where
  "murmur_blocks h bs =
     (if length bs < 8 then (h, bs)
      else murmur_blocks ((h XOR mix_chunk (of_nat (le_value (take 8 bs)))) * MURMUR64A_MUL) (drop 8 bs))"

declare murmur_blocks.simps [simp del]

fun murmur_tail :: "u64 \<Rightarrow> nat \<Rightarrow> u8 list \<Rightarrow> u64" where
  "murmur_tail h i [] = h"
| "murmur_tail h i (b # bs) = murmur_tail h (i + 1) bs XOR push_bit (8 * i) (of_nat (unat b))"

definition murmur64A :: "u8 list \<Rightarrow> u64" where
  "murmur64A bs =
     (let (h, rest) = murmur_blocks (of_nat (length bs) * MURMUR64A_MUL) bs;
          h1 = (if rest = [] then h else murmur_tail h 0 rest * MURMUR64A_MUL);
          h2 = (h1 XOR drop_bit MURMUR64A_SHR h1) * MURMUR64A_MUL
      in h2 XOR drop_bit MURMUR64A_SHR h2)"

lemma murmur_blocks_hash_loop:
  "murmur_blocks h (drop i word) = (hash_loop word i h, drop (i + (length word - i) div 8 * 8) word)"
proof (induction word i h rule: hash_loop.induct)
  case (1 word i hash)
  show ?case
  proof (cases "i + 7 < length word")
    case True
    define n where "n = length word - i - 8"
    have n: "length word - i = 8 + n" using True by (simp add: n_def)
    then have "length word - (i + 8) = n" by simp
    with 1 [OF True] n True show ?thesis
      by (subst murmur_blocks.simps, subst hash_loop.simps) (simp add: load_chunk_def algebra_simps)
  next
    case False
    then have "length word - i < 8" by simp
    with False show ?thesis
      by (subst murmur_blocks.simps, subst hash_loop.simps) simp
  qed
qed

lemma byte_and_shifted: "(of_nat (unat (b :: u8)) :: u64) AND push_bit 8 w = 0"
  by (rule bit_eqI) (auto simp: bit_and_iff bit_push_bit_iff bit_ucast_iff dest: bit_imp_le_length)

lemma of_nat_le_value_Cons:
  "(of_nat (le_value (b # bs)) :: u64) = of_nat (unat b) XOR push_bit 8 (of_nat (le_value bs))"
proof -
  have "(of_nat (le_value (b # bs)) :: u64) = of_nat (unat b) + push_bit 8 (of_nat (le_value bs))"
    by (simp add: push_bit_eq_mult mult.commute)
  also have "\<dots> = of_nat (unat b) XOR push_bit 8 (of_nat (le_value bs))"
    using byte_and_shifted [of b "of_nat (le_value bs)"] by (rule disjunctive_add_eq_xor)
  finally show ?thesis .
qed

lemma murmur_tail_xor: "murmur_tail h i bs = h XOR push_bit (8 * i) (of_nat (le_value bs))"
proof (induction bs arbitrary: i)
  case Nil
  show ?case by simp
next
  case (Cons b bs)
  have "push_bit (8 * (i + 1)) w = push_bit (8 * i) (push_bit 8 w)" for w :: u64
    by (simp add: push_bit_push_bit add.commute)
  then show ?case
    unfolding of_nat_le_value_Cons murmur_tail.simps Cons.IH
    by (simp only: push_bit_xor xor.assoc xor.commute xor.left_commute)
qed

lemma tail_chunk_value:
  "tail_chunk word = of_nat (le_value (drop (length word - length word mod 8) word))"
proof (cases "8 \<le> length word")
  case True
  let ?n = "length word" and ?r = "length word mod 8"
  have r: "?r < 8" by simp
  have "(7 - ?r) * 8 + 8 = 8 * (8 - ?r)" using r by simp
  then have p: "(2 :: nat) ^ ((7 - ?r) * 8) * 2 ^ 8 = 256 ^ (8 - ?r)"
    by (simp only: power_add [symmetric]) (simp add: power_mult)
  have v: "le_value (drop (?n - 8) word) < 2 ^ 64"
    using le_value_less [of "drop (?n - 8) word"] True by simp
  have "unat (tail_chunk word) = le_value (drop (?n - 8) word) div 2 ^ ((7 - ?r) * 8) div 2 ^ 8"
    using True unat_of_nat_u64 [OF v]
    by (simp only: tail_chunk_def load_chunk_def Let_def if_True unat_drop_bit_div) simp
  also have "\<dots> = le_value (drop (?n - 8) word) div 256 ^ (8 - ?r)"
    by (simp only: p div_mult2_eq [symmetric])
  also have "\<dots> = le_value (drop (8 - ?r) (drop (?n - 8) word))"
    by (simp only: le_value_drop)
  also have "drop (8 - ?r) (drop (?n - 8) word) = drop (?n - ?r) word"
    using True r by (simp add: drop_drop)
  finally show ?thesis by (metis of_nat_unat ucast_id)
next
  case False
  then show ?thesis by (simp add: tail_chunk_def Let_def)
qed

lemma word_hash_murmur64A: "word_hash word = murmur64A word"
proof -
  let ?n = "length word"
  have "murmur_blocks h word = (hash_loop word 0 h, drop (?n - ?n mod 8) word)" for h
    using murmur_blocks_hash_loop [of h 0 word] by (simp add: minus_mod_eq_div_mult)
  moreover have "drop (?n - ?n mod 8) word = [] \<longleftrightarrow> ?n mod 8 = 0"
    by (auto simp: mod_less_eq_dividend)
  ultimately show ?thesis
    by (simp add: word_hash_def murmur64A_def Let_def murmur_tail_xor tail_chunk_value)
qed

section \<open>Lookup finds the words of the table\<close>

definition hashes_sorted :: "vocabulary_config \<Rightarrow> bool" where
  "hashes_sorted cfg \<longleftrightarrow>
     sorted (map (section_u64 (word_hashes cfg)) [0..<unat (num_words cfg) - 1])"

definition vocabulary_ok :: "vocabulary_config \<Rightarrow> bool" where
  "vocabulary_ok cfg \<longleftrightarrow> section_ok (word_hashes cfg) \<and> 1 \<le> unat (num_words cfg) \<and>
     unat (num_words cfg) < 2 ^ 52 \<and>
     unat (num_words cfg) - 1 \<le> unat (ms_size (word_hashes cfg)) div 8 \<and> hashes_sorted cfg"

definition has_hash :: "vocabulary_config \<Rightarrow> u64 \<Rightarrow> bool" where
  "has_hash cfg h \<longleftrightarrow>
     h \<in> set (map (section_u64 (word_hashes cfg)) [0..<unat (num_words cfg) - 1])"

lemma u2d_max_pos: "u2d 0 < u2d (- 1)"
  using dbl_gt0_iff [of "of_nat (unat (- 1 :: u64))"]
  by (simp add: u2d_def unsigned_minus_1_eq_mask del: dbl_gt0_iff of_nat_unat)

lemma find_hash_cases:
  assumes "vocabulary_ok cfg"
  shows "\<exists>i. find_hash cfg h = Some (Inr i) \<and>
    (1 \<le> unat i \<and> unat i < unat (num_words cfg) \<and>
       u2d (section_u64 (word_hashes cfg) (unat i - 1)) = u2d h
     \<or> i = 0 \<and> \<not> has_hash cfg h)"
proof -
  have n: "unat (num_words cfg - 1) = unat (num_words cfg) - 1"
    using assms by (intro unat_pred) (simp add: vocabulary_ok_def)
  have "\<exists>k. secant_search (array_u64 (word_hashes cfg)) 0 (num_words cfg - 1) 0 (- 1) (- 1) h = Some (Inr k) \<and>
    (unat (0 :: u64) \<le> unat k \<and> unat k < unat (num_words cfg - 1) \<and>
       u2d (section_u64 (word_hashes cfg) (unat k)) = u2d h
     \<or> k = - 1 \<and> \<not> u64_array.member_range (word_hashes cfg) (unat (0 :: u64)) (unat (num_words cfg - 1)) h)"
    by (rule u64_array.secant_search_total)
       (use assms n u2d_max_pos in \<open>auto simp: vocabulary_ok_def hashes_sorted_def
          u64_array.sorted_range_def simp flip: word_le_nat_alt intro: sorted_map_upt\<close>)
  then obtain k where k: "secant_search (array_u64 (word_hashes cfg)) 0 (num_words cfg - 1) 0 (- 1) (- 1) h = Some (Inr k)"
    and c: "unat k < unat (num_words cfg) - 1 \<and> u2d (section_u64 (word_hashes cfg) (unat k)) = u2d h
      \<or> k = - 1 \<and> \<not> u64_array.member_range (word_hashes cfg) 0 (unat (num_words cfg) - 1) h"
    unfolding n by auto
  from k have f: "find_hash cfg h = Some (Inr (k + 1))" by (simp add: find_hash_def)
  from c show ?thesis
  proof
    assume c: "unat k < unat (num_words cfg) - 1 \<and> u2d (section_u64 (word_hashes cfg) (unat k)) = u2d h"
    moreover from this assms have "unat (k + 1) = Suc (unat k)"
      by (intro unat_Suc_no_wrap) (auto simp: vocabulary_ok_def)
    ultimately show ?thesis using f by auto
  next
    assume "k = - 1 \<and> \<not> u64_array.member_range (word_hashes cfg) 0 (unat (num_words cfg) - 1) h"
    with f show ?thesis by (auto simp: has_hash_def u64_array.member_range_def)
  qed
qed

section \<open>Word strings come out as written\<close>

definition encode_words :: "u8 list list \<Rightarrow> u8 list" where
  "encode_words ws = concat (map (\<lambda>w. w @ [0]) ws)"

lemma word_strings_scan:
  assumes "0 \<notin> set w" "j \<le> length w" "k < limit"
  shows "word_strings_loop (pre @ w @ 0 # rest) limit (length pre + j) k (length pre) calls =
    word_strings_loop (pre @ w @ 0 # rest) limit (length pre + length w + 1) (k + 1)
      (length pre + length w + 1) (calls @ [(k, w)])"
  using assms(2)
proof (induction "length w - j" arbitrary: j)
  case 0
  then have j: "j = length w" by simp
  have "takeWhile (\<lambda>b. b \<noteq> 0) (w @ 0 # rest) = w"
    using assms(1) by (subst takeWhile_append2) auto
  with assms(3) show ?case
    by (subst word_strings_loop.simps) (simp add: j nth_append)
next
  case (Suc n)
  then have lt: "j < length w" by simp
  then have "w ! j \<noteq> 0" using assms(1) by (metis nth_mem)
  moreover have "word_strings_loop (pre @ w @ 0 # rest) limit (length pre + Suc j) k (length pre) calls =
    word_strings_loop (pre @ w @ 0 # rest) limit (length pre + length w + 1) (k + 1)
      (length pre + length w + 1) (calls @ [(k, w)])"
    using Suc by (intro Suc.hyps(1)) simp_all
  ultimately show ?case
    using lt assms(3) by (subst word_strings_loop.simps) (simp add: nth_append)
qed

lemma word_strings_loop_encode:
  assumes "\<forall>w \<in> set ws. 0 \<notin> set w"
  shows "word_strings_loop (pre @ encode_words ws @ rest) (k + length ws) (length pre) k (length pre) calls =
    (k + length ws, calls @ enumerate k ws)"
  using assms
proof (induction ws arbitrary: pre k calls)
  case Nil
  show ?case by (subst word_strings_loop.simps) simp
next
  case (Cons w ws)
  have "word_strings_loop (pre @ encode_words (w # ws) @ rest) (k + length (w # ws)) (length pre) k (length pre) calls =
    word_strings_loop ((pre @ w @ [0]) @ encode_words ws @ rest) (Suc k + length ws)
      (length (pre @ w @ [0])) (Suc k) (length (pre @ w @ [0])) (calls @ [(k, w)])"
    using word_strings_scan [of w 0 k "k + length (w # ws)" pre "encode_words ws @ rest" calls] Cons.prems
    by (simp add: encode_words_def)
  also have "\<dots> = (Suc k + length ws, (calls @ [(k, w)]) @ enumerate (Suc k) ws)"
    using Cons.prems by (intro Cons.IH) simp
  finally show ?case by simp
qed

lemma word_strings_loop_count:
  "k \<le> limit \<Longrightarrow> fst (word_strings_loop bs limit offset k prev calls) =
     min limit (k + length (filter (\<lambda>b. b = 0) (drop offset bs)))"
proof (induction bs limit offset k prev calls rule: word_strings_loop.induct)
  case (1 bs limit offset k prev calls)
  show ?case
  proof (cases "offset < length bs \<and> k < limit")
    case True
    then have d: "drop offset bs = bs ! offset # drop (offset + 1) bs"
      by (simp add: Cons_nth_drop_Suc)
    show ?thesis
      using 1 True d by (subst word_strings_loop.simps) auto
  next
    case False
    with 1(3) show ?thesis by (subst word_strings_loop.simps) auto
  qed
qed

lemma iterate_word_strings_fail:
  "iterate_word_strings cfg = Inl Runtime_error \<longleftrightarrow>
     length (filter (\<lambda>b. b = 0) (section_bytes (word_strings cfg))) < unat (num_word_strings cfg)"
  using word_strings_loop_count [of 0 "unat (num_word_strings cfg)" "section_bytes (word_strings cfg)" 0 0 "[]"]
  by (auto simp: iterate_word_strings_def throw_if_def Let_def)

section \<open>Properties\<close>

text \<open>
  C27: For every word the hash the code computes, with its overlapping load of the last eight
  bytes and its double shift, is MurmurHash64A with seed 0 as published: whole blocks, then the
  remaining bytes one by one.
\<close>

theorem word_hash_is_murmur: "word_hash word = murmur64A word"
  by (rule word_hash_murmur64A)

text \<open>
  C26: A lookup in a well-formed vocabulary always returns, without an exception or undefined
  behaviour. A hash of the table is never reported as \<^verbatim>\<open><unk>\<close>, a result other than \<^verbatim>\<open><unk>\<close> is a
  position of the table whose hash agrees with the sought one after rounding to a double, and
  if no other hash of the table rounds to the same double the result is the word's own index.
\<close>

theorem find_hash_correct:
  assumes "vocabulary_ok cfg"
  shows "\<exists>i. find_hash cfg h = Some (Inr i) \<and> unat i < unat (num_words cfg) \<and>
    (has_hash cfg h \<longrightarrow> i \<noteq> 0) \<and>
    (i \<noteq> 0 \<longrightarrow> u2d (section_u64 (word_hashes cfg) (unat i - 1)) = u2d h) \<and>
    (\<forall>k. k < unat (num_words cfg) - 1 \<longrightarrow> section_u64 (word_hashes cfg) k = h \<longrightarrow>
       (\<forall>j. j < unat (num_words cfg) - 1 \<longrightarrow> j \<noteq> k \<longrightarrow> u2d (section_u64 (word_hashes cfg) j) \<noteq> u2d h) \<longrightarrow>
       unat i = k + 1)"
proof -
  obtain i where i: "find_hash cfg h = Some (Inr i)"
    and c: "1 \<le> unat i \<and> unat i < unat (num_words cfg) \<and>
        u2d (section_u64 (word_hashes cfg) (unat i - 1)) = u2d h \<or> i = 0 \<and> \<not> has_hash cfg h"
    using find_hash_cases [OF assms] by blast
  have z: "1 \<le> unat i \<longleftrightarrow> i \<noteq> 0" by (auto simp: Suc_le_eq unat_gt_0)
  have mem: "has_hash cfg h" if "k < unat (num_words cfg) - 1" "section_u64 (word_hashes cfg) k = h" for k
    using that by (auto simp: has_hash_def)
  have "unat i = k + 1"
    if k: "k < unat (num_words cfg) - 1" "section_u64 (word_hashes cfg) k = h"
      and u: "\<And>j. j < unat (num_words cfg) - 1 \<Longrightarrow> j \<noteq> k \<Longrightarrow> u2d (section_u64 (word_hashes cfg) j) \<noteq> u2d h" for k
  proof -
    from c mem [OF k] have "1 \<le> unat i" "unat i < unat (num_words cfg)"
      "u2d (section_u64 (word_hashes cfg) (unat i - 1)) = u2d h" by auto
    with u [of "unat i - 1"] show ?thesis by (cases "unat i - 1 = k") auto
  qed
  with i c z assms show ?thesis by (auto simp: vocabulary_ok_def)
qed

definition two_hashes :: vocabulary_config where
  "two_hashes = \<lparr>num_words = 3,
     word_hashes = section_of_memory [0, 0, 0, 0, 0, 0, 0, 64, 0, 0, 0, 0, 0, 0, 0, 128],
     num_word_strings = 0, word_strings = empty_section\<rparr>"

lemma two_hashes_ok: "vocabulary_ok two_hashes"
  by code_simp

theorem find_hash_correct_witness:
  "\<exists>i. find_hash two_hashes 4611686018427387904 = Some (Inr i) \<and> i \<noteq> 0"
proof -
  have "has_hash two_hashes 4611686018427387904" by code_simp
  with find_hash_correct [OF two_hashes_ok, of 4611686018427387904] show ?thesis by blast
qed

lemma u2d_small: "u2d 0 = 0" "u2d 1 = 1" "u2d 3 = 3"
  by (simp_all add: u2d_def dbl_exact [where n = 1 and e = 0] dbl_exact [where n = 3 and e = 0])

lemma u2d_max: "u2d (- 1) = 2 ^ 64"
proof -
  have "dbl 18446744073709551615 = of_int (2 ^ 53) * 2 powi 11"
    by (rule dbl_near) simp_all
  then show ?thesis
    by (simp add: u2d_def unsigned_minus_1_eq_mask mask_eq_exp_minus_1)
qed

lemma u2d_absent: "u2d 4611686018427387905 = 4611686018427387904"
proof -
  have "dbl 4611686018427387905 = of_int (2 ^ 52) * 2 powi 10"
    by (rule dbl_near) simp_all
  then show ?thesis by (simp add: u2d_def)
qed

lemma u2d_present: "u2d 4611686018427387904 = 4611686018427387904"
proof -
  have "dbl 4611686018427387904 = of_int (2 ^ 52) * 2 powi 10"
    by (rule dbl_near) simp_all
  then show ?thesis by (simp add: u2d_def)
qed

lemmas u2d_hashes = u2d_max u2d_absent u2d_present

lemma dbl_quarters: "dbl (1 / 4) = 1 / 4" "dbl (3 / 4) = 3 / 4"
  by (simp_all add: dbl_exact [where n = 1 and e = "- 2"] dbl_exact [where n = 3 and e = "- 2"])

lemma dbl_powers: "dbl (2 ^ 62) = 2 ^ 62" "dbl (3 * 2 ^ 62) = 3 * 2 ^ 62" "dbl (2 ^ 64) = 2 ^ 64"
  by (rule dbl_exact [where n = 1 and e = 62] dbl_exact [where n = 3 and e = 62]
      dbl_exact [where n = 1 and e = 64], simp, simp)+

lemma floor_quarter: "\<lfloor>1 / 4 :: rat\<rfloor> = 0"
  by (simp add: floor_eq_iff)

lemma probe_first: "secant_probe 0 2 (- (2 ^ 62)) (3 * 2 ^ 62) = Some 0"
  by (simp add: secant_probe_def clamp_probe_def probe_index_def u2d_small dbl_quarters
      dbl_powers [simplified] floor_quarter)

lemma false_match_run: "find_hash two_hashes 4611686018427387905 = Some (Inr 1)"
proof -
  have a0: "array_u64 (word_hashes two_hashes) 0 = Inr 4611686018427387904" by code_simp
  have p: "dbl (u2d 0 - u2d 4611686018427387905) = - (2 ^ 62)" "dbl (u2d (- 1) - u2d 4611686018427387905) = 3 * 2 ^ 62"
    using dbl_powers by (simp_all add: u2d_small u2d_hashes)
  have n: "num_words two_hashes - 1 = 2" by code_simp
  show ?thesis
    unfolding find_hash_def secant_search_def p n
    by (subst secant_loop.simps) (simp add: probe_first [simplified] a0 u2d_hashes)
qed

text \<open>
  The comparison in double precision confuses hashes: a hash that is not in the table is
  reported as the word whose hash rounds to the same double. The table holds \<open>2 ^ 62\<close> and
  \<open>2 ^ 63\<close>; the absent hash \<open>2 ^ 62 + 1\<close> is found as word 1.
\<close>

theorem find_hash_false_match:
  "vocabulary_ok two_hashes \<and> \<not> has_hash two_hashes 4611686018427387905 \<and>
   find_hash two_hashes 4611686018427387905 = Some (Inr 1)"
proof -
  have "\<not> has_hash two_hashes 4611686018427387905" by code_simp
  with two_hashes_ok false_match_run show ?thesis by blast
qed

text \<open>
  Word strings written one after the other, each ended by a zero byte, come back from the
  iteration in order and numbered from 0, whatever follows them in the section.
\<close>

theorem iterate_word_strings_roundtrip:
  assumes "ws \<noteq> []" "\<forall>w \<in> set ws. 0 \<notin> set w"
    and "section_bytes (word_strings cfg) = encode_words ws @ rest"
    and "unat (num_word_strings cfg) = length ws"
  shows "iterate_word_strings cfg = Inr (True, enumerate 0 ws)"
proof -
  have "num_word_strings cfg \<noteq> 0" using assms(1,4) by auto
  with word_strings_loop_encode [OF assms(2), of "[]" rest 0 "[]"] assms(3,4) show ?thesis
    by (simp add: iterate_word_strings_def)
qed

theorem iterate_word_strings_roundtrip_witness:
  "iterate_word_strings \<lparr>num_words = 3, word_hashes = empty_section, num_word_strings = 2,
     word_strings = section_of_memory [60, 62, 0, 97, 0, 7]\<rparr> = Inr (True, [(0, [60, 62]), (1, [97])])"
proof -
  let ?c = "\<lparr>num_words = 3, word_hashes = empty_section, num_word_strings = 2,
     word_strings = section_of_memory [60, 62, 0, 97, 0, 7]\<rparr>"
  have "section_bytes (word_strings ?c) = encode_words [[60, 62], [97]] @ [7]" by code_simp
  then show ?thesis
    using iterate_word_strings_roundtrip [of "[[60, 62], [97]]" ?c "[7]"] by simp
qed

text \<open>
  The iteration fails with an exception exactly when the section holds fewer terminators
  than the declared number of words; with no declared words it reports that there are none.
\<close>

theorem iterate_word_strings_truncated:
  "iterate_word_strings cfg = Inl Runtime_error \<longleftrightarrow>
     length (filter (\<lambda>b. b = 0) (section_bytes (word_strings cfg))) < unat (num_word_strings cfg)"
  by (rule iterate_word_strings_fail)

end
