(* ===== verification/LanguageModel.thy ===== *)
theory LanguageModel
  imports Vocabulary
begin

unbundle bit_operations_syntax

text \<open>
  The n-gram language model of \<^verbatim>\<open>yoklm/language_model.hpp\<close> and \<^verbatim>\<open>.cpp\<close>: a trie stored in one
  array of unigram nodes and, per further layer, a bit array of records whose child ranges are
  compressed as a Bhiksha array (low bits in the record, high bits by position in a separate
  array). \<open>find_ngram\<close> descends the trie along the words of a context, newest first;
  \<open>log10_p_cond\<close> adds the back-off weights. The descent is shown equal to a reference
  descent that looks every word up linearly.
\<close>

section \<open>Data\<close>

record medium_layer =
  bhiksha_total_bits :: int
  bhiksha_low_bits :: int
  layer_backoff_bits :: int
  bhiksha_highs_count :: u64
  bhiksha_highs :: mem_section
  ml_bits :: bit_array
  word_field :: bit_field
  backoff_field :: bit_field
  prob_field :: bit_field
  bhiksha_low_field :: bit_field

record lm_config =
  lm_order :: nat
  ngram_counts :: "u64 list"
  prob_bits :: int
  backoff_bits :: int
  prob_quant_tables :: "mem_section list"
  backoff_quant_tables :: "mem_section list"
  unigram_layer :: mem_section
  medium_layers :: "medium_layer list"

record lm_state =
  backoffs :: "cfloat list"
  context_words :: "u64 list"

section \<open>Operations\<close>

text \<open>A node of the unigram layer: probability, back-off weight, start of its children.\<close>

definition unigram_at :: "mem_section \<Rightarrow> u64 \<Rightarrow> (cfloat \<times> cfloat \<times> u64) result" where
  "unigram_at m i = rbind (array_at 16 m i) (\<lambda>n.
     Inr (f32_of_bits (n mod 2 ^ 32), f32_of_bits (n div 2 ^ 32 mod 2 ^ 32), of_nat (n div 2 ^ 64)))"

definition float_at :: "mem_section \<Rightarrow> u64 \<Rightarrow> cfloat result" where
  "float_at m i = rbind (array_at 4 m i) (\<lambda>n. Inr (f32_of_bits n))"

text \<open>The run of entries equal to \<^verbatim>\<open>index + 1\<close> that follows the entry found for \<^verbatim>\<open>index\<close>.\<close>

function highs_run :: "mem_section \<Rightarrow> u64 \<Rightarrow> u64 \<Rightarrow> u64 \<Rightarrow> u64 result" where
  "highs_run highs count target r =
     (if r < count then
        (case array_u64 highs r of
           Inl e \<Rightarrow> Inl e
         | Inr a \<Rightarrow> if a = target then highs_run highs count target (r + 1) else Inr r)
      else Inr r)"
  by pat_completeness auto
termination
proof (relation "measure (\<lambda>(highs, count, target, r). unat count - unat r)")
  fix highs :: mem_section and count target r :: u64
  assume "r < count"
  then have "unat r < unat count" by (simp add: word_less_nat_alt)
  moreover from this have "unat (r + 1) = Suc (unat r)"
    using unat_u64_less [of count] by (intro unat_Suc_no_wrap) (simp del: unat_u64_less)
  ultimately show "((highs, count, target, r + 1), highs, count, target, r)
    \<in> measure (\<lambda>(highs, count, target, r). unat count - unat r)" by simp
qed simp

declare highs_run.simps [simp del]

definition bhiksha_lookup :: "mem_section \<Rightarrow> u64 \<Rightarrow> u64 \<Rightarrow> (u64 \<times> u64) result option" where
  "bhiksha_lookup highs count index =
     obind (binary_search (array_u64 highs) 0 count index) (\<lambda>l.
       Some (rbind (highs_run highs count (index + 1) (l + 1)) (\<lambda>r. Inr (l, r - 1))))"

text \<open>The child range of a record in the next layer.\<close>

definition child_range :: "medium_layer \<Rightarrow> u64 \<Rightarrow> (u64 \<times> u64) result option" where
  "child_range layer index =
     obind (Some (bit_get (ml_bits layer) index (bhiksha_low_field layer))) (\<lambda>next_l_low.
     obind (Some (bit_get (ml_bits layer) (index + 1) (bhiksha_low_field layer))) (\<lambda>next_r_low.
     obind (bhiksha_lookup (bhiksha_highs layer) (bhiksha_highs_count layer) index) (\<lambda>(h_l, h_r).
     obind (Some (shl_u64 h_l (bhiksha_low_bits layer))) (\<lambda>hl.
     obind (Some (shl_u64 h_r (bhiksha_low_bits layer))) (\<lambda>hr.
       Some (Inr (hl + next_l_low, hr + next_r_low)))))))"

text \<open>One iteration of the loop of \<^verbatim>\<open>find_ngram\<close>: leave it, or go on with a range of the next layer.\<close>

datatype descent = Stop cfloat "cfloat list" | Next u64 u64 cfloat "cfloat list"

definition ngram_step ::
  "lm_config \<Rightarrow> u64 list \<Rightarrow> nat \<Rightarrow> u64 \<Rightarrow> u64 \<Rightarrow> cfloat \<Rightarrow> cfloat list \<Rightarrow> descent result option" where
  "ngram_step cfg words k l r p bs =
     obind (Some (vec_at words (k - 1))) (\<lambda>word.
     obind (Some (vec_at (medium_layers cfg) (k - 2))) (\<lambda>layer.
     obind (Some (vec_at (ngram_counts cfg) 0)) (\<lambda>count.
     obind (secant_search (bit_at (ml_bits layer)) l r 0 count (- 1) word) (\<lambda>index.
       if index = - 1 then Some (Inr (Stop p bs))
       else
         obind (Some (vec_at (prob_quant_tables cfg) (k - 2))) (\<lambda>probs.
         obind (Some (bit_get (ml_bits layer) index (prob_field layer))) (\<lambda>q.
         obind (Some (float_at probs q)) (\<lambda>p'.
           if k \<ge> lm_order cfg then Some (Inr (Stop p' (bs @ [Fin 0])))
           else
             obind (Some (vec_at (backoff_quant_tables cfg) (k - 2))) (\<lambda>bos.
             obind (Some (bit_get (ml_bits layer) index (backoff_field layer))) (\<lambda>qb.
             obind (Some (float_at bos qb)) (\<lambda>bo.
             obind (child_range layer index) (\<lambda>(l', r').
               Some (Inr (Next l' r' p' (bs @ [bo]))))))))))))))"

function find_ngram_loop ::
  "lm_config \<Rightarrow> u64 list \<Rightarrow> nat \<Rightarrow> u64 \<Rightarrow> u64 \<Rightarrow> cfloat \<Rightarrow> cfloat list \<Rightarrow> (cfloat \<times> cfloat list) result option" where
  "find_ngram_loop cfg words k l r p bs =
     (if k \<le> lm_order cfg \<and> k < length words + 1 \<and> l < r then
        (case ngram_step cfg words k l r p bs of
           None \<Rightarrow> None
         | Some (Inl e) \<Rightarrow> Some (Inl e)
         | Some (Inr (Stop p' bs')) \<Rightarrow> Some (Inr (p', bs'))
         | Some (Inr (Next l' r' p' bs')) \<Rightarrow> find_ngram_loop cfg words (k + 1) l' r' p' bs')
      else Some (Inr (p, bs)))"
  by pat_completeness auto
termination
  by (relation "measure (\<lambda>(cfg, words, k, l, r, p, bs). lm_order cfg + 1 - k)") auto

declare find_ngram_loop.simps [simp del]

definition find_ngram :: "lm_config \<Rightarrow> u64 list \<Rightarrow> (cfloat \<times> cfloat list) result option" where
  "find_ngram cfg words =
     obind (Some (vec_at words 0)) (\<lambda>w.
     obind (Some (unigram_at (unigram_layer cfg) w)) (\<lambda>(p, bo, l).
     obind (Some (unigram_at (unigram_layer cfg) (w + 1))) (\<lambda>(p1, bo1, r).
       find_ngram_loop cfg words 2 l r p [bo])))"

text \<open>The back-off weights of the old state from the length of the match on.\<close>

definition add_backoffs :: "cfloat list \<Rightarrow> nat \<Rightarrow> cfloat \<Rightarrow> cfloat" where
  "add_backoffs bos ngram_length p = foldl f32_add p (drop (ngram_length - 1) bos)"

definition log10_p_cond :: "lm_config \<Rightarrow> u64 \<Rightarrow> lm_state \<Rightarrow> (cfloat \<times> lm_state) result option" where
  "log10_p_cond cfg new_word st =
     (let words = new_word # take (lm_order cfg - 1) (context_words st)
      in obind (find_ngram cfg words) (\<lambda>(p, bos).
           Some (Inr (add_backoffs (backoffs st) (length bos) p,
             \<lparr>backoffs = bos, context_words = take (lm_order cfg - 1) words\<rparr>))))"

section \<open>Bhiksha arrays\<close>

lemma highs_run_spec:
  assumes "section_ok highs" "unat count \<le> unat (ms_size highs) div 8" "unat r \<le> unat count"
  shows "\<exists>r'. highs_run highs count t r = Inr r' \<and> unat r \<le> unat r' \<and> unat r' \<le> unat count \<and>
    (\<forall>i. unat r \<le> i \<longrightarrow> i < unat r' \<longrightarrow> section_u64 highs i = t) \<and>
    (unat r' < unat count \<longrightarrow> section_u64 highs (unat r') \<noteq> t)"
  using assms(3)
proof (induction "unat count - unat r" arbitrary: r)
  case 0
  then have "\<not> r < count" by (simp add: word_less_nat_alt)
  with 0 show ?case by (subst highs_run.simps) auto
next
  case (Suc n)
  then have lt: "r < count" "unat r < unat count" by (simp_all add: word_less_nat_alt)
  have rd: "array_u64 highs r = Inr (section_u64 highs (unat r))"
    using assms(1,2) lt(2) by (intro u64_array.get_in) simp_all
  have r1: "unat (r + 1) = Suc (unat r)"
    using lt(2) unat_u64_less [of count] by (intro unat_Suc_no_wrap) (simp del: unat_u64_less)
  show ?case
  proof (cases "section_u64 highs (unat r) = t")
    case True
    have "n = unat count - unat (r + 1)" "unat (r + 1) \<le> unat count"
      using Suc.hyps(2) lt(2) r1 by simp_all
    from Suc.hyps(1) [OF this] obtain r' where r': "highs_run highs count t (r + 1) = Inr r'" "unat (r + 1) \<le> unat r'"
      "unat r' \<le> unat count" "\<forall>i. unat (r + 1) \<le> i \<longrightarrow> i < unat r' \<longrightarrow> section_u64 highs i = t"
      "unat r' < unat count \<longrightarrow> section_u64 highs (unat r') \<noteq> t"
      by blast
    have "section_u64 highs i = t" if "unat r \<le> i" "i < unat r'" for i
      using r'(4) that r1 True by (cases "i = unat r") auto
    moreover have "highs_run highs count t r = Inr r'"
      using lt rd True r'(1) by (subst highs_run.simps) simp
    ultimately show ?thesis using r' r1 by auto
  next
    case False
    with lt rd show ?thesis by (subst highs_run.simps) auto
  qed
qed

definition highs_ok :: "mem_section \<Rightarrow> u64 \<Rightarrow> bool" where
  "highs_ok highs count \<longleftrightarrow> section_ok highs \<and> 0 < unat count \<and>
     unat count \<le> unat (ms_size highs) div 8 \<and>
     section_u64 highs 0 = 0 \<and> sorted (map (section_u64 highs) [0..<unat count])"

lemma bhiksha_lookup_spec:
  assumes "highs_ok highs count" "unat index < 2 ^ 64 - 1"
  shows "\<exists>l r. bhiksha_lookup highs count index = Some (Inr (l, r)) \<and>
    unat l < unat count \<and> unat r < unat count \<and>
    (\<forall>i < unat count. section_u64 highs i \<le> index \<longleftrightarrow> i \<le> unat l) \<and>
    (\<forall>i < unat count. section_u64 highs i \<le> index + 1 \<longleftrightarrow> i \<le> unat r)"
proof -
  let ?h = "section_u64 highs"
  have ok: "section_ok highs" "0 < unat count" "unat count \<le> unat (ms_size highs) div 8" "?h 0 = 0"
    using assms(1) by (simp_all add: highs_ok_def)
  have srt: "?h i \<le> ?h j" if "i \<le> j" "j < unat count" for i j
    using assms(1) that by (auto simp: highs_ok_def intro: sorted_map_upt)
  have idx: "unat (index + 1) = Suc (unat index)" using assms(2) by (rule unat_Suc_no_wrap)
  have "\<exists>l. binary_search (array_u64 highs) 0 count index = Some (Inr l) \<and>
    unat (0 :: u64) \<le> unat l \<and> unat l < unat count \<and>
    (\<forall>i. unat (0 :: u64) < i \<longrightarrow> i \<le> unat l \<longrightarrow> ?h i \<le> index) \<and>
    (\<forall>i. unat l < i \<longrightarrow> i < unat count \<longrightarrow> index < ?h i)"
    by (rule u64_array.binary_search_last)
       (use ok srt unat_u64_less [of "ms_size highs"] in
        \<open>auto simp: u64_array.sorted_range_def simp del: unat_u64_less\<close>)
  then obtain l where l: "binary_search (array_u64 highs) 0 count index = Some (Inr l)" "unat l < unat count"
    "\<And>i. 0 < i \<Longrightarrow> i \<le> unat l \<Longrightarrow> ?h i \<le> index" "\<And>i. unat l < i \<Longrightarrow> i < unat count \<Longrightarrow> index < ?h i"
    by auto
  have l1: "unat (l + 1) = Suc (unat l)"
    using l(2) unat_u64_less [of count] by (intro unat_Suc_no_wrap) (simp del: unat_u64_less)
  have "unat (l + 1) \<le> unat count" using l(2) l1 by simp
  from highs_run_spec [OF ok(1,3) this, of "index + 1"] obtain r' where
    r': "highs_run highs count (index + 1) (l + 1) = Inr r'" "unat (l + 1) \<le> unat r'" "unat r' \<le> unat count"
    "\<And>i. unat (l + 1) \<le> i \<Longrightarrow> i < unat r' \<Longrightarrow> ?h i = index + 1"
    "unat r' < unat count \<Longrightarrow> ?h (unat r') \<noteq> index + 1" by blast
  have r: "unat (r' - 1) = unat r' - 1" using r'(2) l1 by (intro unat_pred) simp
  have low: "?h i \<le> index \<longleftrightarrow> i \<le> unat l" if "i < unat count" for i
    using l(3) [of i] l(4) [of i] that ok(4) by (cases "i = 0"; cases "i \<le> unat l") auto
  have high: "?h i \<le> index + 1 \<longleftrightarrow> i \<le> unat r' - 1" if i: "i < unat count" for i
  proof (cases "i < unat r'")
    case True
    have "?h i \<le> index + 1"
    proof (cases "i \<le> unat l")
      case True
      then have "unat (?h i) \<le> unat index" using low [OF i] by (simp add: word_le_nat_alt)
      with idx show ?thesis by (simp add: word_le_nat_alt)
    next
      case False
      with r'(4) [of i] True l1 show ?thesis by simp
    qed
    with True show ?thesis by simp
  next
    case False
    then have "unat r' < unat count" using i by simp
    moreover from this have "index < ?h (unat r')" using l(4) [of "unat r'"] r'(2) l1 by simp
    ultimately have "Suc (unat index) < unat (?h (unat r'))"
      using r'(5) idx by (metis Suc_lessI word_less_nat_alt word_unat_eq_iff)
    moreover have "unat (?h (unat r')) \<le> unat (?h i)"
      using srt [of "unat r'" i] False i by (simp add: word_le_nat_alt)
    ultimately have "\<not> ?h i \<le> index + 1" using idx by (simp add: word_le_nat_alt)
    with False r'(2) l1 show ?thesis by simp
  qed
  have "bhiksha_lookup highs count index = Some (Inr (l, r' - 1))"
    using l(1) r'(1) by (simp add: bhiksha_lookup_def)
  moreover have "unat r' - 1 < unat count" using r'(2,3) l1 by simp
  ultimately show ?thesis using l(2) low high r by (metis (no_types, lifting))
qed

section \<open>Reference descent\<close>

text \<open>The number a Bhiksha array stores at \<open>i\<close>, read off its definition.\<close>

definition bit_value :: "bit_array \<Rightarrow> nat \<Rightarrow> bit_field \<Rightarrow> u64" where
  "bit_value b i bf = bits_from b (bit_position b i bf) AND bf_mask bf"

definition high_part :: "medium_layer \<Rightarrow> nat \<Rightarrow> nat" where
  "high_part layer i = length (filter (\<lambda>h. unat (section_u64 (bhiksha_highs layer) h) \<le> i)
     [0..<unat (bhiksha_highs_count layer)]) - 1"

definition child_start :: "medium_layer \<Rightarrow> nat \<Rightarrow> u64" where
  "child_start layer i =
     push_bit (nat (bhiksha_low_bits layer)) (of_nat (high_part layer i)) +
     bit_value (ml_bits layer) i (bhiksha_low_field layer)"

definition inner_layer_ok :: "medium_layer \<Rightarrow> bool" where
  "inner_layer_ok layer \<longleftrightarrow> 0 \<le> bhiksha_low_bits layer \<and> bhiksha_low_bits layer < 64 \<and>
     field_ok (ml_bits layer) (backoff_field layer) \<and> field_ok (ml_bits layer) (bhiksha_low_field layer) \<and>
     highs_ok (bhiksha_highs layer) (bhiksha_highs_count layer)"

lemma filter_upt_downset:
  assumes "\<And>i. i < n \<Longrightarrow> P i \<longleftrightarrow> i \<le> k" "k < n"
  shows "length (filter P [0..<n]) = Suc k"
proof -
  have "filter P [0..<n] = filter (\<lambda>i. i \<le> k) [0..<n]"
    using assms(1) by (intro filter_cong) auto
  moreover have "[0..<n] = [0..<Suc k] @ [Suc k..<n]"
    using assms(2) upt_add_eq_append [of 0 "Suc k" "n - Suc k"] by simp
  moreover have "filter (\<lambda>i. i \<le> k) ([0..<Suc k] @ [Suc k..<n]) = [0..<Suc k]"
    by (auto simp: filter_empty_conv simp del: upt_Suc intro!: filter_True)
  ultimately have "filter P [0..<n] = [0..<Suc k]" by (simp only:)
  then show ?thesis by (simp only: length_upt)
qed

lemma child_range_spec:
  assumes "inner_layer_ok layer" "bit_array_ok (ml_bits layer)" "Suc (unat i) < unat (ba_limit (ml_bits layer))"
  shows "child_range layer i = Some (Inr (child_start layer (unat i), child_start layer (Suc (unat i))))"
proof -
  let ?b = "ml_bits layer" and ?f = "bhiksha_low_field layer"
  have i: "unat i < 2 ^ 64 - 1"
    using assms(3) unat_u64_less [of "ba_limit ?b"] by (simp del: unat_u64_less)
  then have i1: "unat (i + 1) = Suc (unat i)" by (rule unat_Suc_no_wrap)
  have f: "field_ok ?b ?f" and lb: "0 \<le> bhiksha_low_bits layer" "bhiksha_low_bits layer < 64"
    and h: "highs_ok (bhiksha_highs layer) (bhiksha_highs_count layer)"
    using assms(1) by (simp_all add: inner_layer_ok_def)
  have g: "bit_get ?b i ?f = Inr (bit_value ?b (unat i) ?f)"
    "bit_get ?b (i + 1) ?f = Inr (bit_value ?b (Suc (unat i)) ?f)"
    using bit_get_in [OF assms(2) f] assms(3) i1 by (simp_all add: bit_value_def)
  obtain l r where lr: "bhiksha_lookup (bhiksha_highs layer) (bhiksha_highs_count layer) i = Some (Inr (l, r))"
    "unat l < unat (bhiksha_highs_count layer)" "unat r < unat (bhiksha_highs_count layer)"
    "\<forall>j < unat (bhiksha_highs_count layer). section_u64 (bhiksha_highs layer) j \<le> i \<longleftrightarrow> j \<le> unat l"
    "\<forall>j < unat (bhiksha_highs_count layer). section_u64 (bhiksha_highs layer) j \<le> i + 1 \<longleftrightarrow> j \<le> unat r"
    using bhiksha_lookup_spec [OF h i] by blast
  have "high_part layer (unat i) = unat l" and "high_part layer (Suc (unat i)) = unat r"
    unfolding high_part_def
    by (subst filter_upt_downset, use lr i1 in \<open>auto simp: word_le_nat_alt\<close>)+
  then show ?thesis
    using g lr(1) lb by (simp add: child_range_def shl_u64_def child_start_def)
qed

definition quant_value :: "mem_section \<Rightarrow> u64 \<Rightarrow> cfloat" where
  "quant_value m q = f32_of_bits (le_value (take 4 (drop (unat q * 4) (section_bytes m))))"

definition find_record :: "medium_layer \<Rightarrow> nat \<Rightarrow> nat \<Rightarrow> u64 \<Rightarrow> nat option" where
  "find_record layer a b w = List.find (\<lambda>i. bit_elem (ml_bits layer) i = w) [a..<b]"

text \<open>The descent with linear lookup of each word and with the child ranges of the definition.\<close>

fun descend_ref ::
  "lm_config \<Rightarrow> u64 list \<Rightarrow> nat \<Rightarrow> u64 \<Rightarrow> u64 \<Rightarrow> cfloat \<Rightarrow> cfloat list \<Rightarrow> cfloat \<times> cfloat list" where
  "descend_ref cfg [] k l r p bs = (p, bs)"
| "descend_ref cfg (w # ws) k l r p bs =
     (if lm_order cfg < k then (p, bs)
      else
        (let layer = medium_layers cfg ! (k - 2)
         in case find_record layer (unat l) (unat r) w of
              None \<Rightarrow> (p, bs)
            | Some i \<Rightarrow>
                (let p' = quant_value (prob_quant_tables cfg ! (k - 2))
                            (bit_value (ml_bits layer) i (prob_field layer))
                 in if k = lm_order cfg then (p', bs @ [Fin 0])
                    else descend_ref cfg ws (k + 1) (child_start layer i) (child_start layer (Suc i)) p'
                           (bs @ [quant_value (backoff_quant_tables cfg ! (k - 2))
                                    (bit_value (ml_bits layer) i (backoff_field layer))]))))"

definition unigram_value :: "mem_section \<Rightarrow> nat \<Rightarrow> cfloat \<times> cfloat \<times> u64" where
  "unigram_value m i =
     (let n = le_value (take 16 (drop (i * 16) (section_bytes m)))
      in (f32_of_bits (n mod 2 ^ 32), f32_of_bits (n div 2 ^ 32 mod 2 ^ 32), of_nat (n div 2 ^ 64)))"

definition unigram_start :: "lm_config \<Rightarrow> nat \<Rightarrow> u64" where
  "unigram_start cfg w = snd (snd (unigram_value (unigram_layer cfg) w))"

definition find_ngram_ref :: "lm_config \<Rightarrow> u64 list \<Rightarrow> cfloat \<times> cfloat list" where
  "find_ngram_ref cfg words =
     (let w = unat (hd words); (p, bo, l) = unigram_value (unigram_layer cfg) w
      in descend_ref cfg (tl words) 2 l (unigram_start cfg (Suc w)) p [bo])"

subsection \<open>Well-formed models\<close>

text \<open>
  What a record range of layer \<open>k\<close> needs: its records exist, their words increase and are
  words of the model, their quantised values index the tables; in an inner layer the record
  after the last one exists too, and the child ranges are well-formed again. \<open>n\<close> counts the
  layers below, so the predicate is executable.
\<close>

definition table_ok :: "mem_section \<Rightarrow> medium_layer \<Rightarrow> bit_field \<Rightarrow> nat \<Rightarrow> bool" where
  "table_ok tab layer bf i \<longleftrightarrow> section_ok tab \<and>
     unat (bit_value (ml_bits layer) i bf) < unat (ms_size tab) div 4"

definition records_ok :: "lm_config \<Rightarrow> nat \<Rightarrow> nat \<Rightarrow> nat \<Rightarrow> bool" where
  "records_ok cfg k a b \<longleftrightarrow>
     (let layer = medium_layers cfg ! (k - 2); rec = ml_bits layer
      in k - 2 < length (medium_layers cfg) \<and> k - 2 < length (prob_quant_tables cfg) \<and>
         readable_bits rec \<and> field_ok rec (prob_field layer) \<and>
         b \<le> unat (ba_limit rec) \<and> b < 2 ^ 52 \<and>
         sorted_wrt (<) (map (bit_elem rec) [a..<b]) \<and>
         list_all (\<lambda>i. unat (bit_elem rec i) < 2 ^ 53 \<and>
           table_ok (prob_quant_tables cfg ! (k - 2)) layer (prob_field layer) i) [a..<b])"

primrec range_ok :: "lm_config \<Rightarrow> nat \<Rightarrow> nat \<Rightarrow> u64 \<Rightarrow> u64 \<Rightarrow> bool" where
  "range_ok cfg 0 k l r = True"
| "range_ok cfg (Suc n) k l r =
     (r \<le> l \<or> records_ok cfg k (unat l) (unat r) \<and>
        (n = 0 \<or>
           (let layer = medium_layers cfg ! (k - 2)
            in inner_layer_ok layer \<and> unat r < unat (ba_limit (ml_bits layer)) \<and>
               k - 2 < length (backoff_quant_tables cfg) \<and>
               list_all (\<lambda>i. table_ok (backoff_quant_tables cfg ! (k - 2)) layer (backoff_field layer) i \<and>
                 range_ok cfg n (k + 1) (child_start layer i) (child_start layer (Suc i)))
                 [unat l..<unat r])))"

definition lm_ok :: "lm_config \<Rightarrow> bool" where
  "lm_ok cfg \<longleftrightarrow> 2 \<le> lm_order cfg \<and> ngram_counts cfg \<noteq> [] \<and> section_ok (unigram_layer cfg) \<and>
     0 < unat (ngram_counts cfg ! 0) \<and> unat (ngram_counts cfg ! 0) < 2 ^ 53 \<and>
     unat (ngram_counts cfg ! 0) < unat (ms_size (unigram_layer cfg)) div 16 \<and>
     list_all (\<lambda>w. range_ok cfg (lm_order cfg - 1) 2 (unigram_start cfg w) (unigram_start cfg (Suc w)))
       [0..<unat (ngram_counts cfg ! 0)]"

subsection \<open>The descent equals the reference\<close>

lemma float_at_in:
  assumes "section_ok m" "unat q < unat (ms_size m) div 4"
  shows "float_at m q = Inr (quant_value m q)"
  using assms by (simp add: float_at_def array_at_cases quant_value_def)

lemma unigram_at_in:
  assumes "section_ok m" "unat w < unat (ms_size m) div 16"
  shows "unigram_at m w = Inr (unigram_value m (unat w))"
  using assms by (simp add: unigram_at_def array_at_cases unigram_value_def Let_def)

lemma find_unique_position:
  assumes "i < b" "a \<le> i" "f i = w" "sorted_wrt (<) (map (f :: nat \<Rightarrow> 'b::linorder) [a..<b])"
  shows "List.find (\<lambda>i. f i = w) [a..<b] = Some i"
proof -
  have inj: "j = i" if "j < b" "a \<le> j" "f j = w" for j
    using assms that distinct_map [of f "[a..<b]"] strict_sorted_iff [of "map f [a..<b]"]
    by (auto simp: inj_on_def)
  obtain j where "List.find (\<lambda>i. f i = w) [a..<b] = Some j"
    using assms(1-3) by (cases "List.find (\<lambda>i. f i = w) [a..<b]") (auto simp: find_None_iff)
  with inj [of j] show ?thesis by (auto simp: find_Some_iff)
qed

lemma find_record_secant:
  assumes "records_ok cfg k (unat l) (unat r)" "l \<le> r" "layer = medium_layers cfg ! (k - 2)"
    and "unat w < 2 ^ 53" "unat w \<le> unat count" "unat count < 2 ^ 53" "0 < unat count"
  shows "\<exists>i. secant_search (bit_at (ml_bits layer)) l r 0 count (- 1) w = Some (Inr i) \<and>
    (case find_record layer (unat l) (unat r) w of
       None \<Rightarrow> i = - 1 | Some j \<Rightarrow> i \<noteq> - 1 \<and> unat i = j \<and> unat l \<le> j \<and> j < unat r)"
proof -
  let ?b = "ml_bits layer"
  have ok: "readable_bits ?b" "unat r \<le> unat (ba_limit ?b)" "unat r < 2 ^ 52"
    and srt: "sorted_wrt (<) (map (bit_elem ?b) [unat l..<unat r])"
    and val: "\<And>i. unat l \<le> i \<Longrightarrow> i < unat r \<Longrightarrow> unat (bit_elem ?b i) < 2 ^ 53"
    using assms(1,3) by (auto simp: records_ok_def Let_def list_all_iff)
  have "sorted (map (bit_elem ?b) [unat l..<unat r])" using srt by (simp add: strict_sorted_iff)
  then have sr: "bits.sorted_range ?b (unat l) (unat r)"
    by (auto simp: bits.sorted_range_def intro: sorted_map_upt)
  have cnt: "u2d 0 < u2d count" using assms(6,7) by (simp add: u2d_exact del: of_nat_unat)
  have le: "unat l \<le> unat r" using assms(2) by (simp add: word_le_nat_alt)
  have "\<exists>i. secant_search (bit_at ?b) l r 0 count (- 1) w = Some (Inr i) \<and>
    (if bits.member_range ?b (unat l) (unat r) w
     then unat l \<le> unat i \<and> unat i < unat r \<and> bit_elem ?b (unat i) = w else i = - 1)"
    by (rule bits.secant_search_exact) (use ok sr cnt le val assms in auto)
  then obtain i where i: "secant_search (bit_at ?b) l r 0 count (- 1) w = Some (Inr i)"
    and c: "if bits.member_range ?b (unat l) (unat r) w
     then unat l \<le> unat i \<and> unat i < unat r \<and> bit_elem ?b (unat i) = w else i = - 1" by blast
  show ?thesis
  proof (cases "bits.member_range ?b (unat l) (unat r) w")
    case True
    with c have m: "unat l \<le> unat i" "unat i < unat r" "bit_elem ?b (unat i) = w" by simp_all
    then have "find_record layer (unat l) (unat r) w = Some (unat i)"
      using srt unfolding find_record_def by (intro find_unique_position)
    moreover have "i \<noteq> - 1"
      using m(2) ok(3) by (auto simp: unsigned_minus_1_eq_mask mask_eq_exp_minus_1)
    ultimately show ?thesis using i m by simp
  next
    case False
    then have "find_record layer (unat l) (unat r) w = None"
      by (auto simp: find_record_def bits.member_range_def find_None_iff)
    with False i c show ?thesis by simp
  qed
qed

lemma range_ok_records:
  "range_ok cfg (Suc n) k l r \<Longrightarrow> l < r \<Longrightarrow> records_ok cfg k (unat l) (unat r)"
  by auto

lemma range_ok_inner:
  assumes "range_ok cfg (Suc n) k l r" "l < r" "n \<noteq> 0" "layer = medium_layers cfg ! (k - 2)"
    and "unat l \<le> i" "i < unat r"
  shows "inner_layer_ok layer" "unat r < unat (ba_limit (ml_bits layer))"
    "k - 2 < length (backoff_quant_tables cfg)"
    "table_ok (backoff_quant_tables cfg ! (k - 2)) layer (backoff_field layer) i"
    "range_ok cfg n (k + 1) (child_start layer i) (child_start layer (Suc i))"
proof -
  have "\<not> r \<le> l" using assms(2) by simp
  with assms show "inner_layer_ok layer" "unat r < unat (ba_limit (ml_bits layer))"
    "k - 2 < length (backoff_quant_tables cfg)"
    "table_ok (backoff_quant_tables cfg ! (k - 2)) layer (backoff_field layer) i"
    "range_ok cfg n (k + 1) (child_start layer i) (child_start layer (Suc i))"
    by (simp_all add: Let_def list_all_iff)
qed

lemma ngram_step_ref:
  assumes "range_ok cfg (Suc n) k l r" "n + k = lm_order cfg" "2 \<le> k" "l < r"
    and "ngram_counts cfg \<noteq> []" "c = ngram_counts cfg ! 0" "unat c < 2 ^ 53"
    and "k - 1 < length words" "unat (words ! (k - 1)) < unat c"
    and "layer = medium_layers cfg ! (k - 2)"
  shows "ngram_step cfg words k l r p bs = Some (Inr
    (case find_record layer (unat l) (unat r) (words ! (k - 1)) of
       None \<Rightarrow> Stop p bs
     | Some i \<Rightarrow>
         (let p' = quant_value (prob_quant_tables cfg ! (k - 2)) (bit_value (ml_bits layer) i (prob_field layer))
          in if n = 0 then Stop p' (bs @ [Fin 0])
             else Next (child_start layer i) (child_start layer (Suc i)) p'
                    (bs @ [quant_value (backoff_quant_tables cfg ! (k - 2))
                             (bit_value (ml_bits layer) i (backoff_field layer))]))))"
proof -
  let ?w = "words ! (k - 1)" and ?b = "ml_bits layer"
  have rec: "records_ok cfg k (unat l) (unat r)"
    using assms(1,4) by (rule range_ok_records)
  then have len: "k - 2 < length (medium_layers cfg)" "k - 2 < length (prob_quant_tables cfg)"
    and rb: "readable_bits ?b" "field_ok ?b (prob_field layer)" "unat r \<le> unat (ba_limit ?b)"
    and tab: "\<And>i. unat l \<le> i \<Longrightarrow> i < unat r \<Longrightarrow> table_ok (prob_quant_tables cfg ! (k - 2)) layer (prob_field layer) i"
    using assms(10) by (auto simp: records_ok_def Let_def list_all_iff)
  have vc: "vec_at (ngram_counts cfg) 0 = Inr c" using assms(5,6) by simp
  have pre: "l \<le> r" "unat ?w < 2 ^ 53" "unat ?w \<le> unat c" "0 < unat c"
    using assms(4,7,9) by (simp_all add: less_imp_le)
  from find_record_secant [OF rec pre(1) assms(10) pre(2,3) assms(7) pre(4)]
  obtain i where i: "secant_search (bit_at ?b) l r 0 c (- 1) ?w = Some (Inr i)"
    and c: "case find_record layer (unat l) (unat r) ?w of
       None \<Rightarrow> i = - 1 | Some j \<Rightarrow> i \<noteq> - 1 \<and> unat i = j \<and> unat l \<le> j \<and> j < unat r"
    by blast
  show ?thesis
  proof (cases "find_record layer (unat l) (unat r) ?w")
    case None
    with c i len vc assms(8,10) show ?thesis by (simp add: ngram_step_def)
  next
    case (Some j)
    with c have j: "i \<noteq> - 1" "j = unat i" "unat l \<le> unat i" "unat i < unat r" by auto
    have g: "bit_get ?b i f = Inr (bit_value ?b (unat i) f)" if "field_ok ?b f" for f
      using bit_get_in [OF _ that, of i] rb j(4) by (simp add: readable_bits_def bit_value_def)
    have fl: "float_at t (bit_value ?b (unat i) f) = Inr (quant_value t (bit_value ?b (unat i) f))"
      if "table_ok t layer f (unat i)" for t f
      using that by (intro float_at_in) (simp_all add: table_ok_def)
    note step = i j(1) len vc assms(8,10) g [OF rb(2)] fl [OF tab [OF j(3,4)]]
    show ?thesis
    proof (cases "n = 0")
      case True
      with step Some j(2) assms(2) show ?thesis by (simp add: ngram_step_def Let_def)
    next
      case False
      note inner = range_ok_inner [OF assms(1,4) False assms(10) j(3,4)]
      from inner(1) have "field_ok ?b (backoff_field layer)" by (simp add: inner_layer_ok_def)
      moreover have "child_range layer i = Some (Inr (child_start layer (unat i), child_start layer (Suc (unat i))))"
        using inner rb j(4) by (intro child_range_spec) (simp_all add: readable_bits_def)
      ultimately show ?thesis
        using step False Some j(2) assms(2) inner(3) g fl [OF inner(4)]
        by (simp add: ngram_step_def Let_def)
    qed
  qed
qed

lemma find_ngram_loop_ref:
  assumes "range_ok cfg n k l r" "n + k = Suc (lm_order cfg)" "2 \<le> k"
    and "ngram_counts cfg \<noteq> []" "c = ngram_counts cfg ! 0" "unat c < 2 ^ 53"
    and "\<forall>w \<in> set words. unat w < unat c"
  shows "find_ngram_loop cfg words k l r p bs = Some (Inr (descend_ref cfg (drop (k - 1) words) k l r p bs))"
  using assms(1-3)
proof (induction n arbitrary: k l r p bs)
  case 0
  then show ?case
    by (subst find_ngram_loop.simps) (cases "drop (k - 1) words"; simp)
next
  case (Suc n)
  show ?case
  proof (cases "k - 1 < length words \<and> l < r")
    case False
    then have "drop (k - 1) words = [] \<or> [unat l..<unat r] = []"
      by (auto simp: word_less_nat_alt)
    moreover have "\<not> (k < length words + 1 \<and> l < r)" using False Suc.prems(3) by auto
    ultimately show ?thesis
      by (subst find_ngram_loop.simps, cases "drop (k - 1) words") (auto simp: find_record_def Let_def)
  next
    case True
    let ?layer = "medium_layers cfg ! (k - 2)" and ?w = "words ! (k - 1)"
    have d: "drop (k - 1) words = ?w # drop k words"
      using True Suc.prems(3) Cons_nth_drop_Suc [of "k - 1" words] by simp
    have st: "ngram_step cfg words k l r p bs = Some (Inr
      (case find_record ?layer (unat l) (unat r) ?w of
         None \<Rightarrow> Stop p bs
       | Some i \<Rightarrow>
         (let p' = quant_value (prob_quant_tables cfg ! (k - 2)) (bit_value (ml_bits ?layer) i (prob_field ?layer))
          in if n = 0 then Stop p' (bs @ [Fin 0])
             else Next (child_start ?layer i) (child_start ?layer (Suc i)) p'
                    (bs @ [quant_value (backoff_quant_tables cfg ! (k - 2))
                             (bit_value (ml_bits ?layer) i (backoff_field ?layer))]))))"
      using Suc.prems True assms(4-7) by (intro ngram_step_ref) auto
    have k: "k \<le> lm_order cfg" "k < length words + 1" using Suc.prems(2,3) True by auto
    show ?thesis
    proof (cases "find_record ?layer (unat l) (unat r) ?w")
      case None
      with st k True d show ?thesis by (subst find_ngram_loop.simps) (simp add: Let_def)
    next
      case (Some i)
      then have i: "i \<in> set [unat l..<unat r]"
        by (auto simp: find_record_def find_Some_iff)
      show ?thesis
      proof (cases "n = 0")
        case True
        with Some st k \<open>k - 1 < length words \<and> l < r\<close> d Suc.prems(2) show ?thesis
          by (subst find_ngram_loop.simps) (simp add: Let_def)
      next
        case False
        then have "range_ok cfg n (k + 1) (child_start ?layer i) (child_start ?layer (Suc i))"
          using Suc.prems(1) i \<open>k - 1 < length words \<and> l < r\<close> by (intro range_ok_inner) auto
        then have "find_ngram_loop cfg words (k + 1) (child_start ?layer i) (child_start ?layer (Suc i)) p' bs' =
          Some (Inr (descend_ref cfg (drop k words) (k + 1) (child_start ?layer i) (child_start ?layer (Suc i)) p' bs'))"
          for p' bs' using Suc.IH [of "k + 1"] Suc.prems(2,3) by simp
        with False Some st k \<open>k - 1 < length words \<and> l < r\<close> d Suc.prems(2) show ?thesis
          by (subst find_ngram_loop.simps) (simp add: Let_def)
      qed
    qed
  qed
qed

lemma find_ngram_eq_ref:
  assumes "lm_ok cfg" "words \<noteq> []" "\<forall>w \<in> set words. unat w < unat (ngram_counts cfg ! 0)"
  shows "find_ngram cfg words = Some (Inr (find_ngram_ref cfg words))"
proof -
  let ?c = "ngram_counts cfg ! 0" and ?m = "unigram_layer cfg" and ?w = "hd words"
  have w: "unat ?w < unat ?c" using assms(2,3) by simp
  then have w1: "unat (?w + 1) = Suc (unat ?w)"
    using unat_u64_less [of ?c] by (intro unat_Suc_no_wrap) (simp del: unat_u64_less)
  have u: "unigram_at ?m ?w = Inr (unigram_value ?m (unat ?w))"
    "unigram_at ?m (?w + 1) = Inr (unigram_value ?m (Suc (unat ?w)))"
    using assms(1) w w1 unigram_at_in [of ?m ?w] unigram_at_in [of ?m "?w + 1"]
    by (auto simp: lm_ok_def)
  obtain p bo l p1 bo1 r where v: "unigram_value ?m (unat ?w) = (p, bo, l)"
    "unigram_value ?m (Suc (unat ?w)) = (p1, bo1, r)" by (metis prod.exhaust)
  have "range_ok cfg (lm_order cfg - 1) 2 (unigram_start cfg (unat ?w)) (unigram_start cfg (Suc (unat ?w)))"
    using assms(1) w by (simp add: lm_ok_def list_all_iff)
  then have "range_ok cfg (lm_order cfg - 1) 2 l r" using v by (simp add: unigram_start_def)
  then have "find_ngram_loop cfg words 2 l r p [bo] =
      Some (Inr (descend_ref cfg (drop (2 - 1) words) 2 l r p [bo]))"
    using assms by (intro find_ngram_loop_ref) (auto simp: lm_ok_def)
  moreover have "vec_at words 0 = Inr ?w" using assms(2) by (simp add: hd_conv_nth)
  ultimately show ?thesis
    using u v by (simp add: find_ngram_def find_ngram_ref_def unigram_start_def drop_Suc)
qed

lemma descend_ref_length:
  assumes "length bs = k - 1" "2 \<le> k" "k \<le> Suc (lm_order cfg)"
  shows "length bs \<le> length (snd (descend_ref cfg ws k l r p bs)) \<and>
    length (snd (descend_ref cfg ws k l r p bs)) \<le> min (lm_order cfg) (length bs + length ws)"
  using assms
proof (induction cfg ws k l r p bs rule: descend_ref.induct)
  case (1 cfg k l r p bs)
  then show ?case by simp
next
  case (2 cfg w ws k l r p bs)
  let ?layer = "medium_layers cfg ! (k - 2)"
  show ?case
  proof (cases "lm_order cfg < k \<or> find_record ?layer (unat l) (unat r) w = None")
    case True
    with "2.prems" show ?thesis by (auto simp: Let_def)
  next
    case False
    then obtain i where i: "find_record ?layer (unat l) (unat r) w = Some i" and k: "k \<le> lm_order cfg" by auto
    have len: "length (bs @ [x]) = k + 1 - 1" "2 \<le> k + 1" for x :: cfloat using "2.prems" by simp_all
    show ?thesis
      using "2.IH" [OF _ refl i refl _ len] k i "2.prems"
      by (cases "k = lm_order cfg") (auto simp: Let_def intro: le_trans [OF diff_le_self])
  qed
qed

lemma find_ngram_ref_length:
  assumes "2 \<le> lm_order cfg" "words \<noteq> []"
  shows "1 \<le> length (snd (find_ngram_ref cfg words)) \<and>
    length (snd (find_ngram_ref cfg words)) \<le> min (lm_order cfg) (length words)"
proof -
  obtain p bo l where u: "unigram_value (unigram_layer cfg) (unat (hd words)) = (p, bo, l)"
    by (metis prod.exhaust)
  show ?thesis
    using descend_ref_length [of "[bo]" 2 cfg "tl words" l "unigram_start cfg (Suc (unat (hd words)))" p]
      assms u by (cases words) (simp_all add: find_ngram_ref_def Let_def)
qed

section \<open>Properties\<close>

definition tiny_leaves :: medium_layer where
  "tiny_leaves = \<lparr>bhiksha_total_bits = 0, bhiksha_low_bits = 0, layer_backoff_bits = 0,
     bhiksha_highs_count = 0, bhiksha_highs = empty_section,
     ml_bits = mem_section.extend (section_of_memory [4, 0, 0, 0, 0, 0, 0, 0, 0])
       \<lparr>ba_stride = 3, ba_field = \<lparr>bf_offset = 0, bf_mask = 3\<rparr>, ba_limit = 2\<rparr>,
     word_field = \<lparr>bf_offset = 0, bf_mask = 3\<rparr>, backoff_field = \<lparr>bf_offset = 2, bf_mask = 0\<rparr>,
     prob_field = \<lparr>bf_offset = 2, bf_mask = 1\<rparr>, bhiksha_low_field = \<lparr>bf_offset = 3, bf_mask = 0\<rparr>\<rparr>"

definition tiny_lm :: lm_config where
  "tiny_lm = \<lparr>lm_order = 2, ngram_counts = [2, 1], prob_bits = 1, backoff_bits = 0,
     prob_quant_tables = [section_of_memory [0, 0, 0, 0, 0, 0, 128, 190]], backoff_quant_tables = [],
     unigram_layer = section_of_memory
       [0, 0, 128, 191, 0, 0, 0, 191, 0, 0, 0, 0, 0, 0, 0, 0,
        0, 0, 0, 192, 0, 0, 0, 0, 0, 0, 0, 0, 0, 0, 0, 0,
        0, 0, 0, 0, 0, 0, 0, 0, 1, 0, 0, 0, 0, 0, 0, 0],
     medium_layers = [tiny_leaves]\<rparr>"

lemma tiny_lm_ok: "lm_ok tiny_lm"
  by code_simp

text \<open>
  In a well-formed model the lookup of an n-gram, with its interpolation searches over
  packed bit arrays and its Bhiksha-compressed child ranges, returns without exception and
  gives the probability and the back-off weights that a plain descent with linear lookups gives.
\<close>

theorem find_ngram_refines:
  assumes "lm_ok cfg" "words \<noteq> []" "\<forall>w \<in> set words. unat w < unat (ngram_counts cfg ! 0)"
  shows "find_ngram cfg words = Some (Inr (find_ngram_ref cfg words))"
  using assms by (rule find_ngram_eq_ref)

theorem find_ngram_refines_witness:
  "find_ngram tiny_lm [1, 0] = Some (Inr (Fin (- 1 / 4), [Fin 0, Fin 0]))"
proof -
  have "find_ngram_ref tiny_lm [1, 0] = (Fin (- 1 / 4), [Fin 0, Fin 0])" by code_simp
  moreover have "\<forall>w \<in> set [1, 0]. unat w < unat (ngram_counts tiny_lm ! 0)"
    by (simp add: tiny_lm_def)
  ultimately show ?thesis
    using find_ngram_refines [OF tiny_lm_ok, of "[1, 0]"] by simp
qed

text \<open>
  C25: \<^verbatim>\<open>bhiksha_lookup\<close> returns the pair its comment promises: the highest position whose entry is
  at most \<^verbatim>\<open>index\<close> and the highest whose entry is at most \<^verbatim>\<open>index + 1\<close>, for every non-decreasing
  array that starts with 0, in which entries may repeat.
\<close>

theorem bhiksha_lookup_correct:
  assumes "highs_ok highs count" "unat index < 2 ^ 64 - 1"
  shows "\<exists>l r. bhiksha_lookup highs count index = Some (Inr (l, r)) \<and>
    unat l < unat count \<and> unat r < unat count \<and>
    (\<forall>i < unat count. section_u64 highs i \<le> index \<longleftrightarrow> i \<le> unat l) \<and>
    (\<forall>i < unat count. section_u64 highs i \<le> index + 1 \<longleftrightarrow> i \<le> unat r)"
  using assms by (rule bhiksha_lookup_spec)

theorem bhiksha_lookup_correct_witness:
  "\<exists>l r. bhiksha_lookup (section_of_memory ([0, 0, 0, 0, 0, 0, 0, 0] @ [3, 0, 0, 0, 0, 0, 0, 0])) 2 2 =
     Some (Inr (l, r)) \<and> unat l = 0 \<and> unat r = 1"
proof -
  let ?h = "section_of_memory ([0, 0, 0, 0, 0, 0, 0, 0] @ [3, 0, 0, 0, 0, 0, 0, 0])"
  have h: "highs_ok ?h 2" "section_u64 ?h 1 = 3" by code_simp+
  obtain l r where lr: "bhiksha_lookup ?h 2 2 = Some (Inr (l, r))" "unat l < 2" "unat r < 2"
    "\<forall>i < 2. section_u64 ?h i \<le> 2 \<longleftrightarrow> i \<le> unat l" "\<forall>i < 2. section_u64 ?h i \<le> 3 \<longleftrightarrow> i \<le> unat r"
    using bhiksha_lookup_correct [OF h(1), of 2] by auto
  from lr(4) h(2) have "\<not> 1 \<le> unat l" by (drule_tac spec [of _ 1]) simp
  moreover from lr(5) h(2) have "1 \<le> unat r" by (drule_tac spec [of _ 1]) simp
  ultimately have "unat l = 0" "unat r = 1" using lr(3) by simp_all
  with lr(1) show ?thesis by blast
qed

text \<open>States the scorer can be in.\<close>

definition state_ok :: "lm_config \<Rightarrow> lm_state \<Rightarrow> bool" where
  "state_ok cfg st \<longleftrightarrow> length (context_words st) \<le> lm_order cfg - 1 \<and>
     length (backoffs st) \<le> lm_order cfg \<and>
     (\<forall>w \<in> set (context_words st). unat w < unat (ngram_counts cfg ! 0))"

lemma log10_p_cond_step:
  assumes "lm_ok cfg" "state_ok cfg st" "unat w < unat (ngram_counts cfg ! 0)"
    and "find_ngram_ref cfg (w # context_words st) = (p, bos)"
  shows "\<exists>st'. log10_p_cond cfg w st = Some (Inr (foldl f32_add p (drop (length bos - 1) (backoffs st)), st')) \<and>
    1 \<le> length bos \<and> backoffs st' = bos \<and>
    context_words st' = take (lm_order cfg - 1) (w # context_words st) \<and> state_ok cfg st'"
proof -
  let ?ws = "w # context_words st"
  have ord: "2 \<le> lm_order cfg" using assms(1) by (simp add: lm_ok_def)
  have tk: "take (lm_order cfg - 1) (context_words st) = context_words st"
    using assms(2) by (simp add: state_ok_def)
  have "find_ngram cfg ?ws = Some (Inr (p, bos))"
    using find_ngram_eq_ref [OF assms(1), of ?ws] assms(2-4) by (simp add: state_ok_def)
  then have r: "log10_p_cond cfg w st = Some (Inr (add_backoffs (backoffs st) (length bos) p,
      \<lparr>backoffs = bos, context_words = take (lm_order cfg - 1) ?ws\<rparr>))"
    using tk by (simp add: log10_p_cond_def Let_def)
  have len: "1 \<le> length bos" "length bos \<le> lm_order cfg"
    using find_ngram_ref_length [OF ord, of ?ws] assms(4) by simp_all
  have "\<forall>x \<in> set (take (lm_order cfg - 1) ?ws). unat x < unat (ngram_counts cfg ! 0)"
    using assms(2,3) set_take_subset [of "lm_order cfg - 1" ?ws] by (auto simp: state_ok_def)
  with r len show ?thesis by (simp add: add_backoffs_def state_ok_def)
qed

text \<open>
  C7: Scoring a word extends the match by Katz back-off: the result is the probability of the
  longest stored n-gram ending in the word, plus the back-off weights of exactly the context
  lengths the match fell short of. The new state remembers the weights of the match and at
  most \<^verbatim>\<open>order - 1\<close> words, newest first, so scoring can go on from it.
\<close>

theorem log10_p_cond_backoff:
  assumes "lm_ok cfg" "state_ok cfg st" "unat w < unat (ngram_counts cfg ! 0)"
    and "find_ngram_ref cfg (w # context_words st) = (p, bos)"
  shows "\<exists>st'. log10_p_cond cfg w st = Some (Inr (foldl f32_add p (drop (length bos - 1) (backoffs st)), st')) \<and>
    1 \<le> length bos \<and> backoffs st' = bos \<and>
    context_words st' = take (lm_order cfg - 1) (w # context_words st) \<and> state_ok cfg st'"
  using assms by (rule log10_p_cond_step)

theorem log10_p_cond_backoff_witness:
  "\<exists>st'. log10_p_cond tiny_lm 1 \<lparr>backoffs = [Fin (- 1 / 2)], context_words = [0]\<rparr> =
     Some (Inr (Fin (- 1 / 4), st')) \<and> context_words st' = [1]"
proof -
  let ?st = "\<lparr>backoffs = [Fin (- 1 / 2)], context_words = [0]\<rparr>"
  have "find_ngram_ref tiny_lm (1 # context_words ?st) = (Fin (- 1 / 4), [Fin 0, Fin 0])" by code_simp
  moreover have "state_ok tiny_lm ?st" "unat (1 :: u64) < unat (ngram_counts tiny_lm ! 0)"
    by (simp_all add: state_ok_def tiny_lm_def)
  ultimately show ?thesis
    using log10_p_cond_backoff [OF tiny_lm_ok, of ?st 1] by (fastforce simp: tiny_lm_def)
qed

end
