(* ===== verification/KenlmLoader.thy ===== *)
theory KenlmLoader
  imports LanguageModel
begin

unbundle bit_operations_syntax

text \<open>
  The loader of KenLM binary files, \<^verbatim>\<open>yoklm/kenlm_v5_loader.cpp\<close>: it cuts the bytes of a file
  into the sections of a language model and a vocabulary. All sizes are computed in 64-bit
  unsigned arithmetic, which wraps. A loader is the pair of configurations it fills and the
  flag the header sets; a \<^verbatim>\<open>_parse_*\<close> method takes the loader and a section and returns both,
  or the exception it throws. The debug prints are left out.
\<close>

section \<open>Format\<close>

record kenlm_loader =
  kl_lm :: lm_config
  kl_vocabulary :: vocabulary_config
  with_vocabulary_strings :: bool

definition medium_layer_init :: medium_layer where
  "medium_layer_init = \<lparr>bhiksha_total_bits = 0, bhiksha_low_bits = 0, layer_backoff_bits = 0,
     bhiksha_highs_count = 0, bhiksha_highs = empty_section, ml_bits = bit_array_of empty_section,
     word_field = \<lparr>bf_offset = 0, bf_mask = 0\<rparr>, backoff_field = \<lparr>bf_offset = 0, bf_mask = 0\<rparr>,
     prob_field = \<lparr>bf_offset = 0, bf_mask = 0\<rparr>, bhiksha_low_field = \<lparr>bf_offset = 0, bf_mask = 0\<rparr>\<rparr>"

definition kenlm_loader_init :: kenlm_loader where
  "kenlm_loader_init = \<lparr>
     kl_lm = \<lparr>lm_order = 0, ngram_counts = [], prob_bits = 0, backoff_bits = 0, prob_quant_tables = [],
       backoff_quant_tables = [], unigram_layer = empty_section, medium_layers = []\<rparr>,
     kl_vocabulary = \<lparr>num_words = 0, word_hashes = empty_section, num_word_strings = 0,
       word_strings = empty_section\<rparr>,
     with_vocabulary_strings = False\<rparr>"

definition KENLM_V5_FORMAT_MAGIC_NUMBER :: "u8 list" where
  "KENLM_V5_FORMAT_MAGIC_NUMBER =
     bytes_of_string ''mmap lm http://kheafield.com/code format version 5'' @ [10] @ replicate 5 0"

lemma KENLM_V5_FORMAT_MAGIC_NUMBER_bytes [code]:
  "KENLM_V5_FORMAT_MAGIC_NUMBER = [109, 109, 97, 112, 32, 108, 109, 32, 104, 116, 116, 112, 58, 47, 47, 107, 104, 101, 97,
     102, 105, 101, 108, 100, 46, 99, 111, 109, 47, 99, 111, 100, 101, 32, 102, 111, 114, 109,
     97, 116, 32, 118, 101, 114, 115, 105, 111, 110, 32, 53, 10, 0, 0, 0, 0, 0]"
  unfolding KENLM_V5_FORMAT_MAGIC_NUMBER_def by code_simp

section \<open>Header and parameters\<close>

definition is_our_format :: "mem_section \<Rightarrow> bool" where
  "is_our_format m \<longleftrightarrow> \<not> ms_size m < 56 \<and> take 56 (section_bytes m) = KENLM_V5_FORMAT_MAGIC_NUMBER"

definition parse_header :: "mem_section \<Rightarrow> mem_section result" where
  "parse_header m =
     throw_if (\<not> is_our_format m) Runtime_error
       (rbind (at0_and_drop_prefix 88 m) (\<lambda>(h, m').
          throw_if (f32_of_bits (struct_field h 56 4) \<noteq> Fin 0) Runtime_error
         (throw_if (f32_of_bits (struct_field h 60 4) \<noteq> Fin 1) Runtime_error
         (throw_if (f32_of_bits (struct_field h 64 4) \<noteq> Fin (- 1 / 2)) Runtime_error
         (throw_if (struct_field h 68 4 \<noteq> 1) Runtime_error
         (throw_if (struct_field h 72 4 \<noteq> 4294967295) Runtime_error
         (throw_if (struct_field h 80 8 \<noteq> 1) Runtime_error (Inr m'))))))))"

fun read_counts :: "mem_section \<Rightarrow> nat \<Rightarrow> u64 \<Rightarrow> u64 list result" where
  "read_counts m 0 offset = Inr []"
| "read_counts m (Suc n) offset =
     rbind (at_offset 8 m offset) (\<lambda>c. rbind (read_counts m n (offset + 8)) (\<lambda>cs. Inr (of_nat c # cs)))"

definition parse_lm_config :: "kenlm_loader \<Rightarrow> mem_section \<Rightarrow> (kenlm_loader \<times> mem_section) result" where
  "parse_lm_config ld m =
     rbind (at0_and_drop_prefix 20 m) (\<lambda>(h, m').
       throw_if (struct_field h 8 4 \<noteq> 5 \<or> struct_field h 16 4 \<noteq> 1) Runtime_error
       (let order = struct_field h 0 1
        in throw_if (order < 2) Runtime_error
             (rbind (read_counts m' order 0) (\<lambda>counts.
                rbind (vec_at counts 0) (\<lambda>c0.
                throw_if (c0 = 0) Runtime_error
                  (rbind (drop_prefix m' (of_nat order * 8 + 4)) (\<lambda>m''.
                     Inr (ld\<lparr>with_vocabulary_strings := struct_field h 12 1 \<noteq> 0,
                             kl_lm := (kl_lm ld)\<lparr>lm_order := order, ngram_counts := counts\<rparr>\<rparr>, m''))))))))"

definition parse_vocabulary :: "kenlm_loader \<Rightarrow> mem_section \<Rightarrow> (kenlm_loader \<times> mem_section) result" where
  "parse_vocabulary ld m =
     rbind (vec_at (ngram_counts (kl_lm ld)) 0) (\<lambda>num_words_to_skip.
     rbind (at0_and_drop_prefix 8 m) (\<lambda>(n, m').
       (let nwords = of_nat (struct_field n 0 8) + 1
        in throw_if (nwords > num_words_to_skip) Runtime_error
             (let size_to_skip = 8 * num_words_to_skip; size = 8 * (nwords - 1)
              in throw_if (size > size_to_skip) Runtime_error
                   (rbind (get_and_drop_prefix m' size_to_skip) (\<lambda>(p, m'').
                    rbind (prefix_section p size) (\<lambda>hashes.
                      Inr (ld\<lparr>kl_vocabulary := (kl_vocabulary ld)\<lparr>num_words := nwords, word_hashes := hashes\<rparr>\<rparr>, m''))))))))"

section \<open>Bit counts\<close>

function required_bits_loop :: "int \<Rightarrow> u64 \<Rightarrow> int" where
  "required_bits_loop bits value = (if value \<noteq> 0 then required_bits_loop (bits + 1) (drop_bit 1 value) else bits)"
  by pat_completeness auto
termination
proof (relation "measure (\<lambda>(bits, value). unat value)")
  fix bits :: int and v :: u64
  assume "v \<noteq> 0"
  then have "0 < unat v" by (simp add: unat_gt_0)
  then show "((bits + 1, drop_bit 1 v), bits, v) \<in> measure (\<lambda>(bits, value). unat value)"
    by (simp add: unat_drop_bit_div)
qed simp

declare required_bits_loop.simps [simp del]

definition required_bits :: "u64 \<Rightarrow> int" where
  "required_bits value = required_bits_loop 0 value"

text \<open>
  The loop over the candidates: \<^verbatim>\<open>n\<close> more of them, the next is \<^verbatim>\<open>low_bits\<close>. The size is computed
  unsigned and compared as a signed 64-bit number.
\<close>

definition bhiksha_size :: "u64 \<Rightarrow> u64 \<Rightarrow> int \<Rightarrow> int \<Rightarrow> u64 result" where
  "bhiksha_size max_index max_value total_bits low =
     rbind (shr_u64 max_value low) (\<lambda>h. Inr (h * 64 - max_index * word_of_int (total_bits - low)))"

fun low_bits_loop :: "u64 \<Rightarrow> u64 \<Rightarrow> int \<Rightarrow> nat \<Rightarrow> int \<Rightarrow> int \<Rightarrow> int \<Rightarrow> int result" where
  "low_bits_loop max_index max_value total_bits 0 low_bits best_low best_size = Inr best_low"
| "low_bits_loop max_index max_value total_bits (Suc n) low_bits best_low best_size =
     rbind (bhiksha_size max_index max_value total_bits low_bits) (\<lambda>cur.
       if best_low < 0 \<or> best_size \<ge> sint cur
       then low_bits_loop max_index max_value total_bits n (low_bits + 1) low_bits (sint cur)
       else low_bits_loop max_index max_value total_bits n (low_bits + 1) best_low best_size)"

definition find_bhiksha_low_bits :: "u64 \<Rightarrow> u64 \<Rightarrow> int \<Rightarrow> int \<Rightarrow> int result" where
  "find_bhiksha_low_bits max_index max_value total_bits max_high =
     throw_if (max_high < 0) Logic_error
       (let lo = max (total_bits - max_high) 0
        in low_bits_loop max_index max_value total_bits (nat (total_bits - lo + 1)) lo (- 1) 0)"

definition make_bitmask :: "int \<Rightarrow> u64 result" where
  "make_bitmask bits = rbind (shl_u64 1 bits) (\<lambda>x. Inr (x - 1))"

section \<open>Layers\<close>

definition parse_bhiksha_highs ::
  "mem_section \<Rightarrow> medium_layer \<Rightarrow> u64 \<Rightarrow> u64 \<Rightarrow> (medium_layer \<times> mem_section) result" where
  "parse_bhiksha_highs m layer num_entries max_value =
     rbind (at0_and_drop_prefix 8 m) (\<lambda>(h, m').
       throw_if (struct_field h 0 1 \<noteq> 0) Runtime_error
       (let total_bits = required_bits max_value
        in rbind (find_bhiksha_low_bits num_entries max_value total_bits (int (struct_field h 1 1))) (\<lambda>low.
           rbind (shr_u64 max_value low) (\<lambda>high.
             (let count = high + 1; size = 8 * count
              in rbind (get_and_drop_prefix m' (size + 7)) (\<lambda>(unaligned, m'').
                 rbind (sub_section unaligned (word_of_int (- base_offset unaligned) AND 7) size) (\<lambda>highs.
                 rbind (if count = 0 then Inr 0 else array_u64 highs 0) (\<lambda>_.
                   Inr (layer\<lparr>bhiksha_total_bits := total_bits, bhiksha_low_bits := low,
                              bhiksha_highs_count := count, bhiksha_highs := highs\<rparr>, m'')))))))))"

definition parse_bitarray ::
  "lm_config \<Rightarrow> mem_section \<Rightarrow> medium_layer \<Rightarrow> u64 \<Rightarrow> int \<Rightarrow> (medium_layer \<times> mem_section) result" where
  "parse_bitarray cfg m layer num_entries bbits =
     rbind (vec_at (ngram_counts cfg) 0) (\<lambda>c0.
       (let wbits = required_bits c0; pbits = prob_bits cfg; lbits = bhiksha_low_bits layer;
            per_record = wbits + bbits + pbits + lbits;
            size = (num_entries * word_of_int per_record + 7) div 8 + 8
        in rbind (make_bitmask wbits) (\<lambda>wmask.
           rbind (make_bitmask bbits) (\<lambda>bmask.
           rbind (make_bitmask pbits) (\<lambda>pmask.
           rbind (make_bitmask lbits) (\<lambda>lmask.
           rbind (get_and_drop_prefix m size) (\<lambda>(p, m').
           rbind (set_stride (bit_array_of p) per_record) (\<lambda>b.
             (let wf = \<lparr>bf_offset = 0, bf_mask = wmask\<rparr>
              in Inr (layer\<lparr>layer_backoff_bits := bbits, word_field := wf,
                   backoff_field := \<lparr>bf_offset = wbits, bf_mask = bmask\<rparr>,
                   prob_field := \<lparr>bf_offset = wbits + bbits, bf_mask = pmask\<rparr>,
                   bhiksha_low_field := \<lparr>bf_offset = wbits + bbits + pbits, bf_mask = lmask\<rparr>,
                   ml_bits := set_bit_field b wf\<rparr>, m'))))))))))"

text \<open>
  The tables of one layer after the other. Every entry of the resized vectors is assigned, so
  the vectors are built as lists; the number of layers left drives the recursion.
\<close>

fun quant_loop ::
  "int \<Rightarrow> int \<Rightarrow> nat \<Rightarrow> mem_section \<Rightarrow> (mem_section list \<times> mem_section list \<times> mem_section) result" where
  "quant_loop pbits bbits 0 m = Inr ([], [], m)"
| "quant_loop pbits bbits (Suc n) m =
     rbind (shl_u64 1 pbits) (\<lambda>pn.
     rbind (get_and_drop_prefix m (4 * pn)) (\<lambda>(p, m').
     rbind (shl_u64 1 bbits) (\<lambda>bn.
     rbind (get_and_drop_prefix m' (4 * bn)) (\<lambda>(b, m'').
     rbind (quant_loop pbits bbits n m'') (\<lambda>(ps, bs, m3). Inr (p # ps, b # bs, m3))))))"

definition parse_lm_quant :: "lm_config \<Rightarrow> mem_section \<Rightarrow> (lm_config \<times> mem_section) result" where
  "parse_lm_quant cfg m =
     rbind (quant_loop (prob_bits cfg) (backoff_bits cfg) (lm_order cfg - 2) m) (\<lambda>(ps, bs, m').
     rbind (shl_u64 1 (prob_bits cfg)) (\<lambda>pn.
     rbind (get_and_drop_prefix m' (4 * pn)) (\<lambda>(p, m'').
       Inr (cfg\<lparr>prob_quant_tables := ps @ [p], backoff_quant_tables := bs\<rparr>, m''))))"

definition parse_trie_unigram :: "lm_config \<Rightarrow> mem_section \<Rightarrow> (lm_config \<times> mem_section) result" where
  "parse_trie_unigram cfg m =
     rbind (vec_at (ngram_counts cfg) 0) (\<lambda>c0.
     rbind (get_and_drop_prefix m (16 * (c0 + 2))) (\<lambda>(p, m'). Inr (cfg\<lparr>unigram_layer := p\<rparr>, m')))"

fun medium_loop :: "lm_config \<Rightarrow> nat \<Rightarrow> nat \<Rightarrow> mem_section \<Rightarrow> (medium_layer list \<times> mem_section) result" where
  "medium_loop cfg 0 k m = Inr ([], m)"
| "medium_loop cfg (Suc n) k m =
     rbind (vec_at (ngram_counts cfg) (k - 1)) (\<lambda>c.
     rbind (vec_at (ngram_counts cfg) k) (\<lambda>c'.
     rbind (parse_bhiksha_highs m medium_layer_init (c + 1) c') (\<lambda>(layer, m').
     rbind (parse_bitarray cfg m' layer (c + 1) (backoff_bits cfg)) (\<lambda>(layer', m'').
     rbind (medium_loop cfg n (k + 1) m'') (\<lambda>(layers, m3). Inr (layer' # layers, m3))))))"

definition parse_trie_medium :: "lm_config \<Rightarrow> mem_section \<Rightarrow> (lm_config \<times> mem_section) result" where
  "parse_trie_medium cfg m =
     rbind (medium_loop cfg (lm_order cfg - 2) 2 m) (\<lambda>(layers, m'). Inr (cfg\<lparr>medium_layers := layers\<rparr>, m'))"

definition parse_trie_long :: "lm_config \<Rightarrow> mem_section \<Rightarrow> (lm_config \<times> mem_section) result" where
  "parse_trie_long cfg m =
     rbind (vec_at (ngram_counts cfg) (lm_order cfg - 1)) (\<lambda>c.
     rbind (parse_bitarray cfg m (medium_layer_init\<lparr>bhiksha_total_bits := 0, bhiksha_low_bits := 0,
              bhiksha_highs := empty_section\<rparr>) (c + 1) 0) (\<lambda>(layer, m').
       Inr (cfg\<lparr>medium_layers := medium_layers cfg @ [layer]\<rparr>, m')))"

definition parse_lm :: "lm_config \<Rightarrow> mem_section \<Rightarrow> (lm_config \<times> mem_section) result" where
  "parse_lm cfg m =
     rbind (at0_and_drop_prefix 8 m) (\<lambda>(h, m').
       throw_if (struct_field h 0 1 \<noteq> 2) Runtime_error
       (let pbits = int (struct_field h 1 1); bbits = int (struct_field h 2 1)
        in throw_if (pbits < 0 \<or> pbits > 24) Runtime_error
          (throw_if (bbits < 0 \<or> bbits > 24) Runtime_error
             (rbind (parse_lm_quant (cfg\<lparr>prob_bits := pbits, backoff_bits := bbits\<rparr>) m') (\<lambda>(cfg1, m1).
              rbind (parse_trie_unigram cfg1 m1) (\<lambda>(cfg2, m2).
              rbind (parse_trie_medium cfg2 m2) (\<lambda>(cfg3, m3). parse_trie_long cfg3 m3)))))))"

section \<open>Word strings, and the whole file\<close>

fun strings_end :: "u8 list \<Rightarrow> nat \<Rightarrow> nat \<Rightarrow> nat \<times> nat" where
  "strings_end [] words_left offset = (words_left, offset)"
| "strings_end (b # bs) words_left offset =
     (if words_left > 0 then strings_end bs (words_left - (if b = 0 then 1 else 0)) (offset + 1)
      else (words_left, offset))"

definition parse_vocabulary_strings ::
  "kenlm_loader \<Rightarrow> mem_section \<Rightarrow> (kenlm_loader \<times> mem_section) result" where
  "parse_vocabulary_strings ld m =
     (if \<not> with_vocabulary_strings ld
      then Inr (ld\<lparr>kl_vocabulary := (kl_vocabulary ld)\<lparr>num_word_strings := 0, word_strings := empty_section\<rparr>\<rparr>, m)
      else
        rbind (prefix_section m 6) (\<lambda>p.
          throw_if (section_bytes p \<noteq> bytes_of_string ''<unk>'' @ [0]) Runtime_error
          (let n = num_words (kl_vocabulary ld);
               (words_left, offset) = strings_end (section_bytes m) (unat n) 0
           in throw_if (words_left > 0) Runtime_error
                (rbind (get_and_drop_prefix m (of_nat offset)) (\<lambda>(q, m').
                   Inr (ld\<lparr>kl_vocabulary :=
                     (kl_vocabulary ld)\<lparr>num_word_strings := n, word_strings := q\<rparr>\<rparr>, m'))))))"

definition parse_file :: "kenlm_loader \<Rightarrow> mem_section \<Rightarrow> (kenlm_loader \<times> mem_section) result" where
  "parse_file ld m =
     rbind (parse_header (set_base_offset m 0)) (\<lambda>m1.
     rbind (parse_lm_config ld m1) (\<lambda>(ld2, m2).
     rbind (parse_vocabulary ld2 m2) (\<lambda>(ld3, m3).
     rbind (parse_lm (kl_lm ld3) m3) (\<lambda>(cfg, m4).
       parse_vocabulary_strings (ld3\<lparr>kl_lm := cfg\<rparr>) m4))))"

definition parse_filename ::
  "(string \<Rightarrow> (nat \<times> u8 list) option) \<Rightarrow> kenlm_loader \<Rightarrow> string \<Rightarrow> (kenlm_loader \<times> mem_section) result" where
  "parse_filename fs ld filename = rbind (load_file fs filename) (parse_file ld)"

section \<open>Bit lengths\<close>

text \<open>The bit length of a number, its reference definition.\<close>

fun bit_len :: "nat \<Rightarrow> nat" where
  "bit_len n = (if n = 0 then 0 else Suc (bit_len (n div 2)))"

declare bit_len.simps [simp del]

lemma bit_len_le_iff: "bit_len n \<le> k \<longleftrightarrow> n < 2 ^ k"
proof (induction n arbitrary: k rule: bit_len.induct)
  case (1 n)
  show ?case
  proof (cases "n = 0 \<or> k = 0")
    case False
    then obtain j where k: "k = Suc j" by (cases k) auto
    have "bit_len n \<le> k \<longleftrightarrow> bit_len (n div 2) \<le> j" using False k by (subst bit_len.simps) simp
    also have "\<dots> \<longleftrightarrow> n div 2 < 2 ^ j" using 1 False by simp
    finally show ?thesis using k by (simp add: div_less_iff_less_mult mult.commute)
  next
    case True
    then show ?thesis by (subst bit_len.simps) auto
  qed
qed

lemma required_bits_loop_len: "required_bits_loop b v = b + int (bit_len (unat v))"
proof (induction b v rule: required_bits_loop.induct)
  case (1 b v)
  show ?case
  proof (cases "v = 0")
    case False
    then have "unat v \<noteq> 0" by (simp add: unat_eq_zero)
    with False 1 show ?thesis
      by (subst required_bits_loop.simps, subst bit_len.simps) (simp add: unat_drop_bit_div)
  next
    case True
    then show ?thesis by (subst required_bits_loop.simps, subst bit_len.simps) simp
  qed
qed

lemma required_bits_len [code]: "required_bits v = int (bit_len (unat v))"
  by (simp add: required_bits_def required_bits_loop_len)

lemma required_bits_le_iff: "required_bits v \<le> int k \<longleftrightarrow> unat v < 2 ^ k"
  by (simp add: required_bits_len bit_len_le_iff)

lemma required_bits_bounds: "0 \<le> required_bits v" "required_bits v \<le> 64"
  using required_bits_le_iff [of v 64] by (simp_all add: required_bits_len)

lemma required_bits_pos: "v \<noteq> 0 \<Longrightarrow> 0 < required_bits v"
  using required_bits_le_iff [of v 0] unat_gt_0 [of v] by simp

lemma make_bitmask_eq:
  "make_bitmask b = (if 0 \<le> b \<and> b < 64 then Inr (mask (nat b)) else Inl Undefined)"
  by (simp add: make_bitmask_def shl_u64_def mask_eq_exp_minus_1 push_bit_eq_mult)

section \<open>The choice of the low bits\<close>

definition bhiksha_cost :: "u64 \<Rightarrow> u64 \<Rightarrow> int \<Rightarrow> int \<Rightarrow> int" where
  "bhiksha_cost max_index max_value total_bits low =
     sint (drop_bit (nat low) max_value * 64 - max_index * word_of_int (total_bits - low))"

lemma low_bits_loop_min:
  fixes mi mv :: u64 and tb :: int
  defines "cost \<equiv> bhiksha_cost mi mv tb"
  assumes "low + int n = tb + 1" "0 \<le> low" "tb < 64" "best < 0 \<and> 0 < n \<or> 0 \<le> best \<and> best < low \<and> bs = cost best"
  shows "\<exists>r. low_bits_loop mi mv tb n low best bs = Inr r \<and> (r = best \<and> 0 \<le> best \<or> low \<le> r \<and> r \<le> tb) \<and>
    (0 \<le> best \<longrightarrow> cost r \<le> cost best) \<and>
    (\<forall>l. low \<le> l \<longrightarrow> l \<le> tb \<longrightarrow> cost r \<le> cost l \<and> (r < l \<longrightarrow> cost r < cost l))"
  using assms(2-5)
proof (induction n arbitrary: low best bs)
  case 0
  then show ?case by auto
next
  case (Suc n)
  have sz: "bhiksha_size mi mv tb low = Inr (drop_bit (nat low) mv * 64 - mi * word_of_int (tb - low))"
    using Suc.prems by (simp add: bhiksha_size_def shr_u64_def)
  show ?case
  proof (cases "best < 0 \<or> cost low \<le> bs")
    case True
    with sz have step: "low_bits_loop mi mv tb (Suc n) low best bs = low_bits_loop mi mv tb n (low + 1) low (cost low)"
      by (simp add: cost_def bhiksha_cost_def)
    have "low + 1 + int n = tb + 1" "0 \<le> low + 1" using Suc.prems(1,2) by simp_all
    from Suc.IH [OF this Suc.prems(3), of low "cost low"] Suc.prems(2)
    obtain r where r: "low_bits_loop mi mv tb n (low + 1) low (cost low) = Inr r"
      "r = low \<or> low + 1 \<le> r \<and> r \<le> tb" "cost r \<le> cost low"
      "\<forall>l. low + 1 \<le> l \<longrightarrow> l \<le> tb \<longrightarrow> cost r \<le> cost l \<and> (r < l \<longrightarrow> cost r < cost l)" by auto
    have "cost r \<le> cost l \<and> (r < l \<longrightarrow> cost r < cost l)" if "low \<le> l" "l \<le> tb" for l
      using r(2-4) that by (cases "l = low") auto
    moreover have "0 \<le> best \<longrightarrow> cost r \<le> cost best" using True r(3) Suc.prems(4) by auto
    moreover have "low \<le> r \<and> r \<le> tb" using r(2) Suc.prems(1) by auto
    ultimately show ?thesis using step r(1) by auto
  next
    case False
    with Suc.prems(4) have b: "0 \<le> best" "best < low" "bs = cost best" by auto
    from False sz have step: "low_bits_loop mi mv tb (Suc n) low best bs = low_bits_loop mi mv tb n (low + 1) best bs"
      by (simp add: cost_def bhiksha_cost_def)
    have "low + 1 + int n = tb + 1" "0 \<le> low + 1" using Suc.prems(1,2) by simp_all
    from Suc.IH [OF this Suc.prems(3), of best bs] b
    obtain r where r: "low_bits_loop mi mv tb n (low + 1) best bs = Inr r"
      "r = best \<or> low + 1 \<le> r \<and> r \<le> tb" "cost r \<le> cost best"
      "\<forall>l. low + 1 \<le> l \<longrightarrow> l \<le> tb \<longrightarrow> cost r \<le> cost l \<and> (r < l \<longrightarrow> cost r < cost l)" by auto
    have "cost r \<le> cost l \<and> (r < l \<longrightarrow> cost r < cost l)" if "low \<le> l" "l \<le> tb" for l
      using r(2-4) b False that by (cases "l = low") auto
    with step r b show ?thesis by auto
  qed
qed

lemma find_bhiksha_low_bits_min:
  assumes "0 \<le> tb" "tb < 64" "0 \<le> mh"
  shows "\<exists>r. find_bhiksha_low_bits mi mv tb mh = Inr r \<and> max (tb - mh) 0 \<le> r \<and> r \<le> tb \<and>
    (\<forall>l. max (tb - mh) 0 \<le> l \<longrightarrow> l \<le> tb \<longrightarrow>
       bhiksha_cost mi mv tb r \<le> bhiksha_cost mi mv tb l \<and>
       (r < l \<longrightarrow> bhiksha_cost mi mv tb r < bhiksha_cost mi mv tb l))"
proof -
  let ?lo = "max (tb - mh) 0"
  have "?lo + int (nat (tb - ?lo + 1)) = tb + 1" "(-1 :: int) < 0 \<and> 0 < nat (tb - ?lo + 1)"
    using assms by (auto simp: max_def)
  then show ?thesis
    using low_bits_loop_min [of ?lo "nat (tb - ?lo + 1)" tb "- 1" 0 mi mv] assms(2,3)
    by (simp add: find_bhiksha_low_bits_def Let_def)
qed

section \<open>What the loader cuts out\<close>

lemma at0_and_drop_prefix_Inr:
  assumes "section_ok m" "at0_and_drop_prefix n m = Inr (p, q)"
  shows "inside p m \<and> inside q m"
  using assms by (auto simp: at0_and_drop_prefix_def result_simps dest: get_and_drop_prefix_inside)

lemma at0_and_drop_prefix_defined:
  assumes "section_ok m"
  shows "at0_and_drop_prefix n m \<noteq> Inl Undefined"
proof -
  have "at_offset n p 0 \<noteq> Inl Undefined" if "get_and_drop_prefix m n = Inr (p, q)" for p q
    using assms that get_and_drop_prefix_inside [OF that] inside_ok by (auto simp: at_offset_cases split: if_splits)
  then show ?thesis
    by (auto simp: at0_and_drop_prefix_def result_simps get_and_drop_prefix_def)
qed

text \<open>
  The bound on the counts keeps every size the loader computes below 64 bits; a file of
  \<open>2 ^ 61\<close> bytes does not exist.
\<close>

definition good_section :: "mem_section \<Rightarrow> bool" where
  "good_section m \<longleftrightarrow> section_ok m \<and> unat (ms_size m) < 2 ^ 61"

lemma good_section_inside: "good_section m \<Longrightarrow> inside p m \<Longrightarrow> good_section p"
  by (auto simp: good_section_def inside_def section_ok_def)

lemma good_sectionD: "good_section m \<Longrightarrow> section_ok m"
  by (simp add: good_section_def)

definition layer_fields :: "lm_config \<Rightarrow> medium_layer \<Rightarrow> int \<Rightarrow> bool" where
  "layer_fields cfg layer bbits \<longleftrightarrow>
     (let rec = ml_bits layer
      in readable_bits rec \<and> field_ok rec (prob_field layer) \<and> field_ok rec (backoff_field layer) \<and>
         field_ok rec (bhiksha_low_field layer) \<and>
         bf_mask (ba_field rec) = mask (nat (required_bits (ngram_counts cfg ! 0))) \<and>
         bf_mask (prob_field layer) = mask (nat (prob_bits cfg)) \<and>
         bf_mask (backoff_field layer) = mask (nat bbits))"

lemma parse_bitarray_layer:
  assumes "good_section m" "ngram_counts cfg \<noteq> []" "unat (ngram_counts cfg ! 0) < 2 ^ 53" "ngram_counts cfg ! 0 \<noteq> 0"
    and "0 \<le> prob_bits cfg" "prob_bits cfg \<le> 24" "0 \<le> bbits" "bbits \<le> 24"
    and "0 \<le> bhiksha_low_bits layer" "bhiksha_low_bits layer \<le> 53" "unat c < 2 ^ 53"
    and "parse_bitarray cfg m layer (c + 1) bbits = Inr (layer', m')"
  shows "inside m' m \<and> layer_fields cfg layer' bbits \<and> unat c < unat (ba_limit (ml_bits layer')) \<and>
    bhiksha_low_bits layer' = bhiksha_low_bits layer \<and> bhiksha_highs_count layer' = bhiksha_highs_count layer \<and>
    bhiksha_highs layer' = bhiksha_highs layer"
proof -
  let ?w = "required_bits (ngram_counts cfg ! 0)" and ?p = "prob_bits cfg" and ?l = "bhiksha_low_bits layer"
  define st where "st = ?w + bbits + ?p + ?l"
  define size where "size = ((c + 1) * word_of_int st + 7) div 8 + (8 :: u64)"
  have w: "0 < ?w" "?w \<le> 53"
    using required_bits_pos [OF assms(4)] required_bits_le_iff [of "ngram_counts cfg ! 0" 53] assms(3) by simp_all
  have st: "0 < st" "st \<le> 154" using w assms(5-10) by (simp_all add: st_def)
  from assms(12) assms(2) obtain p b where
    p: "get_and_drop_prefix m size = Inr (p, m')" and b: "set_stride (bit_array_of p) st = Inr b"
    and layer': "layer' = layer\<lparr>layer_backoff_bits := bbits,
       word_field := \<lparr>bf_offset = 0, bf_mask = mask (nat ?w)\<rparr>,
       backoff_field := \<lparr>bf_offset = ?w, bf_mask = mask (nat bbits)\<rparr>,
       prob_field := \<lparr>bf_offset = ?w + bbits, bf_mask = mask (nat ?p)\<rparr>,
       bhiksha_low_field := \<lparr>bf_offset = ?w + bbits + ?p, bf_mask = mask (nat ?l)\<rparr>,
       ml_bits := set_bit_field b \<lparr>bf_offset = 0, bf_mask = mask (nat ?w)\<rparr>\<rparr>"
    using w assms(5-10)
    by (auto simp: parse_bitarray_def make_bitmask_eq result_simps Let_def st_def size_def)
  have ins: "inside p m" "inside m' m" using get_and_drop_prefix_inside [OF p] by simp_all
  have gp: "good_section p" using assms(1) ins(1) by (rule good_section_inside)
  have pw: "unat (word_of_int st :: u64) = nat st" using st by (intro unat_word_of_int) simp_all
  have c1: "unat (c + 1) = Suc (unat c)" using assms(11) by (intro unat_Suc_no_wrap) simp
  have prod: "Suc (unat c) * nat st \<le> 2 ^ 53 * 154" using assms(11) st by (intro mult_mono) auto
  then have mul: "unat ((c + 1) * word_of_int st) = Suc (unat c) * nat st"
    using c1 pw by (subst unat_mult_no_wrap) simp_all
  then have "unat ((c + 1) * word_of_int st + 7) = Suc (unat c) * nat st + 7"
    using prod by (subst unat_add_no_wrap) simp_all
  then have "unat size = (Suc (unat c) * nat st + 7) div 8 + 8"
    unfolding size_def using prod by (subst unat_add_no_wrap) (simp_all add: unat_div_distrib)
  then have size: "unat (ms_size p) = (Suc (unat c) * nat st + 7) div 8 + 8"
    using p by (auto simp: section_simps)
  have same: "section_ok (bit_array_of p)" "ms_size (bit_array_of p) = ms_size p"
    using gp by (simp_all add: bit_array_of_def mem_section.defs section_ok_def good_section_def)
  have b': "bit_array_ok b" "ba_stride b = st" "unat (ba_limit b) = (unat (ms_size p) - 8) * 8 div nat st"
    using set_stride_ok [OF same(1) _ _ b] gp st same(2) by (simp_all add: good_section_def)
  have "Suc (unat c) \<le> unat (ba_limit b)"
    using b'(3) size st by (simp add: less_eq_div_iff_mult_less_eq) linarith
  moreover have "bit_array_ok (set_bit_field b f)" for f
    using b'(1) by (simp add: bit_array_ok_def set_bit_field_def section_ok_def)
  ultimately show ?thesis
    using ins(2) b'(2) layer' w assms(5-10)
    by (simp add: layer_fields_def readable_bits_def field_ok_def st_def set_bit_field_def)
qed

lemma parse_bhiksha_highs_layer:
  assumes "good_section m" "unat mv < 2 ^ 53" "parse_bhiksha_highs m layer n mv = Inr (layer', m')"
  shows "inside m' m \<and> 0 \<le> bhiksha_low_bits layer' \<and> bhiksha_low_bits layer' \<le> 53 \<and>
    section_ok (bhiksha_highs layer') \<and> 0 < unat (bhiksha_highs_count layer') \<and>
    unat (ms_size (bhiksha_highs layer')) = 8 * unat (bhiksha_highs_count layer')"
proof -
  let ?t = "required_bits mv"
  have t: "0 \<le> ?t" "?t \<le> 53"
    using required_bits_bounds required_bits_le_iff [of mv 53] assms(2) by simp_all
  define high where "high low = drop_bit (nat low) mv" for low
  from assms(3) obtain h m1 mh low u highs where
    h: "at0_and_drop_prefix 8 m = Inr (h, m1)" and mh: "mh = int (struct_field h 1 1)"
    and low: "find_bhiksha_low_bits n mv ?t mh = Inr low"
    and u: "get_and_drop_prefix m1 (8 * (high low + 1) + 7) = Inr (u, m')"
    and highs: "sub_section u (word_of_int (- base_offset u) AND 7) (8 * (high low + 1)) = Inr highs"
    and layer': "layer' = layer\<lparr>bhiksha_total_bits := ?t, bhiksha_low_bits := low,
       bhiksha_highs_count := high low + 1, bhiksha_highs := highs\<rparr>"
    by (auto simp: parse_bhiksha_highs_def result_simps Let_def shr_u64_def high_def split: if_splits)
  have lb: "0 \<le> low" "low \<le> 53"
    using find_bhiksha_low_bits_min [of ?t mh n mv] low t mh by auto
  have "unat (high low) \<le> unat mv" by (simp add: high_def unat_drop_bit_div)
  then have hb: "unat (high low + 1) = Suc (unat (high low))" "Suc (unat (high low)) \<le> 2 ^ 53"
    using assms(2) by (simp_all add: unat_Suc_no_wrap)
  then have "unat (8 * (high low + 1)) = 8 * unat (high low + 1)"
    by (subst unat_mult_no_wrap) simp_all
  moreover have "inside m1 m" using at0_and_drop_prefix_Inr [OF good_sectionD h] assms(1) by simp
  moreover have "inside u m1" "inside m' m1" using get_and_drop_prefix_inside [OF u] by simp_all
  moreover have "inside highs u" using sub_section_inside [OF highs] .
  ultimately show ?thesis
    using lb hb layer' highs assms(1) inside_ok inside_trans
    by (auto simp: good_section_def section_simps)
qed

section \<open>The shape of a loaded model\<close>

definition tables_of :: "nat \<Rightarrow> int \<Rightarrow> mem_section list \<Rightarrow> bool" where
  "tables_of n bits ts \<longleftrightarrow> length ts = n \<and>
     list_all (\<lambda>t. section_ok t \<and> unat (ms_size t) = 4 * 2 ^ nat bits) ts"

lemma quant_size:
  assumes "0 \<le> bits" "bits \<le> 24" "shl_u64 1 bits = Inr n"
  shows "unat (4 * n) = 4 * 2 ^ nat bits"
proof -
  have "(2 :: nat) ^ nat bits \<le> 2 ^ 24" using assms by (intro power_increasing) simp_all
  moreover from this have "unat n = 2 ^ nat bits"
    using assms unat_of_nat_u64 [of "2 ^ nat bits"] by (auto simp: shl_u64_def push_bit_eq_mult)
  ultimately show ?thesis by (subst unat_mult_no_wrap) simp_all
qed

lemma quant_table:
  assumes "good_section m" "0 \<le> bits" "bits \<le> 24" "shl_u64 1 bits = Inr n"
    and "get_and_drop_prefix m (4 * n) = Inr (p, m')"
  shows "section_ok p \<and> unat (ms_size p) = 4 * 2 ^ nat bits \<and> inside m' m \<and> good_section m'"
  using get_and_drop_prefix_inside [OF assms(5)] assms(1,5) quant_size [OF assms(2-4)]
    good_section_inside good_sectionD
  by (auto simp: section_simps)

lemma quant_loop_tables:
  assumes "good_section m" "0 \<le> pb" "pb \<le> 24" "0 \<le> bb" "bb \<le> 24"
    and "quant_loop pb bb n m = Inr (ps, bs, m')"
  shows "tables_of n pb ps \<and> tables_of n bb bs \<and> inside m' m"
  using assms(1,6)
proof (induction n arbitrary: m ps bs m')
  case 0
  then show ?case by (simp add: tables_of_def)
next
  case (Suc n)
  from Suc.prems(2) obtain pn p m1 bn b m2 ps' bs' where
    s: "shl_u64 1 pb = Inr pn" "get_and_drop_prefix m (4 * pn) = Inr (p, m1)"
       "shl_u64 1 bb = Inr bn" "get_and_drop_prefix m1 (4 * bn) = Inr (b, m2)"
       "quant_loop pb bb n m2 = Inr (ps', bs', m')" "ps = p # ps'" "bs = b # bs'"
    by (auto simp: result_simps)
  note p = quant_table [OF Suc.prems(1) assms(2,3) s(1,2)]
  then have g: "good_section m1" by blast
  note b = quant_table [OF g assms(4,5) s(3,4)]
  then have "good_section m2" by blast
  note ih = Suc.IH [OF this s(5)]
  have "inside m' m" using p b ih inside_trans by blast
  with p b ih s(6,7) show ?case by (simp add: tables_of_def)
qed

text \<open>The shape of a layer of \<open>k\<close>-grams: the records exist, the fields fit, the high array is whole.\<close>

definition inner_shape :: "medium_layer \<Rightarrow> bool" where
  "inner_shape layer \<longleftrightarrow> 0 \<le> bhiksha_low_bits layer \<and> bhiksha_low_bits layer \<le> 53 \<and>
     section_ok (bhiksha_highs layer) \<and> 0 < unat (bhiksha_highs_count layer) \<and>
     unat (ms_size (bhiksha_highs layer)) = 8 * unat (bhiksha_highs_count layer)"

definition layer_shape :: "lm_config \<Rightarrow> int \<Rightarrow> nat \<Rightarrow> medium_layer \<Rightarrow> bool" where
  "layer_shape cfg bbits k layer \<longleftrightarrow> layer_fields cfg layer bbits \<and>
     unat (ngram_counts cfg ! (k - 1)) < unat (ba_limit (ml_bits layer))"

definition cfg_small :: "lm_config \<Rightarrow> bool" where
  "cfg_small cfg \<longleftrightarrow> 2 \<le> lm_order cfg \<and> length (ngram_counts cfg) = lm_order cfg \<and>
     list_all (\<lambda>c. unat c < 2 ^ 53) (ngram_counts cfg) \<and> ngram_counts cfg ! 0 \<noteq> 0 \<and>
     0 \<le> prob_bits cfg \<and> prob_bits cfg \<le> 24 \<and> 0 \<le> backoff_bits cfg \<and> backoff_bits cfg \<le> 24"

lemma cfg_smallD:
  assumes "cfg_small cfg"
  shows "ngram_counts cfg \<noteq> []" "unat (ngram_counts cfg ! 0) < 2 ^ 53" "ngram_counts cfg ! 0 \<noteq> 0"
    "0 \<le> prob_bits cfg" "prob_bits cfg \<le> 24" "0 \<le> backoff_bits cfg" "backoff_bits cfg \<le> 24"
    "\<And>k. k < lm_order cfg \<Longrightarrow> unat (ngram_counts cfg ! k) < 2 ^ 53"
  using assms by (auto simp: cfg_small_def list_all_length)

lemma medium_loop_layers:
  assumes "cfg_small cfg" "good_section m" "1 \<le> k" "k + n \<le> lm_order cfg"
    and "medium_loop cfg n k m = Inr (layers, m')"
  shows "length layers = n \<and> inside m' m \<and>
    (\<forall>i < n. inner_shape (layers ! i) \<and> layer_shape cfg (backoff_bits cfg) (k + i) (layers ! i))"
  using assms(2-5)
proof (induction n arbitrary: k m layers)
  case 0
  then show ?case by simp
next
  case (Suc n)
  let ?c = "ngram_counts cfg"
  note small = cfg_smallD [OF assms(1)]
  have k: "k - 1 < length ?c" "k < length ?c" "k + 1 + n \<le> lm_order cfg" "1 \<le> k + 1"
    using Suc.prems(2,3) assms(1) by (auto simp: cfg_small_def)
  from Suc.prems(4) k(1,2) obtain l1 m1 l2 m2 ls where
    h: "parse_bhiksha_highs m medium_layer_init (?c ! (k - 1) + 1) (?c ! k) = Inr (l1, m1)"
    and b: "parse_bitarray cfg m1 l1 (?c ! (k - 1) + 1) (backoff_bits cfg) = Inr (l2, m2)"
    and r: "medium_loop cfg n (k + 1) m2 = Inr (ls, m')" "layers = l2 # ls"
    by (auto simp: result_simps)
  have ck: "unat (?c ! (k - 1)) < 2 ^ 53" "unat (?c ! k) < 2 ^ 53" using small(8) k Suc.prems(2,3) by auto
  note l1 = parse_bhiksha_highs_layer [OF Suc.prems(1) ck(2) h]
  have g1: "good_section m1" using l1 good_section_inside Suc.prems(1) by blast
  note l2 = parse_bitarray_layer [OF g1 small(1-7) _ _ ck(1) b]
  have g2: "good_section m2" using l1 l2 good_section_inside g1 by blast
  note ih = Suc.IH [OF g2 k(4,3) r(1)]
  have "inner_shape (layers ! i) \<and> layer_shape cfg (backoff_bits cfg) (k + i) (layers ! i)" if "i < Suc n" for i
    using that l1 l2 ih r(2) by (cases i) (auto simp: inner_shape_def layer_shape_def)
  moreover have "inside m' m" using l1 l2 ih inside_trans by blast
  ultimately show ?case using ih r(2) by simp
qed

definition lm_shape :: "lm_config \<Rightarrow> bool" where
  "lm_shape cfg \<longleftrightarrow> cfg_small cfg \<and> tables_of (lm_order cfg - 1) (prob_bits cfg) (prob_quant_tables cfg) \<and>
     tables_of (lm_order cfg - 2) (backoff_bits cfg) (backoff_quant_tables cfg) \<and>
     section_ok (unigram_layer cfg) \<and>
     unat (ms_size (unigram_layer cfg)) = 16 * (unat (ngram_counts cfg ! 0) + 2) \<and>
     length (medium_layers cfg) = lm_order cfg - 1 \<and>
     (\<forall>k. 2 \<le> k \<longrightarrow> k < lm_order cfg \<longrightarrow> inner_shape (medium_layers cfg ! (k - 2)) \<and>
       layer_shape cfg (backoff_bits cfg) k (medium_layers cfg ! (k - 2))) \<and>
     layer_shape cfg 0 (lm_order cfg) (medium_layers cfg ! (lm_order cfg - 2))"

lemma layer_shape_cong:
  "ngram_counts cfg = ngram_counts cfg' \<Longrightarrow> prob_bits cfg = prob_bits cfg' \<Longrightarrow>
   layer_shape cfg bb k layer = layer_shape cfg' bb k layer"
  by (simp add: layer_shape_def layer_fields_def)

lemma parse_lm_keeps:
  assumes "parse_lm cfg m = Inr (cfg', m')"
  shows "lm_order cfg' = lm_order cfg \<and> ngram_counts cfg' = ngram_counts cfg \<and>
    0 \<le> prob_bits cfg' \<and> prob_bits cfg' \<le> 24 \<and> 0 \<le> backoff_bits cfg' \<and> backoff_bits cfg' \<le> 24"
  using assms
  by (auto simp: parse_lm_def parse_lm_quant_def parse_trie_unigram_def parse_trie_medium_def
      parse_trie_long_def result_simps Let_def)

text \<open>The stages of a successful parse of the model, with the configuration at each stage.\<close>

lemma parse_lm_stages:
  assumes "parse_lm cfg m = Inr (cfg', m')" "2 \<le> lm_order cfg" "length (ngram_counts cfg) = lm_order cfg"
  obtains h m0 c0 ps bs m1 pn p m2 u m3 ls m4 leaf where
    "at0_and_drop_prefix 8 m = Inr (h, m0)"
    "lm_order c0 = lm_order cfg" "ngram_counts c0 = ngram_counts cfg"
    "0 \<le> prob_bits c0" "prob_bits c0 \<le> 24" "0 \<le> backoff_bits c0" "backoff_bits c0 \<le> 24"
    "quant_loop (prob_bits c0) (backoff_bits c0) (lm_order cfg - 2) m0 = Inr (ps, bs, m1)"
    "shl_u64 1 (prob_bits c0) = Inr pn" "get_and_drop_prefix m1 (4 * pn) = Inr (p, m2)"
    "get_and_drop_prefix m2 (16 * (ngram_counts cfg ! 0 + 2)) = Inr (u, m3)"
    "medium_loop (c0\<lparr>prob_quant_tables := ps @ [p], backoff_quant_tables := bs,
       unigram_layer := u\<rparr>) (lm_order cfg - 2) 2 m3 = Inr (ls, m4)"
    "parse_bitarray (c0\<lparr>prob_quant_tables := ps @ [p], backoff_quant_tables := bs,
       unigram_layer := u, medium_layers := ls\<rparr>) m4 (medium_layer_init\<lparr>bhiksha_total_bits := 0,
       bhiksha_low_bits := 0, bhiksha_highs := empty_section\<rparr>)
       (ngram_counts cfg ! (lm_order cfg - 1) + 1) 0 = Inr (leaf, m')"
    "cfg' = c0\<lparr>prob_quant_tables := ps @ [p], backoff_quant_tables := bs,
       unigram_layer := u, medium_layers := ls @ [leaf]\<rparr>"
proof -
  let ?c0 = "\<lambda>h. cfg\<lparr>prob_bits := int (struct_field h 1 1), backoff_bits := int (struct_field h 2 1)\<rparr>"
  from assms show thesis
    by (auto simp: parse_lm_def parse_lm_quant_def parse_trie_unigram_def parse_trie_medium_def
        parse_trie_long_def result_simps Let_def vec_at_def split: if_splits
        intro!: that [where ?c0.0 = "?c0 _"])
qed

lemma unigram_size:
  assumes "unat c < 2 ^ 53" "get_and_drop_prefix m (16 * (c + 2)) = Inr (u, m')"
  shows "unat (ms_size u) = 16 * (unat c + 2)"
proof -
  have "unat (c + 2) = unat c + 2" using assms(1) by (subst unat_add_no_wrap) simp_all
  then have "unat (16 * (c + 2)) = 16 * (unat c + 2)"
    using assms(1) by (subst unat_mult_no_wrap) simp_all
  with assms(2) show ?thesis by (auto simp: section_simps)
qed

lemma parse_lm_shape:
  assumes "good_section m" "2 \<le> lm_order cfg" "length (ngram_counts cfg) = lm_order cfg"
    and "list_all (\<lambda>c. unat c < 2 ^ 53) (ngram_counts cfg)" "ngram_counts cfg ! 0 \<noteq> 0"
    and "parse_lm cfg m = Inr (cfg', m')"
  shows "lm_shape cfg' \<and> inside m' m"
  using assms(6,2,3)
proof (rule parse_lm_stages)
  let ?c = "ngram_counts cfg" and ?n = "lm_order cfg"
  fix h m0 ps bs m1 pn p m2 u m3 ls m4 leaf and c0 :: lm_config
  let ?cm = "c0\<lparr>prob_quant_tables := ps @ [p], backoff_quant_tables := bs, unigram_layer := u\<rparr>"
  assume h: "at0_and_drop_prefix 8 m = Inr (h, m0)"
    and c0: "lm_order c0 = ?n" "ngram_counts c0 = ?c"
    and pb: "0 \<le> prob_bits c0" "prob_bits c0 \<le> 24" and bb: "0 \<le> backoff_bits c0" "backoff_bits c0 \<le> 24"
    and q: "quant_loop (prob_bits c0) (backoff_bits c0) (?n - 2) m0 = Inr (ps, bs, m1)"
      "shl_u64 1 (prob_bits c0) = Inr pn" "get_and_drop_prefix m1 (4 * pn) = Inr (p, m2)"
    and u: "get_and_drop_prefix m2 (16 * (?c ! 0 + 2)) = Inr (u, m3)"
    and med: "medium_loop ?cm (?n - 2) 2 m3 = Inr (ls, m4)"
    and leaf: "parse_bitarray (?cm\<lparr>medium_layers := ls\<rparr>) m4 (medium_layer_init\<lparr>bhiksha_total_bits := 0,
        bhiksha_low_bits := 0, bhiksha_highs := empty_section\<rparr>) (?c ! (?n - 1) + 1) 0 = Inr (leaf, m')"
    and cfg': "cfg' = ?cm\<lparr>medium_layers := ls @ [leaf]\<rparr>"
  have small: "cfg_small ?cm" "cfg_small cfg'" "cfg_small (?cm\<lparr>medium_layers := ls\<rparr>)"
    using assms(2-5) c0 pb bb by (simp_all add: cfg_small_def cfg')
  have i0: "inside m0 m" using at0_and_drop_prefix_Inr [OF good_sectionD [OF assms(1)] h] by simp
  then have g0: "good_section m0" using assms(1) good_section_inside by blast
  note t = quant_loop_tables [OF g0 pb bb q(1)]
  then have g1: "good_section m1" using g0 good_section_inside by blast
  note pt = quant_table [OF g1 pb q(2,3)]
  then have g2: "good_section m2" by blast
  have iu: "inside u m2" "inside m3 m2" using get_and_drop_prefix_inside [OF u] by simp_all
  then have g3: "good_section u" "good_section m3" using g2 good_section_inside by blast+
  have cs: "unat (?c ! 0) < 2 ^ 53" "unat (?c ! (?n - 1)) < 2 ^ 53"
    using assms(2-4) by (auto simp: list_all_length)
  have ml: "length ls = ?n - 2" "inside m4 m3"
    "\<And>i. i < ?n - 2 \<Longrightarrow> inner_shape (ls ! i) \<and> layer_shape ?cm (backoff_bits c0) (2 + i) (ls ! i)"
    using medium_loop_layers [OF small(1) g3(2) _ _ med] assms(2) c0(1) by auto
  have g4: "good_section m4" using ml(2) g3(2) good_section_inside by blast
  have lf: "inside m' m4" "layer_fields (?cm\<lparr>medium_layers := ls\<rparr>) leaf 0"
    "unat (?c ! (?n - 1)) < unat (ba_limit (ml_bits leaf))"
    using parse_bitarray_layer [OF g4 cfg_smallD(1-5) [OF small(3)] _ _ _ _ cs(2) leaf] by simp_all
  have inner: "inner_shape (medium_layers cfg' ! (k - 2)) \<and>
      layer_shape cfg' (backoff_bits cfg') k (medium_layers cfg' ! (k - 2))" if "2 \<le> k" "k < ?n" for k
  proof -
    have "k - 2 < ?n - 2" "2 + (k - 2) = k" using that by simp_all
    with ml(1) ml(3) [of "k - 2"] layer_shape_cong [of cfg' ?cm] show ?thesis by (simp add: cfg' nth_append)
  qed
  have last: "layer_shape cfg' 0 ?n (medium_layers cfg' ! (?n - 2))"
    using lf(2,3) ml(1) [symmetric] c0 by (simp add: cfg' layer_shape_def layer_fields_def)
  have "inside m' m" using i0 t pt iu(2) ml(2) lf(1) inside_trans by blast
  moreover have "tables_of (?n - 1) (prob_bits c0) (ps @ [p])"
    using t pt assms(2) by (simp add: tables_of_def Suc_diff_Suc numeral_2_eq_2)
  ultimately show ?thesis
    using small(2) t pt g3(1) unigram_size [OF cs(1) u] ml(1) inner last c0 assms(2)
    by (simp add: lm_shape_def good_section_def cfg' Suc_diff_Suc numeral_2_eq_2)
qed
section \<open>Loaded models are well-formed\<close>

lemma bits_and_mask_less:
  assumes "n \<le> 64"
  shows "unat ((x :: u64) AND mask n) < 2 ^ n"
  using assms by (simp add: unat_and_mask)

lemma layer_value_table:
  assumes "bf_mask bf = mask (nat bits)" "0 \<le> bits" "bits \<le> 24" "tables_of n bits ts" "j < n"
  shows "table_ok (ts ! j) layer bf i"
proof -
  have "unat (bit_value (ml_bits layer) i bf) < 2 ^ nat bits"
    using assms(1-3) bits_and_mask_less [of "nat bits"] by (simp add: bit_value_def)
  with assms(4,5) show ?thesis by (auto simp: table_ok_def tables_of_def list_all_length)
qed

lemma layer_word_less:
  assumes "layer_fields cfg layer bb" "cfg_small cfg"
  shows "unat (bit_elem (ml_bits layer) i) < 2 ^ 53"
proof -
  let ?n = "nat (required_bits (ngram_counts cfg ! 0))"
  have n: "?n \<le> 53"
    using required_bits_le_iff [of "ngram_counts cfg ! 0" 53] cfg_smallD(2) [OF assms(2)] by simp
  have "unat (bit_elem (ml_bits layer) i) < 2 ^ ?n"
    using assms(1) n bits_and_mask_less [of ?n] by (simp add: bit_elem_def layer_fields_def Let_def)
  also have "\<dots> \<le> 2 ^ 53" using n by (intro power_increasing) simp_all
  finally show ?thesis .
qed

text \<open>
  What the loader does not check and the writer of the file guarantees: a child range lies
  inside its layer and its words increase, and the high array starts with 0 and does not
  decrease.
\<close>

definition highs_content :: "medium_layer \<Rightarrow> bool" where
  "highs_content layer \<longleftrightarrow> section_u64 (bhiksha_highs layer) 0 = 0 \<and>
     sorted (map (section_u64 (bhiksha_highs layer)) [0..<unat (bhiksha_highs_count layer)])"

primrec range_content :: "lm_config \<Rightarrow> nat \<Rightarrow> nat \<Rightarrow> u64 \<Rightarrow> u64 \<Rightarrow> bool" where
  "range_content cfg 0 k l r = True"
| "range_content cfg (Suc n) k l r =
     (r \<le> l \<or>
       (let layer = medium_layers cfg ! (k - 2)
        in r \<le> ngram_counts cfg ! (k - 1) \<and> unat r < 2 ^ 52 \<and>
           sorted_wrt (<) (map (bit_elem (ml_bits layer)) [unat l..<unat r]) \<and>
           (n = 0 \<or> highs_content layer \<and>
             list_all (\<lambda>i. range_content cfg n (k + 1) (child_start layer i) (child_start layer (Suc i)))
               [unat l..<unat r])))"

definition lm_content :: "lm_config \<Rightarrow> bool" where
  "lm_content cfg \<longleftrightarrow>
     list_all (\<lambda>w. range_content cfg (lm_order cfg - 1) 2 (unigram_start cfg w) (unigram_start cfg (Suc w)))
       [0..<unat (ngram_counts cfg ! 0)]"

lemma lm_shape_layer:
  assumes "lm_shape cfg" "2 \<le> k" "k \<le> lm_order cfg"
  shows "\<exists>bb. layer_fields cfg (medium_layers cfg ! (k - 2)) bb \<and>
    unat (ngram_counts cfg ! (k - 1)) < unat (ba_limit (ml_bits (medium_layers cfg ! (k - 2))))"
  using assms by (cases "k = lm_order cfg") (auto simp: lm_shape_def layer_shape_def)

lemma records_of_shape:
  assumes "lm_shape cfg" "2 \<le> k" "k \<le> lm_order cfg"
    and "b \<le> unat (ngram_counts cfg ! (k - 1))" "b < 2 ^ 52"
    and "sorted_wrt (<) (map (bit_elem (ml_bits (medium_layers cfg ! (k - 2)))) [a..<b])"
  shows "records_ok cfg k a b"
proof -
  let ?layer = "medium_layers cfg ! (k - 2)"
  obtain bb where f: "layer_fields cfg ?layer bb" "unat (ngram_counts cfg ! (k - 1)) < unat (ba_limit (ml_bits ?layer))"
    using lm_shape_layer [OF assms(1-3)] by blast
  have s: "cfg_small cfg" "tables_of (lm_order cfg - 1) (prob_bits cfg) (prob_quant_tables cfg)"
    "length (medium_layers cfg) = lm_order cfg - 1"
    using assms(1) by (simp_all add: lm_shape_def)
  have j: "k - 2 < lm_order cfg - 1" using assms(2,3) by simp
  have "table_ok (prob_quant_tables cfg ! (k - 2)) ?layer (prob_field ?layer) i" for i
    using layer_value_table [OF _ _ _ s(2) j, of "prob_field ?layer"] f(1) cfg_smallD(4,5) [OF s(1)]
    by (simp add: layer_fields_def Let_def)
  moreover have "length (prob_quant_tables cfg) = lm_order cfg - 1" using s(2) by (simp add: tables_of_def)
  ultimately show ?thesis
    using f s j assms(4-6) layer_word_less [OF f(1) s(1)]
    by (simp add: records_ok_def Let_def layer_fields_def list_all_iff)
qed

lemma range_of_content:
  assumes "lm_shape cfg" "2 \<le> k" "k + n = Suc (lm_order cfg)" "range_content cfg n k l r"
  shows "range_ok cfg n k l r"
  using assms(2-4)
proof (induction n arbitrary: k l r)
  case 0
  then show ?case by simp
next
  case (Suc n)
  let ?layer = "medium_layers cfg ! (k - 2)"
  have s: "cfg_small cfg" using assms(1) by (simp add: lm_shape_def)
  show ?case
  proof (cases "r \<le> l")
    case False
    with Suc.prems(3) have c: "unat r \<le> unat (ngram_counts cfg ! (k - 1))" "unat r < 2 ^ 52"
      "sorted_wrt (<) (map (bit_elem (ml_bits ?layer)) [unat l..<unat r])"
      "n = 0 \<or> highs_content ?layer \<and>
         list_all (\<lambda>i. range_content cfg n (k + 1) (child_start ?layer i) (child_start ?layer (Suc i)))
           [unat l..<unat r]"
      by (simp_all add: Let_def word_le_nat_alt)
    have rec: "records_ok cfg k (unat l) (unat r)"
      using records_of_shape [OF assms(1) Suc.prems(1) _ c(1-3)] Suc.prems(2) by simp
    show ?thesis
    proof (cases "n = 0")
      case False
      with Suc.prems(2) have k: "k < lm_order cfg" "k - 2 < lm_order cfg - 2" using Suc.prems(1) by simp_all
      have sh: "inner_shape ?layer" "layer_shape cfg (backoff_bits cfg) k ?layer"
        "tables_of (lm_order cfg - 2) (backoff_bits cfg) (backoff_quant_tables cfg)"
        using assms(1) Suc.prems(1) k(1) by (simp_all add: lm_shape_def)
      have "table_ok (backoff_quant_tables cfg ! (k - 2)) ?layer (backoff_field ?layer) i" for i
        using layer_value_table [OF _ _ _ sh(3) k(2), of "backoff_field ?layer"] sh(2) cfg_smallD(6,7) [OF s]
        by (simp add: layer_shape_def layer_fields_def Let_def)
      moreover have "inner_layer_ok ?layer"
        using sh(1,2) c(4) False
        by (simp add: inner_layer_ok_def inner_shape_def layer_shape_def layer_fields_def Let_def
            highs_ok_def highs_content_def)
      moreover have "range_ok cfg n (k + 1) (child_start ?layer i) (child_start ?layer (Suc i))"
        if "i \<in> set [unat l..<unat r]" for i
        using c(4) False that Suc.IH [of "k + 1"] Suc.prems(1,2) by (auto simp: list_all_iff)
      ultimately show ?thesis
        using rec c(1) sh(2,3) k by (simp add: Let_def layer_shape_def list_all_iff tables_of_def)
    qed (use rec in simp)
  qed simp
qed

lemma shape_content_ok:
  assumes "lm_shape cfg" "lm_content cfg"
  shows "lm_ok cfg"
proof -
  have s: "2 \<le> lm_order cfg" "cfg_small cfg" "section_ok (unigram_layer cfg)"
    "unat (ms_size (unigram_layer cfg)) = 16 * (unat (ngram_counts cfg ! 0) + 2)"
    using assms(1) by (simp_all add: lm_shape_def cfg_small_def)
  have "range_ok cfg (lm_order cfg - 1) 2 (unigram_start cfg w) (unigram_start cfg (Suc w))"
    if "w \<in> set [0..<unat (ngram_counts cfg ! 0)]" for w
    using range_of_content [OF assms(1), of 2 "lm_order cfg - 1"] assms(2) that s(1)
    by (simp add: lm_content_def list_all_iff)
  with s cfg_smallD(1-3) [OF s(2)] show ?thesis by (simp add: lm_ok_def list_all_iff unat_gt_0)
qed

section \<open>No undefined behaviour below the width limit\<close>

lemma cut_defined:
  "get_and_drop_prefix m n \<noteq> Inl Undefined" "prefix_section m n \<noteq> Inl Undefined"
  "drop_prefix m n \<noteq> Inl Undefined" "sub_section m a n \<noteq> Inl Undefined" "set_stride b s \<noteq> Inl Undefined"
  by (simp_all add: get_and_drop_prefix_def prefix_section_def drop_prefix_def sub_section_def
      set_stride_def throw_if_def)

lemma array_u64_defined:
  assumes "section_ok m"
  shows "array_u64 m i \<noteq> Inl Undefined"
  using u64_array.get_in [OF assms, of i] u64_array.get_out [OF assms, of i]
  by (cases "unat i < unat (ms_size m) div 8") auto

lemma at_offset_defined: "section_ok m \<Longrightarrow> at_offset n m i \<noteq> Inl Undefined"
  by (simp add: at_offset_cases)

lemma small_bits:
  assumes "unat v < 2 ^ 63"
  shows "required_bits v < 64"
  using required_bits_le_iff [of v 63] assms by simp

lemma parse_bitarray_defined:
  assumes "ngram_counts cfg \<noteq> []" "unat (ngram_counts cfg ! 0) < 2 ^ 63"
    and "0 \<le> prob_bits cfg" "prob_bits cfg \<le> 24" "0 \<le> bb" "bb \<le> 24"
    and "0 \<le> bhiksha_low_bits layer" "bhiksha_low_bits layer < 64"
  shows "parse_bitarray cfg m layer n bb \<noteq> Inl Undefined"
  using assms small_bits [OF assms(2)] required_bits_bounds
  by (auto simp: parse_bitarray_def Let_def make_bitmask_eq result_simps cut_defined)

lemma parse_bhiksha_highs_defined:
  assumes "section_ok m" "unat mv < 2 ^ 63"
  shows "parse_bhiksha_highs m layer n mv \<noteq> Inl Undefined \<and>
    (\<forall>layer' m'. parse_bhiksha_highs m layer n mv = Inr (layer', m') \<longrightarrow>
       section_ok m' \<and> 0 \<le> bhiksha_low_bits layer' \<and> bhiksha_low_bits layer' < 64)"
proof -
  have "\<exists>r. find_bhiksha_low_bits n mv (required_bits mv) (int x) = Inr r \<and> 0 \<le> r \<and> r < 64" for x
    using find_bhiksha_low_bits_min [of "required_bits mv" "int x" n mv] small_bits [OF assms(2)]
      required_bits_bounds [of mv] by force
  then have low: "find_bhiksha_low_bits n mv (required_bits mv) (int x) \<noteq> Inl Undefined"
    "find_bhiksha_low_bits n mv (required_bits mv) (int x) = Inr r \<Longrightarrow> 0 \<le> r \<and> r < 64" for x r
    by (metis Inr_Inl_False, metis Inr_inject)
  have ok: "section_ok q" if "at0_and_drop_prefix k m = Inr (p, q)" for k p q
    using at0_and_drop_prefix_Inr [OF assms(1) that] inside_ok assms(1) by blast
  have "parse_bhiksha_highs m layer n mv \<noteq> Inl Undefined"
    using low ok assms(1)
    by (auto simp: parse_bhiksha_highs_def Let_def shr_u64_def result_simps cut_defined
        at0_and_drop_prefix_defined array_u64_defined split: if_splits
        dest!: get_and_drop_prefix_inside sub_section_inside)
      (metis array_u64_defined inside_ok ok)
  moreover have "section_ok m' \<and> 0 \<le> bhiksha_low_bits layer' \<and> bhiksha_low_bits layer' < 64"
    if "parse_bhiksha_highs m layer n mv = Inr (layer', m')" for layer' m'
    using that low(2) ok
    by (auto simp: parse_bhiksha_highs_def Let_def result_simps dest!: get_and_drop_prefix_inside dest: inside_ok)
  ultimately show ?thesis by blast
qed

lemma read_counts_defined: "section_ok m \<Longrightarrow> read_counts m n off \<noteq> Inl Undefined"
  by (induction m n off rule: read_counts.induct) (auto simp: result_simps at_offset_defined)

lemma read_counts_length: "read_counts m n off = Inr cs \<Longrightarrow> length cs = n"
  by (induction m n off arbitrary: cs rule: read_counts.induct) (auto simp: result_simps)

lemma parse_lm_config_spec:
  assumes "section_ok m" "parse_lm_config ld m = Inr (ld', m')"
  shows "inside m' m \<and> 2 \<le> lm_order (kl_lm ld') \<and>
    length (ngram_counts (kl_lm ld')) = lm_order (kl_lm ld') \<and> ngram_counts (kl_lm ld') ! 0 \<noteq> 0"
  using assms read_counts_length
  by (auto simp: parse_lm_config_def result_simps Let_def vec_at_def split: if_splits
      dest!: at0_and_drop_prefix_Inr drop_prefix_inside intro: inside_trans)

lemma parse_lm_config_defined:
  assumes "section_ok m"
  shows "parse_lm_config ld m \<noteq> Inl Undefined"
proof -
  have 1: "read_counts m' n 0 \<noteq> Inl Undefined" if "at0_and_drop_prefix 20 m = Inr (h, m')" for h m' n
    using at0_and_drop_prefix_Inr [OF assms that] assms inside_ok read_counts_defined by blast
  have 2: "vec_at cs 0 \<noteq> Inl Undefined" if "read_counts m' n 0 = Inr cs" "\<not> n < 2" for m' n cs
    using read_counts_length [OF that(1)] that(2) by (simp add: vec_at_def)
  from assms show ?thesis
    by (auto simp: parse_lm_config_def result_simps Let_def cut_defined at0_and_drop_prefix_defined 1 dest: 2)
qed

lemma parse_header_spec:
  assumes "section_ok m"
  shows "parse_header m \<noteq> Inl Undefined \<and> (parse_header m = Inr m' \<longrightarrow> inside m' m)"
  using at0_and_drop_prefix_Inr [OF assms] at0_and_drop_prefix_defined [OF assms]
  by (auto simp: parse_header_def result_simps)

lemma prefix_inside: "unat sz \<le> unat (ms_size m) \<Longrightarrow> inside (m\<lparr>ms_size := sz\<rparr>) m"
  by (simp add: inside_def)

lemma parse_vocabulary_spec:
  assumes "section_ok m" "ngram_counts (kl_lm ld) \<noteq> []"
  shows "parse_vocabulary ld m \<noteq> Inl Undefined"
    and "parse_vocabulary ld m = Inr (ld', m') \<Longrightarrow> inside m' m \<and> kl_lm ld' = kl_lm ld \<and>
      inside (word_hashes (kl_vocabulary ld')) m \<and>
      num_words (kl_vocabulary ld') \<le> ngram_counts (kl_lm ld) ! 0 \<and>
      ms_size (word_hashes (kl_vocabulary ld')) = 8 * (num_words (kl_vocabulary ld') - 1) \<and>
      with_vocabulary_strings ld' = with_vocabulary_strings ld"
  using assms
  by (auto simp: parse_vocabulary_def result_simps Let_def cut_defined at0_and_drop_prefix_defined prefix_section_Inr
      dest!: at0_and_drop_prefix_Inr get_and_drop_prefix_inside intro: inside_trans)
    (rule inside_trans [OF prefix_inside], simp, erule (1) inside_trans)

lemma quant_loop_spec:
  assumes "0 \<le> pb" "pb \<le> 24" "0 \<le> bb" "bb \<le> 24"
  shows "quant_loop pb bb n m \<noteq> Inl Undefined"
    and "quant_loop pb bb n m = Inr (ps, bs, m') \<Longrightarrow> inside m' m"
proof -
  have sh: "shl_u64 1 pb \<noteq> Inl Undefined" "shl_u64 1 bb \<noteq> Inl Undefined" using assms by (simp_all add: shl_u64_def)
  show "quant_loop pb bb n m \<noteq> Inl Undefined"
    by (induction n arbitrary: m) (auto simp: result_simps cut_defined sh)
  show "inside m' m" if "quant_loop pb bb n m = Inr (ps, bs, m')"
    using that
  proof (induction n arbitrary: m ps bs)
    case (Suc n)
    from Suc.prems obtain pn p m1 bn b m2 ps' bs' where
      "get_and_drop_prefix m (4 * pn) = Inr (p, m1)" "get_and_drop_prefix m1 (4 * bn) = Inr (b, m2)"
      "quant_loop pb bb n m2 = Inr (ps', bs', m')" by (auto simp: result_simps)
    with Suc.IH get_and_drop_prefix_inside inside_trans show ?case by blast
  qed simp
qed

lemma medium_loop_defined:
  assumes "section_ok m" "1 \<le> k" "k + n \<le> length (ngram_counts cfg)" "\<forall>c \<in> set (ngram_counts cfg). unat c < 2 ^ 63"
    and "0 \<le> prob_bits cfg" "prob_bits cfg \<le> 24" "0 \<le> backoff_bits cfg" "backoff_bits cfg \<le> 24"
  shows "medium_loop cfg n k m \<noteq> Inl Undefined"
  using assms(1-3)
proof (induction n arbitrary: k m)
  case (Suc n)
  let ?c = "ngram_counts cfg"
  have k: "k - 1 < length ?c" "k < length ?c" using Suc.prems(3) by simp_all
  have cs: "unat (?c ! k) < 2 ^ 63" "unat (?c ! 0) < 2 ^ 63" "?c \<noteq> []"
    using assms(4) k(2) by (auto intro!: nth_mem)
  note h = parse_bhiksha_highs_defined [OF Suc.prems(1) cs(1), of medium_layer_init "?c ! (k - 1) + 1"]
  have b: "parse_bitarray cfg m1 l1 (?c ! (k - 1) + 1) (backoff_bits cfg) \<noteq> Inl Undefined"
    if "parse_bhiksha_highs m medium_layer_init (?c ! (k - 1) + 1) (?c ! k) = Inr (l1, m1)" for l1 m1
    using h that cs assms(5-8) by (intro parse_bitarray_defined) auto
  have r: "medium_loop cfg n (k + 1) m2 \<noteq> Inl Undefined"
    if "parse_bhiksha_highs m medium_layer_init (?c ! (k - 1) + 1) (?c ! k) = Inr (l1, m1)"
      "parse_bitarray cfg m1 l1 (?c ! (k - 1) + 1) (backoff_bits cfg) = Inr (l2, m2)" for l1 m1 l2 m2
  proof (rule Suc.IH)
    have "inside m2 m1"
      using that(2) by (auto simp: parse_bitarray_def result_simps Let_def dest: get_and_drop_prefix_inside)
    then show "section_ok m2" using h that(1) inside_ok by blast
  qed (use Suc.prems(3) in simp_all)
  show ?case using k h b r by (auto simp: result_simps)
qed simp

lemma parse_lm_defined:
  assumes "section_ok m" "2 \<le> lm_order cfg" "length (ngram_counts cfg) = lm_order cfg"
    and "\<forall>c \<in> set (ngram_counts cfg). unat c < 2 ^ 63"
  shows "parse_lm cfg m \<noteq> Inl Undefined"
proof -
  let ?n = "lm_order cfg"
  have c: "ngram_counts cfg \<noteq> []" "unat (ngram_counts cfg ! 0) < 2 ^ 63" using assms(2-4) by auto
  have A: "quant_loop (int x) (int y) n m' \<noteq> Inl Undefined" "shl_u64 1 (int x) \<noteq> Inl Undefined"
    if "\<not> 24 < int x" "\<not> 24 < int y" for x y n m'
    using quant_loop_spec(1) that by (auto simp: shl_u64_def)
  have ok: "section_ok m3" if "at0_and_drop_prefix 8 m = Inr (h, m0)"
    "quant_loop (int x) (int y) n m0 = Inr (ps, bs, m1)" "get_and_drop_prefix m1 pn = Inr (p, m2)"
    "get_and_drop_prefix m2 un = Inr (u, m3)" "\<not> 24 < int x" "\<not> 24 < int y" for h m0 x y n ps bs m1 pn p m2 un u m3
  proof -
    have "inside m0 m" using at0_and_drop_prefix_Inr [OF assms(1) that(1)] by simp
    moreover have "inside m1 m0" using quant_loop_spec(2) [OF _ _ _ _ that(2)] that(5,6) by simp
    moreover have "inside m2 m1" "inside m3 m2"
      using get_and_drop_prefix_inside that(3,4) by blast+
    ultimately show ?thesis using assms(1) inside_ok by blast
  qed
  have C: "medium_loop c' (?n - 2) 2 m3 \<noteq> Inl Undefined" if "section_ok m3" "lm_order c' = ?n"
    "ngram_counts c' = ngram_counts cfg" "prob_bits c' = int x" "backoff_bits c' = int y" "\<not> 24 < int x" "\<not> 24 < int y"
    for c' m3 x y
    using that assms(2-4) by (intro medium_loop_defined) auto
  have D: "parse_bitarray c' m4 layer n 0 \<noteq> Inl Undefined" if "ngram_counts c' = ngram_counts cfg"
    "prob_bits c' = int x" "bhiksha_low_bits layer = 0" "\<not> 24 < int x" for c' m4 layer n x
    using that c by (intro parse_bitarray_defined) auto
  show ?thesis
  proof
    assume "parse_lm cfg m = Inl Undefined"
    then show False
      using c(1) assms(2,3) at0_and_drop_prefix_defined [OF assms(1)]
      by (auto simp: parse_lm_def parse_lm_quant_def parse_trie_unigram_def parse_trie_medium_def
          parse_trie_long_def result_simps Let_def cut_defined A D)
        (erule notE [rotated], rule C, erule (3) ok, simp+)
  qed
qed

section \<open>The whole file\<close>

lemma set_base_offset_good [simp]: "good_section (set_base_offset m k) = good_section m"
  "section_ok (set_base_offset m k) = section_ok m"
  by (simp_all add: set_base_offset_def good_section_def section_ok_def)

lemma parse_file_stages:
  assumes "parse_file ld m = Inr (ld', m')" "section_ok m"
  obtains m1 ld2 m2 ld3 m3 cfg m4 where
    "parse_header (set_base_offset m 0) = Inr m1" "parse_lm_config ld m1 = Inr (ld2, m2)"
    "parse_vocabulary ld2 m2 = Inr (ld3, m3)" "parse_lm (kl_lm ld3) m3 = Inr (cfg, m4)"
    "parse_vocabulary_strings (ld3\<lparr>kl_lm := cfg\<rparr>) m4 = Inr (ld', m')"
    "inside m1 (set_base_offset m 0)" "inside m2 m1" "inside m3 m2" "kl_lm ld3 = kl_lm ld2"
proof -
  from assms(1) obtain m1 ld2 m2 ld3 m3 cfg m4 where
    s: "parse_header (set_base_offset m 0) = Inr m1" "parse_lm_config ld m1 = Inr (ld2, m2)"
      "parse_vocabulary ld2 m2 = Inr (ld3, m3)" "parse_lm (kl_lm ld3) m3 = Inr (cfg, m4)"
      "parse_vocabulary_strings (ld3\<lparr>kl_lm := cfg\<rparr>) m4 = Inr (ld', m')"
    by (auto simp: parse_file_def result_simps)
  have i1: "inside m1 (set_base_offset m 0)" using parse_header_spec s(1) assms(2) by simp
  then have ok1: "section_ok m1" using assms(2) inside_ok by fastforce
  note c = parse_lm_config_spec [OF ok1 s(2)]
  then have ok2: "section_ok m2" using ok1 inside_ok by blast
  have "ngram_counts (kl_lm ld2) \<noteq> []" using c by auto
  note v = parse_vocabulary_spec(2) [OF ok2 this s(3)]
  show thesis using that [OF s i1] c v by blast
qed

lemma parse_file_shape:
  assumes "good_section m" "parse_file ld m = Inr (ld', m')"
    and "\<forall>c \<in> set (ngram_counts (kl_lm ld')). unat c < 2 ^ 53"
  shows "lm_shape (kl_lm ld')"
  using assms(2) good_sectionD [OF assms(1)]
proof (rule parse_file_stages)
  fix m1 ld2 m2 ld3 m3 cfg m4
  assume s: "parse_header (set_base_offset m 0) = Inr m1" "parse_lm_config ld m1 = Inr (ld2, m2)"
      "parse_vocabulary ld2 m2 = Inr (ld3, m3)" "parse_lm (kl_lm ld3) m3 = Inr (cfg, m4)"
      "parse_vocabulary_strings (ld3\<lparr>kl_lm := cfg\<rparr>) m4 = Inr (ld', m')"
    and i: "inside m1 (set_base_offset m 0)" "inside m2 m1" "inside m3 m2" and kl: "kl_lm ld3 = kl_lm ld2"
  have "good_section m1" "good_section m3"
    using i assms(1) good_section_inside set_base_offset_good(1) by blast+
  moreover have "kl_lm ld' = cfg"
    using s(5) by (auto simp: parse_vocabulary_strings_def result_simps Let_def split: if_splits prod.splits)
  moreover note parse_lm_keeps [OF s(4)] parse_lm_config_spec [OF _ s(2)]
  ultimately show ?thesis
    using parse_lm_shape [OF _ _ _ _ _ s(4)] assms(3) kl by (simp add: good_section_def list_all_iff)
qed

lemma strings_end_spec:
  "strings_end bs n off = (left, off') \<Longrightarrow> off \<le> off' \<and> off' - off \<le> length bs \<and>
     left + length (filter (\<lambda>b. b = 0) (take (off' - off) bs)) = n"
proof (induction bs n off rule: strings_end.induct)
  case (2 b bs n off)
  show ?case
  proof (cases "n > 0")
    case True
    with 2 obtain k where "off' - off = Suc k" "k = off' - (off + 1)" "off + 1 \<le> off'"
      by (cases "off' - off") auto
    with 2 True show ?thesis by (auto split: if_splits)
  qed (use 2 in auto)
qed auto

lemma parse_vocabulary_strings_spec:
  assumes "section_ok m" "parse_vocabulary_strings ld m = Inr (ld', m')"
  shows "kl_lm ld' = kl_lm ld \<and> num_words (kl_vocabulary ld') = num_words (kl_vocabulary ld) \<and>
    word_hashes (kl_vocabulary ld') = word_hashes (kl_vocabulary ld) \<and>
    num_word_strings (kl_vocabulary ld') =
      (if with_vocabulary_strings ld then num_words (kl_vocabulary ld) else 0) \<and>
    length (filter (\<lambda>b. b = 0) (section_bytes (word_strings (kl_vocabulary ld')))) =
      unat (num_word_strings (kl_vocabulary ld'))"
proof (cases "with_vocabulary_strings ld")
  case False
  with assms(2) show ?thesis
    by (auto simp: parse_vocabulary_strings_def empty_section_def section_bytes_def)
next
  case True
  let ?n = "num_words (kl_vocabulary ld)"
  obtain left off where e: "strings_end (section_bytes m) (unat ?n) 0 = (left, off)" by fastforce
  from assms(2) True e obtain q where
    q: "left = 0" "get_and_drop_prefix m (of_nat off) = Inr (q, m')"
      "ld' = ld\<lparr>kl_vocabulary := (kl_vocabulary ld)\<lparr>num_word_strings := ?n, word_strings := q\<rparr>\<rparr>"
    by (auto simp: parse_vocabulary_strings_def result_simps Let_def)
  have off: "off \<le> unat (ms_size m)" using strings_end_spec [OF e] assms(1) by simp
  then have "unat (of_nat off :: u64) = off"
    using unat_u64_less [of "ms_size m"] by (intro unat_of_nat_u64) (simp del: unat_u64_less)
  then have "section_bytes q = take off (section_bytes m)"
    using q(2) off by (auto simp: section_simps section_bytes_def min_absorb1)
  with strings_end_spec [OF e] q(1,3) True show ?thesis by simp
qed

lemma at0_inside: "at0_and_drop_prefix n m = Inr (p, q) \<Longrightarrow> inside q m"
  by (auto simp: at0_and_drop_prefix_def result_simps dest: get_and_drop_prefix_inside)

lemma parse_bitarray_inside: "parse_bitarray cfg m layer n bb = Inr (layer', m') \<Longrightarrow> inside m' m"
  by (auto simp: parse_bitarray_def result_simps Let_def dest: get_and_drop_prefix_inside)

lemma parse_bhiksha_highs_inside:
  assumes "parse_bhiksha_highs m layer n mv = Inr (layer', m')"
  shows "inside m' m"
  using assms inside_trans
  by (auto simp: parse_bhiksha_highs_def result_simps Let_def dest!: at0_inside get_and_drop_prefix_inside)

lemma medium_loop_inside: "medium_loop cfg n k m = Inr (ls, m') \<Longrightarrow> inside m' m"
proof (induction n arbitrary: k m ls)
  case (Suc n)
  from Suc.prems obtain c c' l1 m1 l2 m2 ls' where
    s: "parse_bhiksha_highs m medium_layer_init (c + 1) c' = Inr (l1, m1)"
      "parse_bitarray cfg m1 l1 (c + 1) (backoff_bits cfg) = Inr (l2, m2)" "medium_loop cfg n (k + 1) m2 = Inr (ls', m')"
    by (auto simp: result_simps)
  from Suc.IH [OF s(3)] parse_bitarray_inside [OF s(2)] parse_bhiksha_highs_inside [OF s(1)] show ?case
    by (meson inside_trans)
qed simp

lemma parse_lm_inside:
  assumes "parse_lm cfg m = Inr (cfg', m')" "2 \<le> lm_order cfg" "length (ngram_counts cfg) = lm_order cfg"
  shows "inside m' m"
  using assms
proof (rule parse_lm_stages)
  fix h m0 ps bs m1 pn p m2 u m3 ls m4 leaf and c0 :: lm_config
  assume s: "at0_and_drop_prefix 8 m = Inr (h, m0)"
    "0 \<le> prob_bits c0" "prob_bits c0 \<le> 24" "0 \<le> backoff_bits c0" "backoff_bits c0 \<le> 24"
    "quant_loop (prob_bits c0) (backoff_bits c0) (lm_order cfg - 2) m0 = Inr (ps, bs, m1)"
    "get_and_drop_prefix m1 (4 * pn) = Inr (p, m2)"
    "get_and_drop_prefix m2 (16 * (ngram_counts cfg ! 0 + 2)) = Inr (u, m3)"
    "medium_loop (c0\<lparr>prob_quant_tables := ps @ [p], backoff_quant_tables := bs,
       unigram_layer := u\<rparr>) (lm_order cfg - 2) 2 m3 = Inr (ls, m4)"
    "parse_bitarray (c0\<lparr>prob_quant_tables := ps @ [p], backoff_quant_tables := bs,
       unigram_layer := u, medium_layers := ls\<rparr>) m4 (medium_layer_init\<lparr>bhiksha_total_bits := 0,
       bhiksha_low_bits := 0, bhiksha_highs := empty_section\<rparr>)
       (ngram_counts cfg ! (lm_order cfg - 1) + 1) 0 = Inr (leaf, m')"
  show ?thesis
    using at0_inside [OF s(1)] quant_loop_spec(2) [OF s(2-6)] get_and_drop_prefix_inside [OF s(7)]
      get_and_drop_prefix_inside [OF s(8)] medium_loop_inside [OF s(9)] parse_bitarray_inside [OF s(10)]
    by (meson inside_trans)
qed

section \<open>Properties\<close>

text \<open>The front of every file the loader accepts, up to the parameters.\<close>

definition kenlm_header :: "u8 list" where
  "kenlm_header = KENLM_V5_FORMAT_MAGIC_NUMBER @
     [0, 0, 0, 0, 0, 0, 128, 63, 0, 0, 0, 191, 1, 0, 0, 0, 255, 255, 255, 255, 0, 0, 0, 0, 1, 0,
     0, 0, 0, 0, 0, 0]"

text \<open>A complete trigram model over three words, and a bigram model that claims \<open>2 ^ 63\<close> words.\<close>

definition sample_file :: "u8 list" where
  "sample_file = kenlm_header @
     [3, 0, 0, 0, 0, 0, 192, 63, 5, 0, 0, 0, 1, 0, 0, 0, 1, 0, 0, 0, 3, 0, 0, 0, 0, 0, 0, 0, 2,
     0, 0, 0, 0, 0, 0, 0, 1, 0, 0, 0, 0, 0, 0, 0, 0, 0, 0, 0, 2, 0, 0, 0, 0, 0, 0, 0, 232, 3,
     0, 0, 0, 0, 0, 0, 208, 7, 0, 0, 0, 0, 0, 0, 0, 0, 0, 0, 0, 0, 0, 0, 2, 1, 1, 0, 0, 0, 0,
     0, 0, 0, 0, 191, 0, 0, 128, 191, 0, 0, 0, 0, 0, 0, 128, 190, 0, 0, 0, 191, 0, 0, 128, 190,
     0, 0, 0, 192, 0, 0, 0, 0, 0, 0, 0, 0, 0, 0, 0, 0, 0, 0, 128, 191, 0, 0, 0, 191, 0, 0, 0,
     0, 0, 0, 0, 0, 0, 0, 192, 191, 0, 0, 128, 190, 1, 0, 0, 0, 0, 0, 0, 0, 0, 0, 0, 0, 0, 0,
     0, 0, 2, 0, 0, 0, 0, 0, 0, 0, 0, 0, 0, 0, 0, 0, 0, 0, 0, 0, 0, 0, 0, 0, 0, 0, 0, 1, 0, 0,
     0, 0, 0, 0, 0, 0, 0, 0, 0, 0, 0, 0, 0, 0, 0, 0, 0, 0, 0, 38, 67, 0, 0, 0, 0, 0, 0, 0, 0,
     5, 0, 0, 0, 0, 0, 0, 0, 0, 60, 117, 110, 107, 62, 0, 97, 0, 98, 0]"

definition crafted_file :: "u8 list" where
  "crafted_file = kenlm_header @
     [2, 0, 0, 0, 0, 0, 192, 63, 5, 0, 0, 0, 0, 0, 0, 0, 1, 0, 0, 0, 0, 0, 0, 0, 0, 0, 0, 128,
     0, 0, 0, 0, 0, 0, 0, 0, 0, 0, 0, 0, 0, 0, 0, 0, 0, 0, 0, 0, 2, 0, 0, 0, 0, 0, 0, 0, 0, 0,
     0, 0, 0, 0, 0, 0, 0, 0, 0, 0, 0, 0, 0, 0, 0, 0, 0, 0, 0, 0, 0, 0, 0, 0, 0, 0, 0, 0, 0, 0,
     0, 0, 0, 0]"

lemma sample_file_facts:
  "case parse_file kenlm_loader_init (section_of_memory sample_file) of Inl _ \<Rightarrow> False
   | Inr (ld, _) \<Rightarrow>
       list_all (\<lambda>c. unat c < 2 ^ 53) (ngram_counts (kl_lm ld)) \<and> lm_content (kl_lm ld) \<and>
       unat (ngram_counts (kl_lm ld) ! 0) = 3 \<and> with_vocabulary_strings ld \<and>
       find_ngram_ref (kl_lm ld) [1, 2, 1] = (Fin (- 1 / 4), [Fin (- 1 / 2), Fin (- 1 / 4), Fin 0])"
  by code_simp

lemma sample_file_short: "length sample_file = 332"
  by (simp add: sample_file_def kenlm_header_def KENLM_V5_FORMAT_MAGIC_NUMBER_bytes)

lemma crafted_file_short: "length crafted_file = 180"
  by (simp add: crafted_file_def kenlm_header_def KENLM_V5_FORMAT_MAGIC_NUMBER_bytes)

lemma file_good: "length bs < 2 ^ 61 \<Longrightarrow> good_section (section_of_memory bs)"
  using section_of_memory_ok [of bs] unat_of_nat_u64 [of "length bs"]
  by (simp add: good_section_def section_of_memory_def)

text \<open>
  C5: A model loaded from a file answers every n-gram lookup without exception or undefined
  behaviour and as the plain descent does. The loader establishes that all sections, record
  layouts, masks and tables fit together; of the file it is only assumed that the child ranges
  lie inside their layers with increasing words and that the high arrays start at 0 and do
  not decrease, which the loader does not check.
\<close>

theorem loaded_model_lookup:
  assumes "length bs < 2 ^ 61" "parse_file ld0 (section_of_memory bs) = Inr (ld, rest)"
    and "\<forall>c \<in> set (ngram_counts (kl_lm ld)). unat c < 2 ^ 53" "lm_content (kl_lm ld)"
    and "words \<noteq> []" "\<forall>w \<in> set words. unat w < unat (ngram_counts (kl_lm ld) ! 0)"
  shows "find_ngram (kl_lm ld) words = Some (Inr (find_ngram_ref (kl_lm ld) words))"
  using parse_file_shape [OF file_good [OF assms(1)] assms(2,3)] assms(4-6)
  by (intro find_ngram_eq_ref shape_content_ok)

theorem loaded_model_lookup_witness:
  "\<exists>ld rest. parse_file kenlm_loader_init (section_of_memory sample_file) = Inr (ld, rest) \<and>
     find_ngram (kl_lm ld) [1, 2, 1] = Some (Inr (Fin (- 1 / 4), [Fin (- 1 / 2), Fin (- 1 / 4), Fin 0]))"
proof -
  obtain ld rest where ld: "parse_file kenlm_loader_init (section_of_memory sample_file) = Inr (ld, rest)"
    "\<forall>c \<in> set (ngram_counts (kl_lm ld)). unat c < 2 ^ 53" "lm_content (kl_lm ld)"
    "unat (ngram_counts (kl_lm ld) ! 0) = 3"
    "find_ngram_ref (kl_lm ld) [1, 2, 1] = (Fin (- 1 / 4), [Fin (- 1 / 2), Fin (- 1 / 4), Fin 0])"
    using sample_file_facts by (auto split: sum.splits simp: list_all_iff)
  with loaded_model_lookup [OF _ ld(1-3), of "[1, 2, 1]"] sample_file_short show ?thesis by simp
qed

text \<open>
  C23: Parsing a file reaches undefined behaviour only if the file claims \<open>2 ^ 63\<close> or more
  n-grams of some order in its header; for every other file the loader returns or throws. The
  witness is a file of 180 bytes for which it happens, because the products that size its
  sections wrap around.
\<close>

theorem parse_file_undefined:
  assumes "length bs < 2 ^ 61" "parse_file ld0 (section_of_memory bs) = Inl Undefined"
  shows "\<exists>m1 ld m2. parse_header (set_base_offset (section_of_memory bs) 0) = Inr m1 \<and>
    parse_lm_config ld0 m1 = Inr (ld, m2) \<and> (\<exists>c \<in> set (ngram_counts (kl_lm ld)). 2 ^ 63 \<le> unat c)"
proof -
  let ?m = "set_base_offset (section_of_memory bs) 0"
  have ok: "section_ok ?m" using file_good [OF assms(1)] by (simp add: good_section_def)
  obtain m1 where h: "parse_header ?m = Inr m1"
    using assms(2) parse_header_spec [OF ok] by (auto simp: parse_file_def result_simps)
  then have ok1: "section_ok m1" using parse_header_spec [OF ok] ok inside_ok by blast
  obtain ld m2 where c: "parse_lm_config ld0 m1 = Inr (ld, m2)"
    using assms(2) h parse_lm_config_defined [OF ok1] by (auto simp: parse_file_def result_simps)
  note cs = parse_lm_config_spec [OF ok1 c]
  then have ok2: "section_ok m2" "ngram_counts (kl_lm ld) \<noteq> []" using ok1 inside_ok by auto
  obtain ld3 m3 where v: "parse_vocabulary ld m2 = Inr (ld3, m3)"
    using assms(2) h c parse_vocabulary_spec(1) [OF ok2] by (auto simp: parse_file_def result_simps)
  note vs = parse_vocabulary_spec(2) [OF ok2 v]
  have st: "parse_vocabulary_strings l m4 \<noteq> Inl Undefined" for l m4
    by (auto simp: parse_vocabulary_strings_def result_simps cut_defined Let_def split: prod.splits)
  have "parse_lm (kl_lm ld) m3 = Inl Undefined"
    using assms(2) h c v vs st by (auto simp: parse_file_def result_simps)
  with parse_lm_defined [of m3 "kl_lm ld"] cs vs ok2(1) inside_ok have "\<not> (\<forall>c \<in> set (ngram_counts (kl_lm ld)). unat c < 2 ^ 63)"
    by blast
  with h c show ?thesis by (auto simp: not_less)
qed

theorem parse_file_undefined_witness:
  "parse_file kenlm_loader_init (section_of_memory crafted_file) = Inl Undefined \<and>
   (\<exists>m1 ld m2. parse_lm_config kenlm_loader_init m1 = Inr (ld, m2) \<and>
     (\<exists>c \<in> set (ngram_counts (kl_lm ld)). 2 ^ 63 \<le> unat c))"
proof -
  have "parse_file kenlm_loader_init (section_of_memory crafted_file) = Inl Undefined" by code_simp
  moreover have "length crafted_file < 2 ^ 61" by (simp add: crafted_file_short)
  ultimately show ?thesis using parse_file_undefined [of crafted_file kenlm_loader_init] by blast
qed

text \<open>
  C24: The vocabulary of a loaded file fits its model: every word index is a valid unigram
  index, the hash table holds exactly the words other than \<^verbatim>\<open><unk>\<close>, and the section of word
  strings holds exactly one terminator per word, so that iterating over the strings never fails.
\<close>

theorem loaded_vocabulary:
  assumes "length bs < 2 ^ 61" "parse_file ld0 (section_of_memory bs) = Inr (ld, rest)"
  shows "num_words (kl_vocabulary ld) \<le> ngram_counts (kl_lm ld) ! 0 \<and>
    section_ok (word_hashes (kl_vocabulary ld)) \<and>
    ms_size (word_hashes (kl_vocabulary ld)) = 8 * (num_words (kl_vocabulary ld) - 1) \<and>
    length (filter (\<lambda>b. b = 0) (section_bytes (word_strings (kl_vocabulary ld)))) =
      unat (num_word_strings (kl_vocabulary ld)) \<and>
    iterate_word_strings (kl_vocabulary ld) \<noteq> Inl Runtime_error"
  using assms(2) good_sectionD [OF file_good [OF assms(1)]]
proof (rule parse_file_stages)
  fix m1 ld2 m2 ld3 m3 cfg m4
  assume s: "parse_lm_config ld0 m1 = Inr (ld2, m2)" "parse_vocabulary ld2 m2 = Inr (ld3, m3)"
      "parse_lm (kl_lm ld3) m3 = Inr (cfg, m4)" "parse_vocabulary_strings (ld3\<lparr>kl_lm := cfg\<rparr>) m4 = Inr (ld, rest)"
    and i: "inside m1 (set_base_offset (section_of_memory bs) 0)" "inside m2 m1" "inside m3 m2"
  have ok: "section_ok m1" "section_ok m2"
    using i file_good [OF assms(1)] inside_ok set_base_offset_good(2) good_sectionD by blast+
  note c = parse_lm_config_spec [OF ok(1) s(1)]
  then have "ngram_counts (kl_lm ld2) \<noteq> []" by auto
  note v = parse_vocabulary_spec(2) [OF ok(2) this s(2)]
  have "inside m4 m3" using parse_lm_inside [OF s(3)] c v by simp
  then have "section_ok m4" using i(3) ok(2) inside_ok inside_trans by blast
  note w = parse_vocabulary_strings_spec [OF this s(4)]
  then show ?thesis
    using v parse_lm_keeps [OF s(3)] iterate_word_strings_fail [of "kl_vocabulary ld"] ok(2) inside_ok by auto
qed

theorem loaded_vocabulary_witness:
  "\<exists>ld rest. parse_file kenlm_loader_init (section_of_memory sample_file) = Inr (ld, rest) \<and>
     iterate_word_strings (kl_vocabulary ld) \<noteq> Inl Runtime_error"
proof -
  obtain ld rest where "parse_file kenlm_loader_init (section_of_memory sample_file) = Inr (ld, rest)"
    using sample_file_facts by (auto split: sum.splits)
  with loaded_vocabulary [OF _ this] sample_file_short show ?thesis by simp
qed

text \<open>
  \<^verbatim>\<open>find_bhiksha_low_bits\<close> returns, for every value below \<open>2 ^ 63\<close>, a number of low bits that its
  contract allows, of the least storage cost among all of them, and the largest of that cost.
\<close>

theorem find_bhiksha_low_bits_optimal:
  assumes "unat max_value < 2 ^ 63" "0 \<le> max_high"
  shows "\<exists>r. find_bhiksha_low_bits max_index max_value (required_bits max_value) max_high = Inr r \<and>
    0 \<le> r \<and> r \<le> required_bits max_value \<and> required_bits max_value - r \<le> max_high \<and>
    (\<forall>l. max (required_bits max_value - max_high) 0 \<le> l \<longrightarrow> l \<le> required_bits max_value \<longrightarrow>
       bhiksha_cost max_index max_value (required_bits max_value) r \<le>
         bhiksha_cost max_index max_value (required_bits max_value) l \<and>
       (r < l \<longrightarrow> bhiksha_cost max_index max_value (required_bits max_value) r <
         bhiksha_cost max_index max_value (required_bits max_value) l))"
  using find_bhiksha_low_bits_min [of "required_bits max_value" max_high max_index max_value]
    small_bits [OF assms(1)] required_bits_bounds [of max_value] assms(2) by force

theorem find_bhiksha_low_bits_optimal_witness:
  "\<exists>r. find_bhiksha_low_bits 100 5 (required_bits 5) 2 = Inr r \<and>
     bhiksha_cost 100 5 (required_bits 5) r \<le> bhiksha_cost 100 5 (required_bits 5) 2"
proof -
  have "required_bits 5 = 3" by code_simp
  with find_bhiksha_low_bits_optimal [of 5 2 100] show ?thesis by fastforce
qed

text \<open>
  \<^verbatim>\<open>required_bits\<close> is the bit length: a value fits into \<open>k\<close> bits exactly if its result is at
  most \<open>k\<close>, and the result is between 0 and 64.
\<close>

theorem required_bits_correct:
  "(required_bits v \<le> int k \<longleftrightarrow> unat v < 2 ^ k) \<and> 0 \<le> required_bits v \<and> required_bits v \<le> 64"
  using required_bits_le_iff required_bits_bounds by blast

end
