(* ===== verification/Scorer.thy ===== *)
theory Scorer
  imports PathTrie KenlmLoader
begin

text \<open>
  The language model scorer, \<^verbatim>\<open>scorer_base.cpp\<close> and \<^verbatim>\<open>scorer_yoklm.cpp\<close>: loading a model, turning its
  vocabulary into the prefix dictionary of the decoder, cutting n-grams out of a prefix of the
  trie, deciding where a prefix is to be scored, and the scores themselves. \<^verbatim>\<open>ScorerYoklm\<close> is the
  only class derived from \<^verbatim>\<open>ScorerBase\<close>; one record holds the members of both. Assertions are
  compiled out, as the extension module is built with \<^verbatim>\<open>NDEBUG\<close>.
\<close>

section \<open>State\<close>

record scorer =
  sc_alpha :: cfloat
  sc_beta :: cfloat
  sc_dictionary :: "word_prefix_set option"
  is_character_based :: bool
  max_order :: u64
  sc_vocabulary :: "bytes list"
  dict_size :: nat
  space_id :: int
  char_list :: "bytes list"
  char_map :: "bytes \<rightharpoonup> int"
  lm_vocabulary :: vocabulary
  language_model :: lm_config

definition OOV_SCORE :: cfloat where
  "OOV_SCORE = Fin (- 1000)"

definition START_TOKEN :: bytes where
  "START_TOKEN = bytes_of_string ''<s>''"

definition UNK_TOKEN :: bytes where
  "UNK_TOKEN = bytes_of_string ''<unk>''"

definition END_TOKEN :: bytes where
  "END_TOKEN = bytes_of_string ''</s>''"

definition NUM_FLT_LOGE :: cfloat where
  "NUM_FLT_LOGE = f32_round (4342944819 / 10000000000)"

section \<open>Set-up\<close>

text \<open>\<^verbatim>\<open>load_lm\<close>: the file system is an argument; \<^verbatim>\<open>utf-8 mode\<close> is not printed.\<close>

definition character_based :: "bytes list \<Rightarrow> bool" where
  "character_based vocab =
     foldl (\<lambda>cb w. if cb \<and> w \<noteq> UNK_TOKEN \<and> w \<noteq> START_TOKEN \<and> w \<noteq> END_TOKEN \<and> get_utf8_str_len w > 1
                   then False else cb) True vocab"

definition load_lm :: "(string \<Rightarrow> (nat \<times> u8 list) option) \<Rightarrow> string \<Rightarrow> scorer \<Rightarrow> scorer result option" where
  "load_lm fs lm_path sc =
     obind (Some (parse_filename fs kenlm_loader_init lm_path)) (\<lambda>(ld, _).
     obind (load_vocabulary (kl_vocabulary ld)) (\<lambda>voc.
     obind (Some (iterate_word_strings (voc_config voc))) (\<lambda>(_, calls).
       (let vocab = map snd calls
        in Some (Inr (sc\<lparr>lm_vocabulary := voc, language_model := kl_lm ld, max_order := of_nat (lm_order (kl_lm ld)),
             sc_vocabulary := vocab, is_character_based := character_based vocab\<rparr>))))))"

definition set_char_map :: "bytes list \<Rightarrow> scorer \<Rightarrow> scorer" where
  "set_char_map chars sc =
     foldl (\<lambda>sc (i, c).
        (let sc1 = (if c = bytes_of_string '' '' \<and> length chars \<noteq> 255 then sc\<lparr>space_id := int i\<rparr> else sc)
         in sc1\<lparr>char_map := (char_map sc1)(c \<mapsto> int i + 1)\<rparr>))
       (sc\<lparr>char_list := chars, char_map := Map.empty,
           space_id := (if length chars = 255 then 31 else space_id sc)\<rparr>)
       (enumerate 0 chars)"

definition fill_dictionary :: "bool \<Rightarrow> scorer \<Rightarrow> scorer" where
  "fill_dictionary add_space sc =
     (let int_vocabulary = foldl (\<lambda>voc word. snd (add_word_to_dictionary word (char_map sc) add_space (space_id sc + 1) voc))
            [] (sc_vocabulary sc);
          (n, dict) = add_words int_vocabulary
      in sc\<lparr>sc_dictionary := Some dict, dict_size := n\<rparr>)"

text \<open>The default alphabet: all bytes but 0, each a string of its own.\<close>

definition vocab_utf8 :: "bytes list" where
  "vocab_utf8 = map (\<lambda>i. [of_nat (i + 1)]) [0..<255]"

definition setup_scorer ::
  "(string \<Rightarrow> (nat \<times> u8 list) option) \<Rightarrow> string \<Rightarrow> bytes list \<Rightarrow> scorer \<Rightarrow> scorer result option" where
  "setup_scorer fs lm_path vocab_list sc =
     obind (load_lm fs lm_path sc) (\<lambda>sc1.
       (let sc2 = set_char_map (if vocab_list = [] then vocab_utf8 else vocab_list) sc1
        in Some (Inr (fill_dictionary (\<not> is_character_based sc2) sc2))))"

text \<open>The constructor; the model and its vocabulary are there once \<^verbatim>\<open>load_lm\<close> has returned.\<close>

definition scorer_init :: "cfloat \<Rightarrow> cfloat \<Rightarrow> scorer" where
  "scorer_init alpha beta =
     \<lparr>sc_alpha = alpha, sc_beta = beta, sc_dictionary = None, is_character_based = True, max_order = 0,
      sc_vocabulary = [], dict_size = 0, space_id = - 1, char_list = [], char_map = Map.empty,
      lm_vocabulary = \<lparr>voc_config = kl_vocabulary kenlm_loader_init, voc_bos = 0, voc_eos = 0\<rparr>,
      language_model = kl_lm kenlm_loader_init\<rparr>"

definition make_scorer ::
  "(string \<Rightarrow> (nat \<times> u8 list) option) \<Rightarrow> cfloat \<Rightarrow> cfloat \<Rightarrow> string \<Rightarrow> bytes list \<Rightarrow> scorer result option" where
  "make_scorer fs alpha beta lm_path vocab_list = setup_scorer fs lm_path vocab_list (scorer_init alpha beta)"

definition reset_params :: "cfloat \<Rightarrow> cfloat \<Rightarrow> scorer \<Rightarrow> scorer" where
  "reset_params alpha beta sc = sc\<lparr>sc_alpha := alpha, sc_beta := beta\<rparr>"

section \<open>Scores\<close>

fun cond_prob_loop :: "scorer \<Rightarrow> bytes list \<Rightarrow> cfloat \<Rightarrow> lm_state \<Rightarrow> cfloat result option" where
  "cond_prob_loop sc [] cond_prob st =
     Some (Inr (f64_mul cond_prob (case NUM_FLT_LOGE of Fin x \<Rightarrow> f64_round (1 / x) | _ \<Rightarrow> NaN)))"
| "cond_prob_loop sc (w # ws) cond_prob st =
     obind (find_word (voc_config (lm_vocabulary sc)) w) (\<lambda>word_index.
       if word_index = 0 then Some (Inr OOV_SCORE)
       else obind (log10_p_cond (language_model sc) word_index st) (\<lambda>(p, st'). cond_prob_loop sc ws p st'))"

definition get_log_cond_prob :: "scorer \<Rightarrow> bytes list \<Rightarrow> cfloat result option" where
  "get_log_cond_prob sc words = cond_prob_loop sc words (Fin 0) \<lparr>backoffs = [], context_words = []\<rparr>"

text \<open>\<^verbatim>\<open>get_log_prob\<close>: the first argument counts the iterations that are left.\<close>

fun log_prob_loop :: "nat \<Rightarrow> scorer \<Rightarrow> bytes list \<Rightarrow> nat \<Rightarrow> cfloat \<Rightarrow> cfloat result option" where
  "log_prob_loop 0 sc words i score = Some (Inr score)"
| "log_prob_loop (Suc n) sc words i score =
     (if i + unat (max_order sc) \<le> length words
      then obind (get_log_cond_prob sc (take (unat (max_order sc)) (drop i words)))
             (\<lambda>p. log_prob_loop n sc words (i + 1) (f64_add score p))
      else Some (Inl Undefined))"

definition get_log_prob :: "scorer \<Rightarrow> bytes list \<Rightarrow> cfloat result option" where
  "get_log_prob sc words = log_prob_loop (unat (of_nat (length words) - max_order sc + 1)) sc words 0 (Fin 0)"

definition get_sent_log_prob :: "scorer \<Rightarrow> bytes list \<Rightarrow> cfloat result option" where
  "get_sent_log_prob sc words =
     get_log_prob sc
       ((if words = [] then replicate (unat (max_order sc)) START_TOKEN
         else replicate (unat (max_order sc - 1)) START_TOKEN @ words) @ [END_TOKEN])"

section \<open>Prefixes and words\<close>

fun vec2str :: "scorer \<Rightarrow> int list \<Rightarrow> bytes result" where
  "vec2str sc [] = Inr []"
| "vec2str sc (ind # inds) =
     rbind (if ind < 0 then Inl Undefined else vec_at (char_list sc) (nat ind)) (\<lambda>c.
     rbind (vec2str sc inds) (\<lambda>s. Inr (c @ s)))"

definition split_labels :: "scorer \<Rightarrow> int list \<Rightarrow> bytes list result option" where
  "split_labels sc labels =
     (if labels = [] then Some (Inr [])
      else
        obind (Some (vec2str sc labels)) (\<lambda>s.
          if is_character_based sc then Some (Inr (split_utf8_str s))
          else map_option Inr (split_str s (bytes_of_string '' ''))))"

text \<open>\<^verbatim>\<open>make_ngram\<close>: the first argument is \<^verbatim>\<open>max_order_ - order\<close>.\<close>

fun make_ngram_loop :: "nat \<Rightarrow> trie_heap \<Rightarrow> scorer \<Rightarrow> nat option \<Rightarrow> bytes list \<Rightarrow> bytes list result option" where
  "make_ngram_loop 0 h sc current ngram = Some (Inr (rev ngram))"
| "make_ngram_loop (Suc k) h sc current ngram =
     (case current of
        None \<Rightarrow> Some (Inr (rev (ngram @ replicate k START_TOKEN)))
      | Some a \<Rightarrow>
          obind (Some (deref h a)) (\<lambda>nd.
            if node_char nd = - 1 then Some (Inr (rev (ngram @ replicate k START_TOKEN)))
            else
              obind (if is_character_based sc then get_prev_grapheme h a (char_list sc)
                     else get_path_vec_stop h a (space_id sc)) (\<lambda>(new_node, prefix_vec, _).
              obind (Some (deref h new_node)) (\<lambda>new_nd.
              obind (Some (vec2str sc prefix_vec)) (\<lambda>word.
                if node_char new_nd = - 1
                then Some (Inr (rev (ngram @ [word] @ replicate k START_TOKEN)))
                else make_ngram_loop k h sc (node_parent new_nd) (ngram @ [word]))))))"

definition make_ngram :: "trie_heap \<Rightarrow> scorer \<Rightarrow> nat \<Rightarrow> bytes list result option" where
  "make_ngram h sc prefix_node = make_ngram_loop (unat (max_order sc)) h sc (Some prefix_node) []"

text \<open>
  \<^verbatim>\<open>distance_to_codepoint_boundary\<close>, with the byte it writes through its pointer: \<open>None\<close> if it
  writes nothing.
\<close>

fun distance_loop :: "nat \<Rightarrow> trie_heap \<Rightarrow> scorer \<Rightarrow> nat \<Rightarrow> (nat \<times> u8 option) result option" where
  "distance_loop 0 h sc a = None"
| "distance_loop (Suc n) h sc a =
     obind (Some (deref h a)) (\<lambda>nd.
     obind (Some (first_byte_of (char_list sc) (node_char nd))) (\<lambda>b.
       if byte_is_codepoint_boundary b
       then Some (Inr (1, Some (word_of_int (node_char nd) + 1)))
       else
         (case node_parent nd of
            None \<Rightarrow> Some (Inr (0, None))
          | Some p \<Rightarrow>
              obind (Some (deref h p)) (\<lambda>pnd.
                if node_char pnd \<noteq> ROOT
                then obind (distance_loop n h sc p) (\<lambda>(d, fb). Some (Inr (1 + d, fb)))
                else Some (Inr (0, None))))))"

definition distance_to_codepoint_boundary :: "trie_heap \<Rightarrow> scorer \<Rightarrow> nat \<Rightarrow> (nat \<times> u8 option) result option" where
  "distance_to_codepoint_boundary h sc a = distance_loop (length h) h sc a"

text \<open>The number of bytes a character has according to its first byte.\<close>

definition needed_bytes :: "u8 \<Rightarrow> nat option" where
  "needed_bytes first_byte =
     (if drop_bit 3 first_byte = 30 then Some 4
      else if drop_bit 4 first_byte = 14 then Some 3
      else if drop_bit 5 first_byte = 6 then Some 2
      else if drop_bit 7 first_byte = 0 then Some 1
      else None)"

definition is_scoring_boundary :: "trie_heap \<Rightarrow> scorer \<Rightarrow> nat \<Rightarrow> int \<Rightarrow> bool result option" where
  "is_scoring_boundary h sc prefix_node new_label =
     (if is_character_based sc
      then
        obind (Some (deref h prefix_node)) (\<lambda>nd.
          if node_char nd = - 1 then Some (Inr False)
          else
            obind (distance_to_codepoint_boundary h sc prefix_node) (\<lambda>(distance, first_byte).
              (case first_byte of
                 None \<Rightarrow> Some (Inl Undefined)
               | Some b \<Rightarrow> (case needed_bytes b of None \<Rightarrow> Some (Inr False) | Some n \<Rightarrow> Some (Inr (distance = n))))))
      else Some (Inr (new_label = space_id sc)))"

section \<open>Sums of scores\<close>

definition scorer_ok :: "scorer \<Rightarrow> bool" where
  "scorer_ok sc \<longleftrightarrow> vocabulary_ok (voc_config (lm_vocabulary sc)) \<and> lm_ok (language_model sc) \<and>
     num_words (voc_config (lm_vocabulary sc)) \<le> ngram_counts (language_model sc) ! 0"

lemma cond_prob_loop_total:
  assumes "scorer_ok sc" "state_ok (language_model sc) st"
  shows "\<exists>p. cond_prob_loop sc words q st = Some (Inr p) \<and>
    ((\<exists>w \<in> set words. find_word (voc_config (lm_vocabulary sc)) w = Some (Inr 0)) \<longrightarrow> p = OOV_SCORE)"
  using assms(2)
proof (induction words arbitrary: q st)
  case (Cons w words)
  let ?voc = "voc_config (lm_vocabulary sc)" and ?lm = "language_model sc"
  from assms(1) find_hash_cases [of ?voc "word_hash w"] obtain i where
    i: "find_word ?voc w = Some (Inr i)" "i = 0 \<or> unat i < unat (num_words ?voc)"
    by (auto simp: scorer_ok_def find_word_def)
  show ?case
  proof (cases "i = 0")
    case False
    with i(2) assms(1) have "unat i < unat (ngram_counts ?lm ! 0)" by (simp add: scorer_ok_def word_le_nat_alt)
    then obtain p st' where "log10_p_cond ?lm i st = Some (Inr (p, st'))" "state_ok ?lm st'"
      using log10_p_cond_step [of ?lm st i] Cons.prems assms(1) by (metis prod.exhaust scorer_ok_def)
    with Cons.IH [of st' p] i(1) False show ?thesis by auto
  qed (use i(1) in simp)
qed simp

lemma get_log_cond_prob_spec:
  assumes "scorer_ok sc"
  shows "\<exists>p. get_log_cond_prob sc words = Some (Inr p) \<and>
    ((\<exists>w \<in> set words. find_word (voc_config (lm_vocabulary sc)) w = Some (Inr 0)) \<longrightarrow> p = OOV_SCORE)"
  using cond_prob_loop_total [OF assms, of "\<lparr>backoffs = [], context_words = []\<rparr>" words "Fin 0"]
  by (simp add: get_log_cond_prob_def state_ok_def)

text \<open>The reference: the scores of all windows of \<open>n\<close> consecutive words, added up from the left.\<close>

definition windows :: "nat \<Rightarrow> 'a list \<Rightarrow> 'a list list" where
  "windows n xs = map (\<lambda>i. take n (drop i xs)) [0..<length xs + 1 - n]"

fun sum_scores :: "scorer \<Rightarrow> bytes list list \<Rightarrow> cfloat \<Rightarrow> cfloat result option" where
  "sum_scores sc [] s = Some (Inr s)"
| "sum_scores sc (w # ws) s = obind (get_log_cond_prob sc w) (\<lambda>p. sum_scores sc ws (f64_add s p))"

lemma log_prob_loop_windows:
  assumes "i + n + unat (max_order sc) \<le> length words + 1"
  shows "log_prob_loop n sc words i s =
    sum_scores sc (map (\<lambda>i. take (unat (max_order sc)) (drop i words)) [i..<i + n]) s"
  using assms
proof (induction n arbitrary: i s)
  case (Suc n)
  have "[i..<i + Suc n] = i # [i + 1..<i + 1 + n]" by (simp add: upt_conv_Cons)
  with Suc show ?case by (simp del: upt_Suc)
qed simp

lemma get_log_prob_windows:
  assumes "unat (max_order sc) \<le> length words" "length words < 18446744073709551615"
  shows "get_log_prob sc words = sum_scores sc (windows (unat (max_order sc)) words) (Fin 0)"
proof -
  have l: "unat (of_nat (length words) :: u64) = length words"
    using assms(2) by (simp add: unat_of_nat take_bit_nat_eq_self)
  have le: "max_order sc \<le> of_nat (length words)" using assms(1) l by (simp add: word_le_nat_alt)
  have "unat (of_nat (length words) - max_order sc) = length words - unat (max_order sc)"
    using unat_sub [OF le] l by simp
  then have "unat (of_nat (length words) - max_order sc + 1) = length words - unat (max_order sc) + 1"
    using assms(2) by (subst unat_Suc_no_wrap) auto
  with assms(1) show ?thesis
    using log_prob_loop_windows [of 0 "length words - unat (max_order sc) + 1" sc words "Fin 0"]
    by (simp add: get_log_prob_def windows_def Suc_diff_le del: upt_Suc log_prob_loop.simps)
qed

definition sentence :: "scorer \<Rightarrow> bytes list \<Rightarrow> bytes list" where
  "sentence sc words =
     replicate (unat (max_order sc) - (if words = [] then 0 else 1)) START_TOKEN @ words @ [END_TOKEN]"

lemma get_sent_log_prob_windows:
  assumes "max_order sc \<noteq> 0" "length words + unat (max_order sc) < 18446744073709551614"
  shows "get_sent_log_prob sc words = sum_scores sc (windows (unat (max_order sc)) (sentence sc words)) (Fin 0)"
proof -
  have u: "unat (max_order sc - 1) = unat (max_order sc) - 1" using assms(1) by (rule unat_minus_one)
  have "get_sent_log_prob sc words = get_log_prob sc (sentence sc words)"
    by (simp add: get_sent_log_prob_def sentence_def u)
  also have "\<dots> = sum_scores sc (windows (unat (max_order sc)) (sentence sc words)) (Fin 0)"
    using assms(2) by (intro get_log_prob_windows) (auto simp: sentence_def)
  finally show ?thesis .
qed

section \<open>N-grams of a path\<close>

lemma path_to_cases:
  assumes "trie_ok h" "path_to h a ts"
  obtains (root) r where "ts = []" "a = 0" "node_at h 0 = Some r" "node_char r = ROOT" "node_parent r = None"
  | (child) p ts' nd where "ts = ts' @ [node_char nd]" "path_to h p ts'" "node_at h a = Some nd" "node_parent nd = Some p"
      "0 \<le> node_char nd" "p < a"
  using assms(2)
proof cases
  case path_root
  with trie_ok_root [OF assms(1)] root show ?thesis by blast
next
  case (path_child p ts' nd)
  from parent_node [OF assms(1) path_child(3,4)] have "p < a" "a \<noteq> 0" by blast+
  with path_child child trie_okD(3) [OF assms(1) path_child(3)] show ?thesis by blast
qed

lemma path_vec_stop_spec:
  assumes ok: "trie_ok h" and "path_to h a ts" "a < n" "length out + a < m"
  shows "\<exists>b times. path_vec_loop n h a sp m out steps =
      Some (Inr (b, rev (takeWhile (\<lambda>c. c \<noteq> sp) (rev ts)) @ rev out, times)) \<and>
    path_to h b (rev (dropWhile (\<lambda>c. c \<noteq> sp) (rev ts)))"
  using assms(2-4)
proof (induction n arbitrary: a ts out steps)
  case (Suc n)
  from ok Suc.prems(1) show ?case
  proof (cases rule: path_to_cases)
    case (root r)
    with Suc.prems(1) show ?thesis by (simp add: heap_simps)
  next
    case (child p ts' nd)
    show ?thesis
    proof (cases "node_char nd = sp")
      case True
      with child Suc.prems(1) show ?thesis by (simp add: heap_simps)
    next
      case False
      have "path_vec_loop (Suc n) h a sp m out steps =
          path_vec_loop n h p sp m (out @ [node_char nd]) (steps @ [node_time nd])"
        using child(3-5) False Suc.prems(3) by (simp add: heap_simps ROOT_def)
      with Suc.IH [OF child(2), of "out @ [node_char nd]" "steps @ [node_time nd]"] child(1,6) False Suc.prems(2,3)
      show ?thesis by simp
    qed
  qed
qed simp

definition lead_byte :: "scorer \<Rightarrow> int \<Rightarrow> u8" where
  "lead_byte sc c = (case char_list sc ! nat c of [] \<Rightarrow> 0 | b # _ \<Rightarrow> b)"

definition is_boundary :: "scorer \<Rightarrow> int \<Rightarrow> bool" where
  "is_boundary sc c \<longleftrightarrow> byte_is_codepoint_boundary (lead_byte sc c)"

definition labels_ok :: "scorer \<Rightarrow> int list \<Rightarrow> bool" where
  "labels_ok sc ts \<longleftrightarrow> (\<forall>c \<in> set ts. 0 \<le> c \<and> nat c < length (char_list sc))"

lemma first_byte_of_label: "0 \<le> c \<Longrightarrow> nat c < length (char_list sc) \<Longrightarrow> first_byte_of (char_list sc) c = Inr (lead_byte sc c)"
  by (simp add: first_byte_of_def lead_byte_def)

lemma prev_grapheme_spec:
  assumes ok: "trie_ok h" and "path_to h a ts" "a < n" "labels_ok sc ts"
  shows "\<exists>b times. prev_grapheme_loop n h a (char_list sc) =
      Some (Inr (b, rev (takeWhile (\<lambda>c. \<not> is_boundary sc c) (rev ts) @ take 1 (dropWhile (\<lambda>c. \<not> is_boundary sc c) (rev ts))), times)) \<and>
    path_to h b (rev (dropWhile (\<lambda>c. \<not> is_boundary sc c) (rev ts)))"
  using assms(2-4)
proof (induction n arbitrary: a ts)
  case (Suc n)
  from ok Suc.prems(1) show ?case
  proof (cases rule: path_to_cases)
    case (root r)
    with Suc.prems(1) show ?thesis by (simp add: heap_simps)
  next
    case (child p ts' nd)
    have fb: "first_byte_of (char_list sc) (node_char nd) = Inr (lead_byte sc (node_char nd))"
      using Suc.prems(3) child(1) by (intro first_byte_of_label) (auto simp: labels_ok_def)
    have nr: "node_char nd \<noteq> ROOT" using child(5) by (simp add: ROOT_def)
    show ?thesis
    proof (cases "is_boundary sc (node_char nd)")
      case True
      with child(1,3) fb nr Suc.prems(1) show ?thesis by (auto simp: heap_simps is_boundary_def)
    next
      case False
      have "labels_ok sc ts'" "p < n" using Suc.prems(2,3) child(1,6) by (auto simp: labels_ok_def)
      with Suc.IH [OF child(2)] obtain b times where
        "prev_grapheme_loop n h p (char_list sc) =
          Some (Inr (b, rev (takeWhile (\<lambda>c. \<not> is_boundary sc c) (rev ts') @ take 1 (dropWhile (\<lambda>c. \<not> is_boundary sc c) (rev ts'))), times))"
        "path_to h b (rev (dropWhile (\<lambda>c. \<not> is_boundary sc c) (rev ts')))" by blast
      with False child fb nr show ?thesis by (simp add: heap_simps is_boundary_def)
    qed
  qed
qed simp

text \<open>
  The reference: an n-gram read off the labels of a path, last label first. A unit is a word or
  a character; what is left when the path ends inside the first unit is filled with start
  tokens.
\<close>

definition unit_end :: "scorer \<Rightarrow> int \<Rightarrow> bool" where
  "unit_end sc c \<longleftrightarrow> (if is_character_based sc then is_boundary sc c else c = space_id sc)"

definition last_unit :: "scorer \<Rightarrow> int list \<Rightarrow> int list \<times> int list option" where
  "last_unit sc rts =
     (let rest = dropWhile (\<lambda>c. \<not> unit_end sc c) rts
      in (takeWhile (\<lambda>c. \<not> unit_end sc c) rts @ (if is_character_based sc then take 1 rest else []),
          case rest of [] \<Rightarrow> None | _ # rest' \<Rightarrow> Some rest'))"

definition spell :: "scorer \<Rightarrow> int list \<Rightarrow> bytes" where
  "spell sc ts = concat (map (\<lambda>c. char_list sc ! nat c) ts)"

fun ngram_ref :: "scorer \<Rightarrow> nat \<Rightarrow> int list \<Rightarrow> bytes list" where
  "ngram_ref sc 0 rts = []"
| "ngram_ref sc (Suc k) rts =
     (if rts = [] then replicate k START_TOKEN
      else (case last_unit sc rts of
              (w, None) \<Rightarrow> spell sc (rev w) # replicate k START_TOKEN
            | (w, Some rest) \<Rightarrow> spell sc (rev w) # ngram_ref sc k rest))"

lemma vec2str_spell: "labels_ok sc ts \<Longrightarrow> vec2str sc ts = Inr (spell sc ts)"
  by (induction ts) (auto simp: spell_def labels_ok_def)

lemma unit_found:
  assumes ok: "trie_ok h" and path: "path_to h a ts" and "labels_ok sc ts" "length h \<le> 18446744073709551615"
    and "last_unit sc (rev ts) = (w, r)"
  shows "\<exists>b times nd. (if is_character_based sc then get_prev_grapheme h a (char_list sc)
      else get_path_vec_stop h a (space_id sc)) = Some (Inr (b, rev w, times)) \<and> node_at h b = Some nd \<and>
    (case r of None \<Rightarrow> node_char nd = - 1
     | Some rest \<Rightarrow> node_char nd \<noteq> - 1 \<and> (\<exists>p. node_parent nd = Some p \<and> path_to h p (rev rest)))"
proof -
  obtain and0 where a: "node_at h a = Some and0" using path by (cases rule: path_to.cases) auto
  note lt = node_at_bound [OF a]
  have stop: "\<exists>nd. node_at h b = Some nd \<and> (case xs of [] \<Rightarrow> node_char nd = - 1
     | c # rest \<Rightarrow> node_char nd \<noteq> - 1 \<and> (\<exists>p. node_parent nd = Some p \<and> path_to h p (rev rest)))"
    if "path_to h b (rev xs)" for b xs
    using ok that
  proof (cases rule: path_to_cases)
    case (child p ts' nd)
    then have "xs = node_char nd # rev ts'" by (metis rev_rev_ident rev_swap rev_append rev_singleton_conv append_Cons append_Nil)
    with child show ?thesis by auto
  qed (simp add: ROOT_def)
  show ?thesis
  proof (cases "is_character_based sc")
    case True
    let ?P = "\<lambda>c. \<not> is_boundary sc c"
    from prev_grapheme_spec [OF ok path lt assms(3)] obtain b times where
      b: "get_prev_grapheme h a (char_list sc) =
        Some (Inr (b, rev (takeWhile ?P (rev ts) @ take 1 (dropWhile ?P (rev ts))), times))"
      "path_to h b (rev (dropWhile ?P (rev ts)))" by (auto simp: get_prev_grapheme_def)
    have "w = takeWhile ?P (rev ts) @ take 1 (dropWhile ?P (rev ts))"
      "r = (case dropWhile ?P (rev ts) of [] \<Rightarrow> None | c # rest \<Rightarrow> Some rest)"
      using assms(5) True by (simp_all add: last_unit_def unit_end_def Let_def)
    with b stop [OF b(2)] True show ?thesis by (auto split: list.splits)
  next
    case False
    let ?P = "\<lambda>c. c \<noteq> space_id sc"
    from path_vec_stop_spec [OF ok path lt, of "[]" 18446744073709551615 "space_id sc" "[]"] assms(4) lt obtain b times where
      b: "get_path_vec_stop h a (space_id sc) = Some (Inr (b, rev (takeWhile ?P (rev ts)), times))"
      "path_to h b (rev (dropWhile ?P (rev ts)))" by (auto simp: get_path_vec_stop_def)
    have "w = takeWhile ?P (rev ts)" "r = (case dropWhile ?P (rev ts) of [] \<Rightarrow> None | c # rest \<Rightarrow> Some rest)"
      using assms(5) False by (simp_all add: last_unit_def unit_end_def Let_def)
    with b stop [OF b(2)] False show ?thesis by (auto split: list.splits)
  qed
qed

lemma last_unit_labels:
  assumes "labels_ok sc (rev rts)" "last_unit sc rts = (w, r)"
  shows "labels_ok sc (rev w)" "r = Some rest \<Longrightarrow> labels_ok sc (rev rest)"
proof -
  let ?d = "dropWhile (\<lambda>c. \<not> unit_end sc c) rts"
  have rts: "set rts = set (takeWhile (\<lambda>c. \<not> unit_end sc c) rts) \<union> set ?d"
    by (metis set_append takeWhile_dropWhile_id)
  have "set (take 1 ?d) \<subseteq> set ?d" by (rule set_take_subset)
  then have "set w \<subseteq> set rts" using assms(2) rts by (auto simp: last_unit_def Let_def split: if_splits)
  with assms(1) show "labels_ok sc (rev w)" by (auto simp: labels_ok_def)
  assume "r = Some rest"
  then have "set rest \<subseteq> set ?d" using assms(2) by (auto simp: last_unit_def Let_def split: list.splits)
  with assms(1) rts show "labels_ok sc (rev rest)" by (auto simp: labels_ok_def)
qed

lemma make_ngram_loop_ref:
  assumes ok: "trie_ok h" and "length h \<le> 18446744073709551615" and "path_to h a ts" "labels_ok sc ts"
  shows "make_ngram_loop k h sc (Some a) ngram = Some (Inr (rev (ngram @ ngram_ref sc k (rev ts))))"
  using assms(3,4)
proof (induction k arbitrary: a ts ngram)
  case (Suc k)
  show ?case
  proof (cases "ts = []")
    case True
    from ok Suc.prems(1) show ?thesis by (cases rule: path_to_cases) (use True in \<open>auto simp: heap_simps ROOT_def\<close>)
  next
    case False
    obtain w r where u: "last_unit sc (rev ts) = (w, r)" by fastforce
    obtain nd where nd: "node_at h a = Some nd" "node_char nd \<noteq> - 1"
      using path_to_cases [OF ok Suc.prems(1)] False by (metis neg_0_le_iff_le not_one_le_zero)
    obtain b times bnd where b: "(if is_character_based sc then get_prev_grapheme h a (char_list sc)
        else get_path_vec_stop h a (space_id sc)) = Some (Inr (b, rev w, times))" "node_at h b = Some bnd"
      "case r of None \<Rightarrow> node_char bnd = - 1
       | Some rest \<Rightarrow> node_char bnd \<noteq> - 1 \<and> (\<exists>p. node_parent bnd = Some p \<and> path_to h p (rev rest))"
      using unit_found [OF ok Suc.prems(1,2) assms(2) u] by blast
    have "labels_ok sc (rev (rev ts))" using Suc.prems(2) by simp
    note lab = last_unit_labels [OF this u]
    have word: "vec2str sc (rev w) = Inr (spell sc (rev w))" using lab(1) by (rule vec2str_spell)
    have step: "make_ngram_loop (Suc k) h sc (Some a) ngram =
      (if node_char bnd = - 1 then Some (Inr (rev (ngram @ [spell sc (rev w)] @ replicate k START_TOKEN)))
       else make_ngram_loop k h sc (node_parent bnd) (ngram @ [spell sc (rev w)]))"
      using nd b(1,2) word by (simp add: heap_simps)
    show ?thesis
    proof (cases r)
      case None
      with step b(3) u False show ?thesis by simp
    next
      case (Some rest)
      with b(3) obtain p where p: "node_char bnd \<noteq> - 1" "node_parent bnd = Some p" "path_to h p (rev rest)" by auto
      from Suc.IH [OF p(3), of "ngram @ [spell sc (rev w)]"] lab(2) [OF Some] step p(1,2) u False Some
      show ?thesis by simp
    qed
  qed
qed simp

section \<open>Scoring boundaries\<close>

lemma distance_loop_spec:
  assumes ok: "trie_ok h" and "path_to h a ts" "ts \<noteq> []" "a < n" "labels_ok sc ts"
  shows "distance_loop n h sc a =
    (case dropWhile (\<lambda>c. \<not> is_boundary sc c) (rev ts) of
       [] \<Rightarrow> Some (Inr (length ts - 1, None))
     | c # _ \<Rightarrow> Some (Inr (length (takeWhile (\<lambda>c. \<not> is_boundary sc c) (rev ts)) + 1, Some (word_of_int c + 1))))"
  using assms(2-5)
proof (induction n arbitrary: a ts)
  case (Suc n)
  from ok Suc.prems(1) show ?case
  proof (cases rule: path_to_cases)
    case root
    with Suc.prems(2) show ?thesis by simp
  next
    case (child p ts' nd)
    have fb: "first_byte_of (char_list sc) (node_char nd) = Inr (lead_byte sc (node_char nd))"
      using Suc.prems(4) child(1) by (intro first_byte_of_label) (auto simp: labels_ok_def)
    show ?thesis
    proof (cases "is_boundary sc (node_char nd)")
      case True
      with child(1,3) fb show ?thesis by (simp add: heap_simps is_boundary_def)
    next
      case False
      obtain pnd where pnd: "node_at h p = Some pnd" using child(2) by (cases rule: path_to.cases) auto
      show ?thesis
      proof (cases "ts' = []")
        case True
        with path_to_cases [OF ok child(2)] pnd have "node_char pnd = ROOT" by (metis append_is_Nil_conv not_Cons_self2 option.inject)
        with child(1,3,4) fb False True pnd show ?thesis by (simp add: heap_simps is_boundary_def)
      next
        case nonempty: False
        have "node_char pnd \<noteq> ROOT"
          using path_to_cases [OF ok child(2)] pnd nonempty unfolding ROOT_def
          by (metis neg_0_le_iff_le not_one_le_zero option.inject)
        moreover have "labels_ok sc ts'" "p < n" using Suc.prems(3,4) child(1,6) by (auto simp: labels_ok_def)
        moreover from this have "distance_loop n h sc p = (case dropWhile (\<lambda>c. \<not> is_boundary sc c) (rev ts') of
            [] \<Rightarrow> Some (Inr (length ts' - 1, None))
          | c # _ \<Rightarrow> Some (Inr (length (takeWhile (\<lambda>c. \<not> is_boundary sc c) (rev ts')) + 1, Some (word_of_int c + 1))))"
          by (intro Suc.IH [OF child(2) nonempty])
        moreover have "0 < length ts'" using nonempty by simp
        ultimately show ?thesis
          using child(1,3,4) fb False False [unfolded is_boundary_def] pnd
          by (cases "dropWhile (\<lambda>c. \<not> is_boundary sc c) (rev ts')")
            (simp_all add: heap_simps del: dropWhile_eq_Nil_conv)
      qed
    qed
  qed
qed simp

lemma is_scoring_boundary_spec:
  assumes ok: "trie_ok h" and path: "path_to h a ts" and "ts \<noteq> []" "labels_ok sc ts" "is_character_based sc"
  shows "is_scoring_boundary h sc a l =
    (case dropWhile (\<lambda>c. \<not> is_boundary sc c) (rev ts) of
       [] \<Rightarrow> Some (Inl Undefined)
     | c # _ \<Rightarrow> Some (Inr (needed_bytes (word_of_int c + 1) =
         Some (length (takeWhile (\<lambda>c. \<not> is_boundary sc c) (rev ts)) + 1))))"
proof -
  obtain nd where nd: "node_at h a = Some nd" "node_char nd \<noteq> - 1"
    using path_to_cases [OF ok path] assms(3) by (metis neg_0_le_iff_le not_one_le_zero)
  have "distance_to_codepoint_boundary h sc a = (case dropWhile (\<lambda>c. \<not> is_boundary sc c) (rev ts) of
       [] \<Rightarrow> Some (Inr (length ts - 1, None))
     | c # _ \<Rightarrow> Some (Inr (length (takeWhile (\<lambda>c. \<not> is_boundary sc c) (rev ts)) + 1, Some (word_of_int c + 1))))"
    unfolding distance_to_codepoint_boundary_def
    by (rule distance_loop_spec [OF ok path assms(3) node_at_bound [OF nd(1)] assms(4)])
  with nd assms(5) show ?thesis
    by (cases "dropWhile (\<lambda>c. \<not> is_boundary sc c) (rev ts)")
      (auto simp: is_scoring_boundary_def heap_simps simp del: dropWhile_eq_Nil_conv split: option.split)
qed

lemma default_alphabet:
  assumes "char_list sc = vocab_utf8" "0 \<le> c" "c < 255"
  shows "char_list sc ! nat c = [word_of_int c + 1]" "lead_byte sc c = word_of_int c + 1"
  using assms by (simp_all add: vocab_utf8_def lead_byte_def)

lemma default_spell:
  assumes "char_list sc = vocab_utf8" "\<forall>c \<in> set ts. 0 \<le> c \<and> c < 255"
  shows "spell sc ts = map (\<lambda>c. word_of_int c + 1) ts"
  using assms(2) default_alphabet(1) [OF assms(1)] by (induction ts) (auto simp: spell_def)

lemma dictionary_first_label:
  assumes "spelled ws (map (\<lambda>c. c + 1) ts) st" "ts \<noteq> []" "\<forall>w \<in> set ws. w \<noteq> [] \<longrightarrow> P (hd w - 1)"
  shows "P (hd ts)"
proof -
  from assms(1) obtain vs p where v: "map (\<lambda>c. c + 1) ts = concat vs @ p" "set vs \<subseteq> set ws"
    "p = [] \<or> (\<exists>w \<in> set ws. prefix p w)" by (auto simp: spelled_def)
  have "\<exists>w \<in> set ws. w \<noteq> [] \<and> hd w = hd ts + 1"
  proof (cases "concat vs = []")
    case True
    with v assms(2) have p: "p \<noteq> []" "hd p = hd ts + 1" by (auto simp: hd_map)
    with v(3) obtain w where "w \<in> set ws" "prefix p w" by blast
    with p show ?thesis by (metis hd_append2 prefix_def append_is_Nil_conv)
  next
    case False
    then have "\<exists>w \<in> set vs. w \<noteq> [] \<and> hd w = hd (concat vs)"
      by (induction vs) (auto simp: hd_append)
    moreover have "hd (concat vs) = hd ts + 1" using v(1) assms(2) False by (metis hd_append2 hd_map)
    ultimately show ?thesis using v(2) by auto
  qed
  with assms(3) show ?thesis by force
qed

section \<open>The dictionary of a scorer\<close>

definition encoded :: "scorer \<Rightarrow> bytes \<Rightarrow> int list option" where
  "encoded sc w = map_option (\<lambda>is. is @ [space_id sc + 1]) (map_chars (char_map sc) (split_utf8_str w))"

lemma fill_loop_words:
  "foldl (\<lambda>voc word. snd (add_word_to_dictionary word (char_map sc) True (space_id sc + 1) voc)) acc ws =
     acc @ List.map_filter (encoded sc) ws"
  by (induction ws arbitrary: acc)
    (auto simp: add_word_to_dictionary_def encoded_def List.map_filter_def split: option.split)

lemma fill_dictionary_words:
  "sc_dictionary (fill_dictionary True sc) = Some (snd (add_words (List.map_filter (encoded sc) (sc_vocabulary sc))))"
  "dict_size (fill_dictionary True sc) = fst (add_words (List.map_filter (encoded sc) (sc_vocabulary sc)))"
  by (simp_all add: fill_dictionary_def fill_loop_words Let_def split: prod.split)

lemma map_chars_in: "map_chars m cs = Some is \<Longrightarrow> i \<in> set is \<Longrightarrow> \<exists>c \<in> set cs. m c = Some i"
  by (induction cs arbitrary: "is") (auto split: option.splits)

text \<open>No word contains a character that is mapped to the label of the space.\<close>

definition no_inner_space :: "scorer \<Rightarrow> bool" where
  "no_inner_space sc \<longleftrightarrow>
     list_all (\<lambda>w. list_all (\<lambda>c. char_map sc c \<noteq> Some (space_id sc + 1)) (split_utf8_str w)) (sc_vocabulary sc)"

lemma encoded_prefix_free:
  assumes "no_inner_space sc"
  shows "prefix_free (List.map_filter (encoded sc) (sc_vocabulary sc))"
proof -
  have "v = w" if v: "v \<in> set (List.map_filter (encoded sc) (sc_vocabulary sc))"
    and w: "w \<in> set (List.map_filter (encoded sc) (sc_vocabulary sc))" and p: "prefix v w" for v w
  proof -
    from v obtain u where u: "v = u @ [space_id sc + 1]"
      by (auto simp: List.map_filter_def encoded_def)
    from w obtain x y where x: "x \<in> set (sc_vocabulary sc)" "map_chars (char_map sc) (split_utf8_str x) = Some y"
      "w = y @ [space_id sc + 1]" by (auto simp: List.map_filter_def encoded_def)
    have "space_id sc + 1 \<notin> set y"
      using map_chars_in [OF x(2)] x(1) assms by (auto simp: no_inner_space_def list_all_iff)
    with p u x(3) show ?thesis by (auto simp: prefix_snoc dest: set_mono_prefix)
  qed
  then show ?thesis unfolding prefix_free_def list_all_iff strict_prefix_def by blast
qed

section \<open>Properties\<close>

text \<open>A scorer by bytes with a bigram model of one known word, and the trie of one label below.\<close>

definition sample_scorer :: scorer where
  "sample_scorer = (scorer_init (Fin 1) (Fin 0))\<lparr>is_character_based := True, max_order := 2, char_list := vocab_utf8,
     lm_vocabulary := \<lparr>voc_config = two_hashes\<lparr>num_words := 2\<rparr>, voc_bos = 0, voc_eos = 0\<rparr>, language_model := tiny_lm\<rparr>"

lemma sample_scorer_ok: "scorer_ok sample_scorer"
proof -
  have "vocabulary_ok (two_hashes\<lparr>num_words := 2\<rparr>)" by code_simp
  with tiny_lm_ok show ?thesis by (simp add: scorer_ok_def sample_scorer_def tiny_lm_def)
qed

lemma sample_path: "path_to sample_trie 1 [7]"
proof -
  have "path_to sample_trie 0 []" by (rule path_root) (simp add: sample_trie_node)
  from path_child [OF this, of 1 sample_child] show ?thesis by (simp add: sample_trie_node sample_child_def)
qed

lemma sample_trie_length: "length sample_trie = 2"
  by (simp add: sample_trie_def new_child_def)

lemma heap_ok_trie: "heap_ok dict h \<Longrightarrow> trie_ok h"
  by (simp add: heap_ok_def)

text \<open>
  The n-gram of a prefix in the trie is a function of the prefix's labels alone: the
  spellings of its last words (or characters), oldest first, filled up with start tokens when
  the path ends inside its first word. The pointer walk never leaves the trie. The witness also
  shows that a prefix that consists of fewer complete characters than the order gets one start
  token too few: the bigram of a one-character prefix has one entry.
\<close>

theorem make_ngram_labels:
  assumes "heap_ok dict h" "length h \<le> 18446744073709551615" "path_to h a ts" "labels_ok sc ts"
  shows "make_ngram h sc a = Some (Inr (rev (ngram_ref sc (unat (max_order sc)) (rev ts))))"
  using make_ngram_loop_ref [OF heap_ok_trie [OF assms(1)] assms(2-4)] by (simp add: make_ngram_def)

theorem make_ngram_labels_witness:
  "make_ngram sample_trie sample_scorer 1 = Some (Inr [[8]]) \<and> max_order sample_scorer = 2"
proof -
  have "labels_ok sample_scorer [7]" "rev (ngram_ref sample_scorer (unat (max_order sample_scorer)) (rev [7])) = [[8]]"
    "max_order sample_scorer = 2" by code_simp+
  with make_ngram_labels [OF sample_trie_ok _ sample_path] show ?thesis by (simp add: sample_trie_length)
qed

text \<open>
  With the default alphabet of bytes, a prefix is scored exactly when its last character is
  complete: when the bytes since the last code point boundary are as many as the first of them
  announces. If the prefix has no boundary byte at all, an uninitialised variable is read.
\<close>

theorem is_scoring_boundary_complete:
  assumes "heap_ok dict h" "path_to h a ts" "ts \<noteq> []" "is_character_based sc" "char_list sc = vocab_utf8"
    and "\<forall>c \<in> set ts. 0 \<le> c \<and> c < 255" and "cp = spell sc (rev (fst (last_unit sc (rev ts))))"
  shows "is_scoring_boundary h sc a l =
    (if list_all (\<lambda>c. \<not> byte_is_codepoint_boundary c) (spell sc ts) then Some (Inl Undefined)
     else Some (Inr (needed_bytes (hd cp) = Some (length cp))))"
proof -
  let ?P = "\<lambda>c. \<not> is_boundary sc c"
  have lab: "labels_ok sc ts" using assms(5,6) by (auto simp: labels_ok_def vocab_utf8_def)
  note spec = is_scoring_boundary_spec [OF heap_ok_trie [OF assms(1)] assms(2,3) lab assms(4), of l]
  have all: "list_all (\<lambda>c. \<not> byte_is_codepoint_boundary c) (spell sc ts) \<longleftrightarrow> (\<forall>c \<in> set ts. ?P c)"
    using assms(5,6) default_spell [OF assms(5,6)] default_alphabet(2) [OF assms(5)]
    by (auto simp: list_all_iff is_boundary_def)
  show ?thesis
  proof (cases "dropWhile ?P (rev ts)")
    case Nil
    then have "\<forall>c \<in> set ts. ?P c" by simp
    with spec Nil all show ?thesis by (simp del: dropWhile_eq_Nil_conv)
  next
    case (Cons c rest)
    then have nall: "\<not> (\<forall>c \<in> set ts. ?P c)" by (metis dropWhile_eq_Nil_conv list.distinct(1) set_rev)
    let ?t = "takeWhile ?P (rev ts)"
    have "set (c # rest) \<subseteq> set ts" using Cons by (metis set_dropWhileD set_rev subsetI)
    then have sub: "\<forall>c \<in> set (c # rev ?t). 0 \<le> c \<and> c < 255"
      using assms(6) by (auto dest: set_takeWhileD)
    have "fst (last_unit sc (rev ts)) = ?t @ [c]" using assms(4) Cons by (simp add: last_unit_def unit_end_def)
    then have "cp = map (\<lambda>c. word_of_int c + 1) (c # rev ?t)" using assms(7) default_spell [OF assms(5) sub] by simp
    with spec Cons all nall show ?thesis by simp
  qed
qed

theorem is_scoring_boundary_complete_witness:
  "is_scoring_boundary sample_trie sample_scorer 1 3 = Some (Inr True)"
proof -
  have s: "is_character_based sample_scorer" "char_list sample_scorer = vocab_utf8" by code_simp+
  have "spell sample_scorer (rev (fst (last_unit sample_scorer (rev [7])))) = [8]"
    "list_all (\<lambda>c. \<not> byte_is_codepoint_boundary c) (spell sample_scorer [7]) = False" "needed_bytes 8 = Some 1" by code_simp+
  with is_scoring_boundary_complete [OF sample_trie_ok sample_path _ s _ refl, of 3] show ?thesis by simp
qed

text \<open>
  The dictionary rules that out: if every dictionary word begins at a code point boundary,
  then on a trie grown under that dictionary the test is always defined.
\<close>

theorem is_scoring_boundary_defined:
  assumes "heap_ok (Some d) h" "dictionary_ok ws h" "path_to h a ts" "labels_ok sc ts" "is_character_based sc"
    and "\<forall>w \<in> set ws. w \<noteq> [] \<longrightarrow> is_boundary sc (hd w - 1)"
  shows "\<exists>b. is_scoring_boundary h sc a l = Some (Inr b)"
proof -
  note ok = heap_ok_trie [OF assms(1)]
  from ok assms(3) obtain nd where nd: "node_at h a = Some nd" by (cases rule: path_to_cases) auto
  show ?thesis
  proof (cases "ts = []")
    case True
    from ok assms(3) have "node_char nd = - 1" by (cases rule: path_to_cases) (use True nd in \<open>auto simp: ROOT_def\<close>)
    with nd assms(5) have "is_scoring_boundary h sc a l = Some (Inr False)"
      by (simp add: is_scoring_boundary_def heap_simps)
    then show ?thesis by blast
  next
    case False
    have "spelled ws (map (\<lambda>c. c + 1) ts) (dictionary_state nd)" using assms(2,3) nd by (auto simp: dictionary_ok_def)
    from dictionary_first_label [OF this False assms(6)] False
    have "dropWhile (\<lambda>c. \<not> is_boundary sc c) (rev ts) \<noteq> []" by (metis dropWhile_eq_Nil_conv hd_in_set set_rev)
    then obtain c rest where "dropWhile (\<lambda>c. \<not> is_boundary sc c) (rev ts) = c # rest" by (metis neq_Nil_conv)
    with is_scoring_boundary_spec [OF ok assms(3) False assms(4,5), of l] show ?thesis by simp
  qed
qed

definition sample_dictionary :: word_prefix_set where
  "sample_dictionary = snd (add_words [[8]])"

definition sample_dict_trie :: trie_heap where
  "sample_dict_trie = [Some (set_dictionary sample_dictionary path_node_init)]"

lemma sample_dict_trie_ok: "heap_ok (Some sample_dictionary) sample_dict_trie"
  unfolding sample_dict_trie_def by (rule heap_ok_root) (simp_all add: set_dictionary_def path_node_init_def)

lemma root_dictionary_ok:
  assumes "finalized ws d" "node_at h 0 = Some r" "dictionary_state r = empty_state d" "length h = 1" "trie_ok h"
  shows "dictionary_ok ws h"
proof -
  have e: "at_prefix ws [] (empty_state d)" using assms(1) by (rule wps.at_start)
  then have w: "\<not> wps_weight (empty_state d)" using wps.final_iff [OF e] by auto
  show ?thesis
    unfolding dictionary_ok_def
  proof (intro allI impI)
    fix a nd ts assume a: "node_at h a = Some nd" "path_to h a ts"
    with assms(4) node_at_bound [OF a(1)] have a0: "a = 0" by simp
    from assms(5) a(2) have "ts = []" by (cases rule: path_to_cases) (use a0 in auto)
    with a a0 assms(2,3) e w show "spelled ws (map (\<lambda>c. c + 1) ts) (dictionary_state nd)"
      unfolding spelled_def by (intro conjI exI [of _ "[]"]) auto
  qed
qed

theorem is_scoring_boundary_defined_witness:
  "\<exists>b. is_scoring_boundary sample_dict_trie sample_scorer 0 3 = Some (Inr b)"
proof -
  let ?ws = "remdups_adj (sort [[8 :: int]])"
  have ws: "?ws = [[8]]" by simp
  have "prefix_free [[8 :: int]]" by code_simp
  then have f: "finalized ?ws sample_dictionary" unfolding sample_dictionary_def by (rule finalized_add_words)
  have r: "node_at sample_dict_trie 0 = Some (set_dictionary sample_dictionary path_node_init)" "length sample_dict_trie = 1"
    by (simp_all add: sample_dict_trie_def node_at_def)
  have d: "dictionary_ok ?ws sample_dict_trie"
    by (rule root_dictionary_ok [OF f r(1) _ r(2) heap_ok_trie [OF sample_dict_trie_ok]]) (simp add: set_dictionary_def)
  have "is_boundary sample_scorer 7" "is_character_based sample_scorer" by code_simp+
  with is_scoring_boundary_defined [OF sample_dict_trie_ok d path_root [OF r(1)], of sample_scorer 3] ws
  show ?thesis by (simp add: labels_ok_def)
qed

text \<open>
  C30: A word n-gram is scored without exception, undefined behaviour or endless search, and its
  score is the out-of-vocabulary score if the vocabulary lookup does not find one of its words.
\<close>

theorem get_log_cond_prob_total:
  assumes "scorer_ok sc"
  shows "\<exists>p. get_log_cond_prob sc words = Some (Inr p) \<and>
    ((\<exists>w \<in> set words. find_word (voc_config (lm_vocabulary sc)) w = Some (Inr 0)) \<longrightarrow> p = OOV_SCORE)"
  using assms by (rule get_log_cond_prob_spec)

theorem get_log_cond_prob_total_witness:
  "\<exists>p. get_log_cond_prob sample_scorer [[97], [98]] = Some (Inr p)"
  using get_log_cond_prob_total [OF sample_scorer_ok, of "[[97], [98]]"] by blast

text \<open>
  The score of a sentence is the sum, in double precision from the left, of the scores of
  all its windows of the model's order, after padding with start tokens and an end token. No
  window reaches beyond the sentence, so the assertion in \<^verbatim>\<open>get_log_prob\<close> holds.
\<close>

theorem get_sent_log_prob_sum:
  assumes "max_order sc \<noteq> 0" "length words + unat (max_order sc) < 18446744073709551614"
  shows "get_sent_log_prob sc words = sum_scores sc (windows (unat (max_order sc)) (sentence sc words)) (Fin 0) \<and>
    (\<forall>w \<in> set (windows (unat (max_order sc)) (sentence sc words)). length w = unat (max_order sc)) \<and>
    unat (max_order sc) < length (sentence sc words)"
  using get_sent_log_prob_windows [OF assms] assms(1)
  by (cases "unat (max_order sc)") (auto simp: windows_def sentence_def unat_eq_zero)

theorem get_sent_log_prob_sum_witness:
  "get_sent_log_prob sample_scorer [[97]] = sum_scores sample_scorer [[START_TOKEN, [97]], [[97], END_TOKEN]] (Fin 0)"
proof -
  have "windows (unat (max_order sample_scorer)) (sentence sample_scorer [[97]]) = [[START_TOKEN, [97]], [[97], END_TOKEN]]"
    by code_simp
  moreover have "max_order sample_scorer = 2" by code_simp
  ultimately show ?thesis using get_sent_log_prob_sum [of sample_scorer "[[97]]"] by simp
qed

text \<open>
  C20: For a model over words, the dictionary that \<^verbatim>\<open>fill_dictionary\<close> builds accepts exactly the
  beginnings of the vocabulary words that can be spelled in the alphabet, each followed by the
  space, provided no word contains the space itself.
\<close>

theorem fill_dictionary_accepts:
  assumes "no_inner_space sc" "sc_dictionary (fill_dictionary True sc) = Some d"
  shows "walk append_character d (empty_state d) cs \<noteq> None \<longleftrightarrow>
    cs = [] \<or> (\<exists>w \<in> set (sc_vocabulary sc). \<exists>is. encoded sc w = Some is \<and> prefix cs is)"
proof -
  let ?ws = "List.map_filter (encoded sc) (sc_vocabulary sc)"
  have "d = snd (add_words ?ws)" using assms(2) fill_dictionary_words(1) [of sc] by simp
  with wps.walk_accepts(1) [OF finalized_add_words [OF encoded_prefix_free [OF assms(1)]], of cs]
  show ?thesis by (auto simp: List.map_filter_def)
qed

definition sample_words :: scorer where
  "sample_words = set_char_map [[97], [98], [32]] ((scorer_init (Fin 1) (Fin 0))\<lparr>sc_vocabulary := [[97, 98], [97], [99]]\<rparr>)"

theorem fill_dictionary_accepts_witness:
  "\<exists>d. sc_dictionary (fill_dictionary True sample_words) = Some d \<and>
     walk append_character d (empty_state d) [1, 2, 3] \<noteq> None \<and> walk append_character d (empty_state d) [2] = None"
proof -
  have ok: "no_inner_space sample_words" by code_simp
  obtain d where d: "sc_dictionary (fill_dictionary True sample_words) = Some d" using fill_dictionary_words(1) by blast
  have e: "sc_vocabulary sample_words = [[97, 98], [97], [99]]" "encoded sample_words [97, 98] = Some [1, 2, 3]"
    "encoded sample_words [97] = Some [1, 3]" "encoded sample_words [99] = None" by code_simp+
  with fill_dictionary_accepts [OF ok d, of "[1, 2, 3]"] fill_dictionary_accepts [OF ok d, of "[2]"] d
  show ?thesis by auto
qed

end
