(* ===== verification/BeamSearch.thy ===== *)
theory BeamSearch
  imports Scorer
begin

text \<open>
  The decoder itself, \<^verbatim>\<open>ctc_beam_search_decoder.cpp\<close>: the class \<^verbatim>\<open>CtcDecoderState\<close> with its
  configuration, \<^verbatim>\<open>append\<close>, \<^verbatim>\<open>finalize\<close> and \<^verbatim>\<open>decode\<close>, and the two functions around it. The
  trie of candidates is a heap whose root is address 0 (no heap: the null pointer); the
  candidates are addresses in it, also dangling ones, as in the code. Probabilities are read
  from a list that stands for the memory behind the caller's pointer.
\<close>

section \<open>State\<close>

record decoder_state =
  is_finalized :: bool
  next_timestep :: u64
  alphabet :: "bytes list"
  space_idx :: int
  blank_idx :: u64
  beam_size :: u64
  lm_scorer :: "scorer option"
  cutoff_prob :: cfloat
  cutoff_top_n :: u64
  candidates_trie :: "trie_heap option"
  candidates :: "nat list"

definition decoder_new :: decoder_state where
  "decoder_new = \<lparr>is_finalized = False, next_timestep = 0, alphabet = [], space_idx = - 1, blank_idx = - 1, beam_size = 0,
     lm_scorer = None, cutoff_prob = Fin 0, cutoff_top_n = 0, candidates_trie = None, candidates = []\<rparr>"

definition new_sequence :: "decoder_state \<Rightarrow> decoder_state result" where
  "new_sequence d =
     (let root = path_node_init\<lparr>node_score := Fin 0, log_prob_b_prev := Fin 0\<rparr>
      in rbind (case lm_scorer d of
                  None \<Rightarrow> Inr root
                | Some sc \<Rightarrow>
                    (case sc_dictionary sc of
                       None \<Rightarrow> Inl Undefined
                     | Some dict \<Rightarrow> Inr (set_dictionary dict root))) (\<lambda>root'.
           Inr (d\<lparr>candidates_trie := Some [Some root'], candidates := [0], is_finalized := False, next_timestep := 0\<rparr>)))"

text \<open>The alphabet used for an empty one: the bytes 1 to 255, and 255 once more.\<close>

definition vocab_utf8_1 :: "bytes list" where
  "vocab_utf8_1 = map (\<lambda>i. [of_nat (i + 1)]) [0..<255] @ [[255]]"

fun find_index :: "'a \<Rightarrow> 'a list \<Rightarrow> nat" where
  "find_index x [] = 0"
| "find_index x (y # ys) = (if y = x then 0 else find_index x ys + 1)"

definition init_decoder ::
  "bytes list \<Rightarrow> u64 \<Rightarrow> u64 \<Rightarrow> scorer option \<Rightarrow> decoder_state \<Rightarrow> decoder_state result" where
  "init_decoder alph blank beam scorer d =
     (let d1 = d\<lparr>is_finalized := False, next_timestep := 0\<rparr>;
          d2 = (if alph = [] then d1\<lparr>space_idx := 31, alphabet := vocab_utf8_1\<rparr>
                else
                  (let i = find_index (bytes_of_string '' '') alph
                   in d1\<lparr>alphabet := alph, space_idx := (if i \<ge> length alph then - 2 else int i)\<rparr>))
      in new_sequence (d2\<lparr>blank_idx := blank, beam_size := beam, lm_scorer := scorer, cutoff_prob := Fin 1,
           cutoff_top_n := 300, candidates := [], candidates_trie := None\<rparr>))"

definition deinit :: "decoder_state \<Rightarrow> decoder_state" where
  "deinit d = d\<lparr>lm_scorer := None, alphabet := [], candidates := [], candidates_trie := None, is_finalized := False\<rparr>"

section \<open>Configuration\<close>

text \<open>
  \<^verbatim>\<open>size_t(value)\<close> drops the fraction; it has no meaning if the rest does not fit. The other way
  the nearest double is taken.
\<close>

fun size_of_double :: "cfloat \<Rightarrow> u64 result" where
  "size_of_double (Fin x) =
     (let i = (if x < 0 then \<lceil>x\<rceil> else \<lfloor>x\<rfloor>) in if 0 \<le> i \<and> i < 2 ^ 64 then Inr (of_int i) else Inl Undefined)"
| "size_of_double x = Inl Undefined"

definition double_of_size :: "u64 \<Rightarrow> cfloat" where
  "double_of_size w = Fin (u2d w)"

definition set_config :: "string \<Rightarrow> cfloat \<Rightarrow> bool \<Rightarrow> decoder_state \<Rightarrow> (bool \<times> decoder_state) result" where
  "set_config name value required d =
     (if name = ''beam_size'' then rbind (size_of_double value) (\<lambda>v. Inr (True, d\<lparr>beam_size := v\<rparr>))
      else if name = ''blank_idx'' then rbind (size_of_double value) (\<lambda>v. Inr (True, d\<lparr>blank_idx := v\<rparr>))
      else if name = ''cutoff_prob'' then Inr (True, d\<lparr>cutoff_prob := f32_of_f64 value\<rparr>)
      else if name = ''cutoff_top_n'' then rbind (size_of_double value) (\<lambda>v. Inr (True, d\<lparr>cutoff_top_n := v\<rparr>))
      else if name = ''next_timestep'' then rbind (size_of_double value) (\<lambda>v. Inr (True, d\<lparr>next_timestep := v\<rparr>))
      else if required then Inl Invalid_argument
      else Inr (False, d))"

definition get_config :: "string \<Rightarrow> bool \<Rightarrow> cfloat \<Rightarrow> decoder_state \<Rightarrow> cfloat result" where
  "get_config name required not_found d =
     (if name = ''beam_size'' then Inr (double_of_size (beam_size d))
      else if name = ''blank_idx'' then Inr (double_of_size (blank_idx d))
      else if name = ''cutoff_prob'' then Inr (cutoff_prob d)
      else if name = ''cutoff_top_n'' then Inr (double_of_size (cutoff_top_n d))
      else if name = ''next_timestep'' then Inr (double_of_size (next_timestep d))
      else if required then Inl Invalid_argument
      else Inr not_found)"

section \<open>Candidates\<close>

text \<open>The addresses with the scores and characters the comparison looks at.\<close>

fun keys_of :: "trie_heap \<Rightarrow> nat list \<Rightarrow> prefix_key list result" where
  "keys_of h [] = Inr []"
| "keys_of h (a # as) =
     rbind (deref h a) (\<lambda>nd. rbind (keys_of h as) (\<lambda>ks. Inr ((a, node_score nd, node_char nd) # ks)))"

definition sort_first :: "cxx_lib \<Rightarrow> trie_heap \<Rightarrow> nat \<Rightarrow> nat list \<Rightarrow> nat list result" where
  "sort_first lib h n as =
     rbind (keys_of h (take n as)) (\<lambda>ks. Inr (map fst (lib_sort_prefixes lib ks) @ drop n as))"

text \<open>
  The pruning threshold of a frame, for a decoder with a language model: sorted candidates,
  \<^verbatim>\<open>min_cutoff\<close> and \<^verbatim>\<open>full_beam\<close>.
\<close>

definition frame_cutoff ::
  "cxx_lib \<Rightarrow> decoder_state \<Rightarrow> trie_heap \<Rightarrow> cfloat list \<Rightarrow> nat \<Rightarrow> bool \<Rightarrow> (nat list \<times> cfloat \<times> bool) result" where
  "frame_cutoff lib d h prob alph_stride log_probs =
     (case lm_scorer d of
        None \<Rightarrow> Inr (candidates d, FLT_LOWEST, False)
      | Some sc \<Rightarrow>
          (let num_candidates = min (length (candidates d)) (unat (beam_size d))
           in rbind (sort_first lib h num_candidates (candidates d)) (\<lambda>cands.
              rbind (vec_at prob (unat (blank_idx d) * alph_stride)) (\<lambda>p.
              rbind (if num_candidates = 0 then Inl Undefined else vec_at cands (num_candidates - 1)) (\<lambda>a.
              rbind (deref h a) (\<lambda>nd.
                (let blank_prob = (if log_probs then p else lib_log lib p)
                 in Inr (cands,
                      f32_of_f64 (f64_sub (f32_add (node_score nd) blank_prob) (cf_max (Fin 0) (sc_beta sc))),
                      num_candidates = unat (beam_size d)))))))))"

section \<open>One frame\<close>

definition update_node :: "trie_heap \<Rightarrow> nat \<Rightarrow> (path_node \<Rightarrow> path_node) \<Rightarrow> trie_heap result" where
  "update_node h a f = rbind (deref h a) (\<lambda>nd. Inr (h[a := Some (f nd)]))"

text \<open>The language model's part of a prefix's probability, \<^verbatim>\<open>log_p\<close> before and after.\<close>

definition lm_score ::
  "scorer option \<Rightarrow> trie_heap \<Rightarrow> nat \<Rightarrow> nat \<Rightarrow> int \<Rightarrow> cfloat \<Rightarrow> cfloat result option" where
  "lm_score scorer h a b c log_p =
     (case scorer of
        None \<Rightarrow> Some (Inr log_p)
      | Some sc \<Rightarrow>
          (let prefix_to_score = (if is_character_based sc then b else a)
           in obind (is_scoring_boundary h sc prefix_to_score c) (\<lambda>boundary.
                if boundary
                then obind (make_ngram h sc prefix_to_score) (\<lambda>ngram.
                     obind (get_log_cond_prob sc ngram) (\<lambda>p.
                       (let score = f32_of_f64 (f64_mul p (sc_alpha sc))
                        in Some (Inr (f32_of_f64 (f64_add (f32_add log_p score) (sc_beta sc)))))))
                else Some (Inr log_p))))"

definition scorer_dictionary :: "scorer option \<Rightarrow> word_prefix_set option" where
  "scorer_dictionary scorer = (case scorer of None \<Rightarrow> None | Some sc \<Rightarrow> sc_dictionary sc)"

text \<open>The body of the loop over the candidates for a character other than the blank.\<close>

definition extend_prefix ::
  "cxx_lib \<Rightarrow> scorer option \<Rightarrow> trie_heap \<Rightarrow> nat \<Rightarrow> nat \<Rightarrow> int \<Rightarrow> cfloat \<Rightarrow> trie_heap result option" where
  "extend_prefix lib scorer h a c timestep lp =
     obind (Some (update_node h a (\<lambda>nd. if int c = node_char nd
              then nd\<lparr>log_prob_nb_cur := log_sum_exp lib (log_prob_nb_cur nd) (f32_add lp (log_prob_nb_prev nd))\<rparr>
              else nd))) (\<lambda>h1.
     obind (Some (get_path_trie (scorer_dictionary scorer) h1 a (int c) timestep lp True)) (\<lambda>(prefix_new, h2).
       (case prefix_new of
          None \<Rightarrow> Some (Inr h2)
        | Some b \<Rightarrow>
            obind (Some (deref h2 a)) (\<lambda>nd.
              (let log_p = (if int c = node_char nd \<and> cf_less FLT_LOWEST (log_prob_b_prev nd)
                            then f32_add lp (log_prob_b_prev nd)
                            else if int c \<noteq> node_char nd then f32_add lp (node_score nd)
                            else FLT_LOWEST)
               in obind (lm_score scorer h2 a b (int c) log_p) (\<lambda>log_p'.
                    Some (update_node h2 b (\<lambda>nd. nd\<lparr>log_prob_nb_cur := log_sum_exp lib (log_prob_nb_cur nd) log_p'\<rparr>))))))))"

text \<open>The loop over the candidates for one character.\<close>

fun prefix_loop ::
  "cxx_lib \<Rightarrow> decoder_state \<Rightarrow> cfloat \<Rightarrow> bool \<Rightarrow> int \<Rightarrow> nat \<Rightarrow> cfloat \<Rightarrow> nat list \<Rightarrow> trie_heap \<Rightarrow> trie_heap result option" where
  "prefix_loop lib d min_cutoff full_beam timestep c lp [] h = Some (Inr h)"
| "prefix_loop lib d min_cutoff full_beam timestep c lp (a # as) h =
     obind (Some (deref h a)) (\<lambda>nd.
       if full_beam \<and> cf_less (f32_add lp (node_score nd)) min_cutoff then Some (Inr h)
       else
         obind (if c = unat (blank_idx d)
                then Some (update_node h a (\<lambda>nd. nd\<lparr>log_prob_b_cur :=
                       log_sum_exp lib (log_prob_b_cur nd) (f32_add lp (node_score nd))\<rparr>))
                else extend_prefix lib (lm_scorer d) h a c timestep lp)
           (\<lambda>h'. prefix_loop lib d min_cutoff full_beam timestep c lp as h'))"

text \<open>The loop over the characters; the index runs to the size of the alphabet.\<close>

fun char_loop ::
  "nat \<Rightarrow> nat \<Rightarrow> cxx_lib \<Rightarrow> decoder_state \<Rightarrow> cfloat \<Rightarrow> bool \<Rightarrow> int \<Rightarrow> nat list \<Rightarrow> (nat \<times> cfloat) list \<Rightarrow> trie_heap \<Rightarrow> trie_heap result option" where
  "char_loop 0 index lib d min_cutoff full_beam timestep as log_prob_idx h = Some (Inr h)"
| "char_loop (Suc n) index lib d min_cutoff full_beam timestep as log_prob_idx h =
     obind (Some (vec_at log_prob_idx index)) (\<lambda>(c, lp).
     obind (prefix_loop lib d min_cutoff full_beam timestep c lp as h) (\<lambda>h'.
       char_loop n (index + 1) lib d min_cutoff full_beam timestep as log_prob_idx h'))"

text \<open>Only the best \<^verbatim>\<open>beam_size\<close> candidates stay in the trie; the list keeps the others' addresses.\<close>

definition keep_beam :: "cxx_lib \<Rightarrow> nat \<Rightarrow> trie_heap \<Rightarrow> nat list \<Rightarrow> (trie_heap \<times> nat list) result option" where
  "keep_beam lib beam h as =
     (if length as \<ge> beam
      then obind (Some (keys_of h as)) (\<lambda>ks.
             (let as' = map fst (lib_nth_element lib beam ks)
              in obind (remove_each remove_node h (drop beam as')) (\<lambda>h'. Some (Inr (h', as')))))
      else Some (Inr (h, as)))"

text \<open>\<^verbatim>\<open>int\<close> from \<^verbatim>\<open>size_t\<close> keeps the low 32 bits.\<close>

definition int_of_size :: "u64 \<Rightarrow> int" where
  "int_of_size w = sint (ucast w :: 32 word)"

definition append_frame ::
  "cxx_lib \<Rightarrow> cfloat list \<Rightarrow> nat \<Rightarrow> nat \<Rightarrow> bool \<Rightarrow> nat \<Rightarrow> decoder_state \<Rightarrow> decoder_state result option" where
  "append_frame lib probs frame_stride alph_stride log_probs time_step d =
     (case candidates_trie d of
        None \<Rightarrow> Some (Inl Undefined)
      | Some h \<Rightarrow>
          (let prob = drop (time_step * frame_stride) probs;
               timestep = int_of_size (of_nat time_step + next_timestep d);
               alphabet_size = length (alphabet d)
           in obind (Some (frame_cutoff lib d h prob alph_stride log_probs)) (\<lambda>(cands, min_cutoff, full_beam).
              obind (Some (get_pruned_log_probs lib prob alphabet_size alph_stride (cutoff_prob d)
                       (unat (cutoff_top_n d)) log_probs)) (\<lambda>log_prob_idx.
              obind (char_loop alphabet_size 0 lib d min_cutoff full_beam timestep
                       (take (unat (beam_size d)) cands) log_prob_idx h) (\<lambda>h1.
              obind (iterate_to_vec lib h1 0) (\<lambda>(h2, as).
              obind (keep_beam lib (unat (beam_size d)) h2 as) (\<lambda>(h3, as').
                Some (Inr (d\<lparr>candidates_trie := Some h3, candidates := as'\<rparr>)))))))))"

fun append_frames ::
  "nat \<Rightarrow> cxx_lib \<Rightarrow> cfloat list \<Rightarrow> nat \<Rightarrow> nat \<Rightarrow> bool \<Rightarrow> nat \<Rightarrow> decoder_state \<Rightarrow> decoder_state result option" where
  "append_frames 0 lib probs frame_stride alph_stride log_probs time_step d = Some (Inr d)"
| "append_frames (Suc n) lib probs frame_stride alph_stride log_probs time_step d =
     obind (append_frame lib probs frame_stride alph_stride log_probs time_step d) (\<lambda>d'.
       append_frames n lib probs frame_stride alph_stride log_probs (time_step + 1) d')"

definition append_probs ::
  "cxx_lib \<Rightarrow> cfloat list \<Rightarrow> nat \<Rightarrow> nat \<Rightarrow> nat \<Rightarrow> bool \<Rightarrow> decoder_state \<Rightarrow> decoder_state result option" where
  "append_probs lib probs frame_num frame_stride alph_stride log_probs d =
     (if candidates_trie d = None then Some (Inl Runtime_error)
      else if is_finalized d then Some (Inl Runtime_error)
      else
        obind (append_frames frame_num lib probs frame_stride alph_stride log_probs 0 d) (\<lambda>d'.
          Some (Inr (d'\<lparr>next_timestep := next_timestep d' + of_nat frame_num\<rparr>))))"

section \<open>Results\<close>

text \<open>The last word of each prefix is scored once.\<close>

fun finalize_loop :: "scorer \<Rightarrow> nat list \<Rightarrow> trie_heap \<Rightarrow> trie_heap result option" where
  "finalize_loop sc [] h = Some (Inr h)"
| "finalize_loop sc (a # as) h =
     obind (Some (deref h a)) (\<lambda>nd.
     obind (case (if is_character_based sc then Some a else node_parent nd) of
              None \<Rightarrow> Some (Inr h)
            | Some b \<Rightarrow>
                obind (is_scoring_boundary h sc b (node_char nd)) (\<lambda>boundary.
                  if boundary then Some (Inr h)
                  else
                    obind (make_ngram h sc a) (\<lambda>ngram.
                    obind (get_log_cond_prob sc ngram) (\<lambda>p.
                      (let score = f32_of_f64 (f64_add (f32_of_f64 (f64_mul p (sc_alpha sc))) (sc_beta sc))
                       in Some (update_node h a (\<lambda>nd. nd\<lparr>node_score := f32_add (node_score nd) score\<rparr>)))))))
       (\<lambda>h'. finalize_loop sc as h'))"

definition finalize :: "decoder_state \<Rightarrow> decoder_state result option" where
  "finalize d =
     (case candidates_trie d of
        None \<Rightarrow> Some (Inl Runtime_error)
      | Some h \<Rightarrow>
          if is_finalized d then Some (Inr d)
          else
            (case lm_scorer d of
               None \<Rightarrow> Some (Inr (d\<lparr>is_finalized := True\<rparr>))
             | Some sc \<Rightarrow>
                 obind (finalize_loop sc (take (unat (beam_size d)) (candidates d)) h) (\<lambda>h'.
                   Some (Inr (d\<lparr>is_finalized := True, candidates_trie := Some h'\<rparr>)))))"

text \<open>The score without the language model's share, for the audio score of a result.\<close>

definition approx_score :: "scorer option \<Rightarrow> bool \<Rightarrow> trie_heap \<Rightarrow> nat \<Rightarrow> cfloat \<Rightarrow> cfloat result option" where
  "approx_score scorer fin h a score =
     (case (scorer, fin) of
        (Some sc, True) \<Rightarrow>
          obind (get_path_vec h a) (\<lambda>(_, labels, _).
          obind (split_labels sc labels) (\<lambda>words.
          obind (get_sent_log_prob sc words) (\<lambda>p.
            (let s1 = f32_of_f64 (f64_sub score (f64_mul (f64_round (of_nat (length labels))) (sc_beta sc)))
             in Some (Inr (f32_of_f64 (f64_sub s1 (f64_mul p (sc_alpha sc)))))))))
      | _ \<Rightarrow> Some (Inr score))"

fun approx_loop :: "scorer option \<Rightarrow> bool \<Rightarrow> nat list \<Rightarrow> trie_heap \<Rightarrow> trie_heap result option" where
  "approx_loop scorer fin [] h = Some (Inr h)"
| "approx_loop scorer fin (a # as) h =
     obind (Some (deref h a)) (\<lambda>nd.
     obind (approx_score scorer fin h a (node_score nd)) (\<lambda>s.
     obind (Some (update_node h a (\<lambda>nd. nd\<lparr>approx_ctc := s\<rparr>))) (\<lambda>h'.
       approx_loop scorer fin as h')))"

definition decode ::
  "cxx_lib \<Rightarrow> nat \<Rightarrow> bool \<Rightarrow> decoder_state \<Rightarrow> ((cfloat \<times> beam_output) list \<times> decoder_state) result option" where
  "decode lib limit_candidates fin d =
     (if candidates_trie d = None then Some (Inl Runtime_error)
      else
        obind (if fin then finalize d else Some (Inr d)) (\<lambda>d1.
          (case candidates_trie d1 of
             None \<Rightarrow> Some (Inl Undefined)
           | Some h \<Rightarrow>
               (let n = min (length (candidates d1)) (unat (beam_size d1));
                    m = (if limit_candidates > 0 then min n limit_candidates else n)
                in obind (Some (sort_first lib h n (candidates d1))) (\<lambda>cands.
                   obind (approx_loop (lm_scorer d1) fin (take m cands) h) (\<lambda>h'.
                   obind (get_beam_search_result h' cands m) (\<lambda>res.
                     Some (Inr (res, d1\<lparr>candidates := cands, candidates_trie := Some h'\<rparr>)))))))))"

definition ctc_beam_search_decoder ::
  "cxx_lib \<Rightarrow> cfloat list \<Rightarrow> nat \<Rightarrow> nat \<Rightarrow> nat \<Rightarrow> bytes list \<Rightarrow> u64 \<Rightarrow> cfloat \<Rightarrow> u64 \<Rightarrow> u64 \<Rightarrow> bool \<Rightarrow> scorer option
     \<Rightarrow> (cfloat \<times> beam_output) list result option" where
  "ctc_beam_search_decoder lib probs frame_num frame_stride alph_stride alph beam cutoff top_n blank log_probs scorer =
     obind (Some (init_decoder alph blank beam scorer decoder_new)) (\<lambda>d1.
     obind (Some (set_config ''cutoff_prob'' cutoff True d1)) (\<lambda>(_, d2).
     obind (Some (set_config ''cutoff_top_n'' (double_of_size top_n) True d2)) (\<lambda>(_, d3).
     obind (append_probs lib probs frame_num frame_stride alph_stride log_probs d3) (\<lambda>d4.
     obind (decode lib 0 True d4) (\<lambda>(res, _). Some (Inr res))))))"

text \<open>
  The batch function runs one decoder per sample on a thread pool and collects the results in
  order; the first sample that throws decides the exception. The decoders share only the
  scorer, which they read.
\<close>

fun batch_loop ::
  "(nat \<Rightarrow> nat \<Rightarrow> (cfloat \<times> beam_output) list result option) \<Rightarrow> nat \<Rightarrow> nat list
     \<Rightarrow> (cfloat \<times> beam_output) list list result option" where
  "batch_loop run i [] = Some (Inr [])"
| "batch_loop run i (n # ns) =
     obind (run i n) (\<lambda>r. obind (batch_loop run (i + 1) ns) (\<lambda>rs. Some (Inr (r # rs))))"

definition ctc_beam_search_decoder_batch ::
  "cxx_lib \<Rightarrow> cfloat list \<Rightarrow> nat \<Rightarrow> nat list \<Rightarrow> nat \<Rightarrow> nat \<Rightarrow> nat \<Rightarrow> bytes list \<Rightarrow> u64 \<Rightarrow> u64 \<Rightarrow> cfloat \<Rightarrow> u64 \<Rightarrow> u64 \<Rightarrow> bool
     \<Rightarrow> scorer option \<Rightarrow> (cfloat \<times> beam_output) list list result option" where
  "ctc_beam_search_decoder_batch lib probs batch_num frame_nums batch_stride frame_stride alph_stride alph beam num_processes
       cutoff top_n blank log_probs scorer =
     (if num_processes \<le> 0 then Some (Inl Logic_error)
      else if length frame_nums \<noteq> batch_num then Some (Inl Runtime_error)
      else batch_loop (\<lambda>i n. ctc_beam_search_decoder lib (drop (i * batch_stride) probs) n frame_stride alph_stride alph beam
             cutoff top_n blank log_probs scorer) 0 frame_nums)"

section \<open>The invariant of the search\<close>

text \<open>What a scorer must offer: a usable model, and a dictionary over the decoder's labels.\<close>

definition scorer_fit :: "scorer option \<Rightarrow> int list list \<Rightarrow> nat \<Rightarrow> bool" where
  "scorer_fit scorer ws n \<longleftrightarrow>
     (case scorer of
        None \<Rightarrow> True
      | Some sc \<Rightarrow> scorer_ok sc \<and> 0 < max_order sc \<and> max_order sc < 2 ^ 60 \<and>
          (\<exists>d. sc_dictionary sc = Some d \<and> finalized ws d) \<and> n \<le> length (char_list sc) \<and>
          (\<forall>c \<in> set (char_list sc). length c \<le> 4) \<and>
          (is_character_based sc \<longrightarrow> (\<forall>w \<in> set ws. w \<noteq> [] \<longrightarrow> is_boundary sc (hd w - 1))))"

definition labels_in :: "nat \<Rightarrow> nat \<Rightarrow> trie_heap \<Rightarrow> bool" where
  "labels_in n blank h \<longleftrightarrow>
     (\<forall>x nd. node_at h x = Some nd \<longrightarrow> x \<noteq> 0 \<longrightarrow> node_char nd < int n \<and> node_char nd \<noteq> int blank)"

definition search_ok :: "scorer option \<Rightarrow> int list list \<Rightarrow> nat \<Rightarrow> nat \<Rightarrow> trie_heap \<Rightarrow> bool" where
  "search_ok scorer ws n blank h \<longleftrightarrow> heap_ok (scorer_dictionary scorer) h \<and> labels_in n blank h \<and>
     (scorer \<noteq> None \<longrightarrow> dictionary_ok ws h)"

lemma search_okD:
  assumes "search_ok scorer ws n blank h"
  shows "heap_ok (scorer_dictionary scorer) h" "trie_ok h" "labels_in n blank h" "scorer \<noteq> None \<Longrightarrow> dictionary_ok ws h"
  using assms by (auto simp: search_ok_def heap_ok_def)

lemma labels_in_inherits:
  assumes "inherits h h'" "labels_in n blank h"
  shows "labels_in n blank h'"
  unfolding labels_in_def
proof (intro allI impI)
  fix x nd' assume x: "node_at h' x = Some nd'" "x \<noteq> 0"
  from assms(1) x(1) obtain nd where "node_at h x = Some nd" "node_char nd' = node_char nd" unfolding inherits_def by metis
  with assms(2) x(2) show "node_char nd' < int n \<and> node_char nd' \<noteq> int blank" by (auto simp: labels_in_def)
qed

lemma search_ok_inherits:
  "inherits h h' \<Longrightarrow> heap_ok (scorer_dictionary scorer) h' \<Longrightarrow> search_ok scorer ws n blank h \<Longrightarrow> search_ok scorer ws n blank h'"
  unfolding search_ok_def using labels_in_inherits dictionary_ok_inherits by blast

lemma path_exists:
  assumes "trie_ok h" "node_at h a = Some nd"
  shows "\<exists>ts. path_to h a ts"
  using path_vec_loop_spec [OF assms, of "Suc a" "[]" "Suc a" "[]"] by auto

lemma path_labels:
  assumes "path_to h a ts" "trie_ok h" "labels_in n blank h"
  shows "\<forall>c \<in> set ts. 0 \<le> c \<and> c < int n \<and> c \<noteq> int blank"
  using assms(1)
proof induction
  case (path_child p ts a nd)
  have "a \<noteq> 0" using parent_node [OF assms(2) path_child.hyps(2,3)] by blast
  with path_child trie_okD(3) [OF assms(2) path_child.hyps(2)] assms(3) show ?case by (auto simp: labels_in_def)
qed simp

lemma path_labels_ok:
  assumes "path_to h a ts" "search_ok (Some sc) ws n blank h" "scorer_fit (Some sc) ws n"
  shows "labels_ok sc ts"
  using path_labels [OF assms(1) search_okD(2,3) [OF assms(2)]] assms(3)
  by (fastforce simp: labels_ok_def scorer_fit_def)

text \<open>Updating the numbers of a node.\<close>

definition quiet :: "(path_node \<Rightarrow> path_node) \<Rightarrow> bool" where
  "quiet f \<longleftrightarrow> (\<forall>nd. links (f nd) = links nd \<and> node_exists (f nd) = node_exists nd \<and>
     has_dictionary (f nd) = has_dictionary nd \<and> dictionary_state (f nd) = dictionary_state nd)"

lemma quiet_update:
  assumes "search_ok scorer ws n blank h" "node_at h a = Some nd" "quiet f"
  shows "\<exists>h'. update_node h a f = Inr h' \<and> search_ok scorer ws n blank h' \<and> length h' = length h \<and> live h' = live h \<and>
    (\<forall>x. node_at h' x = (if x = a then Some (f nd) else node_at h x))"
proof -
  let ?h = "h[a := Some (f nd)]"
  have q: "links (f nd) = links nd" "node_exists (f nd) = node_exists nd"
    "has_dictionary (f nd) = has_dictionary nd" "dictionary_state (f nd) = dictionary_state nd"
    using assms(3) by (simp_all add: quiet_def)
  have at: "node_at ?h x = (if x = a then Some (f nd) else node_at h x)" for x
    using node_at_bound [OF assms(2)] by (simp add: heap_simps)
  have "inherits h ?h" using q by (intro inherits_update [OF assms(2)]) (simp_all add: links_def)
  moreover have "heap_ok (scorer_dictionary scorer) ?h"
    using q by (intro heap_ok_update [OF search_okD(1) [OF assms(1)] assms(2)]) simp_all
  ultimately have "search_ok scorer ws n blank ?h" using assms(1) by (rule search_ok_inherits)
  moreover have "live ?h = live h" using assms(2) q(2) by (auto simp: live_def at)
  moreover have "update_node h a f = Inr ?h" using assms(2) by (simp add: update_node_def heap_simps)
  ultimately show ?thesis using at by auto
qed

lemma quiet_grown:
  assumes "node_at h a = Some nd" "quiet f" "node_score (f nd) = node_score nd"
    "\<forall>x. node_at h' x = (if x = a then Some (f nd) else node_at h x)"
  shows "grown h h'"
  using assms unfolding grown_def quiet_def links_def by auto

section \<open>Extending prefixes\<close>

lemma get_path_trie_cases:
  assumes "get_path_trie dict h a c t p reset = Inr (r, h')"
  obtains (found) b ch where "node_at h b = Some ch" "h' = h[b := Some (revive ch t p)]"
  | (refused) nd nd' where "node_at h a = Some nd" "h' = h[a := Some nd']" "node_char nd' = node_char nd"
  | (created) nd new where "node_at h a = Some nd" "h' = snd (new_child h a nd new)" "node_char new = c"
proof -
  obtain nd where nd: "node_at h a = Some nd" using assms by (cases "node_at h a") (auto simp: get_path_trie_def heap_simps)
  show thesis
  proof (cases "List.find (\<lambda>(x, _). x = c) (node_children nd)")
    case (Some cb)
    obtain b where cb: "cb = (fst cb, b)" by (metis prod.collapse)
    obtain ch where ch: "node_at h b = Some ch"
      using assms nd Some cb by (cases "node_at h b") (auto simp: get_path_trie_def heap_simps split: prod.splits)
    from assms nd Some cb ch have "h' = h[b := Some (revive ch t p)]"
      by (auto simp: get_path_trie_def heap_simps split: prod.splits)
    with ch show thesis by (rule found)
  next
    case None
    let ?new = "path_node_init\<lparr>node_char := c, node_time := t, node_parent := Some a, log_prob_c := p\<rparr>"
    show thesis
    proof (cases "has_dictionary nd")
      case False
      then have "h' = snd (new_child h a nd ?new)" using assms nd None by (auto simp: get_path_trie_def heap_simps)
      with nd show thesis by (rule created) simp
    next
      case True
      obtain d where d: "dict = Some d" using assms nd None True by (cases dict) (auto simp: get_path_trie_def heap_simps)
      obtain ok st where ap: "append_character d (c + 1) (dictionary_state nd) = (ok, st)" by fastforce
      show thesis
      proof (cases ok)
        case ok: True
        let ?n = "?new\<lparr>has_dictionary := True, dictionary_state := (if wps_weight st \<and> reset then empty_state d else st)\<rparr>"
        have "h' = snd (new_child h a nd ?n)"
          using assms nd None True d ap ok by (auto simp: get_path_trie_def heap_simps)
        with nd show thesis by (rule created) simp
      next
        case no: False
        let ?n = "if wps_weight (dictionary_state nd) \<and> reset then nd\<lparr>dictionary_state := empty_state d\<rparr> else nd"
        have "h' = h[a := Some ?n]" using assms nd None True d ap no by (auto simp: get_path_trie_def heap_simps)
        with nd show thesis by (rule refused) simp
      qed
    qed
  qed
qed

lemma get_path_trie_nodes:
  assumes "get_path_trie dict h a c t p reset = Inr (r, h')"
  shows "length h' \<le> length h + 1"
    and "node_at h' x = Some nd' \<Longrightarrow> (\<exists>nd. node_at h x = Some nd \<and> node_char nd' = node_char nd) \<or> node_char nd' = c"
proof -
  have "length h' \<le> length h + 1 \<and>
    (node_at h' x = Some nd' \<longrightarrow> (\<exists>nd. node_at h x = Some nd \<and> node_char nd' = node_char nd) \<or> node_char nd' = c)"
    using assms
  proof (cases rule: get_path_trie_cases)
    case (found b ch)
    then show ?thesis using revive_links(1) [of ch t p] by (auto simp: heap_simps links_def split: if_splits)
  next
    case (refused nd nd')
    then show ?thesis by (auto simp: heap_simps split: if_splits)
  next
    case (created nd new)
    then show ?thesis by (auto simp: new_child_def heap_simps split: if_splits)
  qed
  then show "length h' \<le> length h + 1"
    and "node_at h' x = Some nd' \<Longrightarrow> (\<exists>nd. node_at h x = Some nd \<and> node_char nd' = node_char nd) \<or> node_char nd' = c"
    by blast+
qed

lemma get_path_trie_search_ok:
  assumes "search_ok scorer ws n blank h" "scorer_fit scorer ws n" "node_at h a = Some nd" "c < n" "c \<noteq> blank"
  shows "\<exists>r h'. get_path_trie (scorer_dictionary scorer) h a (int c) t p True = Inr (r, h') \<and> search_ok scorer ws n blank h' \<and>
    grown h h' \<and> length h' \<le> length h + 1 \<and> (\<forall>b. r = Some b \<longrightarrow> (\<exists>ch. node_at h' b = Some ch))"
proof -
  obtain r h' where r: "get_path_trie (scorer_dictionary scorer) h a (int c) t p True = Inr (r, h')"
    "heap_ok (scorer_dictionary scorer) h'" "grown h h'" "\<forall>b. r = Some b \<longrightarrow> (\<exists>ch. node_at h' b = Some ch)"
    using get_path_trie_spec [OF search_okD(1) [OF assms(1)] assms(3), of "int c" t p True] by auto
  have "labels_in n blank h'"
    unfolding labels_in_def
  proof (intro allI impI)
    fix x nd' assume x: "node_at h' x = Some nd'" "x \<noteq> 0"
    show "node_char nd' < int n \<and> node_char nd' \<noteq> int blank"
      using get_path_trie_nodes(2) [OF r(1) x(1)] search_okD(3) [OF assms(1)] x(2) assms(4,5)
      unfolding labels_in_def by (metis of_nat_eq_iff of_nat_less_iff)
  qed
  moreover have "dictionary_ok ws h'" if "scorer \<noteq> None"
  proof -
    from that assms(2) obtain sc d where sc: "scorer = Some sc" "sc_dictionary sc = Some d" "finalized ws d"
      by (auto simp: scorer_fit_def)
    then have d: "scorer_dictionary scorer = Some d" by (simp add: scorer_dictionary_def)
    from dictionary_ok_get_path_trie [OF search_okD(1) [OF assms(1), unfolded d] search_okD(4) [OF assms(1) that] sc(3) assms(3) r(1) [unfolded d]]
    show ?thesis .
  qed
  ultimately show ?thesis using r get_path_trie_nodes(1) [OF r(1)] by (auto simp: search_ok_def)
qed

lemma boundary_defined:
  assumes ok: "search_ok (Some sc) ws n blank h" and fit: "scorer_fit (Some sc) ws n" and nd: "node_at h a = Some nd"
  shows "\<exists>b. is_scoring_boundary h sc a l = Some (Inr b)"
proof (cases "is_character_based sc")
  case True
  obtain ts where path: "path_to h a ts" using path_exists [OF search_okD(2) [OF ok] nd] by blast
  show ?thesis
  proof (cases "ts = []")
    case empty: True
    from search_okD(2) [OF ok] path have "node_char nd = - 1"
      by (cases rule: path_to_cases) (use empty nd in \<open>auto simp: ROOT_def\<close>)
    with nd True have "is_scoring_boundary h sc a l = Some (Inr False)"
      by (simp add: is_scoring_boundary_def heap_simps)
    then show ?thesis by blast
  next
    case False
    have "spelled ws (map (\<lambda>c. c + 1) ts) (dictionary_state nd)"
      using search_okD(4) [OF ok] path nd by (auto simp: dictionary_ok_def)
    then have "is_boundary sc (hd ts)"
      using True fit False by (intro dictionary_first_label) (auto simp: scorer_fit_def)
    then have "dropWhile (\<lambda>c. \<not> is_boundary sc c) (rev ts) \<noteq> []" using False by (metis dropWhile_eq_Nil_conv hd_in_set set_rev)
    then obtain c rest where "dropWhile (\<lambda>c. \<not> is_boundary sc c) (rev ts) = c # rest" by (metis neq_Nil_conv)
    with is_scoring_boundary_spec [OF search_okD(2) [OF ok] path False path_labels_ok [OF path ok fit] True, of l]
    show ?thesis by simp
  qed
qed (simp add: is_scoring_boundary_def)

lemma ngram_score_defined:
  assumes ok: "search_ok (Some sc) ws n blank h" and fit: "scorer_fit (Some sc) ws n" and nd: "node_at h a = Some nd"
    and len: "length h \<le> 18446744073709551615"
  shows "\<exists>g p. make_ngram h sc a = Some (Inr g) \<and> get_log_cond_prob sc g = Some (Inr p)"
proof -
  obtain ts where path: "path_to h a ts" using path_exists [OF search_okD(2) [OF ok] nd] by blast
  have "scorer_ok sc" using fit by (simp add: scorer_fit_def)
  with make_ngram_loop_ref [OF search_okD(2) [OF ok] len path path_labels_ok [OF path ok fit]] get_log_cond_prob_spec
  show ?thesis unfolding make_ngram_def by metis
qed

lemma lm_score_defined:
  assumes ok: "search_ok scorer ws n blank h" and fit: "scorer_fit scorer ws n"
    and nd: "node_at h a = Some nd" "node_at h b = Some nb" and len: "length h \<le> 18446744073709551615"
  shows "\<exists>q. lm_score scorer h a b c p = Some (Inr q)"
proof (cases scorer)
  case (Some sc)
  let ?x = "if is_character_based sc then b else a"
  obtain nx where nx: "node_at h ?x = Some nx" using nd by (cases "is_character_based sc") auto
  note ok = ok [unfolded Some] and fit = fit [unfolded Some]
  obtain bd where bd: "is_scoring_boundary h sc ?x c = Some (Inr bd)" using boundary_defined [OF ok fit nx] by blast
  obtain g q where g: "make_ngram h sc ?x = Some (Inr g)" "get_log_cond_prob sc g = Some (Inr q)"
    using ngram_score_defined [OF ok fit nx len] by blast
  show ?thesis unfolding lm_score_def Some option.case Let_def bd g obind_simps by (cases bd) (simp_all add: g)
qed (simp add: lm_score_def)

lemma extend_prefix_ok:
  assumes ok: "search_ok scorer ws n blank h" and fit: "scorer_fit scorer ws n" and nd: "node_at h a = Some nd"
    and c: "c < n" "c \<noteq> blank" and len: "length h < 18446744073709551615"
  shows "\<exists>h'. extend_prefix lib scorer h a c t p = Some (Inr h') \<and> search_ok scorer ws n blank h' \<and> grown h h' \<and>
    length h' \<le> length h + 1"
proof -
  let ?f = "\<lambda>nd. if int c = node_char nd
    then nd\<lparr>log_prob_nb_cur := log_sum_exp lib (log_prob_nb_cur nd) (f32_add p (log_prob_nb_prev nd))\<rparr> else nd"
  have q: "quiet ?f" by (simp add: quiet_def links_def)
  from quiet_update [OF ok nd q] obtain h1 where
    h1: "update_node h a ?f = Inr h1" "search_ok scorer ws n blank h1" "length h1 = length h"
      "\<forall>x. node_at h1 x = (if x = a then Some (?f nd) else node_at h x)" by blast
  have g1: "grown h h1" by (rule quiet_grown [OF nd q _ h1(4)]) simp
  have "node_at h1 a = Some (?f nd)" using h1(4) by simp
  from get_path_trie_search_ok [OF h1(2) fit this c, of t p] obtain r h2 where
    r: "get_path_trie (scorer_dictionary scorer) h1 a (int c) t p True = Inr (r, h2)" "search_ok scorer ws n blank h2"
      "grown h1 h2" "length h2 \<le> length h1 + 1" "\<forall>b. r = Some b \<longrightarrow> (\<exists>ch. node_at h2 b = Some ch)" by blast
  have g2: "grown h h2" using g1 r(3) by (rule grown_trans)
  show ?thesis
  proof (cases r)
    case None
    then have "extend_prefix lib scorer h a c t p = Some (Inr h2)" using h1(1) r(1) by (simp add: extend_prefix_def)
    with r(2,4) g2 h1(3) show ?thesis by auto
  next
    case (Some b)
    with r(5) obtain nb where nb: "node_at h2 b = Some nb" by blast
    from g2 nd obtain na where na: "node_at h2 a = Some na" unfolding grown_def by blast
    have l2: "length h2 \<le> 18446744073709551615" using r(4) h1(3) len by simp
    define log_p where "log_p = (if int c = node_char na \<and> cf_less FLT_LOWEST (log_prob_b_prev na)
        then f32_add p (log_prob_b_prev na) else if int c \<noteq> node_char na then f32_add p (node_score na) else FLT_LOWEST)"
    from lm_score_defined [OF r(2) fit na nb l2] obtain s where s: "lm_score scorer h2 a b (int c) log_p = Some (Inr s)" by blast
    let ?g = "\<lambda>nd. nd\<lparr>log_prob_nb_cur := log_sum_exp lib (log_prob_nb_cur nd) s\<rparr>"
    have q2: "quiet ?g" by (simp add: quiet_def links_def)
    from quiet_update [OF r(2) nb q2] obtain h3 where
      h3: "update_node h2 b ?g = Inr h3" "search_ok scorer ws n blank h3" "length h3 = length h2"
        "\<forall>x. node_at h3 x = (if x = b then Some (?g nb) else node_at h2 x)" by blast
    have g3: "grown h2 h3" by (rule quiet_grown [OF nb q2 _ h3(4)]) simp
    have "extend_prefix lib scorer h a c t p = Some (Inr h3)"
      unfolding extend_prefix_def h1(1) obind_simps r(1) Some prod.case option.case deref_node_at na Let_def
        log_p_def [symmetric] s h3(1) by simp
    with h3(2,3) grown_trans [OF g2 g3] r(4) h1(3) show ?thesis by auto
  qed
qed

lemma grown_node: "grown h h' \<Longrightarrow> node_at h a = Some nd \<Longrightarrow> \<exists>nd'. node_at h' a = Some nd'"
  unfolding grown_def by blast

lemma prefix_loop_ok:
  assumes "search_ok (lm_scorer d) ws n (unat (blank_idx d)) h" "scorer_fit (lm_scorer d) ws n"
    and "\<forall>a \<in> set as. \<exists>nd. node_at h a = Some nd" "c < n" "length h + length as \<le> 18446744073709551615"
  shows "\<exists>h'. prefix_loop lib d m fb t c p as h = Some (Inr h') \<and> search_ok (lm_scorer d) ws n (unat (blank_idx d)) h' \<and>
    grown h h' \<and> length h' \<le> length h + length as"
  using assms(1,3,5)
proof (induction as arbitrary: h)
  case (Cons a as)
  obtain nd where nd: "node_at h a = Some nd" using Cons.prems(2) by auto
  let ?f = "\<lambda>nd. nd\<lparr>log_prob_b_cur := log_sum_exp lib (log_prob_b_cur nd) (f32_add p (node_score nd))\<rparr>"
  define step where "step = (if c = unat (blank_idx d) then Some (update_node h a ?f)
     else extend_prefix lib (lm_scorer d) h a c t p)"
  have "\<exists>h1. step = Some (Inr h1) \<and> search_ok (lm_scorer d) ws n (unat (blank_idx d)) h1 \<and> grown h h1 \<and> length h1 \<le> length h + 1"
  proof (cases "c = unat (blank_idx d)")
    case True
    have q: "quiet ?f" by (simp add: quiet_def links_def)
    from quiet_update [OF Cons.prems(1) nd q] obtain h1 where
      h1: "update_node h a ?f = Inr h1" "search_ok (lm_scorer d) ws n (unat (blank_idx d)) h1" "length h1 = length h"
        "\<forall>x. node_at h1 x = (if x = a then Some (?f nd) else node_at h x)" by blast
    have "grown h h1" by (rule quiet_grown [OF nd q _ h1(4)]) simp
    with h1 True show ?thesis by (simp add: step_def)
  next
    case False
    with extend_prefix_ok [OF Cons.prems(1) assms(2) nd assms(4) False] Cons.prems(3) show ?thesis by (simp add: step_def)
  qed
  then obtain h1 where h1: "step = Some (Inr h1)" "search_ok (lm_scorer d) ws n (unat (blank_idx d)) h1" "grown h h1"
    "length h1 \<le> length h + 1" by blast
  have nodes: "\<forall>a \<in> set as. \<exists>nd. node_at h1 a = Some nd" using Cons.prems(2) grown_node [OF h1(3)] by (meson list.set_intros(2))
  have "length h1 + length as \<le> 18446744073709551615" using h1(4) Cons.prems(3) by simp
  from Cons.IH [OF h1(2) nodes this] obtain h' where
    h': "prefix_loop lib d m fb t c p as h1 = Some (Inr h')" "search_ok (lm_scorer d) ws n (unat (blank_idx d)) h'"
      "grown h1 h'" "length h' \<le> length h1 + length as" by blast
  have unf: "prefix_loop lib d m fb t c p (a # as) h =
      (if fb \<and> cf_less (f32_add p (node_score nd)) m then Some (Inr h) else Some (Inr h'))"
    using nd h1(1) h'(1) by (auto simp: deref_node_at step_def)
  show ?case
  proof (cases "fb \<and> cf_less (f32_add p (node_score nd)) m")
    case True
    with unf Cons.prems(1) show ?thesis by auto
  next
    case False
    with unf h' h1(4) grown_trans [OF h1(3) h'(3)] show ?thesis by auto
  qed
qed simp

lemma char_loop_ok:
  assumes "search_ok (lm_scorer d) ws n (unat (blank_idx d)) h" "scorer_fit (lm_scorer d) ws n"
    and "\<forall>a \<in> set as. \<exists>nd. node_at h a = Some nd" "\<forall>(c, p) \<in> set ps. c < n" "index + k \<le> length ps"
    and "length h + k * length as \<le> 18446744073709551615"
  shows "\<exists>h'. char_loop k index lib d m fb t as ps h = Some (Inr h') \<and>
    search_ok (lm_scorer d) ws n (unat (blank_idx d)) h' \<and> grown h h' \<and> length h' \<le> length h + k * length as"
  using assms(1,3,5,6)
proof (induction k arbitrary: index h)
  case (Suc k)
  obtain c p where cp: "ps ! index = (c, p)" by fastforce
  have "(c, p) \<in> set ps" using cp Suc.prems(3) by (metis Suc_le_lessD add_Suc_right le_add1 nth_mem order_less_le_trans add_leD1 less_add_Suc1)
  then have c: "c < n" using assms(4) by auto
  have "length h + length as \<le> 18446744073709551615" using Suc.prems(4) by simp
  from prefix_loop_ok [OF Suc.prems(1) assms(2) Suc.prems(2) c this] obtain h1 where
    h1: "prefix_loop lib d m fb t c p as h = Some (Inr h1)" "search_ok (lm_scorer d) ws n (unat (blank_idx d)) h1"
      "grown h h1" "length h1 \<le> length h + length as" by blast
  have nodes: "\<forall>a \<in> set as. \<exists>nd. node_at h1 a = Some nd" using Suc.prems(2) grown_node [OF h1(3)] by blast
  have "index + 1 + k \<le> length ps" "length h1 + k * length as \<le> 18446744073709551615"
    using Suc.prems(3,4) h1(4) by auto
  from Suc.IH [OF h1(2) nodes this] obtain h' where
    "char_loop k (index + 1) lib d m fb t as ps h1 = Some (Inr h')" "search_ok (lm_scorer d) ws n (unat (blank_idx d)) h'"
    "grown h1 h'" "length h' \<le> length h1 + k * length as" by blast
  with h1 cp Suc.prems(3) grown_trans [OF h1(3)] show ?case by auto
qed simp

section \<open>Sorting candidates\<close>

definition key_of :: "trie_heap \<Rightarrow> nat \<Rightarrow> prefix_key" where
  "key_of h a = (case node_at h a of None \<Rightarrow> (a, NaN, ROOT) | Some nd \<Rightarrow> (a, node_score nd, node_char nd))"

lemma keys_of_nodes: "\<forall>a \<in> set as. \<exists>nd. node_at h a = Some nd \<Longrightarrow> keys_of h as = Inr (map (key_of h) as)"
  by (induction as) (auto simp: heap_simps key_of_def)

lemma fst_key_of [simp]: "fst (key_of h a) = a"
  by (simp add: key_of_def split: option.split)

lemma mset_fst_keys: "mset ks = mset (map (key_of h) as) \<Longrightarrow> mset (map fst ks) = mset as"
  by (metis (no_types, lifting) comp_apply fst_key_of list.map_comp list.map_ident_strong mset_map)

lemma sort_first_perm:
  assumes "lib_ok lib" "\<forall>a \<in> set (take n as). \<exists>nd. node_at h a = Some nd" "n \<le> length as"
  shows "\<exists>bs. sort_first lib h n as = Inr (bs @ drop n as) \<and> mset bs = mset (take n as) \<and> length bs = n \<and>
    (list_all (\<lambda>(_, s, _). s \<noteq> NaN) (map (key_of h) (take n as)) \<longrightarrow> sorted_by prefix_compare (map (key_of h) bs))"
proof -
  let ?ks = "map (key_of h) (take n as)"
  let ?s = "lib_sort_prefixes lib ?ks"
  have so: "sorts (\<lambda>(_, s, _). s \<noteq> NaN) prefix_compare (lib_sort_prefixes lib)" using assms(1) by (simp add: lib_ok_def)
  then have m: "mset ?s = mset ?ks" by (simp add: sorts_def)
  note mf = mset_fst_keys [OF m]
  have ks: "set ?s = set ?ks" using m by (metis set_mset_mset)
  have "key_of h (fst k) = k" if "k \<in> set ?s" for k
  proof -
    from that ks obtain x where "k = key_of h x" by auto
    then show ?thesis by simp
  qed
  then have "map (key_of h) (map fst ?s) = ?s" by (simp add: map_idI)
  moreover have "length (map fst ?s) = n" using mf assms(3) by (metis length_take min.absorb2 size_mset)
  ultimately show ?thesis
    using so keys_of_nodes [OF assms(2)] mf by (intro exI [of _ "map fst ?s"]) (simp add: sort_first_def sorts_def)
qed

section \<open>Frames\<close>

definition decoder_ok :: "int list list \<Rightarrow> decoder_state \<Rightarrow> bool" where
  "decoder_ok ws d \<longleftrightarrow> beam_size d \<noteq> 0 \<and> scorer_fit (lm_scorer d) ws (length (alphabet d)) \<and>
     (\<exists>h. candidates_trie d = Some h \<and> search_ok (lm_scorer d) ws (length (alphabet d)) (unat (blank_idx d)) h \<and>
        distinct (take (unat (beam_size d)) (candidates d)) \<and>
        set (take (unat (beam_size d)) (candidates d)) = live h \<and> live h \<noteq> {})"

lemma live_node: "a \<in> live h \<Longrightarrow> \<exists>nd. node_at h a = Some nd"
  by (auto simp: live_def)

lemma keep_beam_ok:
  assumes lib: "lib_ok lib" and ok: "search_ok scorer ws n blank h" and as: "distinct as" "set as = live h" "live h \<noteq> {}"
    and "0 < beam"
  shows "\<exists>h' as'. keep_beam lib beam h as = Some (Inr (h', as')) \<and> search_ok scorer ws n blank h' \<and>
    distinct (take beam as') \<and> set (take beam as') = live h' \<and> live h' \<noteq> {} \<and> length h' = length h"
proof (cases "beam \<le> length as")
  case True
  let ?ks = "map (key_of h) as"
  let ?bs = "map fst (lib_nth_element lib beam ?ks)"
  have nodes: "\<forall>a \<in> set as. \<exists>nd. node_at h a = Some nd" using as(2) live_node by blast
  have "separates (\<lambda>(_, s, _). s \<noteq> NaN) prefix_compare (lib_nth_element lib)" using lib by (simp add: lib_ok_def)
  then have "mset (lib_nth_element lib beam ?ks) = mset ?ks" by (simp add: separates_def)
  note mf = mset_fst_keys [OF this]
  have bs: "distinct ?bs" "set ?bs = live h"
    using mf as(1,2) by (metis mset_eq_imp_distinct_iff, metis set_mset_mset)
  have len: "length ?bs = length as" using mf by (metis size_mset)
  have dis: "distinct (take beam ?bs)" "distinct (drop beam ?bs)" "set (take beam ?bs) \<inter> set (drop beam ?bs) = {}"
    using bs(1) by (metis append_take_drop_id distinct_append)+
  have un: "live h = set (take beam ?bs) \<union> set (drop beam ?bs)" using bs(2) by (metis append_take_drop_id set_append)
  have ne: "take beam ?bs \<noteq> []" using True len assms(6) as(2,3) by auto
  have diff: "live h - set (drop beam ?bs) = set (take beam ?bs)" using un dis(3) by blast
  obtain h' where h': "remove_each remove_node h (drop beam ?bs) = Some (Inr h')"
      "heap_ok (scorer_dictionary scorer) h'" "live h' = set (take beam ?bs)" "pruned h h'"
    using trie.remove_each_alive [OF search_okD(1) [OF ok] dis(2)] un diff ne by (metis Un_upper2 set_empty2)
  have "search_ok scorer ws n blank h'" by (rule search_ok_inherits [OF inherits_pruned [OF h'(4)] h'(2) ok])
  moreover have "keep_beam lib beam h as = Some (Inr (h', ?bs))"
    using True h'(1) by (simp add: keep_beam_def keys_of_nodes [OF nodes])
  ultimately show ?thesis using h'(3,4) dis(1) ne by (auto simp: pruned_def)
next
  case False
  then show ?thesis using ok as by (simp add: keep_beam_def)
qed

lemma frame_cutoff_ok:
  assumes lib: "lib_ok lib" and ok: "decoder_ok ws d" and h: "candidates_trie d = Some h"
    and blank: "lm_scorer d \<noteq> None \<Longrightarrow> unat (blank_idx d) * stride < length prob"
  shows "\<exists>cands m fb. frame_cutoff lib d h prob stride lp = Inr (cands, m, fb) \<and>
    mset (take (unat (beam_size d)) cands) = mset (take (unat (beam_size d)) (candidates d))"
proof (cases "lm_scorer d")
  case None
  then have "frame_cutoff lib d h prob stride lp = Inr (candidates d, FLT_LOWEST, False)" by (simp add: frame_cutoff_def)
  then show ?thesis by blast
next
  case (Some sc)
  let ?n = "min (length (candidates d)) (unat (beam_size d))"
  have tk: "take ?n (candidates d) = take (unat (beam_size d)) (candidates d)" by (simp add: min_def)
  have live: "set (take (unat (beam_size d)) (candidates d)) = live h" "live h \<noteq> {}" "beam_size d \<noteq> 0"
    using ok h by (auto simp: decoder_ok_def)
  have nodes: "\<forall>a \<in> set (take ?n (candidates d)). \<exists>nd. node_at h a = Some nd" using tk live(1) live_node by simp
  from sort_first_perm [OF lib nodes] obtain bs where
    bs: "sort_first lib h ?n (candidates d) = Inr (bs @ drop ?n (candidates d))" "mset bs = mset (take ?n (candidates d))"
      "length bs = ?n" by auto
  have "0 < unat (beam_size d)" using live(3) by (simp add: unat_gt_0)
  then have n0: "?n \<noteq> 0" using live(1,2) by (auto simp: min_def)
  have lt: "?n - 1 < length bs" unfolding bs(3) using n0 by linarith
  have nth: "(bs @ drop ?n (candidates d)) ! (?n - 1) = bs ! (?n - 1)" "bs ! (?n - 1) \<in> set bs"
    using lt by (simp_all only: nth_append if_True nth_mem)
  have "set bs = live h" using bs(2) tk live(1) by (metis set_mset_mset)
  then obtain nd where nd: "node_at h (bs ! (?n - 1)) = Some nd" using nth(2) live_node by blast
  have "?n - 1 < length (bs @ drop ?n (candidates d))" using lt by (simp only: length_append trans_less_add1)
  then have "vec_at (bs @ drop ?n (candidates d)) (?n - 1) = Inr (bs ! (?n - 1))" using nth(1) by simp
  then have "\<exists>m fb. frame_cutoff lib d h prob stride lp = Inr (bs @ drop ?n (candidates d), m, fb)"
    unfolding frame_cutoff_def Some option.case Let_def bs(1) rbind_Inr using n0 nd blank Some by (simp add: deref_node_at)
  moreover have "take (unat (beam_size d)) (bs @ drop ?n (candidates d)) = bs"
    using bs(3) by (cases "unat (beam_size d) \<le> length (candidates d)") (simp_all add: min_def)
  ultimately show ?thesis using bs(2) tk by metis
qed

text \<open>A frame that is read inside the array and loses no character to pruning.\<close>

definition unpruned :: "cxx_lib \<Rightarrow> decoder_state \<Rightarrow> bool" where
  "unpruned lib d \<longleftrightarrow> \<not> cf_less (lib_log lib (cutoff_prob d)) (Fin 0) \<and> length (alphabet d) \<le> unat (cutoff_top_n d)"

lemma read_step_ok: "(n = 0 \<or> (i + n - 1) * stride < length ps) \<Longrightarrow> \<exists>xs. read_step ps stride n i = Inr xs"
proof (induction n arbitrary: i)
  case (Suc n)
  have "i * stride \<le> (i + n) * stride" by (rule mult_le_mono1) simp
  moreover have "(i + n) * stride < length ps" using Suc.prems by simp
  ultimately have "i * stride < length ps" by (rule le_less_trans)
  moreover obtain xs where "read_step ps stride n (i + 1) = Inr xs" using Suc.IH [of "i + 1"] Suc.prems by auto
  ultimately show ?case by simp
qed simp

lemma unpruned_probs:
  assumes "unpruned lib d" "length (alphabet d) = 0 \<or> (length (alphabet d) - 1) * stride < length prob"
  shows "\<exists>xs. get_pruned_log_probs lib prob (length (alphabet d)) stride (cutoff_prob d) (unat (cutoff_top_n d)) lp = Inr xs \<and>
    map fst xs = [0..<length (alphabet d)]"
proof -
  obtain ys where ys: "read_step prob stride (length (alphabet d)) 0 = Inr ys"
    using read_step_ok [of "length (alphabet d)" 0 stride prob] assms(2) by auto
  then have "map fst ys = [0..<length (alphabet d)]" using read_step_spec [OF ys] by (simp add: comp_def)
  with ys assms(1) show ?thesis
    by (auto simp: get_pruned_log_probs_def unpruned_def Let_def not_less comp_def case_prod_beta)
qed

lemma append_frame_ok:
  assumes lib: "lib_ok lib" and ok: "decoder_ok ws d" and un: "unpruned lib d" and h: "candidates_trie d = Some h"
    and inb: "length (alphabet d) = 0 \<or> t * fs + (length (alphabet d) - 1) * stride < length probs"
    and blank: "lm_scorer d \<noteq> None \<Longrightarrow> t * fs + unat (blank_idx d) * stride < length probs"
    and len: "length h + length (alphabet d) * unat (beam_size d) \<le> 18446744073709551615"
  shows "\<exists>d' h'. append_frame lib probs fs stride lp t d = Some (Inr d') \<and> decoder_ok ws d' \<and>
    d' = d\<lparr>candidates_trie := Some h', candidates := candidates d'\<rparr> \<and>
    length h' \<le> length h + length (alphabet d) * unat (beam_size d)"
proof -
  let ?n = "length (alphabet d)" and ?b = "unat (beam_size d)" and ?bl = "unat (blank_idx d)"
  let ?prob = "drop (t * fs) probs"
  from ok h have okd: "beam_size d \<noteq> 0" "scorer_fit (lm_scorer d) ws ?n" "search_ok (lm_scorer d) ws ?n ?bl h"
    "set (take ?b (candidates d)) = live h" "live h \<noteq> {}" by (auto simp: decoder_ok_def)
  have shift: "k < length probs - t * fs" if "t * fs + k < length probs" for k using that by simp
  obtain cands m fb where fc: "frame_cutoff lib d h ?prob stride lp = Inr (cands, m, fb)"
    "mset (take ?b cands) = mset (take ?b (candidates d))"
    using frame_cutoff_ok [OF lib ok h, of stride ?prob lp] shift blank by (metis length_drop)
  have nodes: "\<forall>a \<in> set (take ?b cands). \<exists>nd. node_at h a = Some nd"
    using fc(2) okd(4) live_node by (metis set_mset_mset)
  obtain ps where ps: "get_pruned_log_probs lib ?prob ?n stride (cutoff_prob d) (unat (cutoff_top_n d)) lp = Inr ps"
    "map fst ps = [0..<?n]"
    using unpruned_probs [OF un, of stride ?prob lp] shift inb by (metis length_drop)
  have "fst ` set ps = {0..<?n}" using ps(2) by (metis set_map set_upt)
  then have psn: "\<forall>(c, p) \<in> set ps. c < ?n" by force
  have psl: "0 + ?n \<le> length ps" using ps(2) by (metis add_0 diff_zero length_map length_upt order_refl)
  have "?n * length (take ?b cands) \<le> ?n * ?b" by simp
  then have "length h + ?n * length (take ?b cands) \<le> 18446744073709551615" using len by linarith
  from char_loop_ok [OF okd(3,2) nodes psn psl this] obtain h1 where
    h1: "char_loop ?n 0 lib d m fb (int_of_size (of_nat t + next_timestep d)) (take ?b cands) ps h = Some (Inr h1)"
      "search_ok (lm_scorer d) ws ?n ?bl h1" "grown h h1" "length h1 \<le> length h + ?n * length (take ?b cands)" by blast
  from iterate_to_vec_spec [OF search_okD(1) [OF h1(2)], of lib] obtain h2 as where
    h2: "iterate_to_vec lib h1 0 = Some (Inr (h2, as))" "distinct as" "set as = live h1"
      "heap_ok (scorer_dictionary (lm_scorer d)) h2" "same_shape h1 h2"
      "\<forall>x. node_at h2 x = map_option (\<lambda>nd. if node_exists nd then shift_probs lib nd else nd) (node_at h1 x)" by blast
  have "inherits h1 h2" using h2(6) by (auto simp: inherits_def shift_probs_def)
  from search_ok_inherits [OF this h2(4) h1(2)] have s2: "search_ok (lm_scorer d) ws ?n ?bl h2" .
  have l2: "live h2 = live h1" using h2(6) by (auto simp: live_def split: if_splits)
  have "live h1 \<noteq> {}" using grown_live [OF h1(3)] okd(5) by blast
  then obtain h3 as' where
    h3: "keep_beam lib ?b h2 as = Some (Inr (h3, as'))" "search_ok (lm_scorer d) ws ?n ?bl h3"
      "distinct (take ?b as')" "set (take ?b as') = live h3" "live h3 \<noteq> {}" "length h3 = length h2"
    using keep_beam_ok [OF lib s2 h2(2), of ?b] h2(3) l2 okd(1) by (auto simp: unat_gt_0)
  let ?d = "d\<lparr>candidates_trie := Some h3, candidates := as'\<rparr>"
  have "append_frame lib probs fs stride lp t d = Some (Inr ?d)"
    unfolding append_frame_def h option.case Let_def fc(1) obind_simps prod.case ps(1) h1(1) h2(1) h3(1) ..
  moreover have "decoder_ok ws ?d" using h3 okd by (auto simp: decoder_ok_def)
  moreover have "length h3 \<le> length h + ?n * ?b"
  proof -
    have "length h2 = length h1" using h2(5) by (simp add: same_shape_def)
    with h3(6) h1(4) \<open>?n * length (take ?b cands) \<le> ?n * ?b\<close> show ?thesis by linarith
  qed
  ultimately show ?thesis by (intro exI [of _ ?d] exI [of _ h3]) simp
qed

definition frames_fit :: "decoder_state \<Rightarrow> cfloat list \<Rightarrow> nat \<Rightarrow> nat \<Rightarrow> nat \<Rightarrow> bool" where
  "frames_fit d probs n fs stride \<longleftrightarrow> (\<forall>t < n.
     (alphabet d = [] \<or> t * fs + (length (alphabet d) - 1) * stride < length probs) \<and>
     (lm_scorer d \<noteq> None \<longrightarrow> t * fs + unat (blank_idx d) * stride < length probs))"

lemma append_frames_ok:
  assumes lib: "lib_ok lib" and "decoder_ok ws d" "unpruned lib d" "candidates_trie d = Some h"
    and "frames_fit d probs (t + n) fs stride" "length h + n * (length (alphabet d) * unat (beam_size d)) \<le> 18446744073709551615"
  shows "\<exists>d' h'. append_frames n lib probs fs stride lp t d = Some (Inr d') \<and> decoder_ok ws d' \<and>
    d' = d\<lparr>candidates_trie := Some h', candidates := candidates d'\<rparr> \<and>
    length h' \<le> length h + n * (length (alphabet d) * unat (beam_size d))"
  using assms(2-6)
proof (induction n arbitrary: t d h)
  case 0
  then show ?case by (intro exI [of _ d] exI [of _ h]) simp
next
  case (Suc n)
  let ?k = "length (alphabet d) * unat (beam_size d)"
  have "length h + ?k \<le> 18446744073709551615" using Suc.prems(5) by simp
  moreover have "length (alphabet d) = 0 \<or> t * fs + (length (alphabet d) - 1) * stride < length probs"
    "lm_scorer d \<noteq> None \<Longrightarrow> t * fs + unat (blank_idx d) * stride < length probs"
    using Suc.prems(4) by (auto simp: frames_fit_def)
  ultimately obtain d1 h1 where d1: "append_frame lib probs fs stride lp t d = Some (Inr d1)" "decoder_ok ws d1"
    "d1 = d\<lparr>candidates_trie := Some h1, candidates := candidates d1\<rparr>" "length h1 \<le> length h + ?k"
    using append_frame_ok [OF lib Suc.prems(1-3), of t fs stride probs lp] by blast
  from d1(3) have same: "alphabet d1 = alphabet d" "beam_size d1 = beam_size d" "lm_scorer d1 = lm_scorer d"
    "blank_idx d1 = blank_idx d" "cutoff_prob d1 = cutoff_prob d" "cutoff_top_n d1 = cutoff_top_n d" "candidates_trie d1 = Some h1"
    by (metis decoder_state.select_convs decoder_state.surjective decoder_state.update_convs)+
  have "unpruned lib d1" "frames_fit d1 probs (t + 1 + n) fs stride"
    "length h1 + n * (length (alphabet d1) * unat (beam_size d1)) \<le> 18446744073709551615"
    using Suc.prems(2,4,5) d1(4) same by (simp_all add: unpruned_def frames_fit_def)
  from Suc.IH [OF d1(2) this(1) same(7) this(2,3)] obtain d' h' where
    d': "append_frames n lib probs fs stride lp (t + 1) d1 = Some (Inr d')" "decoder_ok ws d'"
      "d' = d1\<lparr>candidates_trie := Some h', candidates := candidates d'\<rparr>"
      "length h' \<le> length h1 + n * (length (alphabet d1) * unat (beam_size d1))" by blast
  have "d' = d\<lparr>candidates_trie := Some h', candidates := candidates d'\<rparr>"
    by (subst d'(3), subst d1(3)) simp
  with d1 d' same show ?case by (intro exI [of _ d'] exI [of _ h']) auto
qed

lemma append_probs_ok:
  assumes "lib_ok lib" "decoder_ok ws d" "unpruned lib d" "candidates_trie d = Some h" "\<not> is_finalized d"
    and "frames_fit d probs n fs stride" "length h + n * (length (alphabet d) * unat (beam_size d)) \<le> 18446744073709551615"
  shows "\<exists>d' h'. append_probs lib probs n fs stride lp d = Some (Inr d') \<and> decoder_ok ws d' \<and>
    d' = d\<lparr>candidates_trie := Some h', candidates := candidates d', next_timestep := next_timestep d + of_nat n\<rparr> \<and>
    length h' \<le> length h + n * (length (alphabet d) * unat (beam_size d))"
proof -
  have "frames_fit d probs (0 + n) fs stride" using assms(6) by simp
  from append_frames_ok [OF assms(1-4) this assms(7), of lp] obtain d1 h1 where
    d1: "append_frames n lib probs fs stride lp 0 d = Some (Inr d1)" "decoder_ok ws d1"
      "d1 = d\<lparr>candidates_trie := Some h1, candidates := candidates d1\<rparr>"
      "length h1 \<le> length h + n * (length (alphabet d) * unat (beam_size d))" by blast
  let ?d = "d1\<lparr>next_timestep := next_timestep d1 + of_nat n\<rparr>"
  have nt: "next_timestep d1 = next_timestep d" by (subst d1(3)) simp
  have "append_probs lib probs n fs stride lp d = Some (Inr ?d)"
    using assms(4,5) d1(1) by (simp add: append_probs_def)
  moreover have "decoder_ok ws ?d" using d1(2) by (simp add: decoder_ok_def)
  moreover have "?d = d\<lparr>candidates_trie := Some h1, candidates := candidates ?d, next_timestep := next_timestep d + of_nat n\<rparr>"
    unfolding nt by (subst d1(3)) simp
  ultimately show ?thesis using d1(4) by blast
qed

section \<open>Decoding\<close>

lemma finalize_loop_ok:
  assumes "search_ok (Some sc) ws n blank h" "scorer_fit (Some sc) ws n" "\<forall>a \<in> set as. \<exists>nd. node_at h a = Some nd"
    and "length h \<le> 18446744073709551615"
  shows "\<exists>h'. finalize_loop sc as h = Some (Inr h') \<and> search_ok (Some sc) ws n blank h' \<and> length h' = length h \<and> live h' = live h"
  using assms(1,3,4)
proof (induction as arbitrary: h)
  case (Cons a as)
  obtain nd where nd: "node_at h a = Some nd" using Cons.prems(2) by auto
  define ob where "ob = (if is_character_based sc then Some a else node_parent nd)"
  define step where "step = (case ob of None \<Rightarrow> Some (Inr h)
    | Some b \<Rightarrow> obind (is_scoring_boundary h sc b (node_char nd)) (\<lambda>boundary.
        if boundary then Some (Inr h)
        else obind (make_ngram h sc a) (\<lambda>ngram. obind (get_log_cond_prob sc ngram) (\<lambda>p.
          (let score = f32_of_f64 (f64_add (f32_of_f64 (f64_mul p (sc_alpha sc))) (sc_beta sc))
           in Some (update_node h a (\<lambda>nd. nd\<lparr>node_score := f32_add (node_score nd) score\<rparr>)))))))"
  obtain g p where g: "make_ngram h sc a = Some (Inr g)" "get_log_cond_prob sc g = Some (Inr p)"
    using ngram_score_defined [OF Cons.prems(1) assms(2) nd Cons.prems(3)] by blast
  let ?s = "f32_of_f64 (f64_add (f32_of_f64 (f64_mul p (sc_alpha sc))) (sc_beta sc))"
  have "quiet (\<lambda>nd. nd\<lparr>node_score := f32_add (node_score nd) ?s\<rparr>)" by (simp add: quiet_def links_def)
  from quiet_update [OF Cons.prems(1) nd this] obtain h2 where
    h2: "update_node h a (\<lambda>nd. nd\<lparr>node_score := f32_add (node_score nd) ?s\<rparr>) = Inr h2" "search_ok (Some sc) ws n blank h2"
      "length h2 = length h" "live h2 = live h" "\<forall>x. node_at h x \<noteq> None \<longrightarrow> node_at h2 x \<noteq> None" by (metis option.distinct(1))
  have "\<exists>h1. step = Some (Inr h1) \<and> search_ok (Some sc) ws n blank h1 \<and> length h1 = length h \<and> live h1 = live h \<and>
      (\<forall>x. node_at h x \<noteq> None \<longrightarrow> node_at h1 x \<noteq> None)"
  proof (cases ob)
    case None
    then show ?thesis using Cons.prems(1) by (simp add: step_def)
  next
    case (Some b)
    have "\<exists>nb. node_at h b = Some nb"
      using Some nd parent_node [OF search_okD(2) [OF Cons.prems(1)] nd] by (metis ob_def option.inject)
    then obtain bd where bd: "is_scoring_boundary h sc b (node_char nd) = Some (Inr bd)"
      using boundary_defined [OF Cons.prems(1) assms(2)] by blast
    show ?thesis
      unfolding step_def Some option.case bd obind_simps using Cons.prems(1) h2 g by (cases bd) (simp_all add: Let_def)
  qed
  then obtain h1 where h1: "step = Some (Inr h1)" "search_ok (Some sc) ws n blank h1" "length h1 = length h" "live h1 = live h"
    "\<forall>x. node_at h x \<noteq> None \<longrightarrow> node_at h1 x \<noteq> None" by blast
  have "\<forall>a \<in> set as. \<exists>nd. node_at h1 a = Some nd" using Cons.prems(2) h1(5) by (metis list.set_intros(2) not_None_eq)
  from Cons.IH [OF h1(2) this] Cons.prems(3) h1(3,4) obtain h' where
    h': "finalize_loop sc as h1 = Some (Inr h')" "search_ok (Some sc) ws n blank h'" "length h' = length h" "live h' = live h" by auto
  have "finalize_loop sc (a # as) h = Some (Inr h')"
    using nd h1(1) h'(1) by (simp add: deref_node_at ob_def [symmetric] step_def [symmetric])
  with h' show ?case by blast
qed simp

lemma finalize_ok:
  assumes "decoder_ok ws d" "candidates_trie d = Some h" "length h \<le> 18446744073709551615"
  shows "\<exists>d' h'. finalize d = Some (Inr d') \<and> decoder_ok ws d' \<and> is_finalized d' \<and> candidates_trie d' = Some h' \<and>
    candidates d' = candidates d \<and> beam_size d' = beam_size d \<and> lm_scorer d' = lm_scorer d \<and> alphabet d' = alphabet d \<and>
    blank_idx d' = blank_idx d \<and> length h' = length h \<and> live h' = live h"
proof (cases "is_finalized d")
  case True
  with assms show ?thesis by (simp add: finalize_def)
next
  case False
  show ?thesis
  proof (cases "lm_scorer d")
    case None
    with False assms show ?thesis by (simp add: finalize_def decoder_ok_def)
  next
    case (Some sc)
    let ?as = "take (unat (beam_size d)) (candidates d)"
    have ok: "search_ok (Some sc) ws (length (alphabet d)) (unat (blank_idx d)) h" "scorer_fit (Some sc) ws (length (alphabet d))"
      "set ?as = live h" using assms(1,2) Some by (auto simp: decoder_ok_def)
    have "\<forall>a \<in> set ?as. \<exists>nd. node_at h a = Some nd" using ok(3) live_node by blast
    from finalize_loop_ok [OF ok(1,2) this assms(3)] obtain h' where
      h': "finalize_loop sc ?as h = Some (Inr h')" "search_ok (Some sc) ws (length (alphabet d)) (unat (blank_idx d)) h'"
        "length h' = length h" "live h' = live h" by blast
    have "finalize d = Some (Inr (d\<lparr>is_finalized := True, candidates_trie := Some h'\<rparr>))"
      using False assms(2) Some h'(1) by (simp add: finalize_def)
    moreover have "decoder_ok ws (d\<lparr>is_finalized := True, candidates_trie := Some h'\<rparr>)"
      using assms(1,2) Some h' by (auto simp: decoder_ok_def)
    ultimately show ?thesis using h' by auto
  qed
qed

lemma path_length: "path_to h a ts \<Longrightarrow> trie_ok h \<Longrightarrow> length ts \<le> a"
proof (induction rule: path_to.induct)
  case (path_child p ts a nd)
  have "p < a" using parent_node [OF path_child.prems path_child.hyps(2,3)] by blast
  with path_child show ?case by simp
qed simp

lemma split_utf8_loop_length: "length (split_utf8_loop cs result out) \<le> length result + length cs + 1"
proof (induction cs arbitrary: result out)
  case (Cons c cs)
  from Cons.IH [of "result @ [out]" "[c]"] Cons.IH [of result "out @ [c]"] show ?case by simp
qed simp

lemma pieces_length: "length (pieces d cs) \<le> length cs + 1"
  by (induction cs) auto

lemma spell_length:
  assumes "\<forall>c \<in> set (char_list sc). length c \<le> 4" "labels_ok sc ts"
  shows "length (spell sc ts) \<le> 4 * length ts"
  using assms(2)
proof (induction ts)
  case (Cons c ts)
  then have "length (char_list sc ! nat c) \<le> 4" using assms(1) by (auto simp: labels_ok_def)
  with Cons show ?case by (simp add: spell_def labels_ok_def)
qed (simp add: spell_def)

lemma split_labels_ok:
  assumes "\<forall>c \<in> set (char_list sc). length c \<le> 4" "labels_ok sc ts"
  shows "\<exists>words. split_labels sc ts = Some (Inr words) \<and> length words \<le> 4 * length ts + 1"
proof (cases "ts = []")
  case False
  let ?s = "spell sc ts"
  note l = spell_length [OF assms]
  have sp: "bytes_of_string '' '' = [32]" by code_simp
  have "length (split_utf8_str ?s) \<le> 4 * length ts + 1"
    using split_utf8_loop_length [of ?s "[]" "[]"] l by (simp add: split_utf8_str_def)
  moreover have "length (filter (\<lambda>w. w \<noteq> []) (pieces 32 ?s)) \<le> 4 * length ts + 1"
    using pieces_length [of 32 ?s] length_filter_le [of "\<lambda>w. w \<noteq> []" "pieces 32 ?s"] l by linarith
  ultimately show ?thesis
    using False split_str_loop_pieces [of 0 ?s 32 "[]"]
    by (auto simp: split_labels_def vec2str_spell [OF assms(2)] sp split_str_def)
qed (simp add: split_labels_def)

lemma sum_scores_defined: "scorer_ok sc \<Longrightarrow> \<exists>p. sum_scores sc ws s = Some (Inr p)"
proof (induction ws arbitrary: s)
  case (Cons w ws)
  with get_log_cond_prob_spec [OF Cons.prems, of w] show ?case by auto
qed simp

lemma approx_score_ok:
  assumes ok: "search_ok scorer ws n blank h" and fit: "scorer_fit scorer ws n" and nd: "node_at h a = Some nd"
    and len: "length h \<le> 2 ^ 60"
  shows "\<exists>s'. approx_score scorer fin h a s = Some (Inr s')"
proof (cases "scorer \<noteq> None \<and> fin")
  case True
  then obtain sc where sc: "scorer = Some sc" by blast
  note ok = ok [unfolded sc] and fit = fit [unfolded sc]
  have fitD: "scorer_ok sc" "0 < max_order sc" "max_order sc < 2 ^ 60" "\<forall>c \<in> set (char_list sc). length c \<le> 4"
    using fit by (auto simp: scorer_fit_def)
  have "length h \<le> 18446744073709551615" using len by simp
  from get_path_vec_spec [OF search_okD(2) [OF ok] nd this] obtain ts times where
    p: "get_path_vec h a = Some (Inr (0, ts, times))" "path_to h a ts" by blast
  obtain words where w: "split_labels sc ts = Some (Inr words)" "length words \<le> 4 * length ts + 1"
    using split_labels_ok [OF fitD(4) path_labels_ok [OF p(2) ok fit]] by blast
  have "length ts < 2 ^ 60" using path_length [OF p(2) search_okD(2) [OF ok]] node_at_bound [OF nd] len by linarith
  moreover have "unat (max_order sc) < 2 ^ 60" using fitD(3) by (simp add: word_less_nat_alt)
  ultimately have "length words + unat (max_order sc) < 18446744073709551614" using w(2) by simp
  moreover have "max_order sc \<noteq> 0" using fitD(2) by auto
  ultimately obtain q where "get_sent_log_prob sc words = Some (Inr q)"
    using get_sent_log_prob_windows sum_scores_defined [OF fitD(1)] by metis
  with p(1) w(1) True sc show ?thesis by (simp add: approx_score_def Let_def)
next
  case False
  then show ?thesis by (auto simp: approx_score_def split: option.split bool.split)
qed

lemma approx_loop_ok:
  assumes "search_ok scorer ws n blank h" "scorer_fit scorer ws n" "\<forall>a \<in> set as. \<exists>nd. node_at h a = Some nd"
    and "length h \<le> 2 ^ 60"
  shows "\<exists>h'. approx_loop scorer fin as h = Some (Inr h') \<and> search_ok scorer ws n blank h' \<and> length h' = length h \<and>
    live h' = live h \<and> key_of h' = key_of h"
  using assms(1,3,4)
proof (induction as arbitrary: h)
  case (Cons a as)
  obtain nd where nd: "node_at h a = Some nd" using Cons.prems(2) by auto
  obtain s where s: "approx_score scorer fin h a (node_score nd) = Some (Inr s)"
    using approx_score_ok [OF Cons.prems(1) assms(2) nd Cons.prems(3)] by blast
  let ?f = "\<lambda>nd. nd\<lparr>approx_ctc := s\<rparr>"
  have "quiet ?f" by (simp add: quiet_def links_def)
  from quiet_update [OF Cons.prems(1) nd this] obtain h1 where
    h1: "update_node h a ?f = Inr h1" "search_ok scorer ws n blank h1" "length h1 = length h" "live h1 = live h"
      "\<forall>x. node_at h1 x = (if x = a then Some (?f nd) else node_at h x)" by blast
  have k: "key_of h1 = key_of h" using h1(5) nd by (intro ext) (simp add: key_of_def)
  have "\<forall>a \<in> set as. \<exists>nd. node_at h1 a = Some nd" using Cons.prems(2) h1(5) by auto
  from Cons.IH [OF h1(2) this] Cons.prems(3) h1(3,4) k obtain h' where
    "approx_loop scorer fin as h1 = Some (Inr h')" "search_ok scorer ws n blank h'" "length h' = length h" "live h' = live h"
    "key_of h' = key_of h" by auto
  with nd s h1(1) show ?case by (simp add: deref_node_at)
qed simp

definition result_of :: "trie_heap \<Rightarrow> nat \<Rightarrow> cfloat \<times> beam_output \<Rightarrow> bool" where
  "result_of h a r \<longleftrightarrow> (\<exists>nd. node_at h a = Some nd \<and> fst r = cf_neg (node_score nd)) \<and> path_to h a (tokens (snd r)) \<and>
     length (timesteps (snd r)) = length (tokens (snd r))"

lemma beam_results_ok:
  assumes "trie_ok h" "length h \<le> 18446744073709551615" "\<forall>a \<in> set as. \<exists>nd. node_at h a = Some nd"
  shows "\<exists>res. beam_results h as = Some (Inr res) \<and> list_all2 (result_of h) as res"
  using assms(3)
proof (induction as)
  case (Cons a as)
  then obtain nd res where nd: "node_at h a = Some nd" and res: "beam_results h as = Some (Inr res)" "list_all2 (result_of h) as res"
    by auto
  from get_path_vec_spec [OF assms(1) nd assms(2)] obtain ts times where
    p: "get_path_vec h a = Some (Inr (0, ts, times))" "path_to h a ts" "length times = length ts" by blast
  let ?r = "(cf_neg (node_score nd), \<lparr>tokens = ts, timesteps = times, audio_score = cf_neg (approx_ctc nd)\<rparr>)"
  have "beam_results h (a # as) = Some (Inr (?r # res))" using nd p(1) res(1) by (simp add: deref_node_at)
  moreover have "result_of h a ?r" using nd p by (simp add: result_of_def)
  ultimately show ?case using res(2) by auto
qed simp

lemma results_distinct:
  assumes "list_all2 (result_of h) as res" "distinct as" "trie_ok h"
  shows "distinct (map (tokens \<circ> snd) res)"
  using assms(1,2)
proof (induction rule: list_all2_induct)
  case (Cons a as r res)
  have "tokens (snd r) \<noteq> tokens (snd r')" if "r' \<in> set res" for r'
  proof -
    from Cons.hyps(2) that obtain b where b: "b \<in> set as" "result_of h b r'"
      by (metis (full_types) in_set_conv_nth list_all2_conv_all_nth)
    have "follow h 0 (tokens (snd r)) = Some a" "follow h 0 (tokens (snd r')) = Some b"
      using Cons.hyps(1) b(2) follow_path [OF _ assms(3)] by (auto simp: result_of_def)
    with Cons.prems b(1) show ?thesis by auto
  qed
  with Cons show ?case by auto
qed simp

lemma neg_less: "cf_less (cf_neg x) (cf_neg y) \<longleftrightarrow> cf_less y x"
  by (cases x; cases y) auto

lemma results_sorted:
  assumes "list_all2 (result_of h) as res" "sorted_by prefix_compare (map (key_of h) as)"
  shows "sorted_wrt (\<lambda>r r'. \<not> cf_less (fst r') (fst r)) res"
proof (rule sorted_wrt_iff_nth_less [THEN iffD2], intro allI impI)
  fix i j assume ij: "i < j" "j < length res"
  have len: "length as = length res" using assms(1) by (rule list_all2_lengthD)
  obtain ni nj where n: "node_at h (as ! i) = Some ni" "fst (res ! i) = cf_neg (node_score ni)"
    "node_at h (as ! j) = Some nj" "fst (res ! j) = cf_neg (node_score nj)"
    using ij list_all2_nthD [OF assms(1), of i] list_all2_nthD [OF assms(1), of j] len by (auto simp: result_of_def)
  have "\<not> prefix_compare (key_of h (as ! j)) (key_of h (as ! i))"
    using assms(2) ij len by (auto simp: sorted_by_def sorted_wrt_iff_nth_less)
  then have "\<not> cf_less (node_score ni) (node_score nj)"
    using n by (cases "node_score ni"; cases "node_score nj") (auto simp: key_of_def prefix_compare_def split: if_splits)
  then show "\<not> cf_less (fst (res ! j)) (fst (res ! i))" using n by (simp add: neg_less)
qed

lemma decode_spec:
  assumes lib: "lib_ok lib" and ok: "decoder_ok ws d" and h: "candidates_trie d = Some h" and len: "length h \<le> 2 ^ 60"
  shows "\<exists>res d' h' bs. decode lib limit fin d = Some (Inr (res, d')) \<and> decoder_ok ws d' \<and>
    candidates_trie d' = Some h' \<and> alphabet d' = alphabet d \<and> lm_scorer d' = lm_scorer d \<and> blank_idx d' = blank_idx d \<and>
    live h' = live h \<and> distinct bs \<and> set bs \<subseteq> live h \<and> list_all2 (result_of h') bs res \<and>
    length bs = (if limit > 0 then min limit (card (live h)) else card (live h)) \<and>
    ((\<forall>a \<in> live h'. \<forall>nd. node_at h' a = Some nd \<longrightarrow> node_score nd \<noteq> NaN) \<longrightarrow> sorted_by prefix_compare (map (key_of h') bs))"
proof -
  have len': "length h \<le> 18446744073709551615" using len by simp
  obtain d1 h1 where d1: "(if fin then finalize d else Some (Inr d)) = Some (Inr d1)" "decoder_ok ws d1"
    "candidates_trie d1 = Some h1" "candidates d1 = candidates d" "beam_size d1 = beam_size d" "lm_scorer d1 = lm_scorer d"
    "alphabet d1 = alphabet d" "blank_idx d1 = blank_idx d" "length h1 = length h" "live h1 = live h"
    using finalize_ok [OF ok h len'] ok h by (cases fin) auto
  let ?b = "unat (beam_size d1)"
  let ?n = "min (length (candidates d1)) ?b"
  let ?m = "if limit > 0 then min ?n limit else ?n"
  have tk: "take ?n (candidates d1) = take ?b (candidates d1)" by (simp add: min_def)
  from d1(2,3) have dok: "scorer_fit (lm_scorer d1) ws (length (alphabet d1))"
    "search_ok (lm_scorer d1) ws (length (alphabet d1)) (unat (blank_idx d1)) h1" "distinct (take ?b (candidates d1))"
    "set (take ?b (candidates d1)) = live h1" "live h1 \<noteq> {}" "beam_size d1 \<noteq> 0" by (auto simp: decoder_ok_def)
  have nodes: "\<forall>a \<in> set (take ?n (candidates d1)). \<exists>nd. node_at h1 a = Some nd" using tk dok(4) live_node by simp
  from sort_first_perm [OF lib nodes] obtain bs where
    bs: "sort_first lib h1 ?n (candidates d1) = Inr (bs @ drop ?n (candidates d1))" "mset bs = mset (take ?n (candidates d1))"
      "length bs = ?n" "list_all (\<lambda>(_, s, _). s \<noteq> NaN) (map (key_of h1) (take ?n (candidates d1))) \<longrightarrow>
        sorted_by prefix_compare (map (key_of h1) bs)" by auto
  let ?cands = "bs @ drop ?n (candidates d1)"
  have bsl: "set bs = live h1" "distinct bs" using bs(2) tk dok(3,4) by (metis set_mset_mset, metis mset_eq_imp_distinct_iff)
  have m: "?m \<le> length bs" unfolding bs(3) by (cases "limit > 0") (simp_all only: if_True if_False min.cobounded1 order_refl)
  then have tkm: "take ?m ?cands = take ?m bs" by simp
  have subm: "set (take ?m bs) \<subseteq> live h1" using bsl(1) set_take_subset [of ?m bs] by blast
  then have "\<forall>a \<in> set (take ?m bs). \<exists>nd. node_at h1 a = Some nd" using live_node by blast
  from approx_loop_ok [OF dok(2,1) this, of fin] d1(9) len obtain h2 where
    h2: "approx_loop (lm_scorer d1) fin (take ?m bs) h1 = Some (Inr h2)"
      "search_ok (lm_scorer d1) ws (length (alphabet d1)) (unat (blank_idx d1)) h2" "length h2 = length h1" "live h2 = live h1"
      "key_of h2 = key_of h1" by auto
  have nodes2: "\<forall>a \<in> set (take ?m bs). \<exists>nd. node_at h2 a = Some nd" using subm h2(4) live_node by blast
  have "length h2 \<le> 18446744073709551615" using h2(3) d1(9) len' by simp
  from beam_results_ok [OF search_okD(2) [OF h2(2)] this nodes2] obtain res where
    res: "beam_results h2 (take ?m bs) = Some (Inr res)" "list_all2 (result_of h2) (take ?m bs) res" by blast
  let ?d = "d1\<lparr>candidates := ?cands, candidates_trie := Some h2\<rparr>"
  have dec: "decode lib limit fin d = Some (Inr (res, ?d))"
    unfolding decode_def d1(1) obind_simps d1(3) option.case Let_def bs(1) tkm h2(1) get_beam_search_result_def res(1)
    using h by simp
  have tkb: "take ?b ?cands = bs" using bs(3) by (cases "?b \<le> length (candidates d1)") (simp_all add: min_def)
  have okd: "decoder_ok ws ?d" using h2 dok bsl tkb by (simp add: decoder_ok_def)
  have card: "card (live h) = length bs" using bsl d1(10) by (metis distinct_card)
  have lenm: "length (take ?m bs) = (if limit > 0 then min limit (card (live h)) else card (live h))"
    unfolding card bs(3) [symmetric] by (simp add: min.commute)
  have srt: "sorted_by prefix_compare (map (key_of h2) (take ?m bs))"
    if "\<forall>a \<in> live h2. \<forall>nd. node_at h2 a = Some nd \<longrightarrow> node_score nd \<noteq> NaN"
  proof -
    have "case key_of h1 a of (_, s, _) \<Rightarrow> s \<noteq> NaN" if "a \<in> set (take ?n (candidates d1))" for a
    proof -
      have "a \<in> live h2" using that tk dok(4) h2(4) by simp
      then obtain nd where "node_at h2 a = Some nd" using live_node by blast
      with \<open>a \<in> live h2\<close> \<open>\<forall>a \<in> live h2. _\<close> have "case key_of h2 a of (_, s, _) \<Rightarrow> s \<noteq> NaN" by (simp add: key_of_def)
      then show ?thesis by (simp add: h2(5))
    qed
    then have "sorted_by prefix_compare (map (key_of h1) bs)" using bs(4) by (simp add: list_all_iff)
    then show ?thesis unfolding h2(5) sorted_by_def take_map [symmetric] by (rule sorted_wrt_take)
  qed
  have fld: "candidates_trie ?d = Some h2" "alphabet ?d = alphabet d" "lm_scorer ?d = lm_scorer d" "blank_idx ?d = blank_idx d"
    using d1 by simp_all
  have sub: "set (take ?m bs) \<subseteq> live h" using bsl(1) d1(10) set_take_subset [of ?m bs] by blast
  from dec okd fld res(2) lenm srt sub distinct_take [OF bsl(2)] h2(4) d1(10) show ?thesis by metis
qed

text \<open>What a result of the search looks like.\<close>

definition results_ok :: "scorer option \<Rightarrow> int list list \<Rightarrow> nat \<Rightarrow> nat \<Rightarrow> (cfloat \<times> beam_output) list \<Rightarrow> bool" where
  "results_ok scorer ws n blank res \<longleftrightarrow> distinct (map (tokens \<circ> snd) res) \<and>
     (\<forall>r \<in> set res. length (timesteps (snd r)) = length (tokens (snd r)) \<and>
        (\<forall>c \<in> set (tokens (snd r)). 0 \<le> c \<and> c < int n \<and> c \<noteq> int blank) \<and>
        (scorer \<noteq> None \<longrightarrow> (\<exists>vs p. map (\<lambda>c. c + 1) (tokens (snd r)) = concat vs @ p \<and> set vs \<subseteq> set ws \<and>
           (p = [] \<or> (\<exists>w \<in> set ws. prefix p w)))))"

lemma results_ok_search:
  assumes "list_all2 (result_of h) bs res" "distinct bs"
    and "search_ok scorer ws n blank h"
  shows "results_ok scorer ws n blank res"
proof -
  have "length (timesteps (snd r)) = length (tokens (snd r)) \<and>
        (\<forall>c \<in> set (tokens (snd r)). 0 \<le> c \<and> c < int n \<and> c \<noteq> int blank) \<and>
        (scorer \<noteq> None \<longrightarrow> (\<exists>vs p. map (\<lambda>c. c + 1) (tokens (snd r)) = concat vs @ p \<and> set vs \<subseteq> set ws \<and>
           (p = [] \<or> (\<exists>w \<in> set ws. prefix p w))))" if "r \<in> set res" for r
  proof -
    from assms(1) that obtain a where a: "result_of h a r" by (metis in_set_conv_nth list_all2_conv_all_nth)
    then obtain nd where nd: "node_at h a = Some nd" "path_to h a (tokens (snd r))" by (auto simp: result_of_def)
    have "\<exists>vs p. map (\<lambda>c. c + 1) (tokens (snd r)) = concat vs @ p \<and> set vs \<subseteq> set ws \<and> (p = [] \<or> (\<exists>w \<in> set ws. prefix p w))"
      if "scorer \<noteq> None"
      using search_okD(4) [OF assms(3) that] nd unfolding dictionary_ok_def spelled_def by blast
    moreover have "\<forall>c \<in> set (tokens (snd r)). 0 \<le> c \<and> c < int n \<and> c \<noteq> int blank"
      by (rule path_labels [OF nd(2) search_okD(2,3) [OF assms(3)]])
    ultimately show ?thesis using a by (simp add: result_of_def)
  qed
  with results_distinct [OF assms(1,2) search_okD(2) [OF assms(3)]] show ?thesis by (simp add: results_ok_def)
qed

lemma new_sequence_ok:
  assumes "scorer_fit (lm_scorer d) ws (length (alphabet d))" "beam_size d \<noteq> 0"
  shows "\<exists>d'. new_sequence d = Inr d' \<and> decoder_ok ws d' \<and> \<not> is_finalized d' \<and>
    d' = d\<lparr>candidates_trie := candidates_trie d', candidates := [0], is_finalized := False, next_timestep := 0\<rparr> \<and>
    (\<exists>r. candidates_trie d' = Some [Some r])"
proof -
  let ?root = "path_node_init\<lparr>node_score := Fin 0, log_prob_b_prev := Fin 0\<rparr>"
  define r where "r = (case scorer_dictionary (lm_scorer d) of None \<Rightarrow> ?root | Some dict \<Rightarrow> set_dictionary dict ?root)"
  let ?d = "d\<lparr>candidates_trie := Some [Some r], candidates := [0], is_finalized := False, next_timestep := 0\<rparr>"
  have ns: "new_sequence d = Inr ?d"
    using assms(1) by (auto simp: new_sequence_def r_def scorer_dictionary_def scorer_fit_def Let_def split: option.splits)
  have rf: "node_parent r = None" "node_char r = ROOT" "node_children r = []" "node_exists r"
    "has_dictionary r = (scorer_dictionary (lm_scorer d) \<noteq> None)"
    by (auto simp: r_def set_dictionary_def path_node_init_def split: option.split)
  have ok: "heap_ok (scorer_dictionary (lm_scorer d)) [Some r]" by (rule heap_ok_root [OF rf])
  have at: "node_at [Some r] x = (if x = 0 then Some r else None)" for x by (simp add: node_at_def)
  have "dictionary_ok ws [Some r]" if "lm_scorer d \<noteq> None"
  proof -
    from that assms(1) obtain dict where dict: "scorer_dictionary (lm_scorer d) = Some dict" "finalized ws dict"
      by (auto simp: scorer_fit_def scorer_dictionary_def)
    show ?thesis
    proof (rule root_dictionary_ok [OF dict(2), of _ r])
      show "node_at [Some r] 0 = Some r" by (simp add: at)
      show "dictionary_state r = empty_state dict" using dict(1) by (simp add: r_def set_dictionary_def)
      show "trie_ok [Some r]" using ok by (simp add: heap_ok_def)
    qed simp
  qed
  then have s: "search_ok (lm_scorer d) ws (length (alphabet d)) (unat (blank_idx d)) [Some r]"
    using ok by (auto simp: search_ok_def labels_in_def at)
  have "live [Some r] = {0}" using rf(4) by (auto simp: live_def at)
  moreover have "take (unat (beam_size d)) [0 :: nat] = [0]" using assms(2) by (cases "unat (beam_size d)") (auto simp: unat_eq_zero)
  ultimately have "decoder_ok ws ?d" using assms s by (simp add: decoder_ok_def)
  with ns show ?thesis by auto
qed

lemma size_of_double_of_size: "unat w < 2 ^ 53 \<Longrightarrow> size_of_double (double_of_size w) = Inr w"
proof -
  assume "unat w < 2 ^ 53"
  then have "double_of_size w = Fin (of_nat (unat w))" by (simp only: double_of_size_def u2d_exact)
  moreover have "size_of_double (Fin (of_nat (unat w))) = Inr (of_int (int (unat w)))"
    using unat_u64_less [of w] by (simp add: Let_def del: of_nat_unat)
  ultimately show ?thesis by simp
qed

lemma decoder_ok_card:
  assumes "decoder_ok ws d" "candidates_trie d = Some h"
  shows "1 \<le> card (live h)" "card (live h) \<le> unat (beam_size d)"
proof -
  have l: "live h = set (take (unat (beam_size d)) (candidates d))" "live h \<noteq> {}" using assms by (auto simp: decoder_ok_def)
  then show "1 \<le> card (live h)" by (metis List.finite_set One_nat_def Suc_leI card_gt_0_iff)
  have "card (live h) \<le> length (take (unat (beam_size d)) (candidates d))" unfolding l(1) by (rule card_length)
  then show "card (live h) \<le> unat (beam_size d)" by simp
qed

lemma decode_all_sorted:
  assumes "list_all2 (result_of h) bs res" "set bs = live h" "\<forall>r \<in> set res. fst r \<noteq> NaN"
  shows "\<forall>a \<in> live h. \<forall>nd. node_at h a = Some nd \<longrightarrow> node_score nd \<noteq> NaN"
proof (intro ballI allI impI)
  fix a nd assume a: "a \<in> live h" "node_at h a = Some nd"
  with assms(2) obtain i where i: "i < length bs" "a = bs ! i" by (metis in_set_conv_nth)
  then have "result_of h a (res ! i)" "i < length res" using assms(1) by (auto simp: list_all2_conv_all_nth)
  with a(2) assms(3) have "cf_neg (node_score nd) \<noteq> NaN" by (metis (no_types, lifting) nth_mem option.inject result_of_def)
  then show "node_score nd \<noteq> NaN" by auto
qed

text \<open>A frame that was pruned: the loop over the alphabet runs past the end of the pruned list.\<close>

lemma char_loop_short:
  assumes "search_ok (lm_scorer d) ws n (unat (blank_idx d)) h" "scorer_fit (lm_scorer d) ws n"
    and "\<forall>a \<in> set as. \<exists>nd. node_at h a = Some nd" "\<forall>(c, p) \<in> set ps. c < n" "index \<le> length ps" "length ps < index + k"
    and "length h + k * length as \<le> 18446744073709551615"
  shows "char_loop k index lib d m fb t as ps h = Some (Inl Undefined)"
  using assms(1,3,5,6,7)
proof (induction k arbitrary: index h)
  case (Suc k)
  show ?case
  proof (cases "index = length ps")
    case True
    then show ?thesis by (simp add: vec_at_def)
  next
    case False
    with Suc.prems(3) have i: "index < length ps" by simp
    obtain c p where cp: "ps ! index = (c, p)" by fastforce
    with i have c: "c < n" using assms(4) nth_mem [OF i] by auto
    have "length h + length as \<le> 18446744073709551615" using Suc.prems(5) by simp
    from prefix_loop_ok [OF Suc.prems(1) assms(2) Suc.prems(2) c this] obtain h1 where
      h1: "prefix_loop lib d m fb t c p as h = Some (Inr h1)" "search_ok (lm_scorer d) ws n (unat (blank_idx d)) h1"
        "grown h h1" "length h1 \<le> length h + length as" by blast
    have nodes: "\<forall>a \<in> set as. \<exists>nd. node_at h1 a = Some nd" using Suc.prems(2) grown_node [OF h1(3)] by blast
    have "index + 1 \<le> length ps" "length ps < index + 1 + k" "length h1 + k * length as \<le> 18446744073709551615"
      using i Suc.prems(4,5) h1(4) by auto
    from Suc.IH [OF h1(2) nodes this] h1(1) cp i show ?thesis by simp
  qed
qed simp

lemma pruned_shorter:
  assumes "lib_ok lib" "0 < topn" "topn < n" "get_pruned_log_probs lib ps n stride cp topn lp = Inr xs"
  shows "length xs \<le> topn"
proof -
  obtain idx where r: "read_step ps stride n 0 = Inr idx"
    using assms(4) by (auto simp: get_pruned_log_probs_def result_simps)
  then have "length idx = n" using read_step_spec [OF r] by simp
  then have "lib_sort_probs lib idx \<noteq> []"
    using assms(1-3) sorts_length [of _ pair_comp_second_rev "lib_sort_probs lib" idx] by (auto simp: lib_ok_def)
  with cutoff_loop_top [OF this, of 0 topn lib cp lp "Fin 0"] assms(2-4) r show ?thesis
    by (auto simp: get_pruned_log_probs_def Let_def min_def)
qed

lemma init_decoder_ok:
  assumes "beam \<noteq> 0" "alph \<noteq> []" "scorer_fit scorer ws (length alph)"
  shows "\<exists>d r. init_decoder alph blank beam scorer d0 = Inr d \<and> decoder_ok ws d \<and> \<not> is_finalized d \<and>
    candidates_trie d = Some [Some r] \<and> lm_scorer d = scorer \<and> alphabet d = alph \<and> beam_size d = beam \<and> blank_idx d = blank"
proof -
  define d1 where "d1 = d0\<lparr>is_finalized := False, next_timestep := 0, alphabet := alph,
      space_idx := (if find_index (bytes_of_string '' '') alph \<ge> length alph then - 2 else int (find_index (bytes_of_string '' '') alph)),
      blank_idx := blank, beam_size := beam, lm_scorer := scorer, cutoff_prob := Fin 1, cutoff_top_n := 300,
      candidates := [], candidates_trie := None\<rparr>"
  have ini: "init_decoder alph blank beam scorer d0 = new_sequence d1"
    using assms(2) by (simp add: init_decoder_def d1_def Let_def)
  have f: "lm_scorer d1 = scorer" "alphabet d1 = alph" "beam_size d1 = beam" "blank_idx d1 = blank" by (simp_all add: d1_def)
  obtain d r where d: "new_sequence d1 = Inr d" "decoder_ok ws d" "\<not> is_finalized d"
    "d = d1\<lparr>candidates_trie := candidates_trie d, candidates := [0], is_finalized := False, next_timestep := 0\<rparr>"
    "candidates_trie d = Some [Some r]"
    using new_sequence_ok [of d1 ws, unfolded f, OF assms(3,1)] by blast
  have "lm_scorer d = scorer" "alphabet d = alph" "beam_size d = beam" "blank_idx d = blank"
    using f arg_cong [OF d(4), of lm_scorer] arg_cong [OF d(4), of alphabet] arg_cong [OF d(4), of beam_size]
      arg_cong [OF d(4), of blank_idx] by simp_all
  with d ini show ?thesis by auto
qed

lemma decode_results:
  assumes "lib_ok lib" "decoder_ok ws d" "candidates_trie d = Some h" "length h \<le> 2 ^ 60"
  shows "\<exists>res d'. decode lib 0 fin d = Some (Inr (res, d')) \<and> decoder_ok ws d' \<and> 1 \<le> length res \<and> length res \<le> unat (beam_size d) \<and>
    results_ok (lm_scorer d) ws (length (alphabet d)) (unat (blank_idx d)) res \<and>
    ((\<forall>r \<in> set res. fst r \<noteq> NaN) \<longrightarrow> sorted_wrt (\<lambda>r r'. \<not> cf_less (fst r') (fst r)) res)"
proof -
  obtain res d' h' bs where
    r: "decode lib 0 fin d = Some (Inr (res, d'))" "decoder_ok ws d'" "candidates_trie d' = Some h'" "alphabet d' = alphabet d"
      "lm_scorer d' = lm_scorer d" "blank_idx d' = blank_idx d" "live h' = live h" "distinct bs" "set bs \<subseteq> live h"
      "list_all2 (result_of h') bs res" "length bs = card (live h)"
      "(\<forall>a \<in> live h'. \<forall>nd. node_at h' a = Some nd \<longrightarrow> node_score nd \<noteq> NaN) \<longrightarrow> sorted_by prefix_compare (map (key_of h') bs)"
    using decode_spec [OF assms, of 0 fin] by (simp only: less_irrefl if_False) blast
  have len: "length res = card (live h)" using list_all2_lengthD [OF r(10)] r(11) by simp
  have "live h = set (take (unat (beam_size d)) (candidates d))" using assms(2,3) by (auto simp: decoder_ok_def)
  then have all: "set bs = live h'" using r(7-9,11) by (metis List.finite_set card_subset_eq distinct_card)
  have "search_ok (lm_scorer d) ws (length (alphabet d)) (unat (blank_idx d)) h'" using r(2-6) by (auto simp: decoder_ok_def)
  note rok = results_ok_search [OF r(10,8) this]
  have "sorted_wrt (\<lambda>r r'. \<not> cf_less (fst r') (fst r)) res" if "\<forall>r \<in> set res. fst r \<noteq> NaN"
    using results_sorted [OF r(10)] r(12) decode_all_sorted [OF r(10) all that] by blast
  with r(1,2) rok len decoder_ok_card [OF assms(2,3)] show ?thesis by auto
qed

section \<open>Properties\<close>

text \<open>
  C1: Decoding a whole utterance returns, without exception, undefined behaviour or endless
  loop, at least one and at most \<^verbatim>\<open>beam_size\<close> results. The results are pairwise different label
  sequences over the alphabet without the blank, with one time step per label, best first if no
  score is NaN; with a language model every one is a sequence of dictionary words, the last one
  possibly cut off. This holds when the beam is not empty, the scorer (if any) is usable, the
  frames lie inside the array, and the cut-offs keep the whole alphabet.
\<close>

theorem ctc_beam_search_decoder_safe:
  assumes "lib_ok lib" "beam \<noteq> 0" "alph \<noteq> []" "scorer_fit scorer ws (length alph)"
    and "\<not> cf_less (lib_log lib (f32_of_f64 cutoff)) (Fin 0)" "length alph \<le> unat top_n" "unat top_n < 2 ^ 53"
    and "\<forall>t < frame_num. t * frame_stride + (length alph - 1) * alph_stride < length probs \<and>
      (scorer \<noteq> None \<longrightarrow> t * frame_stride + unat blank * alph_stride < length probs)"
    and "1 + frame_num * (length alph * unat beam) \<le> 2 ^ 60"
  shows "\<exists>res. ctc_beam_search_decoder lib probs frame_num frame_stride alph_stride alph beam cutoff top_n blank log_probs scorer =
      Some (Inr res) \<and> 1 \<le> length res \<and> length res \<le> unat beam \<and> results_ok scorer ws (length alph) (unat blank) res \<and>
    ((\<forall>r \<in> set res. fst r \<noteq> NaN) \<longrightarrow> sorted_wrt (\<lambda>r r'. \<not> cf_less (fst r') (fst r)) res)"
proof -
  obtain d1 r where d1: "init_decoder alph blank beam scorer decoder_new = Inr d1" "decoder_ok ws d1" "\<not> is_finalized d1"
    "candidates_trie d1 = Some [Some r]" "lm_scorer d1 = scorer" "alphabet d1 = alph" "beam_size d1 = beam" "blank_idx d1 = blank"
    using init_decoder_ok [OF assms(2-4)] by blast
  let ?d3 = "d1\<lparr>cutoff_prob := f32_of_f64 cutoff, cutoff_top_n := top_n\<rparr>"
  have cfg: "set_config ''cutoff_prob'' cutoff True d1 = Inr (True, d1\<lparr>cutoff_prob := f32_of_f64 cutoff\<rparr>)"
    "set_config ''cutoff_top_n'' (double_of_size top_n) True (d1\<lparr>cutoff_prob := f32_of_f64 cutoff\<rparr>) = Inr (True, ?d3)"
    using size_of_double_of_size [OF assms(7)] by (simp_all add: set_config_def)
  have ok3: "decoder_ok ws ?d3" using d1(2) by (simp add: decoder_ok_def)
  have un3: "unpruned lib ?d3" using assms(5,6) d1 by (simp add: unpruned_def)
  have fit3: "frames_fit ?d3 probs frame_num frame_stride alph_stride" using assms(8) d1 by (simp add: frames_fit_def)
  have c3: "candidates_trie ?d3 = Some [Some r]" "\<not> is_finalized ?d3" using d1(3,4) by simp_all
  have len3: "length [Some r] + frame_num * (length (alphabet ?d3) * unat (beam_size ?d3)) \<le> 18446744073709551615"
    using assms(9) d1 by simp
  from append_probs_ok [OF assms(1) ok3 un3 c3 fit3 len3, of log_probs] obtain d4 h4 where
    d4: "append_probs lib probs frame_num frame_stride alph_stride log_probs ?d3 = Some (Inr d4)" "decoder_ok ws d4"
      "d4 = ?d3\<lparr>candidates_trie := Some h4, candidates := candidates d4, next_timestep := next_timestep ?d3 + of_nat frame_num\<rparr>"
      "length h4 \<le> length [Some r] + frame_num * (length (alphabet ?d3) * unat (beam_size ?d3))" by blast
  have f: "candidates_trie d4 = Some h4" "lm_scorer d4 = scorer" "alphabet d4 = alph" "beam_size d4 = beam" "blank_idx d4 = blank"
    using d1 arg_cong [OF d4(3), of lm_scorer] arg_cong [OF d4(3), of alphabet] arg_cong [OF d4(3), of beam_size]
      arg_cong [OF d4(3), of blank_idx] arg_cong [OF d4(3), of candidates_trie] by simp_all
  have "length h4 \<le> 2 ^ 60" using d4(4) assms(9) d1 by simp
  from decode_results [OF assms(1) d4(2) f(1) this, of True, unfolded f(2-5)] obtain res d5 where
    d5: "decode lib 0 True d4 = Some (Inr (res, d5))" "1 \<le> length res" "length res \<le> unat beam"
      "results_ok scorer ws (length alph) (unat blank) res"
      "(\<forall>r \<in> set res. fst r \<noteq> NaN) \<longrightarrow> sorted_wrt (\<lambda>r r'. \<not> cf_less (fst r') (fst r)) res" by blast
  have "ctc_beam_search_decoder lib probs frame_num frame_stride alph_stride alph beam cutoff top_n blank log_probs scorer = Some (Inr res)"
    by (simp add: ctc_beam_search_decoder_def d1(1) cfg d4(1) d5(1))
  with d5(2-5) show ?thesis by blast
qed

definition sample_lib :: cxx_lib where
  "sample_lib = insertion_lib id id"

lemma sample_lib_ok: "lib_ok sample_lib"
  unfolding sample_lib_def by (rule insertion_lib_ok)

theorem ctc_beam_search_decoder_safe_witness:
  "\<exists>res. ctc_beam_search_decoder sample_lib [Fin 0, Fin 0] 1 2 1 [[95], [97]] 2 (Fin 1) 40 0 True None = Some (Inr res) \<and>
     1 \<le> length res \<and> length res \<le> 2"
proof -
  have "f32_of_f64 (Fin 1) = Fin 1" by code_simp
  then have "\<not> cf_less (lib_log sample_lib (f32_of_f64 (Fin 1))) (Fin 0)" by (simp add: sample_lib_def insertion_lib_def)
  with ctc_beam_search_decoder_safe [OF sample_lib_ok, of 2 "[[95], [97]]" None "[]" "Fin 1" 40 1 2 1 "[Fin 0, Fin 0]" 0 True]
  show ?thesis by (auto simp: scorer_fit_def)
qed

text \<open>
  C3: Appending frames keeps the decoder consistent, provided that the cut-offs keep every symbol of the
  alphabet in every frame (\<^verbatim>\<open>unpruned\<close>; otherwise the behaviour may be undefined), the frames lie inside the given
  numbers, the decoder is not finalized and its addresses do not run out: the trie is well-formed, exactly the first
  \<^verbatim>\<open>beam_size\<close> entries of the candidate list are its live nodes, each once, every label is one of
  the alphabet and not the blank, and with a language model every path spells dictionary words.
  Only the trie, the candidates and the time step change.
\<close>

theorem append_probs_keeps_invariant:
  assumes "lib_ok lib" "decoder_ok ws d" "unpruned lib d" "candidates_trie d = Some h" "\<not> is_finalized d"
    and "frames_fit d probs n frame_stride alph_stride"
    and "length h + n * (length (alphabet d) * unat (beam_size d)) \<le> 18446744073709551615"
  shows "\<exists>d' h'. append_probs lib probs n frame_stride alph_stride log_probs d = Some (Inr d') \<and> decoder_ok ws d' \<and>
    d' = d\<lparr>candidates_trie := Some h', candidates := candidates d', next_timestep := next_timestep d + of_nat n\<rparr>"
  using append_probs_ok [OF assms, of log_probs] by blast

definition sample_decoder :: decoder_state where
  "sample_decoder = (case init_decoder [[95], [97]] 0 1 None decoder_new of Inr d \<Rightarrow> d | Inl _ \<Rightarrow> decoder_new)"

lemma sample_decoder_facts:
  "decoder_ok [] sample_decoder" "\<not> is_finalized sample_decoder" "\<exists>r. candidates_trie sample_decoder = Some [Some r]"
  "lm_scorer sample_decoder = None" "alphabet sample_decoder = [[95], [97]]" "beam_size sample_decoder = 1"
  "unpruned sample_lib sample_decoder"
proof -
  have s: "scorer_fit None [] (length [[95], [97 :: u8]])" by (simp add: scorer_fit_def)
  from init_decoder_ok [OF _ _ s, of 1 0 decoder_new] obtain d r where
    d: "init_decoder [[95], [97]] 0 1 None decoder_new = Inr d" "decoder_ok [] d" "\<not> is_finalized d"
      "candidates_trie d = Some [Some r]" "lm_scorer d = None" "alphabet d = [[95], [97]]" "beam_size d = 1" by auto
  then have e: "sample_decoder = d" by (simp add: sample_decoder_def)
  from d e show "decoder_ok [] sample_decoder" "\<not> is_finalized sample_decoder" "\<exists>r. candidates_trie sample_decoder = Some [Some r]"
    "lm_scorer sample_decoder = None" "alphabet sample_decoder = [[95], [97]]" "beam_size sample_decoder = 1" by simp_all
  have "cutoff_prob sample_decoder = Fin 1" "cutoff_top_n sample_decoder = 300" by code_simp+
  with d(6) e show "unpruned sample_lib sample_decoder" by (simp add: unpruned_def sample_lib_def insertion_lib_def)
qed

theorem append_probs_keeps_invariant_witness:
  "\<exists>d'. append_probs sample_lib [Fin 0, Fin 0] 1 2 1 True sample_decoder = Some (Inr d') \<and> decoder_ok [] d'"
proof -
  note f = sample_decoder_facts
  obtain r where r: "candidates_trie sample_decoder = Some [Some r]" using f(3) by blast
  have "frames_fit sample_decoder [Fin 0, Fin 0] 1 2 1" by (simp add: frames_fit_def f)
  with append_probs_keeps_invariant [OF sample_lib_ok f(1,7) r f(2), of "[Fin 0, Fin 0]" 1 2 1 True] show ?thesis
    by (auto simp: f)
qed

text \<open>
  C29: The states of a decoder: before \<^verbatim>\<open>init\<close> and after \<^verbatim>\<open>deinit\<close> every operation throws; once
  \<^verbatim>\<open>decode\<close> has finalized the decoder, nothing can be appended and finalizing again changes
  nothing, until \<^verbatim>\<open>new_sequence\<close> starts over.
\<close>

theorem decoder_protocol:
  assumes "decode lib limit True d = Some (Inr (res, d'))"
  shows "append_probs lib probs n fs stride lp (deinit d) = Some (Inl Runtime_error) \<and>
    decode lib limit fin (deinit d) = Some (Inl Runtime_error) \<and> finalize (deinit d) = Some (Inl Runtime_error) \<and>
    append_probs lib probs n fs stride lp d' = Some (Inl Runtime_error) \<and> finalize d' = Some (Inr d') \<and>
    (\<forall>d''. new_sequence d' = Inr d'' \<longrightarrow> \<not> is_finalized d'' \<and> candidates d'' = [0])"
proof -
  have f: "is_finalized d1 \<and> candidates_trie d1 \<noteq> None" if "finalize d = Some (Inr d1)" for d1
    using that by (auto simp: finalize_def obind_def split: option.splits sum.splits if_splits)
  obtain d1 where d1: "finalize d = Some (Inr d1)"
    using assms by (cases "finalize d") (auto simp: decode_def obind_def split: if_splits sum.splits)
  then have "is_finalized d' \<and> candidates_trie d' \<noteq> None"
    using assms f [OF d1] by (auto simp: decode_def obind_def Let_def split: if_splits sum.splits option.splits)
  then show ?thesis
    by (auto simp: append_probs_def decode_def finalize_def deinit_def new_sequence_def Let_def result_simps split: option.splits)
qed

theorem decoder_protocol_witness:
  "\<exists>res d'. decode sample_lib 0 True sample_decoder = Some (Inr (res, d')) \<and>
     append_probs sample_lib [Fin 0, Fin 0] 1 2 1 True d' = Some (Inl Runtime_error)"
proof -
  note f = sample_decoder_facts
  obtain r where r: "candidates_trie sample_decoder = Some [Some r]" using f(3) by blast
  from decode_results [OF sample_lib_ok f(1) r] obtain res d' where
    "decode sample_lib 0 True sample_decoder = Some (Inr (res, d'))" by fastforce
  with decoder_protocol [OF this] show ?thesis by blast
qed

text \<open>
  C28: If a cut-off drops a character, the decoder reads past the end of the pruned list: with
  \<^verbatim>\<open>cutoff_top_n\<close> below the size of the alphabet, appending a frame has undefined behaviour.
\<close>

theorem append_frame_pruned_undefined:
  assumes "lib_ok lib" "decoder_ok ws d" "candidates_trie d = Some h" "0 < cutoff_top_n d"
    and "unat (cutoff_top_n d) < length (alphabet d)" "frames_fit d probs (Suc t) frame_stride alph_stride"
    and "length h + length (alphabet d) * unat (beam_size d) \<le> 18446744073709551615"
  shows "append_frame lib probs frame_stride alph_stride log_probs t d = Some (Inl Undefined)"
proof -
  let ?n = "length (alphabet d)" and ?b = "unat (beam_size d)" and ?bl = "unat (blank_idx d)" and ?prob = "drop (t * frame_stride) probs"
  have shift: "k < length probs - t * frame_stride" if "t * frame_stride + k < length probs" for k using that by simp
  from assms(2,3) have ok: "scorer_fit (lm_scorer d) ws ?n" "search_ok (lm_scorer d) ws ?n ?bl h"
    "set (take ?b (candidates d)) = live h" by (auto simp: decoder_ok_def)
  have fit: "t * frame_stride + (?n - 1) * alph_stride < length probs"
    "lm_scorer d \<noteq> None \<Longrightarrow> t * frame_stride + ?bl * alph_stride < length probs"
    using assms(5,6) by (auto simp: frames_fit_def)
  obtain cands m fb where fc: "frame_cutoff lib d h ?prob alph_stride log_probs = Inr (cands, m, fb)"
    "mset (take ?b cands) = mset (take ?b (candidates d))"
    using frame_cutoff_ok [OF assms(1-3), of alph_stride ?prob log_probs] shift fit(2) by (metis length_drop)
  have nodes: "\<forall>a \<in> set (take ?b cands). \<exists>nd. node_at h a = Some nd" using fc(2) ok(3) live_node by (metis set_mset_mset)
  obtain ys where "read_step ?prob alph_stride ?n 0 = Inr ys"
    using read_step_ok [of ?n 0 alph_stride ?prob] shift [OF fit(1)] by auto
  then obtain ps where ps: "get_pruned_log_probs lib ?prob ?n alph_stride (cutoff_prob d) (unat (cutoff_top_n d)) log_probs = Inr ps"
    by (auto simp: get_pruned_log_probs_def Let_def)
  have top: "0 < unat (cutoff_top_n d)" using assms(4) by (simp add: word_less_nat_alt)
  have short: "0 \<le> length ps" "length ps < 0 + ?n" using pruned_shorter [OF assms(1) top assms(5) ps] assms(5) by simp_all
  have "c < ?n" if cp: "(c, p) \<in> set ps" for c p
  proof -
    obtain us vs where uv: "mset (us @ vs) = mset (map (\<lambda>j. (j, ?prob ! (j * alph_stride))) [0..<?n])"
      "ps = map (\<lambda>(i, p). (i, if log_probs then p else lib_log lib (f32_add p NUM_FLT_MIN))) us"
      using pruned_entries [OF assms(1) ps] by blast
    from cp uv(2) obtain q where "(c, q) \<in> set us" by auto
    moreover have "set us \<subseteq> set (map (\<lambda>j. (j, ?prob ! (j * alph_stride))) [0..<?n])"
      using uv(1) by (metis Un_upper1 set_append set_mset_mset)
    ultimately show ?thesis by auto
  qed
  then have psn: "\<forall>(c, p) \<in> set ps. c < ?n" by auto
  have "?n * length (take ?b cands) \<le> ?n * ?b" by simp
  then have len: "length h + ?n * length (take ?b cands) \<le> 18446744073709551615" using assms(7) by linarith
  show ?thesis
    by (simp add: append_frame_def assms(3) fc(1) ps char_loop_short [OF ok(2,1) nodes psn short len] Let_def)
qed

theorem append_frame_pruned_undefined_witness:
  "append_frame sample_lib [Fin 0, Fin 0] 2 1 True 0 (sample_decoder\<lparr>cutoff_top_n := 1\<rparr>) = Some (Inl Undefined)"
proof -
  note f = sample_decoder_facts
  let ?d = "sample_decoder\<lparr>cutoff_top_n := 1\<rparr>"
  obtain r where r: "candidates_trie ?d = Some [Some r]" using f(3) by auto
  have "decoder_ok [] ?d" "frames_fit ?d [Fin 0, Fin 0] (Suc 0) 2 1" using f by (simp_all add: decoder_ok_def frames_fit_def)
  with append_frame_pruned_undefined [OF sample_lib_ok _ r, of "[]" "[Fin 0, Fin 0]" 0 2 1 True] show ?thesis by (simp add: f)
qed

text \<open>
  A configuration value that was set is returned by \<^verbatim>\<open>get_config\<close>, for sizes below \<open>2 ^ 53\<close>,
  and nothing else changes; an unknown name is refused, by exception if the caller wants it.
\<close>

theorem config_roundtrip:
  assumes "name \<in> {''beam_size'', ''blank_idx'', ''cutoff_top_n'', ''next_timestep''}" "unat v < 2 ^ 53"
  shows "\<exists>d'. set_config name (double_of_size v) required d = Inr (True, d') \<and>
    get_config name required nf d' = Inr (double_of_size v) \<and>
    (\<forall>other. other \<noteq> name \<longrightarrow> get_config other required nf d' = get_config other required nf d) \<and>
    candidates_trie d' = candidates_trie d \<and> candidates d' = candidates d"
  using assms(1) size_of_double_of_size [OF assms(2)] by (auto simp: set_config_def get_config_def)

theorem config_roundtrip_witness:
  "\<exists>d'. set_config ''beam_size'' (double_of_size 7) True decoder_new = Inr (True, d') \<and>
    get_config ''beam_size'' True NaN d' = Inr (double_of_size 7)"
  using config_roundtrip [of "''beam_size''" 7 True decoder_new NaN] by auto

lemma batch_loop_nth:
  "batch_loop run i ns = Some (Inr rs) \<Longrightarrow> length rs = length ns \<and> (\<forall>k < length ns. run (i + k) (ns ! k) = Some (Inr (rs ! k)))"
proof (induction run i ns arbitrary: rs rule: batch_loop.induct)
  case (2 run i n ns)
  obtain r where r: "run i n = Some (Inr r)"
    using "2.prems" by (cases "run i n") (auto simp: obind_def split: sum.splits)
  obtain rs' where rs': "batch_loop run (i + 1) ns = Some (Inr rs')" "rs = r # rs'"
    using "2.prems" r by (cases "batch_loop run (i + 1) ns") (auto simp: obind_def split: sum.splits)
  note ih = "2.IH" [OF rs'(1)]
  have "run (i + k) ((n # ns) ! k) = Some (Inr ((r # rs') ! k))" if "k < length (n # ns)" for k
    using ih r that by (cases k) auto
  with ih rs'(2) show ?case by simp
qed simp

text \<open>
  Decoding a batch decodes every sample by itself: result \<open>i\<close> is what the single decoder
  returns for the probabilities of sample \<open>i\<close>.
\<close>

theorem batch_decodes_each:
  assumes "ctc_beam_search_decoder_batch lib probs batch_num frame_nums batch_stride frame_stride alph_stride alph beam procs
      cutoff top_n blank log_probs scorer = Some (Inr rs)"
  shows "length rs = batch_num \<and> length frame_nums = batch_num \<and> (\<forall>i < batch_num.
    ctc_beam_search_decoder lib (drop (i * batch_stride) probs) (frame_nums ! i) frame_stride alph_stride alph beam
      cutoff top_n blank log_probs scorer = Some (Inr (rs ! i)))"
  using assms batch_loop_nth by (fastforce simp: ctc_beam_search_decoder_batch_def split: if_splits)

theorem batch_decodes_each_witness:
  "\<exists>rs. ctc_beam_search_decoder_batch sample_lib [Fin 0, Fin 0] 0 [] 2 2 1 [[95], [97]] 1 1 (Fin 1) 40 0 True None = Some (Inr rs) \<and>
     length rs = 0"
proof -
  have "ctc_beam_search_decoder_batch sample_lib [Fin 0, Fin 0] 0 [] 2 2 1 [[95], [97]] 1 1 (Fin 1) 40 0 True None = Some (Inr [])"
    by (simp add: ctc_beam_search_decoder_batch_def)
  with batch_decodes_each [OF this] show ?thesis by simp
qed

text \<open>
  The candidate list keeps the addresses of removed nodes, and only \<^verbatim>\<open>beam_size\<close> guards them: after
  enlarging the beam between two calls of \<^verbatim>\<open>append\<close>, the second one uses a deleted node.
\<close>

definition is_undefined :: "'a result option \<Rightarrow> bool" where
  "is_undefined r \<longleftrightarrow> (case r of Some (Inl e) \<Rightarrow> e = Undefined | _ \<Rightarrow> False)"

lemma enlarged_beam_dangles:
  "(case append_probs sample_lib [Fin 0, Fin (- 5)] 1 2 1 True sample_decoder of
      Some (Inr d) \<Rightarrow>
        (case set_config ''beam_size'' (Fin 2) True d of
           Inr (_, d') \<Rightarrow> is_undefined (append_probs sample_lib [Fin 0, Fin (- 5)] 1 2 1 True d')
         | Inl _ \<Rightarrow> False)
    | _ \<Rightarrow> False)"
  by code_simp

end
