(* ===== verification/ConfigText.thy ===== *)
theory ConfigText
  imports CcaiPrelude
begin

text \<open>
  What the two configuration parsers of the inference runtime (\<^verbatim>\<open>policy.cpp\<close> and
  \<^verbatim>\<open>irt_inference_engine.cpp\<close>) use of the C++ library: reading a file line by line, cutting a line
  at a separator, and \<^verbatim>\<open>std::stoi\<close>; and the check for ASCII text that both files define.
\<close>

section \<open>Lines and fields\<close>

text \<open>\<^verbatim>\<open>std::getline\<close> until it fails: a last line without line end counts, an empty rest does not.\<close>

fun read_lines :: "string \<Rightarrow> string \<Rightarrow> string list" where
  "read_lines acc [] = (if acc = [] then [] else [acc])"
| "read_lines acc (c # cs) = (if c = CHR 0x0A then acc # read_lines [] cs else read_lines (acc @ [c]) cs)"

definition lines_of :: "string \<Rightarrow> string list" where
  "lines_of s = read_lines [] s"

text \<open>\<^verbatim>\<open>std::getline(stream, field, separator)\<close>: the field and what is left in the stream.\<close>

definition get_field :: "char \<Rightarrow> string \<Rightarrow> string \<times> string" where
  "get_field sep s = (takeWhile (\<lambda>c. c \<noteq> sep) s, drop 1 (dropWhile (\<lambda>c. c \<noteq> sep) s))"

text \<open>\<^verbatim>\<open>IsASCII\<close>, in the other file \<^verbatim>\<open>checkASCII\<close>.\<close>

definition is_ascii :: "string \<Rightarrow> bool" where
  "is_ascii s \<longleftrightarrow> list_all (\<lambda>c. 1 \<le> (of_char c :: nat) \<and> (of_char c :: nat) \<le> 127) s"

text \<open>A comment line, \<^verbatim>\<open>line.rfind("#", 0) == 0\<close>.\<close>

definition is_comment :: "string \<Rightarrow> bool" where
  "is_comment s \<longleftrightarrow> (case s of [] \<Rightarrow> False | c # _ \<Rightarrow> c = CHR ''#'')"

section \<open>Numbers\<close>

definition digit_value :: "char \<Rightarrow> int" where
  "digit_value c = of_char c - 48"

definition digits_value :: "string \<Rightarrow> int" where
  "digits_value s = foldl (\<lambda>n c. 10 * n + digit_value c) 0 s"

definition stoi :: "string \<Rightarrow> int result" where
  "stoi s =
     (let t = ltrim s;
          neg = (case t of [] \<Rightarrow> False | c # _ \<Rightarrow> c = CHR ''-'');
          u = (case t of [] \<Rightarrow> [] | c # cs \<Rightarrow> if c = CHR ''-'' \<or> c = CHR ''+'' then cs else t);
          ds = takeWhile isdigit u;
          v = (if neg then - digits_value ds else digits_value ds)
      in if ds = [] then Inl Invalid_argument
         else if v < - (2 ^ 31) \<or> 2 ^ 31 \<le> v then Inl Out_of_range
         else Inr v)"

section \<open>Laws\<close>

lemma read_lines_join:
  "list_all (\<lambda>l. CHR 0x0A \<notin> set l) ls \<Longrightarrow> CHR 0x0A \<notin> set acc \<Longrightarrow>
     read_lines acc (concat (map (\<lambda>l. l @ [CHR 0x0A]) ls)) =
       (case ls of [] \<Rightarrow> (if acc = [] then [] else [acc]) | l # ls' \<Rightarrow> (acc @ l) # ls')"
proof (induction ls arbitrary: acc)
  case (Cons l ls)
  have step: "read_lines a (l' @ CHR 0x0A # rest) = (a @ l') # read_lines [] rest"
    if "CHR 0x0A \<notin> set l'" for a l' rest
    using that by (induction l' arbitrary: a) auto
  from Cons.IH [of "[]"] Cons.prems have "read_lines [] (concat (map (\<lambda>l. l @ [CHR 0x0A]) ls)) = ls"
    by (simp split: list.splits)
  with step [of l acc] Cons.prems show ?case by simp
qed simp

lemma lines_of_join:
  "list_all (\<lambda>l. CHR 0x0A \<notin> set l) ls \<Longrightarrow> lines_of (concat (map (\<lambda>l. l @ [CHR 0x0A]) ls)) = ls"
  by (simp add: lines_of_def read_lines_join split: list.split)

lemma get_field_append: "sep \<notin> set f \<Longrightarrow> get_field sep (f @ sep # rest) = (f, rest)"
  unfolding get_field_def by (induction f) auto

lemma get_field_last: "sep \<notin> set f \<Longrightarrow> get_field sep f = (f, [])"
  unfolding get_field_def by (induction f) auto

lemma rtrim_solid: "s = [] \<or> \<not> isspace (last s) \<Longrightarrow> rtrim s = s"
proof (cases s rule: rev_cases)
  case (snoc ys y)
  then show "s = [] \<or> \<not> isspace (last s) \<Longrightarrow> rtrim s = s" by (simp add: rtrim_def)
qed (simp add: rtrim_def)

lemma ltrim_solid: "s = [] \<or> \<not> isspace (hd s) \<Longrightarrow> ltrim s = s"
  by (cases s) (auto simp: ltrim_def)

end
