(* ===== verification/Policy.thy ===== *)
theory Policy
  imports ConfigText CxxFloat
begin

text \<open>
  The offload policy of the inference runtime, \<^verbatim>\<open>policy.cpp\<close>: the configuration file, the shared
  memory segment through which the policy daemon and the services talk, and the queries and
  updates of it. The operating system is a record: its files with what \<^verbatim>\<open>stat\<close> and \<^verbatim>\<open>lstat\<close> say of
  them, and the one System V segment of the framework. Log messages are left out.
\<close>

section \<open>State\<close>

record cfg_params =
  OffloadToLocal :: bool
  OffloadToServer :: bool
  InferDevice :: string
  SamplingInterval :: int

record xpu_status =
  CPUBusy :: bool
  GPUBusy :: bool

definition BUF_SIZE :: nat where
  "BUF_SIZE = 100"

record share_memory =
  idle_occupation :: cfloat
  cfgLocal :: bool
  cfgServer :: bool
  cfgInferDev :: string
  gpuStatus :: cfloat
  pidOfDaemon :: int

text \<open>A fresh segment is filled with zeros.\<close>

definition zero_memory :: share_memory where
  "zero_memory = \<lparr>idle_occupation = Fin 0, cfgLocal = False, cfgServer = False, cfgInferDev = replicate BUF_SIZE (CHR 0x00),
     gpuStatus = Fin 0, pidOfDaemon = 0\<rparr>"

text \<open>The mode, inode and device of a file, for the file itself and for what a link points to.\<close>

type_synonym file_id = "nat \<times> nat \<times> nat"

record file_info =
  fi_content :: string
  fi_readable :: bool
  fi_mtime :: int
  fi_stat :: file_id
  fi_lstat :: file_id

record os_state =
  os_files :: "string \<Rightarrow> file_info option"
  os_key_ok :: bool
  os_shmid :: nat
  os_shm :: "share_memory option"
  os_attach_ok :: bool

record policy =
  mCfgParams :: cfg_params
  mCfgFile :: string
  mModifyTime :: int

section \<open>Shared memory\<close>

text \<open>\<^verbatim>\<open>CommShm\<close>: \<open>create\<close> stands for the flags \<^verbatim>\<open>IPC_CREAT|IPC_EXCL\<close>.\<close>

definition CommShm :: "bool \<Rightarrow> os_state \<Rightarrow> int \<times> os_state" where
  "CommShm create os =
     (if \<not> os_key_ok os then (- 1, os)
      else
        (case os_shm os of
           Some _ \<Rightarrow> if create then (- 2, os) else (int (os_shmid os), os)
         | None \<Rightarrow> if create then (int (os_shmid os), os\<lparr>os_shm := Some zero_memory\<rparr>) else (- 2, os)))"

definition GetShmid :: "os_state \<Rightarrow> int \<times> os_state" where
  "GetShmid os = CommShm False os"

definition CreateShm :: "os_state \<Rightarrow> int \<times> os_state" where
  "CreateShm os = (let (shmid, os1) = GetShmid os in if shmid < 0 then CommShm True os1 else (shmid, os1))"

definition DestroyShm :: "int \<Rightarrow> os_state \<Rightarrow> int \<times> os_state" where
  "DestroyShm shmid os =
     (if os_shm os \<noteq> None \<and> shmid = int (os_shmid os) then (0, os\<lparr>os_shm := None\<rparr>) else (- 1, os))"

text \<open>
  \<^verbatim>\<open>shmat\<close>: the result is not checked by the code, so a failed attachment is dereferenced. An
  operation on the attached segment is a function of its contents.
\<close>

definition with_shm :: "os_state \<Rightarrow> (share_memory \<Rightarrow> (share_memory \<times> 'a) result) \<Rightarrow> (os_state \<times> 'a) result" where
  "with_shm os f =
     (if os_attach_ok os
      then (case os_shm os of
              None \<Rightarrow> Inl Undefined
            | Some buf \<Rightarrow> rbind (f buf) (\<lambda>(buf', x). Inr (os\<lparr>os_shm := Some buf'\<rparr>, x)))
      else Inl Undefined)"

text \<open>A string read from a character array: up to its first zero, which must be there.\<close>

definition c_string :: "string \<Rightarrow> string result" where
  "c_string buf = (if CHR 0x00 \<in> set buf then Inr (takeWhile (\<lambda>c. c \<noteq> CHR 0x00) buf) else Inl Undefined)"

text \<open>\<^verbatim>\<open>memset\<close>, \<^verbatim>\<open>memcpy\<close> of at most 99 bytes, and the terminating zero.\<close>

definition device_buffer :: "string \<Rightarrow> string" where
  "device_buffer s =
     (let copyLength = min (BUF_SIZE - 1) (length s)
      in take copyLength s @ [CHR 0x00] @ replicate (BUF_SIZE - copyLength - 1) (CHR 0x00))"

definition CPU_THRESHOLD :: cfloat where
  "CPU_THRESHOLD = f64_round (5 / 100)"

definition GPU_THRESHOLD :: cfloat where
  "GPU_THRESHOLD = Fin 95"

definition ReadShareMemory :: "os_state \<Rightarrow> cfg_params \<Rightarrow> xpu_status \<Rightarrow> (os_state \<times> int \<times> cfg_params \<times> xpu_status) result" where
  "ReadShareMemory os cfgParam xpuStatus =
     (case GetShmid os of (shmid, os1) \<Rightarrow>
        if shmid < 0 then Inr (os1, - 1, cfgParam, xpuStatus)
        else with_shm os1 (\<lambda>buf.
               rbind (c_string (cfgInferDev buf)) (\<lambda>dev.
                 Inr (buf, 0,
                   cfgParam\<lparr>OffloadToLocal := cfgLocal buf, OffloadToServer := cfgServer buf, InferDevice := dev,
                     SamplingInterval := 500\<rparr>,
                   (let x1 = (if cf_less (idle_occupation buf) CPU_THRESHOLD then xpuStatus\<lparr>CPUBusy := True\<rparr> else xpuStatus)
                    in if cf_less GPU_THRESHOLD (gpuStatus buf) then x1\<lparr>GPUBusy := True\<rparr> else x1)))))"

definition SaveCfgParams :: "cfg_params \<Rightarrow> share_memory option \<Rightarrow> int \<times> share_memory option" where
  "SaveCfgParams cfgParam buf =
     (case buf of
        None \<Rightarrow> (- 1, None)
      | Some b \<Rightarrow>
          (0, Some (b\<lparr>cfgLocal := OffloadToLocal cfgParam, cfgServer := OffloadToServer cfgParam,
                     cfgInferDev := device_buffer (InferDevice cfgParam)\<rparr>)))"

definition UserSetCfgParams :: "bool \<Rightarrow> string \<Rightarrow> os_state \<Rightarrow> (os_state \<times> int) result" where
  "UserSetCfgParams offload inferDevice os =
     (case GetShmid os of (shmid, os1) \<Rightarrow>
        if shmid < 0 then Inr (os1, - 1)
        else with_shm os1 (\<lambda>buf.
               (let b1 = (if offload then buf\<lparr>cfgLocal := True, cfgServer := False\<rparr>
                          else buf\<lparr>cfgLocal := False, cfgServer := True\<rparr>)
                in rbind (c_string (cfgInferDev b1)) (\<lambda>oldInferDevice.
                     Inr ((if oldInferDevice \<noteq> inferDevice then b1\<lparr>cfgInferDev := device_buffer inferDevice\<rparr> else b1), 0)))))"

definition GetInferDevice :: "os_state \<Rightarrow> string \<Rightarrow> (os_state \<times> int \<times> string) result" where
  "GetInferDevice os inferDevice =
     (case GetShmid os of (shmid, os1) \<Rightarrow>
        if shmid < 0 then Inr (os1, - 1, inferDevice)
        else with_shm os1 (\<lambda>buf. rbind (c_string (cfgInferDev buf)) (\<lambda>dev. Inr (buf, 0, dev))))"

text \<open>\<^verbatim>\<open>WakeupDaemon\<close>: the process that is sent \<^verbatim>\<open>SIGUSR1\<close>, if any.\<close>

definition WakeupDaemon :: "os_state \<Rightarrow> (os_state \<times> int \<times> int option) result" where
  "WakeupDaemon os =
     (case GetShmid os of (shmid, os1) \<Rightarrow>
        if shmid < 0 then Inr (os1, - 1, None)
        else with_shm os1 (\<lambda>buf. Inr (buf, 0, Some (pidOfDaemon buf))))"

section \<open>The configuration file\<close>

definition CheckSymbolic :: "os_state \<Rightarrow> string \<Rightarrow> int" where
  "CheckSymbolic os filename =
     (case os_files os filename of
        None \<Rightarrow> - 1
      | Some fi \<Rightarrow> if fi_lstat fi = fi_stat fi then 0 else - 1)"

text \<open>A setting: \<^verbatim>\<open>std::stoi\<close> may throw, other names are ignored.\<close>

definition apply_param :: "string \<Rightarrow> string \<Rightarrow> cfg_params \<Rightarrow> cfg_params result" where
  "apply_param param_name param_value p =
     (if param_name = ''-Offload-to-local''
      then Inr (if param_value = ''LOCAL_ONLY'' then p\<lparr>OffloadToLocal := True, OffloadToServer := False\<rparr>
                else if param_value = ''LOCAL_FIRST'' then p\<lparr>OffloadToLocal := True, OffloadToServer := True\<rparr>
                else if param_value = ''SERVER_ONLY'' then p\<lparr>OffloadToLocal := False, OffloadToServer := True\<rparr>
                else p)
      else if param_name = ''-Device'' then Inr (p\<lparr>InferDevice := param_value\<rparr>)
      else if param_name = ''-Local-sampling'' then rbind (stoi param_value) (\<lambda>n. Inr (p\<lparr>SamplingInterval := n\<rparr>))
      else Inr p)"

text \<open>
  The loop over the lines: the return value and \<^verbatim>\<open>mCfgParams\<close>, which keeps the settings of the
  lines before a faulty one. The fields are cut from the line before it was trimmed.
\<close>

fun parse_lines :: "string list \<Rightarrow> cfg_params \<Rightarrow> int \<times> cfg_params" where
  "parse_lines [] p = (0, p)"
| "parse_lines (raw # ls) p =
     (let line = rtrim raw
      in if line = [] \<or> is_comment line then parse_lines ls p
         else if \<not> is_ascii line then (- 1, p)
         else if CHR '' '' \<notin> set line then (- 1, p)
         else
           (let (param_name, rest) = get_field (CHR '' '') raw;
                param_value = rtrim (fst (get_field (CHR '' '') rest))
            in if param_name = [] then (- 1, p)
               else (case apply_param param_name param_value p of Inl _ \<Rightarrow> (- 1, p) | Inr p' \<Rightarrow> parse_lines ls p')))"

definition ParseConfiguration ::
  "os_state \<Rightarrow> string \<Rightarrow> policy \<Rightarrow> cfg_params \<Rightarrow> int \<times> policy \<times> cfg_params" where
  "ParseConfiguration os filename pol Params =
     (case os_files os filename of
        None \<Rightarrow> (- 1, pol, Params)
      | Some fi \<Rightarrow>
          if CheckSymbolic os filename = - 1 then (- 1, pol, Params)
          else if \<not> fi_readable fi then (- 1, pol, Params)
          else
            (let (ret, p) = parse_lines (lines_of (fi_content fi)) (mCfgParams pol); pol' = pol\<lparr>mCfgParams := p\<rparr>
             in if ret = 0 then (0, pol', p) else (ret, pol', Params)))"

definition default_params :: cfg_params where
  "default_params = \<lparr>OffloadToLocal = True, OffloadToServer = False, InferDevice = ''CPU'', SamplingInterval = 500\<rparr>"

text \<open>The constructor: \<^verbatim>\<open>Params\<close> is \<^verbatim>\<open>mCfgParams\<close> itself here, so nothing is copied.\<close>

definition make_policy :: "os_state \<Rightarrow> string \<Rightarrow> policy" where
  "make_policy os cfgFile =
     (let mtime = (case os_files os cfgFile of None \<Rightarrow> 0 | Some fi \<Rightarrow> fi_mtime fi);
          pol = \<lparr>mCfgParams = default_params, mCfgFile = cfgFile, mModifyTime = mtime\<rparr>
      in fst (snd (ParseConfiguration os cfgFile pol default_params)))"

definition GetCfgParameters :: "policy \<Rightarrow> cfg_params" where
  "GetCfgParameters pol = mCfgParams pol"

definition IsCfgFileChanged :: "os_state \<Rightarrow> string \<Rightarrow> policy \<Rightarrow> bool \<times> policy" where
  "IsCfgFileChanged os cfgFile pol =
     (case os_files os cfgFile of
        None \<Rightarrow> (True, pol)
      | Some fi \<Rightarrow> if fi_mtime fi \<noteq> mModifyTime pol then (True, pol\<lparr>mModifyTime := fi_mtime fi\<rparr>) else (False, pol))"

definition IsAvailableDevice :: "string \<Rightarrow> bool" where
  "IsAvailableDevice device \<longleftrightarrow> device \<in> set
     [''CPU'', ''GPU'', ''GNA_AUTO'', ''GNA_HW'', ''GNA_SW_EXACT'', ''GNA_SW'', ''GNA_SW_FP32'', ''HETERO:GNA,CPU'',
      ''HETERO:GNA_HW,CPU'', ''HETERO:GNA_SW_EXACT,CPU'', ''HETERO:GNA_SW,CPU'', ''HETERO:GNA_SW_FP32,CPU'',
      ''HETERO:CPU,GPU'', ''HETERO:GPU,CPU'', ''MYRIAD'']"

section \<open>The device name in the segment\<close>

definition buffer_ok :: "share_memory \<Rightarrow> bool" where
  "buffer_ok b \<longleftrightarrow> length (cfgInferDev b) = BUF_SIZE \<and> CHR 0x00 \<in> set (cfgInferDev b)"

definition segment_ok :: "os_state \<Rightarrow> bool" where
  "segment_ok os \<longleftrightarrow> (\<forall>b. os_shm os = Some b \<longrightarrow> buffer_ok b)"

lemma device_buffer_ok [simp]: "length (device_buffer s) = BUF_SIZE" "CHR 0x00 \<in> set (device_buffer s)"
  by (simp_all add: device_buffer_def BUF_SIZE_def Let_def)

lemma zero_memory_ok [simp]: "buffer_ok zero_memory"
  by (simp add: buffer_ok_def zero_memory_def BUF_SIZE_def)

lemma c_string_device: "CHR 0x00 \<notin> set s \<Longrightarrow> c_string (device_buffer s) = Inr (take 99 s)"
proof -
  assume "CHR 0x00 \<notin> set s"
  then have "CHR 0x00 \<notin> set (take 99 s)" by (meson in_set_takeD)
  then have "takeWhile (\<lambda>c. c \<noteq> CHR 0x00) (take 99 s @ CHR 0x00 # rest) = take 99 s" for rest
    by (subst takeWhile_append2) auto
  moreover have "take (min 99 (length s)) s = take 99 s" by (simp add: min_def)
  ultimately show ?thesis by (simp add: c_string_def device_buffer_def BUF_SIZE_def Let_def del: take_append)
qed

lemma GetShmid_cases:
  "GetShmid os = (if os_key_ok os then (if os_shm os = None then - 2 else int (os_shmid os)) else - 1, os)"
  by (simp add: GetShmid_def CommShm_def split: option.split)

section \<open>Parsing\<close>

lemma parse_line_setting:
  assumes "name \<noteq> []" "is_ascii name" "is_ascii val" "CHR '' '' \<notin> set name" "CHR '' '' \<notin> set val"
    and "\<not> is_comment name" "val \<noteq> []" "\<not> isspace (last val)"
  shows "parse_lines ((name @ CHR '' '' # val) # ls) p =
    (case apply_param name val p of Inl _ \<Rightarrow> (- 1, p) | Inr p' \<Rightarrow> parse_lines ls p')"
proof -
  have r: "rtrim (name @ CHR '' '' # val) = name @ CHR '' '' # val" "rtrim val = val"
    using assms(7,8) by (auto intro!: rtrim_solid)
  have c: "\<not> is_comment (name @ CHR '' '' # val)" using assms(1,6) by (cases name) (auto simp: is_comment_def)
  have a: "is_ascii (name @ CHR '' '' # val)" using assms(2,3) by (simp add: is_ascii_def)
  show ?thesis
    using assms(1) r c a by (simp add: get_field_append [OF assms(4)] get_field_last [OF assms(5)])
qed

text \<open>How a configuration is written down.\<close>

datatype offload_mode = Local_only | Local_first | Server_only

fun mode_name :: "offload_mode \<Rightarrow> string" where
  "mode_name Local_only = ''LOCAL_ONLY''"
| "mode_name Local_first = ''LOCAL_FIRST''"
| "mode_name Server_only = ''SERVER_ONLY''"

definition print_config :: "offload_mode \<Rightarrow> string \<Rightarrow> string \<Rightarrow> string" where
  "print_config mode device sampling =
     concat (map (\<lambda>l. l @ [CHR 0x0A])
       [''-Offload-to-local '' @ mode_name mode, ''-Device '' @ device, ''-Local-sampling '' @ sampling])"

definition word_value :: "string \<Rightarrow> bool" where
  "word_value s \<longleftrightarrow> s \<noteq> [] \<and> is_ascii s \<and> list_all (\<lambda>c. \<not> isspace c) s"

lemma word_valueD:
  assumes "word_value s"
  shows "s \<noteq> []" "is_ascii s" "CHR '' '' \<notin> set s" "CHR 0x0A \<notin> set s" "\<not> isspace (last s)"
proof -
  have all: "\<forall>c \<in> set s. \<not> isspace c" and ne: "s \<noteq> []" "is_ascii s"
    using assms by (auto simp: word_value_def list_all_iff)
  have "isspace (CHR '' '')" "isspace (CHR 0x0A)" by code_simp+
  with all ne show "s \<noteq> []" "is_ascii s" "CHR '' '' \<notin> set s" "CHR 0x0A \<notin> set s" "\<not> isspace (last s)" by auto
qed

lemma print_config_parse:
  assumes "word_value device" "word_value sampling"
  shows "parse_lines (lines_of (print_config mode device sampling)) p =
    (case stoi sampling of
       Inl _ \<Rightarrow> (- 1, p\<lparr>OffloadToLocal := mode \<noteq> Server_only, OffloadToServer := mode \<noteq> Local_only, InferDevice := device\<rparr>)
     | Inr n \<Rightarrow> (0, p\<lparr>OffloadToLocal := mode \<noteq> Server_only, OffloadToServer := mode \<noteq> Local_only, InferDevice := device,
         SamplingInterval := n\<rparr>))"
proof -
  note d = word_valueD [OF assms(1)] and s = word_valueD [OF assms(2)]
  have "word_value (mode_name Local_only)" "word_value (mode_name Local_first)" "word_value (mode_name Server_only)" by code_simp+
  then have m: "word_value (mode_name mode)" by (cases mode) simp_all
  note mv = word_valueD [OF m]
  let ?ls = "[''-Offload-to-local '' @ mode_name mode, ''-Device '' @ device, ''-Local-sampling '' @ sampling]"
  have ls: "lines_of (print_config mode device sampling) = ?ls"
    unfolding print_config_def by (rule lines_of_join) (use d s mv in simp)
  have n: "is_ascii ''-Offload-to-local''" "is_ascii ''-Device''" "is_ascii ''-Local-sampling''" by code_simp+
  have c: "\<not> is_comment ''-Offload-to-local''" "\<not> is_comment ''-Device''" "\<not> is_comment ''-Local-sampling''" by code_simp+
  have l1: "parse_lines ((''-Offload-to-local '' @ mode_name mode) # ls) p =
      parse_lines ls (p\<lparr>OffloadToLocal := mode \<noteq> Server_only, OffloadToServer := mode \<noteq> Local_only\<rparr>)" for ls p
    using parse_line_setting [of "''-Offload-to-local''" "mode_name mode" ls p] n(1) c(1) mv by (cases mode) (simp_all add: apply_param_def)
  have l2: "parse_lines ((''-Device '' @ device) # ls) p = parse_lines ls (p\<lparr>InferDevice := device\<rparr>)" for ls p
    using parse_line_setting [of "''-Device''" device ls p] n(2) c(2) d by (simp add: apply_param_def)
  have l3: "parse_lines ((''-Local-sampling '' @ sampling) # []) p =
      (case stoi sampling of Inl _ \<Rightarrow> (- 1, p) | Inr n \<Rightarrow> (0, p\<lparr>SamplingInterval := n\<rparr>))" for p
    using parse_line_setting [of "''-Local-sampling''" sampling "[]" p] n(3) c(3) s
    by (cases "stoi sampling") (simp_all add: apply_param_def)
  show ?thesis unfolding ls l1 l2 l3 by (cases "stoi sampling") simp_all
qed

section \<open>Writing to the segment\<close>

lemma device_shorter:
  assumes "buffer_ok buf" "c_string (cfgInferDev buf) = Inr dev"
  shows "take 99 dev = dev"
proof -
  have b: "CHR 0x00 \<in> set (cfgInferDev buf)" "length (cfgInferDev buf) = BUF_SIZE" using assms(1) by (simp_all add: buffer_ok_def)
  have dev: "dev = takeWhile (\<lambda>c. c \<noteq> CHR 0x00) (cfgInferDev buf)" using assms(2) b(1) by (simp add: c_string_def)
  have "length dev < BUF_SIZE"
  proof (rule ccontr)
    assume "\<not> length dev < BUF_SIZE"
    then have "dev = cfgInferDev buf" using b(2) unfolding dev
      by (metis length_takeWhile_le linorder_not_less nat_less_le takeWhile_eq_take take_all)
    with b(1) show False unfolding dev by (metis (mono_tags, lifting) set_takeWhileD)
  qed
  then show ?thesis by (simp add: BUF_SIZE_def)
qed

lemma UserSetCfgParams_segment:
  assumes "segment_ok os" "os_key_ok os" "os_attach_ok os" "os_shm os = Some buf" "CHR 0x00 \<notin> set device"
  shows "\<exists>os' buf'. UserSetCfgParams offload device os = Inr (os', 0) \<and> os_key_ok os' \<and> os_attach_ok os' \<and>
    os_shm os' = Some buf' \<and> buffer_ok buf' \<and> cfgLocal buf' = offload \<and> cfgServer buf' = (\<not> offload) \<and>
    takeWhile (\<lambda>c. c \<noteq> CHR 0x00) (cfgInferDev buf') = take 99 device"
proof -
  have b: "buffer_ok buf" using assms(1,4) by (auto simp: segment_ok_def)
  define old_dev where "old_dev = takeWhile (\<lambda>c. c \<noteq> CHR 0x00) (cfgInferDev buf)"
  have old: "c_string (cfgInferDev buf) = Inr old_dev" using b by (simp add: c_string_def old_dev_def buffer_ok_def)
  define b2 where "b2 = (if old_dev \<noteq> device then buf\<lparr>cfgLocal := offload, cfgServer := \<not> offload, cfgInferDev := device_buffer device\<rparr>
    else buf\<lparr>cfgLocal := offload, cfgServer := \<not> offload\<rparr>)"
  let ?os = "os\<lparr>os_shm := Some b2\<rparr>"
  have "UserSetCfgParams offload device os = Inr (?os, 0)"
    using assms(2-4) old by (cases offload) (simp_all add: UserSetCfgParams_def GetShmid_cases with_shm_def Let_def b2_def)
  moreover have ok: "buffer_ok b2" using b by (simp add: b2_def buffer_ok_def)
  moreover have "c_string (cfgInferDev b2) = Inr (take 99 device)"
    using old device_shorter [OF b old] c_string_device [OF assms(5)] by (auto simp: b2_def)
  then have "takeWhile (\<lambda>c. c \<noteq> CHR 0x00) (cfgInferDev b2) = take 99 device" using ok by (simp add: c_string_def buffer_ok_def)
  ultimately show ?thesis using assms(2,3) by (intro exI [of _ ?os] exI [of _ b2]) (simp add: b2_def)
qed

lemma available_device_fits: "IsAvailableDevice device \<Longrightarrow> CHR 0x00 \<notin> set device \<and> take 99 device = device"
  by (auto simp: IsAvailableDevice_def)

section \<open>Properties\<close>

text \<open>
  A configuration file that sets the three parameters is read back as written: the offload
  mode, the device and the sampling interval end up in the parameters the policy reports. If
  the interval is not a number in range, the call fails and reports no parameters, but the
  policy has already taken over the first two settings.
\<close>

theorem ParseConfiguration_roundtrip:
  assumes "os_files os path = Some fi" "fi_lstat fi = fi_stat fi" "fi_readable fi"
    and "fi_content fi = print_config mode device sampling" "word_value device" "word_value sampling"
  shows "\<exists>ret pol' params'. ParseConfiguration os path pol params = (ret, pol', params') \<and>
    OffloadToLocal (mCfgParams pol') = (mode \<noteq> Server_only) \<and> OffloadToServer (mCfgParams pol') = (mode \<noteq> Local_only) \<and>
    InferDevice (mCfgParams pol') = device \<and>
    (case stoi sampling of
       Inr n \<Rightarrow> ret = 0 \<and> params' = mCfgParams pol' \<and> SamplingInterval params' = n
     | Inl _ \<Rightarrow> ret = - 1 \<and> params' = params \<and> SamplingInterval (mCfgParams pol') = SamplingInterval (mCfgParams pol))"
  using assms(1-4) print_config_parse [OF assms(5,6), of mode "mCfgParams pol"]
  by (cases "stoi sampling") (simp_all add: ParseConfiguration_def CheckSymbolic_def)

definition sample_os :: os_state where
  "sample_os = \<lparr>os_files = (\<lambda>f. if f = ''cfg'' then Some \<lparr>fi_content = print_config Local_first ''GPU'' ''250'',
     fi_readable = True, fi_mtime = 7, fi_stat = (0, 0, 0), fi_lstat = (0, 0, 0)\<rparr> else None),
     os_key_ok = True, os_shmid = 4, os_shm = Some zero_memory, os_attach_ok = True\<rparr>"

theorem ParseConfiguration_roundtrip_witness:
  "\<exists>pol params. ParseConfiguration sample_os ''cfg'' (make_policy sample_os ''none'') default_params = (0, pol, params) \<and>
     InferDevice params = ''GPU'' \<and> SamplingInterval params = 250"
proof -
  have w: "word_value ''GPU''" "word_value ''250''" "stoi ''250'' = Inr 250" by code_simp+
  from ParseConfiguration_roundtrip [of sample_os "''cfg''" _ Local_first "''GPU''" "''250''" "make_policy sample_os ''none''" default_params,
      OF _ _ _ _ w(1,2)] w(3)
  show ?thesis by (auto simp: sample_os_def)
qed

text \<open>
  What one process writes to the shared segment another one reads: after the parameters were
  saved, or set by a user, \<^verbatim>\<open>ReadShareMemory\<close> and \<^verbatim>\<open>GetInferDevice\<close> report them, the device name
  cut to 99 bytes.
\<close>

theorem shared_parameters_roundtrip:
  assumes "segment_ok os" "os_key_ok os" "os_attach_ok os" "os_shm os = Some buf" "CHR 0x00 \<notin> set device"
  shows "\<exists>os'. UserSetCfgParams offload device os = Inr (os', 0) \<and> segment_ok os' \<and>
    (\<exists>x'. ReadShareMemory os' params x =
       Inr (os', 0, params\<lparr>OffloadToLocal := offload, OffloadToServer := \<not> offload, InferDevice := take 99 device,
         SamplingInterval := 500\<rparr>, x')) \<and>
    GetInferDevice os' old = Inr (os', 0, take 99 device)"
proof -
  obtain os' buf' where set: "UserSetCfgParams offload device os = Inr (os', 0)"
    and os': "os_key_ok os'" "os_attach_ok os'" "os_shm os' = Some buf'" "buffer_ok buf'"
    and buf': "cfgLocal buf' = offload" "cfgServer buf' = (\<not> offload)"
      "takeWhile (\<lambda>c. c \<noteq> CHR 0x00) (cfgInferDev buf') = take 99 device"
    using UserSetCfgParams_segment [OF assms] by blast
  have dev: "c_string (cfgInferDev buf') = Inr (take 99 device)" using os'(4) buf'(3) by (simp add: c_string_def buffer_ok_def)
  have same: "os'\<lparr>os_shm := Some buf'\<rparr> = os'" using os'(3) by simp
  have "segment_ok os'" using os'(3,4) by (simp add: segment_ok_def)
  with set os' buf' dev same show ?thesis
    by (intro exI [of _ os']) (simp add: ReadShareMemory_def GetInferDevice_def GetShmid_cases with_shm_def Let_def)
qed

theorem shared_parameters_roundtrip_witness:
  "\<exists>os'. UserSetCfgParams False ''GPU'' sample_os = Inr (os', 0) \<and> GetInferDevice os' [] = Inr (os', 0, ''GPU'')"
proof -
  have "segment_ok sample_os" "os_shm sample_os = Some zero_memory" by (simp_all add: segment_ok_def sample_os_def)
  with shared_parameters_roundtrip [of sample_os zero_memory "''GPU''" False default_params
      "\<lparr>CPUBusy = False, GPUBusy = False\<rparr>" "[]"]
  show ?thesis by (auto simp: sample_os_def)
qed

end
