(* ===== verification/PolicyDaemon.thy ===== *)
theory PolicyDaemon
  imports Policy
begin

text \<open>
  The policy daemon, \<^verbatim>\<open>daemon_policy.cpp\<close>, with the readers of the \<^verbatim>\<open>/proc\<close> files it uses
  (\<^verbatim>\<open>cpu_state.cpp\<close>): it samples the processor and the graphics load, writes both to the shared
  segment, and sleeps for longer and longer intervals while the services are idle. What the
  operating system delivers, file contents, outputs and exit codes of commands and the clock, are
  arguments. \<^verbatim>\<open>CHECK_CFG_FILE\<close> is not defined, so the configuration is read once.
\<close>

section \<open>Reading \<^verbatim>\<open>/proc\<close>\<close>

text \<open>\<^verbatim>\<open>sscanf\<close> with \<^verbatim>\<open>%16lu\<close>: white space, an optional sign, digits, at most 16 characters.\<close>

definition scan_number :: "string \<Rightarrow> (u64 \<times> string) option" where
  "scan_number s =
     (let t = ltrim s; w = take 16 t;
          neg = (case w of [] \<Rightarrow> False | c # _ \<Rightarrow> c = CHR ''-'');
          signed = (case w of [] \<Rightarrow> False | c # _ \<Rightarrow> c = CHR ''-'' \<or> c = CHR ''+'');
          u = (if signed then drop 1 w else w); ds = takeWhile isdigit u; v = of_int (digits_value ds)
      in if ds = [] then None
         else Some (if neg then - v else v, drop (length ds + (if signed then 1 else 0)) t))"

fun scan_numbers :: "nat \<Rightarrow> string \<Rightarrow> u64 list" where
  "scan_numbers 0 s = []"
| "scan_numbers (Suc n) s = (case scan_number s of None \<Rightarrow> [] | Some (v, rest) \<Rightarrow> v # scan_numbers n rest)"

text \<open>
  \<^verbatim>\<open>read_proc_stat\<close>: the fields that were assigned, in their order; the others keep whatever was in
  the structure. \<open>None\<close>: the file cannot be opened. \<^verbatim>\<open>fgets\<close> takes at most 255 characters of the
  first line.
\<close>

definition fgets_line :: "nat \<Rightarrow> string \<Rightarrow> string" where
  "fgets_line n s =
     (let l = takeWhile (\<lambda>c. c \<noteq> CHR 0x0A) s in take (n - 1) (if length l < length s then l @ [CHR 0x0A] else l))"

definition read_proc_stat :: "string option \<Rightarrow> u64 list option" where
  "read_proc_stat content =
     map_option (\<lambda>s. (let buf = fgets_line 256 s
        in if take 3 buf = ''cpu'' then scan_numbers 10 (drop 3 buf) else [])) content"

text \<open>The position after the \<open>n\<close>-th space.\<close>

fun after_spaces :: "nat \<Rightarrow> string \<Rightarrow> string option" where
  "after_spaces 0 s = Some s"
| "after_spaces (Suc n) s =
     (case dropWhile (\<lambda>c. c \<noteq> CHR '' '') s of [] \<Rightarrow> None | _ # rest \<Rightarrow> after_spaces n rest)"

definition PROC_SELF_STAT_START_POS :: nat where
  "PROC_SELF_STAT_START_POS = 13"

definition PROC_SELF_STAT_END_POS :: nat where
  "PROC_SELF_STAT_END_POS = 17"

definition read_proc_self_stat :: "string option \<Rightarrow> u64 list option" where
  "read_proc_self_stat content =
     (case content of
        None \<Rightarrow> None
      | Some s \<Rightarrow>
          (let buf = fgets_line 256 s
           in if s = [] then None
              else
                (case after_spaces PROC_SELF_STAT_START_POS buf of
                   None \<Rightarrow> None
                 | Some pa \<Rightarrow>
                     (case after_spaces (PROC_SELF_STAT_END_POS - PROC_SELF_STAT_START_POS) pa of
                        None \<Rightarrow> None
                      | Some pb \<Rightarrow> Some (scan_numbers 4 (take (length pa - length pb) pa))))))"

text \<open>\<^verbatim>\<open>BUSY_TIME\<close>, \<^verbatim>\<open>IDLE_TIME\<close>, \<^verbatim>\<open>SELF_TIME\<close>: a field that was not assigned is indeterminate.\<close>

definition BUSY_TIME :: "u64 list \<Rightarrow> u64 result" where
  "BUSY_TIME ps = (if length ps < 8 then Inl Undefined else Inr (ps ! 0 + ps ! 1 + ps ! 2 + ps ! 5 + ps ! 6 + ps ! 7))"

definition IDLE_TIME :: "u64 list \<Rightarrow> u64 result" where
  "IDLE_TIME ps = (if length ps < 5 then Inl Undefined else Inr (ps ! 3 + ps ! 4))"

definition SELF_TIME :: "u64 list \<Rightarrow> u64 result" where
  "SELF_TIME pss = (if length pss < 4 then Inl Undefined else Inr (sum_list (take 4 pss)))"

section \<open>Processor load\<close>

text \<open>The ring of samples. A map from process to time is an association list, one entry a process.\<close>

record time_node =
  cpu_busy_time :: u64
  cpu_idle_time :: u64
  pss_time :: "(int \<times> u64) list"

definition NODE_NUM :: nat where
  "NODE_NUM = 31"

record node_list =
  node_array :: "time_node list"
  cur :: nat
  pre :: nat

fun get_process_occupation :: "(int \<Rightarrow> string option) \<Rightarrow> int list \<Rightarrow> (int \<times> u64) list \<Rightarrow> (int \<times> u64) list result" where
  "get_process_occupation proc [] acc = Inr acc"
| "get_process_occupation proc (pid # pids) acc =
     rbind (case read_proc_self_stat (proc pid) of None \<Rightarrow> Inr 0 | Some pss \<Rightarrow> SELF_TIME pss) (\<lambda>t.
       get_process_occupation proc pids (if map_of acc pid = None then acc @ [(pid, t)] else acc))"

text \<open>\<^verbatim>\<open>std::round(x * 100) / 100\<close> in single precision, halves away from zero.\<close>

definition round_hundredths :: "cfloat \<Rightarrow> cfloat" where
  "round_hundredths x =
     (case x of
        Fin a \<Rightarrow> (case f32_round (a * 100) of
                     Fin b \<Rightarrow> f32_div (Fin (sgn b * of_int \<lfloor>\<bar>b\<bar> + 1 / 2\<rfloor>)) (Fin 100)
                   | y \<Rightarrow> y)
      | _ \<Rightarrow> x)"

definition f32_of_u64 :: "u64 \<Rightarrow> cfloat" where
  "f32_of_u64 w = f32_round (of_nat (unat w))"

definition total_pss :: "(int \<times> u64) list \<Rightarrow> (int \<times> u64) list \<Rightarrow> u64" where
  "total_pss a b =
     foldl (\<lambda>t (pid, s). (case map_of a pid of Some s0 \<Rightarrow> if s > 0 then t + (s - s0) else t + s | None \<Rightarrow> t + s)) 0 b"

definition get_cpu_occupation :: "node_list \<Rightarrow> nat \<Rightarrow> nat \<Rightarrow> (cfloat \<times> u64) result" where
  "get_cpu_occupation nl indexA indexB =
     rbind (vec_at (node_array nl) indexA) (\<lambda>a.
     rbind (vec_at (node_array nl) indexB) (\<lambda>b.
       (let busy = cpu_busy_time b - cpu_busy_time a; idle = cpu_idle_time b - cpu_idle_time a;
            pss = total_pss (pss_time a) (pss_time b); running = idle + busy;
            percentage = (if indexA \<noteq> indexB \<and> running \<noteq> 0
              then f32_div (f32_of_u64 (idle + pss)) (f32_of_u64 running) else Fin (- 1))
        in Inr (round_hundredths percentage, pss))))"

text \<open>The new sample, the new occupation (if it is known) and the processor time of the services.\<close>

definition process_cpu_occupancy ::
  "string option \<Rightarrow> (int \<Rightarrow> string option) \<Rightarrow> int list \<Rightarrow> cfloat \<Rightarrow> node_list \<Rightarrow> (int \<times> cfloat \<times> u64 \<times> node_list) result" where
  "process_cpu_occupancy stat proc pids occupy nl =
     (case read_proc_stat stat of
        None \<Rightarrow> Inr (- 1, occupy, 0, nl)
      | Some ps \<Rightarrow>
          rbind (BUSY_TIME ps) (\<lambda>busy.
          rbind (IDLE_TIME ps) (\<lambda>idle.
          rbind (get_process_occupation proc pids []) (\<lambda>pss.
            (let i = cur nl;
                 nl1 = nl\<lparr>node_array := (node_array nl)[i := \<lparr>cpu_busy_time = busy, cpu_idle_time = idle, pss_time = pss\<rparr>]\<rparr>
             in if i < length (node_array nl)
                then rbind (get_cpu_occupation nl1 (pre nl) i) (\<lambda>(occupation, t).
                       Inr (0, (if cf_eq occupation (Fin (- 1)) then occupy else occupation), t,
                            nl1\<lparr>pre := i, cur := (i + 1) mod NODE_NUM\<rparr>))
                else Inl Undefined)))))"

section \<open>Processes\<close>

text \<open>
  \<^verbatim>\<open>fgets\<close> until it fails: pieces of at most \<open>n - 1\<close> characters that end after a line end. A line
  that does not fit continues in the next piece.
\<close>

function fgets_all :: "nat \<Rightarrow> string \<Rightarrow> string list" where
  "fgets_all n s =
     (let piece = fgets_line n s in if s = [] \<or> piece = [] then [] else piece # fgets_all n (drop (length piece) s))"
  by pat_completeness auto
termination
  by (relation "measure (length o snd)") auto

declare fgets_all.simps [simp del]

text \<open>\<^verbatim>\<open>getFcgiIds\<close>: the second column of what \<^verbatim>\<open>ps\<close> prints; \<^verbatim>\<open>std::stoi\<close> may throw.\<close>

fun fcgi_ids :: "string list \<Rightarrow> int list \<Rightarrow> int list result" where
  "fcgi_ids [] ids = Inr ids"
| "fcgi_ids (buff # ls) ids =
     (let line = ltrim (takeWhile (\<lambda>c. c \<noteq> CHR 0x00) buff);
          line1 = ltrim (dropWhile (\<lambda>c. c \<noteq> CHR '' '') line);
          thread_id = takeWhile (\<lambda>c. c \<noteq> CHR '' '') line1
      in if thread_id \<noteq> [] then rbind (stoi thread_id) (\<lambda>id. fcgi_ids ls (ids @ [id])) else fcgi_ids ls ids)"

definition getFcgiIds :: "string option \<Rightarrow> int list \<Rightarrow> (bool \<times> int list) result" where
  "getFcgiIds ps ids =
     (case ps of
        None \<Rightarrow> Inr (False, ids)
      | Some text \<Rightarrow> rbind (fcgi_ids (fgets_all 300 text) ids) (\<lambda>ids'. Inr (fgets_all 300 text \<noteq> [], ids')))"

text \<open>
  Extraction of an \<^verbatim>\<open>int\<close> from a stream: \<open>None\<close> if the stream fails, because nothing but white space
  is left, because there is no digit or because the number does not fit.
\<close>

definition scan_int :: "string \<Rightarrow> (int \<times> string) option" where
  "scan_int s =
     (let t = ltrim s;
          neg = (case t of [] \<Rightarrow> False | c # _ \<Rightarrow> c = CHR ''-'');
          u = (case t of [] \<Rightarrow> [] | c # cs \<Rightarrow> if c = CHR ''-'' \<or> c = CHR ''+'' then cs else t);
          ds = takeWhile isdigit u; v = (if neg then - digits_value ds else digits_value ds)
      in if ds = [] \<or> v < - (2 ^ 31) \<or> 2 ^ 31 \<le> v then None else Some (v, drop (length ds) u))"

function scan_ints :: "string \<Rightarrow> int list" where
  "scan_ints s = (case scan_int s of None \<Rightarrow> [] | Some (v, rest) \<Rightarrow> if length rest < length s then v # scan_ints rest else [])"
  by pat_completeness auto
termination
  by (relation "measure length") auto

declare scan_ints.simps [simp del]

text \<open>The output of \<^verbatim>\<open>pidof\<close>; \<open>None\<close> if it cannot be run.\<close>

definition getProcessPidByName :: "string option \<Rightarrow> int \<times> int list" where
  "getProcessPidByName pidof =
     (case pidof of
        None \<Rightarrow> (- 1, [])
      | Some text \<Rightarrow> (let pids = scan_ints (fgets_line 100 text) in if text = [] \<or> pids = [] then (- 1, []) else (0, pids)))"

text \<open>\<^verbatim>\<open>closeGpuTop\<close>: the exit code of the last \<^verbatim>\<open>kill\<close>, and the processes that were killed.\<close>

definition closeGpuTop :: "string option \<Rightarrow> (int \<Rightarrow> int) \<Rightarrow> int \<times> int list" where
  "closeGpuTop pidof kill_ret =
     (case getProcessPidByName pidof of (ret, pids) \<Rightarrow>
        if ret = 0 then (foldl (\<lambda>_ pid. kill_ret pid) ret pids, pids) else (ret, []))"

section \<open>Graphics load\<close>

definition MIN_LINE_LEN :: nat where
  "MIN_LINE_LEN = 103"

definition GPU_STATUS_HEADER :: nat where
  "GPU_STATUS_HEADER = MIN_LINE_LEN * 2"

definition next_word :: "string \<Rightarrow> string \<times> string" where
  "next_word s = (let t = ltrim s in (takeWhile (\<lambda>c. \<not> isspace c) t, dropWhile (\<lambda>c. \<not> isspace c) t))"

text \<open>
  Extraction of a \<^verbatim>\<open>float\<close> that follows an extraction that did not fail: nothing is stored at the
  end of the stream, 0 if the text is no number, the largest value if it is too large.
\<close>

definition F32_MAX :: rat where
  "F32_MAX = (2 ^ 24 - 1) * 2 ^ 104"

definition scan_float :: "string \<Rightarrow> cfloat option" where
  "scan_float s =
     (let t = ltrim s;
          neg = (case t of [] \<Rightarrow> False | c # _ \<Rightarrow> c = CHR ''-'');
          u = (case t of [] \<Rightarrow> [] | c # cs \<Rightarrow> if c = CHR ''-'' \<or> c = CHR ''+'' then cs else t);
          whole = takeWhile isdigit u; u1 = drop (length whole) u;
          point = (case u1 of [] \<Rightarrow> False | c # _ \<Rightarrow> c = CHR ''.'');
          frac = (if point then takeWhile isdigit (drop 1 u1) else []);
          u2 = (if point then drop (1 + length frac) u1 else u1);
          expo = (whole @ frac \<noteq> [] \<and> (case u2 of [] \<Rightarrow> False | c # _ \<Rightarrow> c = CHR ''e'' \<or> c = CHR ''E''));
          u3 = (if expo then drop 1 u2 else []);
          eneg = (case u3 of [] \<Rightarrow> False | c # _ \<Rightarrow> c = CHR ''-'');
          ed = takeWhile isdigit (case u3 of [] \<Rightarrow> [] | c # cs \<Rightarrow> if c = CHR ''-'' \<or> c = CHR ''+'' then cs else u3);
          m = of_int (digits_value (whole @ frac)) / 10 ^ length frac :: rat;
          k = 10 ^ nat (digits_value ed) :: rat; v = (if eneg then m / k else m * k)
      in if t = [] then None
         else if whole @ frac = [] \<or> (expo \<and> ed = []) then Some (Fin 0)
         else (case f32_round (if neg then - v else v) of
                 Fin r \<Rightarrow> Some (Fin r)
               | Inf negative \<Rightarrow> Some (Fin (if negative then - F32_MAX else F32_MAX))
               | NaN \<Rightarrow> Some NaN))"

text \<open>The four extractions after the first word; \<open>None\<close>: the result was not assigned.\<close>

definition scan_status :: "string \<Rightarrow> cfloat option" where
  "scan_status s =
     (case scan_int s of None \<Rightarrow> None | Some (act, s1) \<Rightarrow>
     (case scan_int s1 of None \<Rightarrow> None | Some (irq, s2) \<Rightarrow>
     (case scan_int s2 of None \<Rightarrow> None | Some (irq_percentage, s3) \<Rightarrow> scan_float s3)))"

text \<open>
  The loop that looks for the last line of the status file, from its end: \<^verbatim>\<open>seekg(index, end)\<close>,
  \<^verbatim>\<open>get(c)\<close>. Before the beginning of the file nothing is read and \<^verbatim>\<open>c\<close> is indeterminate, which
  also ends every search that finds no line.
\<close>

function gpu_status_loop :: "string \<Rightarrow> int \<Rightarrow> int \<Rightarrow> cfloat result" where
  "gpu_status_loop file_text len index =
     (let position = int (length file_text) + index
      in if len = 0 then Inl Undefined
         else if position < 0 \<or> int (length file_text) \<le> position then Inl Undefined
         else if file_text ! nat position = CHR 0x0A
         then
           (let line = takeWhile (\<lambda>c. c \<noteq> CHR 0x0A) (drop (nat position + 1) file_text)
            in if length line \<ge> MIN_LINE_LEN
               then
                 (case next_word line of (first_item, rest) \<Rightarrow>
                    if first_item \<noteq> ''Freq'' \<and> first_item \<noteq> ''req''
                    then (case scan_status rest of None \<Rightarrow> Inl Undefined | Some x \<Rightarrow> Inr x)
                    else gpu_status_loop file_text (len - (int MIN_LINE_LEN - 1) - 1) (index - (int MIN_LINE_LEN - 1) - 1))
               else gpu_status_loop file_text (len - 1) (index - 1))
         else gpu_status_loop file_text (len - 1) (index - 1))"
  by pat_completeness auto
termination
  by (relation "measure (\<lambda>(file_text, len, index). nat (int (length file_text) + index + 1))")
    (auto simp: MIN_LINE_LEN_def)

declare gpu_status_loop.simps [simp del]

definition get_gpu_occupation :: "os_state \<Rightarrow> string \<Rightarrow> cfloat result" where
  "get_gpu_occupation os gpu_status_file =
     (case os_files os gpu_status_file of
        None \<Rightarrow> Inr (Fin (- 1))
      | Some fi \<Rightarrow>
          if CheckSymbolic os gpu_status_file = - 1 then Inr (Fin (- 1))
          else if \<not> fi_readable fi then Inr (Fin (- 1))
          else if length (fi_content fi) < GPU_STATUS_HEADER + MIN_LINE_LEN then Inr (Fin (- 1))
          else gpu_status_loop (fi_content fi) (int (length (fi_content fi))) (- 2))"

definition RESTART_GPU_TIME :: int where
  "RESTART_GPU_TIME = 600"

text \<open>Whether \<^verbatim>\<open>intel_gpu_top\<close> runs and since when; times are in seconds of the steady clock.\<close>

record gpu_monitor =
  gpuTopRunning :: bool
  check_gpu_start_time :: int

definition process_gpu_occupancy ::
  "os_state \<Rightarrow> string option \<Rightarrow> (int \<Rightarrow> int) \<Rightarrow> int \<Rightarrow> string \<Rightarrow> int \<Rightarrow> cfloat \<Rightarrow> gpu_monitor \<Rightarrow> (cfloat \<times> gpu_monitor) result" where
  "process_gpu_occupancy os pidof kill_ret start_ret device now gpu_occupancy g =
     (let close_ret = fst (closeGpuTop pidof kill_ret)
      in if device = ''GPU''
         then
           rbind (if gpuTopRunning g
                  then rbind (get_gpu_occupation os ''/tmp/gpu_status.txt'') (\<lambda>o1. Inr (o1,
                         if now - check_gpu_start_time g > RESTART_GPU_TIME \<and> close_ret \<noteq> - 1
                         then g\<lparr>gpuTopRunning := False\<rparr> else g))
                  else Inr (gpu_occupancy, g)) (\<lambda>(o1, g1).
             Inr (o1, if \<not> gpuTopRunning g1 \<and> start_ret \<noteq> - 1
                      then g1\<lparr>gpuTopRunning := True, check_gpu_start_time := now\<rparr> else g1))
         else if gpuTopRunning g
         then Inr (gpu_occupancy, if close_ret \<noteq> - 1 then g\<lparr>gpuTopRunning := False\<rparr> else g)
         else Inr (gpu_occupancy, g))"

section \<open>Sleeping\<close>

text \<open>Shifting a \<^verbatim>\<open>long\<close> left has no meaning for a negative value or when the result does not fit.\<close>

definition shl_long :: "int \<Rightarrow> nat \<Rightarrow> int result" where
  "shl_long x n = (if 0 \<le> x \<and> x * 2 ^ n < 2 ^ 63 then Inr (x * 2 ^ n) else Inl Undefined)"

text \<open>\<^verbatim>\<open>timeout\<close>, \<^verbatim>\<open>gDefaultTimeout\<close>, \<^verbatim>\<open>iter\<close>; \<^verbatim>\<open>gProm\<close> is null, or points to a promise that is satisfied or not.\<close>

record sleep_state =
  gTimeout :: int
  gDefaultTimeout :: int
  iteration :: int
  gProm :: "bool option"

definition stateTransfer :: "u64 \<Rightarrow> int \<Rightarrow> sleep_state \<Rightarrow> sleep_state result" where
  "stateTransfer pss iter_limit s =
     (let limit = (if gTimeout s > 60000 then gTimeout s div 10000 + 2 else 6)
      in if int (unat pss) > limit then Inr (s\<lparr>gTimeout := gDefaultTimeout s, iteration := 0\<rparr>)
         else if iteration s = iter_limit
         then rbind (if gTimeout s = gDefaultTimeout s then shl_long (gTimeout s) 1 else shl_long (gTimeout s) 2) (\<lambda>next_timeout.
              rbind (shl_long (gDefaultTimeout s) 10) (\<lambda>l1.
              rbind (shl_long (gDefaultTimeout s) 8) (\<lambda>l2.
                Inr (s\<lparr>gTimeout := (if next_timeout \<ge> l1 + l2 then l1 + l2 else next_timeout), iteration := 0\<rparr>))))
         else Inr (s\<lparr>iteration := iteration s + 1\<rparr>))"

text \<open>\<^verbatim>\<open>gotoSleep\<close> before and after the wait, which ends early if the promise is satisfied.\<close>

definition gotoSleep_enter :: "u64 \<Rightarrow> sleep_state \<Rightarrow> sleep_state result" where
  "gotoSleep_enter pss s =
     (if gTimeout s = gDefaultTimeout s then stateTransfer pss 120 s
      else if gTimeout s = 2 * gDefaultTimeout s then stateTransfer pss 29 s
      else stateTransfer pss 0 s)"

definition gotoSleep_leave :: "sleep_state \<Rightarrow> sleep_state" where
  "gotoSleep_leave s = (if gProm s = Some True then s\<lparr>gTimeout := gDefaultTimeout s, iteration := 0\<rparr> else s)"

text \<open>The handler of \<^verbatim>\<open>SIGUSR1\<close>: satisfying a promise twice throws.\<close>

definition wakeup :: "sleep_state \<Rightarrow> sleep_state result" where
  "wakeup s =
     (if gTimeout s \<noteq> gDefaultTimeout s
      then (case gProm s of
              None \<Rightarrow> Inr s
            | Some satisfied \<Rightarrow> if satisfied then Inl Future_error else Inr (s\<lparr>gProm := Some True\<rparr>))
      else Inr s)"

section \<open>The daemon\<close>

record daemon =
  dm_buf :: share_memory
  dm_nodes :: node_list
  dm_gpu :: gpu_monitor
  dm_sleep :: sleep_state
  dm_ids :: "int list"
  dm_start_time :: int

text \<open>What one round of the loop receives from outside.\<close>

record world =
  w_now :: int
  w_ps :: "string option"
  w_stat :: "string option"
  w_proc :: "int \<Rightarrow> string option"
  w_os :: os_state
  w_pidof :: "string option"
  w_kill :: "int \<Rightarrow> int"
  w_start_ret :: int

definition CHECK_TIME :: int where
  "CHECK_TIME = 5"

text \<open>The start of \<^verbatim>\<open>main\<close>, up to the loop; no segment means that the daemon ends.\<close>

definition daemon_start :: "os_state \<Rightarrow> int \<Rightarrow> string option \<Rightarrow> int \<Rightarrow> (os_state \<times> daemon option) result" where
  "daemon_start os pid ps now =
     (let pol = make_policy os ''/etc/policy_setting.cfg''; cfgParam = GetCfgParameters pol
      in (case CreateShm os of (shmid, os1) \<Rightarrow>
            if shmid < 0 then Inr (os1, None)
            else with_shm os1 (\<lambda>buf.
                   (let b1 = buf\<lparr>idle_occupation := Fin 1, gpuStatus := Fin (- 1), pidOfDaemon := pid\<rparr>
                    in (case snd (SaveCfgParams cfgParam (Some b1)) of
                          None \<Rightarrow> Inl Undefined
                        | Some b2 \<Rightarrow>
                            rbind (getFcgiIds ps []) (\<lambda>(_, ids).
                              Inr (b2, Some \<lparr>dm_buf = b2,
                                dm_nodes = \<lparr>node_array = replicate NODE_NUM \<lparr>cpu_busy_time = 0, cpu_idle_time = 0, pss_time = []\<rparr>,
                                  cur = 0, pre = 0\<rparr>,
                                dm_gpu = \<lparr>gpuTopRunning = False, check_gpu_start_time = 0\<rparr>,
                                dm_sleep = \<lparr>gTimeout = SamplingInterval cfgParam, gDefaultTimeout = SamplingInterval cfgParam,
                                  iteration = 0, gProm = None\<rparr>,
                                dm_ids = ids, dm_start_time = now\<rparr>)))))))"

text \<open>
  A round of the loop, cut where a signal makes a difference: a fresh promise; a look at the
  processes and the samples, with the processor time of the services; the next interval; the
  end of the wait; and the promise out of scope.
\<close>

definition round_promise :: "daemon \<Rightarrow> daemon" where
  "round_promise d = d\<lparr>dm_sleep := (dm_sleep d)\<lparr>gProm := Some False\<rparr>\<rparr>"

definition round_sample :: "world \<Rightarrow> daemon \<Rightarrow> (u64 \<times> daemon) result" where
  "round_sample w d =
     rbind (if w_now w - dm_start_time d > CHECK_TIME
            then rbind (getFcgiIds (w_ps w) []) (\<lambda>(_, ids). Inr (ids, w_now w))
            else Inr (dm_ids d, dm_start_time d)) (\<lambda>(ids, start_time).
     rbind (process_cpu_occupancy (w_stat w) (w_proc w) ids (idle_occupation (dm_buf d)) (dm_nodes d)) (\<lambda>(_, occ, pss, nodes).
     rbind (c_string (cfgInferDev (dm_buf d))) (\<lambda>device.
     rbind (process_gpu_occupancy (w_os w) (w_pidof w) (w_kill w) (w_start_ret w) device (w_now w) (gpuStatus (dm_buf d)) (dm_gpu d))
       (\<lambda>(gpu, g).
       Inr (pss, d\<lparr>dm_buf := (dm_buf d)\<lparr>idle_occupation := occ, gpuStatus := gpu\<rparr>, dm_nodes := nodes, dm_gpu := g,
              dm_ids := ids, dm_start_time := start_time\<rparr>)))))"

definition round_enter :: "u64 \<Rightarrow> daemon \<Rightarrow> daemon result" where
  "round_enter pss d = rbind (gotoSleep_enter pss (dm_sleep d)) (\<lambda>s. Inr (d\<lparr>dm_sleep := s\<rparr>))"

definition round_leave :: "daemon \<Rightarrow> daemon" where
  "round_leave d = d\<lparr>dm_sleep := gotoSleep_leave (dm_sleep d)\<rparr>"

definition round_clear :: "daemon \<Rightarrow> daemon" where
  "round_clear d = d\<lparr>dm_sleep := (dm_sleep d)\<lparr>gProm := None\<rparr>\<rparr>"

text \<open>
  \<^verbatim>\<open>signalHandler\<close>: the segment is removed, \<^verbatim>\<open>intel_gpu_top\<close> is killed if it runs, and the process
  exits with the signal's number.
\<close>

definition signalHandler :: "int \<Rightarrow> string option \<Rightarrow> (int \<Rightarrow> int) \<Rightarrow> gpu_monitor \<Rightarrow> os_state \<Rightarrow> os_state \<times> int list \<times> int" where
  "signalHandler signum pidof kill_ret g os =
     (case GetShmid os of (shmid, os1) \<Rightarrow>
        (if shmid \<ge> 0 then snd (DestroyShm shmid os1) else os1,
         if gpuTopRunning g then snd (closeGpuTop pidof kill_ret) else [], signum))"

section \<open>The daemon as a state machine\<close>

text \<open>
  Where the loop stands, and its steps. \<^verbatim>\<open>SIGUSR1\<close> may arrive anywhere, and other processes may
  change the configuration in the segment at any time.
\<close>

datatype phase = Loop_head | Promised | Sampled u64 | Waiting | Awake

inductive daemon_step :: "phase \<times> daemon \<Rightarrow> phase \<times> daemon \<Rightarrow> bool" where
  promise: "daemon_step (Loop_head, d) (Promised, round_promise d)"
| sample: "round_sample w d = Inr (pss, d') \<Longrightarrow> daemon_step (Promised, d) (Sampled pss, d')"
| enter: "round_enter pss d = Inr d' \<Longrightarrow> daemon_step (Sampled pss, d) (Waiting, d')"
| leave: "daemon_step (Waiting, d) (Awake, round_leave d)"
| clear: "daemon_step (Awake, d) (Loop_head, round_clear d)"
| signal: "wakeup (dm_sleep d) = Inr s \<Longrightarrow> daemon_step (ph, d) (ph, d\<lparr>dm_sleep := s\<rparr>)"
| user: "buffer_ok b \<Longrightarrow> daemon_step (ph, d) (ph, d\<lparr>dm_buf := b\<rparr>)"

inductive reachable :: "daemon \<Rightarrow> phase \<times> daemon \<Rightarrow> bool" for d0 where
  start: "reachable d0 (Loop_head, d0)"
| step: "reachable d0 c \<Longrightarrow> daemon_step c c' \<Longrightarrow> reachable d0 c'"

text \<open>The intervals the daemon uses, and its invariant.\<close>

definition intervals :: "int \<Rightarrow> int list" where
  "intervals t = [t, 2 * t, 8 * t, 32 * t, 128 * t, 512 * t, 1280 * t]"

definition sleep_ok :: "int \<Rightarrow> sleep_state \<Rightarrow> bool" where
  "sleep_ok t s \<longleftrightarrow> gDefaultTimeout s = t \<and> gTimeout s \<in> set (intervals t) \<and> 0 \<le> iteration s \<and>
     iteration s \<le> (if gTimeout s = t then 120 else if gTimeout s = 2 * t then 29 else 0)"

definition nodes_ok :: "node_list \<Rightarrow> bool" where
  "nodes_ok nl \<longleftrightarrow> length (node_array nl) = NODE_NUM \<and> cur nl < NODE_NUM \<and> pre nl < NODE_NUM"

definition daemon_ok :: "int \<Rightarrow> daemon \<Rightarrow> bool" where
  "daemon_ok t d \<longleftrightarrow> sleep_ok t (dm_sleep d) \<and> nodes_ok (dm_nodes d) \<and> buffer_ok (dm_buf d)"

definition interval_in_range :: "int \<Rightarrow> bool" where
  "interval_in_range t \<longleftrightarrow> 0 < t \<and> t < 2 ^ 31"

lemma shl_long_ok: "0 \<le> x \<Longrightarrow> x * 2 ^ n < 2 ^ 63 \<Longrightarrow> shl_long x n = Inr (x * 2 ^ n)"
  by (simp add: shl_long_def)

text \<open>\<^verbatim>\<open>stateTransfer\<close> in a state that satisfies the invariant: no shift overflows.\<close>

fun next_interval :: "int \<Rightarrow> int \<Rightarrow> int" where
  "next_interval t x = (if x = t then 2 * t else min (4 * x) (1280 * t))"

lemma stateTransfer_ok:
  assumes "interval_in_range t" "gDefaultTimeout s = t" "gTimeout s \<in> set (intervals t)"
  shows "stateTransfer pss k s =
    Inr (if int (unat pss) > (if gTimeout s > 60000 then gTimeout s div 10000 + 2 else 6) then s\<lparr>gTimeout := t, iteration := 0\<rparr>
         else if iteration s = k then s\<lparr>gTimeout := next_interval t (gTimeout s), iteration := 0\<rparr>
         else s\<lparr>iteration := iteration s + 1\<rparr>)"
proof -
  have t: "0 < t" "t < 2 ^ 31" using assms(1) by (simp_all add: interval_in_range_def)
  have x: "t \<le> gTimeout s" "gTimeout s \<le> 1280 * t" using assms(3) t(1) by (auto simp: intervals_def)
  have s1: "shl_long (gTimeout s) 1 = Inr (2 * gTimeout s)" and s2: "shl_long (gTimeout s) 2 = Inr (4 * gTimeout s)"
    and l1: "shl_long t 10 = Inr (1024 * t)" and l2: "shl_long t 8 = Inr (256 * t)"
    using t x by (simp_all add: shl_long_def)
  show ?thesis
    using s1 s2 l1 l2 t x by (auto simp: stateTransfer_def assms(2) Let_def min_def)
qed

lemma next_interval_in: "0 < t \<Longrightarrow> x \<in> set (intervals t) \<Longrightarrow> next_interval t x \<in> set (intervals t)"
  by (auto simp: intervals_def)

definition next_sleep :: "u64 \<Rightarrow> sleep_state \<Rightarrow> sleep_state" where
  "next_sleep pss s =
     (let t = gDefaultTimeout s;
          k = (if gTimeout s = t then 120 else if gTimeout s = 2 * t then 29 else 0)
      in if int (unat pss) > (if gTimeout s > 60000 then gTimeout s div 10000 + 2 else 6) then s\<lparr>gTimeout := t, iteration := 0\<rparr>
         else if iteration s = k then s\<lparr>gTimeout := next_interval t (gTimeout s), iteration := 0\<rparr>
         else s\<lparr>iteration := iteration s + 1\<rparr>)"

lemma gotoSleep_enter_ok:
  assumes "interval_in_range t" "sleep_ok t s"
  shows "gotoSleep_enter pss s = Inr (next_sleep pss s)"
  using assms stateTransfer_ok [OF assms(1), of s]
  by (simp add: gotoSleep_enter_def next_sleep_def sleep_ok_def Let_def)

lemma sleep_ok_restart: "x \<in> set (intervals t) \<Longrightarrow> gDefaultTimeout s = t \<Longrightarrow> sleep_ok t (s\<lparr>gTimeout := x, iteration := 0\<rparr>)"
  by (simp add: sleep_ok_def)

lemma interval_default [simp]: "t \<in> set (intervals t)"
  by (simp add: intervals_def)

lemma sleep_ok_count:
  "sleep_ok t s \<Longrightarrow> iteration s \<noteq> (if gTimeout s = t then 120 else if gTimeout s = 2 * t then 29 else 0) \<Longrightarrow>
     sleep_ok t (s\<lparr>iteration := iteration s + 1\<rparr>)"
  by (simp add: sleep_ok_def split: if_split_asm)

lemma next_sleep_ok:
  assumes "interval_in_range t" "sleep_ok t s"
  shows "sleep_ok t (next_sleep pss s)"
proof -
  have d: "gDefaultTimeout s = t" "gTimeout s \<in> set (intervals t)" using assms(2) by (simp_all add: sleep_ok_def)
  have "next_interval t (gTimeout s) \<in> set (intervals t)"
    using next_interval_in d(2) assms(1) by (simp add: interval_in_range_def)
  with d sleep_ok_count [OF assms(2)] show ?thesis
    by (simp add: next_sleep_def Let_def sleep_ok_restart del: next_interval.simps)
qed

lemma gotoSleep_leave_ok: "sleep_ok t s \<Longrightarrow> sleep_ok t (gotoSleep_leave s)"
  by (auto simp: gotoSleep_leave_def intro!: sleep_ok_restart) (simp_all add: sleep_ok_def)

lemma sleep_ok_prom [simp]: "sleep_ok t (s\<lparr>gProm := p\<rparr>) = sleep_ok t s"
  by (simp add: sleep_ok_def)

lemma wakeup_ok: "wakeup s = Inr s' \<Longrightarrow> sleep_ok t s \<Longrightarrow> sleep_ok t s'"
  by (auto simp: wakeup_def split: if_split_asm option.split_asm)

lemma process_cpu_occupancy_nodes:
  "process_cpu_occupancy stat proc pids occ nl = Inr (ret, occ', pss, nl') \<Longrightarrow> nodes_ok nl \<Longrightarrow> nodes_ok nl'"
  by (auto simp: process_cpu_occupancy_def nodes_ok_def NODE_NUM_def Let_def rbind_eq_Inr split: option.split_asm if_split_asm)

lemma round_sample_ok:
  assumes "round_sample w d = Inr (pss, d')" "daemon_ok t d"
  shows "daemon_ok t d'"
proof -
  from assms(1) obtain ids start ret occ nodes device gpu g where
    c: "process_cpu_occupancy (w_stat w) (w_proc w) ids (idle_occupation (dm_buf d)) (dm_nodes d) = Inr (ret, occ, pss, nodes)"
    and d': "d' = d\<lparr>dm_buf := (dm_buf d)\<lparr>idle_occupation := occ, gpuStatus := gpu\<rparr>, dm_nodes := nodes, dm_gpu := g,
              dm_ids := ids, dm_start_time := start\<rparr>"
    by (auto simp: round_sample_def rbind_eq_Inr simp del: f32_div.simps)
  have "nodes_ok nodes" using process_cpu_occupancy_nodes [OF c] assms(2) by (simp add: daemon_ok_def)
  with assms(2) show ?thesis by (simp add: d' daemon_ok_def buffer_ok_def)
qed

lemma daemon_step_ok:
  assumes "daemon_step c c'" "interval_in_range t" "daemon_ok t (snd c)"
  shows "daemon_ok t (snd c')"
  using assms
proof (induction rule: daemon_step.induct)
  case (enter pss d d')
  then have "d' = d\<lparr>dm_sleep := next_sleep pss (dm_sleep d)\<rparr>"
    using gotoSleep_enter_ok [of t "dm_sleep d" pss] by (simp add: round_enter_def daemon_ok_def)
  with enter next_sleep_ok show ?case by (simp add: daemon_ok_def)
next
  case (sample w d pss d')
  then show ?case using round_sample_ok by simp
next
  case (signal d s ph)
  then show ?case using wakeup_ok by (auto simp: daemon_ok_def)
qed (auto simp: daemon_ok_def round_promise_def round_leave_def round_clear_def gotoSleep_leave_ok)

lemma reachable_ok:
  assumes "reachable d0 c" "interval_in_range t" "daemon_ok t d0"
  shows "daemon_ok t (snd c)"
  using assms by (induction rule: reachable.induct) (auto intro: daemon_step_ok)

lemma daemon_start_ok:
  assumes "daemon_start os pid ps now = Inr (os', Some d)"
  shows "daemon_ok (SamplingInterval (GetCfgParameters (make_policy os ''/etc/policy_setting.cfg''))) d"
  using assms
  by (auto simp: daemon_start_def with_shm_def rbind_eq_Inr SaveCfgParams_def daemon_ok_def sleep_ok_def nodes_ok_def NODE_NUM_def
      buffer_ok_def Let_def split: prod.split_asm if_split_asm option.split_asm)

section \<open>Falling asleep\<close>

text \<open>Rounds that no signal disturbs, given the processor time the services used in each.\<close>

fun undisturbed :: "u64 list \<Rightarrow> daemon \<Rightarrow> daemon result" where
  "undisturbed [] d = Inr d"
| "undisturbed (pss # ps) d = rbind (round_enter pss (round_promise d)) (\<lambda>d1. undisturbed ps (round_clear (round_leave d1)))"

text \<open>The interval and the counter after \<open>n\<close> idle rounds.\<close>

definition idle_schedule :: "int \<Rightarrow> nat \<Rightarrow> int \<times> int" where
  "idle_schedule t n =
     (if n \<le> 120 then (t, int n) else if n \<le> 150 then (2 * t, int n - 121)
      else if n = 151 then (8 * t, 0) else if n = 152 then (32 * t, 0) else if n = 153 then (128 * t, 0)
      else if n = 154 then (512 * t, 0) else (1280 * t, 0))"

definition scheduled :: "int \<Rightarrow> nat \<Rightarrow> sleep_state \<Rightarrow> bool" where
  "scheduled t n s \<longleftrightarrow> gDefaultTimeout s = t \<and> (gTimeout s, iteration s) = idle_schedule t n"

lemma scheduled_ok: "0 < t \<Longrightarrow> scheduled t n s \<Longrightarrow> sleep_ok t s"
  by (auto simp: scheduled_def idle_schedule_def sleep_ok_def intervals_def split: if_split_asm)

lemma next_sleep_quiet:
  assumes "0 < t" "scheduled t n s" "unat pss \<le> 6"
  shows "scheduled t (Suc n) (next_sleep pss s)"
proof -
  have "uint pss = int (unat pss)" by simp
  with assms(3) have u: "uint pss \<le> 6" by linarith
  have q: "\<not> int (unat pss) > (if gTimeout s > 60000 then gTimeout s div 10000 + 2 else 6)"
  proof (cases "gTimeout s > 60000")
    case True
    then have "6 \<le> gTimeout s div 10000" by simp
    with u True show ?thesis by simp
  qed (use u in simp)
  have n: "n \<le> 119 \<or> n = 120 \<or> 121 \<le> n \<and> n \<le> 149 \<or> n = 150 \<or> n = 151 \<or> n = 152 \<or> n = 153 \<or> n = 154 \<or> 155 \<le> n" by arith
  have "next_sleep pss s = (if iteration s = (if gTimeout s = t then 120 else if gTimeout s = 2 * t then 29 else 0)
      then s\<lparr>gTimeout := next_interval t (gTimeout s), iteration := 0\<rparr> else s\<lparr>iteration := iteration s + 1\<rparr>)"
    using assms(2) unfolding next_sleep_def Let_def if_not_P [OF q] by (simp add: scheduled_def)
  with assms(1,2) n show ?thesis
    by (elim disjE) (auto simp: scheduled_def idle_schedule_def)
qed

lemma undisturbed_schedule:
  assumes "interval_in_range t" "\<forall>p \<in> set ps. unat p \<le> 6" "scheduled t n (dm_sleep d)"
  shows "\<exists>d'. undisturbed ps d = Inr d' \<and> scheduled t (n + length ps) (dm_sleep d')"
  using assms(2,3)
proof (induction ps arbitrary: n d)
  case (Cons p ps)
  have t: "0 < t" using assms(1) by (simp add: interval_in_range_def)
  let ?s = "(dm_sleep d)\<lparr>gProm := Some False\<rparr>"
  have sc: "scheduled t n ?s" using Cons.prems(2) by (simp add: scheduled_def)
  then have e: "gotoSleep_enter p ?s = Inr (next_sleep p ?s)" using gotoSleep_enter_ok [OF assms(1)] scheduled_ok [OF t] by blast
  have nx: "scheduled t (Suc n) (next_sleep p ?s)" using next_sleep_quiet [OF t sc] Cons.prems(1) by simp
  have pr: "gProm (next_sleep p ?s) = Some False" by (simp add: next_sleep_def Let_def)
  let ?d1 = "(round_promise d)\<lparr>dm_sleep := next_sleep p ?s\<rparr>"
  have r: "round_enter p (round_promise d) = Inr ?d1" using e by (simp add: round_enter_def round_promise_def)
  have "scheduled t (Suc n) (dm_sleep (round_clear (round_leave ?d1)))"
    using nx pr by (simp add: round_clear_def round_leave_def gotoSleep_leave_def scheduled_def)
  from Cons.IH [OF _ this] Cons.prems(1) r show ?case by auto
qed simp

section \<open>Properties\<close>

text \<open>
  C9: If the sampling interval configured in \<^verbatim>\<open>/etc/policy_setting.cfg\<close> at the start is positive and below \<open>2 ^ 31\<close>, then in every state the
  daemon can reach from its start, whatever loads it reads and however signals and
  changes of the configuration interleave, its interval is one of the seven multiples of the
  sampling interval, at most 1280 times it, the ring of samples is addressed inside its 31
  places, the device name in the segment ends with a zero, and the computation of the next
  interval does not overflow.
\<close>

theorem daemon_invariant:
  assumes "daemon_start os pid ps now = Inr (os', Some d0)" "reachable d0 (ph, d)"
    and "t = SamplingInterval (GetCfgParameters (make_policy os ''/etc/policy_setting.cfg''))" "0 < t" "t < 2 ^ 31"
  shows "gTimeout (dm_sleep d) \<in> set (intervals t) \<and> gTimeout (dm_sleep d) \<le> 1280 * t \<and>
    cur (dm_nodes d) < NODE_NUM \<and> pre (dm_nodes d) < NODE_NUM \<and> length (node_array (dm_nodes d)) = NODE_NUM \<and>
    (\<exists>device. c_string (cfgInferDev (dm_buf d)) = Inr device) \<and> (\<forall>pss. \<exists>d'. round_enter pss d = Inr d')"
proof -
  have r: "interval_in_range t" using assms(4,5) by (simp add: interval_in_range_def)
  have ok: "daemon_ok t d" using reachable_ok [OF assms(2) r] daemon_start_ok [OF assms(1)] assms(3) by simp
  then have "sleep_ok t (dm_sleep d)" "nodes_ok (dm_nodes d)" "buffer_ok (dm_buf d)" by (simp_all add: daemon_ok_def)
  with gotoSleep_enter_ok [OF r] assms(4) show ?thesis
    by (auto simp: sleep_ok_def nodes_ok_def buffer_ok_def c_string_def round_enter_def intervals_def)
qed

definition sample_daemon :: daemon where
  "sample_daemon = \<lparr>dm_buf = zero_memory\<lparr>idle_occupation := Fin 1, gpuStatus := Fin (- 1), pidOfDaemon := 42, cfgLocal := True,
       cfgServer := False, cfgInferDev := device_buffer ''CPU''\<rparr>,
     dm_nodes = \<lparr>node_array = replicate NODE_NUM \<lparr>cpu_busy_time = 0, cpu_idle_time = 0, pss_time = []\<rparr>, cur = 0, pre = 0\<rparr>,
     dm_gpu = \<lparr>gpuTopRunning = False, check_gpu_start_time = 0\<rparr>,
     dm_sleep = \<lparr>gTimeout = 500, gDefaultTimeout = 500, iteration = 0, gProm = None\<rparr>, dm_ids = [], dm_start_time = 0\<rparr>"

lemma sample_policy: "GetCfgParameters (make_policy sample_os ''/etc/policy_setting.cfg'') = default_params"
  by (simp add: make_policy_def sample_os_def ParseConfiguration_def GetCfgParameters_def)

lemma sample_daemon_start: "\<exists>os'. daemon_start sample_os 42 None 0 = Inr (os', Some sample_daemon)"
proof -
  have o: "os_key_ok sample_os" "os_attach_ok sample_os" "os_shm sample_os = Some zero_memory"
    by (simp_all add: sample_os_def)
  show ?thesis
    by (simp add: daemon_start_def sample_policy o CreateShm_def GetShmid_cases with_shm_def SaveCfgParams_def getFcgiIds_def
        default_params_def sample_daemon_def Let_def)
qed

theorem daemon_invariant_witness:
  "\<exists>ph d. daemon_step (Loop_head, sample_daemon) (ph, d) \<and> ph = Promised \<and> gTimeout (dm_sleep d) \<in> set (intervals 500)"
proof -
  obtain os' where st: "daemon_start sample_os 42 None 0 = Inr (os', Some sample_daemon)" using sample_daemon_start by blast
  have s: "daemon_step (Loop_head, sample_daemon) (Promised, round_promise sample_daemon)" by (rule daemon_step.promise)
  then have "reachable sample_daemon (Promised, round_promise sample_daemon)" by (rule reachable.step [OF reachable.start])
  from daemon_invariant [OF st this refl] s show ?thesis unfolding sample_policy by (auto simp: default_params_def)
qed

text \<open>
  C33: An idle system lets the daemon fall asleep: with the sampling interval in range, rounds in
  which the services use at most 6 ticks and no signal arrives double the interval after 121 of
  them and again raise it until after 155 it is 1280 times the sampling interval, where it stays.
\<close>

theorem daemon_falls_asleep:
  assumes "0 < t" "t < 2 ^ 31" "gDefaultTimeout (dm_sleep d) = t" "gTimeout (dm_sleep d) = t" "iteration (dm_sleep d) = 0"
    and "\<forall>p \<in> set ps. unat p \<le> 6"
  shows "\<exists>d'. undisturbed ps d = Inr d' \<and> gTimeout (dm_sleep d') = fst (idle_schedule t (length ps)) \<and>
    (length ps \<le> 120 \<longrightarrow> gTimeout (dm_sleep d') = t) \<and> (155 \<le> length ps \<longrightarrow> gTimeout (dm_sleep d') = 1280 * t)"
proof -
  have r: "interval_in_range t" using assms(1,2) by (simp add: interval_in_range_def)
  have "scheduled t 0 (dm_sleep d)" using assms(3-5) by (simp add: scheduled_def idle_schedule_def)
  from undisturbed_schedule [OF r assms(6) this] obtain d' where
    d': "undisturbed ps d = Inr d'" "(gTimeout (dm_sleep d'), iteration (dm_sleep d')) = idle_schedule t (length ps)"
    by (auto simp: scheduled_def)
  from d'(2) [symmetric] have "gTimeout (dm_sleep d') = fst (idle_schedule t (length ps))" by simp
  with d'(1) show ?thesis by (auto simp: idle_schedule_def)
qed

theorem daemon_falls_asleep_witness:
  "\<exists>d'. undisturbed (replicate 200 3) sample_daemon = Inr d' \<and> gTimeout (dm_sleep d') = 640000"
  using daemon_falls_asleep [of 500 sample_daemon "replicate 200 3"] by (auto simp: sample_daemon_def)

text \<open>
  A service that wakes the daemon: while it waits with a longer interval, the signal makes the
  round end with the sampling interval and the counter at 0, whether or not the time is over;
  while it waits with the sampling interval the signal is ignored. But a second signal before
  the daemon has run throws \<^verbatim>\<open>std::future_error\<close> out of the handler.
\<close>

theorem wakeup_resets_interval:
  assumes "gProm (dm_sleep d) = Some False"
  shows "if gTimeout (dm_sleep d) = gDefaultTimeout (dm_sleep d) then wakeup (dm_sleep d) = Inr (dm_sleep d)
    else \<exists>s. wakeup (dm_sleep d) = Inr s \<and> wakeup s = Inl Future_error \<and>
      (let d' = round_clear (round_leave (d\<lparr>dm_sleep := s\<rparr>))
       in gTimeout (dm_sleep d') = gDefaultTimeout (dm_sleep d) \<and> iteration (dm_sleep d') = 0 \<and> gProm (dm_sleep d') = None)"
  using assms by (simp add: wakeup_def round_clear_def round_leave_def gotoSleep_leave_def)

theorem wakeup_resets_interval_witness:
  "wakeup \<lparr>gTimeout = 4000, gDefaultTimeout = 500, iteration = 0, gProm = Some False\<rparr> =
     Inr \<lparr>gTimeout = 4000, gDefaultTimeout = 500, iteration = 0, gProm = Some True\<rparr>"
  using wakeup_resets_interval [of "sample_daemon\<lparr>dm_sleep := \<lparr>gTimeout = 4000, gDefaultTimeout = 500, iteration = 0, gProm = Some False\<rparr>\<rparr>"]
  by (auto simp: wakeup_def)

text \<open>
  The sampling interval is not validated: with a negative one the first idle change of the
  interval shifts a negative number.
\<close>

lemma negative_interval_undefined:
  assumes "t < 0" "gTimeout s = t" "gDefaultTimeout s = t" "iteration s = 120" "unat pss \<le> 6"
  shows "gotoSleep_enter pss s = Inl Undefined"
proof -
  have "uint pss = int (unat pss)" by simp
  with assms(5) have "uint pss \<le> 6" by linarith
  with assms(1-4) show ?thesis by (simp add: gotoSleep_enter_def stateTransfer_def shl_long_def)
qed

text \<open>A line of \<^verbatim>\<open>ps\<close> of more than 299 characters is read in two pieces, the second of which need not have a number.\<close>

lemma long_process_line_throws:
  "getFcgiIds (Some (''www 17 '' @ replicate 300 (CHR ''x'') @ '' -option value'')) [] = Inl Invalid_argument"
  by code_simp

end
