(* ===== verification/GatewayUtils.thy ===== *)
theory GatewayUtils
  imports ConfigText "HOL-Library.Sublist"
begin

unbundle bit_operations_syntax

text \<open>
  The helpers of the gateway's FastCGI services, \<^verbatim>\<open>fcgi_utils.cpp\<close>: base64 in both directions,
  percent decoding, and the fields of a form.
\<close>



section \<open>Base64\<close>

definition encode_table :: string where
  "encode_table = ''ABCDEFGHIJKLMNOPQRSTUVWXYZabcdefghijklmnopqrstuvwxyz0123456789+/''"

definition encode_char :: "u32 \<Rightarrow> char" where
  "encode_char k = encode_table ! unat k"

text \<open>Three bytes; they are promoted to \<^verbatim>\<open>int\<close> before they are shifted.\<close>

definition encode_group :: "u8 \<Rightarrow> u8 \<Rightarrow> u8 \<Rightarrow> string" where
  "encode_group b1 b2 b3 =
     [encode_char (drop_bit 2 (ucast b1)),
      encode_char ((push_bit 4 (ucast b1) OR drop_bit 4 (ucast b2)) AND 0x3F),
      encode_char ((push_bit 2 (ucast b2) OR drop_bit 6 (ucast b3)) AND 0x3F),
      encode_char (ucast b3 AND 0x3F)]"

text \<open>
  The loop over the full groups: the number of groups left, the length of the line, the memory
  that is left to read. Reading past its end has no meaning.
\<close>

fun encode_loop :: "nat \<Rightarrow> nat \<Rightarrow> u8 list \<Rightarrow> string \<Rightarrow> (string \<times> u8 list) result" where
  "encode_loop 0 len mem acc = Inr (acc, mem)"
| "encode_loop (Suc n) len (b1 # b2 # b3 # mem) acc =
     (let acc1 = acc @ encode_group b1 b2 b3
      in if len + 4 = 76 then encode_loop n 0 mem (acc1 @ [CHR 0x0D, CHR 0x0A])
         else encode_loop n (len + 4) mem acc1)"
| "encode_loop (Suc n) len mem acc = Inl Undefined"

text \<open>\<^verbatim>\<open>EncodeBase\<close>: the memory from the pointer on, and the number of bytes.\<close>

definition EncodeBase :: "u8 list \<Rightarrow> int \<Rightarrow> string result" where
  "EncodeBase mem input_num =
     rbind (encode_loop (nat input_num div 3) 0 mem []) (\<lambda>(encode_str, rest).
       if 0 \<le> input_num \<and> input_num mod 3 = 2
       then (case rest of
               b1 # b2 # _ \<Rightarrow>
                 Inr (encode_str @
                   [encode_char (drop_bit 2 (ucast b1 AND 0xFC)),
                    encode_char (push_bit 4 (ucast b1 AND 0x03) OR drop_bit 4 (ucast b2 AND 0xF0)),
                    encode_char (push_bit 2 (ucast b2 AND 0x0F)), CHR ''=''])
             | _ \<Rightarrow> Inl Undefined)
       else (case rest of
               b1 # _ \<Rightarrow>
                 Inr (encode_str @
                   [encode_char (drop_bit 2 (ucast b1 AND 0xFC)), encode_char (push_bit 4 (ucast b1 AND 0x03)), CHR ''='', CHR ''=''])
             | [] \<Rightarrow> Inl Undefined))"

text \<open>The table of \<^verbatim>\<open>DecodeBase\<close> ends with the letter \<^verbatim>\<open>z\<close>.\<close>

definition decode_table :: "nat list" where
  "decode_table =
     replicate 43 0 @ [62] @ replicate 3 0 @ [63] @ [52..<62] @ replicate 7 0 @ [0..<26] @ replicate 6 0 @ [26..<52]"

definition decode_value :: "char \<Rightarrow> u32 result" where
  "decode_value c = rbind (vec_at decode_table (of_char c)) (\<lambda>v. Inr (of_nat v))"

text \<open>The next four characters that are no line ends, and the rest.\<close>

fun next_codes :: "nat \<Rightarrow> string \<Rightarrow> string \<times> string" where
  "next_codes n [] = ([], [])"
| "next_codes 0 (c # cs) = ([], c # cs)"
| "next_codes (Suc n) (c # cs) =
     (if c = CHR 0x0D \<or> c = CHR 0x0A then next_codes (Suc n) cs
      else (case next_codes n cs of (ds, rest) \<Rightarrow> (c # ds, rest)))"

definition decode_group :: "char \<Rightarrow> char \<Rightarrow> char \<Rightarrow> char \<Rightarrow> u8 list result" where
  "decode_group c0 c1 c2 c3 =
     rbind (decode_value c0) (\<lambda>t0.
     rbind (decode_value c1) (\<lambda>t1.
       (let v1 = push_bit 18 t0 + push_bit 12 t1; o1 = ucast (drop_bit 16 (v1 AND 0x00FF0000))
        in if c2 = CHR ''='' then Inr [o1]
           else
             rbind (decode_value c2) (\<lambda>t2.
               (let v2 = v1 + push_bit 6 t2; o2 = ucast (drop_bit 8 (v2 AND 0x0000FF00))
                in if c3 = CHR ''='' then Inr [o1, o2]
                   else
                     rbind (decode_value c3) (\<lambda>t3.
                       (let v3 = v2 + t3 in Inr [o1, o2, ucast (v3 AND 0x000000FF)])))))))"

lemma next_codes_shorter: "next_codes n s = (cs, rest) \<Longrightarrow> length rest + length cs \<le> length s"
  by (induction n s arbitrary: cs rest rule: next_codes.induct) (fastforce split: if_split_asm prod.split_asm)+

function decode_loop :: "string \<Rightarrow> u8 list \<Rightarrow> u8 list result" where
  "decode_loop s acc =
     (case next_codes 4 s of
        ([c0, c1, c2, c3], rest) \<Rightarrow> rbind (decode_group c0 c1 c2 c3) (\<lambda>bs. decode_loop rest (acc @ bs))
      | _ \<Rightarrow> Inr acc)"
  by pat_completeness auto
termination
  by (relation "measure (length o fst)") (auto dest!: next_codes_shorter [OF sym])

declare decode_loop.simps [simp del]

definition DecodeBase :: "string \<Rightarrow> u8 list result" where
  "DecodeBase s = decode_loop s []"

definition Base2string :: "string \<Rightarrow> u8 list result" where
  "Base2string s = DecodeBase s"

section \<open>Forms\<close>

definition Char_dec :: "char \<Rightarrow> int" where
  "Char_dec c =
     (let n = of_char c :: int
      in if 48 \<le> n \<and> n \<le> 57 then n - 48
         else if 97 \<le> n \<and> n \<le> 102 then n - 97 + 10
         else if 65 \<le> n \<and> n \<le> 70 then n - 65 + 10
         else - 1)"

text \<open>
  Percent decoding. Reading at the end of a string yields a zero, reading beyond it has no
  meaning; the number is cut to a byte.
\<close>

fun deData :: "string \<Rightarrow> string result" where
  "deData [] = Inr []"
| "deData (c # cs) =
     (if c \<noteq> CHR ''%'' then rbind (deData cs) (\<lambda>r. Inr (c # r))
      else
        (case cs of
           d1 # d0 # rest \<Rightarrow> rbind (deData rest) (\<lambda>r. Inr (char_of (Char_dec d1 * 16 + Char_dec d0) # r))
         | [d1] \<Rightarrow> Inr [char_of (Char_dec d1 * 16 + Char_dec (CHR 0x00))]
         | [] \<Rightarrow> Inl Undefined))"

text \<open>
  \<^verbatim>\<open>get_data\<close>: the text after the first occurrence of the name and an equals sign, up to the next
  ampersand. A count that wraps around means the rest of the string.
\<close>

definition get_data :: "string \<Rightarrow> string \<Rightarrow> string" where
  "get_data post_str name =
     (let name_str = name @ ''=''
      in (case str_find post_str name_str 0 of
            None \<Rightarrow> []
          | Some start_pos \<Rightarrow>
              (let sub_str = drop start_pos post_str; tail = drop (start_pos + length name_str) post_str
               in (case str_find sub_str ''&'' 0 of
                     None \<Rightarrow> tail
                   | Some end_pos \<Rightarrow> if length name_str \<le> end_pos then take (end_pos - length name_str) tail else tail))))"

section \<open>Sextets\<close>

lemma uint_u8: "0 \<le> uint (b :: u8)" "uint b < 256"
  using unsigned_less [of b, where 'a=int] by simp_all

lemma uint_ucast_u8 [simp]: "uint (ucast (b :: u8) :: u32) = uint b"
  using uint_u8 [of b] by (simp add: unsigned_ucast_eq take_bit_int_eq_self_iff)

lemma int_or_disjoint: "0 \<le> y \<Longrightarrow> y < 2 ^ k \<Longrightarrow> push_bit k x OR y = x * 2 ^ k + (y :: int)"
  using concat_bit_eq [of k y x]
  by (simp add: concat_bit_def take_bit_int_eq_self push_bit_eq_mult or.commute add.commute)

lemma int_and_masks: "(x :: int) AND 63 = x mod 64" "x AND 3 = x mod 4" "x AND 15 = x mod 16" "x AND 255 = x mod 256"
  using take_bit_eq_mask [of 6 x] take_bit_eq_mask [of 2 x] take_bit_eq_mask [of 4 x] take_bit_eq_mask [of 8 x]
  by (simp_all add: take_bit_eq_mod mask_eq_exp_minus_1)

lemma int_and_high:
  assumes "0 \<le> x" "x < 256"
  shows "(x :: int) AND 0xFC = x div 4 * 4" "x AND 0xF0 = x div 16 * 16"
proof -
  have "\<forall>x \<in> set [0..255]. (x :: int) AND 0xFC = x div 4 * 4 \<and> x AND 0xF0 = x div 16 * 16" by code_simp
  with assms show "x AND 0xFC = x div 4 * 4" "x AND 0xF0 = x div 16 * 16" by auto
qed

lemma uint_push_bit_small: "uint w * 2 ^ k < 2 ^ 32 \<Longrightarrow> uint (push_bit k w :: u32) = push_bit k (uint w)"
  unfolding unsigned_push_bit_eq by (simp add: push_bit_eq_mult take_bit_int_eq_self)

lemma uint_drop_bit: "uint (drop_bit k w :: u32) = uint w div 2 ^ k"
  using unsigned_less [of w, where 'a=int] unfolding unsigned_drop_bit_eq by (simp add: drop_bit_eq_div take_bit_int_eq_self)

lemmas sextet_simps = unsigned_and_eq unsigned_or_eq uint_drop_bit int_and_masks

lemma sextet_or:
  "uint (push_bit 4 (ucast b1) OR drop_bit 4 (ucast b2) :: u32) = uint (b1 :: u8) * 16 + uint (b2 :: u8) div 16"
  "uint (push_bit 2 (ucast b1) OR drop_bit 6 (ucast b2) :: u32) = uint b1 * 4 + uint b2 div 64"
proof -
  have p: "uint (push_bit k (ucast b1) :: u32) = push_bit k (uint b1)" if "k \<le> 4" for k
  proof -
    have "uint b1 * 2 ^ k \<le> 255 * 2 ^ 4" using that uint_u8 [of b1] by (intro mult_mono power_increasing) auto
    then show ?thesis by (subst uint_push_bit_small) simp_all
  qed
  have o: "push_bit 4 (uint b1) OR uint b2 div 16 = uint b1 * 16 + uint b2 div 16"
    "push_bit 2 (uint b1) OR uint b2 div 64 = uint b1 * 4 + uint b2 div 64"
    using int_or_disjoint [of "uint b2 div 16" 4 "uint b1"] int_or_disjoint [of "uint b2 div 64" 2 "uint b1"] uint_u8 [of b2]
    by (simp_all add: pos_imp_zdiv_nonneg_iff)
  show "uint (push_bit 4 (ucast b1) OR drop_bit 4 (ucast b2) :: u32) = uint b1 * 16 + uint b2 div 16"
    "uint (push_bit 2 (ucast b1) OR drop_bit 6 (ucast b2) :: u32) = uint b1 * 4 + uint b2 div 64"
    using o p [of 4] p [of 2] by (simp_all add: unsigned_or_eq uint_drop_bit)
qed

text \<open>The characters of a group as indices into the table, and the last groups.\<close>

definition sextets :: "int \<Rightarrow> int \<Rightarrow> int \<Rightarrow> int list" where
  "sextets a b c = [a div 4, a mod 4 * 16 + b div 16, b mod 16 * 4 + c div 64, c mod 64]"

definition table_char :: "int \<Rightarrow> char" where
  "table_char k = encode_table ! nat k"

lemma encode_char_table: "encode_char w = table_char (uint w)"
  by (simp add: encode_char_def table_char_def)

lemma encode_group_sextets: "encode_group b1 b2 b3 = map table_char (sextets (uint b1) (uint b2) (uint b3))"
proof -
  have m: "(uint b1 * 16 + uint b2 div 16) mod 64 = uint b1 mod 4 * 16 + uint b2 div 16"
    "(uint b2 * 4 + uint b3 div 64) mod 64 = uint b2 mod 16 * 4 + uint b3 div 64"
    using zmod_zmult2_eq [of 4 "uint b1 * 16 + uint b2 div 16" 16] zmod_zmult2_eq [of 16 "uint b2 * 4 + uint b3 div 64" 4]
      uint_u8 [of b2] uint_u8 [of b3] by (simp_all add: pos_imp_zdiv_nonneg_iff div_pos_pos_trivial mod_pos_pos_trivial)
  show ?thesis
    unfolding encode_group_def encode_char_table sextets_def
    by (simp add: unsigned_and_eq sextet_or int_and_masks uint_drop_bit m)
qed

lemma encode_tail2:
  "[encode_char (drop_bit 2 (ucast b1 AND 0xFC)), encode_char (push_bit 4 (ucast b1 AND 0x03) OR drop_bit 4 (ucast b2 AND 0xF0)),
    encode_char (push_bit 2 (ucast b2 AND 0x0F))] = take 3 (map table_char (sextets (uint (b1 :: u8)) (uint (b2 :: u8)) 0))"
proof -
  have a: "uint (ucast b1 AND 3 :: u32) = uint b1 mod 4" "uint (ucast b2 AND 15 :: u32) = uint b2 mod 16"
    "uint (ucast b1 AND 0xFC :: u32) = uint b1 div 4 * 4" "uint (ucast b2 AND 0xF0 :: u32) = uint b2 div 16 * 16"
    using uint_u8 [of b1] uint_u8 [of b2] by (simp_all add: unsigned_and_eq int_and_masks int_and_high)
  have p: "uint (push_bit 4 (ucast b1 AND 3) :: u32) = push_bit 4 (uint b1 mod 4)"
    "uint (push_bit 2 (ucast b2 AND 15) :: u32) = push_bit 2 (uint b2 mod 16)"
    by (subst uint_push_bit_small; simp add: a)+
  have o: "push_bit 4 (uint b1 mod 4) OR uint b2 div 16 = uint b1 mod 4 * 16 + uint b2 div 16"
    using int_or_disjoint [of "uint b2 div 16" 4 "uint b1 mod 4"] uint_u8 [of b2] by (simp add: pos_imp_zdiv_nonneg_iff)
  have "uint (drop_bit 2 (ucast b1 AND 0xFC) :: u32) = uint b1 div 4"
    "uint (push_bit 4 (ucast b1 AND 0x03) OR drop_bit 4 (ucast b2 AND 0xF0) :: u32) = uint b1 mod 4 * 16 + uint b2 div 16"
    "uint (push_bit 2 (ucast b2 AND 0x0F) :: u32) = uint b2 mod 16 * 4"
    unfolding unsigned_or_eq uint_drop_bit a p using o by (simp_all add: push_bit_eq_mult)
  then show ?thesis by (simp only: encode_char_table sextets_def) simp
qed

lemma encode_tail1:
  "[encode_char (drop_bit 2 (ucast b1 AND 0xFC)), encode_char (push_bit 4 (ucast b1 AND 0x03))] =
    take 2 (map table_char (sextets (uint (b1 :: u8)) 0 0))"
proof -
  have a: "uint (ucast b1 AND 3 :: u32) = uint b1 mod 4" "uint (ucast b1 AND 0xFC :: u32) = uint b1 div 4 * 4"
    using uint_u8 [of b1] by (simp_all add: unsigned_and_eq int_and_masks int_and_high)
  have "uint (push_bit 4 (ucast b1 AND 3) :: u32) = push_bit 4 (uint b1 mod 4)"
    by (subst uint_push_bit_small; simp add: a)
  then have "uint (push_bit 4 (ucast b1 AND 0x03) :: u32) = uint b1 mod 4 * 16" by (simp only: push_bit_eq_mult) simp
  moreover have "uint (drop_bit 2 (ucast b1 AND 0xFC) :: u32) = uint b1 div 4" unfolding uint_drop_bit a by simp
  ultimately show ?thesis by (simp only: encode_char_table sextets_def) simp
qed

section \<open>Decoding what was encoded\<close>

definition table_entry :: "nat \<Rightarrow> nat" where
  "table_entry n =
     (if n = 43 then 62 else if n = 47 then 63 else if 48 \<le> n \<and> n \<le> 57 then n + 4
      else if 65 \<le> n \<and> n \<le> 90 then n - 65 else if 97 \<le> n \<and> n \<le> 122 then n - 71 else 0)"

lemma decode_table_entries: "decode_table = map table_entry [0..<123]"
  by code_simp

lemma encode_table_entries:
  "map (\<lambda>c. table_entry (of_char c)) encode_table = [0..<64]" "length encode_table = 64"
  "list_all (\<lambda>c. of_char c < (123 :: nat) \<and> c \<noteq> CHR ''='' \<and> c \<noteq> CHR 0x0D \<and> c \<noteq> CHR 0x0A) encode_table"
  by code_simp+

lemma table_values:
  assumes "0 \<le> k" "k < 64"
  shows "decode_value (table_char k) = Inr (word_of_int k)" "table_char k \<noteq> CHR ''=''" "table_char k \<noteq> CHR 0x0D" "table_char k \<noteq> CHR 0x0A"
proof -
  have i: "nat k < length encode_table" using assms encode_table_entries(2) by simp
  have e: "table_entry (of_char (table_char k)) = nat k"
    using arg_cong [OF encode_table_entries(1), of "\<lambda>l. l ! nat k"] i assms by (simp add: table_char_def encode_table_entries(2))
  have c: "of_char (table_char k) < (123 :: nat)" "table_char k \<noteq> CHR ''=''" "table_char k \<noteq> CHR 0x0D" "table_char k \<noteq> CHR 0x0A"
    using encode_table_entries(3) i unfolding table_char_def list_all_length by blast+
  show "decode_value (table_char k) = Inr (word_of_int k)"
    using c(1) e assms by (simp add: decode_value_def decode_table_entries del: upt_Suc)
  show "table_char k \<noteq> CHR ''=''" "table_char k \<noteq> CHR 0x0D" "table_char k \<noteq> CHR 0x0A" using c by simp_all
qed

lemma sextets_range:
  assumes "0 \<le> a" "a < 256" "0 \<le> b" "b < 256" "0 \<le> c" "c < 256" "k \<in> set (sextets a b c)"
  shows "0 \<le> k \<and> k < 64"
proof -
  have "0 \<le> b div 16 \<and> b div 16 < 16" "0 \<le> c div 64 \<and> c div 64 < 4"
    using assms by (simp_all add: pos_imp_zdiv_nonneg_iff)
  moreover have "0 \<le> a mod 4 \<and> a mod 4 < 4" "0 \<le> b mod 16 \<and> b mod 16 < 16" "0 \<le> c mod 64 \<and> c mod 64 < 64" by simp_all
  ultimately have "0 \<le> a mod 4 * 16 + b div 16 \<and> a mod 4 * 16 + b div 16 < 64" "0 \<le> b mod 16 * 4 + c div 64 \<and> b mod 16 * 4 + c div 64 < 64"
    by linarith+
  with assms show ?thesis unfolding sextets_def by (auto simp: pos_imp_zdiv_nonneg_iff)
qed

text \<open>The three bytes of a value.\<close>

lemma byte_of_value:
  "uint (ucast (drop_bit 16 (w AND 0x00FF0000)) :: u8) = uint (w :: u32) div 65536 mod 256"
  "uint (ucast (drop_bit 8 (w AND 0x0000FF00)) :: u8) = uint w div 256 mod 256"
  "uint (ucast (w AND 0x000000FF) :: u8) = uint w mod 256"
proof -
  have "drop_bit 16 (w AND 0x00FF0000) = drop_bit 16 w AND 0xFF" "drop_bit 8 (w AND 0x0000FF00) = drop_bit 8 w AND 0xFF"
    by simp_all
  moreover have "uint (ucast (v AND 0xFF :: u32) :: u8) = uint v mod 256" for v
    by (simp add: unsigned_ucast_eq unsigned_and_eq int_and_masks take_bit_eq_mod)
  ultimately show "uint (ucast (drop_bit 16 (w AND 0x00FF0000)) :: u8) = uint w div 65536 mod 256"
    "uint (ucast (drop_bit 8 (w AND 0x0000FF00)) :: u8) = uint w div 256 mod 256"
    "uint (ucast (w AND 0x000000FF) :: u8) = uint w mod 256"
    by (simp_all add: uint_drop_bit)
qed

lemma push_word_of_int: "push_bit k (word_of_int x :: u32) = word_of_int (x * 2 ^ k)"
  by (simp add: push_bit_eq_mult)

lemma uint_word_of_int_small: "0 \<le> x \<Longrightarrow> x < 2 ^ 32 \<Longrightarrow> uint (word_of_int x :: u32) = x"
  by (simp add: uint_word_of_int)

lemma group_value:
  assumes "[s0, s1, s2, s3] = sextets a b c" "0 \<le> a" "a < 256" "0 \<le> b" "b < 256" "0 \<le> c" "c < 256"
  shows "s0 * 2 ^ 18 + s1 * 2 ^ 12 = a * 65536 + b div 16 * 4096"
    "s0 * 2 ^ 18 + s1 * 2 ^ 12 + s2 * 2 ^ 6 = a * 65536 + b * 256 + c div 64 * 64"
    "s0 * 2 ^ 18 + s1 * 2 ^ 12 + s2 * 2 ^ 6 + s3 = a * 65536 + b * 256 + c"
proof -
  have s: "s0 = a div 4" "s1 = a mod 4 * 16 + b div 16" "s2 = b mod 16 * 4 + c div 64" "s3 = c mod 64"
    using assms(1) by (simp_all add: sextets_def)
  define qa ra qb rb qc rc where "qa = a div 4" "ra = a mod 4" "qb = b div 16" "rb = b mod 16" "qc = c div 64" "rc = c mod 64"
  then have "a = qa * 4 + ra" "b = qb * 16 + rb" "c = qc * 64 + rc" by simp_all
  moreover have "s0 = qa" "s1 = ra * 16 + qb" "s2 = rb * 4 + qc" "s3 = rc" "b div 16 = qb" "c div 64 = qc"
    unfolding s qa_ra_qb_rb_qc_rc_def by simp_all
  ultimately show "s0 * 2 ^ 18 + s1 * 2 ^ 12 = a * 65536 + b div 16 * 4096"
    "s0 * 2 ^ 18 + s1 * 2 ^ 12 + s2 * 2 ^ 6 = a * 65536 + b * 256 + c div 64 * 64"
    "s0 * 2 ^ 18 + s1 * 2 ^ 12 + s2 * 2 ^ 6 + s3 = a * 65536 + b * 256 + c"
    by simp_all
qed

lemma value_bytes:
  assumes "0 \<le> b" "b < 256" "0 \<le> c" "c < 256" "0 \<le> (a :: int)" "a < 256"
  shows "(a * 65536 + b * 256 + c) div 65536 mod 256 = a" "(a * 65536 + b * 256 + c) div 256 mod 256 = b"
    "(a * 65536 + b * 256 + c) mod 256 = c"
proof -
  have r: "0 \<le> b * 256 + c" "b * 256 + c < 65536" using assms by linarith+
  have "(a * 65536 + (b * 256 + c)) div 65536 = a" using r by simp
  then show "(a * 65536 + b * 256 + c) div 65536 mod 256 = a" using assms by (simp add: add.assoc)
  have "(a * 65536 + b * 256 + c) div 256 = a * 256 + b" using assms by simp
  then show "(a * 65536 + b * 256 + c) div 256 mod 256 = b" using assms by simp
  have "a * 65536 + b * 256 + c = (a * 256 + b) * 256 + c" by simp
  then have "(a * 65536 + b * 256 + c) mod 256 = c mod 256" by (simp only: mod_mult_self3)
  then show "(a * 65536 + b * 256 + c) mod 256 = c" using assms by simp
qed

lemma decode_sextets:
  fixes b1 b2 b3 :: u8
  assumes "sextets (uint b1) (uint b2) (uint b3) = [s0, s1, s2, s3]"
  shows "decode_group (table_char s0) (table_char s1) (table_char s2) (table_char s3) = Inr [b1, b2, b3]"
    "decode_group (table_char s0) (table_char s1) (table_char s2) (CHR ''='') = Inr [b1, b2]"
    "decode_group (table_char s0) (table_char s1) (CHR ''='') x = Inr [b1]"
proof -
  note u = uint_u8 [of b1] uint_u8 [of b2] uint_u8 [of b3]
  have r: "0 \<le> k \<and> k < 64" if "k \<in> {s0, s1, s2, s3}" for k
    using sextets_range [OF u(1-6), of k] that assms by auto
  note t = table_values [of s0] table_values [of s1] table_values [of s2] table_values [of s3]
  note g = group_value [OF assms [symmetric] u(1-6)]
  let ?v1 = "word_of_int (uint b1 * 65536 + uint b2 div 16 * 4096) :: u32"
  let ?v2 = "word_of_int (uint b1 * 65536 + uint b2 * 256 + uint b3 div 64 * 64) :: u32"
  let ?v3 = "word_of_int (uint b1 * 65536 + uint b2 * 256 + uint b3) :: u32"
  have v1: "push_bit 18 (word_of_int s0) + push_bit 12 (word_of_int s1) = ?v1"
    unfolding push_word_of_int wi_homs g(1) ..
  have v2: "?v1 + push_bit 6 (word_of_int s2) = ?v2"
    unfolding push_word_of_int wi_homs by (rule arg_cong [where f = word_of_int]) (use g(1,2) in linarith)
  have v3: "?v2 + word_of_int s3 = ?v3" unfolding wi_homs by (rule arg_cong [where f = word_of_int]) (use g(2,3) in linarith)
  have d: "0 \<le> uint b2 div 16 \<and> uint b2 div 16 < 16" "0 \<le> uint b3 div 64 \<and> uint b3 div 64 < 4"
    using u by (simp_all add: pos_imp_zdiv_nonneg_iff)
  have uv: "uint ?v1 = uint b1 * 65536 + (uint b2 div 16 * 16) * 256 + 0" "uint ?v2 = uint b1 * 65536 + uint b2 * 256 + uint b3 div 64 * 64"
    "uint ?v3 = uint b1 * 65536 + uint b2 * 256 + uint b3"
    using u d by (subst uint_word_of_int_small; simp; fail)+
  have o1: "ucast (drop_bit 16 (?v1 AND 0x00FF0000)) = b1"
    by (rule word_uint_eqI, unfold byte_of_value uv, rule value_bytes) (use u d in auto)
  have o2: "ucast (drop_bit 8 (?v2 AND 0x0000FF00)) = b2"
    by (rule word_uint_eqI, unfold byte_of_value uv, rule value_bytes) (use u d in auto)
  have o3: "ucast (?v3 AND 0x000000FF) = b3"
    by (rule word_uint_eqI, unfold byte_of_value uv, rule value_bytes) (use u in auto)
  have q: "decode_value (table_char s0) = Inr (word_of_int s0)" "decode_value (table_char s1) = Inr (word_of_int s1)"
    "decode_value (table_char s2) = Inr (word_of_int s2)" "decode_value (table_char s3) = Inr (word_of_int s3)"
    and ne: "table_char s2 \<noteq> CHR ''=''" "table_char s3 \<noteq> CHR ''=''"
    using r t by simp_all
  show "decode_group (table_char s0) (table_char s1) (table_char s2) (table_char s3) = Inr [b1, b2, b3]"
    "decode_group (table_char s0) (table_char s1) (table_char s2) (CHR ''='') = Inr [b1, b2]"
    "decode_group (table_char s0) (table_char s1) (CHR ''='') x = Inr [b1]"
    unfolding decode_group_def q rbind_Inr Let_def v1 v2 v3 o1 o2 o3 using ne by simp_all
qed

section \<open>Whole messages\<close>

text \<open>Four characters that are no line ends form the next group; line ends before them are skipped.\<close>

definition plain :: "char \<Rightarrow> bool" where
  "plain c \<longleftrightarrow> c \<noteq> CHR 0x0D \<and> c \<noteq> CHR 0x0A"

lemma next_codes_group:
  assumes "plain c0" "plain c1" "plain c2" "plain c3"
  shows "next_codes 4 (c0 # c1 # c2 # c3 # s) = ([c0, c1, c2, c3], s)"
    "next_codes 4 (CHR 0x0D # CHR 0x0A # c0 # c1 # c2 # c3 # s) = ([c0, c1, c2, c3], s)"
proof -
  have "next_codes 0 s = ([], s)" by (cases s) simp_all
  with assms show "next_codes 4 (c0 # c1 # c2 # c3 # s) = ([c0, c1, c2, c3], s)"
    "next_codes 4 (CHR 0x0D # CHR 0x0A # c0 # c1 # c2 # c3 # s) = ([c0, c1, c2, c3], s)"
    by (simp_all add: plain_def numeral_eq_Suc)
qed

text \<open>The text of the full groups of a message, with its line breaks.\<close>

fun encoded :: "nat \<Rightarrow> u8 list \<Rightarrow> string" where
  "encoded len (b1 # b2 # b3 # bs) =
     encode_group b1 b2 b3 @ (if len + 4 = 76 then [CHR 0x0D, CHR 0x0A] @ encoded 0 bs else encoded (len + 4) bs)"
| "encoded len bs = []"

text \<open>The line length after the full groups.\<close>

lemma encode_loop_encoded:
  "length data = 3 * n \<Longrightarrow> encode_loop n len (data @ rest) acc = Inr (acc @ encoded len data, rest)"
proof (induction n arbitrary: len data acc)
  case (Suc n)
  then obtain b1 b2 b3 data' where "data = b1 # b2 # b3 # data'" "length data' = 3 * n"
    by (auto simp: length_Suc_conv numeral_3_eq_3)
  with Suc.IH show ?case by (simp add: Let_def)
qed simp

lemma sextets_length: "\<exists>s0 s1 s2 s3. sextets a b c = [s0, s1, s2, s3]"
  by (simp add: sextets_def)

lemma sextet_chars_plain:
  assumes "sextets (uint (b1 :: u8)) (uint (b2 :: u8)) (uint (b3 :: u8)) = [s0, s1, s2, s3]"
  shows "plain (table_char s0)" "plain (table_char s1)" "plain (table_char s2)" "plain (table_char s3)"
proof -
  have "plain (table_char k)" if "k \<in> set (sextets (uint b1) (uint b2) (uint b3))" for k
    using sextets_range [OF _ _ _ _ _ _ that] table_values [of k] uint_u8 by (simp add: plain_def)
  then show "plain (table_char s0)" "plain (table_char s1)" "plain (table_char s2)" "plain (table_char s3)" using assms by simp_all
qed

text \<open>A line break is skipped before the next group, and at the end.\<close>

lemma decode_loop_break: "decode_loop (CHR 0x0D # CHR 0x0A # s) acc = decode_loop s acc"
proof -
  have "next_codes 4 (CHR 0x0D # CHR 0x0A # s) = next_codes 4 s" by (cases s) (simp_all add: numeral_eq_Suc)
  then show ?thesis by (simp add: decode_loop.simps [of s] decode_loop.simps [of "CHR 0x0D # CHR 0x0A # s"])
qed

lemma decode_loop_group:
  "decode_loop (encode_group b1 b2 b3 @ s) acc = decode_loop s (acc @ [b1, b2, b3])"
proof -
  obtain s0 s1 s2 s3 where s: "sextets (uint b1) (uint b2) (uint b3) = [s0, s1, s2, s3]" using sextets_length by metis
  show ?thesis
    using next_codes_group(1) [OF sextet_chars_plain [OF s], of s]
    by (simp add: encode_group_sextets s decode_loop.simps [of "table_char s0 # _"] decode_sextets(1) [OF s])
qed

lemma decode_encoded:
  "length data = 3 * n \<Longrightarrow> decode_loop (encoded len data @ s) acc = decode_loop s (acc @ data)"
proof (induction n arbitrary: len data acc)
  case (Suc n)
  then obtain b1 b2 b3 data' where "data = b1 # b2 # b3 # data'" "length data' = 3 * n"
    by (auto simp: length_Suc_conv numeral_3_eq_3)
  with Suc.IH show ?case by (simp add: decode_loop_group decode_loop_break)
qed simp

lemma decode_loop_Nil [simp]: "decode_loop [] acc = Inr acc"
  by (simp add: decode_loop.simps)

lemma plain_pad: "plain (CHR ''='')"
  by (simp add: plain_def)

lemma decode_tail2:
  "decode_loop (take 3 (map table_char (sextets (uint (b1 :: u8)) (uint (b2 :: u8)) 0)) @ [CHR ''='']) acc = Inr (acc @ [b1, b2])"
proof -
  obtain s0 s1 s2 s3 where s: "sextets (uint b1) (uint b2) (uint (0 :: u8)) = [s0, s1, s2, s3]" using sextets_length by metis
  note p = sextet_chars_plain [OF s]
  show ?thesis
    using next_codes_group(1) [OF p(1-3) plain_pad, of "[]"] s
    by (simp add: decode_loop.simps [of "table_char s0 # _"] decode_sextets(2) [OF s])
qed

lemma decode_tail1:
  "decode_loop (take 2 (map table_char (sextets (uint (b1 :: u8)) 0 0)) @ [CHR ''='', CHR ''='']) acc = Inr (acc @ [b1])"
proof -
  obtain s0 s1 s2 s3 where s: "sextets (uint b1) (uint (0 :: u8)) (uint (0 :: u8)) = [s0, s1, s2, s3]" using sextets_length by metis
  note p = sextet_chars_plain [OF s]
  show ?thesis
    using next_codes_group(1) [OF p(1,2) plain_pad plain_pad, of "[]"] s
    by (simp add: decode_loop.simps [of "table_char s0 # _"] decode_sextets(3) [OF s])
qed

lemma EncodeBase_tail:
  assumes "length full = 3 * n" "0 \<le> num" "nat num div 3 = n"
  shows "EncodeBase (full @ rest) num =
    (if num mod 3 = 2
     then (case rest of b1 # b2 # _ \<Rightarrow> Inr (encoded 0 full @ take 3 (map table_char (sextets (uint b1) (uint b2) 0)) @ [CHR ''=''])
           | _ \<Rightarrow> Inl Undefined)
     else (case rest of b1 # _ \<Rightarrow> Inr (encoded 0 full @ take 2 (map table_char (sextets (uint b1) 0 0)) @ [CHR ''='', CHR ''=''])
           | [] \<Rightarrow> Inl Undefined))"
  unfolding EncodeBase_def assms(3) encode_loop_encoded [OF assms(1)] using assms(2)
  by (simp add: encode_tail1 [symmetric] encode_tail2 [symmetric] split: list.split)

lemma DecodeBase_encoded:
  "length full = 3 * n \<Longrightarrow> DecodeBase (encoded 0 full @ s) = decode_loop s full"
  by (simp add: DecodeBase_def decode_encoded)

section \<open>Properties\<close>

text \<open>
  C10: Decoding undoes encoding for every message whose length is not a multiple of three. If it is
  one, the encoder reads one byte behind the message: it appends this byte to what is decoded,
  and if there is none the read is out of bounds.
\<close>

theorem base64_roundtrip:
  "case EncodeBase (message @ behind) (int (length message)) of
     Inr s \<Rightarrow> DecodeBase s = Inr (if length message mod 3 = 0 then message @ [hd behind] else message)
   | Inl e \<Rightarrow> e = Undefined \<and> length message mod 3 = 0 \<and> behind = []"
proof -
  define n where "n = length message div 3"
  define full where "full = take (3 * n) message"
  define tail where "tail = drop (3 * n) message"
  define rest where "rest = tail @ behind"
  have f: "length full = 3 * n" by (simp add: full_def n_def)
  have m: "message @ behind = full @ rest" by (simp add: full_def rest_def tail_def)
  have l: "length tail = length message mod 3" by (simp add: n_def tail_def minus_mult_div_eq_mod)
  have z: "int (length message) mod 3 = int (length message mod 3)" by (simp add: zmod_int)
  have e: "EncodeBase (message @ behind) (int (length message)) =
    (if length message mod 3 = 2
     then (case rest of b1 # b2 # _ \<Rightarrow> Inr (encoded 0 full @ take 3 (map table_char (sextets (uint b1) (uint b2) 0)) @ [CHR ''=''])
           | _ \<Rightarrow> Inl Undefined)
     else (case rest of b1 # _ \<Rightarrow> Inr (encoded 0 full @ take 2 (map table_char (sextets (uint b1) 0 0)) @ [CHR ''='', CHR ''=''])
           | [] \<Rightarrow> Inl Undefined))"
    unfolding m using EncodeBase_tail [OF f, of "int (length message)" rest] z by (simp add: n_def)
  have tl: "message = full @ tail" by (simp add: full_def tail_def)
  consider (two) b1 b2 where "tail = [b1, b2]" "length message mod 3 = 2"
    | (one) b1 where "tail = [b1]" "length message mod 3 = 1"
    | (zero) "tail = []" "length message mod 3 = 0"
  proof -
    have "length message mod 3 < 3" by simp
    then consider "length message mod 3 = 0" | "length message mod 3 = 1" | "length message mod 3 = 2" by linarith
    then show thesis using l that by cases (fastforce simp: length_Suc_conv numeral_2_eq_2)+
  qed
  then show ?thesis
  proof cases
    case two
    then have "full @ [b1, b2] = message" using tl by simp
    with two show ?thesis unfolding e by (simp add: rest_def DecodeBase_encoded [OF f] decode_tail2)
  next
    case one
    then have "full @ [b1] = message" using tl by simp
    with one show ?thesis unfolding e by (simp add: rest_def DecodeBase_encoded [OF f] decode_tail1)
  next
    case zero
    then have fm: "full = message" using tl by simp
    then have "length message = 3 * n" using f by simp
    with zero fm show ?thesis unfolding e by (cases behind) (simp_all add: rest_def DecodeBase_encoded decode_tail1)
  qed
qed

section \<open>Bounds of the table\<close>

lemma decode_value_in: "of_char c < (123 :: nat) \<Longrightarrow> \<exists>v. decode_value c = Inr v"
  by (simp add: decode_value_def decode_table_entries del: upt_Suc)

lemma decode_group_in:
  assumes "\<forall>c \<in> {c0, c1, c2, c3}. of_char c < (123 :: nat)"
  shows "\<exists>bs. decode_group c0 c1 c2 c3 = Inr bs"
proof -
  obtain v0 v1 v2 v3 where "decode_value c0 = Inr v0" "decode_value c1 = Inr v1" "decode_value c2 = Inr v2" "decode_value c3 = Inr v3"
    using assms decode_value_in by (metis insertCI)
  then show ?thesis by (simp add: decode_group_def Let_def)
qed

lemma next_codes_set: "next_codes n s = (cs, rest) \<Longrightarrow> set cs \<subseteq> set s \<and> set rest \<subseteq> set s"
  by (induction n s arbitrary: cs rest rule: next_codes.induct) (fastforce split: if_split_asm prod.split_asm)+

lemma decode_loop_total:
  "\<forall>c \<in> set s. of_char c < (123 :: nat) \<Longrightarrow> \<exists>bs. decode_loop s acc = Inr bs"
proof (induction s acc rule: decode_loop.induct)
  case (1 s acc)
  obtain cs rest where n: "next_codes 4 s = (cs, rest)" by fastforce
  note sub = next_codes_set [OF n]
  show ?case
  proof (cases "\<exists>c0 c1 c2 c3. cs = [c0, c1, c2, c3]")
    case True
    then obtain c0 c1 c2 c3 where cs: "cs = [c0, c1, c2, c3]" by blast
    have "\<forall>c \<in> {c0, c1, c2, c3}. of_char c < (123 :: nat)" using sub cs "1.prems" by auto
    then obtain bs where g: "decode_group c0 c1 c2 c3 = Inr bs" using decode_group_in by blast
    have "\<forall>c \<in> set rest. of_char c < (123 :: nat)" using sub "1.prems" by blast
    with "1.IH" [OF n [symmetric] cs refl refl refl refl, of bs] g cs n show ?thesis
      by (simp add: decode_loop.simps [of s])
  next
    case False
    with n have "decode_loop s acc = Inr acc" by (simp add: decode_loop.simps [of s] split: list.split)
    then show ?thesis by blast
  qed
qed

section \<open>Fields of a form\<close>

lemma str_find_first:
  assumes "occurs_at s d e" "start \<le> e" "\<forall>i. start \<le> i \<and> i < e \<longrightarrow> \<not> occurs_at s d i"
  shows "str_find s d start = Some e"
proof (cases "str_find s d start")
  case None
  moreover have "e \<le> length s" using assms(1) by (simp add: occurs_at_def)
  ultimately show ?thesis using assms(1,2) by (simp add: str_find_None)
next
  case (Some e')
  from str_find_Some [OF this] assms have "\<not> e < e'" "\<not> e' < e" by auto
  with Some show ?thesis by simp
qed

lemma occurs_at_append: "length xs \<le> i \<Longrightarrow> occurs_at (xs @ ys) d i = occurs_at ys d (i - length xs)"
  by (auto simp: occurs_at_def)

lemma occurs_at_nth: "occurs_at s d i \<Longrightarrow> j < length d \<Longrightarrow> i + j < length s \<and> s ! (i + j) = d ! j"
  by (auto simp: occurs_at_def) (metis add.commute nth_drop nth_take le_add2 order.strict_trans2 trans_le_add2 add_leD1)

text \<open>The text of a form, and names and values without its two special characters.\<close>

fun form :: "(string \<times> string) list \<Rightarrow> string" where
  "form [] = []"
| "form [(n, v)] = n @ ''='' @ v"
| "form ((n, v) # f # fs) = n @ ''='' @ v @ ''&'' @ form (f # fs)"

definition clean :: "string \<Rightarrow> bool" where
  "clean s \<longleftrightarrow> CHR ''='' \<notin> set s \<and> CHR ''&'' \<notin> set s"

lemma occurs_in_field:
  assumes "clean n" "clean v" "clean k" "tl' = [] \<or> hd tl' = CHR ''&''"
    and "occurs_at (n @ ''='' @ v @ tl') (k @ ''='') i" "i \<le> length n + 1 + length v"
  shows "i + length k = length n \<and> suffix k n"
proof -
  let ?post = "n @ ''='' @ v @ tl'" and ?key = "k @ ''=''" and ?p = "i + length k" and ?q = "length n + 1 + length v"
  note occ = occurs_at_nth [OF assms(5)]
  have p: "?p < length ?post" "?post ! ?p = CHR ''=''" using occ [of "length k"] by (simp_all add: nth_append)
  have "?p < ?q"
  proof (rule ccontr)
    assume "\<not> ?p < ?q"
    with p(1) have tl: "tl' \<noteq> []" by auto
    then have q: "?post ! ?q = CHR ''&''" using assms(4) by (simp add: nth_append hd_conv_nth)
    have "?key ! (?q - i) = CHR ''&''" using occ [of "?q - i"] assms(6) \<open>\<not> ?p < ?q\<close> q by simp
    moreover have "?q - i \<le> length k" using \<open>\<not> ?p < ?q\<close> by simp
    ultimately show False
      using assms(3) by (cases "?q - i < length k") (auto simp: clean_def nth_append dest: nth_mem [of _ k])
  qed
  then have eq: "?p = length n"
  proof -
    have "\<not> ?p < length n"
    proof
      assume l: "?p < length n"
      then have "n ! ?p = CHR ''=''" using p(2) by (simp only: nth_append if_True)
      with nth_mem [OF l] assms(1) show False by (simp add: clean_def)
    qed
    moreover have "\<not> length n < ?p"
    proof
      assume "length n < ?p"
      with \<open>?p < ?q\<close> have "?post ! ?p = v ! (?p - length n - 1)" "?p - length n - 1 < length v"
        by (auto simp: nth_append nth_Cons' )
      with p(2) assms(2) show False by (auto simp: clean_def)
    qed
    ultimately show ?thesis by simp
  qed
  have "drop i n @ take (length ?key - length (drop i n)) (''='' @ v @ tl') = ?key"
    using assms(5) eq by (simp add: occurs_at_def)
  moreover have "length (drop i n) = length k" using eq by simp
  ultimately have "drop i n = k" by (metis append_eq_append_conv)
  then have "suffix k n" by (metis suffix_drop)
  with eq show ?thesis by simp
qed

lemma get_data_first:
  assumes "clean n" "clean v" "clean k" "tl' = [] \<or> hd tl' = CHR ''&''" "suffix k n"
  shows "get_data (n @ ''='' @ v @ tl') k = v"
proof -
  let ?post = "n @ ''='' @ v @ tl'"
  obtain m where n: "n = m @ k" using assms(5) by (auto simp: suffix_def)
  have "occurs_at ?post (k @ ''='') (length m)" by (simp add: occurs_at_def n)
  moreover have "\<not> occurs_at ?post (k @ ''='') i" if "i < length m" for i
    using occurs_in_field [OF assms(1-4), of i] that n by auto
  ultimately have f: "str_find ?post (k @ ''='') 0 = Some (length m)" by (intro str_find_first) auto
  have d: "drop (length m) ?post = k @ ''='' @ v @ tl'" by (simp add: n)
  show ?thesis
  proof (cases "tl' = []")
    case True
    have "str_find (k @ ''='' @ v) ''&'' 0 = None"
      using assms(2,3) by (auto simp: str_find_None occurs_at_single clean_def in_set_conv_nth nth_append nth_Cons' split: if_split_asm)
    with f d True show ?thesis by (simp add: get_data_def n)
  next
    case False
    then obtain r where r: "tl' = CHR ''&'' # r" using assms(4) by (cases tl') auto
    have "str_find (k @ ''='' @ v @ tl') ''&'' 0 = Some (length k + 1 + length v)"
      using assms(2,3) by (intro str_find_first)
        (auto simp: r occurs_at_single clean_def in_set_conv_nth nth_append nth_Cons' split: if_split_asm)
    with f d r show ?thesis by (simp add: get_data_def n)
  qed
qed

lemma get_data_skip:
  assumes "clean n" "clean v" "clean k" "\<not> suffix k n"
  shows "get_data (n @ ''='' @ v @ ''&'' @ rest) k = get_data rest k" "get_data (n @ ''='' @ v) k = []"
proof -
  let ?f = "n @ ''='' @ v @ ''&''"
  have none: "\<not> occurs_at (n @ ''='' @ v @ tl') (k @ ''='') i" if "i \<le> length n + 1 + length v" "tl' = [] \<or> hd tl' = CHR ''&''" for i tl'
    using occurs_in_field [OF assms(1-3) that(2) _ that(1)] assms(4) by blast
  have "\<not> occurs_at (n @ ''='' @ v) (k @ ''='') i" if "i \<le> length (n @ ''='' @ v)" for i
    using none [of i "[]"] that by simp
  then have "str_find (n @ ''='' @ v) (k @ ''='') 0 = None" by (simp add: str_find_None)
  then show "get_data (n @ ''='' @ v) k = []" by (simp add: get_data_def)
  have n2: "\<not> occurs_at (?f @ rest) (k @ ''='') i" if "i < length ?f" for i
    using none [of i "''&'' @ rest"] that by simp
  have sh: "occurs_at (?f @ rest) (k @ ''='') (length ?f + i) = occurs_at rest (k @ ''='') i" for i
    using occurs_at_append [of ?f "length ?f + i" rest "k @ ''=''"] by simp
  have "str_find (?f @ rest) (k @ ''='') 0 = map_option ((+) (length ?f)) (str_find rest (k @ ''='') 0)"
  proof (cases "str_find rest (k @ ''='') 0")
    case None
    have "\<not> occurs_at (?f @ rest) (k @ ''='') i" if "i \<le> length (?f @ rest)" for i
    proof (cases "i < length ?f")
      case False
      then have "i = length ?f + (i - length ?f)" "i - length ?f \<le> length rest" using that by auto
      with sh [of "i - length ?f"] None show ?thesis unfolding str_find_None by (metis le0)
    qed (use n2 in blast)
    then have "str_find (?f @ rest) (k @ ''='') 0 = None" unfolding str_find_None by blast
    with None show ?thesis by (simp only: option.map)
  next
    case (Some e)
    from str_find_Some [OF this] have e: "occurs_at rest (k @ ''='') e" "\<And>i. i < e \<Longrightarrow> \<not> occurs_at rest (k @ ''='') i" by auto
    have "\<not> occurs_at (?f @ rest) (k @ ''='') i" if "i < length ?f + e" for i
    proof (cases "i < length ?f")
      case False
      then have "i = length ?f + (i - length ?f)" "i - length ?f < e" using that by auto
      with sh [of "i - length ?f"] e(2) show ?thesis by metis
    qed (use n2 in blast)
    with e(1) sh [of e] Some show ?thesis by (simp add: str_find_first)
  qed
  then have sf: "str_find (n @ ''='' @ v @ ''&'' @ rest) (k @ ''='') 0 = map_option ((+) (length ?f)) (str_find rest (k @ ''='') 0)"
    by (simp only: append_assoc)
  have dr: "drop (length ?f + m) (n @ ''='' @ v @ ''&'' @ rest) = drop m rest" for m
    using drop_append [of "length ?f + m" ?f rest] by simp
  show "get_data (n @ ''='' @ v @ ''&'' @ rest) k = get_data rest k"
    by (cases "str_find rest (k @ ''='') 0")
      (simp_all only: get_data_def Let_def sf option.map option.case add.assoc dr)
qed

lemma form_Cons: "\<exists>tl'. form ((n, v) # fs) = n @ ''='' @ v @ tl' \<and> (tl' = [] \<or> hd tl' = CHR ''&'')"
  by (cases fs) auto

lemma get_data_fields:
  assumes "clean k" "\<forall>(n, v) \<in> set fs. clean n \<and> clean v"
  shows "get_data (form fs) k = (case List.find (\<lambda>(n, v). suffix k n) fs of None \<Rightarrow> [] | Some (n, v) \<Rightarrow> v)"
  using assms(2)
proof (induction fs)
  case Nil
  have "str_find [] (k @ ''='') 0 = None" by (simp add: str_find_None occurs_at_def)
  then show ?case by (simp add: get_data_def)
next
  case (Cons f fs)
  obtain n v where f: "f = (n, v)" by fastforce
  have c: "clean n" "clean v" using Cons.prems by (auto simp: f)
  show ?case
  proof (cases "suffix k n")
    case True
    obtain tl' where "form (f # fs) = n @ ''='' @ v @ tl'" "tl' = [] \<or> hd tl' = CHR ''&''" using form_Cons f by metis
    with get_data_first [OF c assms(1) _ True] True show ?thesis by (simp add: f)
  next
    case False
    with get_data_skip [OF c assms(1) False] Cons f show ?thesis by (cases fs) auto
  qed
qed

section \<open>Percent decoding\<close>

definition hex_digit :: "nat \<Rightarrow> char" where
  "hex_digit n = char_of (if n < 10 then n + 48 else n + 55)"

text \<open>A text with the characters chosen by \<open>esc\<close>, and every percent sign, escaped.\<close>

definition percent_encode :: "(char \<Rightarrow> bool) \<Rightarrow> string \<Rightarrow> string" where
  "percent_encode esc s =
     concat (map (\<lambda>c. if c = CHR ''%'' \<or> esc c then [CHR ''%'', hex_digit (of_char c div 16), hex_digit (of_char c mod 16)] else [c]) s)"

lemma Char_dec_hex: "n < 16 \<Longrightarrow> Char_dec (hex_digit n) = int n"
proof -
  assume "n < 16"
  moreover have "\<forall>n \<in> set [0..<16]. Char_dec (hex_digit n) = int n" by code_simp
  ultimately show ?thesis by simp
qed

lemma deData_escape:
  "deData (CHR ''%'' # hex_digit (of_char c div 16) # hex_digit (of_char c mod 16) # rest) = rbind (deData rest) (\<lambda>r. Inr (c # r))"
proof -
  have "of_char c div 16 < (16 :: nat)" by (rule less_mult_imp_div_less) simp
  then have h: "Char_dec (hex_digit (of_char c div 16)) = int (of_char c div 16)" "Char_dec (hex_digit (of_char c mod 16)) = int (of_char c mod 16)"
    by (simp_all add: Char_dec_hex)
  have "int (of_char c div 16) * 16 + int (of_char c mod 16) = int (of_char c)"
    by (metis div_mult_mod_eq of_nat_add of_nat_mult of_nat_numeral)
  then have "int (of_char c div 16) * 16 + int (of_char c mod 16) = of_char c" by (simp add: of_nat_of_char)
  then have "char_of (int (of_char c div 16) * 16 + int (of_char c mod 16)) = c" by simp
  with h show ?thesis by simp
qed

lemma deData_percent_encode: "deData (percent_encode esc s) = Inr s"
proof (induction s)
  case (Cons c s)
  then show ?case
  proof (cases "c = CHR ''%'' \<or> esc c")
    case True
    then have "percent_encode esc (c # s) = CHR ''%'' # hex_digit (of_char c div 16) # hex_digit (of_char c mod 16) # percent_encode esc s"
      by (simp add: percent_encode_def)
    with Cons show ?thesis by (simp only: deData_escape rbind_Inr)
  next
    case False
    with Cons show ?thesis by (simp add: percent_encode_def)
  qed
qed (simp add: percent_encode_def)

text \<open>A percent sign at the end of the text makes it read behind the string.\<close>

lemma deData_trailing_percent: "CHR ''%'' \<notin> set s \<Longrightarrow> deData (s @ ''%'') = Inl Undefined"
  by (induction s) auto

section \<open>Properties of the forms\<close>

definition separator :: "char \<Rightarrow> bool" where
  "separator c \<longleftrightarrow> c = CHR ''='' \<or> c = CHR ''&''"

lemma clean_percent_encode: "clean (percent_encode separator s)"
proof -
  have "\<forall>n \<in> set [0..<16]. \<not> separator (hex_digit n)" by code_simp
  moreover have "of_char c div 16 < (16 :: nat)" for c by (rule less_mult_imp_div_less) simp
  ultimately have "\<not> separator (hex_digit (of_char c div 16))" "\<not> separator (hex_digit (of_char c mod 16))" for c by simp_all
  moreover have "\<not> separator (CHR ''%'')" by code_simp
  ultimately have "\<forall>c \<in> set (percent_encode separator s). \<not> separator c"
    by (auto simp: percent_encode_def split: if_split_asm)
  then show ?thesis by (auto simp: clean_def separator_def)
qed

text \<open>
  A field of a form is found by its name: of a form whose values were escaped, whatever they
  hold, \<^verbatim>\<open>get_data\<close> and percent decoding return the value of the first field whose name ends with
  the given one, so of the field itself if no earlier name ends with it, and nothing if there is
  no such field.
\<close>

theorem get_data_form:
  assumes "clean name" "\<forall>(n, v) \<in> set fields. clean n"
  shows "deData (get_data (form (map (\<lambda>(n, v). (n, percent_encode separator v)) fields)) name) =
    Inr (case List.find (\<lambda>(n, v). suffix name n) fields of None \<Rightarrow> [] | Some (n, v) \<Rightarrow> v)"
proof -
  let ?fs = "map (\<lambda>(n, v). (n, percent_encode separator v)) fields"
  have "\<forall>(n, v) \<in> set ?fs. clean n \<and> clean v" using assms(2) clean_percent_encode by auto
  note g = get_data_fields [OF assms(1) this]
  have "List.find (\<lambda>(n, v). suffix name n) ?fs =
      map_option (\<lambda>(n, v). (n, percent_encode separator v)) (List.find (\<lambda>(n, v). suffix name n) fields)"
    by (induction fields) auto
  then show ?thesis unfolding g
    by (cases "List.find (\<lambda>(n, v). suffix name n) fields") (auto simp: deData_percent_encode)
qed

theorem get_data_form_witness:
  "deData (get_data (form (map (\<lambda>(n, v). (n, percent_encode separator v)) [(''no_local'', ''1''), (''local'', ''0'')])) ''local'') = Inr ''1''"
proof -
  have c: "clean ''local''" "clean ''no_local''" by code_simp+
  have "suffix ''local'' ''no_local''" by (simp add: suffix_def)
  with get_data_form [of "''local''" "[(''no_local'', ''1''), (''local'', ''0'')]"] c
  show ?thesis by simp
qed

text \<open>
  Decoding a text never reads outside its table if the text has no character behind the letter
  \<^verbatim>\<open>z\<close>: it always returns.
\<close>

theorem DecodeBase_in_table:
  assumes "\<forall>c \<in> set s. of_char c < (123 :: nat)"
  shows "\<exists>bs. DecodeBase s = Inr bs"
  unfolding DecodeBase_def by (rule decode_loop_total [OF assms])

theorem DecodeBase_in_table_witness: "\<exists>bs. DecodeBase ''AbC/=='' = Inr bs"
proof -
  have "\<forall>c \<in> set ''AbC/==''. of_char c < (123 :: nat)" by code_simp
  then show ?thesis by (rule DecodeBase_in_table)
qed

lemma DecodeBase_reads_behind_table: "DecodeBase ''~AAA'' = Inl Undefined"
  by code_simp

end
