(* ===== verification/InferenceBackend.thy ===== *)
theory InferenceBackend
  imports Policy
begin

text \<open>
  The registry of inference engines: \<^verbatim>\<open>irt_inference_engine.cpp\<close> reads which shared library serves
  which engine and loads a library when its engine is first asked for, through
  \<^verbatim>\<open>shared_lib_load.cpp\<close>, \<^verbatim>\<open>shared_lib_pointer.hpp\<close> and \<^verbatim>\<open>infer_entity.hpp\<close>. The dynamic loader is
  a parameter, a function from file names to libraries, and so is what a library computes: its
  functions take the state of the outside world and return the changed one.
\<close>

section \<open>Libraries and entities\<close>

type_synonym floats = "cfloat list list"

type_synonym blobs = "(string \<times> u64 list) list"

record model_params =
  modelXmlFile :: string
  needReshape :: bool
  aspectRatio :: cfloat
  stride :: int

record mock_data =
  inputBlobsInfo :: blobs
  outputBlobsInfo :: blobs
  layout :: "8 word"

text \<open>The inputs, the assistant inputs and the results of a call, all passed by reference.\<close>

type_synonym 'img image_io = "'img list list \<times> floats \<times> floats"
type_synonym common_io = "floats \<times> floats \<times> floats"
type_synonym 'img frame_io = "'img \<times> floats \<times> floats"

text \<open>An object of a class that implements \<^verbatim>\<open>IInfer_entity\<close>; images are values of \<^typ>\<open>'img\<close>, the world of \<^typ>\<open>'w\<close>.\<close>

record ('img, 'w) iinfer_entity =
  ie_infer_image :: "'img image_io \<Rightarrow> string \<Rightarrow> string \<Rightarrow> 'w \<Rightarrow> int \<times> 'img image_io \<times> 'w"
  ie_infer_speech :: "16 word list \<Rightarrow> int \<Rightarrow> int \<Rightarrow> string \<Rightarrow> string \<Rightarrow> string \<Rightarrow> 'w \<Rightarrow> int \<times> string \<times> 'w"
  ie_infer_common :: "common_io \<Rightarrow> string \<Rightarrow> string \<Rightarrow> 'w \<Rightarrow> int \<times> common_io \<times> 'w"
  ie_video_infer_init :: "model_params \<Rightarrow> string \<Rightarrow> mock_data \<Rightarrow> 'w \<Rightarrow> int \<times> model_params \<times> mock_data \<times> 'w"
  ie_video_infer_frame :: "'img frame_io \<Rightarrow> string \<Rightarrow> 'w \<Rightarrow> int \<times> 'img frame_io \<times> 'w"

text \<open>
  A library: what \<^verbatim>\<open>CreatInferenceEntity\<close> creates and the functions that are looked up by name, each
  only if the library has the symbol.
\<close>

record ('img, 'w) so_library =
  so_CreatInferenceEntity :: "('img, 'w) iinfer_entity option"
  so_simulate_lib_init ::
    "(('img, 'w) iinfer_entity option \<Rightarrow> string \<Rightarrow> 32 word \<Rightarrow> string \<Rightarrow> 32 word \<Rightarrow> blobs \<Rightarrow> blobs \<Rightarrow> 'w \<Rightarrow>
      int \<times> 32 word \<times> blobs \<times> blobs \<times> 'w) option"
  so_simulate_lib_infer ::
    "(('img, 'w) iinfer_entity option \<Rightarrow> string \<Rightarrow> string \<Rightarrow> string \<Rightarrow> 'w \<Rightarrow> int \<times> string \<times> 'w) option"
  so_init_from_buffer ::
    "(('img, 'w) iinfer_entity option \<Rightarrow> string \<Rightarrow> string \<Rightarrow> string \<Rightarrow> string \<Rightarrow> int \<Rightarrow> bool \<Rightarrow> 'w \<Rightarrow> int \<times> 'w) option"

type_synonym ('img, 'w) loader = "string \<Rightarrow> ('img, 'w) so_library option"

text \<open>\<^verbatim>\<open>SharedLibPointer\<close>: the library, if it could be opened, and the object it created.\<close>

record ('img, 'w) inference_entity =
  ent_so :: "('img, 'w) so_library option"
  ent_ptr :: "('img, 'w) iinfer_entity option"

definition loadSo :: "('img, 'w) loader \<Rightarrow> string \<Rightarrow> ('img, 'w) inference_entity" where
  "loadSo loader soName =
     (let so = loader soName
      in \<lparr>ent_so = so, ent_ptr = (case so of None \<Rightarrow> None | Some l \<Rightarrow> so_CreatInferenceEntity l)\<rparr>)"

text \<open>\<^verbatim>\<open>findSymbol\<close> for a symbol given by its selector.\<close>

definition findSymbol :: "(('img, 'w) so_library \<Rightarrow> 'f option) \<Rightarrow> ('img, 'w) inference_entity \<Rightarrow> 'f option" where
  "findSymbol symbol e = (case ent_so e of None \<Rightarrow> None | Some l \<Rightarrow> symbol l)"

definition infer_image ::
  "('img, 'w) inference_entity \<Rightarrow> 'img image_io \<Rightarrow> string \<Rightarrow> string \<Rightarrow> 'w \<Rightarrow> int \<times> 'img image_io \<times> 'w" where
  "infer_image e io model device w =
     (case ent_ptr e of None \<Rightarrow> (- 1, io, w) | Some p \<Rightarrow> ie_infer_image p io model device w)"

definition infer_speech ::
  "('img, 'w) inference_entity \<Rightarrow> 16 word list \<Rightarrow> int \<Rightarrow> int \<Rightarrow> string \<Rightarrow> string \<Rightarrow> string \<Rightarrow> 'w \<Rightarrow> int \<times> string \<times> 'w" where
  "infer_speech e samples sampleLength bytesPerSample config_path device transcription w =
     (case ent_ptr e of None \<Rightarrow> (- 1, transcription, w)
      | Some p \<Rightarrow> ie_infer_speech p samples sampleLength bytesPerSample config_path device transcription w)"

definition infer_common ::
  "('img, 'w) inference_entity \<Rightarrow> common_io \<Rightarrow> string \<Rightarrow> string \<Rightarrow> 'w \<Rightarrow> int \<times> common_io \<times> 'w" where
  "infer_common e io model device w =
     (case ent_ptr e of None \<Rightarrow> (- 1, io, w) | Some p \<Rightarrow> ie_infer_common p io model device w)"

definition video_infer_init ::
  "('img, 'w) inference_entity \<Rightarrow> model_params \<Rightarrow> string \<Rightarrow> mock_data \<Rightarrow> 'w \<Rightarrow> int \<times> model_params \<times> mock_data \<times> 'w" where
  "video_infer_init e model device info w =
     (case ent_ptr e of None \<Rightarrow> (- 1, model, info, w) | Some p \<Rightarrow> ie_video_infer_init p model device info w)"

definition video_infer_frame ::
  "('img, 'w) inference_entity \<Rightarrow> 'img frame_io \<Rightarrow> string \<Rightarrow> 'w \<Rightarrow> int \<times> 'img frame_io \<times> 'w" where
  "video_infer_frame e io model w =
     (case ent_ptr e of None \<Rightarrow> (- 1, io, w) | Some p \<Rightarrow> ie_video_infer_frame p io model w)"

section \<open>The registry\<close>

record ('img, 'w) irt_inference_backend =
  soLibraries :: "string \<rightharpoonup> string"
  backendEntities :: "string \<rightharpoonup> ('img, 'w) inference_entity"

definition getPath :: "string \<Rightarrow> string" where
  "getPath s =
     (if s = [] then []
      else if CHR ''/'' \<in> set s then rev (drop 1 (dropWhile (\<lambda>c. c \<noteq> CHR ''/'') (rev s)))
      else ''.'')"

text \<open>\<^verbatim>\<open>getSoPath\<close>: the file name \<^verbatim>\<open>dladdr\<close> reports, if it finds the symbol.\<close>

definition getSoPath :: "string option \<Rightarrow> string" where
  "getSoPath dli_fname = (case dli_fname of None \<Rightarrow> [] | Some f \<Rightarrow> getPath f)"

fun parse_libraries :: "string \<Rightarrow> string list \<Rightarrow> (string \<rightharpoonup> string) \<Rightarrow> int \<times> (string \<rightharpoonup> string)" where
  "parse_libraries path [] m = (0, m)"
| "parse_libraries path (raw # ls) m =
     (let line = ltrim raw
      in if line = [] \<or> is_comment line then parse_libraries path ls m
         else if \<not> is_ascii line then (- 1, m)
         else if CHR '' '' \<notin> set line then (- 1, m)
         else
           (let param_name = takeWhile (\<lambda>c. c \<noteq> CHR '' '') line;
                line1 = ltrim (dropWhile (\<lambda>c. c \<noteq> CHR '' '') line);
                param_value = takeWhile (\<lambda>c. c \<noteq> CHR '' '') line1
            in if param_name = [] then (- 1, m)
               else parse_libraries path ls (m(param_name \<mapsto> path @ ''/'' @ param_value))))"

text \<open>Which file is read; \<open>None\<close> if there is none.\<close>

definition config_file :: "os_state \<Rightarrow> string \<Rightarrow> string \<Rightarrow> string option" where
  "config_file os path soConfigFile =
     (if soConfigFile \<noteq> [] then Some soConfigFile
      else if os_files os ''/etc/inference_engine_library.txt'' \<noteq> None then Some ''/etc/inference_engine_library.txt''
      else if os_files os (path @ ''/inference_engine_library.txt'') \<noteq> None then Some (path @ ''/inference_engine_library.txt'')
      else None)"

definition parseConfigFile ::
  "os_state \<Rightarrow> string option \<Rightarrow> string \<Rightarrow> ('img, 'w) irt_inference_backend \<Rightarrow> int \<times> ('img, 'w) irt_inference_backend" where
  "parseConfigFile os dli_fname soConfigFile b =
     (let path = getSoPath dli_fname
      in if path = [] then (- 1, b)
         else
           (case config_file os path soConfigFile of
              None \<Rightarrow> (- 1, b)
            | Some listSoFile \<Rightarrow>
                (case os_files os listSoFile of
                   None \<Rightarrow> (- 1, b)
                 | Some fi \<Rightarrow>
                     if \<not> fi_readable fi then (- 1, b)
                     else (case parse_libraries path (lines_of (fi_content fi)) (soLibraries b) of
                             (ret, m) \<Rightarrow> (ret, b\<lparr>soLibraries := m\<rparr>)))))"

definition irt_backend :: "os_state \<Rightarrow> string option \<Rightarrow> string \<Rightarrow> ('img, 'w) irt_inference_backend" where
  "irt_backend os dli_fname soConfigFile =
     snd (parseConfigFile os dli_fname soConfigFile \<lparr>soLibraries = Map.empty, backendEntities = Map.empty\<rparr>)"

definition getInferenceEntity ::
  "('img, 'w) loader \<Rightarrow> string \<Rightarrow> ('img, 'w) irt_inference_backend \<Rightarrow>
     ('img, 'w) inference_entity option \<times> ('img, 'w) irt_inference_backend" where
  "getInferenceEntity loader backend b =
     (case soLibraries b backend of
        None \<Rightarrow> (None, b)
      | Some soFile \<Rightarrow>
          (case backendEntities b backend of
             Some e \<Rightarrow> (Some e, b)
           | None \<Rightarrow>
               (let entity = loadSo loader soFile
                in (Some entity, b\<lparr>backendEntities := (backendEntities b)(backend \<mapsto> entity)\<rparr>))))"

section \<open>Reading the list of libraries\<close>

text \<open>How the list is written: one engine a line, name and file name separated by spaces.\<close>

definition print_libraries :: "(string \<times> nat \<times> string) list \<Rightarrow> string" where
  "print_libraries es =
     concat (map (\<lambda>l. l @ [CHR 0x0A]) (map (\<lambda>(name, n, val). name @ replicate (Suc n) (CHR '' '') @ val) es))"

definition engine_name :: "string \<Rightarrow> bool" where
  "engine_name s \<longleftrightarrow> word_value s \<and> \<not> is_comment s"

lemma takeWhile_field: "sep \<notin> set f \<Longrightarrow> takeWhile (\<lambda>c. c \<noteq> sep) (f @ sep # rest) = f"
  and dropWhile_field: "sep \<notin> set f \<Longrightarrow> dropWhile (\<lambda>c. c \<noteq> sep) (f @ sep # rest) = sep # rest"
  by (induction f) auto

lemma takeWhile_no_sep: "sep \<notin> set f \<Longrightarrow> takeWhile (\<lambda>c. c \<noteq> sep) f = f"
  by (induction f) auto

lemma word_value_hd: "word_value s \<Longrightarrow> \<not> isspace (hd s)"
  by (cases s) (auto simp: word_value_def)

lemma ltrim_spaces: "word_value v \<Longrightarrow> ltrim (replicate n (CHR '' '') @ v) = v"
proof (induction n)
  case 0
  then show ?case using ltrim_solid word_value_hd by (cases v) auto
next
  case (Suc n)
  have "isspace (CHR '' '')" by code_simp
  with Suc show ?case by (simp add: ltrim_def)
qed

lemma parse_libraries_line:
  assumes "engine_name name" "word_value val"
  shows "parse_libraries path ((name @ replicate (Suc n) (CHR '' '') @ val) # ls) m =
    parse_libraries path ls (m(name \<mapsto> path @ ''/'' @ val))"
proof -
  let ?line = "name @ replicate (Suc n) (CHR '' '') @ val"
  have w: "word_value name" "\<not> is_comment name" using assms(1) by (simp_all add: engine_name_def)
  note nm = word_valueD [OF w(1)] and v = word_valueD [OF assms(2)]
  have lt: "ltrim ?line = ?line" using nm(1) word_value_hd [OF w(1)] by (intro ltrim_solid) (cases name; simp)
  have c: "\<not> is_comment ?line" using w(2) nm(1) by (cases name) (auto simp: is_comment_def)
  have "is_ascii [CHR '' '']" by code_simp
  then have a: "is_ascii ?line" using nm(2) v(2) by (auto simp: is_ascii_def list_all_iff)
  have f: "takeWhile (\<lambda>c. c \<noteq> CHR '' '') ?line = name" "dropWhile (\<lambda>c. c \<noteq> CHR '' '') ?line = replicate (Suc n) (CHR '' '') @ val"
    using nm(3) by (simp_all add: takeWhile_field dropWhile_field)
  have g: "ltrim (replicate (Suc n) (CHR '' '') @ val) = val" by (rule ltrim_spaces [OF assms(2)])
  have "?line \<noteq> []" "CHR '' '' \<in> set ?line" by simp_all
  then show ?thesis using nm(1) v(3)
    by (simp only: parse_libraries.simps lt Let_def c a f g takeWhile_no_sep simp_thms if_False if_True)
qed

lemma parse_libraries_print:
  assumes "\<forall>(name, n, val) \<in> set es. engine_name name \<and> word_value val"
  shows "parse_libraries path (lines_of (print_libraries es)) m =
    (0, m ++ map_of (rev (map (\<lambda>(name, n, val). (name, path @ ''/'' @ val)) es)))"
proof -
  let ?f = "\<lambda>(name, n, val). name @ replicate (Suc n) (CHR '' '') @ val"
  have "list_all (\<lambda>l. CHR 0x0A \<notin> set l) (map ?f es)"
    using assms by (fastforce simp: list_all_iff engine_name_def dest: word_valueD(4))
  then have l: "lines_of (print_libraries es) = map ?f es" unfolding print_libraries_def by (rule lines_of_join)
  have "parse_libraries path (map ?f es) m = (0, m ++ map_of (rev (map (\<lambda>(name, n, val). (name, path @ ''/'' @ val)) es)))"
    using assms
  proof (induction es arbitrary: m)
    case (Cons e es)
    obtain name n val where e: "e = (name, n, val)" by (metis prod_cases3)
    from Cons.prems have w: "engine_name name" "word_value val" by (auto simp: e)
    have "m(name \<mapsto> path @ ''/'' @ val) ++ X = m ++ ([name \<mapsto> path @ ''/'' @ val] ++ X)" for X by (simp add: map_add_upd_left)
    with Cons.IH Cons.prems show ?case
      by (simp add: e parse_libraries_line [OF w, simplified] map_add_assoc)
  qed simp
  then show ?thesis by (simp add: l)
qed

section \<open>Requests\<close>

text \<open>
  What the callers rely on: a provider that, once it has handed out a value for a key, hands out
  the same one for ever. The context of a request, here the loader, may change.
\<close>

locale keyed_cache =
  fixes request :: "'c \<Rightarrow> 'k \<Rightarrow> 's \<Rightarrow> 'v option \<times> 's"
    and held :: "'s \<Rightarrow> 'k \<Rightarrow> 'v option"
  assumes hit: "held s k = Some v \<Longrightarrow> request c k s = (Some v, s)"
    and filled: "request c k s = (Some v, s') \<Longrightarrow> held s' k = Some v"
    and kept: "held s k = Some v \<Longrightarrow> held (snd (request c k' s)) k = Some v"
begin

text \<open>The state after a sequence of requests.\<close>

definition after_requests :: "('c \<times> 'k) list \<Rightarrow> 's \<Rightarrow> 's" where
  "after_requests rs s = fold (\<lambda>(c, k) s. snd (request c k s)) rs s"

lemma held_after: "held s k = Some v \<Longrightarrow> held (after_requests rs s) k = Some v"
  unfolding after_requests_def by (induction rs arbitrary: s) (auto simp: kept)

lemma same_value: "request c k s = (Some v, s') \<Longrightarrow> request c2 k (after_requests rs s') = (Some v, after_requests rs s')"
  by (blast intro: hit held_after filled)

end

text \<open>An entity counts as held only while its engine is registered.\<close>

definition entity_held :: "('img, 'w) irt_inference_backend \<Rightarrow> string \<Rightarrow> ('img, 'w) inference_entity option" where
  "entity_held b engine = (if soLibraries b engine = None then None else backendEntities b engine)"

interpretation registry: keyed_cache getInferenceEntity entity_held
  by unfold_locales
    (auto simp: getInferenceEntity_def entity_held_def Let_def split: option.splits if_split_asm)

text \<open>A sequence of requests for engines, each with the loader of its time.\<close>

fun requests ::
  "(('img, 'w) loader \<times> string) list \<Rightarrow> ('img, 'w) irt_inference_backend \<Rightarrow> ('img, 'w) irt_inference_backend" where
  "requests [] b = b"
| "requests ((loader, engine) # rs) b = requests rs (snd (getInferenceEntity loader engine b))"

lemma requests_after: "requests rs b = registry.after_requests rs b"
  by (induction rs b rule: requests.induct) (simp_all add: registry.after_requests_def)

section \<open>Properties\<close>

text \<open>
  A list of engines is read back as it was written: after the constructor has read a file with
  one engine a line, exactly the listed engines are registered, each with the file of its last
  line in the directory of the runtime library, and a request for any other engine is refused.
\<close>

theorem irt_backend_registers:
  fixes b :: "('img, 'w) irt_inference_backend"
  assumes "os_files os cfg = Some fi" "fi_readable fi" "fi_content fi = print_libraries es" "cfg \<noteq> []"
    and "\<forall>(name, n, val) \<in> set es. engine_name name \<and> word_value val"
    and "b = irt_backend os (Some (dir @ ''/'' @ lib)) cfg" "dir \<noteq> []" "CHR ''/'' \<notin> set lib"
  shows "soLibraries b = map_of (rev (map (\<lambda>(name, n, val). (name, dir @ ''/'' @ val)) es)) \<and>
    (\<forall>loader engine. engine \<notin> fst ` set es \<longrightarrow> getInferenceEntity loader engine b = (None, b))"
proof -
  have path: "getSoPath (Some (dir @ ''/'' @ lib)) = dir"
    using assms(7) dropWhile_field [of "CHR ''/''" "rev lib" "rev dir"] assms(8) by (simp add: getSoPath_def getPath_def)
  have m: "soLibraries b = map_of (rev (map (\<lambda>(name, n, val). (name, dir @ ''/'' @ val)) es))"
    using parse_libraries_print [OF assms(5), of dir Map.empty] assms(1-4,7)
    unfolding assms(6) irt_backend_def parseConfigFile_def path by (simp add: config_file_def)
  have "soLibraries b engine = None" if "engine \<notin> fst ` set es" for engine
    using that unfolding m map_of_eq_None_iff by force
  with m show ?thesis by (simp add: getInferenceEntity_def)
qed

definition library_os :: os_state where
  "library_os = \<lparr>os_files = (\<lambda>f. if f = ''list'' then Some \<lparr>fi_content = print_libraries
       [(''OPENVINO'', 0, ''old.so''), (''PYTORCH'', 2, ''torch.so''), (''OPENVINO'', 1, ''vino.so'')],
     fi_readable = True, fi_mtime = 7, fi_stat = (0, 0, 0), fi_lstat = (0, 0, 0)\<rparr> else None),
     os_key_ok = True, os_shmid = 4, os_shm = Some zero_memory, os_attach_ok = True\<rparr>"

theorem irt_backend_registers_witness:
  "soLibraries (irt_backend library_os (Some ''/opt/lib/libruntime.so'') ''list'' :: (nat, nat) irt_inference_backend) ''OPENVINO'' =
     Some ''/opt/lib/vino.so''"
proof -
  have "engine_name ''OPENVINO''" "engine_name ''PYTORCH''" "word_value ''old.so''" "word_value ''torch.so''" "word_value ''vino.so''"
    by code_simp+
  with irt_backend_registers [of library_os "''list''" _
      "[(''OPENVINO'', 0, ''old.so''), (''PYTORCH'', 2, ''torch.so''), (''OPENVINO'', 1, ''vino.so'')]"
      "irt_backend library_os (Some ''/opt/lib/libruntime.so'') ''list'' :: (nat, nat) irt_inference_backend" "''/opt/lib''" "''libruntime.so''"]
  show ?thesis by (simp add: library_os_def)
qed

text \<open>
  The library of an engine is loaded once: whatever engines are asked for afterwards, and
  whatever the loader would then return, the same entity is handed out again.
\<close>

theorem getInferenceEntity_once:
  assumes "getInferenceEntity loader engine b = (Some e, b')"
  shows "getInferenceEntity loader2 engine (requests rs b') = (Some e, requests rs b')"
  unfolding requests_after by (rule registry.same_value [OF assms])

theorem getInferenceEntity_once_witness:
  "\<exists>b e. getInferenceEntity (\<lambda>_. None) ''A'' (requests [((\<lambda>_. None), ''B'')] b) = (Some e, b) \<and>
     b = \<lparr>soLibraries = [''A'' \<mapsto> ''a.so''], backendEntities = [''A'' \<mapsto> (e :: (nat, nat) inference_entity)]\<rparr>"
proof -
  let ?e = "loadSo (\<lambda>_. None) ''a.so'' :: (nat, nat) inference_entity"
  let ?b = "\<lparr>soLibraries = [''A'' \<mapsto> ''a.so''], backendEntities = [''A'' \<mapsto> ?e]\<rparr>"
  have "getInferenceEntity (\<lambda>_. None) ''A'' \<lparr>soLibraries = [''A'' \<mapsto> ''a.so''], backendEntities = Map.empty\<rparr> = (Some ?e, ?b)"
    by (simp add: getInferenceEntity_def Let_def)
  from getInferenceEntity_once [OF this, of "\<lambda>_. None" "[((\<lambda>_. None), ''B'')]"]
  have "getInferenceEntity (\<lambda>_. None) ''A'' (requests [((\<lambda>_. None), ''B'')] ?b) = (Some ?e, ?b)"
    by (simp add: getInferenceEntity_def)
  then show ?thesis by blast
qed

end
