(* ===== verification/InferencePipe.thy ===== *)
theory InferencePipe
  imports InferenceBackend
begin

text \<open>
  The programming interface of the inference runtime, \<^verbatim>\<open>vino_ie_pipe.cpp\<close>: every call wakes the
  policy daemon, reads the shared segment, and either posts the request to a server
  (\<^verbatim>\<open>connect_server.cpp\<close>) or asks an engine of the registry to compute it on a device. The network
  library is a parameter like the dynamic loader. Log messages and timings are left out.
\<close>

section \<open>State\<close>

record server_params =
  url :: string
  urlParam :: string
  response :: string

record user_cfg_params =
  isLocalInference :: bool
  inferDevice :: string

text \<open>
  The global variables with the operating system, the world outside and the processes that were
  sent \<^verbatim>\<open>SIGUSR1\<close>.
\<close>

record ('img, 'w) irt_state =
  st_os :: os_state
  gIrtInf :: "('img, 'w) irt_inference_backend"
  gIrtTempInferDevice :: "string \<rightharpoonup> string"
  st_world :: 'w
  st_signals :: "int list"

text \<open>
  What is linked in: the loader, and \<^verbatim>\<open>curl_easy_perform\<close> for a POST request, which yields a return
  code and the pieces handed to the write callback; \<open>None\<close> if \<^verbatim>\<open>curl_easy_init\<close> fails.
\<close>

record ('img, 'w) irt_env =
  env_loader :: "('img, 'w) loader"
  env_curl :: "string \<Rightarrow> string \<Rightarrow> 'w \<Rightarrow> (int \<times> string list \<times> 'w) option"

definition RT_REMOTE_INFER_OK :: int where
  "RT_REMOTE_INFER_OK = 1"

definition RT_LOCAL_INFER_OK :: int where
  "RT_LOCAL_INFER_OK = 0"

definition RT_INFER_ERROR :: int where
  "RT_INFER_ERROR = - 1"

section \<open>The server\<close>

definition req_reply :: "string \<Rightarrow> string \<Rightarrow> string" where
  "req_reply piece str = str @ piece"

definition curl_post_req :: "('img, 'w) irt_env \<Rightarrow> string \<Rightarrow> string \<Rightarrow> string \<Rightarrow> 'w \<Rightarrow> int \<times> string \<times> 'w" where
  "curl_post_req env address postParams reply w =
     (case env_curl env address postParams w of
        None \<Rightarrow> (0, reply, w)
      | Some (res, pieces, w') \<Rightarrow> (res, fold req_reply pieces reply, w'))"

text \<open>\<^verbatim>\<open>HttpPost\<close>; its argument \<^verbatim>\<open>param\<close> is never null here.\<close>

definition HttpPost :: "('img, 'w) irt_env \<Rightarrow> string \<Rightarrow> string \<Rightarrow> string \<Rightarrow> 'w \<Rightarrow> int \<times> string \<times> 'w" where
  "HttpPost env address param reply w =
     (case curl_post_req env address param reply w of (res, reply', w') \<Rightarrow> (if res \<noteq> 0 then - 1 else 1, reply', w'))"

definition send_to_server ::
  "('img, 'w) irt_env \<Rightarrow> server_params \<Rightarrow> ('img, 'w) irt_state \<Rightarrow> int \<times> server_params \<times> ('img, 'w) irt_state" where
  "send_to_server env server st =
     (case HttpPost env (url server) (urlParam server) (response server) (st_world st) of
        (res, reply, w) \<Rightarrow>
          (if res = - 1 then RT_INFER_ERROR else RT_REMOTE_INFER_OK, server\<lparr>response := reply\<rparr>, st\<lparr>st_world := w\<rparr>))"

section \<open>The policy\<close>

definition wake_daemon :: "('img, 'w) irt_state \<Rightarrow> ('img, 'w) irt_state result" where
  "wake_daemon st =
     rbind (WakeupDaemon (st_os st)) (\<lambda>(os, ret, pid).
       Inr (st\<lparr>st_os := os, st_signals := st_signals st @ (case pid of None \<Rightarrow> [] | Some p \<Rightarrow> [p])\<rparr>))"

text \<open>The beginning of most calls: wake the daemon and read the parameters, starting from defaults.\<close>

definition check_policy :: "('img, 'w) irt_state \<Rightarrow> (cfg_params \<times> xpu_status \<times> ('img, 'w) irt_state) result" where
  "check_policy st =
     rbind (wake_daemon st) (\<lambda>st1.
     rbind (ReadShareMemory (st_os st1) default_params \<lparr>CPUBusy = False, GPUBusy = False\<rparr>) (\<lambda>(os, ret, policyParams, isXpuBusy).
       Inr (policyParams, isXpuBusy, st1\<lparr>st_os := os\<rparr>)))"

definition to_server :: "cfg_params \<Rightarrow> xpu_status \<Rightarrow> server_params \<Rightarrow> bool" where
  "to_server policyParams isXpuBusy server \<longleftrightarrow>
     OffloadToServer policyParams \<and> url server \<noteq> [] \<and> (\<not> OffloadToLocal policyParams \<or> CPUBusy isXpuBusy)"

text \<open>The part all inference calls share: offload, or go on with the local computation.\<close>

definition offload_or ::
  "('img, 'w) irt_env \<Rightarrow> server_params \<Rightarrow> 'io \<Rightarrow> ('img, 'w) irt_state \<Rightarrow>
     (cfg_params \<Rightarrow> ('img, 'w) irt_state \<Rightarrow> (int \<times> 'io \<times> ('img, 'w) irt_state) result) \<Rightarrow>
     (int \<times> 'io \<times> server_params \<times> ('img, 'w) irt_state) result" where
  "offload_or env server io st local_part =
     rbind (check_policy st) (\<lambda>(policyParams, isXpuBusy, st1).
       if to_server policyParams isXpuBusy server
       then (case send_to_server env server st1 of (ret, server', st2) \<Rightarrow> Inr (ret, io, server', st2))
       else rbind (local_part policyParams st1) (\<lambda>(ret, io', st2). Inr (ret, io', server, st2)))"

definition check_temporary_infer_device :: "string \<Rightarrow> string \<Rightarrow> ('img, 'w) irt_state \<Rightarrow> bool \<times> string" where
  "check_temporary_infer_device model device st =
     (case gIrtTempInferDevice st model of None \<Rightarrow> (False, device) | Some d \<Rightarrow> (True, d))"

text \<open>The engine is looked up, and loaded if need be, and asked to compute.\<close>

definition with_entity ::
  "('img, 'w) irt_env \<Rightarrow> string \<Rightarrow> 'io \<Rightarrow> ('img, 'w) irt_state \<Rightarrow>
     (('img, 'w) inference_entity \<Rightarrow> 'w \<Rightarrow> int \<times> 'io \<times> 'w) \<Rightarrow> int \<times> 'io \<times> ('img, 'w) irt_state" where
  "with_entity env engine io st compute =
     (case getInferenceEntity (env_loader env) engine (gIrtInf st) of
        (None, registry) \<Rightarrow> (RT_INFER_ERROR, io, st\<lparr>gIrtInf := registry\<rparr>)
      | (Some e, registry) \<Rightarrow>
          (case compute e (st_world st) of (res, io', w) \<Rightarrow> (res, io', st\<lparr>gIrtInf := registry, st_world := w\<rparr>)))"

section \<open>Settings\<close>

definition vino_ie_pipeline_set_parameters ::
  "user_cfg_params \<Rightarrow> ('img, 'w) irt_state \<Rightarrow> (int \<times> ('img, 'w) irt_state) result" where
  "vino_ie_pipeline_set_parameters configuration st =
     rbind (wake_daemon st) (\<lambda>st1.
       if \<not> IsAvailableDevice (inferDevice configuration) then Inr (- 1, st1)
       else rbind (UserSetCfgParams (isLocalInference configuration) (inferDevice configuration) (st_os st1)) (\<lambda>(os, res).
              Inr (res, st1\<lparr>st_os := os\<rparr>)))"

definition irt_set_infer_device :: "bool \<Rightarrow> string \<Rightarrow> string \<Rightarrow> ('img, 'w) irt_state \<Rightarrow> int \<times> ('img, 'w) irt_state" where
  "irt_set_infer_device set_it model device st =
     (if model = [] then (- 1, st)
      else if set_it
      then (if \<not> IsAvailableDevice device then (- 1, st)
            else (0, st\<lparr>gIrtTempInferDevice := (gIrtTempInferDevice st)(model \<mapsto> device)\<rparr>))
      else (0, if gIrtTempInferDevice st model \<noteq> None
               then st\<lparr>gIrtTempInferDevice := (gIrtTempInferDevice st)(model := None)\<rparr> else st))"

section \<open>Inference with the default engine\<close>

definition vino_ie_pipeline_infer_image ::
  "('img, 'w) irt_env \<Rightarrow> 'img image_io \<Rightarrow> string \<Rightarrow> server_params \<Rightarrow> ('img, 'w) irt_state \<Rightarrow>
     (int \<times> 'img image_io \<times> server_params \<times> ('img, 'w) irt_state) result" where
  "vino_ie_pipeline_infer_image env io xmls server st =
     offload_or env server io st (\<lambda>policyParams st1.
       (let deviceName = snd (check_temporary_infer_device xmls (InferDevice policyParams) st1)
        in Inr (with_entity env ''OPENVINO'' io st1 (\<lambda>e. infer_image e io xmls deviceName))))"

text \<open>The overloaded function for one list of images, which the call does not change.\<close>

definition vino_ie_pipeline_infer_images ::
  "('img, 'w) irt_env \<Rightarrow> 'img list \<Rightarrow> floats \<times> floats \<Rightarrow> string \<Rightarrow> server_params \<Rightarrow> ('img, 'w) irt_state \<Rightarrow>
     (int \<times> (floats \<times> floats) \<times> server_params \<times> ('img, 'w) irt_state) result" where
  "vino_ie_pipeline_infer_images env one_image io xmls server st =
     offload_or env server io st (\<lambda>policyParams st1.
       (let deviceName = snd (check_temporary_infer_device xmls (InferDevice policyParams) st1)
        in Inr (with_entity env ''OPENVINO'' io st1 (\<lambda>e w.
             (case infer_image e ([one_image], io) xmls deviceName w of (res, (_, io'), w') \<Rightarrow> (res, io', w'))))))"

definition vino_ie_pipeline_infer_common ::
  "('img, 'w) irt_env \<Rightarrow> common_io \<Rightarrow> string \<Rightarrow> server_params \<Rightarrow> ('img, 'w) irt_state \<Rightarrow>
     (int \<times> common_io \<times> server_params \<times> ('img, 'w) irt_state) result" where
  "vino_ie_pipeline_infer_common env io xmls server st =
     offload_or env server io st (\<lambda>policyParams st1.
       (let deviceName = snd (check_temporary_infer_device xmls (InferDevice policyParams) st1)
        in Inr (with_entity env ''OPENVINO'' io st1 (\<lambda>e. infer_common e io xmls deviceName))))"

definition vino_ie_pipeline_infer_speech ::
  "('img, 'w) irt_env \<Rightarrow> 16 word list \<Rightarrow> int \<Rightarrow> int \<Rightarrow> string \<Rightarrow> string \<Rightarrow> server_params \<Rightarrow> ('img, 'w) irt_state \<Rightarrow>
     (int \<times> string \<times> server_params \<times> ('img, 'w) irt_state) result" where
  "vino_ie_pipeline_infer_speech env samples sampleLength bytesPerSample config_path transcription server st =
     offload_or env server transcription st (\<lambda>policyParams st1.
       (let deviceName = snd (check_temporary_infer_device config_path (InferDevice policyParams) st1)
        in Inr (with_entity env ''OPENVINO'' transcription st1 (\<lambda>e.
             infer_speech e samples sampleLength bytesPerSample config_path deviceName transcription))))"

definition vino_simulate_ie_init ::
  "('img, 'w) irt_env \<Rightarrow> string \<Rightarrow> 32 word \<Rightarrow> string \<Rightarrow> 32 word \<Rightarrow> mock_data \<Rightarrow> ('img, 'w) irt_state \<Rightarrow>
     (int \<times> (32 word \<times> mock_data) \<times> ('img, 'w) irt_state) result" where
  "vino_simulate_ie_init env modelFile batch deviceName gnaScaler info st =
     rbind (wake_daemon st) (\<lambda>st1.
       Inr (with_entity env ''OPENVINO'' (batch, info) st1 (\<lambda>e w.
         (case findSymbol so_simulate_lib_init e of
            None \<Rightarrow> (RT_INFER_ERROR, (batch, info), w)
          | Some f \<Rightarrow>
              (case f (ent_ptr e) modelFile batch deviceName gnaScaler (inputBlobsInfo info) (outputBlobsInfo info) w of
                 (res, batch', ins, outs, w') \<Rightarrow> (res, (batch', info\<lparr>inputBlobsInfo := ins, outputBlobsInfo := outs\<rparr>), w'))))))"

definition vino_simulate_ie_infer ::
  "('img, 'w) irt_env \<Rightarrow> string \<Rightarrow> string \<Rightarrow> string \<Rightarrow> ('img, 'w) irt_state \<Rightarrow> int \<times> string \<times> ('img, 'w) irt_state" where
  "vino_simulate_ie_infer env audioData modelFile scores st =
     with_entity env ''OPENVINO'' scores st (\<lambda>e w.
       (case findSymbol so_simulate_lib_infer e of
          None \<Rightarrow> (RT_INFER_ERROR, scores, w)
        | Some f \<Rightarrow> f (ent_ptr e) audioData modelFile scores w))"

definition vino_ie_video_infer_init ::
  "('img, 'w) irt_env \<Rightarrow> model_params \<Rightarrow> string \<Rightarrow> mock_data \<Rightarrow> ('img, 'w) irt_state \<Rightarrow>
     int \<times> (model_params \<times> mock_data) \<times> ('img, 'w) irt_state" where
  "vino_ie_video_infer_init env model deviceName info st =
     with_entity env ''OPENVINO'' (model, info) st (\<lambda>e w.
       (case video_infer_init e model deviceName info w of (res, model', info', w') \<Rightarrow> (res, (model', info'), w')))"

definition vino_ie_video_infer_frame ::
  "('img, 'w) irt_env \<Rightarrow> 'img frame_io \<Rightarrow> string \<Rightarrow> ('img, 'w) irt_state \<Rightarrow> int \<times> 'img frame_io \<times> ('img, 'w) irt_state" where
  "vino_ie_video_infer_frame env io modelFile st = with_entity env ''OPENVINO'' io st (\<lambda>e. video_infer_frame e io modelFile)"

definition vino_ie_pipeline_init_from_buffer ::
  "('img, 'w) irt_env \<Rightarrow> string \<Rightarrow> string \<Rightarrow> string \<Rightarrow> int \<Rightarrow> bool \<Rightarrow> ('img, 'w) irt_state \<Rightarrow>
     (int \<times> unit \<times> ('img, 'w) irt_state) result" where
  "vino_ie_pipeline_init_from_buffer env xmls model weights batch isImgInput st =
     rbind (check_policy st) (\<lambda>(policyParams, isXpuBusy, st1).
       (let deviceName = snd (check_temporary_infer_device xmls (InferDevice policyParams) st1)
        in Inr (with_entity env ''OPENVINO'' () st1 (\<lambda>e w.
             (case findSymbol so_init_from_buffer e of
                None \<Rightarrow> (RT_INFER_ERROR, (), w)
              | Some f \<Rightarrow> (case f (ent_ptr e) xmls model weights deviceName batch isImgInput w of (res, w') \<Rightarrow> (res, (), w')))))))"

section \<open>Inference with a chosen engine\<close>

text \<open>Buffers are pointers that may be null; a null pointer is replaced by an empty local vector.\<close>

record 'img irt_image_buffers =
  pImageInputs :: "'img list list option"
  pAdditionalInputs :: "floats option"
  pInferenceResult :: "floats option"

record irt_float_buffers =
  fb_MainInputs :: "floats list option"
  fb_AdditionalInputs :: "floats option"
  fb_InferenceResult :: "floats option"

definition or_empty :: "'a list option \<Rightarrow> 'a list" where
  "or_empty p = (case p of None \<Rightarrow> [] | Some xs \<Rightarrow> xs)"

definition store_to :: "'a option \<Rightarrow> 'a \<Rightarrow> 'a option" where
  "store_to p x = (case p of None \<Rightarrow> None | Some _ \<Rightarrow> Some x)"

definition image_call ::
  "'img irt_image_buffers \<Rightarrow> string \<Rightarrow> string \<Rightarrow> ('img, 'w) inference_entity \<Rightarrow> 'w \<Rightarrow> int \<times> 'img irt_image_buffers \<times> 'w" where
  "image_call tensorData modelFile device e w =
     (case infer_image e (or_empty (pImageInputs tensorData), or_empty (pAdditionalInputs tensorData),
             or_empty (pInferenceResult tensorData)) modelFile device w of
        (res, (imgs, adds, outs), w') \<Rightarrow>
          (res, \<lparr>pImageInputs = store_to (pImageInputs tensorData) imgs,
             pAdditionalInputs = store_to (pAdditionalInputs tensorData) adds,
             pInferenceResult = store_to (pInferenceResult tensorData) outs\<rparr>, w'))"

definition irt_infer_from_image ::
  "('img, 'w) irt_env \<Rightarrow> 'img irt_image_buffers \<Rightarrow> string \<Rightarrow> string \<Rightarrow> server_params \<Rightarrow> ('img, 'w) irt_state \<Rightarrow>
     (int \<times> 'img irt_image_buffers \<times> server_params \<times> ('img, 'w) irt_state) result" where
  "irt_infer_from_image env tensorData modelFile backendEngine server st =
     offload_or env server tensorData st (\<lambda>policyParams st1.
       (let device = snd (check_temporary_infer_device modelFile (InferDevice policyParams) st1)
        in Inr (with_entity env backendEngine tensorData st1 (image_call tensorData modelFile device))))"

definition irt_infer_from_speech ::
  "('img, 'w) irt_env \<Rightarrow> 16 word list \<Rightarrow> int \<Rightarrow> int \<Rightarrow> string \<Rightarrow> string \<Rightarrow> string \<Rightarrow> server_params \<Rightarrow>
     ('img, 'w) irt_state \<Rightarrow> (int \<times> string \<times> server_params \<times> ('img, 'w) irt_state) result" where
  "irt_infer_from_speech env samples sampleLength bytesPerSample configurationFile transcription backendEngine server st =
     offload_or env server transcription st (\<lambda>policyParams st1.
       (let device = snd (check_temporary_infer_device configurationFile (InferDevice policyParams) st1)
        in Inr (with_entity env backendEngine transcription st1 (\<lambda>e.
             infer_speech e samples sampleLength bytesPerSample configurationFile device transcription))))"

text \<open>The first of the main inputs is used; the address of the first element of an empty vector has no meaning.\<close>

definition irt_infer_from_common ::
  "('img, 'w) irt_env \<Rightarrow> irt_float_buffers \<Rightarrow> string \<Rightarrow> string \<Rightarrow> server_params \<Rightarrow> ('img, 'w) irt_state \<Rightarrow>
     (int \<times> irt_float_buffers \<times> server_params \<times> ('img, 'w) irt_state) result" where
  "irt_infer_from_common env tensorData modelFile backendEngine server st =
     offload_or env server tensorData st (\<lambda>policyParams st1.
       rbind (case fb_MainInputs tensorData of None \<Rightarrow> Inr [] | Some vs \<Rightarrow> vec_at vs 0) (\<lambda>mains.
       (let device = snd (check_temporary_infer_device modelFile (InferDevice policyParams) st1)
        in Inr (with_entity env backendEngine tensorData st1 (\<lambda>e w.
             (case infer_common e (mains, or_empty (fb_AdditionalInputs tensorData), or_empty (fb_InferenceResult tensorData))
                     modelFile device w of
                (res, (mains', adds, outs), w') \<Rightarrow>
                  (res, \<lparr>fb_MainInputs = (case fb_MainInputs tensorData of None \<Rightarrow> None | Some vs \<Rightarrow> Some (vs[0 := mains'])),
                     fb_AdditionalInputs = store_to (fb_AdditionalInputs tensorData) adds,
                     fb_InferenceResult = store_to (fb_InferenceResult tensorData) outs\<rparr>, w')))))))"

definition irt_get_IO_information ::
  "('img, 'w) irt_env \<Rightarrow> string \<Rightarrow> string \<Rightarrow> mock_data \<Rightarrow> ('img, 'w) irt_state \<Rightarrow>
     (int \<times> mock_data \<times> ('img, 'w) irt_state) result" where
  "irt_get_IO_information env modelFile backendEngine info st =
     rbind (check_policy st) (\<lambda>(policyParams, isXpuBusy, st1).
       (let device = snd (check_temporary_infer_device modelFile (InferDevice policyParams) st1);
            model = \<lparr>modelXmlFile = modelFile, needReshape = False, aspectRatio = Fin 0, stride = 0\<rparr>
        in Inr (with_entity env backendEngine info st1 (\<lambda>e w.
             (case video_infer_init e model device info w of (res, _, info', w') \<Rightarrow> (res, info', w'))))))"

section \<open>Reading the policy\<close>

definition segment :: "('img, 'w) irt_state \<Rightarrow> share_memory \<Rightarrow> bool" where
  "segment st buf \<longleftrightarrow>
     os_key_ok (st_os st) \<and> os_attach_ok (st_os st) \<and> os_shm (st_os st) = Some buf \<and> buffer_ok buf"

text \<open>The device name in the segment.\<close>

definition device_name :: "share_memory \<Rightarrow> string" where
  "device_name buf = takeWhile (\<lambda>c. c \<noteq> CHR 0x00) (cfgInferDev buf)"

lemma c_string_buffer: "buffer_ok buf \<Longrightarrow> c_string (cfgInferDev buf) = Inr (device_name buf)"
  by (simp add: buffer_ok_def c_string_def device_name_def)

definition signalled :: "('img, 'w) irt_state \<Rightarrow> share_memory \<Rightarrow> ('img, 'w) irt_state" where
  "signalled st buf = st\<lparr>st_signals := st_signals st @ [pidOfDaemon buf]\<rparr>"

lemma signalled_simps [simp]:
  "segment (signalled st buf) b = segment st b" "gIrtTempInferDevice (signalled st buf) = gIrtTempInferDevice st"
  "st_os (signalled st buf) = st_os st"
  by (simp_all add: signalled_def segment_def)

lemma wake_daemon_segment: "segment st buf \<Longrightarrow> wake_daemon st = Inr (signalled st buf)"
  by (simp add: wake_daemon_def WakeupDaemon_def GetShmid_cases with_shm_def segment_def signalled_def)

lemma check_policy_segment:
  assumes "segment st buf"
  shows "check_policy st =
    Inr (\<lparr>OffloadToLocal = cfgLocal buf, OffloadToServer = cfgServer buf, InferDevice = device_name buf, SamplingInterval = 500\<rparr>,
      \<lparr>CPUBusy = cf_less (idle_occupation buf) CPU_THRESHOLD, GPUBusy = cf_less GPU_THRESHOLD (gpuStatus buf)\<rparr>, signalled st buf)"
proof -
  have "buffer_ok buf" using assms by (simp add: segment_def)
  note dev = c_string_buffer [OF this]
  have os: "(st_os st)\<lparr>os_shm := Some buf\<rparr> = st_os st" using assms by (simp add: segment_def)
  show ?thesis
    using assms by (simp add: check_policy_def wake_daemon_segment [OF assms] ReadShareMemory_def GetShmid_cases with_shm_def segment_def
        dev os default_params_def signalled_def Let_def)
qed

lemma check_policy_no_segment:
  "os_shm (st_os st) = None \<or> \<not> os_key_ok (st_os st) \<Longrightarrow>
     check_policy st = Inr (default_params, \<lparr>CPUBusy = False, GPUBusy = False\<rparr>, st)"
  by (auto simp: check_policy_def wake_daemon_def WakeupDaemon_def ReadShareMemory_def GetShmid_cases)

definition used_device :: "('img, 'w) irt_state \<Rightarrow> string \<Rightarrow> string \<Rightarrow> string" where
  "used_device st model device = (case gIrtTempInferDevice st model of None \<Rightarrow> device | Some d \<Rightarrow> d)"

lemma check_temporary_used [simp]: "snd (check_temporary_infer_device model device st) = used_device st model device"
  by (simp add: check_temporary_infer_device_def used_device_def split: option.split)

lemma used_device_signalled [simp]: "used_device (signalled st buf) = used_device st"
  by (intro ext) (simp add: used_device_def)

lemma image_dispatch:
  assumes "segment st buf"
  shows "irt_infer_from_image env tensor model engine server st =
    (let st1 = signalled st buf
     in if cfgServer buf \<and> url server \<noteq> [] \<and> (\<not> cfgLocal buf \<or> cf_less (idle_occupation buf) CPU_THRESHOLD)
        then (case send_to_server env server st1 of (ret, server', st2) \<Rightarrow> Inr (ret, tensor, server', st2))
        else (case with_entity env engine tensor st1 (image_call tensor model (used_device st model (device_name buf))) of
                (ret, tensor', st2) \<Rightarrow> Inr (ret, tensor', server, st2)))"
  by (simp add: irt_infer_from_image_def offload_or_def check_policy_segment [OF assms] to_server_def Let_def split: prod.split) blast

section \<open>Properties\<close>

text \<open>Small instances: a library that returns a fixed code and writes the device it was given into the world.\<close>

definition echo_entity :: "(nat, string) iinfer_entity" where
  "echo_entity = \<lparr>ie_infer_image = (\<lambda>io model device w. (0, io, device)),
     ie_infer_speech = (\<lambda>s l b c device t w. (0, t, device)), ie_infer_common = (\<lambda>io model device w. (0, io, device)),
     ie_video_infer_init = (\<lambda>m device i w. (0, m, i, device)), ie_video_infer_frame = (\<lambda>io m w. (0, io, w))\<rparr>"

definition echo_env :: "(nat, string) irt_env" where
  "echo_env = \<lparr>env_loader = (\<lambda>f. Some \<lparr>so_CreatInferenceEntity = Some echo_entity, so_simulate_lib_init = None,
       so_simulate_lib_infer = None, so_init_from_buffer = None\<rparr>),
     env_curl = (\<lambda>address param w. Some (0, [''re'', ''ply''], ''posted''))\<rparr>"

definition echo_state :: "(nat, string) irt_state" where
  "echo_state = \<lparr>st_os = sample_os, gIrtInf = \<lparr>soLibraries = [''OPENVINO'' \<mapsto> ''vino.so''], backendEntities = Map.empty\<rparr>,
     gIrtTempInferDevice = Map.empty, st_world = [], st_signals = []\<rparr>"

definition no_buffers :: "nat irt_image_buffers" where
  "no_buffers = \<lparr>pImageInputs = None, pAdditionalInputs = None, pInferenceResult = None\<rparr>"

lemma echo_segment: "segment echo_state zero_memory"
  by (simp add: segment_def echo_state_def sample_os_def)

text \<open>
  C12: What a user sets is what governs the following inferences: after the device and the place
  were set for an available device, a model without a temporary device is computed on that device if
  local inference was chosen, however busy the processor is, and if the server was chosen it is posted
  to the server, but only if the request names one.
\<close>

theorem set_parameters_govern_inference:
  fixes st :: "('img, 'w) irt_state"
  assumes "segment st buf" "IsAvailableDevice device" "gIrtTempInferDevice st model = None"
  shows "\<exists>st' buf'. vino_ie_pipeline_set_parameters \<lparr>isLocalInference = here, inferDevice = device\<rparr> st = Inr (0, st') \<and>
    segment st' buf' \<and>
    irt_infer_from_image env tensor model engine server st' =
      (if \<not> here \<and> url server \<noteq> []
       then (case send_to_server env server (signalled st' buf') of (ret, server', st2) \<Rightarrow> Inr (ret, tensor, server', st2))
       else (case with_entity env engine tensor (signalled st' buf') (image_call tensor model device) of
               (ret, tensor', st2) \<Rightarrow> Inr (ret, tensor', server, st2)))"
proof -
  let ?os = "st_os st"
  have os: "segment_ok ?os" "os_key_ok ?os" "os_attach_ok ?os" "os_shm ?os = Some buf"
    using assms(1) by (auto simp: segment_def segment_ok_def)
  obtain os' buf' where set: "UserSetCfgParams here device ?os = Inr (os', 0)"
    and os': "os_key_ok os'" "os_attach_ok os'" "os_shm os' = Some buf'" "buffer_ok buf'"
    and buf': "cfgLocal buf' = here" "cfgServer buf' = (\<not> here)" "device_name buf' = device"
    using UserSetCfgParams_segment [OF os, of device here] available_device_fits [OF assms(2)] unfolding device_name_def by metis
  define st' where "st' = (signalled st buf)\<lparr>st_os := os'\<rparr>"
  have "vino_ie_pipeline_set_parameters \<lparr>isLocalInference = here, inferDevice = device\<rparr> st = Inr (0, st')"
    using set assms(2) by (simp add: vino_ie_pipeline_set_parameters_def wake_daemon_segment [OF assms(1)] st'_def)
  moreover have "segment st' buf'" using os' by (simp add: segment_def st'_def)
  moreover have "used_device st' model device = device" using assms(3) by (simp add: used_device_def st'_def)
  ultimately show ?thesis
    using buf' by (intro exI [of _ st'] exI [of _ buf']) (simp add: image_dispatch Let_def)
qed

theorem set_parameters_govern_inference_witness:
  "\<exists>st' st2. vino_ie_pipeline_set_parameters \<lparr>isLocalInference = False, inferDevice = ''GPU''\<rparr> echo_state = Inr (0, st') \<and>
     irt_infer_from_image echo_env no_buffers ''m'' ''OPENVINO'' \<lparr>url = ''srv'', urlParam = [], response = []\<rparr> st' =
       Inr (1, no_buffers, \<lparr>url = ''srv'', urlParam = [], response = ''reply''\<rparr>, st2)"
proof -
  have "IsAvailableDevice ''GPU''" by code_simp
  moreover have "gIrtTempInferDevice echo_state ''m'' = None" by (simp add: echo_state_def)
  ultimately show ?thesis
    using set_parameters_govern_inference [OF echo_segment, of "''GPU''" "''m''" False echo_env no_buffers "''OPENVINO''"
        "\<lparr>url = ''srv'', urlParam = [], response = []\<rparr>"]
    by (auto simp: send_to_server_def HttpPost_def curl_post_req_def echo_env_def req_reply_def RT_REMOTE_INFER_OK_def)
qed

text \<open>
  A temporary device holds for its model only and until it is taken back: setting one for an
  available device changes the device of that model and of no other, clearing it restores the
  device of the policy, and a name that is not available is refused without effect.
\<close>

theorem temporary_device_scope:
  assumes "model \<noteq> []"
  shows "if IsAvailableDevice device
    then \<exists>st'. irt_set_infer_device True model device st = (0, st') \<and>
      (\<forall>m d. used_device st' m d = (if m = model then device else used_device st m d)) \<and>
      (\<exists>st2. irt_set_infer_device False model any st' = (0, st2) \<and>
         (\<forall>m d. used_device st2 m d = (if m = model then d else used_device st m d)))
    else irt_set_infer_device True model device st = (- 1, st)"
  using assms by (auto simp: irt_set_infer_device_def used_device_def)

theorem temporary_device_scope_witness:
  "\<exists>st'. irt_set_infer_device True ''m'' ''GPU'' echo_state = (0, st') \<and> used_device st' ''m'' ''CPU'' = ''GPU'' \<and>
     used_device st' ''n'' ''CPU'' = ''CPU''"
proof -
  have "IsAvailableDevice ''GPU''" by code_simp
  with temporary_device_scope [of "''m''" "''GPU''" echo_state "[]"] show ?thesis
    by (auto simp: used_device_def echo_state_def)
qed

text \<open>A failing \<^verbatim>\<open>curl_easy_init\<close> is reported as a successful remote inference with no response.\<close>

lemma curl_init_failure_reported_ok:
  "env_curl env (url server) (urlParam server) (st_world st) = None \<Longrightarrow>
     send_to_server env server st = (RT_REMOTE_INFER_OK, server, st)"
  by (simp add: send_to_server_def HttpPost_def curl_post_req_def)

end
