(* ===== verification/OcrMask.thy ===== *)
theory OcrMask
  imports CxxFloat
begin

text \<open>
  Text detection in the OCR service, \<^verbatim>\<open>fcgi_ocr.cpp\<close>: the network's scores are brought into the
  right order, every pixel above a threshold becomes a point, points that the network links are
  joined with a union-find structure, and each component gets a number in the mask. The sizes
  are those of the call, so that no product of them wraps around. Also the reading of the
  recognised text. The functions of OpenCV that follow are not represented.
\<close>

section \<open>Changing the axes\<close>

text \<open>The four nested loops as the list of their index vectors.\<close>

definition index_vectors :: "nat list \<Rightarrow> nat list list" where
  "index_vectors shape =
     [[i0, i1, i2, i3]. i0 \<leftarrow> [0..<shape ! 0], i1 \<leftarrow> [0..<shape ! 1], i2 \<leftarrow> [0..<shape ! 2], i3 \<leftarrow> [0..<shape ! 3]]"

definition output_index :: "nat list \<Rightarrow> nat list \<Rightarrow> nat list \<Rightarrow> nat" where
  "output_index shape axes idx =
     (let d = (\<lambda>j. shape ! (axes ! j)); x = (\<lambda>j. idx ! (axes ! j))
      in x 0 * (d 1 * d 2 * d 3) + x 1 * (d 2 * d 3) + x 2 * d 3 + x 3 * 1)"

fun transpose_loop :: "nat list \<Rightarrow> nat list \<Rightarrow> nat list list \<Rightarrow> nat \<Rightarrow> 'a list \<Rightarrow> 'a list \<Rightarrow> 'a list result" where
  "transpose_loop shape axes [] source input output_data = Inr output_data"
| "transpose_loop shape axes (idx # rest) source input output_data =
     (let out = output_index shape axes idx
      in rbind (vec_at input source) (\<lambda>v.
         if out < length output_data then transpose_loop shape axes rest (source + 1) input (output_data[out := v])
         else Inl Undefined))"

definition transpose_data :: "'a \<Rightarrow> 'a list \<Rightarrow> nat list \<Rightarrow> nat list \<Rightarrow> 'a list result" where
  "transpose_data zero input_data input_shape reshape_axes =
     (if length input_shape \<noteq> length reshape_axes then Inl Runtime_error
      else if \<exists>axe \<in> set reshape_axes. axe \<ge> length input_shape then Inl Runtime_error
      else if length input_shape < 4 then Inl Undefined
      else
        (let all_size = input_shape ! 0 * input_shape ! 1 * input_shape ! 2 * input_shape ! 3
         in transpose_loop input_shape reshape_axes (index_vectors input_shape) 0 input_data (replicate all_size zero)))"

definition get_second_channel :: "'a list \<Rightarrow> 'a list" where
  "get_second_channel input_data = map (\<lambda>i. input_data ! (2 * i + 1)) [0..<length input_data div 2]"

section \<open>Union-find\<close>

text \<open>\<^verbatim>\<open>findRoot\<close>: a chain of parents ends at a point whose parent is -1; \<^verbatim>\<open>at\<close> throws for other points.\<close>

partial_function (option) root_loop :: "(int \<rightharpoonup> int) \<Rightarrow> int \<Rightarrow> int result option" where
  "root_loop m point =
     (case m point of
        None \<Rightarrow> Some (Inl Out_of_range)
      | Some parent \<Rightarrow> if parent \<noteq> - 1 then root_loop m parent else Some (Inr point))"

declare root_loop.simps [code]

definition findRoot :: "int \<Rightarrow> (int \<rightharpoonup> int) \<Rightarrow> (int \<times> (int \<rightharpoonup> int)) result option" where
  "findRoot point m =
     obind (root_loop m point) (\<lambda>r. Some (Inr (r, if m point \<noteq> Some (- 1) then m(point \<mapsto> r) else m)))"

definition join_points :: "int \<Rightarrow> int \<Rightarrow> (int \<rightharpoonup> int) \<Rightarrow> (int \<rightharpoonup> int) result option" where
  "join_points p1 p2 m =
     obind (findRoot p1 m) (\<lambda>(root1, m1).
     obind (findRoot p2 m1) (\<lambda>(root2, m2).
       Some (Inr (if root1 \<noteq> root2 then m2(root1 \<mapsto> root2) else m2))))"

section \<open>The mask\<close>

text \<open>\<^verbatim>\<open>all_masks\<close>: the components are numbered in the order in which their first points come.\<close>

fun mask_loop ::
  "int \<Rightarrow> (int \<times> int) list \<Rightarrow> (int \<times> int) list \<Rightarrow> (int \<rightharpoonup> int) \<Rightarrow> int list \<Rightarrow> int list result option" where
  "mask_loop w [] roots_map m img = Some (Inr img)"
| "mask_loop w ((x, y) # ps) roots_map m img =
     obind (findRoot (x + y * w) m) (\<lambda>(root_index, m').
       (let roots_map' = (if map_of roots_map root_index = None then (root_index, int (length roots_map) + 1) # roots_map else roots_map);
            i = x + y * w
        in if 0 \<le> i \<and> i < int (length img)
           then mask_loop w ps roots_map' m' (img[nat i := the (map_of roots_map' root_index)])
           else Some (Inl Undefined)))"

definition all_masks :: "(int \<times> int) list \<Rightarrow> nat \<Rightarrow> nat \<Rightarrow> (int \<rightharpoonup> int) \<Rightarrow> int list result option" where
  "all_masks ocr_points w h m = mask_loop (int w) ocr_points [] m (replicate (h * w) 0)"

text \<open>The neighbours of a point, with the running number of the link.\<close>

fun near_loop ::
  "nat \<Rightarrow> nat \<Rightarrow> nat \<Rightarrow> bool list \<Rightarrow> bool list \<Rightarrow> int \<times> int \<Rightarrow> (int \<times> int) list \<Rightarrow> nat \<Rightarrow> (int \<rightharpoonup> int) \<Rightarrow> (int \<rightharpoonup> int) result option" where
  "near_loop w h near_points pm cm (px, py) [] near_point m = Some (Inr m)"
| "near_loop w h near_points pm cm (px, py) ((ny, nx) # ns) near_point m =
     (if nx = px \<and> ny = py then near_loop w h near_points pm cm (px, py) ns near_point m
      else
        obind
          (if nx \<ge> 0 \<and> nx < int w \<and> ny \<ge> 0 \<and> ny < int h
           then
             obind (Some (vec_at pm (nat ny * w + nat nx))) (\<lambda>point_value.
             obind (Some (vec_at cm ((nat py * w + nat px) * near_points + near_point))) (\<lambda>connection_value.
               if point_value \<and> connection_value then join_points (px + py * int w) (nx + ny * int w) m else Some (Inr m)))
           else Some (Inr m)) (\<lambda>m'.
          near_loop w h near_points pm cm (px, py) ns (near_point + 1) m'))"

definition around :: "int \<times> int \<Rightarrow> (int \<times> int) list" where
  "around p = [(ny, nx). ny \<leftarrow> [snd p - 1..snd p + 1], nx \<leftarrow> [fst p - 1..fst p + 1]]"

fun points_loop ::
  "nat \<Rightarrow> nat \<Rightarrow> nat \<Rightarrow> bool list \<Rightarrow> bool list \<Rightarrow> (int \<times> int) list \<Rightarrow> (int \<rightharpoonup> int) \<Rightarrow> (int \<rightharpoonup> int) result option" where
  "points_loop w h near_points pm cm [] m = Some (Inr m)"
| "points_loop w h near_points pm cm (p # ps) m =
     obind (near_loop w h near_points pm cm p (around p) 0 m) (\<lambda>m'. points_loop w h near_points pm cm ps m')"

text \<open>
  \<^verbatim>\<open>get_mask\<close>, given the height and width of the image and the number of links of a point from
  the shape vectors. Comparisons with a NaN are false.
\<close>

definition at_least :: "cfloat \<Rightarrow> cfloat \<Rightarrow> bool" where
  "at_least x t \<longleftrightarrow> cf_le t x"

definition get_mask ::
  "cfloat list \<Rightarrow> nat \<Rightarrow> nat \<Rightarrow> cfloat list \<Rightarrow> nat \<Rightarrow> cfloat \<Rightarrow> cfloat \<Rightarrow> int list result option" where
  "get_mask classification_data h w connection_data near_points class_threshold connection_threshold =
     (if length classification_data < h * w then Some (Inl Undefined)
      else
        (let pm = map (\<lambda>i. at_least (classification_data ! i) class_threshold) [0..<h * w];
             ocr_points = map (\<lambda>i. (int (i mod w), int (i div w))) (filter (\<lambda>i. pm ! i) [0..<h * w]);
             m = map_of (map (\<lambda>i. (int i, - 1)) (filter (\<lambda>i. pm ! i) [0..<h * w]));
             cm = map (\<lambda>v. at_least v connection_threshold) connection_data
         in obind (points_loop w h near_points pm cm ocr_points m) (\<lambda>m'. all_masks ocr_points w h m')))"

section \<open>Reading the recognised text\<close>

text \<open>The loop over the positions: the result so far and whether the last symbol was the stop symbol.\<close>

fun greedy_loop :: "char list \<Rightarrow> string \<Rightarrow> bool \<Rightarrow> string" where
  "greedy_loop [] s_result prev_flag = s_result"
| "greedy_loop (symbol # rest) s_result prev_flag =
     (if symbol \<noteq> CHR ''#''
      then (if s_result = [] \<or> prev_flag \<or> symbol \<noteq> last s_result then greedy_loop rest (s_result @ [symbol]) False
            else greedy_loop rest s_result prev_flag)
      else greedy_loop rest s_result True)"

section \<open>Chains of parents\<close>

inductive climbs :: "(int \<rightharpoonup> int) \<Rightarrow> int \<Rightarrow> int \<Rightarrow> bool" for m where
  top: "m x = Some (- 1) \<Longrightarrow> climbs m x x"
| up: "m x = Some y \<Longrightarrow> y \<noteq> - 1 \<Longrightarrow> climbs m y r \<Longrightarrow> climbs m x r"

inductive_cases climbsE: "climbs m x r"

lemma climbs_root: "climbs m x r \<Longrightarrow> m r = Some (- 1)"
  by (induction rule: climbs.induct) auto

lemma climbs_fun: "climbs m x r \<Longrightarrow> climbs m x s \<Longrightarrow> r = s"
proof (induction arbitrary: s rule: climbs.induct)
  case (top x)
  then show ?case by (auto elim: climbsE)
next
  case (up x y r)
  from up.prems show ?case
  proof cases
    case top
    with up.hyps show ?thesis by simp
  next
    case (up y')
    with \<open>m x = Some y\<close> up.IH show ?thesis by simp
  qed
qed

lemma climbs_top: "m x = Some (- 1) \<Longrightarrow> climbs m x r \<longleftrightarrow> r = x"
  by (auto intro: climbs.top elim: climbsE)

lemma root_loop_climbs: "climbs m x r \<Longrightarrow> root_loop m x = Some (Inr r)"
  by (induction rule: climbs.induct) (simp_all add: root_loop.simps)

text \<open>A structure in which every point has a root; points are not negative.\<close>

definition forest :: "(int \<rightharpoonup> int) \<Rightarrow> bool" where
  "forest m \<longleftrightarrow> (\<forall>x \<in> dom m. 0 \<le> x \<and> (\<exists>r. climbs m x r))"

lemma forest_climbs: "forest m \<Longrightarrow> x \<in> dom m \<Longrightarrow> \<exists>r. climbs m x r \<and> r \<in> dom m \<and> 0 \<le> r"
  unfolding forest_def using climbs_root by (metis domI)

lemma climbs_compress:
  assumes "climbs m x r" "m x \<noteq> Some (- 1)" "r \<noteq> - 1"
  shows "climbs (m(x \<mapsto> r)) z s \<longleftrightarrow> climbs m z s"
proof
  have r: "r \<noteq> x" "m r = Some (- 1)" using assms climbs_root by auto
  have xr: "climbs (m(x \<mapsto> r)) x r"
    using r assms(3) by (intro climbs.up [of _ x r]) (auto intro: climbs.top)
  show "climbs (m(x \<mapsto> r)) z s" if "climbs m z s"
    using that
  proof (induction rule: climbs.induct)
    case (top z)
    with assms(2) show ?case by (intro climbs.top) auto
  next
    case (up z y s)
    show ?case
    proof (cases "z = x")
      case True
      have "climbs m x s" using up True by (auto intro: climbs.up)
      then have "s = r" using climbs_fun [OF assms(1)] by simp
      with xr True show ?thesis by (simp add: fun_upd_def)
    qed (use up in \<open>auto intro: climbs.up [of _ z y]\<close>)
  qed
  show "climbs m z s" if "climbs (m(x \<mapsto> r)) z s"
    using that
  proof (induction rule: climbs.induct)
    case (top z)
    with assms(3) show ?case by (auto intro: climbs.top split: if_split_asm)
  next
    case (up z y s)
    show ?case
    proof (cases "z = x")
      case True
      with up r have "s = r" by (auto simp: climbs_top)
      with assms(1) True show ?thesis by simp
    qed (use up in \<open>auto intro: climbs.up [of _ z y]\<close>)
  qed
qed

lemma climbs_link:
  assumes "m r1 = Some (- 1)" "m r2 = Some (- 1)" "r1 \<noteq> r2" "r2 \<noteq> - 1" "climbs m z s"
  shows "climbs (m(r1 \<mapsto> r2)) z (if s = r1 then r2 else s)"
  using assms(5)
proof (induction rule: climbs.induct)
  case (top z)
  show ?case
  proof (cases "z = r1")
    case True
    have "climbs (m(r1 \<mapsto> r2)) r1 r2"
      using assms by (intro climbs.up [of _ r1 r2]) (auto intro: climbs.top)
    with True show ?thesis by (simp add: fun_upd_def)
  qed (use top in \<open>auto intro: climbs.top\<close>)
next
  case (up z y s)
  then have "z \<noteq> r1" using assms(1) by auto
  with up show ?case by (auto intro: climbs.up [of _ z y])
qed

text \<open>Two points with the same root.\<close>

definition same_root :: "(int \<rightharpoonup> int) \<Rightarrow> int \<Rightarrow> int \<Rightarrow> bool" where
  "same_root m x y \<longleftrightarrow> (\<exists>r. climbs m x r \<and> climbs m y r)"

lemma same_root_iff: "climbs m x r \<Longrightarrow> climbs m y s \<Longrightarrow> same_root m x y \<longleftrightarrow> r = s"
  unfolding same_root_def using climbs_fun by metis

lemma findRoot_spec:
  assumes "forest m" "x \<in> dom m"
  shows "\<exists>r m'. findRoot x m = Some (Inr (r, m')) \<and> climbs m x r \<and> climbs m' = climbs m \<and> dom m' = dom m \<and> forest m'"
proof -
  obtain r where r: "climbs m x r" "0 \<le> r" "r \<in> dom m" using forest_climbs [OF assms] by blast
  define m' where "m' = (if m x \<noteq> Some (- 1) then m(x \<mapsto> r) else m)"
  have "findRoot x m = Some (Inr (r, m'))" by (simp add: findRoot_def root_loop_climbs [OF r(1)] m'_def)
  moreover have c: "climbs m' = climbs m" unfolding m'_def using climbs_compress [OF r(1)] r(2) by (auto intro!: ext)
  moreover have d: "dom m' = dom m" using assms(2) by (auto simp: m'_def)
  moreover have "forest m'" using assms(1) unfolding forest_def d c .
  ultimately show ?thesis using r(1) by blast
qed

lemma join_points_spec:
  assumes "forest m" "p \<in> dom m" "q \<in> dom m"
  shows "\<exists>m'. join_points p q m = Some (Inr m') \<and> forest m' \<and> dom m' = dom m \<and>
    (\<forall>x \<in> dom m. \<forall>y \<in> dom m. same_root m' x y \<longleftrightarrow>
       same_root m x y \<or> same_root m x p \<and> same_root m q y \<or> same_root m x q \<and> same_root m p y)"
proof -
  obtain r1 m1 where f1: "findRoot p m = Some (Inr (r1, m1))" "climbs m p r1" "climbs m1 = climbs m" "dom m1 = dom m" "forest m1"
    using findRoot_spec [OF assms(1,2)] by blast
  obtain r2 m2 where f2: "findRoot q m1 = Some (Inr (r2, m2))" "climbs m q r2" "climbs m2 = climbs m" "dom m2 = dom m" "forest m2"
    using findRoot_spec [OF f1(5), of q] assms(3) f1(3,4) by auto
  define m' where "m' = (if r1 \<noteq> r2 then m2(r1 \<mapsto> r2) else m2)"
  have j: "join_points p q m = Some (Inr m')" by (simp add: join_points_def f1(1) f2(1) m'_def)
  have rt: "m2 r1 = Some (- 1)" "m2 r2 = Some (- 1)" using climbs_root f1(2) f2(2,3) by metis+
  have "r1 \<in> dom m2" "0 \<le> r2" using rt f2(5) unfolding forest_def by auto
  then have r2: "r2 \<noteq> - 1" "r1 \<in> dom m" unfolding f2(4) by auto
  have cl: "climbs m' z (if s = r1 then r2 else s)" if "climbs m z s" for z s
    using climbs_link [OF rt _ r2(1), of z s] that f2(3) by (auto simp: m'_def)
  have d: "dom m' = dom m" using f2(4) r2(2) unfolding m'_def by (simp add: insert_absorb)
  have "forest m'" using assms(1) cl unfolding forest_def d by blast
  moreover have "same_root m' x y \<longleftrightarrow> same_root m x y \<or> same_root m x p \<and> same_root m q y \<or> same_root m x q \<and> same_root m p y"
    if xy: "x \<in> dom m" "y \<in> dom m" for x y
  proof -
    obtain s t where st: "climbs m x s" "climbs m y t" using forest_climbs [OF assms(1)] xy by blast
    have m1: "same_root m' x y \<longleftrightarrow> (if s = r1 then r2 else s) = (if t = r1 then r2 else t)"
      by (rule same_root_iff [OF cl [OF st(1)] cl [OF st(2)]])
    show ?thesis
      unfolding m1 same_root_iff [OF st] same_root_iff [OF st(1) f1(2)] same_root_iff [OF f2(2) st(2)]
        same_root_iff [OF st(1) f2(2)] same_root_iff [OF f1(2) st(2)] by auto
  qed
  ultimately show ?thesis using j d by blast
qed

section \<open>Links\<close>

definition eqv_closure :: "('a \<times> 'a) set \<Rightarrow> ('a \<times> 'a) set" where
  "eqv_closure r = (r \<union> r\<inverse>)\<^sup>*"

lemma eqv_closure_sym: "(x, y) \<in> eqv_closure r \<Longrightarrow> (y, x) \<in> eqv_closure r"
  unfolding eqv_closure_def by (metis converse_Un converse_converse rtrancl_converseI sup_commute)

lemma eqv_closure_trans: "(x, y) \<in> eqv_closure r \<Longrightarrow> (y, z) \<in> eqv_closure r \<Longrightarrow> (x, z) \<in> eqv_closure r"
  unfolding eqv_closure_def by (rule rtrancl_trans)

lemma eqv_closure_insert:
  "(x, y) \<in> eqv_closure (insert (p, q) r) \<longleftrightarrow>
     (x, y) \<in> eqv_closure r \<or> (x, p) \<in> eqv_closure r \<and> (q, y) \<in> eqv_closure r
     \<or> (x, q) \<in> eqv_closure r \<and> (p, y) \<in> eqv_closure r" (is "?L \<longleftrightarrow> ?R")
proof -
  have "eqv_closure (insert (p, q) r) = (insert (p, q) (insert (q, p) (r \<union> r\<inverse>)))\<^sup>*"
    unfolding eqv_closure_def by (rule arg_cong [where f = rtrancl]) auto
  then have e: "?L \<longleftrightarrow> (x, y) \<in> (insert (q, p) (r \<union> r\<inverse>))\<^sup>* \<or>
      (x, p) \<in> (insert (q, p) (r \<union> r\<inverse>))\<^sup>* \<and> (q, y) \<in> (insert (q, p) (r \<union> r\<inverse>))\<^sup>*"
    by (simp add: rtrancl_insert [of p q])
  show ?thesis
    unfolding e rtrancl_insert [of q p] eqv_closure_def [symmetric] Un_iff mem_Collect_eq case_prod_conv
    using eqv_closure_sym [of _ _ r] eqv_closure_trans [of _ _ r] by metis
qed

text \<open>The state of the union-find structure after the links \<^verbatim>\<open>L\<close> between the points \<^verbatim>\<open>D\<close>.\<close>

definition joined :: "int set \<Rightarrow> (int \<times> int) set \<Rightarrow> (int \<rightharpoonup> int) \<Rightarrow> bool" where
  "joined D L m \<longleftrightarrow> forest m \<and> dom m = D \<and> (\<forall>x \<in> D. \<forall>y \<in> D. same_root m x y \<longleftrightarrow> (x, y) \<in> eqv_closure L)"

lemma join_points_joined:
  assumes "joined D L m" "p \<in> D" "q \<in> D"
  shows "\<exists>m'. join_points p q m = Some (Inr m') \<and> joined D (insert (p, q) L) m'"
proof -
  note j = assms(1) [unfolded joined_def]
  obtain m' where m': "join_points p q m = Some (Inr m')" "forest m'" "dom m' = D"
    "\<And>x y. x \<in> D \<Longrightarrow> y \<in> D \<Longrightarrow> same_root m' x y \<longleftrightarrow>
       same_root m x y \<or> same_root m x p \<and> same_root m q y \<or> same_root m x q \<and> same_root m p y"
    using join_points_spec [of m p q] j assms(2,3) by auto
  have "same_root m' x y \<longleftrightarrow> (x, y) \<in> eqv_closure (insert (p, q) L)" if "x \<in> D" "y \<in> D" for x y
    unfolding m'(4) [OF that] eqv_closure_insert using j that assms(2,3) by simp
  with m' show ?thesis unfolding joined_def by blast
qed

lemma joined_initial:
  assumes "\<And>x. x \<in> set xs \<Longrightarrow> 0 \<le> x"
  shows "joined (set xs) {} (map_of (map (\<lambda>x. (x, - 1)) xs))"
proof -
  let ?m = "map_of (map (\<lambda>x. (x, - 1 :: int)) xs)"
  have m: "?m x = Some (- 1)" if "x \<in> set xs" for x using that by (simp add: map_of_map_restrict)
  have d: "dom ?m = set xs" by (simp add: dom_map_of_conv_image_fst image_image)
  have "same_root ?m x y \<longleftrightarrow> x = y" if "x \<in> set xs" "y \<in> set xs" for x y
    unfolding same_root_def climbs_top [of ?m, OF m, OF that(1)] climbs_top [of ?m, OF m, OF that(2)] by auto
  moreover have "forest ?m" unfolding forest_def d using assms m by (blast intro: climbs.top)
  ultimately show ?thesis unfolding joined_def d eqv_closure_def by auto
qed

text \<open>The links of a point that the loop over a list of neighbours uses, the first with number \<^verbatim>\<open>k\<close>.\<close>

definition near_links ::
  "nat \<Rightarrow> nat \<Rightarrow> nat \<Rightarrow> bool list \<Rightarrow> bool list \<Rightarrow> int \<times> int \<Rightarrow> nat \<Rightarrow> (int \<times> int) list \<Rightarrow> (int \<times> int) set" where
  "near_links w h near_points pm cm p k ns =
     {(fst p + snd p * int w, nx + ny * int w) | nx ny j.
        (j, ny, nx) \<in> set (enumerate k ns) \<and> 0 \<le> nx \<and> nx < int w \<and> 0 \<le> ny \<and> ny < int h \<and>
        pm ! (nat ny * w + nat nx) \<and> cm ! ((nat (snd p) * w + nat (fst p)) * near_points + j)}"

definition pixels :: "bool list \<Rightarrow> int set" where
  "pixels pm = {int i | i. i < length pm \<and> pm ! i}"

lemma nat_index_less: "(y :: nat) < h \<Longrightarrow> x < w \<Longrightarrow> y * w + x < h * w"
proof -
  assume "y < h" "x < w"
  then have "y * w + x < y * w + w" by simp
  also have "\<dots> = Suc y * w" by simp
  also have "\<dots> \<le> h * w" using \<open>y < h\<close> by (intro mult_le_mono1) simp
  finally show ?thesis .
qed

lemma pixels_iff:
  assumes "length pm = h * w" "0 \<le> x" "x < int w" "0 \<le> y" "y < int h"
  shows "x + y * int w \<in> pixels pm \<longleftrightarrow> pm ! (nat y * w + nat x)"
proof -
  have "x + y * int w = int (nat y * w + nat x)" using assms by simp
  moreover have "nat y * w + nat x < length pm" using nat_index_less [of "nat y" h "nat x" w] assms by (simp add: nat_less_iff)
  ultimately show ?thesis unfolding pixels_def by (auto simp del: of_nat_add of_nat_mult)
qed

lemma near_links_Cons:
  "near_links w h np pm cm p k ((ny, nx) # ns) =
     (if 0 \<le> nx \<and> nx < int w \<and> 0 \<le> ny \<and> ny < int h \<and> pm ! (nat ny * w + nat nx)
         \<and> cm ! ((nat (snd p) * w + nat (fst p)) * np + k)
      then {(fst p + snd p * int w, nx + ny * int w)} else {}) \<union> near_links w h np pm cm p (Suc k) ns"
  unfolding near_links_def by auto

lemma near_loop_joined:
  assumes "joined (pixels pm) L m" "length pm = h * w" "h * w * np \<le> length cm" "k + length ns \<le> np"
    "0 \<le> px" "px < int w" "0 \<le> py" "py < int h" "px + py * int w \<in> pixels pm" "(py, px) \<notin> set ns"
  shows "\<exists>m'. near_loop w h np pm cm (px, py) ns k m = Some (Inr m') \<and>
    joined (pixels pm) (near_links w h np pm cm (px, py) k ns \<union> L) m'"
  using assms(1,4,10)
proof (induction ns arbitrary: k m L)
  case Nil
  then show ?case by (simp add: near_links_def)
next
  case (Cons n ns)
  obtain ny nx where n: "n = (ny, nx)" by fastforce
  let ?q = "nat ny * w + nat nx"
  let ?c = "(nat py * w + nat px) * np + k"
  define inb where "inb \<longleftrightarrow> 0 \<le> nx \<and> nx < int w \<and> 0 \<le> ny \<and> ny < int h"
  define L' where "L' = (if inb \<and> pm ! ?q \<and> cm ! ?c then insert (px + py * int w, nx + ny * int w) L else L)"
  define body where "body = (if nx \<ge> 0 \<and> nx < int w \<and> ny \<ge> 0 \<and> ny < int h
           then
             obind (Some (vec_at pm ?q)) (\<lambda>point_value.
             obind (Some (vec_at cm ?c)) (\<lambda>connection_value.
               if point_value \<and> connection_value then join_points (px + py * int w) (nx + ny * int w) m else Some (Inr m)))
           else Some (Inr m))"
  have q: "?q < length pm" if inb
    using that nat_index_less [of "nat ny" h "nat nx" w] assms(2) by (auto simp: inb_def nat_less_iff)
  have c: "?c < length cm"
    using nat_index_less [of "nat py * w + nat px" "h * w" k np] nat_index_less [of "nat py" h "nat px" w]
      assms(3,5,6,7,8) Cons.prems(2) by (simp add: nat_less_iff)
  have "\<exists>m'. body = Some (Inr m') \<and> joined (pixels pm) L' m'"
  proof (cases "inb \<and> pm ! ?q \<and> cm ! ?c")
    case True
    then have "nx + ny * int w \<in> pixels pm" using pixels_iff [OF assms(2)] by (simp add: inb_def)
    from join_points_joined [OF Cons.prems(1) assms(9) this] True q c
    show ?thesis by (simp add: body_def L'_def inb_def)
  next
    case False
    then show ?thesis using Cons.prems(1) q c unfolding body_def L'_def inb_def by auto
  qed
  then obtain m1 where m1: "body = Some (Inr m1)" "joined (pixels pm) L' m1" by blast
  have "near_loop w h np pm cm (px, py) (n # ns) k m = near_loop w h np pm cm (px, py) ns (Suc k) m1"
    using Cons.prems(3) m1(1) by (auto simp: n body_def)
  moreover have "near_links w h np pm cm (px, py) k (n # ns) \<union> L = near_links w h np pm cm (px, py) (Suc k) ns \<union> L'"
    unfolding n near_links_Cons L'_def inb_def by auto
  ultimately show ?case using Cons.IH [OF m1(2), of "Suc k"] Cons.prems(2,3) by simp
qed

text \<open>The centre of the square is passed over.\<close>

definition neighbours :: "(int \<times> int) list" where
  "neighbours = [(- 1, - 1), (- 1, 0), (- 1, 1), (0, - 1), (0, 1), (1, - 1), (1, 0), (1, 1)]"

lemma near_loop_centre:
  "near_loop w h np pm cm (px, py) ns k m = near_loop w h np pm cm (px, py) (filter (\<lambda>n. n \<noteq> (py, px)) ns) k m"
proof (induction ns arbitrary: k m)
  case (Cons n ns)
  obtain ny nx where n: "n = (ny, nx)" by fastforce
  have "near_loop w h np pm cm (px, py) ns = near_loop w h np pm cm (px, py) (filter (\<lambda>n. n \<noteq> (py, px)) ns)"
    by (intro ext) (rule Cons.IH)
  then show ?case by (simp add: n)
qed simp

lemma upto_three: "[x - 1..x + 1] = [x - 1, x, x + (1 :: int)]"
  by (simp add: upto_rec1)

lemma around_neighbours:
  "filter (\<lambda>n. n \<noteq> (py, px)) (around (px, py)) = map (\<lambda>(dy, dx). (py + dy, px + dx)) neighbours"
  by (simp add: around_def upto_three neighbours_def)

definition point_links :: "nat \<Rightarrow> nat \<Rightarrow> nat \<Rightarrow> bool list \<Rightarrow> bool list \<Rightarrow> int \<times> int \<Rightarrow> (int \<times> int) set" where
  "point_links w h np pm cm p = near_links w h np pm cm p 0 (map (\<lambda>(dy, dx). (snd p + dy, fst p + dx)) neighbours)"

lemma near_loop_around:
  assumes "joined (pixels pm) L m" "length pm = h * w" "h * w * np \<le> length cm" "8 \<le> np"
    "0 \<le> px" "px < int w" "0 \<le> py" "py < int h" "px + py * int w \<in> pixels pm"
  shows "\<exists>m'. near_loop w h np pm cm (px, py) (around (px, py)) 0 m = Some (Inr m') \<and>
    joined (pixels pm) (point_links w h np pm cm (px, py) \<union> L) m'"
  unfolding near_loop_centre [of w h np pm cm px py "around (px, py)"] around_neighbours point_links_def
  using near_loop_joined [OF assms(1-3) _ assms(5-9), of 0 "map (\<lambda>(dy, dx). (py + dy, px + dx)) neighbours"] assms(4)
  by (simp add: neighbours_def)

lemma points_loop_joined:
  assumes "joined (pixels pm) L m" "length pm = h * w" "h * w * np \<le> length cm" "8 \<le> np"
    "\<And>x y. (x, y) \<in> set ps \<Longrightarrow> 0 \<le> x \<and> x < int w \<and> 0 \<le> y \<and> y < int h \<and> x + y * int w \<in> pixels pm"
  shows "\<exists>m'. points_loop w h np pm cm ps m = Some (Inr m') \<and>
    joined (pixels pm) ((\<Union>p \<in> set ps. point_links w h np pm cm p) \<union> L) m'"
  using assms(1,5)
proof (induction ps arbitrary: m L)
  case (Cons p ps)
  obtain px py where p: "p = (px, py)" by fastforce
  obtain m1 where m1: "near_loop w h np pm cm p (around p) 0 m = Some (Inr m1)"
    "joined (pixels pm) (point_links w h np pm cm p \<union> L) m1"
    using near_loop_around [OF Cons.prems(1) assms(2-4), of px py] Cons.prems(2) [of px py] unfolding p by auto
  from Cons.IH [OF m1(2) Cons.prems(2)] m1(1) show ?case by (simp add: Un_ac)
qed simp

section \<open>Numbering the components\<close>

text \<open>After the points \<^verbatim>\<open>S\<close>: the roots seen have the numbers from 1 on, and a point has that of its root.\<close>

definition mask_inv :: "(int \<Rightarrow> int \<Rightarrow> bool) \<Rightarrow> int set \<Rightarrow> (int \<times> int) list \<Rightarrow> int list \<Rightarrow> bool" where
  "mask_inv C S rm img \<longleftrightarrow>
     dom (map_of rm) = {r. \<exists>s \<in> S. C s r} \<and> ran (map_of rm) = {1..int (length rm)} \<and>
     inj_on (map_of rm) (dom (map_of rm)) \<and>
     (\<forall>i < length img. \<forall>r. int i \<in> S \<longrightarrow> C (int i) r \<longrightarrow> map_of rm r = Some (img ! i)) \<and>
     (\<forall>i < length img. int i \<notin> S \<longrightarrow> img ! i = 0)"

lemma mask_inv_number:
  assumes inv: "mask_inv C S rm img" and i: "0 \<le> i" "i < int (length img)" and c: "C i r"
    and f: "\<And>s. C i s \<Longrightarrow> s = r"
    and rm': "rm' = (if map_of rm r = None then (r, int (length rm) + 1) # rm else rm)"
  shows "mask_inv C (insert i S) rm' (img[nat i := the (map_of rm' r)])"
proof -
  have I: "dom (map_of rm) = {r. \<exists>s \<in> S. C s r}" "ran (map_of rm) = {1..int (length rm)}"
    "inj_on (map_of rm) (dom (map_of rm))"
    and I4: "\<And>j s. j < length img \<Longrightarrow> int j \<in> S \<Longrightarrow> C (int j) s \<Longrightarrow> map_of rm s = Some (img ! j)"
    and I5: "\<And>j. j < length img \<Longrightarrow> int j \<notin> S \<Longrightarrow> img ! j = 0"
    using inv unfolding mask_inv_def by blast+
  have m': "map_of rm' = (if map_of rm r = None then (map_of rm)(r \<mapsto> int (length rm) + 1) else map_of rm)"
    by (simp add: rm')
  have new: "map_of rm a \<noteq> Some (int (length rm) + 1)" for a
  proof
    assume "map_of rm a = Some (int (length rm) + 1)"
    then have "int (length rm) + 1 \<in> ran (map_of rm)" by (rule ranI)
    then show False unfolding I(2) by simp
  qed
  have "{s. \<exists>t \<in> insert i S. C t s} = insert r (dom (map_of rm))" unfolding I(1) using c f by blast
  moreover have "dom (map_of rm') = insert r (dom (map_of rm))" unfolding m' by (simp add: insert_absorb domIff)
  ultimately have "dom (map_of rm') = {s. \<exists>t \<in> insert i S. C t s}" by simp
  moreover have "ran (map_of rm') = {1..int (length rm')}"
  proof (cases "map_of rm r = None")
    case True
    then have "ran (map_of rm') = insert (int (length rm) + 1) {1..int (length rm)}"
      unfolding m' using I(2) by (simp add: ran_map_upd)
    also have "\<dots> = {1..int (length rm')}" using True by (auto simp: rm')
    finally show ?thesis .
  qed (use I(2) in \<open>auto simp: m' rm'\<close>)
  moreover have "inj_on (map_of rm') (dom (map_of rm'))"
  proof (rule inj_onI)
    fix a b assume "a \<in> dom (map_of rm')" "b \<in> dom (map_of rm')" "map_of rm' a = map_of rm' b"
    then show "a = b" using new [of a] new [of b] inj_onD [OF I(3), of a b] unfolding m' by (auto split: if_splits)
  qed
  moreover have old: "map_of rm' s = map_of rm s" if "map_of rm s \<noteq> None" for s
    using that by (auto simp: m')
  moreover have r: "map_of rm' r = Some (the (map_of rm' r))" by (auto simp: m')
  have "map_of rm' s = Some (img[nat i := the (map_of rm' r)] ! j)"
    if "j < length img" "int j \<in> insert i S" "C (int j) s" for j s
  proof (cases "int j = i")
    case True
    with that i f r show ?thesis by auto
  next
    case False
    with that I4 have "map_of rm s = Some (img ! j)" by auto
    moreover have "nat i \<noteq> j" using False i(1) by auto
    ultimately show ?thesis using old [of s] by simp
  qed
  moreover have "img[nat i := the (map_of rm' r)] ! j = 0" if "j < length img" "int j \<notin> insert i S" for j
    using that I5 by (cases "nat i = j") (use i in auto)
  ultimately show ?thesis unfolding mask_inv_def by simp
qed

lemma mask_loop_spec:
  assumes "forest m" "mask_inv (climbs m) S rm img"
    "\<And>x y. (x, y) \<in> set ps \<Longrightarrow> x + y * w \<in> dom m \<and> x + y * w < int (length img)"
  shows "\<exists>img' rm'. mask_loop w ps rm m img = Some (Inr img') \<and> length img' = length img \<and>
    mask_inv (climbs m) ((\<lambda>(x, y). x + y * w) ` set ps \<union> S) rm' img'"
  using assms
proof (induction ps arbitrary: m S rm img)
  case (Cons p ps)
  obtain x y where p: "p = (x, y)" by fastforce
  let ?i = "x + y * w"
  have i: "?i \<in> dom m" "?i < int (length img)" using Cons.prems(3) [of x y] p by auto
  then have i0: "0 \<le> ?i" using Cons.prems(1) by (auto simp: forest_def)
  obtain r m1 where f: "findRoot ?i m = Some (Inr (r, m1))" "climbs m ?i r" "climbs m1 = climbs m" "dom m1 = dom m" "forest m1"
    using findRoot_spec [OF Cons.prems(1) i(1)] by blast
  define rm' where "rm' = (if map_of rm r = None then (r, int (length rm) + 1) # rm else rm)"
  let ?img = "img[nat ?i := the (map_of rm' r)]"
  have "mask_inv (climbs m1) (insert ?i S) rm' ?img"
    unfolding f(3)
    by (rule mask_inv_number [OF Cons.prems(2) i0 i(2) f(2) _ rm'_def]) (erule climbs_fun [OF _ f(2)])
  moreover have "a + b * w \<in> dom m1 \<and> a + b * w < int (length ?img)" if "(a, b) \<in> set ps" for a b
    using Cons.prems(3) [of a b] that f(4) by simp
  ultimately obtain img' rm'' where "mask_loop w ps rm' m1 ?img = Some (Inr img')" "length img' = length img"
    "mask_inv (climbs m) ((\<lambda>(x, y). x + y * w) ` set ps \<union> insert ?i S) rm'' img'"
    using Cons.IH [OF f(5), of "insert ?i S" rm' ?img] unfolding f(3) length_list_update by blast
  moreover have "mask_loop w (p # ps) rm m img = mask_loop w ps rm' m1 ?img"
    using i(2) i0 unfolding p by (simp add: f(1) rm'_def Let_def)
  moreover have "(\<lambda>(x, y). x + y * w) ` set ps \<union> insert ?i S = (\<lambda>(x, y). x + y * w) ` set (p # ps) \<union> S" by (simp add: p)
  ultimately show ?case by metis
qed auto

lemma mask_inv_labels:
  assumes "mask_inv (climbs m) D rm img" "forest m" "dom m = D" "\<And>d. d \<in> D \<Longrightarrow> d < int (length img)"
  shows "\<And>i. i < length img \<Longrightarrow> img ! i = 0 \<longleftrightarrow> int i \<notin> D"
    "\<And>i j. i < length img \<Longrightarrow> j < length img \<Longrightarrow> int i \<in> D \<Longrightarrow> int j \<in> D \<Longrightarrow>
       img ! i = img ! j \<longleftrightarrow> same_root m (int i) (int j)"
    "{img ! i | i. i < length img \<and> int i \<in> D} = {1..int (length rm)}"
proof -
  have I: "dom (map_of rm) = {r. \<exists>s \<in> D. climbs m s r}" "ran (map_of rm) = {1..int (length rm)}"
    "inj_on (map_of rm) (dom (map_of rm))"
    and I4: "\<And>j s. j < length img \<Longrightarrow> int j \<in> D \<Longrightarrow> climbs m (int j) s \<Longrightarrow> map_of rm s = Some (img ! j)"
    and I5: "\<And>j. j < length img \<Longrightarrow> int j \<notin> D \<Longrightarrow> img ! j = 0"
    using assms(1) unfolding mask_inv_def by blast+
  have lab: "\<exists>r. climbs m (int i) r \<and> map_of rm r = Some (img ! i) \<and> img ! i \<in> {1..int (length rm)}"
    if i: "i < length img" "int i \<in> D" for i
  proof -
    obtain r where "climbs m (int i) r" using assms(2,3) i(2) unfolding forest_def by blast
    moreover from I4 [OF i this] have "img ! i \<in> ran (map_of rm)" by (rule ranI)
    ultimately show ?thesis using I(2) I4 [OF i] by blast
  qed
  show "img ! i = 0 \<longleftrightarrow> int i \<notin> D" if "i < length img" for i
    using lab [OF that] I5 [OF that] by fastforce
  show "img ! i = img ! j \<longleftrightarrow> same_root m (int i) (int j)"
    if ij: "i < length img" "j < length img" "int i \<in> D" "int j \<in> D" for i j
  proof -
    obtain r s where rs: "climbs m (int i) r" "map_of rm r = Some (img ! i)" "climbs m (int j) s" "map_of rm s = Some (img ! j)"
      using lab [OF ij(1,3)] lab [OF ij(2,4)] by blast
    then have "r = s \<longleftrightarrow> map_of rm r = map_of rm s" using inj_onD [OF I(3), of r s] by auto
    with rs show ?thesis by (simp add: same_root_iff)
  qed
  show "{img ! i | i. i < length img \<and> int i \<in> D} = {1..int (length rm)}"
  proof (intro equalityI subsetI)
    fix n assume "n \<in> {1..int (length rm)}"
    then obtain r where r: "map_of rm r = Some n" unfolding I(2) [symmetric] ran_def by blast
    then have "r \<in> dom (map_of rm)" by (rule domI)
    then obtain d where d: "d \<in> D" "climbs m d r" unfolding I(1) by blast
    then have "0 \<le> d" "d < int (length img)" using assms(2-4) unfolding forest_def by blast+
    then have "int (nat d) = d" "nat d < length img" by auto
    with I4 [of "nat d" r] d r show "n \<in> {img ! i | i. i < length img \<and> int i \<in> D}" by auto
  qed (use lab in blast)
qed

text \<open>What the mask means: points, and their links by the numbers of the neighbours.\<close>

definition is_point :: "cfloat list \<Rightarrow> cfloat \<Rightarrow> nat \<Rightarrow> bool" where
  "is_point classification_data class_threshold i \<longleftrightarrow> at_least (classification_data ! i) class_threshold"

definition links ::
  "cfloat list \<Rightarrow> nat \<Rightarrow> nat \<Rightarrow> cfloat list \<Rightarrow> nat \<Rightarrow> cfloat \<Rightarrow> cfloat \<Rightarrow> (int \<times> int) set" where
  "links cls h w con near_points ct nt =
     {(int i, int j) | i j k. i < h * w \<and> j < h * w \<and> k < 8 \<and> is_point cls ct i \<and> is_point cls ct j \<and>
        at_least (con ! (i * near_points + k)) nt \<and>
        int (j div w) = int (i div w) + fst (neighbours ! k) \<and> int (j mod w) = int (i mod w) + snd (neighbours ! k)}"

lemma div_mod_index: "(x :: nat) < w \<Longrightarrow> (y * w + x) div w = y \<and> (y * w + x) mod w = x"
  by auto

lemma index_div_less: "i < h * w \<Longrightarrow> i div w < (h :: nat)"
  by (simp add: less_mult_imp_div_less)

lemma index_mod_less: "i < h * w \<Longrightarrow> i mod w < (w :: nat)"
  by (cases w) auto

lemma point_links_at:
  assumes "i < h * w" "h * w * np \<le> length con" "8 \<le> np" "length pm = h * w"
  shows "point_links w h np pm (map (\<lambda>v. at_least v nt) con) (int (i mod w), int (i div w)) =
    {(int i, int j) | j k. j < h * w \<and> k < 8 \<and> pm ! j \<and> at_least (con ! (i * np + k)) nt \<and>
       int (j div w) = int (i div w) + fst (neighbours ! k) \<and> int (j mod w) = int (i mod w) + snd (neighbours ! k)}"
    (is "?A = ?B")
proof -
  let ?p = "(int (i mod w), int (i div w))"
  have len: "length (map (\<lambda>(dy, dx). (snd ?p + dy, fst ?p + dx)) neighbours) = 8" by (simp add: neighbours_def)
  have nth: "map (\<lambda>(dy, dx). (snd ?p + dy, fst ?p + dx)) neighbours ! k =
     (int (i div w) + fst (neighbours ! k), int (i mod w) + snd (neighbours ! k))" if "k < 8" for k
    using that len by (simp add: case_prod_beta)
  have con: "i * np + k < length con" if "k < 8" for k
    using nat_index_less [of i "h * w" k np] assms that by simp
  have idx: "nat (int (i div w)) * w + nat (int (i mod w)) = i" by simp
  have own: "int (i mod w) + int (i div w) * int w = int i"
    by (metis add.commute div_mult_mod_eq of_nat_add of_nat_mult)
  have mem: "(j, ny, nx) \<in> set (enumerate 0 (map (\<lambda>(dy, dx). (snd ?p + dy, fst ?p + dx)) neighbours)) \<longleftrightarrow>
     j < 8 \<and> ny = int (i div w) + fst (neighbours ! j) \<and> nx = int (i mod w) + snd (neighbours ! j)" for j ny nx
    unfolding in_set_enumerate_eq len using nth by (auto simp: case_prod_beta)
  have A: "?A = {(int i, nx + ny * int w) | nx ny k. (k < 8 \<and> ny = int (i div w) + fst (neighbours ! k) \<and>
     nx = int (i mod w) + snd (neighbours ! k)) \<and> 0 \<le> nx \<and> nx < int w \<and> 0 \<le> ny \<and> ny < int h \<and>
     pm ! (nat ny * w + nat nx) \<and> at_least (con ! (i * np + k)) nt}"
    unfolding point_links_def near_links_def mem fst_conv snd_conv own idx
    by (intro Collect_cong ex_cong1 conj_cong refl) (use mem con in simp_all)
  show ?thesis
  proof (intro set_eqI iffI)
    fix z assume "z \<in> ?A"
    then obtain nx ny k where z: "z = (int i, nx + ny * int w)" "k < 8" "ny = int (i div w) + fst (neighbours ! k)"
      "nx = int (i mod w) + snd (neighbours ! k)" "0 \<le> nx" "nx < int w" "0 \<le> ny" "ny < int h"
      "pm ! (nat ny * w + nat nx)" "at_least (con ! (i * np + k)) nt"
      unfolding A by blast
    let ?j = "nat ny * w + nat nx"
    have "nx + ny * int w = int ?j" using z by simp
    moreover have "?j < h * w" using nat_index_less [of "nat ny" h "nat nx" w] z by (simp add: nat_less_iff)
    moreover have "?j div w = nat ny" "?j mod w = nat nx" using div_mod_index [of "nat nx" w] z by (simp_all add: nat_less_iff)
    then have "int (?j div w) = int (i div w) + fst (neighbours ! k)" "int (?j mod w) = int (i mod w) + snd (neighbours ! k)"
      using z(3-5,7) by simp_all
    ultimately show "z \<in> ?B" using z(1,2,9,10) by blast
  next
    fix z assume "z \<in> ?B"
    then obtain j k where z: "z = (int i, int j)" "j < h * w" "k < 8" "pm ! j" "at_least (con ! (i * np + k)) nt"
      "int (j div w) = int (i div w) + fst (neighbours ! k)" "int (j mod w) = int (i mod w) + snd (neighbours ! k)"
      by blast
    have "int j = int (j mod w) + int (j div w) * int w"
      by (metis add.commute div_mult_mod_eq of_nat_add of_nat_mult)
    moreover have "j div w < h" "j mod w < w" using index_div_less [OF z(2)] index_mod_less [OF z(2)] by simp_all
    moreover have "nat (int (j div w)) * w + nat (int (j mod w)) = j" by simp
    ultimately show "z \<in> ?A" unfolding A using z by (smt (verit) mem_Collect_eq of_nat_0_le_iff of_nat_less_iff)
  qed
qed

section \<open>The components of the text\<close>

lemma pixels_list: "pixels pm = set (map int (filter (\<lambda>i. pm ! i) [0..<length pm]))"
  by (auto simp: pixels_def)

lemma mask_inv_initial: "mask_inv C {} [] (replicate n 0)"
  by (simp add: mask_inv_def)

text \<open>
  C2: the mask of \<^verbatim>\<open>get_mask\<close>. When the vectors have the sizes that the shapes promise, every access is
  inside its vector, every search for a root ends and the mask has one number per pixel: 0 exactly
  where the score is below the threshold, equal numbers at two text pixels exactly if a chain of
  links to neighbouring text pixels, in either direction, joins them, and the numbers are 1, 2, ...
  without a gap.
\<close>

theorem get_mask_components:
  assumes "h * w \<le> length classification_data" "h * w * near_points \<le> length connection_data" "8 \<le> near_points"
  shows "\<exists>mask_img n. get_mask classification_data h w connection_data near_points ct nt = Some (Inr mask_img) \<and>
    length mask_img = h * w \<and>
    (\<forall>i < h * w. mask_img ! i = 0 \<longleftrightarrow> \<not> is_point classification_data ct i) \<and>
    (\<forall>i < h * w. \<forall>j < h * w. is_point classification_data ct i \<longrightarrow> is_point classification_data ct j \<longrightarrow>
       (mask_img ! i = mask_img ! j \<longleftrightarrow> (int i, int j) \<in> eqv_closure (links classification_data h w connection_data near_points ct nt))) \<and>
    {mask_img ! i | i. i < h * w \<and> is_point classification_data ct i} = {1..n}"
proof -
  define pm where "pm = map (\<lambda>i. at_least (classification_data ! i) ct) [0..<h * w]"
  define js where "js = filter (\<lambda>i. pm ! i) [0..<h * w]"
  define ps where "ps = map (\<lambda>i. (int (i mod w), int (i div w))) js"
  define cm where "cm = map (\<lambda>v. at_least v nt) connection_data"
  let ?L = "links classification_data h w connection_data near_points ct nt"
  have pm: "length pm = h * w" "\<And>i. i < h * w \<Longrightarrow> pm ! i \<longleftrightarrow> is_point classification_data ct i"
    by (simp_all add: pm_def is_point_def)
  have D: "pixels pm = set (map int js)" unfolding pixels_list pm(1) js_def ..
  have inD: "int i \<in> pixels pm \<longleftrightarrow> i < h * w \<and> is_point classification_data ct i" for i
    using pm by (auto simp: pixels_def)
  have own: "int (i mod w) + int (i div w) * int w = int i" for i
    by (metis add.commute div_mult_mod_eq of_nat_add of_nat_mult)
  have j0: "joined (pixels pm) {} (map_of (map (\<lambda>i. (int i, - 1)) js))"
  proof -
    have "0 \<le> x" if "x \<in> set (map int js)" for x using that by auto
    then have "joined (set (map int js)) {} (map_of (map (\<lambda>x. (x, - 1)) (map int js)))" by (rule joined_initial)
    then show ?thesis unfolding D map_map comp_def .
  qed
  have p: "0 \<le> x \<and> x < int w \<and> 0 \<le> y \<and> y < int h \<and> x + y * int w \<in> pixels pm" if "(x, y) \<in> set ps" for x y
    using that own index_div_less index_mod_less by (fastforce simp: ps_def D js_def)
  have PL: "(\<Union>p \<in> set ps. point_links w h near_points pm cm p) = ?L"
  proof -
    have "(\<Union>p \<in> set ps. point_links w h near_points pm cm p) =
      (\<Union>i \<in> set js. point_links w h near_points pm cm (int (i mod w), int (i div w)))" by (simp add: ps_def)
    also have "\<dots> = (\<Union>i \<in> set js. {(int i, int j) | j k. j < h * w \<and> k < 8 \<and> pm ! j \<and> at_least (connection_data ! (i * near_points + k)) nt \<and>
       int (j div w) = int (i div w) + fst (neighbours ! k) \<and> int (j mod w) = int (i mod w) + snd (neighbours ! k)})"
      unfolding cm_def using point_links_at [OF _ assms(2,3) pm(1)] by (intro SUP_cong) (auto simp: js_def)
    also have "\<dots> = ?L" unfolding links_def js_def using pm(2) by auto
    finally show ?thesis .
  qed
  obtain m1 where m1: "points_loop w h near_points pm cm ps (map_of (map (\<lambda>i. (int i, - 1)) js)) = Some (Inr m1)"
    "joined (pixels pm) ?L m1"
    using points_loop_joined [OF j0 pm(1) _ assms(3), of cm ps, OF _ p] assms(2) unfolding PL by (auto simp: cm_def)
  have dm: "forest m1" "dom m1 = pixels pm"
    "\<And>x y. x \<in> pixels pm \<Longrightarrow> y \<in> pixels pm \<Longrightarrow> same_root m1 x y \<longleftrightarrow> (x, y) \<in> eqv_closure ?L"
    using m1(2) unfolding joined_def by blast+
  have ib: "x + y * int w \<in> dom m1 \<and> x + y * int w < int (length (replicate (h * w) (0 :: int)))" if "(x, y) \<in> set ps" for x y
    using p [OF that] unfolding dm(2) by (auto simp: pixels_def pm(1) simp del: of_nat_mult)
  have im: "(\<lambda>(x, y). x + y * int w) ` set ps \<union> {} = pixels pm"
    unfolding D ps_def by (simp add: image_image own)
  obtain img rm where img: "mask_loop (int w) ps [] m1 (replicate (h * w) 0) = Some (Inr img)" "length img = h * w"
    "mask_inv (climbs m1) (pixels pm) rm img"
    using mask_loop_spec [OF dm(1) mask_inv_initial [of _ "h * w"], of ps "int w", OF ib] unfolding im by auto
  have g: "get_mask classification_data h w connection_data near_points ct nt = Some (Inr img)"
    using assms(1) img(1) m1(1) unfolding get_mask_def all_masks_def Let_def pm_def [symmetric] js_def [symmetric] cm_def [symmetric]
      ps_def [symmetric] by simp
  have db: "d < int (length img)" if "d \<in> pixels pm" for d
    using that unfolding img(2) by (auto simp: pixels_def pm(1) simp del: of_nat_mult)
  note lab = mask_inv_labels [OF img(3) dm(1,2) db, unfolded img(2) inD]
  from g img(2) lab(1) lab(2) dm(3) lab(3) inD show ?thesis by (intro exI [of _ img] exI [of _ "int (length rm)"]) auto
qed

lemma greedy_loop_general:
  "greedy_loop labels s p =
     s @ filter (\<lambda>c. c \<noteq> CHR ''#'') (if s \<noteq> [] \<and> \<not> p \<and> labels \<noteq> [] \<and> hd labels = last s then tl (remdups_adj labels) else remdups_adj labels)"
  if "CHR ''#'' \<notin> set s"
  using that
proof (induction labels arbitrary: s p)
  case (Cons c cs)
  show ?case
  proof (cases "c = CHR ''#''")
    case True
    have "last s \<noteq> CHR ''#''" if "s \<noteq> []" using that Cons.prems last_in_set by metis
    then show ?thesis using Cons True by (cases cs) auto
  next
    case False
    show ?thesis
    proof (cases cs)
      case Nil
      with False show ?thesis by auto
    next
      case c': (Cons c' list)
      obtain t where t: "remdups_adj (c' # list) = c' # t" by (metis remdups_adj_Cons_alt)
      have IH: "greedy_loop cs s' p' = s' @ filter (\<lambda>c. c \<noteq> CHR ''#'') (if s' \<noteq> [] \<and> \<not> p' \<and> c' = last s' then t else c' # t)"
        if "CHR ''#'' \<notin> set s'" for s' p' using Cons.IH [OF that, of p'] unfolding c' t by simp
      have r: "remdups_adj (c # cs) = (if c = c' then c' # t else c # c' # t)" by (simp add: c' t)
      show ?thesis using False Cons.prems unfolding r by (auto simp: IH)
    qed
  qed
qed simp

section \<open>Transposition\<close>

lemma upt_blocks: "[0..<n * c] = concat (map (\<lambda>i. map (\<lambda>j. i * c + j) [0..<c]) [0..<n])"
proof (induction n)
  case (Suc n)
  have "[0..<Suc n * c] = [0..<n * c] @ map ((+) (n * c)) [0..<c]"
  proof -
    have "map ((+) (n * c)) [0..<c] = map (\<lambda>i. i + n * c) [0..<c]" by (intro map_cong refl) simp
    then show ?thesis using upt_add_eq_append [of 0 "n * c" c] unfolding map_add_upt by (simp add: add.commute)
  qed
  with Suc show ?case by simp
qed simp

lemma concat_blocks:
  "concat (map (\<lambda>i. concat (map (\<lambda>j. F (i * c + j)) [0..<c])) [0..<n]) = concat (map F [0..<n * c])"
  unfolding upt_blocks by (induction n) (simp_all add: comp_def)

text \<open>The number of an index vector in the order of the loops.\<close>

definition radix4 :: "nat list \<Rightarrow> nat list \<Rightarrow> nat" where
  "radix4 d x = ((x ! 0 * d ! 1 + x ! 1) * d ! 2 + x ! 2) * d ! 3 + x ! 3"

lemma less_4: "k < (4 :: nat) \<longleftrightarrow> k = 0 \<or> k = 1 \<or> k = 2 \<or> k = 3"
  by auto

lemma all_less_4: "(\<forall>k < (4 :: nat). P k) \<longleftrightarrow> P 0 \<and> P 1 \<and> P 2 \<and> P 3"
  unfolding less_4 by blast

lemma list_4: "length x = 4 \<Longrightarrow> x = [x ! 0, x ! 1, x ! 2, x ! 3]"
  by (auto simp: numeral_eq_Suc length_Suc_conv)

lemma radix4_less:
  assumes "\<forall>k < 4. x ! k < d ! k"
  shows "radix4 d x < d ! 0 * d ! 1 * d ! 2 * d ! 3"
  using assms unfolding radix4_def all_less_4 by (intro nat_index_less) simp_all

lemma radix4_inj:
  assumes "radix4 d x = radix4 d y" "\<forall>k < 4. x ! k < d ! k" "\<forall>k < 4. y ! k < d ! k"
  shows "\<forall>k < 4. x ! k = y ! k"
proof -
  have step: "a = a' \<and> b = b'" if "a * w + b = a' * w + b'" "b < w" "b' < w" for a a' b b' w :: nat
    using that div_mod_index by metis
  show ?thesis
    using assms(2,3) step [OF assms(1) [unfolded radix4_def]] step [of _ "d ! 2"] step [of _ "d ! 1"]
    unfolding all_less_4 by metis
qed

lemma map_radix4: "map (radix4 d) (index_vectors d) = [0..<d ! 0 * d ! 1 * d ! 2 * d ! 3]"
proof -
  let ?F = "\<lambda>t. map (\<lambda>i3. t * d ! 3 + i3) [0..<d ! 3]"
  have "map (radix4 d) (index_vectors d) =
    concat (map (\<lambda>i0. concat (map (\<lambda>i1. concat (map (\<lambda>i2. ?F ((i0 * d ! 1 + i1) * d ! 2 + i2)) [0..<d ! 2])) [0..<d ! 1])) [0..<d ! 0])"
    by (simp add: index_vectors_def map_concat comp_def radix4_def)
  also have "\<dots> = concat (map ?F [0..<d ! 0 * d ! 1 * d ! 2])"
    unfolding concat_blocks [of "\<lambda>t. concat (map (\<lambda>i2. ?F (t * d ! 2 + i2)) [0..<d ! 2])"] concat_blocks [of ?F] ..
  finally show ?thesis unfolding upt_blocks [of _ "d ! 3"] .
qed

lemma index_vectors_mem:
  "[a, b, c, e] \<in> set (index_vectors d) \<longleftrightarrow> a < d ! 0 \<and> b < d ! 1 \<and> c < d ! 2 \<and> e < d ! 3"
proof
  assume "a < d ! 0 \<and> b < d ! 1 \<and> c < d ! 2 \<and> e < d ! 3"
  then show "[a, b, c, e] \<in> set (index_vectors d)"
    by (simp add: index_vectors_def) (rule bexI [of _ a], rule bexI [of _ b], rule bexI [of _ c], simp_all)
qed (auto simp: index_vectors_def)

lemma set_index_vectors:
  "x \<in> set (index_vectors d) \<longleftrightarrow> length x = 4 \<and> (\<forall>k < 4. x ! k < d ! k)"
proof
  assume "length x = 4 \<and> (\<forall>k < 4. x ! k < d ! k)"
  moreover then have "x = [x ! 0, x ! 1, x ! 2, x ! 3]" by (intro list_4) simp
  moreover have "[a, b, c, e] \<in> set (index_vectors d)" if "a < d ! 0" "b < d ! 1" "c < d ! 2" "e < d ! 3" for a b c e
    using that by (simp add: index_vectors_mem)
  ultimately show "x \<in> set (index_vectors d)" unfolding all_less_4 by metis
qed (auto simp: index_vectors_def less_4)

lemma transpose_loop_writes:
  assumes "distinct (map (output_index shape axes) vs)" "\<forall>v \<in> set vs. output_index shape axes v < length out"
    "source + length vs \<le> length input"
  shows "\<exists>out'. transpose_loop shape axes vs source input out = Inr out' \<and> length out' = length out \<and>
    (\<forall>k < length vs. out' ! output_index shape axes (vs ! k) = input ! (source + k)) \<and>
    (\<forall>j. j \<notin> output_index shape axes ` set vs \<longrightarrow> out' ! j = out ! j)"
  using assms
proof (induction vs arbitrary: source out)
  case (Cons v vs)
  let ?o = "output_index shape axes"
  have v: "?o v < length out" "?o v \<notin> ?o ` set vs" "source < length input" using Cons.prems by auto
  obtain out' where o': "transpose_loop shape axes vs (source + 1) input (out[?o v := input ! source]) = Inr out'"
    "length out' = length out" "\<And>k. k < length vs \<Longrightarrow> out' ! ?o (vs ! k) = input ! (source + 1 + k)"
    "\<And>j. j \<notin> ?o ` set vs \<Longrightarrow> out' ! j = out[?o v := input ! source] ! j"
    using Cons.IH [of "out[?o v := input ! source]" "source + 1"] Cons.prems by auto
  have "out' ! ?o ((v # vs) ! k) = input ! (source + k)" if "k < length (v # vs)" for k
    using o'(3) [of "k - 1"] o'(4) [OF v(2)] v(1) that by (cases k) auto
  moreover have "out' ! j = out ! j" if "j \<notin> ?o ` set (v # vs)" for j
    using o'(4) [of j] that by auto
  moreover have "transpose_loop shape axes (v # vs) source input out = Inr out'"
    using o'(1) v by (simp add: Let_def)
  ultimately show ?case using o'(2) by blast
qed simp

lemma axes_permutation:
  assumes "mset axes = {#0, 1, 2, 3#}"
  shows "length axes = 4" "\<And>j. j < 4 \<Longrightarrow> axes ! j < 4" "\<And>k. k < 4 \<Longrightarrow> \<exists>j < 4. axes ! j = k"
    "shape ! (axes ! 0) * shape ! (axes ! 1) * shape ! (axes ! 2) * shape ! (axes ! 3) = shape ! 0 * shape ! 1 * shape ! 2 * (shape ! 3 :: nat)"
proof -
  have "size (mset axes) = 4" by (simp add: assms)
  then show l: "length axes = 4" by simp
  have s: "set axes = {0, 1, 2, 3}" using arg_cong [OF assms, of set_mset] by simp
  show "axes ! j < 4" if "j < 4" for j using nth_mem [of j axes] that l s by auto
  show "\<exists>j < 4. axes ! j = k" if "k < 4" for k
  proof -
    have "k \<in> set axes" unfolding s using that less_4 [of k] by blast
    then show ?thesis unfolding in_set_conv_nth l by blast
  qed
  have a: "axes = [axes ! 0, axes ! 1, axes ! 2, axes ! 3]" using l by (rule list_4)
  have "prod_mset (image_mset ((!) shape) (mset axes)) = shape ! 0 * shape ! 1 * shape ! 2 * shape ! 3"
    unfolding assms by (simp add: mult_ac)
  moreover have "prod_mset (image_mset ((!) shape) (mset [axes ! 0, axes ! 1, axes ! 2, axes ! 3])) =
     shape ! (axes ! 0) * shape ! (axes ! 1) * shape ! (axes ! 2) * shape ! (axes ! 3)" by (simp add: mult_ac)
  ultimately show "shape ! (axes ! 0) * shape ! (axes ! 1) * shape ! (axes ! 2) * shape ! (axes ! 3) = shape ! 0 * shape ! 1 * shape ! 2 * shape ! 3"
    by (simp only: a [symmetric])
qed

text \<open>
  \<^verbatim>\<open>transpose\<close>: for four dimensions, every order of the axes and a vector of the size of the shape,
  all accesses are in bounds and each value of the input is found in the result at the place that
  belongs to its coordinates in the new order of the axes (\<^verbatim>\<open>radix4\<close> counts coordinates row by row).
\<close>

lemma transpose_moves:
  assumes "length shape = 4" "mset axes = {#0, 1, 2, 3#}"
    "shape ! 0 * shape ! 1 * shape ! 2 * shape ! 3 \<le> length input"
  shows "\<exists>out. transpose_data zero input shape axes = Inr out \<and> length out = shape ! 0 * shape ! 1 * shape ! 2 * shape ! 3 \<and>
    (\<forall>i0 < shape ! 0. \<forall>i1 < shape ! 1. \<forall>i2 < shape ! 2. \<forall>i3 < shape ! 3.
       (let x = [i0, i1, i2, i3]
        in out ! radix4 (map ((!) shape) axes) (map ((!) x) axes) = input ! radix4 shape x))"
proof -
  note ax = axes_permutation [OF assms(2)]
  let ?o = "output_index shape axes" and ?vs = "index_vectors shape" and ?n = "shape ! 0 * shape ! 1 * shape ! 2 * shape ! 3"
  have o: "?o x = radix4 (map ((!) shape) axes) (map ((!) x) axes)" for x
    unfolding output_index_def radix4_def Let_def using ax(1) by (simp add: algebra_simps)
  have len: "length ?vs = ?n" using arg_cong [OF map_radix4 [of shape], of length] by simp
  have bnd: "\<forall>k < 4. map ((!) x) axes ! k < map ((!) shape) axes ! k" if "x \<in> set ?vs" for x
    using that ax(1,2) unfolding set_index_vectors by simp
  have "?o x < ?n" if "x \<in> set ?vs" for x
    using radix4_less [OF bnd [OF that]] ax(1,4) unfolding o by simp
  moreover have "inj_on ?o (set ?vs)"
  proof (rule inj_onI)
    fix x y assume xy: "x \<in> set ?vs" "y \<in> set ?vs" "?o x = ?o y"
    then have "\<forall>k < 4. map ((!) x) axes ! k = map ((!) y) axes ! k"
      using radix4_inj [OF _ bnd bnd] unfolding o by blast
    then have "\<forall>k < 4. x ! k = y ! k" using ax(1,3) by (metis nth_map)
    then show "x = y" using xy(1,2) by (intro nth_equalityI) (simp_all add: set_index_vectors)
  qed
  moreover have "distinct ?vs" using map_radix4 [of shape] by (metis distinct_map distinct_upt)
  ultimately obtain out where out: "transpose_loop shape axes ?vs 0 input (replicate ?n zero) = Inr out" "length out = ?n"
    "\<And>k. k < length ?vs \<Longrightarrow> out ! ?o (?vs ! k) = input ! k"
    using transpose_loop_writes [of shape axes ?vs "replicate ?n zero" 0 input] assms(3) len by (auto simp: distinct_map)
  have "out ! ?o x = input ! radix4 shape x" if x: "x \<in> set ?vs" for x
  proof -
    obtain k where k: "k < length ?vs" "?vs ! k = x" using x by (auto simp: in_set_conv_nth)
    then have "radix4 shape x = map (radix4 shape) ?vs ! k" by simp
    also have "\<dots> = k" using k(1) unfolding map_radix4 len by simp
    finally show ?thesis using out(3) [OF k(1)] k(2) by simp
  qed
  moreover have "[i0, i1, i2, i3] \<in> set ?vs" if "i0 < shape ! 0" "i1 < shape ! 1" "i2 < shape ! 2" "i3 < shape ! 3" for i0 i1 i2 i3
    using that by (simp add: index_vectors_mem)
  moreover have "\<not> (\<exists>axe \<in> set axes. axe \<ge> length shape)" using ax(1,2) assms(1) by (metis in_set_conv_nth not_le)
  ultimately show ?thesis using out(1,2) ax(1) assms(1) unfolding transpose_data_def o Let_def by auto
qed

theorem get_mask_components_witness:
  "\<exists>mask_img. get_mask [Fin 1, Fin 1, Fin 0, Fin 1] 1 4 ((replicate 32 (Fin 0))[4 := Fin 1]) 8 (Fin 1) (Fin 1) = Some (Inr mask_img) \<and>
     mask_img ! 0 = mask_img ! 1 \<and> mask_img ! 2 = 0 \<and> mask_img ! 3 \<noteq> 0 \<and> length mask_img = 4"
proof -
  let ?c = "[Fin 1, Fin 1, Fin 0, Fin 1]" and ?n = "(replicate 32 (Fin 0))[4 := Fin 1]"
  obtain m n where m: "get_mask ?c 1 4 ?n 8 (Fin 1) (Fin 1) = Some (Inr m)" "length m = 4"
    "\<forall>i < 4. m ! i = 0 \<longleftrightarrow> \<not> is_point ?c (Fin 1) i"
    "\<forall>i < 4. \<forall>j < 4. is_point ?c (Fin 1) i \<longrightarrow> is_point ?c (Fin 1) j \<longrightarrow>
       (m ! i = m ! j \<longleftrightarrow> (int i, int j) \<in> eqv_closure (links ?c 1 4 ?n 8 (Fin 1) (Fin 1)))"
    using get_mask_components [of 1 4 ?c 8 ?n "Fin 1" "Fin 1"] by auto
  have p: "is_point ?c (Fin 1) 0" "is_point ?c (Fin 1) 1" "\<not> is_point ?c (Fin 1) 2" "is_point ?c (Fin 1) 3"
    by (simp_all add: is_point_def at_least_def cf_le_def)
  have "(int 0, int 1) \<in> links ?c 1 4 ?n 8 (Fin 1) (Fin 1)"
    unfolding links_def using p by (intro CollectI exI [of _ 0] exI [of _ 1] exI [of _ 4]) (simp add: neighbours_def at_least_def cf_le_def)
  then have "(int 0, int 1) \<in> eqv_closure (links ?c 1 4 ?n 8 (Fin 1) (Fin 1))"
    unfolding eqv_closure_def by blast
  with m p show ?thesis by (intro exI [of _ m]) simp
qed

text \<open>On this image the links give two components.\<close>

lemma get_mask_example:
  "get_mask [Fin 1, Fin 1, Fin 0, Fin 1] 1 4 ((replicate 32 (Fin 0))[4 := Fin 1]) 8 (Fin 1) (Fin 1) = Some (Inr [1, 1, 0, 2])"
  by code_simp

section \<open>From the network's output to the mask\<close>

text \<open>\<^verbatim>\<open>softmax\<close> on neighbouring values; the exponential function of the C library is a parameter.\<close>

fun softmax :: "(cfloat \<Rightarrow> cfloat) \<Rightarrow> cfloat list \<Rightarrow> cfloat list result" where
  "softmax expf [] = Inr []"
| "softmax expf [x] = Inl Undefined"
| "softmax expf (x # y # rest) =
     (let fmax = cf_max x y;
          a = expf (f32_sub x fmax);
          b = expf (f32_sub y fmax);
          fsum = f32_add a b
      in rbind (softmax expf rest) (\<lambda>r. Inr (f32_div a fsum # f32_div b fsum # r)))"

text \<open>
  \<^verbatim>\<open>get_rects\<close> up to the mask. The shapes are those of the text detection network, 16 link scores
  and 2 class scores for each of 192 times 320 pixels.
\<close>

definition second_scores :: "(cfloat \<Rightarrow> cfloat) \<Rightarrow> cfloat list \<Rightarrow> nat list \<Rightarrow> cfloat list result" where
  "second_scores expf data shape =
     rbind (transpose_data (Fin 0) data shape [0, 2, 3, 1]) (\<lambda>t.
     rbind (softmax expf t) (\<lambda>s. Inr (get_second_channel s)))"

definition text_mask ::
  "(cfloat \<Rightarrow> cfloat) \<Rightarrow> nat \<Rightarrow> nat \<Rightarrow> cfloat list \<Rightarrow> cfloat list \<Rightarrow> cfloat \<Rightarrow> cfloat \<Rightarrow> int list result option" where
  "text_mask expf h w connection_data classification_data classification_threshold connection_threshold =
     (let connection_shape = [1, 16, h, w];
          classification_shape = [1, 2, h, w]
      in obind (Some (second_scores expf connection_data connection_shape)) (\<lambda>connection.
         obind (Some (second_scores expf classification_data classification_shape)) (\<lambda>classification.
           get_mask classification (classification_shape ! 2) (classification_shape ! 3)
             connection (connection_shape ! 1 div 2) classification_threshold connection_threshold)))"

definition get_rects_mask ::
  "(cfloat \<Rightarrow> cfloat) \<Rightarrow> cfloat list \<Rightarrow> cfloat list \<Rightarrow> cfloat \<Rightarrow> cfloat \<Rightarrow> int list result option" where
  "get_rects_mask expf = text_mask expf 192 320"

section \<open>The corner where the text begins\<close>

text \<open>
  \<^verbatim>\<open>left_top_point\<close>: the two leftmost corners so far with their positions. \<^verbatim>\<open>cv::Point2f\<close> compares
  its coordinates with \<^verbatim>\<open>!=\<close>, which is true when one of them is not a number.
\<close>

type_synonym corner = "cfloat \<times> cfloat"

definition corner_differs :: "corner \<Rightarrow> corner \<Rightarrow> bool" where
  "corner_differs p q \<longleftrightarrow> \<not> cf_eq (fst p) (fst q) \<or> \<not> cf_eq (snd p) (snd q)"

fun corner_step :: "nat \<times> corner \<Rightarrow> corner \<times> int \<times> corner \<times> int \<Rightarrow> corner \<times> int \<times> corner \<times> int" where
  "corner_step (i, p) (first_left, first_idx, second_left, second_idx) =
     (let (f, fi, s, si) =
        (if cf_less (fst p) (fst first_left)
         then (if cf_less (fst first_left) NUM_FLT_INF then (p, int i, first_left, first_idx)
               else (p, int i, second_left, second_idx))
         else (first_left, first_idx, second_left, second_idx))
      in if cf_less (fst p) (fst s) \<and> corner_differs p f then (f, fi, p, int i) else (f, fi, s, si))"

definition left_top_point :: "corner list \<Rightarrow> corner \<times> int" where
  "left_top_point points =
     (let unset = (NUM_FLT_INF, NUM_FLT_INF);
          (f, fi, s, si) = fold corner_step (enumerate 0 points) (unset, - 1, unset, - 1)
      in if cf_less (snd s) (snd f) then (s, si) else (f, fi))"

text \<open>The corners that \<^verbatim>\<open>crop_image\<close> reads.\<close>

definition crop_corners :: "corner list \<Rightarrow> int \<Rightarrow> (corner \<times> corner \<times> corner) result" where
  "crop_corners rect_points top_left_index =
     (if top_left_index < 0 then Inl Undefined
      else
        rbind (vec_at rect_points (nat top_left_index)) (\<lambda>first_point.
        rbind (vec_at rect_points (nat ((top_left_index + 1) mod 4))) (\<lambda>second_point.
        rbind (vec_at rect_points (nat ((top_left_index + 2) mod 4))) (\<lambda>third_point.
          Inr (first_point, second_point, third_point)))))"

section \<open>Recognised characters\<close>

text \<open>\<^verbatim>\<open>std::max_element\<close>: the first position whose value no other exceeds.\<close>

fun max_element :: "cfloat list \<Rightarrow> nat \<Rightarrow> nat \<Rightarrow> cfloat \<Rightarrow> nat \<times> cfloat" where
  "max_element [] i largest v = (largest, v)"
| "max_element (x # xs) i largest v =
     (if cf_less v x then max_element xs (Suc i) i x else max_element xs (Suc i) largest v)"

fun cf_abs :: "cfloat \<Rightarrow> cfloat" where
  "cf_abs (Fin x) = Fin \<bar>x\<bar>"
| "cf_abs (Inf s) = Inf False"
| "cf_abs NaN = NaN"

definition DBL_EPSILON :: cfloat where
  "DBL_EPSILON = Fin (1 / 4503599627370496)"

fun exp_sum :: "(cfloat \<Rightarrow> cfloat) \<Rightarrow> cfloat \<Rightarrow> cfloat list \<Rightarrow> cfloat \<Rightarrow> cfloat" where
  "exp_sum expf max_value [] arg_sum = arg_sum"
| "exp_sum expf max_value (x # xs) arg_sum = exp_sum expf max_value xs (f64_add arg_sum (expf (f32_sub x max_value)))"

definition softmax_arg :: "(cfloat \<Rightarrow> cfloat) \<Rightarrow> cfloat list \<Rightarrow> (nat \<times> cfloat) result" where
  "softmax_arg expf scores =
     (case scores of [] \<Rightarrow> Inl Undefined
      | x # xs \<Rightarrow>
          (let (arg_max, max_value) = max_element xs 1 0 x;
               arg_sum = exp_sum expf max_value scores (Fin 0)
           in throw_if (cf_less (cf_abs arg_sum) DBL_EPSILON) Logic_error
                (Inr (arg_max, f32_div (Fin 1) (f32_of_f64 arg_sum)))))"

definition alphabet :: string where
  "alphabet = ''0123456789abcdefghijklmnopqrstuvwxyz#''"

text \<open>The best symbols with their confidences, one for each group of 37 scores.\<close>

function best_symbols :: "(cfloat \<Rightarrow> cfloat) \<Rightarrow> cfloat list \<Rightarrow> (char \<times> cfloat) list result" where
  "best_symbols expf scores =
     (if scores = [] then Inr []
      else if length scores < length alphabet then Inl Undefined
      else
        rbind (softmax_arg expf (take (length alphabet) scores)) (\<lambda>(arg_max, c_accuracy).
        rbind (best_symbols expf (drop (length alphabet) scores)) (\<lambda>rest.
          Inr ((alphabet ! arg_max, c_accuracy) # rest))))"
  by auto
termination
  by (relation "measure (\<lambda>(e, s). length s)") (auto simp: alphabet_def)

declare best_symbols.simps [simp del]

definition read_text :: "(cfloat \<Rightarrow> cfloat) \<Rightarrow> cfloat list \<Rightarrow> string result" where
  "read_text expf scores = rbind (best_symbols expf scores) (\<lambda>symbols. Inr (greedy_loop (map fst symbols) [] False))"

section \<open>Scores of a pixel\<close>

text \<open>The share of the second of two scores.\<close>

definition pair_score :: "(cfloat \<Rightarrow> cfloat) \<Rightarrow> cfloat \<Rightarrow> cfloat \<Rightarrow> cfloat" where
  "pair_score expf x y =
     f32_div (expf (f32_sub y (cf_max x y))) (f32_add (expf (f32_sub x (cf_max x y))) (expf (f32_sub y (cf_max x y))))"

lemma softmax_pairs:
  assumes "even (length t)"
  shows "\<exists>s. softmax expf t = Inr s \<and> length s = length t \<and>
    (\<forall>k < length t div 2. s ! (2 * k + 1) = pair_score expf (t ! (2 * k)) (t ! (2 * k + 1)))"
  using assms
proof (induction expf t rule: softmax.induct)
  case (3 expf x y rest)
  then obtain s where s: "softmax expf rest = Inr s" "length s = length rest"
    "\<And>k. k < length rest div 2 \<Longrightarrow> s ! (2 * k + 1) = pair_score expf (rest ! (2 * k)) (rest ! (2 * k + 1))"
    by fastforce
  show ?case
  proof (intro exI conjI allI impI)
    fix k assume "k < length (x # y # rest) div 2"
    then show "(f32_div (expf (f32_sub x (cf_max x y))) (f32_add (expf (f32_sub x (cf_max x y))) (expf (f32_sub y (cf_max x y)))) #
        pair_score expf x y # s) ! (2 * k + 1) = pair_score expf ((x # y # rest) ! (2 * k)) ((x # y # rest) ! (2 * k + 1))"
      using s(3) [of "k - 1"] by (cases k) auto
  qed (simp_all add: s Let_def pair_score_def)
qed auto

lemma transposed_nth:
  assumes "c * h * w \<le> length input"
  shows "\<exists>t. transpose_data zero input [1, c, h, w] [0, 2, 3, 1] = Inr t \<and> length t = c * h * w \<and>
    (\<forall>i < h * w. \<forall>k < c. t ! (i * c + k) = input ! (k * (h * w) + i))"
proof -
  have "mset [0, 2, 3, 1 :: nat] = {#0, 1, 2, 3#}" by simp
  from transpose_moves [OF _ this, of "[1, c, h, w]" input zero] assms
  obtain t where t: "transpose_data zero input [1, c, h, w] [0, 2, 3, 1] = Inr t" "length t = c * h * w"
    "\<And>k y x. k < c \<Longrightarrow> y < h \<Longrightarrow> x < w \<Longrightarrow> t ! ((y * w + x) * c + k) = input ! ((k * h + y) * w + x)"
    by (auto simp: radix4_def Let_def)
  have "t ! (i * c + k) = input ! (k * (h * w) + i)" if "i < h * w" "k < c" for i k
    using t(3) [OF that(2) index_div_less [OF that(1)] index_mod_less [OF that(1)]] by (simp add: algebra_simps)
  with t show ?thesis by blast
qed

lemma second_scores_map:
  assumes "2 * c * h * w \<le> length input"
  shows "second_scores expf input [1, 2 * c, h, w] =
    Inr (map (\<lambda>k. pair_score expf (input ! (2 * (k mod c) * (h * w) + k div c)) (input ! ((2 * (k mod c) + 1) * (h * w) + k div c))) [0..<h * w * c])"
proof -
  obtain t where t: "transpose_data (Fin 0) input [1, 2 * c, h, w] [0, 2, 3, 1] = Inr t" "length t = 2 * c * h * w"
    "\<And>i k. i < h * w \<Longrightarrow> k < 2 * c \<Longrightarrow> t ! (i * (2 * c) + k) = input ! (k * (h * w) + i)"
    using transposed_nth [OF assms] by blast
  have half: "length t div 2 = h * w * c" using t(2) by simp
  obtain s where s: "softmax expf t = Inr s" "length s = length t"
    "\<And>k. k < h * w * c \<Longrightarrow> s ! (2 * k + 1) = pair_score expf (t ! (2 * k)) (t ! (2 * k + 1))"
    using softmax_pairs [of t expf] t(2) unfolding half by auto
  have "get_second_channel s =
    map (\<lambda>k. pair_score expf (input ! (2 * (k mod c) * (h * w) + k div c)) (input ! ((2 * (k mod c) + 1) * (h * w) + k div c))) [0..<h * w * c]"
    unfolding get_second_channel_def s(2) half
  proof (intro map_cong refl)
    fix k assume "k \<in> set [0..<h * w * c]"
    then have k: "k < h * w * c" by simp
    have i: "k div c < h * w" "k mod c < c" using index_div_less [OF k] index_mod_less [OF k] by simp_all
    have "2 * k = k div c * (2 * c) + 2 * (k mod c)" using div_mult_mod_eq [of k c] by (metis distrib_left mult.left_commute)
    moreover have "2 * (k mod c) + 1 < 2 * c" using i(2) by simp
    ultimately show "s ! (2 * k + 1) = pair_score expf (input ! (2 * (k mod c) * (h * w) + k div c)) (input ! ((2 * (k mod c) + 1) * (h * w) + k div c))"
      using s(3) [OF k] t(3) [OF i(1), of "2 * (k mod c)"] t(3) [OF i(1), of "2 * (k mod c) + 1"] by (simp add: add.assoc)
  qed
  with t(1) s(1) show ?thesis by (simp add: second_scores_def)
qed

text \<open>
  C34: the mask from the raw output of the network. The class scores of pixel \<^verbatim>\<open>i\<close> are the values \<^verbatim>\<open>i\<close> and
  \<^verbatim>\<open>h w + i\<close>, those of its link number \<^verbatim>\<open>k\<close> the values \<^verbatim>\<open>2 k h w + i\<close> and \<^verbatim>\<open>(2 k + 1) h w + i\<close>: transposing,
  normalising all pairs and picking every second value computes the same mask as scoring
  each pixel and each of its eight links by itself, with no access outside a vector.
\<close>

theorem text_mask_scores:
  assumes "16 * h * w \<le> length connection_data" "2 * h * w \<le> length classification_data"
  shows "text_mask expf h w connection_data classification_data ct nt =
    get_mask (map (\<lambda>i. pair_score expf (classification_data ! i) (classification_data ! (h * w + i))) [0..<h * w]) h w
      (map (\<lambda>n. pair_score expf (connection_data ! (2 * (n mod 8) * (h * w) + n div 8))
                  (connection_data ! ((2 * (n mod 8) + 1) * (h * w) + n div 8))) [0..<h * w * 8]) 8 ct nt"
  using second_scores_map [of 8 h w connection_data expf] second_scores_map [of 1 h w classification_data expf] assms
  by (simp add: text_mask_def)

theorem text_mask_scores_witness:
  "text_mask id 1 1 (replicate 16 (Fin 0)) [Fin 0, Fin 1] (Fin (4 / 5)) (Fin (4 / 5)) =
     get_mask [pair_score id (Fin 0) (Fin 1)] 1 1 (replicate 8 (pair_score id (Fin 0) (Fin 0))) 8 (Fin (4 / 5)) (Fin (4 / 5))"
proof -
  have e: "map (\<lambda>n. pair_score id (replicate 16 (Fin 0) ! (2 * (n mod 8) * (1 * 1) + n div 8))
      (replicate 16 (Fin 0) ! ((2 * (n mod 8) + 1) * (1 * 1) + n div 8))) [0..<1 * 1 * 8] = replicate 8 (pair_score id (Fin 0) (Fin 0))"
    by (rule nth_equalityI) (simp_all del: upt_rec_numeral)
  show ?thesis
    using text_mask_scores [of 1 1 "replicate 16 (Fin 0)" "[Fin 0, Fin 1]" id "Fin (4 / 5)" "Fin (4 / 5)"] unfolding e by simp
qed

section \<open>Corners\<close>

text \<open>A corner with coordinates that are numbers below the largest \<^verbatim>\<open>float\<close>.\<close>

definition proper_corner :: "corner \<Rightarrow> bool" where
  "proper_corner p \<longleftrightarrow> (case p of (Fin x, Fin y) \<Rightarrow> Fin x \<noteq> NUM_FLT_INF \<and> cf_less (Fin x) NUM_FLT_INF \<and> cf_less (Fin y) NUM_FLT_INF | _ \<Rightarrow> False)"

lemma proper_cornerE:
  assumes "proper_corner p"
  obtains x y where "p = (Fin x, Fin y)" "cf_less (Fin x) NUM_FLT_INF" "cf_less (Fin y) NUM_FLT_INF"
  using assms by (cases p; cases "fst p"; cases "snd p") (auto simp: proper_corner_def)

text \<open>What is known of the two leftmost corners after the corners \<^verbatim>\<open>ps\<close>.\<close>

definition leftmost_two :: "corner list \<Rightarrow> corner \<times> int \<times> corner \<times> int \<Rightarrow> bool" where
  "leftmost_two ps st \<longleftrightarrow> (case st of (f, fi, s, si) \<Rightarrow>
     0 \<le> fi \<and> fi < int (length ps) \<and> ps ! nat fi = f \<and> (\<forall>p \<in> set ps. \<not> cf_less (fst p) (fst f)) \<and>
     (if si = - 1 then s = (NUM_FLT_INF, NUM_FLT_INF) \<and> (\<forall>p \<in> set ps. p = f)
      else 0 \<le> si \<and> si < int (length ps) \<and> ps ! nat si = s \<and> s \<noteq> f \<and>
        (\<forall>p \<in> set ps. p \<noteq> f \<longrightarrow> \<not> cf_less (fst p) (fst s))))"

lemma leftmost_two_first:
  assumes "proper_corner p"
  shows "leftmost_two [p] (corner_step (0, p) ((NUM_FLT_INF, NUM_FLT_INF), - 1, (NUM_FLT_INF, NUM_FLT_INF), - 1))"
  using assms by (rule proper_cornerE) (simp add: leftmost_two_def corner_differs_def)

lemma leftmost_two_step:
  assumes "leftmost_two ps st" "proper_corner p" "\<forall>q \<in> set ps. proper_corner q"
  shows "leftmost_two (ps @ [p]) (corner_step (length ps, p) st)"
proof -
  obtain f fi s si where st: "st = (f, fi, s, si)" by (cases st) auto
  have I: "0 \<le> fi" "fi < int (length ps)" "ps ! nat fi = f" "\<And>q. q \<in> set ps \<Longrightarrow> \<not> cf_less (fst q) (fst f)"
    using assms(1) unfolding leftmost_two_def st by auto
  have S: "s = (NUM_FLT_INF, NUM_FLT_INF)" "\<And>q. q \<in> set ps \<Longrightarrow> q = f" if "si = - 1"
    using assms(1) that unfolding leftmost_two_def st by auto
  have T: "0 \<le> si" "si < int (length ps)" "ps ! nat si = s" "s \<noteq> f" "\<And>q. q \<in> set ps \<Longrightarrow> q \<noteq> f \<Longrightarrow> \<not> cf_less (fst q) (fst s)" if "si \<noteq> - 1"
    using assms(1) that unfolding leftmost_two_def st by auto
  have fp: "proper_corner f" using assms(3) I(1-3) nth_mem [of "nat fi" ps] by auto
  obtain x y where p: "p = (Fin x, Fin y)" "cf_less (Fin x) NUM_FLT_INF" using assms(2) by (rule proper_cornerE)
  obtain a b where f: "f = (Fin a, Fin b)" "cf_less (Fin a) NUM_FLT_INF" using fp by (rule proper_cornerE)
  have q: "\<exists>u v. q = (Fin u, Fin v)" if "q \<in> set ps" for q using assms(3) that by (metis proper_cornerE)
  have ge: "a \<le> u" if "(Fin u, Fin v) \<in> set ps" for u v using I(4) [OF that] f by simp
  show ?thesis
  proof (cases "x < a")
    case True
    then have "corner_step (length ps, p) st = (p, int (length ps), f, fi)"
      using p f by (auto simp: st corner_differs_def)
    moreover have "\<not> cf_less (fst r) (Fin x)" "r \<noteq> f \<longrightarrow> \<not> cf_less (fst r) (Fin a)" if "r \<in> set ps" for r
      using q [OF that] ge that True by fastforce+
    ultimately show ?thesis using I True by (auto simp: leftmost_two_def p f nth_append)
  next
    case False
    show ?thesis
    proof (cases "cf_less (fst p) (fst s) \<and> p \<noteq> f")
      case True
      then have "corner_step (length ps, p) st = (f, fi, p, int (length ps))"
        using False p f by (auto simp: st corner_differs_def)
      moreover have "\<not> cf_less (fst r) (fst p)" if "r \<in> set ps" "r \<noteq> f" for r
        using S(2) [OF _ that(1)] T(5) [OF _ that] True that(2) cf_less_trans by blast
      ultimately show ?thesis using I False True by (auto simp: leftmost_two_def nth_append p f)
    next
      case no: False
      then have "corner_step (length ps, p) st = (f, fi, s, si)"
        using False p f by (auto simp: st corner_differs_def)
      moreover have "p = f" if "si = - 1" using no S(1) [OF that] p by auto
      ultimately show ?thesis using I S T no False by (auto simp: leftmost_two_def nth_append p f)
    qed
  qed
qed

lemma leftmost_two_fold:
  assumes "\<forall>p \<in> set (ps @ qs). proper_corner p" "leftmost_two ps st"
  shows "leftmost_two (ps @ qs) (fold corner_step (enumerate (length ps) qs) st)"
  using assms
proof (induction qs arbitrary: ps st)
  case (Cons q qs)
  then have "leftmost_two (ps @ [q]) (corner_step (length ps, q) st)" by (intro leftmost_two_step) auto
  from Cons.IH [OF _ this] Cons.prems show ?case by simp
qed simp

text \<open>
  The corner at which \<^verbatim>\<open>crop_image\<close> starts. When the corners of a rectangle are proper numbers,
  \<^verbatim>\<open>left_top_point\<close> returns one of them with its position: the leftmost or, if it is higher (has the
  smaller ordinate), the second from the left; and cropping reads three corners in range.
\<close>

theorem left_top_point_corner:
  assumes "length points = 4" "\<forall>p \<in> set points. proper_corner p"
  shows "\<exists>p i. left_top_point points = (p, int i) \<and> i < 4 \<and> points ! i = p \<and>
    (\<exists>f \<in> set points. (\<forall>q \<in> set points. \<not> cf_less (fst q) (fst f)) \<and>
       (p = f \<or> cf_less (snd p) (snd f) \<and> (\<forall>q \<in> set points. q \<noteq> f \<longrightarrow> \<not> cf_less (fst q) (fst p)))) \<and>
    crop_corners points (int i) = Inr (p, points ! ((i + 1) mod 4), points ! ((i + 2) mod 4))"
proof -
  obtain a ps where points: "points = a # ps" using assms(1) by (cases points) auto
  let ?u = "(NUM_FLT_INF, NUM_FLT_INF)"
  obtain f fi s si where st: "fold corner_step (enumerate 0 points) (?u, - 1, ?u, - 1) = (f, fi, s, si)" by (metis prod_cases4)
  have "leftmost_two points (f, fi, s, si)"
    using leftmost_two_fold [of "[a]" ps, OF _ leftmost_two_first [of a]] assms(2) st by (simp add: points del: corner_step.simps)
  then have I: "0 \<le> fi" "fi < 4" "points ! nat fi = f" "\<forall>q \<in> set points. \<not> cf_less (fst q) (fst f)"
    and S: "if si = - 1 then s = ?u \<and> (\<forall>p \<in> set points. p = f)
      else 0 \<le> si \<and> si < 4 \<and> points ! nat si = s \<and> s \<noteq> f \<and> (\<forall>p \<in> set points. p \<noteq> f \<longrightarrow> \<not> cf_less (fst p) (fst s))"
    using assms(1) by (auto simp: leftmost_two_def split: if_splits)
  have fm: "f \<in> set points" using I assms(1) nth_mem [of "nat fi" points] by auto
  have c: "crop_corners points (int i) = Inr (points ! i, points ! ((i + 1) mod 4), points ! ((i + 2) mod 4))" if "i < 4" for i
    using that assms(1) by (simp add: crop_corners_def nat_mod_distrib nat_add_distrib)
  show ?thesis
  proof (cases "cf_less (snd s) (snd f)")
    case True
    have "proper_corner f" using fm assms(2) by blast
    then have "si \<noteq> - 1" using S True by (auto elim!: proper_cornerE dest: cf_less_asym)
    with S have "left_top_point points = (s, int (nat si))" "nat si < 4" "points ! nat si = s"
      using True by (auto simp: left_top_point_def st)
    with S True I(4) fm c [of "nat si"] \<open>si \<noteq> - 1\<close> show ?thesis by (intro exI [of _ s] exI [of _ "nat si"]) auto
  next
    case False
    have "left_top_point points = (f, int (nat fi))" "nat fi < 4"
      using False I by (auto simp: left_top_point_def st)
    with I fm c [of "nat fi"] show ?thesis by (intro exI [of _ f] exI [of _ "nat fi"]) auto
  qed
qed

theorem left_top_point_corner_witness:
  "\<exists>p i. left_top_point [(Fin 1, Fin 9), (Fin 0, Fin 2), (Fin 7, Fin 1), (Fin 8, Fin 8)] = (p, int i) \<and> i < 4"
proof -
  have "\<forall>p \<in> set [(Fin 1, Fin 9), (Fin 0, Fin 2), (Fin 7, Fin 1), (Fin 8, Fin 8)]. proper_corner p"
    by (simp add: proper_corner_def NUM_FLT_INF_def)
  from left_top_point_corner [OF _ this] show ?thesis by auto
qed

section \<open>The text of a box\<close>

lemma max_element_spec:
  assumes "largest < i" "zs = ys @ xs" "length ys = i" "zs ! largest = v" "\<forall>y \<in> set ys. \<not> cf_less v y"
  shows "\<exists>j. max_element xs i largest v = (j, zs ! j) \<and> j < length zs \<and> (\<forall>z \<in> set zs. \<not> cf_less (zs ! j) z)"
  using assms
proof (induction xs arbitrary: i largest v ys)
  case (Cons x xs)
  have x: "zs ! i = x" using Cons.prems(2,3) by (simp add: nth_append)
  show ?case
  proof (cases "cf_less v x")
    case True
    have "\<forall>y \<in> set (ys @ [x]). \<not> cf_less x y" using Cons.prems(5) True cf_less_trans by auto
    with Cons.IH [of i "Suc i" "ys @ [x]" x] Cons.prems x True show ?thesis by simp
  next
    case False
    with Cons.IH [of largest "Suc i" "ys @ [x]" v] Cons.prems show ?thesis by simp
  qed
qed auto

definition best_index :: "cfloat list \<Rightarrow> nat" where
  "best_index b = fst (max_element (tl b) 1 0 (hd b))"

lemma best_index:
  assumes "b \<noteq> []"
  shows "best_index b < length b" "\<forall>z \<in> set b. \<not> cf_less (b ! best_index b) z"
    "max_element (tl b) 1 0 (hd b) = (best_index b, b ! best_index b)"
proof -
  obtain x xs where b: "b = x # xs" using assms by (cases b) auto
  obtain j where j: "max_element xs 1 0 x = (j, b ! j)" "j < length b" "\<forall>z \<in> set b. \<not> cf_less (b ! j) z"
    using max_element_spec [of 0 1 b "[x]" xs x] by (auto simp: b)
  moreover have "best_index b = j" using j(1) by (simp add: best_index_def b)
  ultimately show "best_index b < length b" "\<forall>z \<in> set b. \<not> cf_less (b ! best_index b) z"
    "max_element (tl b) 1 0 (hd b) = (best_index b, b ! best_index b)" by (simp_all add: b)
qed

text \<open>The sum of the exponentials of a group is too small to divide by.\<close>

definition degenerate :: "(cfloat \<Rightarrow> cfloat) \<Rightarrow> cfloat list \<Rightarrow> bool" where
  "degenerate expf b \<longleftrightarrow> cf_less (cf_abs (exp_sum expf (b ! best_index b) b (Fin 0))) DBL_EPSILON"

lemma softmax_arg_spec:
  assumes "b \<noteq> []"
  shows "softmax_arg expf b = (if degenerate expf b then Inl Logic_error
     else Inr (best_index b, f32_div (Fin 1) (f32_of_f64 (exp_sum expf (b ! best_index b) b (Fin 0)))))"
  using assms best_index(3) [OF assms] by (cases b) (simp_all add: softmax_arg_def degenerate_def throw_if_def)

text \<open>The groups of scores, one for each position.\<close>

definition score_groups :: "cfloat list \<Rightarrow> cfloat list list" where
  "score_groups scores = map (\<lambda>k. take 37 (drop (37 * k) scores)) [0..<length scores div 37]"

lemma score_groups_Cons:
  assumes "37 \<le> length scores"
  shows "score_groups scores = take 37 scores # score_groups (drop 37 scores)"
proof -
  have "[0..<length scores div 37] = 0 # map Suc [0..<length scores div 37 - 1]"
    using assms by (metis Suc_pred div_greater_zero_iff map_Suc_upt upt_conv_Cons zero_less_numeral One_nat_def)
  moreover have "length (drop 37 scores) div 37 = length scores div 37 - 1" by simp
  ultimately show ?thesis by (simp add: score_groups_def add.commute del: length_drop)
qed

lemma best_symbols_groups:
  assumes "37 dvd length scores"
  shows "if \<exists>b \<in> set (score_groups scores). degenerate expf b then best_symbols expf scores = Inl Logic_error
    else \<exists>symbols. best_symbols expf scores = Inr symbols \<and>
      map fst symbols = map (\<lambda>b. alphabet ! best_index b) (score_groups scores)"
  using assms
proof (induction scores rule: length_induct)
  case (1 scores)
  have a: "length alphabet = 37" by (simp add: alphabet_def)
  show ?case
  proof (cases "scores = []")
    case True
    then show ?thesis by (simp add: score_groups_def best_symbols.simps)
  next
    case False
    with 1(2) have l: "37 \<le> length scores" by (auto dest: dvd_imp_le)
    let ?r = "drop 37 scores" and ?b = "take 37 scores"
    have b: "?b \<noteq> []" using False by simp
    have "length ?r < length scores" "37 dvd length ?r" using l 1(2) by (auto simp: dvd_diff_nat)
    with 1(1) have IH: "if \<exists>b \<in> set (score_groups ?r). degenerate expf b then best_symbols expf ?r = Inl Logic_error
      else \<exists>symbols. best_symbols expf ?r = Inr symbols \<and> map fst symbols = map (\<lambda>b. alphabet ! best_index b) (score_groups ?r)"
      by blast
    have e: "best_symbols expf scores = rbind (softmax_arg expf ?b) (\<lambda>(arg_max, c_accuracy).
        rbind (best_symbols expf ?r) (\<lambda>rest. Inr ((alphabet ! arg_max, c_accuracy) # rest)))"
      using False l by (subst best_symbols.simps) (simp add: a)
    show ?thesis
      unfolding e softmax_arg_spec [OF b] score_groups_Cons [OF l] using IH by (auto split: if_splits)
  qed
qed

text \<open>
  C35: the text of a box. For scores in groups of 37, one for each symbol of the alphabet, reading is
  defined: it throws exactly if the exponentials of some group vanish, and otherwise takes of each
  group a symbol with the largest score, which lies in the alphabet, drops repetitions and then the
  separator, so that a letter stands twice in the text exactly where the separator was between.
\<close>

theorem read_text_collapse:
  assumes "37 dvd length scores"
  shows "read_text expf scores =
      (if \<exists>b \<in> set (score_groups scores). degenerate expf b then Inl Logic_error
       else Inr (filter (\<lambda>c. c \<noteq> CHR ''#'') (remdups_adj (map (\<lambda>b. alphabet ! best_index b) (score_groups scores))))) \<and>
    (\<forall>b \<in> set (score_groups scores). best_index b < length alphabet \<and> (\<forall>z \<in> set b. \<not> cf_less (b ! best_index b) z))"
proof (intro conjI ballI)
  show "read_text expf scores =
      (if \<exists>b \<in> set (score_groups scores). degenerate expf b then Inl Logic_error
       else Inr (filter (\<lambda>c. c \<noteq> CHR ''#'') (remdups_adj (map (\<lambda>b. alphabet ! best_index b) (score_groups scores)))))"
    using best_symbols_groups [OF assms, of expf] by (auto simp: read_text_def greedy_loop_general split: if_splits)
  fix b assume "b \<in> set (score_groups scores)"
  then obtain k where k: "k < length scores div 37" "b = take 37 (drop (37 * k) scores)" by (auto simp: score_groups_def)
  have "37 * k + 37 \<le> length scores" using k(1) by (simp add: less_eq_div_iff_mult_less_eq [symmetric] Suc_le_eq [symmetric])
  then have "length b = 37" using k(2) by simp
  then have "b \<noteq> []" "length b = length alphabet" by (auto simp: alphabet_def)
  with best_index [of b] show "best_index b < length alphabet" "\<And>z. z \<in> set b \<Longrightarrow> \<not> cf_less (b ! best_index b) z" by auto
qed

lemma exp_sum_steady:
  assumes "f64_add s (expf (f32_sub x v)) = s"
  shows "exp_sum expf v (replicate n x) s = s"
  using assms by (induction n) simp_all

definition toy_exp :: "cfloat \<Rightarrow> cfloat" where
  "toy_exp x = (if x = Fin 0 then Fin 1 else Fin 0)"

lemma f64_round_1: "f64_round 1 = Fin 1"
  by (simp add: f64_round_def ilog2_def Let_def power_int_minus rne_def)

lemma f32_round_0: "f32_round 0 = Fin 0"
  by (simp add: f32_round_def)

lemma f32_round_minus_1: "f32_round (- 1) = Fin (- 1)"
  by (simp add: f32_round_def ilog2_def Let_def power_int_minus rne_def)

theorem read_text_collapse_witness:
  "read_text toy_exp ((Fin 1 # replicate 36 (Fin 0)) @ (Fin 1 # replicate 36 (Fin 0))) = Inr ''0''"
proof -
  let ?b = "Fin 1 # replicate 36 (Fin 0)"
  have g: "score_groups (?b @ ?b) = [?b, ?b]" by code_simp
  have i: "best_index ?b = 0" by code_simp
  have s: "f64_add (Fin 0) (toy_exp (f32_sub (Fin 1) (Fin 1))) = Fin 1" "f64_add (Fin 1) (toy_exp (f32_sub (Fin 0) (Fin 1))) = Fin 1"
    by (simp_all add: toy_exp_def f32_sub_def f64_round_1 f32_round_minus_1 f32_round_0)
  have "exp_sum toy_exp (Fin 1) ?b (Fin 0) = Fin 1" unfolding exp_sum.simps s(1) by (rule exp_sum_steady [of _ toy_exp, OF s(2)])
  then have d: "\<not> degenerate toy_exp ?b" unfolding degenerate_def i by (simp add: DBL_EPSILON_def)
  have a: "alphabet ! 0 = CHR ''0''" by (simp add: alphabet_def)
  have "37 dvd length (?b @ ?b)" by simp
  from read_text_collapse [OF this, of toy_exp] show ?thesis unfolding g using d i a by simp
qed

end
