(* ===== verification/GatewayServices.thy ===== *)
theory GatewayServices
  imports GatewayUtils InferencePipe OcrMask
begin

text \<open>
  The FastCGI services of the gateway that answer a posted form: the loop body that the services for
  images share, three of them (classification, face detection, segmentation) from the form to the reply, and the
  service that sets the policy. OpenCV, the conversion of a float to text and the clock are
  parameters, the FastCGI library delivers a request. Log messages are left out, and a
  response of a server has less than \<open>2 ^ 31\<close> characters, so its positions fit into an \<^verbatim>\<open>int\<close>.
\<close>

section \<open>A request\<close>

record fcgi_request =
  req_CONTENT_TYPE :: "string option"
  req_CONTENT_LENGTH :: "string option"
  req_in :: string
  req_malloc :: bool
  req_time :: string

text \<open>\<^verbatim>\<open>strtoul(s, NULL, 10)\<close>: a negated number wraps around, a number out of range gives the largest.\<close>

definition strtoul :: "string \<Rightarrow> u64" where
  "strtoul s =
     (let t = ltrim s;
          neg = (case t of [] \<Rightarrow> False | c # _ \<Rightarrow> c = CHR ''-'');
          u = (case t of [] \<Rightarrow> [] | c # cs \<Rightarrow> if c = CHR ''-'' \<or> c = CHR ''+'' then cs else t);
          v = digits_value (takeWhile isdigit u)
      in if v \<ge> 2 ^ 64 then - 1 else if neg then - of_int v else of_int v)"

definition line_end :: string where
  "line_end = [CHR 0x0D, CHR 0x0A]"

definition error_reply :: "string \<Rightarrow> string" where
  "error_reply msg = ''Status: 404 error'' @ line_end @ ''Content-Type: text/html'' @ line_end @ line_end @ msg"

definition ok_header :: string where
  "ok_header = ''Status: 200 OK'' @ line_end @ ''Content-Type: text/html'' @ line_end @ ''charset: utf-8'' @ line_end @
     ''X-Content-Type-Options: nosniff'' @ line_end @ ''X-frame-options: deny'' @ line_end @ line_end"

definition INT32_MAX :: nat where
  "INT32_MAX = 2147483647"

text \<open>
  The reply to a request that is refused, or the posted text. The buffer has \<^verbatim>\<open>data_length\<close> bytes; after
  reading as much as fits a zero is stored behind what was read.
\<close>

definition read_post :: "fcgi_request \<Rightarrow> (string + string) result" where
  "read_post req =
     (case req_CONTENT_TYPE req of
        None \<Rightarrow> Inr (Inl (error_reply ''not Acceptable''))
      | Some pContent \<Rightarrow>
          if str_find pContent ''application/x-www-form-urlencoded'' 0 = None then Inr (Inl (error_reply ''not Acceptable''))
          else
            (case req_CONTENT_LENGTH req of
               None \<Rightarrow> Inr (Inl (error_reply ''get content length error''))
             | Some pLenstr \<Rightarrow>
                 (let data_length = unat (1 + strtoul pLenstr)
                  in if data_length > INT32_MAX then Inr (Inl (error_reply ''get content length error''))
                     else if \<not> req_malloc req then Inr (Inl (error_reply ''malloc buffer error''))
                     else
                       (let post_data = take data_length (req_in req); ret = length post_data
                        in if ret < data_length then Inr (Inr (takeWhile (\<lambda>c. c \<noteq> CHR 0x00) post_data))
                           else Inl Undefined))))"

section \<open>The services for images\<close>

record 'img cv_lib =
  imdecode :: "u8 list \<Rightarrow> 'img"
  mat_empty :: "'img \<Rightarrow> bool"
  mat_cols :: "'img \<Rightarrow> int"
  mat_rows :: "'img \<Rightarrow> int"
  float_to_string :: "cfloat \<Rightarrow> string"

definition Base2Mat :: "'img cv_lib \<Rightarrow> string \<Rightarrow> 'img result" where
  "Base2Mat cv s_base64 = rbind (DecodeBase s_base64) (\<lambda>s_mat. Inr (imdecode cv s_mat))"

text \<open>The elapsed time with three digits behind the point; a text without a point makes \<^verbatim>\<open>substr\<close> throw.\<close>

definition cut_time :: "string \<Rightarrow> string result" where
  "cut_time time_str =
     (case str_find time_str ''.'' 0 of
        None \<Rightarrow> Inl Out_of_range
      | Some pos_start \<Rightarrow> Inr (take pos_start time_str @ take 4 (drop pos_start time_str)))"

definition time_field :: "string \<Rightarrow> string" where
  "time_field t = [CHR 0x09] @ ''\"time\":'' @ t @ [CHR 0x0A] @ ''}''"

definition image_service ::
  "'img cv_lib \<Rightarrow> ('img \<Rightarrow> string \<Rightarrow> 'st \<Rightarrow> (string \<times> 'st) result) \<Rightarrow> string \<Rightarrow> fcgi_request \<Rightarrow> 'st \<Rightarrow> (string \<times> 'st) result" where
  "image_service cv run sep req st =
     rbind (read_post req) (\<lambda>p.
       (case p of
          Inl reply \<Rightarrow> Inr (reply, st)
        | Inr post_str \<Rightarrow>
            if get_data post_str ''healthcheck'' = ''1'' then Inr (ok_header @ ''healthcheck ok'', st)
            else
              rbind (deData (get_data post_str ''image'')) (\<lambda>s_base64.
              rbind (Base2Mat cv s_base64) (\<lambda>img.
              rbind (run img post_str st) (\<lambda>(ie_result, st').
              rbind (cut_time (req_time req)) (\<lambda>cut_time_str.
                Inr (ok_header @ ie_result @ sep @ time_field cut_time_str, st')))))))"

text \<open>The call into the runtime with one image and one vector for the results.\<close>

definition infer_one ::
  "('img, 'w) irt_env \<Rightarrow> 'img \<Rightarrow> string \<Rightarrow> string \<Rightarrow> string \<Rightarrow> ('img, 'w) irt_state \<Rightarrow>
     (int \<times> cfloat list \<times> string \<times> ('img, 'w) irt_state) result" where
  "infer_one env img model_file address params_str st =
     rbind (vino_ie_pipeline_infer_images env [img] ([], [[]]) model_file \<lparr>url = address, urlParam = params_str, response = []\<rparr> st)
       (\<lambda>(res, (_, rawDetectionResults), urlInfo, st').
          (case rawDetectionResults of
             rawDetectionResult # _ \<Rightarrow> Inr (res, rawDetectionResult, response urlInfo, st')
           | [] \<Rightarrow> Inl Undefined))"

text \<open>What is kept of the answer of a server: from the first brace to before the last closing one.\<close>

definition remote_result :: "string \<Rightarrow> string result" where
  "remote_result reply =
     (case str_find reply ''{'' 0 of
        None \<Rightarrow> Inl Out_of_range
      | Some pos_start \<Rightarrow>
          (let rest = drop pos_start reply;
               before = dropWhile (\<lambda>c. c \<noteq> CHR ''}'') (rev rest)
           in Inr ((if before = [] then rest else rev (drop 1 before)) @ '','' @ [CHR 0x0A])))"

definition tab :: string where
  "tab = [CHR 0x09]"

definition quoted :: "string \<Rightarrow> string" where
  "quoted s = ''\"'' @ s @ ''\"''"

definition infer_error :: "string \<Rightarrow> string" where
  "infer_error sep = ''{'' @ line_end @ tab @ quoted ''ret'' @ '':1,'' @ line_end @ tab @ quoted ''msg'' @ '':'' @ quoted ''inference error'' @ sep"

definition infer_ok :: string where
  "infer_ok = ''{'' @ line_end @ tab @ quoted ''ret'' @ '':0,'' @ line_end @ tab @ quoted ''msg'' @ '':'' @ quoted ''ok'' @ '','' @ line_end"

definition data_list :: "string \<Rightarrow> string \<Rightarrow> string" where
  "data_list name items =
     infer_ok @ tab @ quoted ''data'' @ '':{'' @ line_end @ tab @ tab @ quoted name @ '':['' @ line_end @ items @
     tab @ tab @ '']'' @ line_end @ tab @ ''},'' @ line_end"

subsection \<open>Classification\<close>

text \<open>The name between the quotes of a line of the label file; a count below zero means the rest.\<close>

definition tag_name :: "string \<Rightarrow> string result" where
  "tag_name line =
     (case str_find line [CHR 0x27] 0 of
        None \<Rightarrow> Inl Out_of_range
      | Some p \<Rightarrow>
          (let label = drop p line
           in Inr (''\"'' @ (if length label < 3 then drop 1 label else take (length label - 3) (drop 1 label)) @ ''\",'')))"

fun tag_loop :: "nat \<Rightarrow> (cfloat \<Rightarrow> string) \<Rightarrow> string list \<Rightarrow> cfloat list \<Rightarrow> string \<Rightarrow> string result" where
  "tag_loop 0 fstr labels detection ie_result = Inr ie_result"
| "tag_loop (Suc n) fstr labels detection ie_result =
     (case detection of
        [] \<Rightarrow> Inl Undefined
      | x # xs \<Rightarrow>
          (case max_element xs 1 0 x of (position, biggest) \<Rightarrow>
             rbind (if cf_less (Fin (1 / 2)) biggest
                    then rbind (vec_at labels position) (\<lambda>line. rbind (tag_name line) (\<lambda>label.
                           Inr (ie_result @ tab @ tab @ tab @ ''{'' @ quoted ''tag_name'' @ '':'' @ label @
                             quoted ''tag_confidence'' @ '':'' @ fstr biggest @ ''}'' @ [CHR 0x0A])))
                    else Inr ie_result) (\<lambda>ie_result'.
               tag_loop n fstr labels (detection[position := Fin 0]) ie_result')))"

text \<open>The contents of the label file, if it can be opened.\<close>

definition classification ::
  "'img cv_lib \<Rightarrow> ('img, 'w) irt_env \<Rightarrow> string option \<Rightarrow> 'img \<Rightarrow> string \<Rightarrow> ('img, 'w) irt_state \<Rightarrow> (string \<times> ('img, 'w) irt_state) result" where
  "classification cv env label_file img params_str st =
     (if mat_empty cv img then Inr (''error: frame is empty'', st)
      else
        rbind (infer_one env img ''./models/alexnet.xml'' ''https://api.ai.qq.com/fcgi-bin/image/image_tag'' params_str st)
          (\<lambda>(res, detection, reply, st').
             rbind (if res = RT_REMOTE_INFER_OK then remote_result reply
                    else if res = 0
                    then rbind (tag_loop 10 (float_to_string cv) (case label_file of None \<Rightarrow> [] | Some f \<Rightarrow> lines_of f) detection [])
                           (\<lambda>items. Inr (data_list ''tag_list'' items))
                    else Inr (infer_error ('','' @ line_end))) (\<lambda>ie_result. Inr (ie_result, st'))))"

subsection \<open>Segmentation\<close>

definition float_to_uchar :: "cfloat \<Rightarrow> u8 result" where
  "float_to_uchar x =
     (case x of
        Fin r \<Rightarrow> (let n = (if r < 0 then - \<lfloor>- r\<rfloor> else \<lfloor>r\<rfloor>) in if 0 \<le> n \<and> n < 256 then Inr (of_int n) else Inl Undefined)
      | _ \<Rightarrow> Inl Undefined)"

fun to_classes :: "nat \<Rightarrow> cfloat list \<Rightarrow> u8 list result" where
  "to_classes 0 detection = Inr []"
| "to_classes (Suc n) [] = Inl Undefined"
| "to_classes (Suc n) (x # xs) = rbind (float_to_uchar x) (\<lambda>b. rbind (to_classes n xs) (\<lambda>bs. Inr (b # bs)))"

definition segmentation ::
  "'img cv_lib \<Rightarrow> ('img, 'w) irt_env \<Rightarrow> 'img \<Rightarrow> string \<Rightarrow> ('img, 'w) irt_state \<Rightarrow> (string \<times> ('img, 'w) irt_state) result" where
  "segmentation cv env img params_str st =
     (if mat_empty cv img then Inr (''error: frame is empty'', st)
      else
        rbind (infer_one env img ''./models/deeplabv3.xml'' ''https://api.ai.qq.com/fcgi-bin/image/image_tag'' params_str st)
          (\<lambda>(res, detection, reply, st').
             (let image_width = 513; image_height = 513
              in if res = RT_REMOTE_INFER_OK
                 then Inr (''{'' @ line_end @ tab @ quoted ''ret'' @ '':2,'' @ line_end @ tab @ quoted ''msg'' @ '':'' @ quoted ''can not support remote inference'', st')
                 else if res = 0
                 then rbind (to_classes (image_height * image_width) detection) (\<lambda>out_classes.
                      rbind (EncodeBase out_classes (int (image_width * image_height))) (\<lambda>out_str.
                        Inr (infer_ok @ tab @ quoted ''data'' @ '':'' @ line_end @ quoted out_str, st')))
                 else Inr (infer_error [], st'))))"

subsection \<open>Face detection\<close>

fun f32_mul :: "cfloat \<Rightarrow> cfloat \<Rightarrow> cfloat" where
  "f32_mul NaN y = NaN"
| "f32_mul x NaN = NaN"
| "f32_mul (Inf s) (Inf t) = Inf (s \<noteq> t)"
| "f32_mul (Inf s) (Fin y) = (if y = 0 then NaN else Inf (s \<noteq> (y < 0)))"
| "f32_mul (Fin x) (Inf t) = (if x = 0 then NaN else Inf (t \<noteq> (x < 0)))"
| "f32_mul (Fin x) (Fin y) = f32_round (x * y)"

text \<open>A number must fit into an \<^verbatim>\<open>int\<close>.\<close>

definition as_int :: "int \<Rightarrow> int result" where
  "as_int n = (if - (2 ^ 31) \<le> n \<and> n < 2 ^ 31 then Inr n else Inl Undefined)"

definition float_to_int :: "cfloat \<Rightarrow> int result" where
  "float_to_int x = (case x of Fin r \<Rightarrow> as_int (if r < 0 then - \<lfloor>- r\<rfloor> else \<lfloor>r\<rfloor>) | _ \<Rightarrow> Inl Undefined)"

fun nat_to_string :: "nat \<Rightarrow> string" where
  "nat_to_string n = (if n < 10 then [] else nat_to_string (n div 10)) @ [char_of (48 + n mod 10)]"

declare nat_to_string.simps [simp del]

definition int_to_string :: "int \<Rightarrow> string" where
  "int_to_string i = (if i < 0 then CHR ''-'' # nat_to_string (nat (- i)) else nat_to_string (nat i))"

text \<open>The corners of a face from a row of seven numbers: the box has integer sides.\<close>

definition face_box :: "cfloat \<Rightarrow> cfloat \<Rightarrow> cfloat list \<Rightarrow> (int \<times> int \<times> int \<times> int) result" where
  "face_box image_width image_height row =
     rbind (float_to_int (f32_mul (row ! 3) image_width)) (\<lambda>x.
     rbind (float_to_int (f32_mul (row ! 4) image_height)) (\<lambda>y.
     rbind (float_to_int (f32_sub (f32_mul (row ! 5) image_width) (f32_round (of_int x)))) (\<lambda>width.
     rbind (float_to_int (f32_sub (f32_mul (row ! 6) image_height) (f32_round (of_int y)))) (\<lambda>height.
     rbind (as_int (width + x)) (\<lambda>x2.
     rbind (as_int (height + y)) (\<lambda>y2. Inr (x, y, x2, y2)))))))"

definition face_json :: "int \<times> int \<times> int \<times> int \<Rightarrow> string" where
  "face_json b = (case b of (x1, y1, x2, y2) \<Rightarrow>
     tab @ tab @ ''{'' @ [CHR 0x0A] @ tab @ tab @ tab @ quoted ''x1'' @ '':'' @ int_to_string x1 @
     '','' @ [CHR 0x0A] @ tab @ tab @ tab @ quoted ''y1'' @ '':'' @ int_to_string y1 @
     '','' @ [CHR 0x0A] @ tab @ tab @ tab @ quoted ''x2'' @ '':'' @ int_to_string x2 @
     '','' @ [CHR 0x0A] @ tab @ tab @ tab @ quoted ''y2'' @ '':'' @ int_to_string y2 @ [CHR 0x0A] @ tab @ tab @ ''}'')"

text \<open>
  The loop over the proposals: the number that are left, the numbers from the current row on, and
  \<^verbatim>\<open>flag\<close>. Each number is read where the code reads it, so a row that is not looked at in
  full may be incomplete.
\<close>

fun face_loop :: "nat \<Rightarrow> cfloat \<Rightarrow> cfloat \<Rightarrow> cfloat list \<Rightarrow> nat \<Rightarrow> string \<Rightarrow> string result" where
  "face_loop 0 image_width image_height raw flag ie_result = Inr ie_result"
| "face_loop (Suc n) image_width image_height raw flag ie_result =
     rbind (vec_at raw 0) (\<lambda>image_num.
       if cf_less image_num (Fin 0) then Inr ie_result
       else
         rbind (vec_at raw 2) (\<lambda>accuracy.
           if cf_le accuracy (Fin (1 / 2)) then face_loop n image_width image_height (drop 7 raw) flag ie_result
           else if length raw < 7 then Inl Undefined
           else
             rbind (face_box image_width image_height (take 7 raw)) (\<lambda>b.
               if cf_less (Fin (1 / 2)) accuracy
               then face_loop n image_width image_height (drop 7 raw) (flag + 1)
                      (ie_result @ (if flag \<noteq> 1 then '','' @ [CHR 0x0A] else []) @ face_json b)
               else face_loop n image_width image_height (drop 7 raw) flag ie_result)))"

definition face_detection ::
  "'img cv_lib \<Rightarrow> ('img, 'w) irt_env \<Rightarrow> 'img \<Rightarrow> string \<Rightarrow> ('img, 'w) irt_state \<Rightarrow> (string \<times> ('img, 'w) irt_state) result" where
  "face_detection cv env img params_str st =
     (if mat_empty cv img then Inr (''error: frame is empty'', st)
      else
        rbind (infer_one env img ''./models/face-detection-adas-0001.xml''
            ''https://api.ai.qq.com/fcgi-bin/face/face_detectmultiface'' params_str st)
          (\<lambda>(res, rawDetectionResult, reply, st').
             rbind (if res = RT_REMOTE_INFER_OK then remote_result reply
                    else if res = 0
                    then rbind (face_loop 200 (f32_round (of_int (mat_cols cv img))) (f32_round (of_int (mat_rows cv img)))
                                 rawDetectionResult 1 [])
                           (\<lambda>items. Inr (data_list ''face_list'' items))
                    else Inr (infer_error ('','' @ line_end))) (\<lambda>ie_result. Inr (ie_result, st'))))"

section \<open>The service for the policy\<close>

text \<open>
  Here the buffer has exactly the length of the content and no zero is stored behind it: unless a zero was
  posted, the text is read past the end of the buffer.
\<close>

definition policy_post :: "fcgi_request \<Rightarrow> (string + string) result" where
  "policy_post req =
     (case req_CONTENT_TYPE req of
        None \<Rightarrow> Inr (Inl (error_reply ''not Acceptable''))
      | Some pContent \<Rightarrow>
          if str_find pContent ''application/x-www-form-urlencoded'' 0 = None then Inr (Inl (error_reply ''not Acceptable''))
          else
            (case req_CONTENT_LENGTH req of
               None \<Rightarrow> Inr (Inl (error_reply ''get content length error''))
             | Some pLenstr \<Rightarrow>
                 (let data_length = unat (strtoul pLenstr)
                  in if data_length > INT32_MAX then Inr (Inl (error_reply ''get content length error''))
                     else if \<not> req_malloc req then Inr (Inl (error_reply ''malloc buffer error''))
                     else
                       (let post_data = take data_length (req_in req)
                        in if CHR 0x00 \<in> set post_data then Inr (Inr (takeWhile (\<lambda>c. c \<noteq> CHR 0x00) post_data))
                           else Inl Undefined))))"

definition policy_answer :: "string \<Rightarrow> ('img, 'w) irt_state \<Rightarrow> (string \<times> ('img, 'w) irt_state) result" where
  "policy_answer post_str st =
     (if get_data post_str ''healthcheck'' = ''1'' then Inr (ok_header @ ''healthcheck ok'', st)
      else
        (let local_str = get_data post_str ''local'';
             here = (if local_str = ''0'' then False else True);
             device_str = get_data post_str ''device''
         in rbind (vino_ie_pipeline_set_parameters \<lparr>isLocalInference = here, inferDevice = device_str\<rparr> st) (\<lambda>(res_policy, st').
              Inr (ok_header @ (if res_policy = - 1 then ''failed to set policy daemon'' else ''successfully set the policy daemon''), st'))))"

definition policy_service :: "fcgi_request \<Rightarrow> ('img, 'w) irt_state \<Rightarrow> (string \<times> ('img, 'w) irt_state) result" where
  "policy_service req st =
     rbind (policy_post req) (\<lambda>p. (case p of Inl reply \<Rightarrow> Inr (reply, st) | Inr post_str \<Rightarrow> policy_answer post_str st))"

section \<open>Numbers as text\<close>

lemma of_char_digit: "n < 10 \<Longrightarrow> of_char (char_of (48 + n :: nat)) = (48 + of_nat n :: int)"
proof -
  assume "n < 10"
  moreover have "\<forall>n \<in> set [0..<10]. of_char (char_of (48 + n :: nat)) = (48 + of_nat n :: int)" by code_simp
  ultimately show ?thesis by simp
qed

lemma digits_value_snoc: "digits_value (s @ [c]) = 10 * digits_value s + digit_value c"
  by (simp add: digits_value_def)

lemma digits_value_nat_to_string: "digits_value (nat_to_string n) = int n"
proof (induction n rule: nat_to_string.induct)
  case (1 n)
  have d: "digit_value (char_of (48 + n mod 10)) = int (n mod 10)"
    using of_char_digit [of "n mod 10"] by (simp add: digit_value_def)
  show ?case
  proof (cases "n < 10")
    case True
    with d show ?thesis by (subst nat_to_string.simps) (simp add: digits_value_def)
  next
    case False
    with 1 d show ?thesis by (subst nat_to_string.simps) (simp add: digits_value_snoc zdiv_int zmod_int)
  qed
qed

lemma nat_to_string_digits: "c \<in> set (nat_to_string n) \<Longrightarrow> isdigit c"
proof (induction n rule: nat_to_string.induct)
  case (1 n)
  have "isdigit (char_of (48 + n mod 10))"
  proof -
    have "\<forall>k \<in> set [0..<10]. isdigit (char_of (48 + k :: nat))" by code_simp
    then show ?thesis by simp
  qed
  with 1 show ?case by (subst (asm) nat_to_string.simps) (auto split: if_splits)
qed

lemma nat_to_string_not_Nil: "nat_to_string n \<noteq> []"
  by (subst nat_to_string.simps) simp

lemma digit_no_space: "isdigit c \<Longrightarrow> \<not> isspace c \<and> c \<noteq> CHR ''-'' \<and> c \<noteq> CHR ''+''"
  by (auto simp: isdigit_def isspace_def)

lemma strtoul_nat_to_string: "n < 2 ^ 64 \<Longrightarrow> strtoul (nat_to_string n) = of_nat n"
proof -
  assume n: "n < 2 ^ 64"
  obtain c cs where s: "nat_to_string n = c # cs" using nat_to_string_not_Nil by (cases "nat_to_string n") auto
  have "isdigit c" using nat_to_string_digits [of c n] s by simp
  then have c: "\<not> isspace c" "c \<noteq> CHR ''-''" "c \<noteq> CHR ''+''" using digit_no_space by auto
  have tw: "takeWhile isdigit (nat_to_string n) = nat_to_string n" using nat_to_string_digits by (simp add: takeWhile_eq_all_conv)
  have lt: "ltrim (nat_to_string n) = nat_to_string n" using c(1) s by (simp add: ltrim_solid)
  have "(2 :: int) ^ 64 = int (2 ^ 64)" by simp
  then have "\<not> (2 :: int) ^ 64 \<le> int n" using n by linarith
  moreover have "digits_value (c # cs) = int n" using digits_value_nat_to_string [of n] s by simp
  ultimately show ?thesis
    unfolding strtoul_def lt Let_def using c tw unfolding s by simp
qed

section \<open>Posted forms\<close>

definition form_type :: "fcgi_request \<Rightarrow> bool" where
  "form_type req \<longleftrightarrow> (case req_CONTENT_TYPE req of None \<Rightarrow> False | Some t \<Rightarrow> str_find t ''application/x-www-form-urlencoded'' 0 \<noteq> None)"

text \<open>A request as a web server delivers it: the length that is announced is that of the content.\<close>

definition proper_request :: "fcgi_request \<Rightarrow> bool" where
  "proper_request req \<longleftrightarrow> form_type req \<and> req_CONTENT_LENGTH req = Some (nat_to_string (length (req_in req))) \<and>
     length (req_in req) < INT32_MAX \<and> req_malloc req \<and> CHR 0x00 \<notin> set (req_in req)"

lemma takeWhile_no_zero: "CHR 0x00 \<notin> set s \<Longrightarrow> takeWhile (\<lambda>c. c \<noteq> CHR 0x00) s = s"
  unfolding takeWhile_eq_all_conv by auto

lemma read_post_proper:
  assumes "proper_request req"
  shows "read_post req = Inr (Inr (req_in req))"
proof -
  let ?n = "length (req_in req)"
  have n: "?n < 2147483647" using assms by (simp add: proper_request_def INT32_MAX_def)
  have "unat (1 + of_nat ?n :: u64) = Suc ?n" using n by (simp add: unat_word_ariths unat_of_nat)
  then show ?thesis
    using assms n strtoul_nat_to_string [of ?n]
    by (auto simp: proper_request_def form_type_def read_post_def INT32_MAX_def Let_def takeWhile_no_zero split: option.splits)
qed

text \<open>A field of the form whose value was escaped.\<close>

definition escaped_form :: "(string \<times> string) list \<Rightarrow> string" where
  "escaped_form fs = form (map (\<lambda>(n, v). (n, percent_encode separator v)) fs)"

definition field_of :: "(string \<times> string) list \<Rightarrow> string \<Rightarrow> string" where
  "field_of fs name = (case List.find (\<lambda>(n, v). suffix name n) fs of None \<Rightarrow> [] | Some (n, v) \<Rightarrow> v)"

lemma get_data_escaped:
  assumes "clean name" "\<forall>(n, v) \<in> set fs. clean n"
  shows "get_data (escaped_form fs) name = percent_encode separator (field_of fs name)"
proof -
  have "\<forall>(n, v) \<in> set (map (\<lambda>(n, v). (n, percent_encode separator v)) fs). clean n \<and> clean v"
    using assms(2) clean_percent_encode by auto
  note g = get_data_fields [OF assms(1) this]
  have "List.find (\<lambda>(n, v). suffix name n) (map (\<lambda>(n, v). (n, percent_encode separator v)) fs) =
      map_option (\<lambda>(n, v). (n, percent_encode separator v)) (List.find (\<lambda>(n, v). suffix name n) fs)"
    by (induction fs) auto
  then show ?thesis unfolding escaped_form_def g field_of_def
    by (cases "List.find (\<lambda>(n, v). suffix name n) fs") (auto simp: percent_encode_def)
qed

lemma percent_encode_eq_plain:
  assumes "\<forall>c \<in> set t. c \<noteq> CHR ''%'' \<and> \<not> separator c"
  shows "percent_encode separator v = t \<longleftrightarrow> v = t"
proof
  assume "percent_encode separator v = t"
  moreover have "percent_encode separator t = t" using assms by (induction t) (auto simp: percent_encode_def)
  ultimately show "v = t" using deData_percent_encode [of separator v] deData_percent_encode [of separator t] by simp
next
  assume "v = t"
  then show "percent_encode separator v = t" using assms by (induction t arbitrary: v) (auto simp: percent_encode_def)
qed

text \<open>
  C6: an image that a client posts reaches the inference unchanged. For a properly delivered form
  with escaped values that asks for no health check, whose field for the image is a text that
  decodes to some bytes, the service runs the inference exactly once, on the image that OpenCV decodes
  from these bytes, and replies with its result and the time; a health check is
  answered at once and runs nothing.
\<close>

theorem image_service_delivers:
  assumes "proper_request req" "req_in req = escaped_form fs" "\<forall>(n, v) \<in> set fs. clean n"
    "DecodeBase (field_of fs ''image'') = Inr bytes" "cut_time (req_time req) = Inr t"
  shows "image_service cv run sep req st =
    (if field_of fs ''healthcheck'' = ''1'' then Inr (ok_header @ ''healthcheck ok'', st)
     else rbind (run (imdecode cv bytes) (escaped_form fs) st) (\<lambda>(ie_result, st').
            Inr (ok_header @ ie_result @ sep @ time_field t, st')))"
proof -
  have c: "clean ''healthcheck''" "clean ''image''" by code_simp+
  have "\<forall>c \<in> set ''1''. c \<noteq> CHR ''%'' \<and> \<not> separator c" by code_simp
  note one = percent_encode_eq_plain [OF this]
  show ?thesis
    unfolding image_service_def read_post_proper [OF assms(1)] rbind_Inr sum.case assms(2)
      get_data_escaped [OF c(1) assms(3)] get_data_escaped [OF c(2) assms(3)] one deData_percent_encode Base2Mat_def assms(4,5) ..
qed

definition byte_cv :: "u8 list cv_lib" where
  "byte_cv = \<lparr>imdecode = id, mat_empty = (\<lambda>i. i = []), mat_cols = (\<lambda>i. 1), mat_rows = int \<circ> length, float_to_string = (\<lambda>x. ''0.900000'')\<rparr>"

definition sample_request :: fcgi_request where
  "sample_request = \<lparr>req_CONTENT_TYPE = Some ''application/x-www-form-urlencoded'', req_CONTENT_LENGTH = Some ''12'',
     req_in = ''image=QUI%3D'', req_malloc = True, req_time = ''0.123456''\<rparr>"

theorem image_service_delivers_witness:
  "image_service byte_cv (\<lambda>img p n. Inr (p, n + length img)) [] sample_request (0 :: nat) =
     Inr (ok_header @ ''image=QUI%3D'' @ time_field ''0.123'', 2)"
proof -
  have r: "proper_request sample_request" by code_simp
  have i: "req_in sample_request = escaped_form [(''image'', ''QUI='')]" by code_simp
  have c: "\<forall>(n, v) \<in> set [(''image'', ''QUI='')]. clean n" by code_simp
  have d: "DecodeBase (field_of [(''image'', ''QUI='')] ''image'') = Inr [65, 66]" by code_simp
  have t: "cut_time (req_time sample_request) = Inr ''0.123''" by code_simp
  have h: "field_of [(''image'', ''QUI='')] ''healthcheck'' = []" by code_simp
  have e: "escaped_form [(''image'', ''QUI='')] = ''image=QUI%3D''" by code_simp
  show ?thesis unfolding image_service_delivers [OF r i c d t] h e by (simp add: byte_cv_def)
qed

text \<open>
  What becomes of the answer of a server. If it holds an object, from its first opening to its last
  closing brace, whatever surrounds it, the reply of a service consists of this object with one
  more field, the time. An answer without an opening brace is an exception that nothing catches.
\<close>

theorem remote_result_extends:
  assumes "CHR ''{'' \<notin> set pre" "CHR ''}'' \<notin> set post"
  shows "(\<exists>r. remote_result (pre @ ''{'' @ members @ ''}'' @ post) = Inr r \<and>
      r @ time_field t = ''{'' @ members @ '','' @ [CHR 0x0A, CHR 0x09] @ quoted ''time'' @ '':'' @ t @ [CHR 0x0A] @ ''}'') \<and>
    remote_result pre = Inl Out_of_range"
proof -
  have f: "str_find (pre @ ''{'' @ members @ ''}'' @ post) ''{'' 0 = Some (length pre)"
    using assms(1) by (intro str_find_first) (auto simp: occurs_at_single nth_append in_set_conv_nth)
  have n: "str_find pre ''{'' 0 = None" unfolding str_find_None occurs_at_single using assms(1) nth_mem by metis
  have "dropWhile (\<lambda>c. c \<noteq> CHR ''}'') (rev (''{'' @ members @ ''}'' @ post)) = CHR ''}'' # rev (''{'' @ members)"
    using assms(2) by (subst rev_append, subst rev_append, subst rev_append) (auto simp: dropWhile_append3)
  with f n show ?thesis by (simp add: remote_result_def Let_def time_field_def quoted_def)
qed

theorem remote_result_extends_witness:
  "\<exists>r. remote_result ''ok {\"a\":1} '' = Inr r \<and>
     r @ time_field ''0.1'' = ''{\"a\":1,'' @ [CHR 0x0A, CHR 0x09] @ quoted ''time'' @ '':0.1'' @ [CHR 0x0A] @ ''}''"
  using remote_result_extends [of "''ok ''" "'' ''" "''\"a\":1''" "''0.1''"] by auto

section \<open>Faces\<close>

text \<open>The rows that are looked at, up to the first with a negative number, and the faces among them.\<close>

definition rows_of :: "nat \<Rightarrow> cfloat list \<Rightarrow> cfloat list list" where
  "rows_of n raw = takeWhile (\<lambda>row. \<not> cf_less (row ! 0) (Fin 0)) (map (\<lambda>i. take 7 (drop (7 * i) raw)) [0..<n])"

definition is_face :: "cfloat list \<Rightarrow> bool" where
  "is_face row \<longleftrightarrow> cf_less (Fin (1 / 2)) (row ! 2)"

definition items_after :: "nat \<Rightarrow> string list \<Rightarrow> string" where
  "items_after flag items = concat (map (\<lambda>(k, item). (if k \<noteq> 1 then '','' @ [CHR 0x0A] else []) @ item) (enumerate flag items))"

lemma rows_of_Suc:
  "rows_of (Suc n) raw = (if cf_less (take 7 raw ! 0) (Fin 0) then [] else take 7 raw # rows_of n (drop 7 raw))"
proof -
  have "map (\<lambda>i. take 7 (drop (7 * i) raw)) [0..<Suc n] = take 7 raw # map (\<lambda>i. take 7 (drop (7 * i) (drop 7 raw))) [0..<n]"
    unfolding upt_conv_Cons [OF zero_less_Suc] map_Suc_upt [symmetric] by (simp add: add.commute)
  then show ?thesis unfolding rows_of_def by simp
qed

lemma cf_not_le: "\<not> cf_le x (Fin r) \<Longrightarrow> x \<noteq> NaN \<Longrightarrow> cf_less (Fin r) x"
  by (cases x) (auto simp: cf_le_def)

lemma cf_le_not_less: "cf_le x (Fin r) \<Longrightarrow> \<not> cf_less (Fin r) x"
  by (cases x) (auto simp: cf_le_def)

lemma face_loop_items:
  assumes "7 * n \<le> length raw" "\<forall>row \<in> set (rows_of n raw). row ! 2 \<noteq> NaN \<and> (is_face row \<longrightarrow> face_box w h row = Inr (box row))"
    "0 < flag"
  shows "face_loop n w h raw flag acc = Inr (acc @ items_after flag (map (face_json \<circ> box) (filter is_face (rows_of n raw))))"
  using assms
proof (induction n arbitrary: raw flag acc)
  case 0
  then show ?case by (simp add: rows_of_def items_after_def)
next
  case (Suc n)
  have l: "7 \<le> length raw" "7 * n \<le> length (drop 7 raw)" using Suc.prems(1) by auto
  have r: "take 7 raw ! 0 = raw ! 0" "take 7 raw ! 2 = raw ! 2" by simp_all
  have v: "vec_at raw 0 = Inr (raw ! 0)" "vec_at raw 2 = Inr (raw ! 2)" using l(1) by (auto simp: vec_at_def)
  show ?case
  proof (cases "cf_less (raw ! 0) (Fin 0)")
    case True
    then show ?thesis using v by (simp add: rows_of_Suc r items_after_def)
  next
    case False
    then have rows: "rows_of (Suc n) raw = take 7 raw # rows_of n (drop 7 raw)" by (simp add: rows_of_Suc r)
    have rest: "\<forall>row \<in> set (rows_of n (drop 7 raw)). row ! 2 \<noteq> NaN \<and> (is_face row \<longrightarrow> face_box w h row = Inr (box row))"
      using Suc.prems(2) unfolding rows by simp
    have this_row: "raw ! 2 \<noteq> NaN" "is_face (take 7 raw) \<Longrightarrow> face_box w h (take 7 raw) = Inr (box (take 7 raw))"
      using Suc.prems(2) unfolding rows by (simp_all add: r)
    show ?thesis
    proof (cases "is_face (take 7 raw)")
      case True
      then have "\<not> cf_le (raw ! 2) (Fin (1 / 2))" "cf_less (Fin (1 / 2)) (raw ! 2)"
        using cf_le_not_less by (auto simp: is_face_def r)
      then show ?thesis
        using False True v l(1) this_row(2) Suc.IH [OF l(2) rest, of "flag + 1"] Suc.prems(3)
        by (simp add: rows items_after_def)
    next
      case no: False
      then have "cf_le (raw ! 2) (Fin (1 / 2))" using cf_not_le this_row(1) by (auto simp: is_face_def r)
      then show ?thesis using False no v Suc.IH [OF l(2) rest Suc.prems(3)] by (simp add: rows)
    qed
  qed
qed

text \<open>Items separated by a comma and a line end.\<close>

fun separated :: "string list \<Rightarrow> string" where
  "separated [] = []"
| "separated [x] = x"
| "separated (x # y # xs) = x @ '','' @ [CHR 0x0A] @ separated (y # xs)"

lemma items_after_separated: "items_after 1 items = separated items"
proof -
  have "items_after (Suc (Suc k)) xs = concat (map (\<lambda>x. '','' @ [CHR 0x0A] @ x) xs)" for k xs
    by (induction xs arbitrary: k) (simp_all add: items_after_def)
  moreover have "separated (x # xs) = x @ concat (map (\<lambda>x. '','' @ [CHR 0x0A] @ x) xs)" for x xs
    by (induction "x # xs" arbitrary: x xs rule: separated.induct) simp_all
  ultimately show ?thesis by (cases items) (simp_all add: items_after_def)
qed

text \<open>
  The reply of the face detection. From 200 rows of seven numbers, none of whose accuracies is
  NaN, the local inference lists exactly the boxes of the rows with an accuracy above one half that
  come before the first row with a negative number, in their order and separated by commas, provided
  that the coordinates of these boxes fit into an \<^verbatim>\<open>int\<close>; no number behind the rows is read.
\<close>

theorem face_detection_lists:
  assumes "\<not> mat_empty cv img" "infer_one env img ''./models/face-detection-adas-0001.xml''
      ''https://api.ai.qq.com/fcgi-bin/face/face_detectmultiface'' params_str st = Inr (0, raw, reply, st')"
    "1400 \<le> length raw"
    "\<forall>row \<in> set (rows_of 200 raw). row ! 2 \<noteq> NaN \<and>
       (is_face row \<longrightarrow> face_box (f32_round (of_int (mat_cols cv img))) (f32_round (of_int (mat_rows cv img))) row = Inr (box row))"
  shows "face_detection cv env img params_str st =
    Inr (data_list ''face_list'' (separated (map (face_json \<circ> box) (filter is_face (rows_of 200 raw)))), st')"
  using assms face_loop_items [OF _ assms(4), of 1 "[]"]
  by (simp add: face_detection_def RT_REMOTE_INFER_OK_def items_after_separated [unfolded One_nat_def])

text \<open>An engine that finds one face, and numbers in place of images.\<close>

definition one_face :: "cfloat list" where
  "one_face = [Fin 0, Fin 1, Fin 1, Fin 0, Fin 0, Fin 1, Fin 1] @ [Fin (- 1)] @ replicate 1392 (Fin 0)"

definition face_env :: "(nat, string) irt_env" where
  "face_env = echo_env\<lparr>env_loader := (\<lambda>f. Some \<lparr>
     so_CreatInferenceEntity = Some (echo_entity\<lparr>ie_infer_image := (\<lambda>(i, a, r) model device w. (0, (i, a, [one_face]), device))\<rparr>),
     so_simulate_lib_init = None, so_simulate_lib_infer = None, so_init_from_buffer = None\<rparr>)\<rparr>"

definition count_cv :: "nat cv_lib" where
  "count_cv = \<lparr>imdecode = length, mat_empty = (\<lambda>i. i = 0), mat_cols = (\<lambda>i. 1), mat_rows = (\<lambda>i. 1), float_to_string = (\<lambda>x. ''0.900000'')\<rparr>"

lemma f32_round_1: "f32_round 1 = Fin 1"
  by (simp add: f32_round_def ilog2_def Let_def power_int_minus rne_def)

lemma one_face_rows: "rows_of 200 one_face = [[Fin 0, Fin 1, Fin 1, Fin 0, Fin 0, Fin 1, Fin 1]]"
proof -
  have "(200 :: nat) = Suc (Suc 198)" by simp
  then show ?thesis unfolding one_face_def by (simp only: rows_of_Suc) simp
qed

lemma face_env_infers:
  "\<exists>st'. infer_one face_env 1 ''./models/face-detection-adas-0001.xml'' ''https://api.ai.qq.com/fcgi-bin/face/face_detectmultiface'' [] echo_state
     = Inr (0, one_face, [], st')"
  unfolding infer_one_def vino_ie_pipeline_infer_images_def offload_or_def check_policy_segment [OF echo_segment]
  by (simp add: to_server_def zero_memory_def with_entity_def getInferenceEntity_def echo_state_def face_env_def loadSo_def
      infer_image_def echo_entity_def Let_def signalled_def)

theorem face_detection_lists_witness:
  "\<exists>st'. face_detection count_cv face_env 1 [] echo_state = Inr (data_list ''face_list'' (face_json (0, 0, 1, 1)), st')"
proof -
  let ?row = "[Fin 0, Fin 1, Fin 1, Fin 0, Fin 0, Fin 1, Fin 1]"
  have "face_box (f32_round 1) (f32_round 1) ?row = Inr (0, 0, 1, 1)"
    by (simp add: face_box_def f32_round_1 f32_round_0 f32_sub_def float_to_int_def as_int_def)
  then have "\<forall>row \<in> set (rows_of 200 one_face). row ! 2 \<noteq> NaN \<and>
    (is_face row \<longrightarrow> face_box (f32_round (of_int (mat_cols count_cv 1))) (f32_round (of_int (mat_rows count_cv 1))) row = Inr (0, 0, 1, 1))"
    by (simp add: one_face_rows count_cv_def)
  moreover have "\<not> mat_empty count_cv 1" by (simp add: count_cv_def)
  moreover have "1400 \<le> length one_face" by (simp add: one_face_def)
  moreover obtain st' where "infer_one face_env 1 ''./models/face-detection-adas-0001.xml''
      ''https://api.ai.qq.com/fcgi-bin/face/face_detectmultiface'' [] echo_state = Inr (0, one_face, [], st')"
    using face_env_infers by blast
  ultimately have "face_detection count_cv face_env 1 [] echo_state =
    Inr (data_list ''face_list'' (separated (map (face_json \<circ> (\<lambda>row. (0, 0, 1, 1))) (filter is_face (rows_of 200 one_face)))), st')"
    by (intro face_detection_lists)
  then show ?thesis by (simp add: one_face_rows is_face_def)
qed

section \<open>Setting the policy\<close>

text \<open>
  What the policy service does with a posted form, once it has its text. If the device
  in it is available, it and the place to compute at (the server exactly if \<^verbatim>\<open>local\<close> is 0) are in the shared
  segment afterwards and the reply says so; otherwise the reply reports the failure and the segment
  is as before. Either way the daemon was signalled.
\<close>

theorem policy_answer_sets:
  fixes st :: "('img, 'w) irt_state"
  assumes "segment st buf" "\<forall>(n, v) \<in> set fs. clean n \<and> clean v" "field_of fs ''healthcheck'' \<noteq> ''1''"
  shows "if IsAvailableDevice (field_of fs ''device'')
    then \<exists>st' buf'. policy_answer (form fs) st = Inr (ok_header @ ''successfully set the policy daemon'', st') \<and>
      segment st' buf' \<and> cfgLocal buf' = (field_of fs ''local'' \<noteq> ''0'') \<and> cfgServer buf' = (field_of fs ''local'' = ''0'') \<and>
      device_name buf' = field_of fs ''device'' \<and> st_signals st' = st_signals st @ [pidOfDaemon buf]
    else policy_answer (form fs) st = Inr (ok_header @ ''failed to set policy daemon'', signalled st buf)"
proof -
  have c: "clean ''healthcheck''" "clean ''local''" "clean ''device''" by code_simp+
  note g = get_data_fields [OF _ assms(2), folded field_of_def]
  let ?here = "field_of fs ''local'' \<noteq> ''0''" and ?dev = "field_of fs ''device''"
  have a: "policy_answer (form fs) st =
    rbind (vino_ie_pipeline_set_parameters \<lparr>isLocalInference = ?here, inferDevice = ?dev\<rparr> st) (\<lambda>(res_policy, st').
      Inr (ok_header @ (if res_policy = - 1 then ''failed to set policy daemon'' else ''successfully set the policy daemon''), st'))"
    using assms(3) by (simp add: policy_answer_def g [OF c(1)] g [OF c(2)] g [OF c(3)] Let_def)
  show ?thesis
  proof (cases "IsAvailableDevice ?dev")
    case True
    let ?os = "st_os st"
    have os: "segment_ok ?os" "os_key_ok ?os" "os_attach_ok ?os" "os_shm ?os = Some buf"
      using assms(1) by (auto simp: segment_def segment_ok_def)
    obtain os' buf' where set: "UserSetCfgParams ?here ?dev ?os = Inr (os', 0)"
      and os': "os_key_ok os'" "os_attach_ok os'" "os_shm os' = Some buf'" "buffer_ok buf'"
      and buf': "cfgLocal buf' = ?here" "cfgServer buf' = (\<not> ?here)" "device_name buf' = ?dev"
      using UserSetCfgParams_segment [OF os, of ?dev ?here] available_device_fits [OF True] unfolding device_name_def by metis
    have "vino_ie_pipeline_set_parameters \<lparr>isLocalInference = ?here, inferDevice = ?dev\<rparr> st = Inr (0, (signalled st buf)\<lparr>st_os := os'\<rparr>)"
      using set True by (simp add: vino_ie_pipeline_set_parameters_def wake_daemon_segment [OF assms(1)])
    moreover have "segment ((signalled st buf)\<lparr>st_os := os'\<rparr>) buf'" using os' by (simp add: segment_def)
    ultimately show ?thesis using True buf' unfolding a by (auto simp: signalled_def)
  next
    case False
    then show ?thesis unfolding a by (simp add: vino_ie_pipeline_set_parameters_def wake_daemon_segment [OF assms(1)])
  qed
qed

theorem policy_answer_sets_witness:
  "\<exists>st' buf'. policy_answer (form [(''local'', ''0''), (''device'', ''GPU'')]) echo_state =
      Inr (ok_header @ ''successfully set the policy daemon'', st') \<and> segment st' buf' \<and> device_name buf' = ''GPU'' \<and> cfgServer buf'"
proof -
  let ?fs = "[(''local'', ''0''), (''device'', ''GPU'')]"
  have "\<forall>(n, v) \<in> set ?fs. clean n \<and> clean v" by code_simp
  moreover have "field_of ?fs ''healthcheck'' = []" "field_of ?fs ''device'' = ''GPU''" "field_of ?fs ''local'' = ''0''" by code_simp+
  moreover have "IsAvailableDevice ''GPU''" by code_simp
  ultimately show ?thesis using policy_answer_sets [OF echo_segment, of ?fs] by auto
qed

section \<open>Defects\<close>

text \<open>The segmentation encodes 513 times 513 bytes, a multiple of three, so \<^verbatim>\<open>EncodeBase\<close> reads behind them.\<close>

lemma to_classes_length: "to_classes n d = Inr bs \<Longrightarrow> length bs = n"
  by (induction n d arbitrary: bs rule: to_classes.induct) (auto simp: rbind_eq_Inr)

lemma segmentation_reads_behind:
  assumes "\<not> mat_empty cv img" "infer_one env img ''./models/deeplabv3.xml''
      ''https://api.ai.qq.com/fcgi-bin/image/image_tag'' params_str st = Inr (0, detection, reply, st')"
    "to_classes (513 * 513) detection = Inr out_classes"
  shows "segmentation cv env img params_str st = Inl Undefined"
proof -
  have l: "length out_classes = 3 * 87723" using to_classes_length [OF assms(3)] by simp
  have "EncodeBase out_classes 263169 = Inl Undefined"
    using EncodeBase_tail [OF l, of 263169 "[]"] by simp
  with assms show ?thesis by (simp add: segmentation_def RT_REMOTE_INFER_OK_def)
qed

text \<open>A length of -1 wraps around to an empty buffer, behind which the zero is stored.\<close>

lemma negative_length_overflow:
  assumes "form_type req" "req_CONTENT_LENGTH req = Some ''-1''" "req_malloc req"
  shows "read_post req = Inl Undefined"
proof -
  have "strtoul ''-1'' = - 1" by code_simp
  with assms show ?thesis by (auto simp: read_post_def form_type_def split: option.splits)
qed

text \<open>A content that is longer than announced makes the zero go behind the buffer.\<close>

lemma longer_content_overflow:
  assumes "form_type req" "req_CONTENT_LENGTH req = Some l" "req_malloc req" "unat (1 + strtoul l) \<le> INT32_MAX"
    "unat (1 + strtoul l) \<le> length (req_in req)"
  shows "read_post req = Inl Undefined"
  using assms by (auto simp: read_post_def form_type_def Let_def split: option.splits)

text \<open>The policy service reads behind its buffer for every properly delivered form.\<close>

lemma policy_service_reads_behind: "proper_request req \<Longrightarrow> policy_service req st = Inl Undefined"
proof -
  assume p: "proper_request req"
  let ?n = "length (req_in req)"
  have n: "?n < 2147483647" using p by (simp add: proper_request_def INT32_MAX_def)
  have "unat (of_nat ?n :: u64) = ?n" using n by (simp add: unat_of_nat)
  then have "policy_post req = Inl Undefined"
    using p n strtoul_nat_to_string [of ?n]
    by (auto simp: proper_request_def form_type_def policy_post_def INT32_MAX_def Let_def split: option.splits)
  then show ?thesis by (simp add: policy_service_def)
qed

text \<open>Two tags are not separated by a comma.\<close>

lemma tags_not_separated:
  "tag_loop 2 (\<lambda>x. ''0.9'') [''0: '' @ [CHR 0x27] @ ''a'' @ [CHR 0x27] @ '','', ''1: '' @ [CHR 0x27] @ ''b'' @ [CHR 0x27] @ '',''] [Fin (9 / 10), Fin (6 / 10)] [] =
     Inr (tab @ tab @ tab @ ''{\"tag_name\":\"a\",\"tag_confidence\":0.9}'' @ [CHR 0x0A] @ tab @ tab @ tab @ ''{\"tag_name\":\"b\",\"tag_confidence\":0.9}'' @ [CHR 0x0A])"
  by code_simp

end
