(* ===== verification/HealthMonitor.thy ===== *)
theory HealthMonitor
  imports ConfigText
begin

text \<open>
  The health monitor on the host, \<^verbatim>\<open>service_runtime_health_monitor.cc\<close>: an agent inside the container
  reports dead services, three unhealthy reports in a row restart the service runtime, and so does
  a watchdog that is not fed for two minutes. Commands of the shell are a parameter that
  yields their outcome; log messages are left out.
\<close>

section \<open>Commands\<close>

text \<open>How \<^verbatim>\<open>system\<close> and \<^verbatim>\<open>pclose\<close> report the end of a command.\<close>

datatype cmd_status = Not_started | Exited nat | Signaled nat | Stopped nat

definition run_cmd :: "cmd_status \<Rightarrow> int" where
  "run_cmd status = (case status of Not_started \<Rightarrow> - 1 | Exited s \<Rightarrow> int s | _ \<Rightarrow> - 1)"

text \<open>
  \<^verbatim>\<open>service_runtime_restart\<close>: the number of tries, the shell, its state; returns the code, the state and the
  seconds slept.
\<close>

fun restart_loop :: "nat \<Rightarrow> ('w \<Rightarrow> cmd_status \<times> 'w) \<Rightarrow> 'w \<Rightarrow> nat \<Rightarrow> int \<times> 'w \<times> nat" where
  "restart_loop 0 shell w slept = (- 1, w, slept)"
| "restart_loop (Suc n) shell w slept =
     (case shell w of (status, w') \<Rightarrow>
        if run_cmd status = 0 then (0, w', slept) else restart_loop n shell w' (slept + 1))"

definition service_runtime_restart :: "('w \<Rightarrow> cmd_status \<times> 'w) \<Rightarrow> 'w \<Rightarrow> int \<times> 'w \<times> nat" where
  "service_runtime_restart shell w = restart_loop 3 shell w 0"

section \<open>Reports of the agent\<close>

record agent_status =
  dead_targets :: "string list"
  new_dead_targets :: "string list"
  dead_healthcheck_targets :: "string list"
  new_dead_healthcheck_targets :: "string list"

record 'w monitor =
  unhealthy_count :: u32
  mon_world :: 'w
  mon_feeds :: nat

text \<open>\<^verbatim>\<open>MonitorImpl::notify\<close>: feeds the watchdog, counts, and restarts from the third unhealthy report on.\<close>

definition notify :: "('w \<Rightarrow> cmd_status \<times> 'w) \<Rightarrow> agent_status \<Rightarrow> 'w monitor \<Rightarrow> 'w monitor" where
  "notify shell status m =
     (let m1 = m\<lparr>mon_feeds := mon_feeds m + 1\<rparr>;
          m2 = (if length (new_dead_targets status) > 0 \<or> length (new_dead_healthcheck_targets status) > 0
                then m1\<lparr>unhealthy_count := unhealthy_count m1 + 1\<rparr> else m1\<lparr>unhealthy_count := 0\<rparr>)
      in if unhealthy_count m2 \<ge> 3
         then (case service_runtime_restart shell (mon_world m2) of (_, w, _) \<Rightarrow> m2\<lparr>mon_world := w\<rparr>)
         else m2)"

section \<open>Output of commands\<close>

text \<open>
  The pieces that successive calls of \<^verbatim>\<open>fgets\<close> with a buffer of \<^verbatim>\<open>size\<close> bytes store, each of which overwrites the
  one before: up to and with the next line end, but at most \<^verbatim>\<open>size - 1\<close> characters.
\<close>

fun fgets_piece :: "nat \<Rightarrow> string \<Rightarrow> string \<times> string" where
  "fgets_piece 0 s = ([], s)"
| "fgets_piece (Suc n) [] = ([], [])"
| "fgets_piece (Suc n) (c # cs) =
     (if c = CHR 0x0A then ([c], cs) else (case fgets_piece n cs of (p, rest) \<Rightarrow> (c # p, rest)))"

lemma fgets_piece_shorter: "fgets_piece n s = (p, rest) \<Longrightarrow> s \<noteq> [] \<Longrightarrow> n \<noteq> 0 \<Longrightarrow> length rest < length s"
proof (induction n s arbitrary: p rest rule: fgets_piece.induct)
  case (3 n c cs)
  show ?case
  proof (cases "c = CHR 0x0A \<or> cs = [] \<or> n = 0")
    case True
    then show ?thesis using "3.prems" by (cases n; cases cs) (auto split: if_split_asm prod.split_asm)
  next
    case False
    then obtain p' where "fgets_piece n cs = (p', rest)" using "3.prems"(1) by (auto split: prod.split_asm)
    with "3.IH" False show ?thesis by fastforce
  qed
qed auto

text \<open>The last piece; \<open>None\<close> if there is none and the buffer stays as it was.\<close>

function last_piece :: "nat \<Rightarrow> string option \<Rightarrow> string \<Rightarrow> string option" where
  "last_piece n buf s =
     (if s = [] \<or> n = 0 then buf else (case fgets_piece n s of (p, rest) \<Rightarrow> last_piece n (Some p) rest))"
  by pat_completeness auto
termination
  by (relation "measure (\<lambda>(n, b, s). length s)") (auto dest!: fgets_piece_shorter [OF sym])

declare last_piece.simps [simp del]

definition exit_code :: "cmd_status \<Rightarrow> nat" where
  "exit_code status = (case status of Not_started \<Rightarrow> 255 | Exited s \<Rightarrow> s | Signaled s \<Rightarrow> s | Stopped s \<Rightarrow> s)"

text \<open>
  \<^verbatim>\<open>get_pulse_server_port\<close> with its buffer of 16 bytes: the outcome of \<^verbatim>\<open>popen\<close> (the output and the end, if
  the command was started). Reading a buffer that was never written has no meaning.
\<close>

definition get_pulse_server_port :: "(string \<times> cmd_status) option \<Rightarrow> int \<Rightarrow> (int \<times> string) result" where
  "get_pulse_server_port popen bufsize =
     (if bufsize \<le> 0 then Inr (- 1, [])
      else
        (case popen of
           None \<Rightarrow> Inr (- 1, [])
         | Some (out, status) \<Rightarrow>
             if exit_code status \<noteq> 0 then Inr (- 1, [])
             else
               (case last_piece (nat bufsize - 1) None out of
                  None \<Rightarrow> Inl Undefined
                | Some port \<Rightarrow> Inr (0, takeWhile (\<lambda>c. c \<noteq> CHR 0x0A) port))))"

text \<open>\<^verbatim>\<open>MonitorImpl::get_pulse_server_addr\<close>: the status and the address of the reply.\<close>

definition get_pulse_server_addr :: "string \<Rightarrow> (string \<times> cmd_status) option \<Rightarrow> (int \<times> string) result" where
  "get_pulse_server_addr container_gateway_ip popen =
     rbind (get_pulse_server_port popen 16) (\<lambda>(ret, port_buffer).
       if ret \<noteq> 0 then Inr (- 1, [])
       else if length port_buffer = 0 then Inr (- 1, [])
       else Inr (0, ''tcp:'' @ container_gateway_ip @ '':'' @ port_buffer))"

text \<open>
  \<^verbatim>\<open>get_container_gateway_addr\<close>: one outcome of \<^verbatim>\<open>popen\<close> for each round until one exits with 0, and the seconds
  slept between; \<open>None\<close> while none has. The buffer keeps what an earlier round stored.
\<close>

definition MAX_INTERVAL :: nat where
  "MAX_INTERVAL = 64"

fun gateway_loop ::
  "nat \<Rightarrow> (string \<times> cmd_status) option list \<Rightarrow> string option \<Rightarrow> nat \<Rightarrow> nat list \<Rightarrow> (string \<times> nat list) result option" where
  "gateway_loop bufsize [] addr interval slept = None"
| "gateway_loop bufsize (popen # later) addr interval slept =
     (let again = (\<lambda>buf. gateway_loop bufsize later buf (if interval < MAX_INTERVAL then interval * 2 else interval) (slept @ [interval]))
      in (case popen of
            None \<Rightarrow> again addr
          | Some (out, status) \<Rightarrow>
              (let buf = last_piece (bufsize - 1) addr out
               in if exit_code status = 0
                  then Some (case buf of None \<Rightarrow> Inl Undefined | Some a \<Rightarrow> Inr (takeWhile (\<lambda>c. c \<noteq> CHR 0x0A) a, slept))
                  else again buf)))"

definition get_container_gateway_addr ::
  "nat \<Rightarrow> (string \<times> cmd_status) option list \<Rightarrow> (string \<times> nat list) result option" where
  "get_container_gateway_addr bufsize popens = gateway_loop bufsize popens None 1 []"

section \<open>The watchdog\<close>

text \<open>
  The timer thread, the thread that destroys the watchdog and the mutex, with the clock in seconds. The
  timer thread holds the mutex except while it waits; a wait ends when its deadline passes, when it is
  notified, or for no reason, and then has to get the mutex back. Whether \<^verbatim>\<open>wait_for\<close> then reports a timeout depends on the
  clock alone: it does if the deadline has passed by the time the mutex is held again, whatever ended the
  wait. The positions of the thread carry the time its wait began, the time it was woken, and the time it got the
  mutex back. \<^verbatim>\<open>feeds\<close> are the times of the calls of \<^verbatim>\<open>feed\<close> and \<^verbatim>\<open>restarts\<close> the times the thread restarted the
  runtime.
\<close>

datatype timer_pc = T_start | T_test | T_wait nat | T_woken nat nat | T_restart nat nat nat | T_end

datatype destructor_pc = D_alive | D_joining | D_returned

datatype owner = Timer | Destructor

record watchdog =
  timer_running :: bool
  timer :: timer_pc
  destructor :: destructor_pc
  reset_mutex :: "owner option"
  clock :: nat
  feeds :: "nat list"
  restarts :: "nat list"

definition WATCHDOG_TIMEOUT :: nat where
  "WATCHDOG_TIMEOUT = 120"

definition watchdog_created :: "nat \<Rightarrow> watchdog" where
  "watchdog_created t = \<lparr>timer_running = True, timer = T_start, destructor = D_alive, reset_mutex = None, clock = t,
     feeds = [], restarts = []\<rparr>"

text \<open>\<^verbatim>\<open>notify_all\<close> wakes the timer thread if it waits.\<close>

definition notify_all :: "watchdog \<Rightarrow> watchdog" where
  "notify_all s = (case timer s of T_wait t \<Rightarrow> s\<lparr>timer := T_woken t (clock s)\<rparr> | _ \<Rightarrow> s)"

text \<open>\<^verbatim>\<open>feed\<close> locks and unlocks the mutex around its call.\<close>

definition feed :: "watchdog \<Rightarrow> watchdog option" where
  "feed s = (if reset_mutex s = None then Some (notify_all s\<lparr>feeds := feeds s @ [clock s]\<rparr>) else None)"

inductive watchdog_step :: "watchdog \<Rightarrow> watchdog \<Rightarrow> bool" where
  tick: "watchdog_step s (s\<lparr>clock := clock s + 1\<rparr>)"
| fed: "feed s = Some s' \<Longrightarrow> destructor s = D_alive \<Longrightarrow> watchdog_step s s'"
| start: "timer s = T_start \<Longrightarrow> reset_mutex s = None \<Longrightarrow> watchdog_step s (s\<lparr>timer := T_test, reset_mutex := Some Timer\<rparr>)"
| wait: "timer s = T_test \<Longrightarrow> timer_running s \<Longrightarrow> watchdog_step s (s\<lparr>timer := T_wait (clock s), reset_mutex := None\<rparr>)"
| stop: "timer s = T_test \<Longrightarrow> \<not> timer_running s \<Longrightarrow> watchdog_step s (s\<lparr>timer := T_end, reset_mutex := None\<rparr>)"
| timeout: "timer s = T_wait t \<Longrightarrow> t + WATCHDOG_TIMEOUT \<le> clock s \<Longrightarrow> watchdog_step s (s\<lparr>timer := T_woken t (clock s)\<rparr>)"
| spurious: "timer s = T_wait t \<Longrightarrow> watchdog_step s (s\<lparr>timer := T_woken t (clock s)\<rparr>)"
| woken: "timer s = T_woken t w \<Longrightarrow> reset_mutex s = None \<Longrightarrow>
    watchdog_step s (s\<lparr>timer := (if t + WATCHDOG_TIMEOUT \<le> clock s then T_restart t w (clock s) else T_test), reset_mutex := Some Timer\<rparr>)"
| restarted: "timer s = T_restart t w r \<Longrightarrow> watchdog_step s (s\<lparr>timer := T_test, restarts := restarts s @ [clock s]\<rparr>)"
| destroy: "destructor s = D_alive \<Longrightarrow> reset_mutex s = None \<Longrightarrow>
    watchdog_step s (notify_all (s\<lparr>destructor := D_joining, reset_mutex := Some Destructor, timer_running := False\<rparr>))"
| joined: "destructor s = D_joining \<Longrightarrow> timer s = T_end \<Longrightarrow> watchdog_step s (s\<lparr>destructor := D_returned, reset_mutex := None\<rparr>)"

inductive_cases watchdog_stepE: "watchdog_step s s'"

definition watchdog_reachable :: "nat \<Rightarrow> watchdog \<Rightarrow> bool" where
  "watchdog_reachable t = watchdog_step\<^sup>*\<^sup>* (watchdog_created t)"

lemma notify_all_simps [simp]:
  "timer_running (notify_all s) = timer_running s" "destructor (notify_all s) = destructor s" "reset_mutex (notify_all s) = reset_mutex s"
  "clock (notify_all s) = clock s" "feeds (notify_all s) = feeds s" "restarts (notify_all s) = restarts s"
  "timer (notify_all s) = (case timer s of T_wait t \<Rightarrow> T_woken t (clock s) | p \<Rightarrow> p)"
  by (auto simp: notify_all_def split: timer_pc.split)

text \<open>
  The mutex is with the timer thread exactly while that tests or restarts, with the destructor exactly
  while it joins, and the thread runs on as long as the destructor has not got the mutex.
\<close>

definition watchdog_inv :: "watchdog \<Rightarrow> bool" where
  "watchdog_inv s \<longleftrightarrow>
     (reset_mutex s = Some Timer \<longleftrightarrow> timer s = T_test \<or> (\<exists>t w r. timer s = T_restart t w r)) \<and>
     (reset_mutex s = Some Destructor \<longleftrightarrow> destructor s = D_joining) \<and>
     (timer_running s \<longleftrightarrow> destructor s = D_alive) \<and> timer s \<noteq> T_end \<and> destructor s \<noteq> D_returned"

lemma watchdog_inv_created: "watchdog_inv (watchdog_created t)"
  by (simp add: watchdog_inv_def watchdog_created_def)

lemma watchdog_inv_step: "watchdog_step s s' \<Longrightarrow> watchdog_inv s \<Longrightarrow> watchdog_inv s'"
proof (induction rule: watchdog_step.induct)
  case (stop s)
  then show ?case by (cases "destructor s") (auto simp: watchdog_inv_def)
qed (auto simp: watchdog_inv_def feed_def split: timer_pc.splits if_split_asm)

interpretation wd_mutex: preserved_invariant watchdog_step watchdog_inv
  by unfold_locales (rule watchdog_inv_step)

lemma watchdog_reachable_inv: "watchdog_reachable t s \<Longrightarrow> watchdog_inv s"
  unfolding watchdog_reachable_def using wd_mutex.run_keeps watchdog_inv_created by blast

text \<open>What is known of the times: there was no feed between the beginning of a wait and the moment it ended.\<close>

definition feed_inv :: "watchdog \<Rightarrow> bool" where
  "feed_inv s \<longleftrightarrow>
     (\<forall>f \<in> set (feeds s). f \<le> clock s) \<and>
     (case timer s of
        T_wait t \<Rightarrow> t \<le> clock s \<and> (\<forall>f \<in> set (feeds s). f \<le> t)
      | T_woken t w \<Rightarrow> w \<le> clock s \<and> (\<forall>f \<in> set (feeds s). f \<le> t \<or> w \<le> f)
      | T_restart t w r \<Rightarrow> t + WATCHDOG_TIMEOUT \<le> r \<and> w \<le> r \<and> r \<le> clock s \<and> (\<forall>f \<in> set (feeds s). f \<le> t \<or> w \<le> f)
      | _ \<Rightarrow> True)"

lemma feed_inv_step: "watchdog_step s s' \<Longrightarrow> feed_inv s \<Longrightarrow> feed_inv s'"
proof (induction rule: watchdog_step.induct)
  case (tick s)
  then show ?case by (fastforce simp: feed_inv_def split: timer_pc.splits bool.splits)
next
  case (fed s s')
  then show ?case by (fastforce simp: feed_inv_def feed_def split: timer_pc.splits bool.splits if_split_asm)
next
  case (destroy s)
  then show ?case by (fastforce simp: feed_inv_def split: timer_pc.splits bool.splits)
qed (auto simp: feed_inv_def split: timer_pc.splits bool.splits)

lemma feed_inv_created: "feed_inv (watchdog_created t)"
  by (simp add: feed_inv_def watchdog_created_def)

interpretation wd_feeds: preserved_invariant watchdog_step feed_inv
  by unfold_locales (rule feed_inv_step)

lemma feed_inv_reachable: "watchdog_reachable t s \<Longrightarrow> feed_inv s"
  unfolding watchdog_reachable_def using wd_feeds.run_keeps feed_inv_created by blast

lemma joining_step:
  assumes "watchdog_step s s'" "watchdog_inv s" "destructor s = D_joining"
  shows "destructor s' = D_joining \<and> restarts s' = restarts s"
  using assms by (induction rule: watchdog_step.induct) (auto simp: watchdog_inv_def feed_def)

interpretation wd_joining: preserved_invariant watchdog_step "\<lambda>s. watchdog_inv s \<and> destructor s = D_joining \<and> restarts s = r" for r
  by unfold_locales (metis joining_step watchdog_inv_step)

text \<open>
  C36: the watchdog cannot be destroyed. In no reachable state has the destructor returned: it keeps
  the mutex while it joins the timer thread, and that thread cannot end without the mutex. From the moment the
  destructor joins it stays there, and the runtime is not restarted by the watchdog any more.
\<close>

theorem watchdog_destructor_blocks:
  assumes "watchdog_reachable t s"
  shows "destructor s \<noteq> D_returned \<and>
    (destructor s = D_joining \<longrightarrow> (\<forall>s'. watchdog_step\<^sup>*\<^sup>* s s' \<longrightarrow> destructor s' = D_joining \<and> restarts s' = restarts s))"
proof (intro conjI impI allI)
  show "destructor s \<noteq> D_returned" using watchdog_reachable_inv [OF assms] by (simp add: watchdog_inv_def)
  fix s' assume "watchdog_step\<^sup>*\<^sup>* s s'" "destructor s = D_joining"
  then have "watchdog_inv s' \<and> destructor s' = D_joining \<and> restarts s' = restarts s"
    using wd_joining.run_keeps [of s s' "restarts s"] watchdog_reachable_inv [OF assms] by simp
  then show "destructor s' = D_joining" "restarts s' = restarts s" by simp_all
qed

text \<open>
  C13: the watchdog restarts the runtime only after two minutes without a report, less the delay of
  its own thread. When the thread is about to restart, with a wait that began at \<open>u\<close>, was ended at \<open>w\<close> and had the
  mutex back at \<open>r\<close>, at least 120 seconds passed from \<open>u\<close> to \<open>r\<close>, and no call of \<^verbatim>\<open>feed\<close> came after \<open>u\<close> and
  more than \<open>r - w\<close> seconds before \<open>u + 120\<close>. In particular a thread that gets the mutex as soon as it is woken
  restarts only if there was no report in the 120 seconds.
\<close>

theorem watchdog_restart_unfed:
  assumes "watchdog_reachable t s" "timer s = T_restart u w r"
  shows "u + 120 \<le> r \<and> w \<le> r \<and> r \<le> clock s \<and> (\<forall>f \<in> set (feeds s). f \<le> u \<or> u + 120 \<le> f + (r - w))"
  using feed_inv_reachable [OF assms(1)] assms(2) by (fastforce simp: feed_inv_def WATCHDOG_TIMEOUT_def)

text \<open>A run of the watchdog: it starts, waits, is fed, waits again, and is destroyed or restarts.\<close>

lemma watchdog_ticks: "watchdog_step\<^sup>*\<^sup>* s (s\<lparr>clock := clock s + n\<rparr>)"
proof (induction n)
  case (Suc n)
  then show ?case using watchdog_step.tick [of "s\<lparr>clock := clock s + n\<rparr>"] by (simp add: rtranclp.rtrancl_into_rtrancl)
qed simp

definition waiting_at :: "nat \<Rightarrow> watchdog" where
  "waiting_at t = (watchdog_created t)\<lparr>timer := T_wait t\<rparr>"

lemma waiting_reachable: "watchdog_reachable t (waiting_at t)"
proof -
  let ?s = "watchdog_created t" and ?s1 = "(watchdog_created t)\<lparr>timer := T_test, reset_mutex := Some Timer\<rparr>"
  have "watchdog_step ?s ?s1" by (rule watchdog_step.start) (simp_all add: watchdog_created_def)
  moreover have "watchdog_step ?s1 (?s1\<lparr>timer := T_wait (clock ?s1), reset_mutex := None\<rparr>)"
    by (rule watchdog_step.wait) (simp_all add: watchdog_created_def)
  moreover have "?s1\<lparr>timer := T_wait (clock ?s1), reset_mutex := None\<rparr> = waiting_at t"
    by (simp add: waiting_at_def watchdog_created_def)
  ultimately show ?thesis unfolding watchdog_reachable_def by (metis rtranclp.rtrancl_into_rtrancl rtranclp.rtrancl_refl)
qed

theorem watchdog_destructor_blocks_witness:
  "\<exists>s. watchdog_reachable 0 s \<and> destructor s = D_joining \<and> (\<forall>s'. watchdog_step\<^sup>*\<^sup>* s s' \<longrightarrow> destructor s' = D_joining)"
proof -
  let ?s = "notify_all ((waiting_at 0)\<lparr>destructor := D_joining, reset_mutex := Some Destructor, timer_running := False\<rparr>)"
  have "watchdog_step (waiting_at 0) ?s" by (rule watchdog_step.destroy) (simp_all add: waiting_at_def watchdog_created_def)
  then have r: "watchdog_reachable 0 ?s"
    using waiting_reachable unfolding watchdog_reachable_def by (metis rtranclp.rtrancl_into_rtrancl)
  then show ?thesis using watchdog_destructor_blocks [OF r] by (intro exI [of _ ?s]) simp
qed

lemma restart_reachable: "watchdog_reachable 7 ((waiting_at 7)\<lparr>clock := 127, timer := T_restart 7 127 127, reset_mutex := Some Timer\<rparr>)"
proof -
  let ?s = "(waiting_at 7)\<lparr>clock := clock (waiting_at 7) + 120\<rparr>"
  let ?s1 = "?s\<lparr>timer := T_woken 7 (clock ?s)\<rparr>"
  have "watchdog_reachable 7 ?s"
    using waiting_reachable [of 7] watchdog_ticks [of "waiting_at 7" 120] unfolding watchdog_reachable_def by (rule rtranclp_trans)
  moreover have "watchdog_step ?s ?s1"
    by (rule watchdog_step.timeout) (simp_all add: waiting_at_def watchdog_created_def WATCHDOG_TIMEOUT_def)
  moreover have "watchdog_step ?s1 ((waiting_at 7)\<lparr>clock := 127, timer := T_restart 7 127 127, reset_mutex := Some Timer\<rparr>)"
    using watchdog_step.woken [of ?s1 7 "clock ?s"] by (simp add: waiting_at_def watchdog_created_def WATCHDOG_TIMEOUT_def)
  ultimately show ?thesis
    unfolding watchdog_reachable_def by (blast intro: rtranclp.rtrancl_into_rtrancl)
qed

theorem watchdog_restart_unfed_witness:
  "\<exists>s. watchdog_reachable 7 s \<and> timer s = T_restart 7 127 127 \<and> 127 \<le> clock s \<and> (\<forall>f \<in> set (feeds s). f \<le> 7 \<or> 127 \<le> f)"
  using watchdog_restart_unfed [OF restart_reachable, of 7 127 127]
  by (intro exI [of _ "(waiting_at 7)\<lparr>clock := 127, timer := T_restart 7 127 127, reset_mutex := Some Timer\<rparr>"] conjI restart_reachable) simp_all

text \<open>The delay matters: a report after 119 seconds does not prevent the restart if the woken thread gets the mutex a second later.\<close>

lemma late_feed_lost:
  "\<exists>s. watchdog_reachable 0 s \<and> feeds s = [119] \<and> timer s = T_restart 0 119 120"
proof -
  let ?s = "(waiting_at 0)\<lparr>clock := clock (waiting_at 0) + 119\<rparr>"
  let ?s1 = "notify_all ?s\<lparr>feeds := feeds ?s @ [clock ?s]\<rparr>"
  let ?s2 = "?s1\<lparr>clock := clock ?s1 + 1\<rparr>"
  let ?s3 = "?s2\<lparr>timer := T_restart 0 119 120, reset_mutex := Some Timer\<rparr>"
  have "watchdog_reachable 0 ?s"
    using waiting_reachable [of 0] watchdog_ticks [of "waiting_at 0" 119] unfolding watchdog_reachable_def by (rule rtranclp_trans)
  moreover have "watchdog_step ?s ?s1"
    by (rule watchdog_step.fed) (simp_all add: feed_def waiting_at_def watchdog_created_def)
  moreover have "watchdog_step ?s1 ?s2" by (rule watchdog_step.tick)
  moreover have "watchdog_step ?s2 ?s3"
    using watchdog_step.woken [of ?s2 0 119] by (simp add: notify_all_def waiting_at_def watchdog_created_def WATCHDOG_TIMEOUT_def)
  ultimately have "watchdog_reachable 0 ?s3"
    unfolding watchdog_reachable_def by (blast intro: rtranclp.rtrancl_into_rtrancl)
  then show ?thesis by (intro exI [of _ ?s3]) (simp add: notify_all_def waiting_at_def watchdog_created_def)
qed

section \<open>Restarts\<close>

text \<open>A shell that plays back a list of outcomes, and the commands that a restart takes from it.\<close>

lemma find_map_list: "List.find P (map f xs) = map_option f (List.find (\<lambda>x. P (f x)) xs)"
  by (induction xs) auto

lemma restart_loop_tries:
  "restart_loop n (\<lambda>w. (f w, Suc w)) w k =
     (case List.find (\<lambda>i. run_cmd (f (w + i)) = 0) [0..<n] of
        None \<Rightarrow> (- 1, w + n, k + n) | Some i \<Rightarrow> (0, w + i + 1, k + i))"
proof (induction n arbitrary: w k)
  case (Suc n)
  have "List.find (\<lambda>i. run_cmd (f (w + i)) = 0) [0..<Suc n] =
    (if run_cmd (f w) = 0 then Some 0 else map_option Suc (List.find (\<lambda>i. run_cmd (f (Suc w + i)) = 0) [0..<n]))"
    unfolding upt_conv_Cons [OF zero_less_Suc] map_Suc_upt [symmetric] by (simp add: find_map_list)
  then show ?case by (simp add: Suc.IH split: option.split)
qed simp

definition unhealthy :: "agent_status \<Rightarrow> bool" where
  "unhealthy status \<longleftrightarrow> new_dead_targets status \<noteq> [] \<or> new_dead_healthcheck_targets status \<noteq> []"

text \<open>The number of unhealthy reports since the last healthy one.\<close>

definition streak :: "agent_status list \<Rightarrow> nat" where
  "streak reports = length (takeWhile unhealthy (rev reports))"

lemma streak_snoc: "streak (reports @ [r]) = (if unhealthy r then Suc (streak reports) else 0)"
  by (simp add: streak_def)

lemma streak_le: "streak reports \<le> length reports"
  unfolding streak_def using length_takeWhile_le [of unhealthy "rev reports"] by simp

definition restart_world :: "('w \<Rightarrow> cmd_status \<times> 'w) \<Rightarrow> 'w \<Rightarrow> 'w" where
  "restart_world shell w = fst (snd (service_runtime_restart shell w))"

text \<open>The reports that lead to a restart: those that end a streak of three or more.\<close>

definition restart_points :: "agent_status list \<Rightarrow> nat" where
  "restart_points reports = length (filter (\<lambda>n. streak (take n reports) \<ge> 3) [1..<Suc (length reports)])"

lemma restart_points_snoc:
  "restart_points (reports @ [r]) = restart_points reports + (if streak (reports @ [r]) \<ge> 3 then 1 else 0)"
proof -
  have "filter (\<lambda>n. streak (take n (reports @ [r])) \<ge> 3) [1..<Suc (length reports)] =
    filter (\<lambda>n. streak (take n reports) \<ge> 3) [1..<Suc (length reports)]"
    by (intro filter_cong refl) auto
  then show ?thesis by (simp add: restart_points_def)
qed

lemma notify_cases:
  "notify shell r m =
     (let c = (if unhealthy r then unhealthy_count m + 1 else 0)
      in m\<lparr>mon_feeds := mon_feeds m + 1, unhealthy_count := c, mon_world := (if c \<ge> 3 then restart_world shell (mon_world m) else mon_world m)\<rparr>)"
  by (simp add: notify_def unhealthy_def restart_world_def Let_def split: prod.split)

lemma unat_ge_3: "(3 :: u32) \<le> c \<longleftrightarrow> 3 \<le> unat c"
  by (simp add: word_le_nat_alt)

text \<open>
  C16: when the monitor restarts the runtime. After any sequence of fewer than \<open>2 ^ 32\<close> reports the
  counter is the number of unhealthy reports since the last healthy one, every report has fed
  the watchdog, and the restart command was run exactly for the reports that ended a streak of at
  least three, once for each of them, so again for each further unhealthy report.
\<close>

theorem notify_restarts:
  assumes "length reports < 2 ^ 32"
  shows "fold (notify shell) reports \<lparr>unhealthy_count = 0, mon_world = w, mon_feeds = 0\<rparr> =
    \<lparr>unhealthy_count = of_nat (streak reports), mon_world = (restart_world shell ^^ restart_points reports) w, mon_feeds = length reports\<rparr>"
  using assms
proof (induction reports rule: rev_induct)
  case Nil
  show ?case by (simp add: streak_def restart_points_def)
next
  case (snoc r reports)
  let ?c = "if unhealthy r then of_nat (streak reports) + 1 else 0 :: u32"
  have c: "?c = of_nat (streak (reports @ [r]))" by (simp add: streak_snoc add.commute)
  have "streak (reports @ [r]) < 2 ^ 32" using streak_le [of "reports @ [r]"] snoc.prems by simp
  then have ge: "3 \<le> ?c \<longleftrightarrow> 3 \<le> streak (reports @ [r])" unfolding c unat_ge_3 by (simp add: unat_of_nat)
  have "notify shell r \<lparr>unhealthy_count = of_nat (streak reports), mon_world = v, mon_feeds = n\<rparr> =
    \<lparr>unhealthy_count = ?c, mon_world = (if 3 \<le> ?c then restart_world shell v else v), mon_feeds = n + 1\<rparr>" for v n
    by (simp add: notify_cases Let_def)
  then show ?case using snoc ge unfolding c by (simp add: restart_points_snoc)
qed

theorem notify_restarts_witness:
  "fold (notify (\<lambda>w. (Exited 0, Suc w))) (replicate 4 \<lparr>dead_targets = [], new_dead_targets = [''ocr''], dead_healthcheck_targets = [],
       new_dead_healthcheck_targets = []\<rparr>) \<lparr>unhealthy_count = 0, mon_world = 0, mon_feeds = 0\<rparr> =
     \<lparr>unhealthy_count = 4, mon_world = 2, mon_feeds = 4\<rparr>"
proof -
  let ?r = "replicate 4 \<lparr>dead_targets = [], new_dead_targets = [''ocr''], dead_healthcheck_targets = [], new_dead_healthcheck_targets = []\<rparr>"
  have s: "streak ?r = 4" "restart_points ?r = 2" by code_simp+
  have w: "restart_world (\<lambda>w. (Exited 0, Suc w)) w = Suc w" for w
    by (simp add: restart_world_def service_runtime_restart_def run_cmd_def numeral_3_eq_3)
  have "length ?r < 2 ^ 32" by simp
  from notify_restarts [OF this, of "\<lambda>w. (Exited 0, Suc w)" 0] show ?thesis unfolding s by (simp add: w numeral_2_eq_2)
qed

section \<open>Addresses\<close>

lemma fgets_piece_line: "CHR 0x0A \<notin> set (butlast s) \<Longrightarrow> length s \<le> n \<Longrightarrow> fgets_piece n s = (s, [])"
proof (induction n s rule: fgets_piece.induct)
  case (3 n c cs)
  then show ?case by (cases cs) auto
qed auto

lemma last_piece_line:
  assumes "s \<noteq> []" "CHR 0x0A \<notin> set (butlast s)" "length s \<le> n"
  shows "last_piece n buf s = Some s"
  using assms fgets_piece_line [OF assms(2,3)] by (auto simp: last_piece.simps [of n buf s] last_piece.simps [of n _ "[]"])

lemma gateway_loop_backoff:
  assumes "\<forall>p \<in> set fails. case p of None \<Rightarrow> True | Some (out, status) \<Rightarrow> exit_code status \<noteq> 0"
    "exit_code status = 0" "\<And>buf. last_piece (bufsize - 1) buf out = Some a" "interval = min 64 (2 ^ k)"
  shows "gateway_loop bufsize (fails @ Some (out, status) # later) addr interval slept =
    Some (Inr (takeWhile (\<lambda>c. c \<noteq> CHR 0x0A) a, slept @ map (\<lambda>i. min 64 (2 ^ i)) [k..<k + length fails]))"
  using assms(1,4)
proof (induction fails arbitrary: addr interval slept k)
  case Nil
  then show ?case using assms(2) assms(3) [of addr] by simp
next
  case (Cons p fails)
  have next_k: "(if min 64 (2 ^ k) < MAX_INTERVAL then min 64 (2 ^ k) * 2 else min 64 (2 ^ k)) = min 64 (2 ^ Suc k :: nat)"
  proof (cases "k < 6")
    case True
    then have "k \<in> {0, 1, 2, 3, 4, 5}" by auto
    then show ?thesis by (auto simp: MAX_INTERVAL_def)
  next
    case False
    then have "(2 :: nat) ^ 6 \<le> 2 ^ k" by (intro power_increasing) auto
    then show ?thesis by (simp add: MAX_INTERVAL_def)
  qed
  have u: "[k..<k + length (p # fails)] = k # [Suc k..<Suc k + length fails]"
    by (subst upt_conv_Cons) simp_all
  show ?case
    using Cons.IH [of "min 64 (2 ^ Suc k)" "Suc k"] Cons.prems next_k unfolding u by (auto simp: Let_def split: option.split)
qed

text \<open>
  Waiting for the container. As soon as the command exits with 0 and prints something the monitor has
  the address, and between the failures before it has slept 1, 2, 4, ... seconds, doubling up to 64:
  the loop ends for every number of failures.
\<close>

theorem gateway_backoff:
  assumes "\<forall>p \<in> set fails. case p of None \<Rightarrow> True | Some (out, status) \<Rightarrow> exit_code status \<noteq> 0"
    "out \<noteq> []" "CHR 0x0A \<notin> set (butlast out)" "length out < 32"
  shows "get_container_gateway_addr 32 (fails @ Some (out, Exited 0) # later) =
    Some (Inr (takeWhile (\<lambda>c. c \<noteq> CHR 0x0A) out, map (\<lambda>i. min 64 (2 ^ i)) [0..<length fails]))"
proof -
  have "last_piece 31 buf out = Some out" for buf
    using assms(2-4) by (intro last_piece_line) simp_all
  then show ?thesis
    using gateway_loop_backoff [OF assms(1), of "Exited 0" 32 out out 1 0] by (simp add: get_container_gateway_addr_def exit_code_def)
qed

theorem gateway_backoff_witness:
  "get_container_gateway_addr 32 [None, Some ([], Exited 1), Some (''172.17.0.1'' @ [CHR 0x0A], Exited 0)] = Some (Inr (''172.17.0.1'', [1, 2]))"
  using gateway_backoff [of "[None, Some ([], Exited 1)]" "''172.17.0.1'' @ [CHR 0x0A]" "[]"]
  by (simp add: exit_code_def)

text \<open>When no sound server runs the pipeline prints nothing and exits with 0: a buffer is read that was never written.\<close>

lemma pulse_port_uninitialised: "get_pulse_server_addr ip (Some ([], Exited 0)) = Inl Undefined"
  by (simp add: get_pulse_server_addr_def get_pulse_server_port_def exit_code_def last_piece.simps)

lemma pulse_addr:
  assumes "port \<noteq> []" "CHR 0x0A \<notin> set port" "length port < 15"
  shows "get_pulse_server_addr ip (Some (port @ [CHR 0x0A], Exited 0)) = Inr (0, ''tcp:'' @ ip @ '':'' @ port)"
proof -
  have "last_piece 15 None (port @ [CHR 0x0A]) = Some (port @ [CHR 0x0A])"
    using assms by (intro last_piece_line) simp_all
  moreover have "takeWhile (\<lambda>c. c \<noteq> CHR 0x0A) (port @ [CHR 0x0A]) = port" using assms(2) by (induction port) auto
  ultimately show ?thesis using assms(1) by (simp add: get_pulse_server_addr_def get_pulse_server_port_def exit_code_def)
qed

end
