(* ===== verification/DnsHosts.thy ===== *)
theory DnsHosts
  imports ConfigText
begin

text \<open>
  The name service module of the container, \<^verbatim>\<open>conf.c\<close> and \<^verbatim>\<open>nss_ccai.c\<close>: a file of addresses and host names is read
  through a buffer on the stack into an array, and lookups search the array. The conversion of
  addresses from text (\<^verbatim>\<open>inet_pton\<close>) is a parameter; files are read without error and memory is never exhausted.
\<close>

section \<open>The array of hosts\<close>

datatype family = AF_INET | AF_INET6

record host_ent =
  ent_family :: family
  ent_addr :: "u8 list"
  ent_names :: string

text \<open>
  The pointer \<^verbatim>\<open>hosts\<close>: null, an array whose first slots have never been written, or the entries before the
  null pointer that ends them; and the static counter of \<^verbatim>\<open>parse_line\<close>, which only grows.
\<close>

datatype hosts_array = Null | Unset | Entries "host_ent list"

record conf_state =
  hosts :: hosts_array
  host_count :: nat

type_synonym pton = "family \<Rightarrow> string \<Rightarrow> u8 list option"

text \<open>A line: the address is its first word, the names are what follows; comments and lines without names are passed over.\<close>

definition line_names :: "string \<Rightarrow> string" where
  "line_names line = dropWhile isspace (drop 1 (dropWhile (\<lambda>c. \<not> isspace c) (tl (dropWhile isspace line))))"

definition has_names :: "string \<Rightarrow> bool" where
  "has_names line \<longleftrightarrow> (let p = dropWhile isspace line in p \<noteq> [] \<and> hd p \<noteq> CHR ''#'' \<and> line_names line \<noteq> [])"

definition line_entry :: "pton \<Rightarrow> string \<Rightarrow> host_ent option" where
  "line_entry pton line =
     (if \<not> has_names line then None
      else
        (let p = dropWhile isspace line; word = hd p # takeWhile (\<lambda>c. \<not> isspace c) (tl p)
         in (case pton AF_INET word of
               Some a \<Rightarrow> Some \<lparr>ent_family = AF_INET, ent_addr = a, ent_names = line_names line\<rparr>
             | None \<Rightarrow> map_option (\<lambda>a. \<lparr>ent_family = AF_INET6, ent_addr = a, ent_names = line_names line\<rparr>) (pton AF_INET6 word))))"

text \<open>
  \<^verbatim>\<open>parse_line\<close>: the line, its length as the caller gives it, and the bytes from its start to the end of the
  buffer. That length and one more byte are copied from the names on, which must not go past the buffer.
\<close>

definition parse_line :: "pton \<Rightarrow> string \<Rightarrow> nat \<Rightarrow> nat \<Rightarrow> conf_state \<Rightarrow> conf_state result" where
  "parse_line pton line len avail st =
     (if \<not> has_names line then Inr st
      else
        (let st1 = (if host_count st mod 8 = 0 \<and> hosts st = Null then st\<lparr>hosts := Unset\<rparr> else st)
         in (case line_entry pton line of
               None \<Rightarrow> Inr st1
             | Some e \<Rightarrow>
                 if (length line - length (line_names line)) + len + 1 > avail then Inl Undefined
                 else
                   (case hosts st1 of
                      Null \<Rightarrow> Inl Undefined
                    | Unset \<Rightarrow> Inr (st1\<lparr>hosts := (if host_count st1 = 0 then Entries [e] else Unset), host_count := host_count st1 + 1\<rparr>)
                    | Entries es \<Rightarrow> Inr (st1\<lparr>hosts := Entries (es @ [e]), host_count := host_count st1 + 1\<rparr>)))))"

section \<open>Reading through a buffer\<close>

text \<open>\<^verbatim>\<open>strchr(p, '\n')\<close> in a buffer: nothing if a zero comes first, no meaning if the buffer ends first.\<close>

definition find_newline :: "string \<Rightarrow> nat \<Rightarrow> nat option result" where
  "find_newline buf p =
     (case List.find (\<lambda>i. buf ! i = CHR 0x0A \<or> buf ! i = CHR 0x00) [p..<length buf] of
        None \<Rightarrow> Inl Undefined
      | Some i \<Rightarrow> Inr (if buf ! i = CHR 0x0A then Some i else None))"

lemma find_newline_bounds: "find_newline buf p = Inr (Some q) \<Longrightarrow> p \<le> q \<and> q < length buf"
  by (auto simp: find_newline_def find_Some_iff split: option.split_asm if_split_asm)

function line_loop :: "pton \<Rightarrow> string \<Rightarrow> nat \<Rightarrow> conf_state \<Rightarrow> (string \<times> nat \<times> conf_state) result" where
  "line_loop pton buf p st =
     (case find_newline buf p of
        Inl e \<Rightarrow> Inl e
      | Inr None \<Rightarrow> Inr (buf, p, st)
      | Inr (Some q) \<Rightarrow>
          rbind (parse_line pton (take (q - p) (drop p buf)) (q - p) (length buf - p) st) (\<lambda>st'.
            line_loop pton (buf[q := CHR 0x00]) (q + 1) st'))"
  by pat_completeness auto
termination
  by (relation "measure (\<lambda>(f, b, p, s). length b - p)") (auto dest: find_newline_bounds)

declare line_loop.simps [simp del]

text \<open>\<^verbatim>\<open>read\<close> into the buffer, and \<^verbatim>\<open>memmove\<close> to its start.\<close>

definition store_at :: "string \<Rightarrow> nat \<Rightarrow> string \<Rightarrow> string" where
  "store_at buf pos chunk = take pos buf @ chunk @ drop (pos + length chunk) buf"

definition move_down :: "string \<Rightarrow> nat \<Rightarrow> nat \<Rightarrow> string" where
  "move_down buf p n = store_at buf 0 (take n (drop p buf))"

text \<open>Skipping the rest of a line that is too long: the buffer, the number of bytes kept and what is left of the file.\<close>

function skip_loop :: "string \<Rightarrow> nat \<Rightarrow> string \<Rightarrow> (string \<times> nat \<times> string) result" where
  "skip_loop buf cur rest =
     (let chunk = take (length buf) rest; len = length chunk
      in if len = 0 then Inr (buf, cur, rest)
         else
           (let buf1 = store_at buf 0 chunk; rest1 = drop (length buf) rest
            in (case find_newline buf1 0 of
                  Inl e \<Rightarrow> Inl e
                | Inr None \<Rightarrow> skip_loop buf1 cur rest1
                | Inr (Some q) \<Rightarrow>
                    if q + 1 > len then Inl Undefined else Inr (move_down buf1 (q + 1) (len - (q + 1)), len - (q + 1), rest1))))"
  by pat_completeness auto
termination
  by (relation "measure (\<lambda>(b, c, r). length r)") auto

declare skip_loop.simps [simp del]

lemma skip_loop_rest: "skip_loop buf cur rest = Inr (buf', cur', rest') \<Longrightarrow> length rest' \<le> length rest"
proof (induction buf cur rest rule: skip_loop.induct)
  case (1 buf cur rest)
  let ?b = "store_at buf 0 (take (length buf) rest)"
  have IH: "length rest' \<le> length (drop (length buf) rest)"
    if "take (length buf) rest \<noteq> []" "find_newline ?b 0 = Inr None" "skip_loop ?b cur (drop (length buf) rest) = Inr (buf', cur', rest')"
    using "1.IH" [OF refl refl _ refl refl that(2) refl that(3)] that(1) by simp
  show ?case
  proof (cases "take (length buf) rest \<noteq> [] \<and> find_newline ?b 0 = Inr None")
    case True
    then have "skip_loop buf cur rest = skip_loop ?b cur (drop (length buf) rest)" by (subst skip_loop.simps) (simp add: Let_def)
    with IH True "1.prems" show ?thesis by fastforce
  next
    case False
    with "1.prems" show ?thesis
      by (subst (asm) skip_loop.simps) (auto simp: Let_def split: if_split_asm sum.split_asm option.split_asm)
  qed
qed

lemma read_shortens: "r \<noteq> [] \<Longrightarrow> c < n \<Longrightarrow> length r + c - n < length r"
  by (cases r) auto

function conf_loop :: "pton \<Rightarrow> string \<Rightarrow> nat \<Rightarrow> string \<Rightarrow> conf_state \<Rightarrow> (string \<times> nat \<times> conf_state) result" where
  "conf_loop pton buf cur rest st =
     (let chunk = take (length buf - cur) rest; len = length chunk; rest1 = drop (length buf - cur) rest
      in if len = 0 then Inr (buf, cur, st)
         else
           (case line_loop pton (store_at buf cur chunk) 0 st of
              Inl e \<Rightarrow> Inl e
            | Inr (buf1, p, st1) \<Rightarrow>
                if p > 0
                then (if p > len + cur then Inl Undefined
                      else conf_loop pton (move_down buf1 p (len + cur - p)) (len + cur - p) rest1 st1)
                else
                  (case skip_loop buf1 cur rest1 of
                     Inl e \<Rightarrow> Inl e
                   | Inr (buf2, cur2, rest2) \<Rightarrow> conf_loop pton buf2 cur2 rest2 st1)))"
  by pat_completeness auto
termination
proof (relation "measure (\<lambda>(f, b, c, r, s). length r)", goal_cases)
  case (3 pton buf cur rest st chunk len rest1 a x1 b buf1 p st1 xe yb xf yc)
  then have "length yc \<le> length rest1" using skip_loop_rest by metis
  with 3 show ?case by (cases rest) auto
qed (auto intro: read_shortens)

declare conf_loop.simps [simp del]

text \<open>\<^verbatim>\<open>conf_read\<close>: a last line without line end is ended with a zero, which must lie in the buffer.\<close>

definition conf_read :: "pton \<Rightarrow> string \<Rightarrow> string \<Rightarrow> conf_state \<Rightarrow> conf_state result" where
  "conf_read pton contents buf st =
     rbind (conf_loop pton buf 0 contents st) (\<lambda>(buf1, cur, st1).
       if cur = 0 then Inr st1
       else if cur \<ge> length buf1 then Inl Undefined
       else parse_line pton (takeWhile (\<lambda>c. c \<noteq> CHR 0x00) (take cur buf1)) cur (length buf1) st1)"

text \<open>\<^verbatim>\<open>conf_init\<close>: the contents of the file, if it can be opened, and what the buffer on the stack happens to hold.\<close>

definition conf_init :: "pton \<Rightarrow> string option \<Rightarrow> string \<Rightarrow> conf_state \<Rightarrow> (bool \<times> conf_state) result" where
  "conf_init pton opened buf st =
     rbind (case opened of None \<Rightarrow> Inr st | Some contents \<Rightarrow> conf_read pton contents buf st) (\<lambda>st1.
       Inr (opened \<noteq> None, if hosts st1 = Null then st1\<lparr>hosts := Entries []\<rparr> else st1))"

definition conf_fini :: "conf_state \<Rightarrow> conf_state result" where
  "conf_fini st = (case hosts st of Null \<Rightarrow> Inr st | Unset \<Rightarrow> Inl Undefined | Entries es \<Rightarrow> Inr (st\<lparr>hosts := Null\<rparr>))"

section \<open>Lookups\<close>

text \<open>The first occurrence of the name must be a word.\<close>

definition names_match :: "string \<Rightarrow> string \<Rightarrow> bool" where
  "names_match names name =
     (case str_find names name 0 of
        None \<Rightarrow> False
      | Some p \<Rightarrow> (p = 0 \<or> isspace (names ! (p - 1))) \<and> (p + length name = length names \<or> isspace (names ! (p + length name))))"

definition addr_size :: "family \<Rightarrow> nat" where
  "addr_size f = (case f of AF_INET \<Rightarrow> 4 | AF_INET6 \<Rightarrow> 16)"

text \<open>The loop: an entry of the family that matches, or the last IPv4 entry for a lookup of IPv6.\<close>

fun getaddr_loop :: "family \<Rightarrow> string \<Rightarrow> host_ent list \<Rightarrow> host_ent option \<Rightarrow> host_ent option" where
  "getaddr_loop fam name [] ent = ent"
| "getaddr_loop fam name (h # hs) ent =
     (if names_match (ent_names h) name
      then (if ent_family h = fam then Some h
            else if fam = AF_INET6 then getaddr_loop fam name hs (Some h)
            else getaddr_loop fam name hs ent)
      else getaddr_loop fam name hs ent)"

text \<open>
  \<^verbatim>\<open>conf_getaddr\<close>: the memory for the address, before and after; \<open>None\<close> if no host is found. An IPv4 address
  found for a lookup of IPv6 is the loopback address or is mapped.
\<close>

definition conf_getaddr :: "family \<Rightarrow> string \<Rightarrow> u8 list \<Rightarrow> conf_state \<Rightarrow> u8 list option result" where
  "conf_getaddr fam name addr st =
     (case hosts st of
        Entries es \<Rightarrow>
          (case getaddr_loop fam name es None of
             None \<Rightarrow> Inr None
           | Some h \<Rightarrow>
               if ent_family h = fam then Inr (Some (ent_addr h @ drop (addr_size fam) addr))
               else if ent_addr h = [127, 0, 0, 1] then Inr (Some (replicate 15 0 @ [1]))
               else Inr (Some ([255, 255] @ replicate 8 0 @ take 2 (drop 10 addr) @ ent_addr h)))
      | _ \<Rightarrow> Inl Undefined)"

section \<open>The interface of the name service switch\<close>

datatype nss_status = NSS_STATUS_TRYAGAIN | NSS_STATUS_UNAVAIL | NSS_STATUS_NOTFOUND | NSS_STATUS_SUCCESS

datatype nss_error = No_errno | EAFNOSUPPORT | ERANGE

datatype herrno = NETDB_SUCCESS | HOST_NOT_FOUND | NO_DATA | NETDB_INTERNAL

record hostent =
  h_name :: string
  h_addrtype :: family
  h_length :: nat
  h_addr :: "u8 list"

text \<open>
  \<^verbatim>\<open>_nss_ccai_gethostbyname2_r\<close>: \<open>None\<close> is another address family. The working buffer begins with two pointers
  and 16 bytes for the address.
\<close>

definition gethostbyname2 ::
  "string \<Rightarrow> family option \<Rightarrow> nat \<Rightarrow> u8 list \<Rightarrow> conf_state \<Rightarrow> (nss_status \<times> nss_error \<times> herrno \<times> hostent option) result" where
  "gethostbyname2 name af buflen memory st =
     (case af of
        None \<Rightarrow> Inr (NSS_STATUS_UNAVAIL, EAFNOSUPPORT, NO_DATA, None)
      | Some f \<Rightarrow>
          if 32 + length name \<ge> buflen then Inr (NSS_STATUS_TRYAGAIN, ERANGE, NETDB_INTERNAL, None)
          else
            rbind (conf_getaddr f name memory st) (\<lambda>found.
              (case found of
                 None \<Rightarrow> Inr (NSS_STATUS_NOTFOUND, No_errno, HOST_NOT_FOUND, None)
               | Some a \<Rightarrow>
                   Inr (NSS_STATUS_SUCCESS, No_errno, NETDB_SUCCESS,
                     Some \<lparr>h_name = name, h_addrtype = f, h_length = addr_size f, h_addr = take (addr_size f) a\<rparr>))))"

definition gethostbyname :: "string \<Rightarrow> nat \<Rightarrow> u8 list \<Rightarrow> conf_state \<Rightarrow> (nss_status \<times> nss_error \<times> herrno \<times> hostent option) result" where
  "gethostbyname name buflen memory st = gethostbyname2 name (Some AF_INET) buflen memory st"

section \<open>Files that fit\<close>

text \<open>The state after the lines so far, from a fresh start.\<close>

definition after_lines :: "pton \<Rightarrow> string list \<Rightarrow> conf_state" where
  "after_lines pton ls =
     (let es = List.map_filter (line_entry pton) ls
      in \<lparr>hosts = (if es \<noteq> [] then Entries es else if list_ex has_names ls then Unset else Null), host_count = length es\<rparr>)"

lemma after_lines_snoc:
  "after_lines pton (ls @ [line]) =
     (if \<not> has_names line then after_lines pton ls
      else
        (case line_entry pton line of
           None \<Rightarrow> (if hosts (after_lines pton ls) = Null then (after_lines pton ls)\<lparr>hosts := Unset\<rparr> else after_lines pton ls)
         | Some e \<Rightarrow> \<lparr>hosts = Entries (List.map_filter (line_entry pton) ls @ [e]), host_count = host_count (after_lines pton ls) + 1\<rparr>))"
  by (auto simp: after_lines_def Let_def List.map_filter_def line_entry_def [of pton line] split: option.split)

lemma after_lines_hosts:
  "hosts (after_lines pton ls) = Entries es \<Longrightarrow> es = List.map_filter (line_entry pton) ls"
  "hosts (after_lines pton ls) \<in> {Null, Unset} \<Longrightarrow> List.map_filter (line_entry pton) ls = [] \<and> host_count (after_lines pton ls) = 0"
  by (auto simp: after_lines_def Let_def split: if_split_asm)

lemma parse_line_after:
  assumes "2 * length line < avail"
  shows "parse_line pton line (length line) avail (after_lines pton ls) = Inr (after_lines pton (ls @ [line]))"
proof -
  have fits: "\<not> length line - length (line_names line) + length line + 1 > avail" using assms by linarith
  note h = after_lines_hosts [of pton ls]
  show ?thesis
    unfolding parse_line_def after_lines_snoc using fits h
    by (cases "hosts (after_lines pton ls)") (auto simp: Let_def split: option.split)
qed

definition file_of :: "string list \<Rightarrow> string" where
  "file_of ls = concat (map (\<lambda>l. l @ [CHR 0x0A]) ls)"

definition plain_line :: "string \<Rightarrow> bool" where
  "plain_line l \<longleftrightarrow> CHR 0x0A \<notin> set l \<and> CHR 0x00 \<notin> set l"

lemma find_at_offset:
  assumes "\<forall>x \<in> set l. \<not> P x" "P c"
  shows "List.find (\<lambda>i. P ((pre @ l @ c # post) ! i)) [length pre..<length (pre @ l @ c # post)] = Some (length pre + length l)"
proof -
  have "[length pre..<length (pre @ l @ c # post)] ! k = length pre + k" if "k < length l + 1 + length post" for k
    using that by (subst nth_upt) simp_all
  then show ?thesis using assms by (auto simp: find_Some_iff nth_append simp del: upt_Suc intro!: exI [of _ "length l"])
qed

lemma find_newline_line:
  assumes "plain_line l"
  shows "find_newline (pre @ l @ CHR 0x0A # post) (length pre) = Inr (Some (length pre + length l))"
proof -
  have "\<forall>c \<in> set l. \<not> (c = CHR 0x0A \<or> c = CHR 0x00)" using assms by (auto simp: plain_line_def)
  note f = find_at_offset [of l "\<lambda>c. c = CHR 0x0A \<or> c = CHR 0x00" "CHR 0x0A" pre post, OF this]
  show ?thesis unfolding find_newline_def by (subst f) (simp_all add: nth_append)
qed

text \<open>
  What lies behind the bytes that were read: \<^verbatim>\<open>strchr\<close> goes on there, and finds nothing exactly if a zero comes
  before the next line end.
\<close>

definition ends_quietly :: "string \<Rightarrow> bool" where
  "ends_quietly junk = (case dropWhile (\<lambda>c. c \<noteq> CHR 0x0A \<and> c \<noteq> CHR 0x00) junk of [] \<Rightarrow> False | c # _ \<Rightarrow> c = CHR 0x00)"

lemma find_newline_junk: "find_newline (pre @ junk) (length pre) = Inr None \<longleftrightarrow> ends_quietly junk"
proof -
  let ?l = "takeWhile (\<lambda>c. c \<noteq> CHR 0x0A \<and> c \<noteq> CHR 0x00) junk" and ?d = "dropWhile (\<lambda>c. c \<noteq> CHR 0x0A \<and> c \<noteq> CHR 0x00) junk"
  have l: "\<forall>c \<in> set ?l. \<not> (c = CHR 0x0A \<or> c = CHR 0x00)" by (auto dest: set_takeWhileD)
  show ?thesis
  proof (cases ?d)
    case Nil
    then have "\<forall>c \<in> set junk. c \<noteq> CHR 0x0A \<and> c \<noteq> CHR 0x00" by (simp only: dropWhile_eq_Nil_conv)
    then have "List.find (\<lambda>i. (pre @ junk) ! i = CHR 0x0A \<or> (pre @ junk) ! i = CHR 0x00) [length pre..<length (pre @ junk)] = None"
      by (auto simp: find_None_iff nth_append)
    then show ?thesis unfolding ends_quietly_def Nil find_newline_def by simp
  next
    case (Cons c post)
    have j: "junk = ?l @ c # post" using takeWhile_dropWhile_id [of _ junk] Cons by metis
    have c: "c = CHR 0x0A \<or> c = CHR 0x00" using hd_dropWhile [of "\<lambda>c. c \<noteq> CHR 0x0A \<and> c \<noteq> CHR 0x00" junk] Cons by auto
    note f = find_at_offset [of ?l "\<lambda>c. c = CHR 0x0A \<or> c = CHR 0x00" c pre post, OF l c, folded j]
    have "(pre @ junk) ! (length pre + length ?l) = c" by (subst j) (simp add: nth_append)
    then show ?thesis unfolding ends_quietly_def Cons find_newline_def using f c by auto
  qed
qed

lemma line_loop_lines:
  assumes "\<forall>l \<in> set ls. plain_line l \<and> length l \<le> length junk"
  shows "\<exists>pre'. line_loop pton (pre @ file_of ls @ junk) (length pre) (after_lines pton done_ls) =
    line_loop pton (pre' @ junk) (length pre') (after_lines pton (done_ls @ ls)) \<and> length pre' = length pre + length (file_of ls)"
  using assms
proof (induction ls arbitrary: pre done_ls)
  case Nil
  show ?case by (rule exI [of _ pre]) (simp add: file_of_def)
next
  case (Cons l ls)
  let ?tail = "file_of ls @ junk" and ?pre = "pre @ l @ [CHR 0x00]"
  have l: "plain_line l" "length l \<le> length junk" using Cons.prems by auto
  have b: "pre @ file_of (l # ls) @ junk = pre @ l @ CHR 0x0A # ?tail" by (simp add: file_of_def)
  have "parse_line pton l (length l) (length (pre @ l @ CHR 0x0A # ?tail) - length pre) (after_lines pton done_ls) =
      Inr (after_lines pton (done_ls @ [l]))"
    using l(2) by (intro parse_line_after) simp
  moreover have "(pre @ l @ CHR 0x0A # ?tail)[length pre + length l := CHR 0x00] = ?pre @ ?tail"
    by (simp add: list_update_append)
  ultimately have "line_loop pton (pre @ l @ CHR 0x0A # ?tail) (length pre) (after_lines pton done_ls) =
      line_loop pton (?pre @ ?tail) (length ?pre) (after_lines pton (done_ls @ [l]))"
    by (subst line_loop.simps) (simp add: find_newline_line [OF l(1)])
  moreover obtain pre' where "line_loop pton (?pre @ ?tail) (length ?pre) (after_lines pton (done_ls @ [l])) =
      line_loop pton (pre' @ junk) (length pre') (after_lines pton ((done_ls @ [l]) @ ls))" "length pre' = length ?pre + length (file_of ls)"
    using Cons.IH [of ?pre "done_ls @ [l]"] Cons.prems by auto
  ultimately show ?case unfolding b by (intro exI [of _ pre']) (simp add: file_of_def)
qed

text \<open>The loop over lines only goes forward, and fails in no other way than by undefined behaviour.\<close>

lemma parse_line_fails: "parse_line pton line len avail st = Inl e \<Longrightarrow> e = Undefined"
  by (auto simp: parse_line_def Let_def split: if_splits option.splits hosts_array.splits)

lemma line_loop_forward:
  "(\<forall>e. line_loop pton buf p st = Inl e \<longrightarrow> e = Undefined) \<and>
   (\<forall>b p' st'. line_loop pton buf p st = Inr (b, p', st') \<longrightarrow> p \<le> p')"
proof (induction pton buf p st rule: line_loop.induct)
  case (1 pton buf p st)
  show ?case
  proof (cases "find_newline buf p")
    case (Inl e)
    then have "e = Undefined" by (auto simp: find_newline_def split: option.splits)
    with Inl show ?thesis by (simp add: line_loop.simps [of pton buf p])
  next
    case (Inr f)
    show ?thesis
    proof (cases f)
      case None
      with Inr show ?thesis by (simp add: line_loop.simps [of pton buf p])
    next
      case (Some q)
      note step = line_loop.simps [of pton buf p st] and IH = "1.IH" [OF Inr [unfolded Some] refl]
      have "p \<le> q" using find_newline_bounds Inr Some by blast
      then have "p \<le> p'" if "line_loop pton (buf[q := CHR 0x00]) (q + 1) x = Inr (b, p', st')" for x b p' st'
        using IH [of x] that by fastforce
      with IH show ?thesis unfolding step Inr Some sum.case option.case rbind_eq_Inr rbind_eq_Inl
        using parse_line_fails by blast
    qed
  qed
qed

lemma line_loop_moves:
  assumes "line_loop pton buf p st = Inr (b, p', st')" "find_newline buf p \<noteq> Inr None"
  shows "p < p'"
proof -
  obtain q where q: "find_newline buf p = Inr (Some q)"
    using assms by (cases "find_newline buf p") (auto simp: line_loop.simps [of pton buf p] not_None_eq)
  then obtain st1 where "line_loop pton (buf[q := CHR 0x00]) (q + 1) st1 = Inr (b, p', st')"
    using assms(1) by (auto simp: line_loop.simps [of pton buf p] result_simps)
  then have "q + 1 \<le> p'" using line_loop_forward [of pton "buf[q := CHR 0x00]" "q + 1" st1] by blast
  with find_newline_bounds [OF q] show ?thesis by simp
qed

lemma store_at_0: "store_at buf 0 chunk = chunk @ drop (length chunk) buf"
  by (simp add: store_at_def)

text \<open>
  C37: reading a small hosts file, whatever the buffer on the stack holds. From a fresh start, a file of
  lines that are all ended, without zero bytes and with at most 127 bytes in all, is read as follows. If the
  file is empty, or if behind the bytes of the file the uninitialised rest of the buffer happens to hold a zero before the next line end, then
  every line with an address and names becomes an entry, in the order of the file, comments and faulty
  lines are passed over, and no access is outside the buffer; the array is then complete, unless
  there are lines with names but none is an entry: in that case its end is never written. In every other case
  the search for line ends leaves the bytes that were read and the behaviour is undefined.
\<close>

theorem conf_init_small_file:
  assumes "\<forall>l \<in> set ls. plain_line l" "length (file_of ls) \<le> 127" "length buf = 256"
  shows "conf_init pton (Some (file_of ls)) buf \<lparr>hosts = Null, host_count = 0\<rparr> =
    (let es = List.map_filter (line_entry pton) ls
     in if ls = [] \<or> ends_quietly (drop (length (file_of ls)) buf)
        then Inr (True, \<lparr>hosts = (if es = [] \<and> list_ex has_names ls then Unset else Entries es), host_count = length es\<rparr>)
        else Inl Undefined)"
proof -
  let ?n = "length (file_of ls)" and ?init = "\<lparr>hosts = Null, host_count = 0\<rparr>" and ?ok = "ls = [] \<or> ends_quietly (drop (length (file_of ls)) buf)"
  define junk where "junk = drop ?n buf"
  have init: "?init = after_lines pton []" by (simp add: after_lines_def List.map_filter_def)
  have short: "length l \<le> ?n" if "l \<in> set ls" for l
    using that unfolding file_of_def by (induction ls) auto
  have "(if ?ok then \<exists>b. conf_loop pton buf 0 (file_of ls) ?init = Inr (b, 0, after_lines pton ls)
         else conf_loop pton buf 0 (file_of ls) ?init = Inl Undefined)"
  proof (cases "ls = []")
    case True
    then show ?thesis unfolding init by (subst conf_loop.simps) (simp add: file_of_def)
  next
    case False
    then have ne: "file_of ls \<noteq> []" by (cases ls) (auto simp: file_of_def)
    have "\<forall>l \<in> set ls. plain_line l \<and> length l \<le> length junk"
      using assms short by (fastforce simp: junk_def)
    from line_loop_lines [OF this, of pton "[]" "[]"] obtain pre' where n: "length pre' = ?n" and
      l: "line_loop pton (file_of ls @ junk) 0 ?init = line_loop pton (pre' @ junk) ?n (after_lines pton ls)"
      unfolding init by auto
    have t: "take 256 (file_of ls) = file_of ls" "drop 256 (file_of ls) = []" using assms(2) by simp_all
    have st: "store_at buf 0 (file_of ls) = file_of ls @ junk" unfolding store_at_0 junk_def ..
    note step = conf_loop.simps [of pton buf 0 "file_of ls" ?init]
    show ?thesis
    proof (cases "ends_quietly junk")
      case True
      have "line_loop pton (pre' @ junk) ?n (after_lines pton ls) = Inr (pre' @ junk, ?n, after_lines pton ls)"
        using find_newline_junk [of pre' junk] True n by (simp add: line_loop.simps [of pton "pre' @ junk" ?n])
      then have "conf_loop pton buf 0 (file_of ls) ?init = conf_loop pton (move_down (pre' @ junk) ?n 0) 0 [] (after_lines pton ls)"
        using ne t l st assms(3) unfolding step by (simp add: Let_def)
      also have "\<dots> = Inr (move_down (pre' @ junk) ?n 0, 0, after_lines pton ls)" by (subst conf_loop.simps) simp
      finally show ?thesis using True by (simp add: junk_def)
    next
      case False
      have "conf_loop pton buf 0 (file_of ls) ?init = Inl Undefined"
      proof (cases "line_loop pton (pre' @ junk) ?n (after_lines pton ls)")
        case (Inl e)
        then have "e = Undefined" using line_loop_forward by blast
        with Inl show ?thesis using ne t l st assms(3) unfolding step by (simp add: Let_def)
      next
        case (Inr r)
        obtain b p st' where r: "r = (b, p, st')" by (cases r)
        have "?n < p" using line_loop_moves [OF Inr [unfolded r]] find_newline_junk [of pre' junk] False n by simp
        with Inr r show ?thesis using ne t l st assms(3) unfolding step by (simp add: Let_def)
      qed
      with False \<open>ls \<noteq> []\<close> show ?thesis by (simp add: junk_def)
    qed
  qed
  then have "conf_read pton (file_of ls) buf ?init = (if ?ok then Inr (after_lines pton ls) else Inl Undefined)"
    by (auto simp: conf_read_def split: if_splits)
  then show ?thesis by (auto simp: conf_init_def after_lines_def Let_def)
qed

text \<open>A parameter for concrete runs: only a few addresses are known.\<close>

definition toy_pton :: pton where
  "toy_pton f s = (if f = AF_INET then map_of [(''10.0.0.1'', [10, 0, 0, 1]), (''10.0.0.2'', [10, 0, 0, 2])] s else None)"

theorem conf_init_small_file_witness:
  "conf_init toy_pton (Some (file_of [''# hosts'', ''10.0.0.1 ocr tts'', ''x y''])) (replicate 40 (CHR ''?'') @ replicate 216 (CHR 0x00))
       \<lparr>hosts = Null, host_count = 0\<rparr> =
     Inr (True, \<lparr>hosts = Entries [\<lparr>ent_family = AF_INET, ent_addr = [10, 0, 0, 1], ent_names = ''ocr tts''\<rparr>], host_count = 1\<rparr>) \<and>
   conf_init toy_pton (Some (file_of [''# hosts'', ''10.0.0.1 ocr tts'', ''x y''])) (replicate 256 (CHR 0x0A)) \<lparr>hosts = Null, host_count = 0\<rparr> =
     Inl Undefined"
proof -
  let ?ls = "[''# hosts'', ''10.0.0.1 ocr tts'', ''x y'']" and ?b = "replicate 40 (CHR ''?'') @ replicate 216 (CHR 0x00)"
  have h: "\<forall>l \<in> set ?ls. plain_line l" "length (file_of ?ls) \<le> 127" by code_simp+
  moreover have "List.map_filter (line_entry toy_pton) ?ls = [\<lparr>ent_family = AF_INET, ent_addr = [10, 0, 0, 1], ent_names = ''ocr tts''\<rparr>]"
    by code_simp
  moreover have "ends_quietly (drop (length (file_of ?ls)) ?b)" "\<not> ends_quietly (drop (length (file_of ?ls)) (replicate 256 (CHR 0x0A)))"
    by code_simp+
  ultimately show ?thesis
    using conf_init_small_file [OF h, of ?b toy_pton] conf_init_small_file [OF h, of "replicate 256 (CHR 0x0A)" toy_pton] by (simp add: Let_def)
qed

section \<open>Lookups by name\<close>

definition no_space :: "string \<Rightarrow> bool" where
  "no_space s \<longleftrightarrow> s \<noteq> [] \<and> list_all (\<lambda>c. \<not> isspace c) s"

fun unwords :: "string list \<Rightarrow> string" where
  "unwords [] = []"
| "unwords [w] = w"
| "unwords (w # v # ws) = w @ '' '' @ unwords (v # ws)"

definition part_of :: "string \<Rightarrow> string \<Rightarrow> bool" where
  "part_of name w \<longleftrightarrow> (\<exists>i. occurs_at w name i)"

lemma occurs_at_append_space:
  assumes "no_space name"
  shows "occurs_at (w @ '' '' @ rest) name i \<longleftrightarrow> i + length name \<le> length w \<and> occurs_at w name i \<or>
    length w < i \<and> occurs_at rest name (i - Suc (length w))"
proof (cases "i + length name \<le> length w")
  case True
  then have "take (length name) (drop i (w @ '' '' @ rest)) = take (length name) (drop i w)" by simp
  with True show ?thesis by (auto simp: occurs_at_def)
next
  case False
  show ?thesis
  proof (cases "length w < i")
    case True
    then obtain k where "i = Suc (length w) + k" using less_imp_Suc_add by auto
    with False show ?thesis by (auto simp: occurs_at_def)
  next
    case mid: False
    have "\<not> occurs_at (w @ '' '' @ rest) name i"
    proof
      assume o: "occurs_at (w @ '' '' @ rest) name i"
      have k: "length w - i < length name" using False mid by linarith
      have "name ! (length w - i) = take (length name) (drop i (w @ '' '' @ rest)) ! (length w - i)" using o by (simp add: occurs_at_def)
      also have "\<dots> = drop i (w @ '' '' @ rest) ! (length w - i)" using k by (rule nth_take)
      also have "\<dots> = (w @ '' '' @ rest) ! (i + (length w - i))" using mid by (intro nth_drop) simp
      also have "i + (length w - i) = length w" using mid by simp
      finally have "name ! (length w - i) = CHR '' ''" by simp
      moreover have "\<not> isspace (name ! (length w - i))" using assms k by (simp add: no_space_def list_all_length)
      ultimately show False by (simp add: isspace_def)
    qed
    with False mid show ?thesis by simp
  qed
qed

lemma occurs_in_words:
  assumes "no_space name" "occurs_at (unwords ws) name i" "\<forall>w \<in> set ws. part_of name w \<longrightarrow> w = name"
  shows "name \<in> set ws \<and> (i = 0 \<or> isspace (unwords ws ! (i - 1))) \<and>
    (i + length name = length (unwords ws) \<or> isspace (unwords ws ! (i + length name)))"
  using assms(2,3)
proof (induction ws arbitrary: i rule: unwords.induct)
  case 1
  then show ?case using assms(1) by (auto simp: occurs_at_def no_space_def)
next
  case (2 w)
  then have "w = name" by (auto simp: part_of_def)
  with 2 show ?case by (auto simp: occurs_at_def)
next
  case (3 w v ws)
  let ?r = "unwords (v # ws)"
  have sp: "isspace (CHR '' '')" by code_simp
  consider (here) "i + length name \<le> length w" "occurs_at w name i" | (later) "length w < i" "occurs_at ?r name (i - Suc (length w))"
    using "3.prems"(1) occurs_at_append_space [OF assms(1)] by auto
  then show ?case
  proof cases
    case here
    then have "w = name" using "3.prems"(2) by (auto simp: part_of_def)
    with here have "i = 0" by simp
    then show ?thesis using \<open>w = name\<close> sp by (simp add: nth_append)
  next
    case later
    let ?j = "i - Suc (length w)"
    have IH: "name \<in> set (v # ws)" "?j = 0 \<or> isspace (?r ! (?j - 1))"
      "?j + length name = length ?r \<or> isspace (?r ! (?j + length name))"
      using "3.IH" [OF later(2)] "3.prems"(2) by auto
    have nth: "(w @ '' '' @ ?r) ! k = ?r ! (k - Suc (length w))" if "length w < k" for k
      using that by (simp add: nth_append nth_Cons')
    have l: "isspace ((w @ '' '' @ ?r) ! (i - 1))"
    proof (cases "?j = 0")
      case True
      then have "i - 1 = length w" using later(1) by simp
      then show ?thesis using sp by simp
    next
      case False
      then have "isspace (?r ! (?j - 1))" "length w < i - 1" using IH(2) by auto
      then show ?thesis using nth [of "i - 1"] by (simp add: diff_commute)
    qed
    have "i + length name = length (w @ '' '' @ ?r) \<or> isspace ((w @ '' '' @ ?r) ! (i + length name))"
      using IH(3) nth [of "i + length name"] later(1) by (auto simp: Suc_diff_le algebra_simps)
    then show ?thesis using IH(1) l by auto
  qed
qed

lemma occurs_of_member: "name \<in> set ws \<Longrightarrow> \<exists>i. occurs_at (unwords ws) name i"
proof (induction ws rule: unwords.induct)
  case (2 w)
  then show ?case by (auto simp: occurs_at_def intro!: exI [of _ 0])
next
  case (3 w v ws)
  show ?case
  proof (cases "name = w")
    case True
    then show ?thesis by (auto simp: occurs_at_def intro!: exI [of _ 0])
  next
    case False
    then obtain i where "occurs_at (unwords (v # ws)) name i" using 3 by auto
    then show ?thesis by (intro exI [of _ "Suc (length w) + i"]) (simp add: occurs_at_def)
  qed
qed simp

lemma names_match_words:
  assumes "no_space name" "\<forall>w \<in> set ws. part_of name w \<longrightarrow> w = name"
  shows "names_match (unwords ws) name \<longleftrightarrow> name \<in> set ws"
proof (cases "str_find (unwords ws) name 0")
  case None
  then have "\<not> occurs_at (unwords ws) name i" for i
    using str_find_None [of "unwords ws" name 0] by (cases "i \<le> length (unwords ws)") (auto simp: occurs_at_def)
  then show ?thesis using None occurs_of_member [of name ws] by (auto simp: names_match_def)
next
  case (Some p)
  then show ?thesis using occurs_in_words [OF assms(1) _ assms(2), of p] str_find_Some [OF Some] by (simp add: names_match_def)
qed

text \<open>
  Looking up an IPv4 address. If in a table of hosts with lists of names, separated by blanks,
  the name is not a proper part of any other name, then the lookup writes the address of the first IPv4 host
  that has the name, and reports that there is none otherwise.
\<close>

theorem getaddr_by_name:
  assumes "no_space name" "\<forall>(f, a, ws) \<in> set table. \<forall>w \<in> set ws. part_of name w \<longrightarrow> w = name"
    "hosts st = Entries (map (\<lambda>(f, a, ws). \<lparr>ent_family = f, ent_addr = a, ent_names = unwords ws\<rparr>) table)"
  shows "conf_getaddr AF_INET name memory st =
    Inr (case List.find (\<lambda>(f, a, ws). f = AF_INET \<and> name \<in> set ws) table of
           None \<Rightarrow> None | Some (f, a, ws) \<Rightarrow> Some (a @ drop 4 memory))"
proof -
  let ?es = "map (\<lambda>(f, a, ws). \<lparr>ent_family = f, ent_addr = a, ent_names = unwords ws\<rparr>) table"
  have "getaddr_loop AF_INET name ?es None =
    map_option (\<lambda>(f, a, ws). \<lparr>ent_family = f, ent_addr = a, ent_names = unwords ws\<rparr>)
      (List.find (\<lambda>(f, a, ws). f = AF_INET \<and> name \<in> set ws) table)"
    using assms(2) by (induction table) (auto simp: names_match_words [OF assms(1)] split: prod.split)
  moreover have "fst x = AF_INET" if "List.find (\<lambda>(f, a, ws). f = AF_INET \<and> name \<in> set ws) table = Some x" for x
    using that by (auto simp: find_Some_iff)
  ultimately show ?thesis
    unfolding conf_getaddr_def assms(3)
    by (cases "List.find (\<lambda>(f, a, ws). f = AF_INET \<and> name \<in> set ws) table") (auto simp: addr_size_def)
qed

theorem getaddr_by_name_witness:
  "conf_getaddr AF_INET ''tts'' (replicate 16 0) \<lparr>hosts = Entries [\<lparr>ent_family = AF_INET, ent_addr = [10, 0, 0, 1], ent_names = ''ocr''\<rparr>,
       \<lparr>ent_family = AF_INET, ent_addr = [10, 0, 0, 2], ent_names = ''asr tts''\<rparr>], host_count = 2\<rparr> =
     Inr (Some ([10, 0, 0, 2] @ replicate 12 0))"
proof -
  let ?t = "[(AF_INET, [10, 0, 0, 1 :: u8], [''ocr'']), (AF_INET, [10, 0, 0, 2], [''asr'', ''tts''])]"
  have n: "no_space ''tts''" by code_simp
  have s: "\<not> part_of ''tts'' w" if "length w = 3" "w \<noteq> ''tts''" for w :: string
    using that by (auto simp: part_of_def occurs_at_def)
  have "\<forall>(f, a, ws) \<in> set ?t. \<forall>w \<in> set ws. part_of ''tts'' w \<longrightarrow> w = ''tts''" using s [of "''ocr''"] s [of "''asr''"] by auto
  from getaddr_by_name [OF n this, of "\<lparr>hosts = Entries [\<lparr>ent_family = AF_INET, ent_addr = [10, 0, 0, 1], ent_names = ''ocr''\<rparr>,
       \<lparr>ent_family = AF_INET, ent_addr = [10, 0, 0, 2], ent_names = ''asr tts''\<rparr>], host_count = 2\<rparr>" "replicate 16 0"]
  show ?thesis by (simp add: numeral_eq_Suc)
qed

section \<open>Defects\<close>

text \<open>A name that is part of an earlier name of the same line is not found.\<close>

lemma getaddr_misses_later_name:
  "conf_getaddr AF_INET ''host'' [] \<lparr>hosts = Entries [\<lparr>ent_family = AF_INET, ent_addr = [10, 0, 0, 1], ent_names = ''myhost host''\<rparr>], host_count = 1\<rparr> = Inr None"
  by code_simp

text \<open>The mark of a mapped address is written to its first two bytes; bytes 10 and 11 keep what was there.\<close>

lemma mapped_mark_misplaced:
  "conf_getaddr AF_INET6 ''ocr'' (replicate 16 7) \<lparr>hosts = Entries [\<lparr>ent_family = AF_INET, ent_addr = [10, 0, 0, 1], ent_names = ''ocr''\<rparr>], host_count = 1\<rparr> =
     Inr (Some [255, 255, 0, 0, 0, 0, 0, 0, 0, 0, 7, 7, 10, 0, 0, 1])"
  by code_simp

text \<open>A file with a single line that is not ended is taken for a line that is too long, and lost.\<close>

lemma unended_line_lost:
  "conf_init toy_pton (Some ''10.0.0.1 ocr'') (replicate 32 (CHR 0x00)) \<lparr>hosts = Null, host_count = 0\<rparr> = Inr (True, \<lparr>hosts = Entries [], host_count = 0\<rparr>)"
  by code_simp

text \<open>A file that fills the buffer makes the search for line ends run past it.\<close>

lemma full_buffer_overrun:
  "conf_init toy_pton (Some ''10.0.0.1 ocr tts asr and more names'') (replicate 32 (CHR 0x00)) \<lparr>hosts = Null, host_count = 0\<rparr> = Inl Undefined"
  by code_simp

text \<open>When every line has a faulty address the array is allocated but its end is not written.\<close>

lemma faulty_lines_leave_array_unset:
  "rbind (conf_init toy_pton (Some (''localhost ocr'' @ [CHR 0x0A])) (replicate 64 (CHR 0x00)) \<lparr>hosts = Null, host_count = 0\<rparr>)
     (\<lambda>(ok, st). conf_getaddr AF_INET ''ocr'' [] st) = Inl Undefined"
  by code_simp

text \<open>After \<^verbatim>\<open>conf_fini\<close> the counter goes on, so the next entry is stored through a null pointer.\<close>

lemma second_init_undefined:
  "rbind (conf_fini \<lparr>hosts = Entries [\<lparr>ent_family = AF_INET, ent_addr = [10, 0, 0, 1], ent_names = ''ocr''\<rparr>], host_count = 1\<rparr>)
     (conf_init toy_pton (Some (''10.0.0.2 tts'' @ [CHR 0x0A])) (replicate 64 (CHR 0x00))) = Inl Undefined"
  by code_simp

end
