(* ===== verification/StreamPlugins.thy ===== *)
theory StreamPlugins
  imports ConfigText "HOL-Library.Multiset" "HOL-Library.Sublist"
begin

text \<open>
  The core of the video streamer, \<^verbatim>\<open>plugin.c\<close> and \<^verbatim>\<open>ccai_stream.c\<close>: plugins are found in two directories, loaded,
  ordered by priority and initialised; they register pipelines and probes, which a client creates and
  drives by name. The dynamic loader, the sorted insertion of GLib and the functions of plugins and
  pipelines are parameters. Memory is never exhausted; the GStreamer calls are not represented.
\<close>

section \<open>Plugins\<close>

record 'w plugin_desc =
  pd_name :: string
  pd_version :: string
  pd_priority :: int
  pd_init :: "('w \<Rightarrow> int \<times> 'w) option"

text \<open>A loaded plugin: the handle of its library, here the path, and its descriptor.\<close>

record 'w plugin =
  pl_handle :: string
  pl_desc :: "'w plugin_desc"

definition CCAI_STREAM_PLUGIN_VERSION :: string where
  "CCAI_STREAM_PLUGIN_VERSION = ''1.0''"

text \<open>
  The difference of two values of type \<^verbatim>\<open>int\<close>. An overflow has no defined meaning; the subtraction of the machine wraps around.
\<close>

definition priority_compare :: "'w plugin \<Rightarrow> 'w plugin \<Rightarrow> int" where
  "priority_compare p1 p2 = sint (word_of_int (pd_priority (pl_desc p2)) - word_of_int (pd_priority (pl_desc p1)) :: 32 word)"

type_synonym 'w sorted_insert = "('w plugin \<Rightarrow> 'w plugin \<Rightarrow> int) \<Rightarrow> 'w plugin list \<Rightarrow> 'w plugin \<Rightarrow> 'w plugin list"

definition add_plugin :: "'w sorted_insert \<Rightarrow> string \<Rightarrow> 'w plugin_desc \<Rightarrow> 'w plugin list \<Rightarrow> int \<times> 'w plugin list" where
  "add_plugin insert_sorted handle d plugins =
     (if pd_init d = None then (- 1, plugins)
      else if pd_version d \<noteq> CCAI_STREAM_PLUGIN_VERSION then (- 1, plugins)
      else if list_ex (\<lambda>p. pd_name (pl_desc p) = pd_name d) plugins then (- 1, plugins)
      else (0, insert_sorted priority_compare plugins \<lparr>pl_handle = handle, pl_desc = d\<rparr>))"

text \<open>
  The libraries that can be opened, with the descriptor each exports, if any; the loaded plugins and
  the handles opened and closed so far.
\<close>

record 'w plugin_state =
  ps_plugins :: "'w plugin list"
  ps_opened :: "string list"
  ps_closed :: "string list"

fun load_files ::
  "'w sorted_insert \<Rightarrow> (string \<Rightarrow> 'w plugin_desc option option) \<Rightarrow> string \<Rightarrow> string list \<Rightarrow> 'w plugin_state \<Rightarrow> 'w plugin_state" where
  "load_files insert_sorted dlopen dir [] ps = ps"
| "load_files insert_sorted dlopen dir (name # names) ps =
     (if prefix ''lib'' name \<or> \<not> suffix ''.so'' name then load_files insert_sorted dlopen dir names ps
      else
        (let filename = dir @ name
         in (case dlopen filename of
               None \<Rightarrow> load_files insert_sorted dlopen dir names ps
             | Some None \<Rightarrow>
                 load_files insert_sorted dlopen dir names
                   (ps\<lparr>ps_opened := ps_opened ps @ [filename], ps_closed := ps_closed ps @ [filename]\<rparr>)
             | Some (Some desc) \<Rightarrow>
                 (case add_plugin insert_sorted filename desc (ps_plugins ps) of (ret, plugins) \<Rightarrow>
                    load_files insert_sorted dlopen dir names
                      (ps\<lparr>ps_plugins := plugins, ps_opened := ps_opened ps @ [filename],
                          ps_closed := ps_closed ps @ (if ret \<noteq> 0 then [filename] else [])\<rparr>)))))"

definition PLUGINDIRS :: "string list" where
  "PLUGINDIRS = [''plugins/'', ''/usr/lib/ccai_stream/plugins/'']"

fun load_dirs ::
  "'w sorted_insert \<Rightarrow> (string \<Rightarrow> 'w plugin_desc option option) \<Rightarrow> (string \<Rightarrow> string list option) \<Rightarrow> string list \<Rightarrow> 'w plugin_state \<Rightarrow> 'w plugin_state" where
  "load_dirs insert_sorted dlopen dir_names [] ps = ps"
| "load_dirs insert_sorted dlopen dir_names (d # ds) ps =
     (case dir_names d of
        None \<Rightarrow> load_dirs insert_sorted dlopen dir_names ds ps
      | Some names \<Rightarrow> load_dirs insert_sorted dlopen dir_names ds (load_files insert_sorted dlopen d names ps))"

text \<open>A plugin that fails to initialise does not stop the others.\<close>

fun init_plugins :: "'w plugin list \<Rightarrow> 'w \<Rightarrow> 'w" where
  "init_plugins [] w = w"
| "init_plugins (p # ps) w =
     (case pd_init (pl_desc p) of
        Some init \<Rightarrow> init_plugins ps (snd (init w))
      | None \<Rightarrow> init_plugins ps w)"

definition plugin_init ::
  "'w sorted_insert \<Rightarrow> (string \<Rightarrow> 'w plugin_desc option option) \<Rightarrow> (string \<Rightarrow> string list option) \<Rightarrow> 'w plugin_state \<Rightarrow> 'w \<Rightarrow>
     int \<times> 'w plugin_state \<times> 'w" where
  "plugin_init insert_sorted dlopen dir_names ps w =
     (let ps' = load_dirs insert_sorted dlopen dir_names PLUGINDIRS ps
      in (0, ps', init_plugins (ps_plugins ps') w))"

section \<open>Pipelines and probes\<close>

text \<open>
  A descriptor: the function that creates the pipeline and the optional others, each a function of the
  world. A pipeline is known by its position in the list.
\<close>

type_synonym 'w callback = "'w \<Rightarrow> int \<times> 'w"

record 'w pipeline_desc =
  pi_name :: string
  pi_create :: "'w callback"
  pi_start :: "'w callback option"
  pi_stop :: "'w callback option"
  pi_remove :: "'w callback option"
  pi_read :: "'w callback option"
  pi_config :: "'w callback option"

record 'w probe_desc =
  pr_pipe_name :: string
  pr_create :: "'w callback option"

record 'w stream_pipeline =
  sp_desc :: "'w pipeline_desc"
  sp_probes :: "'w probe_desc list"

definition ccai_stream_add_pipeline :: "'w pipeline_desc \<Rightarrow> 'w stream_pipeline list \<Rightarrow> int \<times> 'w stream_pipeline list" where
  "ccai_stream_add_pipeline desc pipelines = (0, pipelines @ [\<lparr>sp_desc = desc, sp_probes = []\<rparr>])"

fun ccai_stream_add_probe :: "'w probe_desc \<Rightarrow> 'w stream_pipeline list \<Rightarrow> int \<times> 'w stream_pipeline list" where
  "ccai_stream_add_probe probe [] = (- 1, [])"
| "ccai_stream_add_probe probe (p # ps) =
     (if pi_name (sp_desc p) = pr_pipe_name probe then (0, p\<lparr>sp_probes := sp_probes p @ [probe]\<rparr> # ps)
      else (case ccai_stream_add_probe probe ps of (ret, ps') \<Rightarrow> (ret, p # ps')))"

fun create_probes :: "'w probe_desc list \<Rightarrow> 'w \<Rightarrow> 'w" where
  "create_probes [] w = w"
| "create_probes (pr # prs) w = (case pr_create pr of None \<Rightarrow> create_probes prs w | Some f \<Rightarrow> create_probes prs (snd (f w)))"

fun create_loop :: "'w stream_pipeline list \<Rightarrow> nat \<Rightarrow> string \<Rightarrow> 'w \<Rightarrow> nat option \<times> 'w" where
  "create_loop [] i pipeline_name w = (None, w)"
| "create_loop (p # ps) i pipeline_name w =
     (if pi_name (sp_desc p) \<noteq> pipeline_name then create_loop ps (Suc i) pipeline_name w
      else
        (case pi_create (sp_desc p) w of (ret, w1) \<Rightarrow>
           if ret \<noteq> 0 then create_loop ps (Suc i) pipeline_name w1
           else (Some i, create_probes (sp_probes p) w1)))"

definition ccai_stream_pipeline_create :: "'w stream_pipeline list \<Rightarrow> string \<Rightarrow> 'w \<Rightarrow> nat option \<times> 'w" where
  "ccai_stream_pipeline_create pipelines pipeline_name w = create_loop pipelines 0 pipeline_name w"

text \<open>The calls on a pipeline: a null pointer or a missing function yields -1 and does nothing.\<close>

definition pipeline_call ::
  "('w pipeline_desc \<Rightarrow> 'w callback option) \<Rightarrow> 'w stream_pipeline list \<Rightarrow> nat option \<Rightarrow> 'w \<Rightarrow> int \<times> 'w" where
  "pipeline_call fn pipelines pipe w =
     (case pipe of
        None \<Rightarrow> (- 1, w)
      | Some i \<Rightarrow> (case fn (sp_desc (pipelines ! i)) of None \<Rightarrow> (- 1, w) | Some f \<Rightarrow> f w))"

definition ccai_stream_pipeline_start :: "'w stream_pipeline list \<Rightarrow> nat option \<Rightarrow> 'w \<Rightarrow> int \<times> 'w" where
  "ccai_stream_pipeline_start = pipeline_call pi_start"

definition ccai_stream_pipeline_stop :: "'w stream_pipeline list \<Rightarrow> nat option \<Rightarrow> 'w \<Rightarrow> int \<times> 'w" where
  "ccai_stream_pipeline_stop = pipeline_call pi_stop"

definition ccai_stream_pipeline_remove :: "'w stream_pipeline list \<Rightarrow> nat option \<Rightarrow> 'w \<Rightarrow> int \<times> 'w" where
  "ccai_stream_pipeline_remove = pipeline_call pi_remove"

definition ccai_stream_pipeline_read :: "'w stream_pipeline list \<Rightarrow> nat option \<Rightarrow> 'w \<Rightarrow> int \<times> 'w" where
  "ccai_stream_pipeline_read = pipeline_call pi_read"

definition ccai_stream_pipeline_config :: "'w stream_pipeline list \<Rightarrow> nat option \<Rightarrow> 'w \<Rightarrow> int \<times> 'w" where
  "ccai_stream_pipeline_config = pipeline_call pi_config"

definition ccai_stream_set_read_func :: "'w callback option \<Rightarrow> nat option \<Rightarrow> 'w stream_pipeline list \<Rightarrow> int \<times> 'w stream_pipeline list" where
  "ccai_stream_set_read_func rd pipe pipelines =
     (case pipe of
        None \<Rightarrow> (- 1, pipelines)
      | Some i \<Rightarrow> (0, pipelines[i := (pipelines ! i)\<lparr>sp_desc := (sp_desc (pipelines ! i))\<lparr>pi_read := rd\<rparr>\<rparr>]))"

section \<open>Which plugins are loaded\<close>

text \<open>
  What GLib documents for \<^verbatim>\<open>g_slist_insert_sorted\<close>: the element is added to the list, and if the comparison function orders the
  elements consistently (a value of at most 0 says that the first argument comes first) and the list was in that
  order, the new list is.
\<close>

definition consistent_on :: "'a set \<Rightarrow> ('a \<Rightarrow> 'a \<Rightarrow> int) \<Rightarrow> bool" where
  "consistent_on A cmp \<longleftrightarrow>
     (\<forall>a \<in> A. \<forall>b \<in> A. sgn (cmp b a) = - sgn (cmp a b)) \<and>
     (\<forall>a \<in> A. \<forall>b \<in> A. \<forall>c \<in> A. cmp a b \<le> 0 \<longrightarrow> cmp b c \<le> 0 \<longrightarrow> cmp a c \<le> 0)"

definition ordered_by :: "('a \<Rightarrow> 'a \<Rightarrow> int) \<Rightarrow> 'a list \<Rightarrow> bool" where
  "ordered_by cmp xs \<longleftrightarrow> sorted_wrt (\<lambda>a b. cmp a b \<le> 0) xs"

definition inserts_sorted :: "'w sorted_insert \<Rightarrow> bool" where
  "inserts_sorted insert_sorted \<longleftrightarrow>
     (\<forall>cmp ps p. mset (insert_sorted cmp ps p) = add_mset p (mset ps) \<and>
        (consistent_on (insert p (set ps)) cmp \<longrightarrow> ordered_by cmp ps \<longrightarrow> ordered_by cmp (insert_sorted cmp ps p)))"

text \<open>Priorities whose differences do not overflow, and the order they give.\<close>

definition moderate :: "'w plugin_desc \<Rightarrow> bool" where
  "moderate d \<longleftrightarrow> - (2 ^ 30) \<le> pd_priority d \<and> pd_priority d < 2 ^ 30"

definition by_priority :: "'w plugin list \<Rightarrow> bool" where
  "by_priority ps \<longleftrightarrow> sorted_wrt (\<lambda>a b. pd_priority (pl_desc b) \<le> pd_priority (pl_desc a)) ps"

lemma priority_compare_moderate:
  assumes "moderate (pl_desc p)" "moderate (pl_desc q)"
  shows "priority_compare p q = pd_priority (pl_desc q) - pd_priority (pl_desc p)"
proof -
  let ?d = "pd_priority (pl_desc q) - pd_priority (pl_desc p)"
  have "- (2 ^ 31) \<le> ?d" "?d < 2 ^ 31" using assms by (auto simp: moderate_def)
  then have "signed_take_bit 31 ?d = ?d" by (intro signed_take_bit_int_eq_self) simp_all
  moreover have "sint (word_of_int ?d :: 32 word) = signed_take_bit 31 ?d" using sint_sbintrunc' [of ?d, where 'a = 32] by simp
  ultimately show ?thesis unfolding priority_compare_def wi_hom_sub by simp
qed

lemma inserts_by_priority:
  assumes "inserts_sorted ins" "by_priority ps" "\<forall>q \<in> insert p (set ps). moderate (pl_desc q)"
  shows "by_priority (ins priority_compare ps p)"
proof -
  note c = priority_compare_moderate [OF assms(3) [rule_format] assms(3) [rule_format]]
  have "consistent_on (insert p (set ps)) priority_compare"
    unfolding consistent_on_def by (auto simp: c sgn_if)
  moreover have "ordered_by priority_compare ps"
    using assms(2) unfolding ordered_by_def by_priority_def by (rule sorted_wrt_mono_rel [rotated]) (simp add: c)
  ultimately have "ordered_by priority_compare (ins priority_compare ps p)" and m: "mset (ins priority_compare ps p) = add_mset p (mset ps)"
    using assms(1) by (auto simp: inserts_sorted_def)
  moreover have "set (ins priority_compare ps p) = insert p (set ps)" using mset_eq_setD [of "ins priority_compare ps p" "p # ps"] m by simp
  ultimately show ?thesis
    unfolding ordered_by_def by_priority_def by (elim sorted_wrt_mono_rel [rotated]) (simp add: c)
qed

definition acceptable :: "'w plugin_desc \<Rightarrow> bool" where
  "acceptable d \<longleftrightarrow> pd_init d \<noteq> None \<and> pd_version d = CCAI_STREAM_PLUGIN_VERSION"

abbreviation named_handle :: "'w plugin \<Rightarrow> string \<times> string" where
  "named_handle p \<equiv> (pd_name (pl_desc p), pl_handle p)"

text \<open>The libraries of a directory that could become plugins, with the names of these, in the order of the directory.\<close>

definition candidates_in :: "(string \<Rightarrow> 'w plugin_desc option option) \<Rightarrow> string \<Rightarrow> string list \<Rightarrow> (string \<times> string) list" where
  "candidates_in dlopen dir names =
     List.map_filter (\<lambda>name.
       if prefix ''lib'' name \<or> \<not> suffix ''.so'' name then None
       else (case dlopen (dir @ name) of Some (Some d) \<Rightarrow> if acceptable d then Some (pd_name d, dir @ name) else None | _ \<Rightarrow> None)) names"

definition all_candidates :: "(string \<Rightarrow> 'w plugin_desc option option) \<Rightarrow> (string \<Rightarrow> string list option) \<Rightarrow> string list \<Rightarrow> (string \<times> string) list" where
  "all_candidates dlopen dir_names dirs = concat (map (\<lambda>d. case dir_names d of None \<Rightarrow> [] | Some names \<Rightarrow> candidates_in dlopen d names) dirs)"

text \<open>The invariant: what was loaded from the candidates so far.\<close>

definition plugins_inv :: "(string \<times> string) list \<Rightarrow> 'w plugin_state \<Rightarrow> bool" where
  "plugins_inv cands ps \<longleftrightarrow>
     by_priority (ps_plugins ps) \<and> distinct (map (\<lambda>p. pd_name (pl_desc p)) (ps_plugins ps)) \<and>
     (\<forall>p \<in> set (ps_plugins ps). acceptable (pl_desc p) \<and> moderate (pl_desc p)) \<and>
     map_of (map named_handle (ps_plugins ps)) = map_of cands \<and>
     mset (ps_opened ps) = mset (ps_closed ps) + mset (map pl_handle (ps_plugins ps))"

lemma map_of_mset:
  assumes "mset xs = mset ys" "distinct (map fst ys)"
  shows "map_of xs = map_of ys"
proof -
  have "mset (map fst xs) = mset (map fst ys)" using assms(1) by simp
  then have "distinct (map fst xs)" using assms(2) mset_eq_imp_distinct_iff by blast
  then show ?thesis using assms map_of_inject_set [of xs ys] mset_eq_setD by blast
qed

lemma plugins_inv_add:
  assumes "inserts_sorted ins" "plugins_inv cands ps" "acceptable d" "moderate d"
  shows "case add_plugin ins f d (ps_plugins ps) of (ret, plugins) \<Rightarrow>
    plugins_inv (cands @ [(pd_name d, f)])
      (ps\<lparr>ps_plugins := plugins, ps_opened := ps_opened ps @ [f], ps_closed := ps_closed ps @ (if ret \<noteq> 0 then [f] else [])\<rparr>)"
proof (cases "list_ex (\<lambda>p. pd_name (pl_desc p) = pd_name d) (ps_plugins ps)")
  case True
  then have "map_of (map named_handle (ps_plugins ps)) (pd_name d) \<noteq> None"
    unfolding list_ex_iff map_of_eq_None_iff set_map image_image by (metis (mono_tags, lifting) fst_conv image_eqI)
  then have "map_of (cands @ [(pd_name d, f)]) = map_of cands"
    using assms(2) by (auto simp: plugins_inv_def map_add_def fun_eq_iff split: option.split)
  with True assms show ?thesis by (simp add: add_plugin_def acceptable_def plugins_inv_def)
next
  case False
  let ?p = "\<lparr>pl_handle = f, pl_desc = d\<rparr>" and ?ps = "ps_plugins ps"
  let ?new = "ins priority_compare ?ps ?p"
  have "\<forall>q \<in> insert ?p (set ?ps). moderate (pl_desc q)" using assms(2,4) by (auto simp: plugins_inv_def)
  then have m: "mset ?new = mset (?p # ?ps)" "by_priority ?new"
    using assms(1,2) inserts_by_priority [of ins ?ps ?p] by (auto simp: inserts_sorted_def plugins_inv_def)
  have nn: "pd_name d \<notin> set (map (\<lambda>p. pd_name (pl_desc p)) ?ps)" using False by (auto simp: list_ex_iff)
  have dist: "distinct (map (\<lambda>p. pd_name (pl_desc p)) (?p # ?ps))" using nn assms(2) by (simp add: plugins_inv_def)
  have "mset (map (\<lambda>p. pd_name (pl_desc p)) ?new) = mset (map (\<lambda>p. pd_name (pl_desc p)) (?p # ?ps))" using m(1) by (metis mset_map)
  then have d1: "distinct (map (\<lambda>p. pd_name (pl_desc p)) ?new)" using dist mset_eq_imp_distinct_iff by blast
  have "map_of (map named_handle ?new) = map_of (map named_handle (?p # ?ps))"
    using m(1) dist by (intro map_of_mset) (simp_all add: comp_def)
  also have "\<dots> = (map_of cands)(pd_name d \<mapsto> f)" using assms(2) by (simp add: plugins_inv_def)
  also have "\<dots> = map_of (cands @ [(pd_name d, f)])"
  proof -
    have "map_of (map named_handle ?ps) (pd_name d) = None"
      using nn unfolding map_of_eq_None_iff by (simp add: image_image)
    then have "map_of cands (pd_name d) = None" using assms(2) by (simp add: plugins_inv_def)
    then show ?thesis by (auto simp: map_add_def fun_eq_iff split: option.split)
  qed
  finally have mo: "map_of (map named_handle ?new) = map_of (cands @ [(pd_name d, f)])" .
  have s: "set ?new = insert ?p (set ?ps)" using mset_eq_setD [OF m(1)] by simp
  have h: "mset (map pl_handle ?new) = add_mset f (mset (map pl_handle ?ps))" using m(1) by simp
  show ?thesis
    using False assms(2,3,4) m(2) d1 mo s h by (auto simp: add_plugin_def acceptable_def plugins_inv_def)
qed

lemma candidates_in_Cons:
  "candidates_in dlopen dir (n # ns) = candidates_in dlopen dir [n] @ candidates_in dlopen dir ns"
  by (auto simp: candidates_in_def List.map_filter_def)

lemma load_files_inv:
  assumes "inserts_sorted ins" "\<forall>f d. dlopen f = Some (Some d) \<longrightarrow> moderate d" "plugins_inv cands ps"
  shows "plugins_inv (cands @ candidates_in dlopen dir names) (load_files ins dlopen dir names ps)"
  using assms(3)
proof (induction names arbitrary: cands ps)
  case Nil
  then show ?case by (simp add: candidates_in_def List.map_filter_def)
next
  case (Cons n ns)
  let ?f = "dir @ n"
  note c = candidates_in_Cons [of dlopen dir n ns]
  have one: "candidates_in dlopen dir [n] = (if prefix ''lib'' n \<or> \<not> suffix ''.so'' n then []
      else (case dlopen ?f of Some (Some d) \<Rightarrow> if acceptable d then [(pd_name d, ?f)] else [] | _ \<Rightarrow> []))"
    by (simp add: candidates_in_def List.map_filter_def split: option.split)
  show ?case
  proof (cases "prefix ''lib'' n \<or> \<not> suffix ''.so'' n")
    case True
    then show ?thesis using Cons.IH [OF Cons.prems] unfolding c one by simp
  next
    case False
    note one' = one [unfolded if_not_P [OF False]]
    show ?thesis
    proof (cases "dlopen ?f")
      case None
      then show ?thesis using Cons.IH [OF Cons.prems] False unfolding c one' by (simp add: Let_def)
    next
      case (Some od)
      show ?thesis
      proof (cases od)
        case None
        have "plugins_inv cands (ps\<lparr>ps_opened := ps_opened ps @ [?f], ps_closed := ps_closed ps @ [?f]\<rparr>)"
          using Cons.prems by (simp add: plugins_inv_def)
        from Cons.IH [OF this] Some None False show ?thesis unfolding c one' by (simp add: Let_def)
      next
        case d: (Some d)
        obtain ret plugins where a: "add_plugin ins ?f d (ps_plugins ps) = (ret, plugins)" by fastforce
        let ?ps = "ps\<lparr>ps_plugins := plugins, ps_opened := ps_opened ps @ [?f], ps_closed := ps_closed ps @ (if ret \<noteq> 0 then [?f] else [])\<rparr>"
        have "plugins_inv (cands @ candidates_in dlopen dir [n]) ?ps"
        proof (cases "acceptable d")
          case True
          with plugins_inv_add [OF assms(1) Cons.prems True, of ?f] assms(2) a Some d show ?thesis unfolding one' by simp
        next
          case no: False
          then have "ret = - 1" "plugins = ps_plugins ps" using a by (auto simp: add_plugin_def acceptable_def split: if_split_asm)
          with no Cons.prems Some d show ?thesis unfolding one' by (simp add: plugins_inv_def)
        qed
        from Cons.IH [OF this] Some d a False show ?thesis unfolding c by (simp add: Let_def)
      qed
    qed
  qed
qed

lemma load_dirs_inv:
  assumes "inserts_sorted ins" "\<forall>f d. dlopen f = Some (Some d) \<longrightarrow> moderate d" "plugins_inv cands ps"
  shows "plugins_inv (cands @ all_candidates dlopen dir_names dirs) (load_dirs ins dlopen dir_names dirs ps)"
  using assms(3)
proof (induction dirs arbitrary: cands ps)
  case (Cons d ds)
  show ?case
  proof (cases "dir_names d")
    case None
    then show ?thesis using Cons.IH [OF Cons.prems] by (simp add: all_candidates_def)
  next
    case (Some names)
    then show ?thesis using Cons.IH [OF load_files_inv [OF assms(1,2) Cons.prems]] by (simp add: all_candidates_def)
  qed
qed (simp add: all_candidates_def)

lemma init_plugins_fold:
  "\<forall>p \<in> set ps. pd_init (pl_desc p) \<noteq> None \<Longrightarrow> init_plugins ps w = fold (\<lambda>p w. snd (the (pd_init (pl_desc p)) w)) ps w"
  by (induction ps arbitrary: w) auto

text \<open>Beyond that the comparison is wrong: a plugin of the highest possible priority comes after one of priority -1.\<close>

lemma priority_overflow:
  assumes "pd_priority (pl_desc p) = - 1" "pd_priority (pl_desc q) = 2 ^ 31 - 1"
  shows "priority_compare p q < 0"
  unfolding priority_compare_def assms by code_simp

text \<open>
  C14: the start of the video streamer. Whatever the directories hold, the plugins that are loaded
  have different names, the right version and an initialiser, for each name it is the first such library in the
  order of the directories, they are kept by falling priority, and each is initialised
  exactly once, in that order, also after one has failed; every other library that was opened is
  closed again. The priorities lie between \<open>- 2 ^ 30\<close> and \<open>2 ^ 30\<close>, so that their differences do not overflow.
\<close>

theorem plugin_init_loads:
  assumes "inserts_sorted ins" "\<forall>f d. dlopen f = Some (Some d) \<longrightarrow> moderate d"
  shows "case plugin_init ins dlopen dir_names \<lparr>ps_plugins = [], ps_opened = [], ps_closed = []\<rparr> w of (ret, ps, w') \<Rightarrow>
    ret = 0 \<and> plugins_inv (all_candidates dlopen dir_names PLUGINDIRS) ps \<and>
    w' = fold (\<lambda>p w. snd (the (pd_init (pl_desc p)) w)) (ps_plugins ps) w"
proof -
  have "plugins_inv [] \<lparr>ps_plugins = [], ps_opened = [], ps_closed = []\<rparr>" by (simp add: plugins_inv_def by_priority_def)
  from load_dirs_inv [OF assms this, of dir_names PLUGINDIRS]
  show ?thesis by (auto simp: plugin_init_def Let_def plugins_inv_def acceptable_def intro!: init_plugins_fold)
qed

text \<open>An insertion that keeps the promise: before the first plugin that is not to come earlier.\<close>

fun glib_insert :: "'w sorted_insert" where
  "glib_insert cmp [] p = [p]"
| "glib_insert cmp (q # ps) p = (if cmp p q > 0 then q # glib_insert cmp ps p else p # q # ps)"

lemma glib_insert_mset: "mset (glib_insert cmp ps p) = add_mset p (mset ps)"
  by (induction cmp ps p rule: glib_insert.induct) auto

lemma glib_insert_set: "set (glib_insert cmp ps p) = insert p (set ps)"
  using arg_cong [OF glib_insert_mset [of cmp ps p], of set_mset] by simp

lemma consistent_on_subset: "consistent_on A cmp \<Longrightarrow> B \<subseteq> A \<Longrightarrow> consistent_on B cmp"
  unfolding consistent_on_def by (meson subsetD)

lemma glib_insert_ordered:
  assumes "consistent_on (insert p (set ps)) cmp" "ordered_by cmp ps"
  shows "ordered_by cmp (glib_insert cmp ps p)"
  using assms
proof (induction ps)
  case (Cons q ps)
  have "consistent_on (insert p (set ps)) cmp" by (rule consistent_on_subset [OF Cons.prems(1)]) auto
  with Cons have IH: "ordered_by cmp (glib_insert cmp ps p)" by (simp add: ordered_by_def)
  show ?case
  proof (cases "cmp p q > 0")
    case True
    have "sgn (cmp q p) = - sgn (cmp p q)" using Cons.prems(1) [unfolded consistent_on_def, THEN conjunct1] by (meson insertCI list.set_intros)
    then have "cmp q p \<le> 0" using True by (simp add: sgn_if split: if_splits)
    then show ?thesis using True IH Cons.prems(2) by (auto simp: ordered_by_def glib_insert_set)
  next
    case False
    then have "cmp p q \<le> 0" by simp
    moreover have "cmp p x \<le> 0" if "x \<in> set ps" for x
    proof -
      have "cmp q x \<le> 0" using Cons.prems(2) that by (simp add: ordered_by_def)
      then show ?thesis using Cons.prems(1) that \<open>cmp p q \<le> 0\<close> unfolding consistent_on_def by (meson insertCI list.set_intros)
    qed
    ultimately show ?thesis using False Cons.prems(2) by (auto simp: ordered_by_def)
  qed
qed (simp add: ordered_by_def)

lemma glib_insert_sorted: "inserts_sorted glib_insert"
  by (simp add: inserts_sorted_def glib_insert_mset glib_insert_ordered)

definition tagged :: "string \<Rightarrow> int \<Rightarrow> string list plugin_desc" where
  "tagged n prio = \<lparr>pd_name = n, pd_version = ''1.0'', pd_priority = prio, pd_init = Some (\<lambda>w. (0, w @ [n]))\<rparr>"

theorem plugin_init_loads_witness:
  "case plugin_init glib_insert (map_of [(''plugins/a.so'', Some (tagged ''a'' 0)), (''plugins/b.so'', Some (tagged ''b'' 100)),
         (''/usr/lib/ccai_stream/plugins/a.so'', Some (tagged ''a'' 50))])
       (map_of [(''plugins/'', [''a.so'', ''libx.so'', ''b.so'']), (''/usr/lib/ccai_stream/plugins/'', [''a.so''])])
       \<lparr>ps_plugins = [], ps_opened = [], ps_closed = []\<rparr> [] of (ret, ps, w') \<Rightarrow>
     w' = fold (\<lambda>p w. snd (the (pd_init (pl_desc p)) w)) (ps_plugins ps) []"
  using plugin_init_loads [OF glib_insert_sorted, of
      "map_of [(''plugins/a.so'', Some (tagged ''a'' 0)), (''plugins/b.so'', Some (tagged ''b'' 100)),
         (''/usr/lib/ccai_stream/plugins/a.so'', Some (tagged ''a'' 50))]"
      "map_of [(''plugins/'', [''a.so'', ''libx.so'', ''b.so'']), (''/usr/lib/ccai_stream/plugins/'', [''a.so''])]" "[]"]
  by (auto simp: moderate_def tagged_def split: prod.split if_splits)

end
