(* ===== verification/SmartPhotoDb.thy ===== *)
theory SmartPhotoDb
  imports GatewayServices
begin

text \<open>
  The database of the photo library, \<^verbatim>\<open>smart-photo/db.cpp\<close>: every function puts the text of an SQL
  statement together, hands it to SQLite and looks at the return code. SQLite is a parameter,
  \<^verbatim>\<open>sqlite3_exec\<close> a function from the text to a return code, the rows and the changed
  database. What is relied on is stated as a contract (locale \<^verbatim>\<open>photo_db\<close>): the statements the code
  issues act on tables as SQL says, a string literal ends at the first quote that is not doubled, and
  nothing else fails. The embeddings of faces are kept as numbers, not as bytes.
\<close>

section \<open>The interface of SQLite\<close>

text \<open>The cells of a row as the callback sees them: a null pointer, a text or a block of bytes.\<close>

datatype cell = Null_cell | Text_cell string | Blob_cell "cfloat list"

type_synonym row = "(string \<times> cell) list"

record 'db sqlite =
  sq_open :: "string \<Rightarrow> int \<times> 'db"
  sq_close :: "'db \<Rightarrow> int"
  sq_exec :: "string \<Rightarrow> 'db \<Rightarrow> int \<times> row list \<times> 'db"
  sq_prepare :: "string \<Rightarrow> 'db \<Rightarrow> int"
  sq_step_blob :: "string \<Rightarrow> cfloat list \<Rightarrow> 'db \<Rightarrow> int \<times> 'db"
  sq_last_insert_rowid :: "'db \<Rightarrow> int"

definition SQLITE_OK :: int where
  "SQLITE_OK = 0"

definition SQLITE_ERROR :: int where
  "SQLITE_ERROR = 1"

definition SQLITE_ABORT :: int where
  "SQLITE_ABORT = 4"

definition SQLITE_FULL :: int where
  "SQLITE_FULL = 13"

definition SQLITE_CONSTRAINT :: int where
  "SQLITE_CONSTRAINT = 19"

definition SQLITE_DONE :: int where
  "SQLITE_DONE = 101"

text \<open>The rows go to the callback one by one until it returns something else than 0.\<close>

fun deliver :: "(row \<Rightarrow> 'd \<Rightarrow> (int \<times> 'd) result) \<Rightarrow> row list \<Rightarrow> 'd \<Rightarrow> (bool \<times> 'd) result" where
  "deliver callback [] data = Inr (False, data)"
| "deliver callback (r # rs) data =
     rbind (callback r data) (\<lambda>(k, data'). if k \<noteq> 0 then Inr (True, data') else deliver callback rs data')"

definition exec_callback ::
  "'db sqlite \<Rightarrow> string \<Rightarrow> (row \<Rightarrow> 'd \<Rightarrow> (int \<times> 'd) result) \<Rightarrow> 'd \<Rightarrow> 'db \<Rightarrow> (int \<times> 'd \<times> 'db) result" where
  "exec_callback sq sql callback data db =
     (case sq_exec sq sql db of (rc, rows, db') \<Rightarrow>
        rbind (deliver callback rows data) (\<lambda>(aborted, data'). Inr (if aborted then SQLITE_ABORT else rc, data', db')))"

text \<open>\<^verbatim>\<open>std::stoll\<close>.\<close>

definition stoll :: "string \<Rightarrow> int result" where
  "stoll s =
     (let t = ltrim s;
          neg = (case t of [] \<Rightarrow> False | c # _ \<Rightarrow> c = CHR ''-'');
          u = (case t of [] \<Rightarrow> [] | c # cs \<Rightarrow> if c = CHR ''-'' \<or> c = CHR ''+'' then cs else t);
          ds = takeWhile isdigit u;
          v = (if neg then - digits_value ds else digits_value ds)
      in if ds = [] then Inl Invalid_argument
         else if v < - (2 ^ 63) \<or> 2 ^ 63 \<le> v then Inl Out_of_range
         else Inr v)"

text \<open>\<^verbatim>\<open>stoll(argv[i])\<close>: a null pointer has no text, and a block of bytes is not looked at in this way.\<close>

definition cell_stoll :: "cell \<Rightarrow> int result" where
  "cell_stoll c = (case c of Text_cell s \<Rightarrow> stoll s | _ \<Rightarrow> Inl Undefined)"

definition apos :: char where
  "apos = CHR 0x27"

section \<open>The functions of the database\<close>

definition create_tables :: string where
  "create_tables =
     ''PRAGMA foreign_keys = ON;'' @
     ''CREATE TABLE IF NOT EXISTS ChangedPhoto ('' @
     ''id INTEGER PRIMARY KEY AUTOINCREMENT, path TEXT);'' @
     ''CREATE UNIQUE INDEX IF NOT EXISTS '' @
     ''ChangedPhotoPathIndex ON ChangedPhoto (path);'' @
     ''CREATE TABLE IF NOT EXISTS Photo ('' @
     ''id INTEGER PRIMARY KEY AUTOINCREMENT, path TEXT);'' @
     ''CREATE UNIQUE INDEX IF NOT EXISTS '' @
     ''PhotoPathIndex ON Photo (path);'' @
     ''CREATE TABLE IF NOT EXISTS Classification ('' @
     ''id INTEGER PRIMARY KEY AUTOINCREMENT, name TEXT);'' @
     ''CREATE UNIQUE INDEX IF NOT EXISTS '' @
     ''ClassNameIndex ON Classification (name);'' @
     ''CREATE TABLE IF NOT EXISTS PhotoClass ('' @
     ''id INTEGER PRIMARY KEY AUTOINCREMENT,'' @
     ''photo_id INTEGER,'' @
     ''class_id INTEGER,'' @
     ''FOREIGN KEY(photo_id) REFERENCES photo(id),'' @
     ''FOREIGN KEY(class_id) REFERENCES classification(id));'' @
     ''CREATE TABLE IF NOT EXISTS Object ('' @
     ''id INTEGER PRIMARY KEY AUTOINCREMENT, name TEXT);'' @
     ''CREATE UNIQUE INDEX IF NOT EXISTS '' @
     ''ObjectNameIndex ON Object (name);'' @
     ''CREATE TABLE IF NOT EXISTS PhotoObject ('' @
     ''id INTEGER PRIMARY KEY AUTOINCREMENT,'' @
     ''photo_id INTEGER,'' @
     ''object_id INTEGER,'' @
     ''FOREIGN KEY(photo_id) REFERENCES photo(id) ON DELETE CASCADE,'' @
     ''FOREIGN KEY(object_id) REFERENCES object(id) ON DELETE CASCADE);'' @
     ''CREATE TABLE IF NOT EXISTS Person ('' @
     ''id INTEGER PRIMARY KEY AUTOINCREMENT, name TEXT,'' @
     ''face_embeddings BLOB);'' @
     ''CREATE TABLE IF NOT EXISTS PhotoPerson ('' @
     ''id INTEGER PRIMARY KEY AUTOINCREMENT,'' @
     ''photo_id INTEGER,'' @
     ''person_id INTEGER,'' @
     ''FOREIGN KEY(photo_id) REFERENCES photo(id) ON DELETE CASCADE,'' @
     ''FOREIGN KEY(person_id) REFERENCES person(id) ON DELETE CASCADE);''"

text \<open>A handle is a null pointer or points to a database.\<close>

definition exec_status :: "'db sqlite \<Rightarrow> string \<Rightarrow> 'db option \<Rightarrow> int \<times> 'db option" where
  "exec_status sq sql h =
     (case h of None \<Rightarrow> (- 1, None)
      | Some db \<Rightarrow> (case sq_exec sq sql db of (rc, _, db') \<Rightarrow> (if rc \<noteq> SQLITE_OK then - 1 else 0, Some db')))"

definition init_tables :: "'db sqlite \<Rightarrow> 'db option \<Rightarrow> int \<times> 'db option" where
  "init_tables sq h = exec_status sq create_tables h"

definition db_init :: "'db sqlite \<Rightarrow> string \<Rightarrow> int \<times> 'db option" where
  "db_init sq db_path =
     (case sq_open sq db_path of (rc, db) \<Rightarrow> if rc \<noteq> SQLITE_OK then (- 1, Some db) else init_tables sq (Some db))"

definition db_finit :: "'db sqlite \<Rightarrow> 'db option \<Rightarrow> int" where
  "db_finit sq h = (case h of None \<Rightarrow> - 1 | Some db \<Rightarrow> if sq_close sq db \<noteq> SQLITE_OK then - 1 else 0)"

definition db_transaction_begin :: "'db sqlite \<Rightarrow> 'db option \<Rightarrow> int \<times> 'db option" where
  "db_transaction_begin sq h = exec_status sq ''BEGIN;'' h"

definition db_transaction_end :: "'db sqlite \<Rightarrow> 'db option \<Rightarrow> int \<times> 'db option" where
  "db_transaction_end sq h = exec_status sq ''END;'' h"

text \<open>A violated constraint counts as success.\<close>

definition exec_ignoring :: "'db sqlite \<Rightarrow> string \<Rightarrow> 'db option \<Rightarrow> int \<times> 'db option" where
  "exec_ignoring sq sql h =
     (case h of None \<Rightarrow> (- 1, None)
      | Some db \<Rightarrow> (case sq_exec sq sql db of (rc, _, db') \<Rightarrow>
          (if rc \<noteq> SQLITE_OK then if rc = SQLITE_CONSTRAINT then 0 else - 1 else 0, Some db')))"

definition db_changed_table_add :: "'db sqlite \<Rightarrow> string \<Rightarrow> 'db option \<Rightarrow> int \<times> 'db option" where
  "db_changed_table_add sq path h =
     exec_ignoring sq (''INSERT INTO ChangedPhoto (path) VALUES ('' @ [apos] @ path @ [apos] @ '');'') h"

definition db_changed_table_remove :: "'db sqlite \<Rightarrow> string \<Rightarrow> 'db option \<Rightarrow> int \<times> 'db option" where
  "db_changed_table_remove sq path h =
     exec_status sq (''DELETE FROM ChangedPhoto WHERE path = '' @ [apos] @ path @ [apos] @ '';'') h"

text \<open>A query; in two functions a callback that stops it counts as success.\<close>

definition exec_select ::
  "'db sqlite \<Rightarrow> bool \<Rightarrow> string \<Rightarrow> (row \<Rightarrow> 'd \<Rightarrow> (int \<times> 'd) result) \<Rightarrow> 'd \<Rightarrow> 'db option \<Rightarrow> (int \<times> 'd \<times> 'db option) result" where
  "exec_select sq abort_ok sql callback data h =
     (case h of None \<Rightarrow> Inr (- 1, data, None)
      | Some db \<Rightarrow> rbind (exec_callback sq sql callback data db) (\<lambda>(rc, data', db').
          Inr (if rc \<noteq> SQLITE_OK then if abort_ok \<and> rc = SQLITE_ABORT then 0 else - 1 else 0, data', Some db')))"

definition db_changed_table_for_each_row ::
  "'db sqlite \<Rightarrow> (row \<Rightarrow> 'd \<Rightarrow> (int \<times> 'd) result) \<Rightarrow> 'd \<Rightarrow> 'db option \<Rightarrow> (int \<times> 'd \<times> 'db option) result" where
  "db_changed_table_for_each_row sq = exec_select sq True ''SELECT path FROM ChangedPhoto;''"

text \<open>Here and below, the number is what was stored through the pointer \<^verbatim>\<open>id\<close>, if anything.\<close>

definition db_photo_table_add :: "'db sqlite \<Rightarrow> string \<Rightarrow> 'db option \<Rightarrow> int \<times> int option \<times> 'db option" where
  "db_photo_table_add sq path h =
     (case exec_status sq (''PRAGMA foreign_keys=ON; DELETE FROM Photo WHERE path='' @ [apos] @ path @ [apos] @ '';'') h of
        (rc, h1) \<Rightarrow>
          if rc \<noteq> 0 then (- 1, None, h1)
          else
            (case exec_status sq (''INSERT INTO Photo (path) VALUES ('' @ [apos] @ path @ [apos] @ '');'') h1 of
               (rc2, h2) \<Rightarrow> if rc2 \<noteq> 0 then (- 1, None, h2) else (0, map_option (sq_last_insert_rowid sq) h2, h2)))"

definition db_class_table_add :: "'db sqlite \<Rightarrow> string \<Rightarrow> 'db option \<Rightarrow> int \<times> 'db option" where
  "db_class_table_add sq name h =
     exec_ignoring sq (''INSERT OR IGNORE INTO Classification (name) VALUES ('' @ [apos] @ name @ [apos] @ '');'') h"

fun id_columns :: "row \<Rightarrow> int option \<Rightarrow> int option result" where
  "id_columns [] stored = Inr stored"
| "id_columns ((col, v) # r) stored =
     (if col = ''id'' \<and> v \<noteq> Null_cell then rbind (cell_stoll v) (\<lambda>n. id_columns r (Some n)) else id_columns r stored)"

definition db_object_table_add :: "'db sqlite \<Rightarrow> string \<Rightarrow> 'db option \<Rightarrow> (int \<times> int option \<times> 'db option) result" where
  "db_object_table_add sq name h =
     (case exec_status sq (''INSERT OR IGNORE INTO Object (name) VALUES ('' @ [apos] @ name @ [apos] @ '');'') h of
        (rc, h1) \<Rightarrow>
          if rc \<noteq> 0 then Inr (- 1, None, h1)
          else exec_select sq False (''SELECT id FROM Object WHERE name ='' @ [apos] @ name @ [apos] @ '';'')
                 (\<lambda>r stored. rbind (id_columns r stored) (\<lambda>stored'. Inr (0, stored'))) None h1)"

definition db_photo_object_table_add :: "'db sqlite \<Rightarrow> int \<Rightarrow> int \<Rightarrow> 'db option \<Rightarrow> int \<times> 'db option" where
  "db_photo_object_table_add sq p_id o_id h =
     exec_status sq (''INSERT OR IGNORE INTO PhotoObject (photo_id, object_id) VALUES ('' @
       int_to_string p_id @ '','' @ int_to_string o_id @ '');'') h"

definition insert_person :: string where
  "insert_person = ''INSERT INTO Person (face_embeddings) VALUES (?)''"

definition db_person_table_add :: "'db sqlite \<Rightarrow> cfloat list \<Rightarrow> 'db option \<Rightarrow> int \<times> int option \<times> 'db option" where
  "db_person_table_add sq v h =
     (case h of None \<Rightarrow> (- 1, None, None)
      | Some db \<Rightarrow>
          if sq_prepare sq insert_person db \<noteq> SQLITE_OK then (- 1, None, Some db)
          else
            (case sq_step_blob sq insert_person v db of (rc, db') \<Rightarrow>
               if rc \<noteq> SQLITE_DONE then (- 1, None, Some db') else (0, Some (sq_last_insert_rowid sq db'), Some db')))"

definition db_person_table_for_each_row ::
  "'db sqlite \<Rightarrow> (row \<Rightarrow> 'd \<Rightarrow> (int \<times> 'd) result) \<Rightarrow> 'd \<Rightarrow> 'db option \<Rightarrow> (int \<times> 'd \<times> 'db option) result" where
  "db_person_table_for_each_row sq = exec_select sq True ''SELECT id, face_embeddings FROM Person;''"

definition db_photo_person_table_add :: "'db sqlite \<Rightarrow> int \<Rightarrow> int \<Rightarrow> 'db option \<Rightarrow> int \<times> 'db option" where
  "db_photo_person_table_add sq photo_id person_id h =
     exec_status sq (''INSERT OR IGNORE INTO PhotoPerson (photo_id, person_id) VALUES ('' @
       int_to_string photo_id @ '','' @ int_to_string person_id @ '');'') h"

definition db_person_table_list ::
  "'db sqlite \<Rightarrow> (row \<Rightarrow> 'd \<Rightarrow> (int \<times> 'd) result) \<Rightarrow> 'd \<Rightarrow> 'db option \<Rightarrow> (int \<times> 'd \<times> 'db option) result" where
  "db_person_table_list sq = exec_select sq False ''SELECT id, name FROM Person;''"

definition db_class_table_list ::
  "'db sqlite \<Rightarrow> (row \<Rightarrow> 'd \<Rightarrow> (int \<times> 'd) result) \<Rightarrow> 'd \<Rightarrow> 'db option \<Rightarrow> (int \<times> 'd \<times> 'db option) result" where
  "db_class_table_list sq = exec_select sq False ''SELECT id, name FROM Object;''"

definition db_photo_table_list ::
  "'db sqlite \<Rightarrow> (row \<Rightarrow> 'd \<Rightarrow> (int \<times> 'd) result) \<Rightarrow> 'd \<Rightarrow> 'db option \<Rightarrow> (int \<times> 'd \<times> 'db option) result" where
  "db_photo_table_list sq = exec_select sq False ''SELECT id, path FROM Photo;''"

definition db_list_photo_by_person ::
  "'db sqlite \<Rightarrow> int \<Rightarrow> (row \<Rightarrow> 'd \<Rightarrow> (int \<times> 'd) result) \<Rightarrow> 'd \<Rightarrow> 'db option \<Rightarrow> (int \<times> 'd \<times> 'db option) result" where
  "db_list_photo_by_person sq person_id =
     exec_select sq False (''SELECT p.id, p.path FROM Photo p '' @
       ''INNER JOIN PhotoPerson pp ON p.id = pp.photo_id '' @
       ''INNER JOIN Person ps ON ps.id = pp.person_id '' @
       ''WHERE ps.id = '' @ int_to_string person_id @ '';'')"

definition db_list_photo_by_class ::
  "'db sqlite \<Rightarrow> string \<Rightarrow> (row \<Rightarrow> 'd \<Rightarrow> (int \<times> 'd) result) \<Rightarrow> 'd \<Rightarrow> 'db option \<Rightarrow> (int \<times> 'd \<times> 'db option) result" where
  "db_list_photo_by_class sq class_name =
     exec_select sq False (''SELECT p.id, p.path FROM Photo p '' @
       ''INNER JOIN PhotoObject po ON p.id = po.photo_id '' @
       ''INNER JOIN Object o ON o.id = po.object_id '' @
       ''WHERE o.name = '' @ [apos] @ class_name @ [apos] @ '';'')"

definition db_photo_table_remove :: "'db sqlite \<Rightarrow> string \<Rightarrow> 'db option \<Rightarrow> int \<times> 'db option" where
  "db_photo_table_remove sq path h =
     exec_status sq (''PRAGMA foreign_keys=ON; DELETE FROM Photo WHERE path = '' @ [apos] @ path @ [apos] @ '';'') h"

definition db_photo_table_move :: "'db sqlite \<Rightarrow> string \<Rightarrow> string \<Rightarrow> 'db option \<Rightarrow> int \<times> 'db option" where
  "db_photo_table_move sq from_path to_path h =
     exec_status sq (''UPDATE Photo SET path = '' @ [apos] @ to_path @ [apos] @ '' WHERE path='' @ [apos] @ from_path @ [apos] @ '';'') h"

definition db_list_class_by_photo ::
  "'db sqlite \<Rightarrow> string \<Rightarrow> (row \<Rightarrow> 'd \<Rightarrow> (int \<times> 'd) result) \<Rightarrow> 'd \<Rightarrow> 'db option \<Rightarrow> (int \<times> 'd \<times> 'db option) result" where
  "db_list_class_by_photo sq path =
     exec_select sq False (''SELECT o.id, o.name FROM Object o '' @
       ''INNER JOIN PhotoObject po ON o.id = po.object_id '' @
       ''INNER JOIN Photo p ON p.id = po.photo_id '' @
       ''WHERE p.path = '' @ [apos] @ path @ [apos] @ '';'')"

definition db_list_person_by_photo ::
  "'db sqlite \<Rightarrow> string \<Rightarrow> (row \<Rightarrow> 'd \<Rightarrow> (int \<times> 'd) result) \<Rightarrow> 'd \<Rightarrow> 'db option \<Rightarrow> (int \<times> 'd \<times> 'db option) result" where
  "db_list_person_by_photo sq path =
     exec_select sq False (''SELECT ps.id, ps.name FROM Person ps '' @
       ''INNER JOIN PhotoPerson pp ON ps.id = pp.person_id '' @
       ''INNER JOIN Photo p ON p.id = pp.photo_id '' @
       ''WHERE p.path = '' @ [apos] @ path @ [apos] @ '';'')"

definition db_photo_table_remove_all :: "'db sqlite \<Rightarrow> 'db option \<Rightarrow> int \<times> 'db option" where
  "db_photo_table_remove_all sq h =
     exec_status sq (''PRAGMA foreign_keys=ON;'' @
       ''DELETE FROM ChangedPhoto;'' @
       ''DELETE FROM Photo;'' @
       ''DELETE FROM Object;'' @
       ''DELETE FROM PhotoObject;'' @
       ''DELETE FROM Person;'' @
       ''DELETE FROM PhotoPerson;'') h"

definition db_changed_table_count :: "'db sqlite \<Rightarrow> 'db option \<Rightarrow> (int \<times> 'db option) result" where
  "db_changed_table_count sq h =
     rbind (exec_select sq False ''SELECT COUNT(*) from ChangedPhoto;''
        (\<lambda>r c. case r of [(_, v)] \<Rightarrow> rbind (cell_stoll v) (\<lambda>n. Inr (0, n)) | _ \<Rightarrow> Inr (- 1, c)) (- 1) h)
       (\<lambda>(rc, count, h'). Inr (if rc \<noteq> 0 then - 1 else count, h'))"

section \<open>The schema\<close>

text \<open>
  What \<^verbatim>\<open>create_tables\<close> asks SQLite to enforce is read off its text: the unique indices, the foreign
  keys with their actions, and whether the connection enforces foreign keys at all. The pragma in front of the later
  deletions changes nothing then.
\<close>

fun split_text :: "char \<Rightarrow> string \<Rightarrow> string list" where
  "split_text c [] = [[]]"
| "split_text c (x # xs) =
     (if x = c then [] # split_text c xs
      else (case split_text c xs of [] \<Rightarrow> [[x]] | s # ss \<Rightarrow> (x # s) # ss))"

fun starts_text :: "string \<Rightarrow> string \<Rightarrow> bool" where
  "starts_text [] s \<longleftrightarrow> True"
| "starts_text (c # p) [] \<longleftrightarrow> False"
| "starts_text (c # p) (d # s) \<longleftrightarrow> c = d \<and> starts_text p s"

fun contains_text :: "string \<Rightarrow> string \<Rightarrow> bool" where
  "contains_text p [] \<longleftrightarrow> p = []"
| "contains_text p (c # s) \<longleftrightarrow> starts_text p (c # s) \<or> contains_text p s"

definition schema_statements :: "string list" where
  "schema_statements = split_text (CHR '';'') create_tables"

definition unique_on :: "string \<Rightarrow> string \<Rightarrow> bool" where
  "unique_on table col \<longleftrightarrow>
     list_ex (contains_text ('' ON '' @ table @ '' ('' @ col @ '')''))
       (filter (starts_text ''CREATE UNIQUE INDEX IF NOT EXISTS '') schema_statements)"

definition keys_enforced :: bool where
  "keys_enforced \<longleftrightarrow> list_ex (\<lambda>s. s = ''PRAGMA foreign_keys = ON'') schema_statements"

text \<open>The clauses of the definition of a table that say what its column refers to.\<close>

definition foreign_key :: "string \<Rightarrow> string \<Rightarrow> string \<Rightarrow> string \<Rightarrow> bool" where
  "foreign_key table col target rest \<longleftrightarrow>
     keys_enforced \<and>
     list_ex (contains_text (''FOREIGN KEY('' @ col @ '') REFERENCES '' @ target @ ''(id)'' @ rest))
       (filter (starts_text (''CREATE TABLE IF NOT EXISTS '' @ table @ '' ('')) schema_statements)"

definition refers_to :: "string \<Rightarrow> string \<Rightarrow> string \<Rightarrow> bool" where
  "refers_to table col target \<longleftrightarrow> foreign_key table col target []"

definition cascades_from :: "string \<Rightarrow> string \<Rightarrow> string \<Rightarrow> bool" where
  "cascades_from table col target \<longleftrightarrow> foreign_key table col target '' ON DELETE CASCADE''"

definition create_statements :: "string list" where
  "create_statements =
    [''PRAGMA foreign_keys = ON'',
     ''CREATE TABLE IF NOT EXISTS ChangedPhoto (id INTEGER PRIMARY KEY AUTOINCREMENT, path TEXT)'',
     ''CREATE UNIQUE INDEX IF NOT EXISTS ChangedPhotoPathIndex ON ChangedPhoto (path)'',
     ''CREATE TABLE IF NOT EXISTS Photo (id INTEGER PRIMARY KEY AUTOINCREMENT, path TEXT)'',
     ''CREATE UNIQUE INDEX IF NOT EXISTS PhotoPathIndex ON Photo (path)'',
     ''CREATE TABLE IF NOT EXISTS Classification (id INTEGER PRIMARY KEY AUTOINCREMENT, name TEXT)'',
     ''CREATE UNIQUE INDEX IF NOT EXISTS ClassNameIndex ON Classification (name)'',
     ''CREATE TABLE IF NOT EXISTS PhotoClass (id INTEGER PRIMARY KEY AUTOINCREMENT,photo_id INTEGER,class_id INTEGER,FOREIGN KEY(photo_id) REFERENCES photo(id),FOREIGN KEY(class_id) REFERENCES classification(id))'',
     ''CREATE TABLE IF NOT EXISTS Object (id INTEGER PRIMARY KEY AUTOINCREMENT, name TEXT)'',
     ''CREATE UNIQUE INDEX IF NOT EXISTS ObjectNameIndex ON Object (name)'',
     ''CREATE TABLE IF NOT EXISTS PhotoObject (id INTEGER PRIMARY KEY AUTOINCREMENT,photo_id INTEGER,object_id INTEGER,FOREIGN KEY(photo_id) REFERENCES photo(id) ON DELETE CASCADE,FOREIGN KEY(object_id) REFERENCES object(id) ON DELETE CASCADE)'',
     ''CREATE TABLE IF NOT EXISTS Person (id INTEGER PRIMARY KEY AUTOINCREMENT, name TEXT,face_embeddings BLOB)'',
     ''CREATE TABLE IF NOT EXISTS PhotoPerson (id INTEGER PRIMARY KEY AUTOINCREMENT,photo_id INTEGER,person_id INTEGER,FOREIGN KEY(photo_id) REFERENCES photo(id) ON DELETE CASCADE,FOREIGN KEY(person_id) REFERENCES person(id) ON DELETE CASCADE)'']"

lemma split_text_end: "c \<notin> set a \<Longrightarrow> split_text c (a @ c # b) = a # split_text c b"
  by (induction a) auto

lemma split_text_concat:
  "list_all (\<lambda>a. c \<notin> set a) ss \<Longrightarrow> split_text c (concat (map (\<lambda>a. a @ [c]) ss)) = ss @ [[]]"
  by (induction ss) (auto simp: split_text_end)

lemma create_statements_text: "create_tables = concat (map (\<lambda>a. a @ [CHR '';'']) create_statements)"
  by code_simp

lemma create_statements_apart: "list_all (\<lambda>a. CHR '';'' \<notin> set a) create_statements"
  by code_simp

lemma schema_statements_eq [code]: "schema_statements = create_statements @ [[]]"
  unfolding schema_statements_def create_statements_text by (rule split_text_concat [OF create_statements_apart])

lemma created_indices [simp]:
  "unique_on ''ChangedPhoto'' ''path''" "unique_on ''Photo'' ''path''" "unique_on ''Object'' ''name''"
  by code_simp+

lemma created_keys [simp]:
  "refers_to ''PhotoObject'' ''photo_id'' ''photo''" "refers_to ''PhotoObject'' ''object_id'' ''object''"
  "refers_to ''PhotoPerson'' ''photo_id'' ''photo''" "refers_to ''PhotoPerson'' ''person_id'' ''person''"
  by code_simp+

lemma created_cascades [simp]:
  "cascades_from ''PhotoObject'' ''photo_id'' ''photo''" "cascades_from ''PhotoPerson'' ''photo_id'' ''photo''"
  by code_simp+

section \<open>The statements on tables\<close>

text \<open>
  The tables with the counters that number their rows, the number of the last new row, and whether
  a transaction is open.
\<close>

record tables =
  t_changed :: "(int \<times> string) list"
  t_photo :: "(int \<times> string) list"
  t_object :: "(int \<times> string) list"
  t_photo_object :: "(int \<times> int \<times> int) list"
  t_person :: "(int \<times> string option \<times> cfloat list) list"
  t_photo_person :: "(int \<times> int \<times> int) list"
  n_changed :: int
  n_photo :: int
  n_object :: int
  n_photo_object :: int
  n_person :: int
  n_photo_person :: int
  t_last :: int
  t_open :: bool

datatype stmt =
    Begin
  | End_txn
  | Insert_changed string
  | Delete_changed string
  | Select_changed
  | Count_changed
  | Replace_photo string
  | Insert_photo string
  | Insert_object string
  | Select_object string
  | Insert_photo_object int int
  | Select_faces
  | Insert_photo_person int int
  | List_persons
  | List_objects
  | List_photos
  | Photos_of_person int
  | Photos_of_class string
  | Delete_photo string
  | Move_photo string string
  | Classes_of_photo string
  | Persons_of_photo string
  | Delete_all

definition MAX_ROWID :: int where
  "MAX_ROWID = 2 ^ 63 - 1"

definition id_cell :: "int \<Rightarrow> string \<times> cell" where
  "id_cell i = (''id'', Text_cell (int_to_string i))"

definition text_or_null :: "string option \<Rightarrow> cell" where
  "text_or_null v = (case v of None \<Rightarrow> Null_cell | Some s \<Rightarrow> Text_cell s)"

definition photo_row :: "int \<times> string \<Rightarrow> row" where
  "photo_row p = [id_cell (fst p), (''path'', Text_cell (snd p))]"

definition object_row :: "int \<times> string \<Rightarrow> row" where
  "object_row ob = [id_cell (fst ob), (''name'', Text_cell (snd ob))]"

definition person_row :: "int \<times> string option \<times> cfloat list \<Rightarrow> row" where
  "person_row ps = [id_cell (fst ps), (''name'', text_or_null (fst (snd ps)))]"

definition face_row :: "int \<times> string option \<times> cfloat list \<Rightarrow> row" where
  "face_row ps = [id_cell (fst ps), (''face_embeddings'', Blob_cell (snd (snd ps)))]"

text \<open>
  Deleting photos: the rows that refer to them go with them where the schema says so, and are an
  obstacle where it has a foreign key without that action.
\<close>

definition obstructs :: "string \<Rightarrow> int list \<Rightarrow> (int \<times> int \<times> int) list \<Rightarrow> bool" where
  "obstructs table gone rs \<longleftrightarrow>
     refers_to table ''photo_id'' ''photo'' \<and> \<not> cascades_from table ''photo_id'' ''photo'' \<and> list_ex (\<lambda>r. fst (snd r) \<in> set gone) rs"

definition cascade :: "string \<Rightarrow> int list \<Rightarrow> (int \<times> int \<times> int) list \<Rightarrow> (int \<times> int \<times> int) list" where
  "cascade table gone rs = (if cascades_from table ''photo_id'' ''photo'' then filter (\<lambda>r. fst (snd r) \<notin> set gone) rs else rs)"

definition delete_photos :: "(string \<Rightarrow> bool) \<Rightarrow> tables \<Rightarrow> int \<times> row list \<times> tables" where
  "delete_photos P t =
     (let gone = map fst (filter (\<lambda>r. P (snd r)) (t_photo t))
      in if obstructs ''PhotoObject'' gone (t_photo_object t) \<or> obstructs ''PhotoPerson'' gone (t_photo_person t)
         then (SQLITE_CONSTRAINT, [], t)
         else (SQLITE_OK, [], t\<lparr>t_photo := filter (\<lambda>r. \<not> P (snd r)) (t_photo t),
                 t_photo_object := cascade ''PhotoObject'' gone (t_photo_object t),
                 t_photo_person := cascade ''PhotoPerson'' gone (t_photo_person t)\<rparr>))"

text \<open>With the schema of the program a photo is deleted together with the rows that refer to it.\<close>

definition without_photo :: "string \<Rightarrow> tables \<Rightarrow> tables" where
  "without_photo p t =
     (let gone = map fst (filter (\<lambda>r. snd r = p) (t_photo t))
      in t\<lparr>t_photo := filter (\<lambda>r. snd r \<noteq> p) (t_photo t),
           t_photo_object := filter (\<lambda>r. fst (snd r) \<notin> set gone) (t_photo_object t),
           t_photo_person := filter (\<lambda>r. fst (snd r) \<notin> set gone) (t_photo_person t)\<rparr>)"

fun eval_stmt :: "stmt \<Rightarrow> tables \<Rightarrow> int \<times> row list \<times> tables" where
  "eval_stmt Begin t = (if t_open t then (SQLITE_ERROR, [], t) else (SQLITE_OK, [], t\<lparr>t_open := True\<rparr>))"
| "eval_stmt End_txn t = (if t_open t then (SQLITE_OK, [], t\<lparr>t_open := False\<rparr>) else (SQLITE_ERROR, [], t))"
| "eval_stmt (Insert_changed p) t =
     (if unique_on ''ChangedPhoto'' ''path'' \<and> p \<in> snd ` set (t_changed t) then (SQLITE_CONSTRAINT, [], t)
      else if n_changed t \<ge> MAX_ROWID then (SQLITE_FULL, [], t)
      else (SQLITE_OK, [], t\<lparr>t_changed := t_changed t @ [(n_changed t + 1, p)], n_changed := n_changed t + 1, t_last := n_changed t + 1\<rparr>))"
| "eval_stmt (Delete_changed p) t = (SQLITE_OK, [], t\<lparr>t_changed := filter (\<lambda>r. snd r \<noteq> p) (t_changed t)\<rparr>)"
| "eval_stmt Select_changed t = (SQLITE_OK, map (\<lambda>r. [(''path'', Text_cell (snd r))]) (t_changed t), t)"
| "eval_stmt Count_changed t = (SQLITE_OK, [[(''COUNT(*)'', Text_cell (int_to_string (int (length (t_changed t)))))]], t)"
| "eval_stmt (Replace_photo p) t = delete_photos (\<lambda>q. q = p) t"
| "eval_stmt (Insert_photo p) t =
     (if unique_on ''Photo'' ''path'' \<and> p \<in> snd ` set (t_photo t) then (SQLITE_CONSTRAINT, [], t)
      else if n_photo t \<ge> MAX_ROWID then (SQLITE_FULL, [], t)
      else (SQLITE_OK, [], t\<lparr>t_photo := t_photo t @ [(n_photo t + 1, p)], n_photo := n_photo t + 1, t_last := n_photo t + 1\<rparr>))"
| "eval_stmt (Insert_object n) t =
     (if unique_on ''Object'' ''name'' \<and> n \<in> snd ` set (t_object t) then (SQLITE_OK, [], t)
      else if n_object t \<ge> MAX_ROWID then (SQLITE_FULL, [], t)
      else (SQLITE_OK, [], t\<lparr>t_object := t_object t @ [(n_object t + 1, n)], n_object := n_object t + 1, t_last := n_object t + 1\<rparr>))"
| "eval_stmt (Select_object n) t = (SQLITE_OK, map (\<lambda>r. [id_cell (fst r)]) (filter (\<lambda>r. snd r = n) (t_object t)), t)"
| "eval_stmt (Insert_photo_object p ob) t =
     (if n_photo_object t \<ge> MAX_ROWID then (SQLITE_FULL, [], t)
      else if refers_to ''PhotoObject'' ''photo_id'' ''photo'' \<and> p \<notin> fst ` set (t_photo t) \<or>
        refers_to ''PhotoObject'' ''object_id'' ''object'' \<and> ob \<notin> fst ` set (t_object t) then (SQLITE_CONSTRAINT, [], t)
      else (SQLITE_OK, [], t\<lparr>t_photo_object := t_photo_object t @ [(n_photo_object t + 1, p, ob)],
              n_photo_object := n_photo_object t + 1, t_last := n_photo_object t + 1\<rparr>))"
| "eval_stmt Select_faces t = (SQLITE_OK, map face_row (t_person t), t)"
| "eval_stmt (Insert_photo_person p ps) t =
     (if n_photo_person t \<ge> MAX_ROWID then (SQLITE_FULL, [], t)
      else if refers_to ''PhotoPerson'' ''photo_id'' ''photo'' \<and> p \<notin> fst ` set (t_photo t) \<or>
        refers_to ''PhotoPerson'' ''person_id'' ''person'' \<and> ps \<notin> fst ` set (t_person t) then (SQLITE_CONSTRAINT, [], t)
      else (SQLITE_OK, [], t\<lparr>t_photo_person := t_photo_person t @ [(n_photo_person t + 1, p, ps)],
              n_photo_person := n_photo_person t + 1, t_last := n_photo_person t + 1\<rparr>))"
| "eval_stmt List_persons t = (SQLITE_OK, map person_row (t_person t), t)"
| "eval_stmt List_objects t = (SQLITE_OK, map object_row (t_object t), t)"
| "eval_stmt List_photos t = (SQLITE_OK, map photo_row (t_photo t), t)"
| "eval_stmt (Photos_of_person i) t =
     (SQLITE_OK, [photo_row p. p \<leftarrow> t_photo t, pp \<leftarrow> t_photo_person t, fst (snd pp) = fst p,
        ps \<leftarrow> t_person t, fst ps = snd (snd pp) \<and> fst ps = i], t)"
| "eval_stmt (Photos_of_class n) t =
     (SQLITE_OK, [photo_row p. p \<leftarrow> t_photo t, po \<leftarrow> t_photo_object t, fst (snd po) = fst p,
        ob \<leftarrow> t_object t, fst ob = snd (snd po) \<and> snd ob = n], t)"
| "eval_stmt (Delete_photo p) t = delete_photos (\<lambda>q. q = p) t"
| "eval_stmt (Move_photo to_path from_path) t =
     (if unique_on ''Photo'' ''path'' \<and> from_path \<noteq> to_path \<and> from_path \<in> snd ` set (t_photo t) \<and> to_path \<in> snd ` set (t_photo t)
      then (SQLITE_CONSTRAINT, [], t)
      else (SQLITE_OK, [], t\<lparr>t_photo := map (\<lambda>r. if snd r = from_path then (fst r, to_path) else r) (t_photo t)\<rparr>))"
| "eval_stmt (Classes_of_photo p) t =
     (SQLITE_OK, [object_row ob. ob \<leftarrow> t_object t, po \<leftarrow> t_photo_object t, snd (snd po) = fst ob,
        ph \<leftarrow> t_photo t, fst ph = fst (snd po) \<and> snd ph = p], t)"
| "eval_stmt (Persons_of_photo p) t =
     (SQLITE_OK, [person_row ps. ps \<leftarrow> t_person t, pp \<leftarrow> t_photo_person t, snd (snd pp) = fst ps,
        ph \<leftarrow> t_photo t, fst ph = fst (snd pp) \<and> snd ph = p], t)"
| "eval_stmt Delete_all t =
     (case delete_photos (\<lambda>_. True) (t\<lparr>t_changed := []\<rparr>) of (rc, rows, u) \<Rightarrow>
        if rc \<noteq> SQLITE_OK then (rc, rows, u)
        else (SQLITE_OK, [], u\<lparr>t_object := [], t_photo_object := [], t_person := [], t_photo_person := []\<rparr>))"

definition eval_insert_person :: "cfloat list \<Rightarrow> tables \<Rightarrow> int \<times> tables" where
  "eval_insert_person v t =
     (if n_person t \<ge> MAX_ROWID then (SQLITE_FULL, t)
      else (SQLITE_DONE, t\<lparr>t_person := t_person t @ [(n_person t + 1, None, v)], n_person := n_person t + 1, t_last := n_person t + 1\<rparr>))"

lemma delete_photo [simp]: "delete_photos (\<lambda>q. q = p) t = (SQLITE_OK, [], without_photo p t)"
  by (simp add: delete_photos_def obstructs_def cascade_def without_photo_def Let_def)

lemma delete_photos_all [simp]:
  "delete_photos (\<lambda>_. True) t =
     (SQLITE_OK, [], t\<lparr>t_photo := [], t_photo_object := filter (\<lambda>r. fst (snd r) \<notin> fst ` set (t_photo t)) (t_photo_object t),
        t_photo_person := filter (\<lambda>r. fst (snd r) \<notin> fst ` set (t_photo t)) (t_photo_person t)\<rparr>)"
  by (simp add: delete_photos_def obstructs_def cascade_def)

section \<open>The texts of the statements\<close>

text \<open>A text with holes: literal characters, a string literal without its quotes, an integer.\<close>

datatype piece = Lit string | Str | Num

text \<open>What stands before the quote that ends a string literal: a doubled quote denotes one.\<close>

fun sql_literal :: "string \<Rightarrow> string \<times> string" where
  "sql_literal [] = ([], [])"
| "sql_literal (c # cs) =
     (if c \<noteq> apos then (case sql_literal cs of (v, rest) \<Rightarrow> (c # v, rest))
      else
        (case cs of
           [] \<Rightarrow> ([], [c])
         | d # ds \<Rightarrow> if d = apos then (case sql_literal ds of (v, rest) \<Rightarrow> (apos # v, rest)) else ([], c # cs)))"

definition sql_number :: "string \<Rightarrow> int \<times> string" where
  "sql_number s =
     (case s of
        c # cs \<Rightarrow> if c = CHR ''-'' then (- digits_value (takeWhile isdigit cs), dropWhile isdigit cs)
                 else (digits_value (takeWhile isdigit s), dropWhile isdigit s)
      | [] \<Rightarrow> (0, []))"

fun match_pieces :: "piece list \<Rightarrow> string \<Rightarrow> (string list \<times> int list) option" where
  "match_pieces [] s = (if s = [] then Some ([], []) else None)"
| "match_pieces (Lit l # ps) s = (if take (length l) s = l then match_pieces ps (drop (length l) s) else None)"
| "match_pieces (Str # ps) s =
     (case sql_literal s of (v, rest) \<Rightarrow> map_option (\<lambda>(ss, ns). (v # ss, ns)) (match_pieces ps rest))"
| "match_pieces (Num # ps) s =
     (case sql_number s of (v, rest) \<Rightarrow> map_option (\<lambda>(ss, ns). (ss, v # ns)) (match_pieces ps rest))"

fun fill_pieces :: "piece list \<Rightarrow> string list \<Rightarrow> int list \<Rightarrow> string" where
  "fill_pieces [] ss ns = []"
| "fill_pieces (Lit l # ps) ss ns = l @ fill_pieces ps ss ns"
| "fill_pieces (Str # ps) ss ns = hd ss @ fill_pieces ps (tl ss) ns"
| "fill_pieces (Num # ps) ss ns = int_to_string (hd ns) @ fill_pieces ps ss (tl ns)"

text \<open>A statement with one string at the end of a query.\<close>

definition ends_with_string :: "string \<Rightarrow> piece list" where
  "ends_with_string s = [Lit (s @ [apos]), Str, Lit (apos # '';'')]"

definition values_string :: "string \<Rightarrow> piece list" where
  "values_string s = [Lit (s @ '' VALUES ('' @ [apos]), Str, Lit (apos # '');'')]"

definition values_numbers :: "string \<Rightarrow> piece list" where
  "values_numbers s = [Lit (s @ '' VALUES (''), Num, Lit '','', Num, Lit '');'']"

definition photo_query :: "string \<Rightarrow> string" where
  "photo_query s = ''SELECT p.id, p.path FROM Photo p '' @ s"

definition grammar :: "(piece list \<times> (string list \<Rightarrow> int list \<Rightarrow> stmt)) list" where
  "grammar =
    [([Lit ''BEGIN;''], \<lambda>_ _. Begin),
     ([Lit ''END;''], \<lambda>_ _. End_txn),
     (values_string ''INSERT INTO ChangedPhoto (path)'', \<lambda>ss _. Insert_changed (ss ! 0)),
     (ends_with_string ''DELETE FROM ChangedPhoto WHERE path = '', \<lambda>ss _. Delete_changed (ss ! 0)),
     ([Lit ''SELECT path FROM ChangedPhoto;''], \<lambda>_ _. Select_changed),
     ([Lit ''SELECT COUNT(*) from ChangedPhoto;''], \<lambda>_ _. Count_changed),
     (ends_with_string ''PRAGMA foreign_keys=ON; DELETE FROM Photo WHERE path='', \<lambda>ss _. Replace_photo (ss ! 0)),
     (values_string ''INSERT INTO Photo (path)'', \<lambda>ss _. Insert_photo (ss ! 0)),
     (values_string ''INSERT OR IGNORE INTO Object (name)'', \<lambda>ss _. Insert_object (ss ! 0)),
     (ends_with_string ''SELECT id FROM Object WHERE name ='', \<lambda>ss _. Select_object (ss ! 0)),
     (values_numbers ''INSERT OR IGNORE INTO PhotoObject (photo_id, object_id)'', \<lambda>_ ns. Insert_photo_object (ns ! 0) (ns ! 1)),
     ([Lit ''SELECT id, face_embeddings FROM Person;''], \<lambda>_ _. Select_faces),
     (values_numbers ''INSERT OR IGNORE INTO PhotoPerson (photo_id, person_id)'', \<lambda>_ ns. Insert_photo_person (ns ! 0) (ns ! 1)),
     ([Lit ''SELECT id, name FROM Person;''], \<lambda>_ _. List_persons),
     ([Lit ''SELECT id, name FROM Object;''], \<lambda>_ _. List_objects),
     ([Lit ''SELECT id, path FROM Photo;''], \<lambda>_ _. List_photos),
     ([Lit (photo_query ''INNER JOIN PhotoPerson pp ON p.id = pp.photo_id INNER JOIN Person ps ON ps.id = pp.person_id WHERE ps.id = ''), Num, Lit '';''],
        \<lambda>_ ns. Photos_of_person (ns ! 0)),
     (ends_with_string (photo_query ''INNER JOIN PhotoObject po ON p.id = po.photo_id INNER JOIN Object o ON o.id = po.object_id WHERE o.name = ''),
        \<lambda>ss _. Photos_of_class (ss ! 0)),
     (ends_with_string ''PRAGMA foreign_keys=ON; DELETE FROM Photo WHERE path = '', \<lambda>ss _. Delete_photo (ss ! 0)),
     ([Lit (''UPDATE Photo SET path = '' @ [apos]), Str, Lit (apos # '' WHERE path='' @ [apos]), Str, Lit (apos # '';'')],
        \<lambda>ss _. Move_photo (ss ! 0) (ss ! 1)),
     (ends_with_string ''SELECT o.id, o.name FROM Object o INNER JOIN PhotoObject po ON o.id = po.object_id INNER JOIN Photo p ON p.id = po.photo_id WHERE p.path = '',
        \<lambda>ss _. Classes_of_photo (ss ! 0)),
     (ends_with_string ''SELECT ps.id, ps.name FROM Person ps INNER JOIN PhotoPerson pp ON ps.id = pp.person_id INNER JOIN Photo p ON p.id = pp.photo_id WHERE p.path = '',
        \<lambda>ss _. Persons_of_photo (ss ! 0)),
     ([Lit ''PRAGMA foreign_keys=ON;DELETE FROM ChangedPhoto;DELETE FROM Photo;DELETE FROM Object;DELETE FROM PhotoObject;DELETE FROM Person;DELETE FROM PhotoPerson;''],
        \<lambda>_ _. Delete_all)]"

fun parse_with :: "(piece list \<times> (string list \<Rightarrow> int list \<Rightarrow> stmt)) list \<Rightarrow> string \<Rightarrow> stmt option" where
  "parse_with [] s = None"
| "parse_with ((ps, f) # g) s = (case match_pieces ps s of Some (ss, ns) \<Rightarrow> Some (f ss ns) | None \<Rightarrow> parse_with g s)"

definition parse_stmt :: "string \<Rightarrow> stmt option" where
  "parse_stmt s = parse_with grammar s"

section \<open>Statements are understood\<close>

lemma sql_literal_plain:
  "apos \<notin> set s \<Longrightarrow> c \<noteq> apos \<Longrightarrow> sql_literal (s @ apos # c # r) = (s, apos # c # r)"
  by (induction s) auto

lemma int_to_string_Cons:
  obtains c cs where "int_to_string n = c # cs" "isdigit c \<or> c = CHR ''-''"
proof (cases "n < 0")
  case True
  with that show ?thesis by (auto simp: int_to_string_def)
next
  case False
  then obtain c cs where "nat_to_string (nat n) = c # cs" "isdigit c"
    using nat_to_string_digits [of _ "nat n"] nat_to_string_not_Nil [of "nat n"] by (cases "nat_to_string (nat n)") auto
  with False that show ?thesis by (auto simp: int_to_string_def)
qed

lemma digit_span:
  "\<not> isdigit c \<Longrightarrow> takeWhile isdigit (nat_to_string k @ c # r) = nat_to_string k"
  "\<not> isdigit c \<Longrightarrow> dropWhile isdigit (nat_to_string k @ c # r) = c # r"
  using nat_to_string_digits by (auto simp: takeWhile_append2 dropWhile_append2)

lemma sql_number_print:
  assumes "\<not> isdigit c"
  shows "sql_number (int_to_string n @ c # r) = (n, c # r)"
proof (cases "n < 0")
  case True
  with assms show ?thesis by (simp add: sql_number_def int_to_string_def digit_span digits_value_nat_to_string)
next
  case False
  obtain d ds where d: "nat_to_string (nat n) = d # ds" "isdigit d"
    using nat_to_string_digits [of _ "nat n"] nat_to_string_not_Nil [of "nat n"] by (cases "nat_to_string (nat n)") auto
  have "sql_number (int_to_string n @ c # r) = (digits_value (nat_to_string (nat n)), c # r)"
    using False d digit_span [OF assms, of "nat n" r] digit_no_space [OF d(2)]
    by (simp add: sql_number_def int_to_string_def)
  with False show ?thesis by (simp add: digits_value_nat_to_string)
qed

fun wf_pieces :: "piece list \<Rightarrow> nat \<Rightarrow> nat \<Rightarrow> bool" where
  "wf_pieces [] i j \<longleftrightarrow> i = 0 \<and> j = 0"
| "wf_pieces (Lit l # ps) i j \<longleftrightarrow> wf_pieces ps i j"
| "wf_pieces (Str # Lit (a # c # l) # ps) i j \<longleftrightarrow> a = apos \<and> c \<noteq> apos \<and> 0 < i \<and> wf_pieces ps (i - 1) j"
| "wf_pieces (Num # Lit (c # l) # ps) i j \<longleftrightarrow> \<not> isdigit c \<and> 0 < j \<and> wf_pieces ps i (j - 1)"
| "wf_pieces ps i j \<longleftrightarrow> False"

lemma match_fill:
  "wf_pieces ps (length ss) (length ns) \<Longrightarrow> \<forall>s \<in> set ss. apos \<notin> set s \<Longrightarrow>
     match_pieces ps (fill_pieces ps ss ns) = Some (ss, ns)"
proof (induction ps "length ss" "length ns" arbitrary: ss ns rule: wf_pieces.induct)
  case (3 a c l ps)
  then obtain s ss' where [simp]: "ss = s # ss'" by (cases ss) auto
  from 3 have "match_pieces ps (fill_pieces ps ss' ns) = Some (ss', ns)" by simp
  with 3 show ?case by (simp add: sql_literal_plain)
next
  case (4 c l ps)
  then obtain n ns' where [simp]: "ns = n # ns'" by (cases ns) auto
  from 4 have "match_pieces ps (fill_pieces ps ss ns') = Some (ss, ns')" by simp
  with 4 show ?case by (simp add: sql_number_print)
qed auto

fun first_literal :: "piece list \<Rightarrow> string" where
  "first_literal (Lit l # _) = l"
| "first_literal _ = []"

text \<open>Two texts that differ at a position that both have.\<close>

fun apart :: "string \<Rightarrow> string \<Rightarrow> bool" where
  "apart (x # xs) (y # ys) \<longleftrightarrow> x \<noteq> y \<or> apart xs ys"
| "apart _ _ \<longleftrightarrow> False"

lemma apart_take: "apart a b \<Longrightarrow> take (length a) s = a \<Longrightarrow> take (length b) s \<noteq> b"
proof (induction a b arbitrary: s rule: apart.induct)
  case (1 x xs y ys)
  then show ?case by (cases s) auto
qed auto

lemma match_first_literal: "match_pieces ps s = Some r \<Longrightarrow> take (length (first_literal ps)) s = first_literal ps"
  by (cases ps rule: first_literal.cases) (auto split: if_splits)

lemma match_apart:
  assumes "apart (first_literal ps) (first_literal qs)" "match_pieces ps s = Some r"
  shows "match_pieces qs s = None"
proof (cases "match_pieces qs s")
  case (Some q)
  then show ?thesis using match_first_literal [of qs s] match_first_literal [of ps s] assms apart_take by metis
qed simp

lemma parse_with_nth:
  "i < length g \<Longrightarrow> match_pieces (fst (g ! i)) s = Some (ss, ns) \<Longrightarrow> (\<And>j. j < i \<Longrightarrow> match_pieces (fst (g ! j)) s = None) \<Longrightarrow>
     parse_with g s = Some (snd (g ! i) ss ns)"
proof (induction g arbitrary: i)
  case (Cons pf g)
  obtain ps f where [simp]: "pf = (ps, f)" by (cases pf)
  show ?case
  proof (cases i)
    case 0
    with Cons.prems show ?thesis by simp
  next
    case (Suc k)
    have "match_pieces ps s = None" using Cons.prems(3) [of 0] Suc by simp
    moreover have "parse_with g s = Some (snd (g ! k) ss ns)"
      using Cons.IH [of k] Cons.prems Suc by (metis Suc_less_eq length_Cons nth_Cons_Suc)
    ultimately show ?thesis using Suc by simp
  qed
qed simp

definition first_literals :: "string list" where
  "first_literals = map (\<lambda>pf. first_literal (fst pf)) grammar"

lemma first_literals_apart: "sorted_wrt (\<lambda>a b. apart b a) first_literals"
  by code_simp

lemma grammar_length [simp]: "length grammar = 23"
  by (simp add: grammar_def)

lemma parse_fill:
  assumes "i < 23" "wf_pieces (fst (grammar ! i)) (length ss) (length ns)" "\<forall>s \<in> set ss. apos \<notin> set s"
  shows "parse_stmt (fill_pieces (fst (grammar ! i)) ss ns) = Some (snd (grammar ! i) ss ns)"
  unfolding parse_stmt_def
proof (rule parse_with_nth)
  have m: "match_pieces (fst (grammar ! i)) (fill_pieces (fst (grammar ! i)) ss ns) = Some (ss, ns)"
    using assms by (intro match_fill)
  then show "match_pieces (fst (grammar ! i)) (fill_pieces (fst (grammar ! i)) ss ns) = Some (ss, ns)" .
  show "match_pieces (fst (grammar ! j)) (fill_pieces (fst (grammar ! i)) ss ns) = None" if "j < i" for j
    using sorted_wrt_nth_less [OF first_literals_apart that] that assms(1) match_apart [OF _ m, of "fst (grammar ! j)"]
    by (simp add: first_literals_def)
qed (simp add: assms)

text \<open>The texts that the functions put together; strings without a quote come out as they went in.\<close>

abbreviation plain :: "string \<Rightarrow> bool" where
  "plain s \<equiv> apos \<notin> set s"

lemma apos_letters [simp]: "apos \<noteq> CHR '';''" "apos \<noteq> CHR '')''" "apos \<noteq> CHR '' ''"
  "CHR '';'' \<noteq> apos" "CHR '')'' \<noteq> apos" "CHR '' '' \<noteq> apos"
  by (simp_all add: apos_def)

lemma not_digits [simp]: "\<not> isdigit (CHR '','')" "\<not> isdigit (CHR '')'')" "\<not> isdigit (CHR '';'')"
  by (simp_all add: isdigit_def)

named_theorems statement_texts \<open>the texts of the statements denote the statements\<close>

lemmas piece_defs = values_string_def ends_with_string_def values_numbers_def photo_query_def

lemma parse_begin [statement_texts]:
  "parse_stmt (''BEGIN;'') = Some Begin"
  using parse_fill [of 0 "[]" "[]"] by (simp add: grammar_def)

lemma parse_end [statement_texts]:
  "parse_stmt (''END;'') = Some End_txn"
  using parse_fill [of 1 "[]" "[]"] by (simp add: grammar_def)

lemma parse_insert_changed [statement_texts]:
  "plain p \<Longrightarrow> parse_stmt (''INSERT INTO ChangedPhoto (path) VALUES ('' @ [apos] @ p @ [apos] @ '');'') = Some (Insert_changed p)"
  using parse_fill [of 2 "[p]" "[]"] by (simp add: grammar_def piece_defs)

lemma parse_delete_changed [statement_texts]:
  "plain p \<Longrightarrow> parse_stmt (''DELETE FROM ChangedPhoto WHERE path = '' @ [apos] @ p @ [apos] @ '';'') = Some (Delete_changed p)"
  using parse_fill [of 3 "[p]" "[]"] by (simp add: grammar_def piece_defs)

lemma parse_select_changed [statement_texts]:
  "parse_stmt (''SELECT path FROM ChangedPhoto;'') = Some Select_changed"
  using parse_fill [of 4 "[]" "[]"] by (simp add: grammar_def)

lemma parse_count_changed [statement_texts]:
  "parse_stmt (''SELECT COUNT(*) from ChangedPhoto;'') = Some Count_changed"
  using parse_fill [of 5 "[]" "[]"] by (simp add: grammar_def)

lemma parse_replace_photo [statement_texts]:
  "plain p \<Longrightarrow> parse_stmt (''PRAGMA foreign_keys=ON; DELETE FROM Photo WHERE path='' @ [apos] @ p @ [apos] @ '';'') = Some (Replace_photo p)"
  using parse_fill [of 6 "[p]" "[]"] by (simp add: grammar_def piece_defs)

lemma parse_insert_photo [statement_texts]:
  "plain p \<Longrightarrow> parse_stmt (''INSERT INTO Photo (path) VALUES ('' @ [apos] @ p @ [apos] @ '');'') = Some (Insert_photo p)"
  using parse_fill [of 7 "[p]" "[]"] by (simp add: grammar_def piece_defs)

lemma parse_insert_object [statement_texts]:
  "plain n \<Longrightarrow> parse_stmt (''INSERT OR IGNORE INTO Object (name) VALUES ('' @ [apos] @ n @ [apos] @ '');'') = Some (Insert_object n)"
  using parse_fill [of 8 "[n]" "[]"] by (simp add: grammar_def piece_defs)

lemma parse_select_object [statement_texts]:
  "plain n \<Longrightarrow> parse_stmt (''SELECT id FROM Object WHERE name ='' @ [apos] @ n @ [apos] @ '';'') = Some (Select_object n)"
  using parse_fill [of 9 "[n]" "[]"] by (simp add: grammar_def piece_defs)

lemma parse_insert_photo_object [statement_texts]:
  "parse_stmt (''INSERT OR IGNORE INTO PhotoObject (photo_id, object_id) VALUES ('' @ int_to_string i @ '','' @ int_to_string j @ '');'') = Some (Insert_photo_object i j)"
  using parse_fill [of 10 "[]" "[i, j]"] by (simp add: grammar_def piece_defs)

lemma parse_select_faces [statement_texts]:
  "parse_stmt (''SELECT id, face_embeddings FROM Person;'') = Some Select_faces"
  using parse_fill [of 11 "[]" "[]"] by (simp add: grammar_def)

lemma parse_insert_photo_person [statement_texts]:
  "parse_stmt (''INSERT OR IGNORE INTO PhotoPerson (photo_id, person_id) VALUES ('' @ int_to_string i @ '','' @ int_to_string j @ '');'') = Some (Insert_photo_person i j)"
  using parse_fill [of 12 "[]" "[i, j]"] by (simp add: grammar_def piece_defs)

lemma parse_list_persons [statement_texts]:
  "parse_stmt (''SELECT id, name FROM Person;'') = Some List_persons"
  using parse_fill [of 13 "[]" "[]"] by (simp add: grammar_def)

lemma parse_list_objects [statement_texts]:
  "parse_stmt (''SELECT id, name FROM Object;'') = Some List_objects"
  using parse_fill [of 14 "[]" "[]"] by (simp add: grammar_def)

lemma parse_list_photos [statement_texts]:
  "parse_stmt (''SELECT id, path FROM Photo;'') = Some List_photos"
  using parse_fill [of 15 "[]" "[]"] by (simp add: grammar_def)

lemma parse_photos_of_person [statement_texts]:
  "parse_stmt (''SELECT p.id, p.path FROM Photo p '' @ ''INNER JOIN PhotoPerson pp ON p.id = pp.photo_id '' @ ''INNER JOIN Person ps ON ps.id = pp.person_id '' @ ''WHERE ps.id = '' @ int_to_string i @ '';'') = Some (Photos_of_person i)"
  using parse_fill [of 16 "[]" "[i]"] by (simp add: grammar_def piece_defs)

lemma parse_photos_of_class [statement_texts]:
  "plain n \<Longrightarrow> parse_stmt (''SELECT p.id, p.path FROM Photo p '' @ ''INNER JOIN PhotoObject po ON p.id = po.photo_id '' @ ''INNER JOIN Object o ON o.id = po.object_id '' @ ''WHERE o.name = '' @ [apos] @ n @ [apos] @ '';'') = Some (Photos_of_class n)"
  using parse_fill [of 17 "[n]" "[]"] by (simp add: grammar_def piece_defs)

lemma parse_delete_photo [statement_texts]:
  "plain p \<Longrightarrow> parse_stmt (''PRAGMA foreign_keys=ON; DELETE FROM Photo WHERE path = '' @ [apos] @ p @ [apos] @ '';'') = Some (Delete_photo p)"
  using parse_fill [of 18 "[p]" "[]"] by (simp add: grammar_def piece_defs)

lemma parse_move_photo [statement_texts]:
  "plain p \<Longrightarrow> plain n \<Longrightarrow> parse_stmt (''UPDATE Photo SET path = '' @ [apos] @ p @ [apos] @ '' WHERE path='' @ [apos] @ n @ [apos] @ '';'') = Some (Move_photo p n)"
  using parse_fill [of 19 "[p, n]" "[]"] by (simp add: grammar_def piece_defs)

lemma parse_classes_of_photo [statement_texts]:
  "plain p \<Longrightarrow> parse_stmt (''SELECT o.id, o.name FROM Object o '' @ ''INNER JOIN PhotoObject po ON o.id = po.object_id '' @ ''INNER JOIN Photo p ON p.id = po.photo_id '' @ ''WHERE p.path = '' @ [apos] @ p @ [apos] @ '';'') = Some (Classes_of_photo p)"
  using parse_fill [of 20 "[p]" "[]"] by (simp add: grammar_def piece_defs)

lemma parse_persons_of_photo [statement_texts]:
  "plain p \<Longrightarrow> parse_stmt (''SELECT ps.id, ps.name FROM Person ps '' @ ''INNER JOIN PhotoPerson pp ON ps.id = pp.person_id '' @ ''INNER JOIN Photo p ON p.id = pp.photo_id '' @ ''WHERE p.path = '' @ [apos] @ p @ [apos] @ '';'') = Some (Persons_of_photo p)"
  using parse_fill [of 21 "[p]" "[]"] by (simp add: grammar_def piece_defs)

lemma parse_delete_all [statement_texts]:
  "parse_stmt (''PRAGMA foreign_keys=ON;'' @ ''DELETE FROM ChangedPhoto;'' @ ''DELETE FROM Photo;'' @ ''DELETE FROM Object;'' @ ''DELETE FROM PhotoObject;'' @ ''DELETE FROM Person;'' @ ''DELETE FROM PhotoPerson;'') = Some Delete_all"
  using parse_fill [of 22 "[]" "[]"] by (simp add: grammar_def)

section \<open>Integrity of the tables\<close>

definition numbered :: "int \<Rightarrow> (int \<times> 'a) list \<Rightarrow> bool" where
  "numbered n rs \<longleftrightarrow> distinct (map fst rs) \<and> (\<forall>r \<in> set rs. 0 < fst r \<and> fst r \<le> n)"

definition refers :: "(int \<times> int \<times> int) list \<Rightarrow> int set \<Rightarrow> int set \<Rightarrow> bool" where
  "refers rs A B \<longleftrightarrow> (\<forall>r \<in> set rs. fst (snd r) \<in> A \<and> snd (snd r) \<in> B)"

definition tables_ok :: "tables \<Rightarrow> bool" where
  "tables_ok t \<longleftrightarrow>
     numbered (n_changed t) (t_changed t) \<and> numbered (n_photo t) (t_photo t) \<and> numbered (n_object t) (t_object t) \<and>
     numbered (n_photo_object t) (t_photo_object t) \<and> numbered (n_person t) (t_person t) \<and>
     numbered (n_photo_person t) (t_photo_person t) \<and>
     0 \<le> n_changed t \<and> 0 \<le> n_photo t \<and> 0 \<le> n_object t \<and> 0 \<le> n_photo_object t \<and> 0 \<le> n_person t \<and> 0 \<le> n_photo_person t \<and>
     n_changed t \<le> MAX_ROWID \<and> n_photo t \<le> MAX_ROWID \<and> n_object t \<le> MAX_ROWID \<and> n_person t \<le> MAX_ROWID \<and>
     distinct (map snd (t_changed t)) \<and> distinct (map snd (t_photo t)) \<and> distinct (map snd (t_object t)) \<and>
     refers (t_photo_object t) (fst ` set (t_photo t)) (fst ` set (t_object t)) \<and>
     refers (t_photo_person t) (fst ` set (t_photo t)) (fst ` set (t_person t))"

lemma numbered_Nil [simp]: "numbered n []"
  by (simp add: numbered_def)

lemma numbered_new [simp]: "numbered n rs \<Longrightarrow> 0 \<le> n \<Longrightarrow> numbered (n + 1) (rs @ [(n + 1, x)])"
  unfolding numbered_def by fastforce

lemma distinct_map_filter': "distinct (map f rs) \<Longrightarrow> distinct (map f (filter P rs))"
  by (induction rs) auto

lemma refers_simps [simp]:
  "refers [] A B"
  "refers (rs @ [(n, a, b)]) A B \<longleftrightarrow> refers rs A B \<and> a \<in> A \<and> b \<in> B"
  by (auto simp: refers_def)

lemma refers_insert [simp]: "refers rs A B \<Longrightarrow> refers rs (insert a A) B" "refers rs A B \<Longrightarrow> refers rs A (insert b B)"
  by (auto simp: refers_def)

lemma numbered_filter [simp]: "numbered n rs \<Longrightarrow> numbered n (filter P rs)"
  unfolding numbered_def by (auto intro: distinct_map_filter')

lemma numbered_map [simp]: "(\<And>r. fst (f r) = fst r) \<Longrightarrow> numbered n (map f rs) \<longleftrightarrow> numbered n rs"
  by (simp add: numbered_def comp_def)

lemma distinct_rename:
  "distinct (map snd rs) \<Longrightarrow> a = b \<or> a \<notin> snd ` set rs \<or> b \<notin> snd ` set rs \<Longrightarrow>
     distinct (map snd (map (\<lambda>r. if snd r = a then (fst r, b) else r) rs))"
proof (induction rs)
  case (Cons r rs)
  have "snd ` set (map (\<lambda>r. if snd r = a then (fst r, b) else r) rs) \<subseteq> (if a \<in> snd ` set rs then {b} else {}) \<union> snd ` set rs - (if a = b then {} else {a})"
    by auto
  with Cons show ?case by (auto simp: image_iff)
qed simp

lemma refers_without:
  "refers rs (fst ` set ps) B \<Longrightarrow>
     refers (filter (\<lambda>r. fst (snd r) \<notin> fst ` {x \<in> set ps. P x}) rs) (fst ` {x \<in> set ps. \<not> P x}) B"
  unfolding refers_def by (auto simp: image_iff) force

lemma without_photo_ok: "tables_ok t \<Longrightarrow> tables_ok (without_photo p t)"
  by (simp add: tables_ok_def without_photo_def Let_def distinct_map_filter' refers_without)

lemma renamed_photos: "fst ` set (map (\<lambda>r. if snd r = a then (fst r, b) else r) rs) = fst ` set rs"
  by (induction rs) auto

lemma move_photo_ok:
  assumes "tables_ok t" "a = b \<or> a \<notin> snd ` set (t_photo t) \<or> b \<notin> snd ` set (t_photo t)"
  shows "tables_ok (t\<lparr>t_photo := map (\<lambda>r. if snd r = a then (fst r, b) else r) (t_photo t)\<rparr>)"
  using assms distinct_rename [of "t_photo t" a b] renamed_photos [of a b "t_photo t"]
  by (simp add: tables_ok_def del: set_map map_map)

lemma tables_ok_flags [simp]: "tables_ok (t\<lparr>t_open := b\<rparr>) \<longleftrightarrow> tables_ok t"
  by (simp add: tables_ok_def)

lemma insert_rows_ok:
  assumes "tables_ok t"
  shows "n_changed t < MAX_ROWID \<Longrightarrow> p \<notin> snd ` set (t_changed t) \<Longrightarrow>
      tables_ok (t\<lparr>t_changed := t_changed t @ [(n_changed t + 1, p)], n_changed := n_changed t + 1, t_last := k\<rparr>)"
    and "n_photo t < MAX_ROWID \<Longrightarrow> p \<notin> snd ` set (t_photo t) \<Longrightarrow>
      tables_ok (t\<lparr>t_photo := t_photo t @ [(n_photo t + 1, p)], n_photo := n_photo t + 1, t_last := k\<rparr>)"
    and "n_object t < MAX_ROWID \<Longrightarrow> p \<notin> snd ` set (t_object t) \<Longrightarrow>
      tables_ok (t\<lparr>t_object := t_object t @ [(n_object t + 1, p)], n_object := n_object t + 1, t_last := k\<rparr>)"
    and "i \<in> fst ` set (t_photo t) \<Longrightarrow> j \<in> fst ` set (t_object t) \<Longrightarrow>
      tables_ok (t\<lparr>t_photo_object := t_photo_object t @ [(n_photo_object t + 1, i, j)], n_photo_object := n_photo_object t + 1, t_last := k\<rparr>)"
    and "i \<in> fst ` set (t_photo t) \<Longrightarrow> j \<in> fst ` set (t_person t) \<Longrightarrow>
      tables_ok (t\<lparr>t_photo_person := t_photo_person t @ [(n_photo_person t + 1, i, j)], n_photo_person := n_photo_person t + 1, t_last := k\<rparr>)"
  using assms by (simp_all add: tables_ok_def)

lemma delete_rows_ok:
  assumes "tables_ok t"
  shows "tables_ok (t\<lparr>t_changed := filter P (t_changed t)\<rparr>)"
    and "tables_ok (t\<lparr>t_changed := [], t_photo := [], t_object := [], t_photo_object := [], t_person := [], t_photo_person := []\<rparr>)"
  using assms by (simp_all add: tables_ok_def distinct_map_filter')

lemma eval_stmt_ok:
  assumes "tables_ok t" "eval_stmt st t = (rc, rows, t')"
  shows "tables_ok t'"
proof -
  note ok = assms(1) insert_rows_ok [OF assms(1)] delete_rows_ok [OF assms(1)] without_photo_ok [OF assms(1)]
  have "tables_ok (snd (snd (eval_stmt st t)))"
  proof (cases st)
    case (Move_photo b a)
    then show ?thesis using move_photo_ok [OF assms(1), of a b] assms(1) by auto
  qed (simp_all add: ok not_le)
  with assms(2) show ?thesis by simp
qed

lemma eval_insert_person_ok: "tables_ok t \<Longrightarrow> eval_insert_person v t = (rc, t') \<Longrightarrow> tables_ok t'"
  by (auto simp: tables_ok_def eval_insert_person_def split: if_splits)

section \<open>The contract of SQLite\<close>

text \<open>
  A connection on which \<^verbatim>\<open>create_tables\<close> was executed is seen as tables, those of a new file being
  empty. The statements the code issues act on them as SQL says with the constraints that the text of
  \<^verbatim>\<open>create_tables\<close> declares, in whatever order the rows of a query come; creating tables that exist
  changes nothing; there are no other failures, such as a full disk or a lock of another process.
\<close>

locale photo_db =
  fixes sq :: "'db sqlite" and view :: "'db \<Rightarrow> tables"
  assumes exec_law: "parse_stmt s = Some st \<Longrightarrow> sq_exec sq s db = (rc, rows, db') \<Longrightarrow> eval_stmt st (view db) = (rc', rows', t) \<Longrightarrow>
      rc = rc' \<and> mset rows = mset rows' \<and> view db' = t"
    and create_law: "sq_exec sq create_tables db = (rc, rows, db') \<Longrightarrow> rc = SQLITE_OK \<and> view db' = view db"
    and prepare_law: "sq_prepare sq insert_person db = SQLITE_OK"
    and blob_law: "sq_step_blob sq insert_person v db = (rc, db') \<Longrightarrow> eval_insert_person v (view db) = (rc, view db')"
    and rowid_law: "sq_last_insert_rowid sq db = t_last (view db)"
begin

lemma status_law:
  assumes "parse_stmt s = Some st" "eval_stmt st (view db) = (rc, rows, t)"
  obtains db' where "exec_status sq s (Some db) = (if rc = SQLITE_OK then 0 else - 1, Some db')" "view db' = t"
proof -
  obtain rc' rows' db' where e: "sq_exec sq s db = (rc', rows', db')" by (cases "sq_exec sq s db") auto
  with exec_law [OF assms(1) e assms(2)] that show ?thesis by (auto simp: exec_status_def)
qed

lemma ignoring_law:
  assumes "parse_stmt s = Some st" "eval_stmt st (view db) = (rc, rows, t)"
  obtains db' where "exec_ignoring sq s (Some db) = (if rc = SQLITE_OK \<or> rc = SQLITE_CONSTRAINT then 0 else - 1, Some db')" "view db' = t"
proof -
  obtain rc' rows' db' where e: "sq_exec sq s db = (rc', rows', db')" by (cases "sq_exec sq s db") auto
  with exec_law [OF assms(1) e assms(2)] that show ?thesis by (auto simp: exec_ignoring_def)
qed

lemma select_law:
  assumes "parse_stmt s = Some st" "eval_stmt st (view db) = (SQLITE_OK, rows, t)"
  obtains rows' db' where "mset rows' = mset rows" "view db' = t"
    "exec_select sq ab s callback data (Some db) =
       rbind (deliver callback rows' data) (\<lambda>(aborted, data'). Inr (if aborted \<and> \<not> ab then - 1 else 0, data', Some db'))"
proof -
  obtain rc' rows' db' where e: "sq_exec sq s db = (rc', rows', db')" by (cases "sq_exec sq s db") auto
  have "exec_select sq ab s callback data (Some db) =
       rbind (deliver callback rows' data) (\<lambda>(aborted, data'). Inr (if aborted \<and> \<not> ab then - 1 else 0, data', Some db'))"
    using exec_law [OF assms(1) e assms(2)] e
    by (cases "deliver callback rows' data") (auto simp: exec_select_def exec_callback_def SQLITE_ABORT_def SQLITE_OK_def)
  with exec_law [OF assms(1) e assms(2)] that show ?thesis by blast
qed

lemma changed_add:
  assumes "plain p"
  obtains db' where
    "db_changed_table_add sq p (Some db) =
       (if p \<in> snd ` set (t_changed (view db)) \<or> n_changed (view db) < MAX_ROWID then 0 else - 1, Some db')"
    "view db' = snd (snd (eval_stmt (Insert_changed p) (view db)))"
proof -
  obtain rc rows t where e: "eval_stmt (Insert_changed p) (view db) = (rc, rows, t)" by (metis prod_cases3)
  obtain db' where "exec_ignoring sq (''INSERT INTO ChangedPhoto (path) VALUES ('' @ [apos] @ p @ [apos] @ '');'') (Some db) =
      (if rc = SQLITE_OK \<or> rc = SQLITE_CONSTRAINT then 0 else - 1, Some db')" "view db' = t"
    using ignoring_law [OF parse_insert_changed [OF assms] e] .
  moreover have "rc = SQLITE_OK \<or> rc = SQLITE_CONSTRAINT \<longleftrightarrow> p \<in> snd ` set (t_changed (view db)) \<or> n_changed (view db) < MAX_ROWID"
    using e by (auto simp: SQLITE_OK_def SQLITE_CONSTRAINT_def SQLITE_FULL_def split: if_splits)
  ultimately show ?thesis using that [of db'] e unfolding db_changed_table_add_def by simp
qed

end

section \<open>The functions on tables\<close>

definition put_photo :: "string \<Rightarrow> tables \<Rightarrow> tables" where
  "put_photo p t =
     (let u = without_photo p t
      in u\<lparr>t_photo := t_photo u @ [(n_photo u + 1, p)], n_photo := n_photo u + 1, t_last := n_photo u + 1\<rparr>)"

definition table_of :: "stmt \<Rightarrow> tables \<Rightarrow> tables" where
  "table_of st t = snd (snd (eval_stmt st t))"

definition object_id :: "string \<Rightarrow> tables \<Rightarrow> int" where
  "object_id n t = fst (hd (filter (\<lambda>r. snd r = n) (t_object t)))"

lemma table_of_ok: "tables_ok t \<Longrightarrow> tables_ok (table_of st t)"
  unfolding table_of_def using eval_stmt_ok [of t st] by (cases "eval_stmt st t") auto

lemma stoll_int_to_string:
  assumes "0 \<le> n" "n < 2 ^ 63"
  shows "stoll (int_to_string n) = Inr n"
proof -
  obtain k where k: "n = int k" using assms(1) nonneg_int_cases by blast
  obtain c cs where s: "nat_to_string k = c # cs" "isdigit c"
    using nat_to_string_digits [of _ k] nat_to_string_not_Nil [of k] by (cases "nat_to_string k") auto
  have tw: "takeWhile isdigit (nat_to_string k) = nat_to_string k" using nat_to_string_digits by (simp add: takeWhile_eq_all_conv)
  then have tw2: "takeWhile isdigit cs = cs" using s by simp
  have "ltrim (nat_to_string k) = nat_to_string k" using digit_no_space [OF s(2)] s(1) by (simp add: ltrim_solid)
  then show ?thesis
    using assms tw tw2 s digit_no_space [OF s(2)] digits_value_nat_to_string [of k] by (simp add: stoll_def int_to_string_def k Let_def del: takeWhile_eq_all_conv)
qed

lemma MAX_ROWID_less: "n \<le> MAX_ROWID \<Longrightarrow> n < 2 ^ 63"
  by (simp add: MAX_ROWID_def)

lemma unique_row:
  assumes "distinct (map snd rs)" "(i, n) \<in> set rs"
  shows "filter (\<lambda>r. snd r = n) rs = [(i, n)]"
  using assms
proof (induction rs)
  case (Cons r rs)
  show ?case
  proof (cases "snd r = n")
    case True
    have ne: "snd x \<noteq> n" if "x \<in> set rs" for x using imageI [OF that, of snd] Cons.prems(1) True by (simp del: image_iff) metis
    then have "filter (\<lambda>r. snd r = n) rs = []" by (simp add: filter_empty_conv)
    moreover have "r = (i, n)" using Cons.prems(2) ne [of "(i, n)"] by auto
    ultimately show ?thesis using True by simp
  next
    case False
    with Cons show ?thesis by auto
  qed
qed simp

lemma object_id_mem:
  assumes "tables_ok t" "n \<in> snd ` set (t_object t)"
  shows "(object_id n t, n) \<in> set (t_object t)" "0 < object_id n t" "object_id n t \<le> MAX_ROWID"
    "filter (\<lambda>r. snd r = n) (t_object t) = [(object_id n t, n)]"
proof -
  obtain i where i: "(i, n) \<in> set (t_object t)" using assms(2) by auto
  have f: "filter (\<lambda>r. snd r = n) (t_object t) = [(i, n)]" using unique_row [of "t_object t" i n] i assms(1) by (simp add: tables_ok_def)
  have "0 < i \<and> i \<le> MAX_ROWID" using i assms(1) unfolding tables_ok_def numbered_def by fastforce
  with i f show "(object_id n t, n) \<in> set (t_object t)" "0 < object_id n t" "object_id n t \<le> MAX_ROWID"
    "filter (\<lambda>r. snd r = n) (t_object t) = [(object_id n t, n)]" by (simp_all add: object_id_def)
qed

context photo_db
begin

lemma status_table:
  assumes "parse_stmt s = Some st"
  obtains db' where "exec_status sq s (Some db) = (if fst (eval_stmt st (view db)) = SQLITE_OK then 0 else - 1, Some db')"
    "view db' = table_of st (view db)"
  using status_law [OF assms, of db "fst (eval_stmt st (view db))" "fst (snd (eval_stmt st (view db)))" "table_of st (view db)"]
  by (auto simp: table_of_def)

lemma changed_remove:
  assumes "plain p"
  obtains db' where "db_changed_table_remove sq p (Some db) = (0, Some db')" "view db' = table_of (Delete_changed p) (view db)"
  by (rule status_table [OF parse_delete_changed [OF assms], of db])
    (simp only: db_changed_table_remove_def eval_stmt.simps fst_conv refl if_True)

lemma photo_add:
  assumes "plain p" "n_photo (view db) < MAX_ROWID"
  obtains db' where "db_photo_table_add sq p (Some db) = (0, Some (n_photo (view db) + 1), Some db')" "view db' = put_photo p (view db)"
proof -
  obtain db1 where d1: "exec_status sq (''PRAGMA foreign_keys=ON; DELETE FROM Photo WHERE path='' @ [apos] @ p @ [apos] @ '';'') (Some db) = (0, Some db1)"
      "view db1 = table_of (Replace_photo p) (view db)"
    by (rule status_table [OF parse_replace_photo [OF assms(1)], of db]) (simp only: eval_stmt.simps delete_photo fst_conv refl if_True)
  let ?t = "view db1"
  have n: "n_photo ?t = n_photo (view db)" "p \<notin> snd ` set (t_photo ?t)" by (auto simp: d1(2) table_of_def without_photo_def Let_def)
  obtain db2 where d2: "exec_status sq (''INSERT INTO Photo (path) VALUES ('' @ [apos] @ p @ [apos] @ '');'') (Some db1) =
      (if fst (eval_stmt (Insert_photo p) ?t) = SQLITE_OK then 0 else - 1, Some db2)" "view db2 = table_of (Insert_photo p) ?t"
    using status_table [OF parse_insert_photo [OF assms(1)], of db1] .
  have "view db2 = put_photo p (view db)" "t_last (view db2) = n_photo (view db) + 1" "fst (eval_stmt (Insert_photo p) ?t) = SQLITE_OK"
    using n assms(2) d2(2) by (auto simp: table_of_def put_photo_def Let_def d1(2))
  then show ?thesis using that [of db2] d1(1) d2(1) 
    by (simp only: db_photo_table_add_def prod.case if_True refl HOL.simp_thms if_False option.map rowid_law)
qed

lemma object_add:
  assumes "plain n" "tables_ok (view db)" "n_object (view db) < MAX_ROWID"
  obtains db' where "db_object_table_add sq n (Some db) = Inr (0, Some (object_id n (view db')), Some db')"
    "view db' = table_of (Insert_object n) (view db)" "n \<in> snd ` set (t_object (view db'))"
proof -
  have ok1: "fst (eval_stmt (Insert_object n) (view db)) = SQLITE_OK" using assms(3) by simp
  obtain db1 where d1: "exec_status sq (''INSERT OR IGNORE INTO Object (name) VALUES ('' @ [apos] @ n @ [apos] @ '');'') (Some db) = (0, Some db1)"
      "view db1 = table_of (Insert_object n) (view db)"
    by (rule status_table [OF parse_insert_object [OF assms(1)], of db, unfolded ok1]) (simp only: refl if_True)
  let ?t = "view db1"
  have n: "n \<in> snd ` set (t_object ?t)" using assms(3) by (auto simp: d1(2) table_of_def)
  have ok: "tables_ok ?t" using table_of_ok assms(2) d1(2) by simp
  note o = object_id_mem [OF ok n]
  have e: "eval_stmt (Select_object n) ?t = (SQLITE_OK, [[id_cell (object_id n ?t)]], ?t)" using o(4) by simp
  obtain rows' db2 where d2: "mset rows' = mset [[id_cell (object_id n ?t)]]" "view db2 = ?t"
    "exec_select sq False (''SELECT id FROM Object WHERE name ='' @ [apos] @ n @ [apos] @ '';'')
       (\<lambda>r stored. rbind (id_columns r stored) (\<lambda>stored'. Inr (0, stored'))) None (Some db1) =
     rbind (deliver (\<lambda>r stored. rbind (id_columns r stored) (\<lambda>stored'. Inr (0, stored'))) rows' None)
       (\<lambda>(aborted, data'). Inr (if aborted \<and> \<not> False then - 1 else 0, data', Some db2))"
    using select_law [OF parse_select_object [OF assms(1)] e] .
  have "rows' = [[id_cell (object_id n ?t)]]" using d2(1) by simp
  then have "db_object_table_add sq n (Some db) = Inr (0, Some (object_id n (view db2)), Some db2)"
    unfolding db_object_table_add_def d1(1) prod.case d2(3)
    using d2(2) o(2,3) stoll_int_to_string [of "object_id n ?t"] MAX_ROWID_less by (simp add: id_cell_def cell_stoll_def)
  with that d1(2) d2(2) n show ?thesis by simp
qed

lemma photo_object_add:
  obtains db' where "snd (db_photo_object_table_add sq i j (Some db)) = Some db'" "view db' = table_of (Insert_photo_object i j) (view db)"
  by (rule status_table [OF parse_insert_photo_object [of i j], of db]) (simp only: db_photo_object_table_add_def snd_conv)

lemma photo_person_add:
  obtains db' where "snd (db_photo_person_table_add sq i j (Some db)) = Some db'" "view db' = table_of (Insert_photo_person i j) (view db)"
  by (rule status_table [OF parse_insert_photo_person [of i j], of db]) (simp only: db_photo_person_table_add_def snd_conv)

lemma person_add:
  obtains stored db' where "db_person_table_add sq v (Some db) = (if n_person (view db) < MAX_ROWID then 0 else - 1, stored, Some db')"
    "view db' = snd (eval_insert_person v (view db))"
proof -
  obtain rc db' where s: "sq_step_blob sq insert_person v db = (rc, db')" by (cases "sq_step_blob sq insert_person v db")
  have "rc \<noteq> SQLITE_DONE \<longleftrightarrow> \<not> n_person (view db) < MAX_ROWID"
    using blob_law [OF s] by (auto simp: eval_insert_person_def SQLITE_DONE_def SQLITE_FULL_def split: if_splits)
  then show ?thesis using that s prepare_law blob_law [OF s] by (auto simp: db_person_table_add_def)
qed

lemma transaction:
  obtains db' where "snd (db_transaction_begin sq (Some db)) = Some db'" "view db' = table_of Begin (view db)"
  by (rule status_table [OF parse_begin, of db]) (simp only: db_transaction_begin_def snd_conv)

lemma transaction_ends:
  obtains db' where "snd (db_transaction_end sq (Some db)) = Some db'" "view db' = table_of End_txn (view db)"
  by (rule status_table [OF parse_end, of db]) (simp only: db_transaction_end_def snd_conv)

end

section \<open>An interpreter of the statements\<close>

definition empty_tables :: tables where
  "empty_tables = \<lparr>t_changed = [], t_photo = [], t_object = [], t_photo_object = [], t_person = [], t_photo_person = [],
     n_changed = 0, n_photo = 0, n_object = 0, n_photo_object = 0, n_person = 0, n_photo_person = 0, t_last = 0, t_open = False\<rparr>"

definition sql_interpreter :: "tables sqlite" where
  "sql_interpreter =
     \<lparr>sq_open = (\<lambda>_. (SQLITE_OK, empty_tables)), sq_close = (\<lambda>_. SQLITE_OK),
      sq_exec = (\<lambda>s t. if s = create_tables then (SQLITE_OK, [], t)
         else (case parse_stmt s of None \<Rightarrow> (SQLITE_ERROR, [], t) | Some st \<Rightarrow> eval_stmt st t)),
      sq_prepare = (\<lambda>_ _. SQLITE_OK), sq_step_blob = (\<lambda>_ v t. eval_insert_person v t), sq_last_insert_rowid = t_last\<rparr>"

lemma parse_with_None: "\<forall>pf \<in> set g. match_pieces (fst pf) s = None \<Longrightarrow> parse_with g s = None"
  by (induction g) auto

lemma create_tables_apart: "list_all (\<lambda>l. apart l create_tables) first_literals"
  by code_simp

lemma parse_create_tables: "parse_stmt create_tables = None"
  unfolding parse_stmt_def
proof (rule parse_with_None, rule ballI)
  fix pf
  assume "pf \<in> set grammar"
  then have "apart (first_literal (fst pf)) create_tables"
    using create_tables_apart by (simp add: first_literals_def list_all_iff)
  then show "match_pieces (fst pf) create_tables = None"
    using match_first_literal [of "fst pf" create_tables] apart_take [of "first_literal (fst pf)" create_tables create_tables]
    by (cases "match_pieces (fst pf) create_tables") auto
qed

interpretation interpreter: photo_db sql_interpreter "\<lambda>t. t"
proof
  show "rc = rc' \<and> mset rows = mset rows' \<and> db' = t"
    if "parse_stmt s = Some st" "sq_exec sql_interpreter s db = (rc, rows, db')" "eval_stmt st db = (rc', rows', t)"
    for s st db rc rows db' rc' rows' t
  proof -
    have "s \<noteq> create_tables" using that(1) parse_create_tables by auto
    with that show ?thesis by (simp add: sql_interpreter_def)
  qed
qed (simp_all add: sql_interpreter_def)

lemma empty_tables_ok: "tables_ok empty_tables"
  by (simp add: tables_ok_def empty_tables_def MAX_ROWID_def)

section \<open>What is linked to a photo\<close>

definition linked_names :: "int \<Rightarrow> tables \<Rightarrow> string set" where
  "linked_names i t = {n. \<exists>k j. (k, i, j) \<in> set (t_photo_object t) \<and> (j, n) \<in> set (t_object t)}"

definition link_object :: "int \<Rightarrow> string \<Rightarrow> tables \<Rightarrow> tables" where
  "link_object i n t = (let u = table_of (Insert_object n) t in table_of (Insert_photo_object i (object_id n u)) u)"

definition link_objects :: "int \<Rightarrow> string list \<Rightarrow> tables \<Rightarrow> tables" where
  "link_objects i ns t = foldl (\<lambda>u n. link_object i n u) t ns"

lemma same_object:
  assumes "tables_ok t" "(j, n) \<in> set (t_object t)" "(j, n') \<in> set (t_object t)"
  shows "n' = n"
  using assms unfolding tables_ok_def numbered_def by (metis (no_types) eq_key_imp_eq_value)

lemma insert_object_frame:
  "t_photo (table_of (Insert_object n) t) = t_photo t" "t_changed (table_of (Insert_object n) t) = t_changed t"
  "t_person (table_of (Insert_object n) t) = t_person t" "t_photo_object (table_of (Insert_object n) t) = t_photo_object t"
  "n_photo (table_of (Insert_object n) t) = n_photo t" "n_photo_object (table_of (Insert_object n) t) = n_photo_object t"
  "t_photo_person (table_of (Insert_object n) t) = t_photo_person t"
  "n_object (table_of (Insert_object n) t) \<le> n_object t + 1"
  "set (t_object t) \<subseteq> set (t_object (table_of (Insert_object n) t))"
  by (auto simp: table_of_def)

lemma insert_link_frame:
  "t_photo (table_of (Insert_photo_object i j) t) = t_photo t" "t_changed (table_of (Insert_photo_object i j) t) = t_changed t"
  "t_person (table_of (Insert_photo_object i j) t) = t_person t" "t_object (table_of (Insert_photo_object i j) t) = t_object t"
  "n_photo (table_of (Insert_photo_object i j) t) = n_photo t" "n_object (table_of (Insert_photo_object i j) t) = n_object t"
  "t_photo_person (table_of (Insert_photo_object i j) t) = t_photo_person t"
  "n_photo_object (table_of (Insert_photo_object i j) t) \<le> n_photo_object t + 1"
  by (auto simp: table_of_def)

lemma link_object_frame:
  "t_photo (link_object i n t) = t_photo t" "t_changed (link_object i n t) = t_changed t"
  "t_person (link_object i n t) = t_person t" "n_photo (link_object i n t) = n_photo t"
  "t_photo_person (link_object i n t) = t_photo_person t"
  "n_object (link_object i n t) \<le> n_object t + 1" "n_photo_object (link_object i n t) \<le> n_photo_object t + 1"
  using insert_object_frame [where n = n and t = t] insert_link_frame [where i = i and t = "table_of (Insert_object n) t"]
  by (auto simp: link_object_def Let_def)

lemma link_object_ok: "tables_ok t \<Longrightarrow> tables_ok (link_object i n t)"
  by (simp add: link_object_def Let_def table_of_ok)

lemma linked_names_new_object:
  assumes "tables_ok t"
  shows "linked_names i (table_of (Insert_object n) t) = linked_names i t"
proof (cases "n \<in> snd ` set (t_object t) \<or> n_object t \<ge> MAX_ROWID")
  case False
  then have u: "table_of (Insert_object n) t = t\<lparr>t_object := t_object t @ [(n_object t + 1, n)], n_object := n_object t + 1, t_last := n_object t + 1\<rparr>"
    by (simp add: table_of_def)
  have "j \<noteq> n_object t + 1" if "(k, i, j) \<in> set (t_photo_object t)" for k j
    using assms that unfolding tables_ok_def refers_def numbered_def by fastforce
  then show ?thesis unfolding linked_names_def u by auto
qed (auto simp: table_of_def)

lemma linked_names_link:
  assumes "tables_ok t" "i \<in> fst ` set (t_photo t)" "n_object t < MAX_ROWID" "n_photo_object t < MAX_ROWID"
  shows "linked_names i (link_object i n t) = insert n (linked_names i t)"
proof -
  define u where "u = table_of (Insert_object n) t"
  have ok: "tables_ok u" unfolding u_def by (rule table_of_ok [OF assms(1)])
  have "n \<in> snd ` set (t_object u)" using assms(3) by (auto simp: u_def table_of_def)
  note o = object_id_mem [OF ok this]
  have fr: "t_photo u = t_photo t" "n_photo_object u = n_photo_object t" unfolding u_def by (rule insert_object_frame)+
  have oi: "object_id n u \<in> fst ` set (t_object u)" using o(1) by force
  have "table_of (Insert_photo_object i (object_id n u)) u =
      u\<lparr>t_photo_object := t_photo_object u @ [(n_photo_object u + 1, i, object_id n u)],
        n_photo_object := n_photo_object u + 1, t_last := n_photo_object u + 1\<rparr>"
    using oi assms(2,4) fr by (simp add: table_of_def)
  then have "linked_names i (link_object i n t) = {m. (object_id n u, m) \<in> set (t_object u)} \<union> linked_names i u"
    by (auto simp: link_object_def u_def [symmetric] linked_names_def)
  also have "{m. (object_id n u, m) \<in> set (t_object u)} = {n}" using same_object [OF ok o(1)] o(1) by auto
  finally show ?thesis using linked_names_new_object [OF assms(1)] by (simp add: u_def)
qed

lemma link_objects_frame:
  "t_photo (link_objects i ns t) = t_photo t" "t_changed (link_objects i ns t) = t_changed t"
  "t_person (link_objects i ns t) = t_person t" "n_photo (link_objects i ns t) = n_photo t"
  "t_photo_person (link_objects i ns t) = t_photo_person t"
  by (induction ns arbitrary: t) (simp_all add: link_objects_def link_object_frame)

lemma link_objects_ok: "tables_ok t \<Longrightarrow> tables_ok (link_objects i ns t)"
  by (induction ns arbitrary: t) (simp_all add: link_objects_def link_object_ok)

lemma link_objects_counts: "n_object (link_objects i ns t) \<le> n_object t + int (length ns)"
proof (induction ns arbitrary: t)
  case (Cons n ns)
  from Cons.IH [of "link_object i n t"] link_object_frame(6) [of i n t] show ?case by (simp add: link_objects_def)
qed (simp add: link_objects_def)

lemma linked_names_objects:
  assumes "tables_ok t" "i \<in> fst ` set (t_photo t)" "n_object t + int (length ns) \<le> MAX_ROWID" "n_photo_object t + int (length ns) \<le> MAX_ROWID"
  shows "linked_names i (link_objects i ns t) = set ns \<union> linked_names i t"
  using assms
proof (induction ns arbitrary: t)
  case (Cons n ns)
  let ?u = "link_object i n t"
  have "linked_names i (link_objects i ns ?u) = set ns \<union> linked_names i ?u"
    using Cons.prems link_object_frame [of i n t] by (intro Cons.IH) (auto simp: link_object_ok)
  with linked_names_link [of t i n] Cons.prems show ?case by (simp add: link_objects_def)
qed (simp add: link_objects_def)

lemma put_photo_ok: "tables_ok t \<Longrightarrow> n_photo t < MAX_ROWID \<Longrightarrow> tables_ok (put_photo p t)"
  using without_photo_ok [of t p] by (auto simp: put_photo_def Let_def tables_ok_def without_photo_def)

lemma put_photo_new:
  assumes "tables_ok t"
  shows "linked_names (n_photo t + 1) (put_photo p t) = {}"
proof -
  have "j \<noteq> n_photo t + 1" if "(k, j, m) \<in> set (t_photo_object t)" for k j m
    using assms that unfolding tables_ok_def refers_def numbered_def by fastforce
  then show ?thesis by (auto simp: linked_names_def put_photo_def without_photo_def Let_def)
qed

text \<open>What is linked to another photo stays.\<close>

lemma linked_names_other:
  assumes "tables_ok t" "j \<noteq> i"
  shows "linked_names i (link_object j n t) = linked_names i t"
proof -
  have "linked_names i (table_of (Insert_photo_object j k) u) = linked_names i u" for k u
    using assms(2) by (auto simp: linked_names_def table_of_def)
  then show ?thesis using linked_names_new_object [OF assms(1)] by (simp add: link_object_def Let_def)
qed

lemma link_objects_other: "tables_ok t \<Longrightarrow> j \<noteq> i \<Longrightarrow> linked_names i (link_objects j ns t) = linked_names i t"
proof (induction ns arbitrary: t)
  case (Cons n ns)
  then have "linked_names i (link_objects j ns (link_object j n t)) = linked_names i (link_object j n t)" by (simp add: link_object_ok)
  with linked_names_other [of t j i n] Cons.prems show ?case by (simp add: link_objects_def)
qed (simp add: link_objects_def)

lemma link_objects_links: "n_photo_object (link_objects i ns t) \<le> n_photo_object t + int (length ns)"
proof (induction ns arbitrary: t)
  case (Cons n ns)
  from Cons.IH [of "link_object i n t"] link_object_frame(7) [of i n t] show ?case by (simp add: link_objects_def)
qed (simp add: link_objects_def)

lemma put_photo_other:
  assumes "tables_ok t" "(i, q) \<in> set (t_photo t)" "q \<noteq> p"
  shows "(i, q) \<in> set (t_photo (put_photo p t))" "linked_names i (put_photo p t) = linked_names i t" "i \<noteq> n_photo t + 1"
proof -
  have "(i, p) \<notin> set (t_photo t)"
    using assms unfolding tables_ok_def numbered_def by (metis (no_types) eq_key_imp_eq_value)
  then have "i \<notin> fst ` {r \<in> set (t_photo t). snd r = p}" by auto
  then show "linked_names i (put_photo p t) = linked_names i t"
    by (auto simp: linked_names_def put_photo_def without_photo_def Let_def)
  show "(i, q) \<in> set (t_photo (put_photo p t))" using assms by (simp add: put_photo_def without_photo_def Let_def)
  show "i \<noteq> n_photo t + 1" using assms(1,2) unfolding tables_ok_def numbered_def by fastforce
qed

end
