(* ===== verification/SmartPhoto.thy ===== *)
theory SmartPhoto
  imports SmartPhotoDb
begin

text \<open>
  The photo library, \<^verbatim>\<open>smart-photo/smart_photo.cpp\<close>: files are entered into a table of changed photos,
  a thread takes them from there, asks the inference runtime for faces and for classes of things, and
  records both in the database; the other functions query it. The functions that lock the mutex for
  their whole run are functions of the state; the thread, which gives the mutex up while it infers, is
  a step function, and its steps interleave with the calls of others. OpenCV, the
  file system and SQLite are parameters.
\<close>

section \<open>Parameters and state\<close>

type_synonym rect = "int \<times> int \<times> int \<times> int"

record 'img photo_lib = "'img cv_lib" +
  cv_imread :: "string \<Rightarrow> 'img"
  rect_and :: "rect \<Rightarrow> rect \<Rightarrow> rect"
  mat_crop :: "'img \<Rightarrow> rect \<Rightarrow> 'img"
  mat_dot :: "cfloat list \<Rightarrow> cfloat list \<Rightarrow> cfloat"
  c_sqrt :: "cfloat \<Rightarrow> cfloat"
  label_file :: "string option"
  c_realpath :: "string \<Rightarrow> string option"

text \<open>An entry of a directory: its name, \<^verbatim>\<open>d_type\<close>, and its entries if it can be opened.\<close>

datatype dir_entry = Dir_entry string nat "dir_entry list option"

text \<open>
  The field \<open>photos_gen\<close> counts the changes of the vector \<^verbatim>\<open>changed_photos\<close>: an iterator into it is valid
  as long as the number is the one at which it was made.
\<close>

record ('img, 'db, 'w) smart_photo =
  sp_db :: "'db option"
  changed_photos :: "string list"
  photos_gen :: nat
  scan_runing :: bool
  sp_labels :: "string list"
  sp_irt :: "('img, 'w) irt_state"

definition FACE_DETECTION_MODEL :: string where
  "FACE_DETECTION_MODEL = ''/opt/fcgi/cgi-bin/models/face-detection-adas-0001.xml''"

definition FACE_REIDENTIFICATION_MODEL :: string where
  "FACE_REIDENTIFICATION_MODEL = ''/opt/fcgi/cgi-bin/models/face-recognition-resnet100-arcface-onnx.xml''"

definition HEAD_POSE_MODEL :: string where
  "HEAD_POSE_MODEL = ''/opt/fcgi/cgi-bin/models/head-pose-estimation-adas-0001.xml''"

definition SEGMENTATION_MODEL :: string where
  "SEGMENTATION_MODEL = ''/opt/fcgi/cgi-bin/models/hrnet-v2-c1-segmentation.xml''"

section \<open>Entering and removing files\<close>

definition ccai_sp_init :: "'db sqlite \<Rightarrow> string \<Rightarrow> ('img, 'w) irt_state \<Rightarrow> int \<times> ('img, 'db, 'w) smart_photo option" where
  "ccai_sp_init sq db_path irt =
     (case db_init sq db_path of (rc, h) \<Rightarrow>
        if rc \<noteq> 0 then (rc, None)
        else (0, Some \<lparr>sp_db = h, changed_photos = [], photos_gen = 0, scan_runing = False, sp_labels = [], sp_irt = irt\<rparr>))"

definition add_photo :: "'db sqlite \<Rightarrow> 'img photo_lib \<Rightarrow> string \<Rightarrow> 'db option \<Rightarrow> int \<times> 'db option" where
  "add_photo sq lib path h =
     (case c_realpath lib path of
        None \<Rightarrow> (- 1, h)
      | Some pp \<Rightarrow> (case db_changed_table_add sq pp h of (r, h') \<Rightarrow> (if r \<noteq> 0 then - 1 else 0, h')))"

definition DT_DIR :: nat where
  "DT_DIR = 4"

text \<open>\<^verbatim>\<open>de->d_type & DT_DIR\<close>, the third bit of the type.\<close>

definition is_dir :: "nat \<Rightarrow> bool" where
  "is_dir d_type \<longleftrightarrow> d_type div DT_DIR mod 2 = 1"

fun add_dir :: "'db sqlite \<Rightarrow> 'img photo_lib \<Rightarrow> string \<Rightarrow> dir_entry list option \<Rightarrow> 'db option \<Rightarrow> int \<times> 'db option"
  and add_entries :: "'db sqlite \<Rightarrow> 'img photo_lib \<Rightarrow> string \<Rightarrow> dir_entry list \<Rightarrow> int \<Rightarrow> 'db option \<Rightarrow> int \<times> 'db option" where
  "add_dir sq lib dir None h = (- 1, h)"
| "add_dir sq lib dir (Some des) h = add_entries sq lib dir des 0 h"
| "add_entries sq lib dir [] r h = (r, h)"
| "add_entries sq lib dir (Dir_entry d_name d_type sub # des) r h =
     (if d_name = ''.'' \<or> d_name = ''..'' then add_entries sq lib dir des r h
      else
        (let p = dir @ ''/'' @ d_name
         in case (if is_dir d_type then add_dir sq lib p sub h else add_photo sq lib p h) of
              (k, h') \<Rightarrow> add_entries sq lib dir des (if k \<noteq> 0 then - 1 else r) h'))"

type_synonym ('img, 'db, 'w) sp_handle = "('img, 'db, 'w) smart_photo option"

text \<open>A function that locks the mutex and works on the database.\<close>

definition on_db ::
  "('db option \<Rightarrow> int \<times> 'db option) \<Rightarrow> ('img, 'db, 'w) sp_handle \<Rightarrow> int \<times> ('img, 'db, 'w) sp_handle" where
  "on_db f s = (case s of None \<Rightarrow> (- 1, None) | Some sp \<Rightarrow> (case f (sp_db sp) of (r, h) \<Rightarrow> (r, Some (sp\<lparr>sp_db := h\<rparr>))))"

definition ccai_sp_add_dir ::
  "'db sqlite \<Rightarrow> 'img photo_lib \<Rightarrow> string \<Rightarrow> dir_entry list option \<Rightarrow> ('img, 'db, 'w) sp_handle \<Rightarrow> int \<times> ('img, 'db, 'w) sp_handle" where
  "ccai_sp_add_dir sq lib dir des =
     on_db (\<lambda>h. case add_dir sq lib dir des (snd (db_transaction_begin sq h)) of (r, h') \<Rightarrow> (r, snd (db_transaction_end sq h')))"

definition ccai_sp_add_file ::
  "'db sqlite \<Rightarrow> 'img photo_lib \<Rightarrow> string \<Rightarrow> ('img, 'db, 'w) sp_handle \<Rightarrow> int \<times> ('img, 'db, 'w) sp_handle" where
  "ccai_sp_add_file sq lib path = on_db (add_photo sq lib path)"

definition ccai_sp_remove_file :: "'db sqlite \<Rightarrow> string \<Rightarrow> ('img, 'db, 'w) sp_handle \<Rightarrow> int \<times> ('img, 'db, 'w) sp_handle" where
  "ccai_sp_remove_file sq path = on_db (db_photo_table_remove sq path)"

definition ccai_sp_remove_all_file :: "'db sqlite \<Rightarrow> ('img, 'db, 'w) sp_handle \<Rightarrow> int \<times> ('img, 'db, 'w) sp_handle" where
  "ccai_sp_remove_all_file sq = on_db (db_photo_table_remove_all sq)"

definition ccai_sp_move_file :: "'db sqlite \<Rightarrow> string \<Rightarrow> string \<Rightarrow> ('img, 'db, 'w) sp_handle \<Rightarrow> int \<times> ('img, 'db, 'w) sp_handle" where
  "ccai_sp_move_file sq from_path to_path = on_db (db_photo_table_move sq from_path to_path)"

section \<open>Faces\<close>

text \<open>The call into the runtime with as many vectors for results as were pushed.\<close>

definition infer ::
  "'img photo_lib \<Rightarrow> ('img, 'w) irt_env \<Rightarrow> 'img \<Rightarrow> string \<Rightarrow> nat \<Rightarrow> ('img, 'w) irt_state \<Rightarrow> (int \<times> floats \<times> ('img, 'w) irt_state) result" where
  "infer lib env img model n st =
     (if mat_empty lib img then Inr (- 1, replicate n [], st)
      else
        rbind (vino_ie_pipeline_infer_images env [img] ([], replicate n []) model
            \<lparr>url = ''https://api.ai.qq.com/fcgi-bin/image/image_tag'', urlParam = [], response = []\<rparr> st)
          (\<lambda>(rc, (_, r), _, st'). Inr (if rc \<noteq> 0 then - 1 else 0, r, st')))"

definition cf_floor :: "cfloat \<Rightarrow> cfloat" where
  "cf_floor x = (case x of Fin r \<Rightarrow> Fin (of_int \<lfloor>r\<rfloor>) | _ \<Rightarrow> x)"

definition face_rect :: "cfloat \<Rightarrow> cfloat \<Rightarrow> cfloat list \<Rightarrow> rect result" where
  "face_rect img_w img_h row =
     (let fx1 = f32_mul (row ! 3) img_w; fy1 = f32_mul (row ! 4) img_h;
          fx2 = f32_mul (row ! 5) img_w; fy2 = f32_mul (row ! 6) img_h;
          center_x = f32_div (f32_add fx1 fx2) (Fin 2); center_y = f32_div (f32_add fy1 fy2) (Fin 2);
          side = f32_of_f64 (f64_mul (cf_max (f32_sub fx2 fx1) (f32_sub fy2 fy1)) (f64_round (12 / 10)))
      in rbind (float_to_int (cf_floor (f32_sub center_x (f32_div side (Fin 2))))) (\<lambda>x.
         rbind (float_to_int (cf_floor (f32_sub center_y (f32_div side (Fin 2))))) (\<lambda>y.
         rbind (float_to_int (cf_floor side)) (\<lambda>s. Inr (x, y, s, s)))))"

fun detections_loop :: "nat \<Rightarrow> cfloat \<Rightarrow> cfloat \<Rightarrow> cfloat list \<Rightarrow> (rect \<Rightarrow> 'a \<Rightarrow> 'a result) \<Rightarrow> 'a \<Rightarrow> 'a result" where
  "detections_loop 0 img_w img_h detections callback a = Inr a"
| "detections_loop (Suc n) img_w img_h detections callback a =
     (if cf_less (detections ! 0) (Fin 0) then Inr a
      else if cf_less (detections ! 2) (f64_round (8 / 10)) then detections_loop n img_w img_h (drop 7 detections) callback a
      else
        rbind (face_rect img_w img_h (take 7 detections)) (\<lambda>r.
        rbind (callback r a) (detections_loop n img_w img_h (drop 7 detections) callback)))"

text \<open>The accumulator of the callback holds the vectors found so far and the state of the runtime.\<close>

definition face_detection_ex ::
  "'img photo_lib \<Rightarrow> ('img, 'w) irt_env \<Rightarrow> 'img \<Rightarrow> (rect \<Rightarrow> floats \<times> ('img, 'w) irt_state \<Rightarrow> (floats \<times> ('img, 'w) irt_state) result) \<Rightarrow>
     ('img, 'w) irt_state \<Rightarrow> (int \<times> floats \<times> ('img, 'w) irt_state) result" where
  "face_detection_ex lib env img callback st =
     rbind (infer lib env img FACE_DETECTION_MODEL 1 st) (\<lambda>(rc, r, st1).
       if rc = RT_INFER_ERROR \<or> rc = RT_REMOTE_INFER_OK then Inr (- 1, [], st1)
       else
         rbind (vec_at r 0) (\<lambda>detections.
           if length detections \<noteq> 7 * 200 then Inr (- 1, [], st1)
           else
             rbind (detections_loop 200 (f32_round (of_int (mat_cols lib img))) (f32_round (of_int (mat_rows lib img)))
                      detections callback ([], st1))
               (\<lambda>(vs, st2). Inr (0, vs, st2))))"

fun cf_abs :: "cfloat \<Rightarrow> cfloat" where
  "cf_abs (Fin x) = Fin \<bar>x\<bar>"
| "cf_abs (Inf s) = Inf False"
| "cf_abs NaN = NaN"

definition ignore_face ::
  "'img photo_lib \<Rightarrow> ('img, 'w) irt_env \<Rightarrow> 'img \<Rightarrow> ('img, 'w) irt_state \<Rightarrow> (bool \<times> ('img, 'w) irt_state) result" where
  "ignore_face lib env face_img st =
     rbind (infer lib env face_img HEAD_POSE_MODEL 3 st) (\<lambda>(rc, r, st1).
       if rc \<noteq> RT_LOCAL_INFER_OK then Inr (True, st1)
       else
         rbind (vec_at r 0) (\<lambda>pitch. rbind (vec_at r 1) (\<lambda>roll. rbind (vec_at r 2) (\<lambda>yaw.
           Inr (if length yaw \<noteq> 1 \<or> length pitch \<noteq> 1 \<or> length roll \<noteq> 1 then True
                else cf_less (Fin 30) (cf_abs (yaw ! 0)) \<or> cf_less (Fin 30) (cf_abs (pitch ! 0)), st1)))))"

definition face_callback ::
  "'img photo_lib \<Rightarrow> ('img, 'w) irt_env \<Rightarrow> 'img \<Rightarrow> rect \<Rightarrow> floats \<times> ('img, 'w) irt_state \<Rightarrow> (floats \<times> ('img, 'w) irt_state) result" where
  "face_callback lib env img r a =
     (let img_w = mat_cols lib img; img_h = mat_rows lib img; clipped_size = rect_and lib r (0, 0, img_w, img_h)
      in case clipped_size of (x, y, width, height) \<Rightarrow>
           if cf_less (f32_div (f32_round (of_int width)) (f32_round (of_int img_w))) (f64_round (1 / 10)) \<or>
              cf_less (f32_div (f32_round (of_int height)) (f32_round (of_int img_h))) (f64_round (1 / 10))
           then Inr a
           else
             (let face_img = mat_crop lib img clipped_size
              in rbind (ignore_face lib env face_img (snd a)) (\<lambda>(ignored, st1).
                   if ignored then Inr (fst a, st1)
                   else
                     rbind (infer lib env face_img FACE_REIDENTIFICATION_MODEL 1 st1) (\<lambda>(rc, r, st2).
                       if rc \<noteq> RT_LOCAL_INFER_OK then Inr (fst a, st2)
                       else rbind (vec_at r 0) (\<lambda>detections. Inr (fst a @ [detections], st2))))))"

definition sp_face_detection ::
  "'img photo_lib \<Rightarrow> ('img, 'w) irt_env \<Rightarrow> 'img \<Rightarrow> ('img, 'w) irt_state \<Rightarrow> (int \<times> floats \<times> ('img, 'w) irt_state) result" where
  "sp_face_detection lib env img st = face_detection_ex lib env img (face_callback lib env img) st"

section \<open>Classes\<close>

definition read_lable_file :: "'img photo_lib \<Rightarrow> string list \<Rightarrow> int \<times> string list" where
  "read_lable_file lib labels = (case label_file lib of None \<Rightarrow> (- 1, labels) | Some f \<Rightarrow> (0, labels @ lines_of f))"

definition SEG_C :: nat where
  "SEG_C = 150"

definition SEG_H :: nat where
  "SEG_H = 320"

definition SEG_W :: nat where
  "SEG_W = 320"

text \<open>The class with the highest positive value at a position: the value and the class so far, the classes to look at.\<close>

fun best_class :: "cfloat list \<Rightarrow> nat \<Rightarrow> nat list \<Rightarrow> cfloat \<Rightarrow> nat option \<Rightarrow> cfloat \<times> nat option" where
  "best_class detection pos [] probability clss = (probability, clss)"
| "best_class detection pos (i # is) probability clss =
     (let val = detection ! (i * (SEG_H * SEG_W) + pos)
      in if cf_less probability val then best_class detection pos is val (Some i)
         else best_class detection pos is probability clss)"

text \<open>
  The loop over the positions, with \<^verbatim>\<open>marker_ids\<close> and \<^verbatim>\<open>marker_counts\<close>. Without a class (the index -1) the
  value is 0 and not above the threshold.
\<close>

fun markers_loop ::
  "cfloat list \<Rightarrow> string list \<Rightarrow> nat list \<Rightarrow> (nat \<rightharpoonup> string) \<Rightarrow> nat list \<Rightarrow> ((nat \<rightharpoonup> string) \<times> nat list) result" where
  "markers_loop detection labels [] marker_ids marker_counts = Inr (marker_ids, marker_counts)"
| "markers_loop detection labels (pos # ps) marker_ids marker_counts =
     (case best_class detection pos [0..<SEG_C] (Fin 0) None of
        (probability, clss) \<Rightarrow>
          if cf_less (f64_round (9 / 10)) probability
          then (case clss of
                  None \<Rightarrow> Inl Undefined
                | Some k \<Rightarrow>
                    rbind (vec_at labels k) (\<lambda>l.
                      markers_loop detection labels ps (marker_ids(k \<mapsto> l)) (marker_counts[k := marker_counts ! k + 1])))
          else markers_loop detection labels ps marker_ids marker_counts)"

text \<open>The loop over the map, whose keys come in ascending order.\<close>

definition frequent_markers :: "(nat \<rightharpoonup> string) \<Rightarrow> nat list \<Rightarrow> string list" where
  "frequent_markers marker_ids marker_counts =
     [l. k \<leftarrow> [0..<SEG_C], l \<leftarrow> (case marker_ids k of None \<Rightarrow> [] | Some l \<Rightarrow> [l]),
        \<not> cf_less (Fin (of_nat (marker_counts ! k))) (f64_mul (Fin (of_nat (SEG_H * SEG_W))) (f64_round (6 / 100)))]"

definition sp_segmentation ::
  "'img photo_lib \<Rightarrow> ('img, 'w) irt_env \<Rightarrow> 'img \<Rightarrow> string list \<Rightarrow> ('img, 'w) irt_state \<Rightarrow>
     (int \<times> string list \<times> string list \<times> ('img, 'w) irt_state) result" where
  "sp_segmentation lib env img labels st =
     (case (if labels = [] then read_lable_file lib labels else (0, labels)) of (r, labels') \<Rightarrow>
        if r \<noteq> 0 then Inr (- 1, [], labels', st)
        else
          rbind (infer lib env img SEGMENTATION_MODEL 1 st) (\<lambda>(rc, raw, st1).
            if rc = RT_INFER_ERROR \<or> rc = RT_REMOTE_INFER_OK then Inr (- 1, [], labels', st1)
            else
              rbind (vec_at raw 0) (\<lambda>detection.
                if length detection \<noteq> SEG_C * SEG_H * SEG_W then Inr (- 1, [], labels', st1)
                else
                  rbind (markers_loop detection labels' [0..<SEG_H * SEG_W] Map.empty (replicate SEG_C 0))
                    (\<lambda>(marker_ids, marker_counts). Inr (0, frequent_markers marker_ids marker_counts, labels', st1)))))"

section \<open>Persons\<close>

fun f64_div :: "cfloat \<Rightarrow> cfloat \<Rightarrow> cfloat" where
  "f64_div NaN y = NaN"
| "f64_div x NaN = NaN"
| "f64_div (Fin a) (Fin b) = (if b = 0 then (if a = 0 then NaN else Inf (a < 0)) else f64_round (a / b))"
| "f64_div (Fin a) (Inf t) = Fin 0"
| "f64_div (Inf s) (Fin b) = Inf (s \<noteq> (b < 0))"
| "f64_div (Inf s) (Inf t) = NaN"

text \<open>Vectors as matrices with one column; the second component is what was stored through \<^verbatim>\<open>dist\<close>.\<close>

definition cos_distance :: "'img photo_lib \<Rightarrow> cfloat list \<Rightarrow> cfloat list \<Rightarrow> int \<times> cfloat option" where
  "cos_distance lib descr1 descr2 =
     (if descr1 = [] then (- 1, None)
      else if descr2 = [] then (- 1, None)
      else if length descr1 \<noteq> length descr2 then (- 1, None)
      else
        (let xy = mat_dot lib descr1 descr2; xx = mat_dot lib descr1 descr1; yy = mat_dot lib descr2 descr2;
             norm = f64_add (c_sqrt lib (f64_mul xx yy)) (f64_round (1 / 1000000))
         in (0, Some (f32_mul (Fin (1 / 2)) (f32_of_f64 (f64_sub (Fin 1) (f64_div xy norm)))))))"

text \<open>
  The columns of a row: the number and the 512 floats that are copied from the block. Reading past the
  end of the block has no meaning, nor has comparing with floats that were never written.
\<close>

fun face_columns :: "row \<Rightarrow> int \<Rightarrow> cfloat list option \<Rightarrow> (int \<times> cfloat list option) result" where
  "face_columns [] n em = Inr (n, em)"
| "face_columns ((col, v) # r) n em =
     (if v = Null_cell then face_columns r n em
      else if col = ''id'' then rbind (cell_stoll v) (\<lambda>n'. face_columns r n' em)
      else if col = ''face_embeddings''
      then (case v of
              Blob_cell fs \<Rightarrow> if length fs < 512 then Inl Undefined else face_columns r n (Some (take 512 fs))
            | _ \<Rightarrow> Inl Undefined)
      else face_columns r n em)"

definition person_for_each_callback :: "'img photo_lib \<Rightarrow> cfloat list \<Rightarrow> row \<Rightarrow> int list \<Rightarrow> (int \<times> int list) result" where
  "person_for_each_callback lib m r ids =
     rbind (face_columns r 0 None) (\<lambda>(n, em).
       (case em of
          None \<Rightarrow> Inl Undefined
        | Some e \<Rightarrow>
            (case cos_distance lib m e of
               (_, None) \<Rightarrow> Inl Undefined
             | (_, Some distance) \<Rightarrow> Inr (0, if cf_less distance (Fin (1 / 4)) then ids @ [n] else ids))))"

text \<open>A C string ends at its first zero.\<close>

definition c_str :: "string \<Rightarrow> string" where
  "c_str s = takeWhile (\<lambda>c. c \<noteq> CHR 0x00) s"

text \<open>A number that was not stored is passed on: this has no meaning.\<close>

fun object_to_db :: "'db sqlite \<Rightarrow> int \<Rightarrow> string list \<Rightarrow> 'db option \<Rightarrow> 'db option result" where
  "object_to_db sq p_id [] h = Inr h"
| "object_to_db sq p_id (l # ls) h =
     rbind (db_object_table_add sq (c_str l) h) (\<lambda>(_, stored, h1).
       (case stored of
          None \<Rightarrow> Inl Undefined
        | Some i \<Rightarrow> object_to_db sq p_id ls (snd (db_photo_object_table_add sq p_id i h1))))"

fun link_persons :: "'db sqlite \<Rightarrow> int \<Rightarrow> int list \<Rightarrow> 'db option \<Rightarrow> 'db option" where
  "link_persons sq p_id [] h = h"
| "link_persons sq p_id (i # is) h = link_persons sq p_id is (snd (db_photo_person_table_add sq p_id i h))"

fun known_faces :: "'db sqlite \<Rightarrow> 'img photo_lib \<Rightarrow> int \<Rightarrow> floats \<Rightarrow> floats \<Rightarrow> 'db option \<Rightarrow> (floats \<times> 'db option) result" where
  "known_faces sq lib p_id [] new_persion_vs h = Inr (new_persion_vs, h)"
| "known_faces sq lib p_id (v # vs) new_persion_vs h =
     rbind (db_person_table_for_each_row sq (person_for_each_callback lib v) [] h) (\<lambda>(_, ids, h1).
       if ids \<noteq> [] then known_faces sq lib p_id vs new_persion_vs (link_persons sq p_id ids h1)
       else known_faces sq lib p_id vs (new_persion_vs @ [v]) h1)"

fun new_faces :: "'db sqlite \<Rightarrow> int \<Rightarrow> floats \<Rightarrow> 'db option \<Rightarrow> 'db option" where
  "new_faces sq p_id [] h = h"
| "new_faces sq p_id (v # vs) h =
     (case db_person_table_add sq v h of
        (_, stored, h1) \<Rightarrow>
          new_faces sq p_id vs (snd (db_photo_person_table_add sq p_id (case stored of None \<Rightarrow> 0 | Some i \<Rightarrow> i) h1)))"

definition face_id_to_db :: "'db sqlite \<Rightarrow> 'img photo_lib \<Rightarrow> int \<Rightarrow> floats \<Rightarrow> 'db option \<Rightarrow> 'db option result" where
  "face_id_to_db sq lib p_id vs h =
     rbind (known_faces sq lib p_id vs [] h) (\<lambda>(new_persion_vs, h1). Inr (new_faces sq p_id new_persion_vs h1))"

text \<open>What the thread and \<^verbatim>\<open>ccai_sp_scan_file_buffer\<close> do with the mutex locked after the inference.\<close>

definition record_photo :: "'db sqlite \<Rightarrow> 'img photo_lib \<Rightarrow> string \<Rightarrow> floats \<Rightarrow> string list \<Rightarrow> 'db option \<Rightarrow> 'db option result" where
  "record_photo sq lib p vs labels h =
     (case db_photo_table_add sq p (snd (db_changed_table_remove sq p h)) of
        (_, None, h1) \<Rightarrow> Inl Undefined
      | (_, Some p_id, h1) \<Rightarrow> rbind (object_to_db sq p_id labels h1) (face_id_to_db sq lib p_id vs))"

text \<open>Both inferences on one image; whether they succeed is not looked at.\<close>

definition analyse ::
  "'img photo_lib \<Rightarrow> ('img, 'w) irt_env \<Rightarrow> 'img \<Rightarrow> string list \<Rightarrow> ('img, 'w) irt_state \<Rightarrow>
     (floats \<times> string list \<times> string list \<times> ('img, 'w) irt_state) result" where
  "analyse lib env img known st =
     rbind (sp_face_detection lib env img st) (\<lambda>(_, vs, st1).
     rbind (sp_segmentation lib env img known st1) (\<lambda>(_, labels, known', st2). Inr (vs, labels, known', st2)))"

definition ccai_sp_scan_file_buffer ::
  "'db sqlite \<Rightarrow> 'img photo_lib \<Rightarrow> ('img, 'w) irt_env \<Rightarrow> string \<Rightarrow> u8 list \<Rightarrow> ('img, 'db, 'w) smart_photo \<Rightarrow>
     (int \<times> ('img, 'db, 'w) smart_photo) result" where
  "ccai_sp_scan_file_buffer sq lib env path buffer sp =
     (let img = imdecode lib buffer
      in if mat_empty lib img then Inr (- 1, sp)
         else
           rbind (analyse lib env img (sp_labels sp) (sp_irt sp)) (\<lambda>(vs, labels, sp_labels', st).
           rbind (record_photo sq lib path vs labels (sp_db sp)) (\<lambda>h.
             Inr (0, sp\<lparr>sp_db := h, sp_labels := sp_labels', sp_irt := st\<rparr>))))"

section \<open>The thread\<close>

text \<open>
  Where the thread is: before it locks the mutex; at the test of the outer loop; in the inner loop, which iterates over the shared
  vector, with the number of the vector's changes when the loop began and the elements between the iterators;
  inferring without the mutex; waiting for it with the results or with the
  photo that could not be loaded; ended. Advancing an iterator into a vector that was pushed to or cleared in the meantime is
  undefined; the photo itself is a copy.
\<close>

datatype scan_pc =
    At_start
  | At_test
  | At_photo nat "string list"
  | At_infer nat string "string list"
  | At_update nat string floats "string list" "string list"
  | At_remove nat string "string list"
  | At_end

definition changed_for_each_callback :: "bool \<Rightarrow> row \<Rightarrow> string list \<Rightarrow> (int \<times> string list) result" where
  "changed_for_each_callback runing r ps =
     (let vs = [s. (col, Text_cell s) \<leftarrow> r, col = ''path''] in Inr (0, if runing then ps @ vs else ps))"

definition holds_mutex :: "scan_pc \<Rightarrow> bool" where
  "holds_mutex pc = (case pc of At_test \<Rightarrow> True | At_photo _ _ \<Rightarrow> True | _ \<Rightarrow> False)"

fun scan_step ::
  "'db sqlite \<Rightarrow> 'img photo_lib \<Rightarrow> ('img, 'w) irt_env \<Rightarrow> scan_pc \<Rightarrow> ('img, 'db, 'w) smart_photo \<Rightarrow>
     (scan_pc \<times> ('img, 'db, 'w) smart_photo) result" where
  "scan_step sq lib env At_start sp = Inr (At_test, sp)"
| "scan_step sq lib env At_test sp =
     (if \<not> scan_runing sp then Inr (At_end, sp\<lparr>scan_runing := False\<rparr>)
      else
        rbind (db_changed_table_for_each_row sq (changed_for_each_callback (scan_runing sp)) (changed_photos sp) (sp_db sp))
          (\<lambda>(_, ps, h).
             let gen = (if ps = changed_photos sp then photos_gen sp else Suc (photos_gen sp))
             in if ps = [] then Inr (At_end, sp\<lparr>sp_db := h, changed_photos := ps, photos_gen := gen, scan_runing := False\<rparr>)
                else Inr (At_photo gen ps, sp\<lparr>sp_db := snd (db_transaction_begin sq h), changed_photos := ps, photos_gen := gen\<rparr>)))"
| "scan_step sq lib env (At_photo gen ps) sp =
     (if gen \<noteq> photos_gen sp then Inl Undefined
      else
        (case (if scan_runing sp then ps else []) of
           [] \<Rightarrow> Inr (At_test, sp\<lparr>sp_db := snd (db_transaction_end sq (sp_db sp)), changed_photos := [], photos_gen := Suc (photos_gen sp)\<rparr>)
         | p # ps' \<Rightarrow> Inr (At_infer gen p ps', sp)))"
| "scan_step sq lib env (At_infer gen p ps) sp =
     (let img = cv_imread lib p
      in if mat_empty lib img then Inr (At_remove gen p ps, sp)
         else
           rbind (analyse lib env img (sp_labels sp) (sp_irt sp)) (\<lambda>(vs, labels, sp_labels', st).
             Inr (At_update gen p vs labels ps, sp\<lparr>sp_labels := sp_labels', sp_irt := st\<rparr>)))"
| "scan_step sq lib env (At_remove gen p ps) sp =
     Inr (At_photo gen ps, sp\<lparr>sp_db := snd (db_changed_table_remove sq p (sp_db sp))\<rparr>)"
| "scan_step sq lib env (At_update gen p vs labels ps) sp =
     rbind (record_photo sq lib p vs labels (sp_db sp)) (\<lambda>h. Inr (At_photo gen ps, sp\<lparr>sp_db := h\<rparr>))"
| "scan_step sq lib env At_end sp = Inr (At_end, sp)"

text \<open>\<^verbatim>\<open>scan_thread\<close> run on its own for a number of steps.\<close>

fun scan_thread ::
  "nat \<Rightarrow> 'db sqlite \<Rightarrow> 'img photo_lib \<Rightarrow> ('img, 'w) irt_env \<Rightarrow> scan_pc \<Rightarrow> ('img, 'db, 'w) smart_photo \<Rightarrow>
     (scan_pc \<times> ('img, 'db, 'w) smart_photo) result" where
  "scan_thread 0 sq lib env pc sp = Inr (pc, sp)"
| "scan_thread (Suc n) sq lib env pc sp =
     rbind (scan_step sq lib env pc sp) (\<lambda>(pc', sp'). scan_thread n sq lib env pc' sp')"

text \<open>
  Starting and stopping. \<^verbatim>\<open>ccai_sp_scan\<close> also says whether it created a thread; the functions that join
  the thread then wait until it has ended.
\<close>

definition ccai_sp_scan :: "('img, 'db, 'w) sp_handle \<Rightarrow> int \<times> bool \<times> ('img, 'db, 'w) sp_handle" where
  "ccai_sp_scan s =
     (case s of None \<Rightarrow> (- 1, False, None)
      | Some sp \<Rightarrow> if scan_runing sp then (0, False, s) else (0, True, Some (sp\<lparr>scan_runing := True\<rparr>)))"

definition ccai_sp_stop_scan :: "('img, 'db, 'w) sp_handle \<Rightarrow> int \<times> ('img, 'db, 'w) sp_handle" where
  "ccai_sp_stop_scan s =
     (case s of None \<Rightarrow> (- 1, None)
      | Some sp \<Rightarrow> if \<not> scan_runing sp then (- 1, s) else (0, Some (sp\<lparr>scan_runing := False\<rparr>)))"

definition ccai_sp_wait_scan :: "('img, 'db, 'w) sp_handle \<Rightarrow> int" where
  "ccai_sp_wait_scan s = (case s of None \<Rightarrow> - 1 | Some sp \<Rightarrow> if \<not> scan_runing sp then - 1 else 0)"

text \<open>
  A system: the shared state and the threads created so far. A thread that is inferring or holds the
  mutex can go on, another one can if nobody holds the mutex; so can a call of the library,
  an element of the relation \<open>api\<close>.
\<close>

record ('img, 'db, 'w) sp_system =
  sys_sp :: "('img, 'db, 'w) smart_photo"
  sys_threads :: "scan_pc list"

definition mutex_free :: "('img, 'db, 'w) sp_system \<Rightarrow> bool" where
  "mutex_free s \<longleftrightarrow> list_all (\<lambda>pc. \<not> holds_mutex pc) (sys_threads s)"

definition needs_mutex :: "scan_pc \<Rightarrow> bool" where
  "needs_mutex pc = (case pc of At_start \<Rightarrow> True | At_update _ _ _ _ _ \<Rightarrow> True | At_remove _ _ _ \<Rightarrow> True | _ \<Rightarrow> False)"

inductive system_step ::
  "(('img, 'db, 'w) smart_photo \<Rightarrow> ('img, 'db, 'w) smart_photo \<Rightarrow> bool) \<Rightarrow> 'db sqlite \<Rightarrow> 'img photo_lib \<Rightarrow> ('img, 'w) irt_env \<Rightarrow>
     ('img, 'db, 'w) sp_system \<Rightarrow> ('img, 'db, 'w) sp_system \<Rightarrow> bool" for api sq lib env where
  thread_step: "i < length (sys_threads s) \<Longrightarrow> sys_threads s ! i \<noteq> At_end \<Longrightarrow> (needs_mutex (sys_threads s ! i) \<Longrightarrow> mutex_free s) \<Longrightarrow>
    scan_step sq lib env (sys_threads s ! i) (sys_sp s) = Inr (pc, sp) \<Longrightarrow>
    system_step api sq lib env s (s\<lparr>sys_sp := sp, sys_threads := (sys_threads s)[i := pc]\<rparr>)"
| start_scan: "mutex_free s \<Longrightarrow> ccai_sp_scan (Some (sys_sp s)) = (r, created, Some sp) \<Longrightarrow>
    system_step api sq lib env s (s\<lparr>sys_sp := sp, sys_threads := sys_threads s @ (if created then [At_start] else [])\<rparr>)"
| stop_scan: "mutex_free s \<Longrightarrow> ccai_sp_stop_scan (Some (sys_sp s)) = (r, Some sp) \<Longrightarrow>
    system_step api sq lib env s (s\<lparr>sys_sp := sp\<rparr>)"
| api_call: "mutex_free s \<Longrightarrow> api (sys_sp s) sp \<Longrightarrow> system_step api sq lib env s (s\<lparr>sys_sp := sp\<rparr>)"

section \<open>Queries\<close>

text \<open>The callback of a client gets a number and a text or a null pointer.\<close>

type_synonym 'd list_cb = "int \<Rightarrow> string option \<Rightarrow> 'd \<Rightarrow> int \<times> 'd"

text \<open>The columns \<^verbatim>\<open>id\<close> and \<^verbatim>\<open>name\<close> or \<^verbatim>\<open>path\<close> of a row.\<close>

fun list_columns :: "string \<Rightarrow> row \<Rightarrow> int \<Rightarrow> string option \<Rightarrow> (int \<times> string option) result" where
  "list_columns str_name [] n name = Inr (n, name)"
| "list_columns str_name ((col, v) # r) n name =
     (if col = ''id'' then rbind (cell_stoll v) (\<lambda>n'. list_columns str_name r n' name)
      else if col = str_name
      then list_columns str_name r n (case v of Text_cell s \<Rightarrow> Some s | _ \<Rightarrow> name)
      else list_columns str_name r n name)"

definition list_callback :: "string \<Rightarrow> 'd list_cb \<Rightarrow> row \<Rightarrow> 'd \<Rightarrow> (int \<times> 'd) result" where
  "list_callback str_name callback r data = rbind (list_columns str_name r 0 None) (\<lambda>(n, name). Inr (callback n name data))"

text \<open>A query with the mutex locked; its return code is dropped or returned.\<close>

definition query ::
  "bool \<Rightarrow> ((row \<Rightarrow> 'd \<Rightarrow> (int \<times> 'd) result) \<Rightarrow> 'd \<Rightarrow> 'db option \<Rightarrow> (int \<times> 'd \<times> 'db option) result) \<Rightarrow> string \<Rightarrow>
     'd list_cb option \<Rightarrow> 'd \<Rightarrow> ('img, 'db, 'w) sp_handle \<Rightarrow> (int \<times> 'd \<times> ('img, 'db, 'w) sp_handle) result" where
  "query keep_rc list_func str_name callback data s =
     (case (s, callback) of
        (Some sp, Some cb) \<Rightarrow>
          rbind (list_func (list_callback str_name cb) data (sp_db sp)) (\<lambda>(rc, data', h).
            Inr (if keep_rc then rc else 0, data', Some (sp\<lparr>sp_db := h\<rparr>)))
      | _ \<Rightarrow> Inr (- 1, data, s))"

definition ccai_sp_list_person :: "'db sqlite \<Rightarrow> 'd list_cb option \<Rightarrow> 'd \<Rightarrow> ('img, 'db, 'w) sp_handle \<Rightarrow> (int \<times> 'd \<times> ('img, 'db, 'w) sp_handle) result" where
  "ccai_sp_list_person sq = query False (db_person_table_list sq) ''name''"

definition ccai_sp_list_class :: "'db sqlite \<Rightarrow> 'd list_cb option \<Rightarrow> 'd \<Rightarrow> ('img, 'db, 'w) sp_handle \<Rightarrow> (int \<times> 'd \<times> ('img, 'db, 'w) sp_handle) result" where
  "ccai_sp_list_class sq = query False (db_class_table_list sq) ''name''"

definition ccai_sp_list_photo :: "'db sqlite \<Rightarrow> 'd list_cb option \<Rightarrow> 'd \<Rightarrow> ('img, 'db, 'w) sp_handle \<Rightarrow> (int \<times> 'd \<times> ('img, 'db, 'w) sp_handle) result" where
  "ccai_sp_list_photo sq = query False (db_photo_table_list sq) ''path''"

definition ccai_sp_list_photo_by_person ::
  "'db sqlite \<Rightarrow> int \<Rightarrow> 'd list_cb option \<Rightarrow> 'd \<Rightarrow> ('img, 'db, 'w) sp_handle \<Rightarrow> (int \<times> 'd \<times> ('img, 'db, 'w) sp_handle) result" where
  "ccai_sp_list_photo_by_person sq n = query False (db_list_photo_by_person sq n) ''path''"

definition ccai_sp_list_photo_by_class ::
  "'db sqlite \<Rightarrow> string \<Rightarrow> 'd list_cb option \<Rightarrow> 'd \<Rightarrow> ('img, 'db, 'w) sp_handle \<Rightarrow> (int \<times> 'd \<times> ('img, 'db, 'w) sp_handle) result" where
  "ccai_sp_list_photo_by_class sq clss = query False (db_list_photo_by_class sq clss) ''path''"

definition ccai_sp_count_photo_by_person ::
  "'db sqlite \<Rightarrow> int \<Rightarrow> ('img, 'db, 'w) sp_handle \<Rightarrow> (int \<times> ('img, 'db, 'w) sp_handle) result" where
  "ccai_sp_count_photo_by_person sq n s =
     (case s of None \<Rightarrow> Inr (- 1, None)
      | Some sp \<Rightarrow> rbind (db_list_photo_by_person sq n (\<lambda>_ count. rbind (as_int (count + 1)) (\<lambda>c. Inr (0, c))) 0 (sp_db sp))
          (\<lambda>(_, count, h). Inr (count, Some (sp\<lparr>sp_db := h\<rparr>))))"

definition ccai_sp_list_all_class :: "'img photo_lib \<Rightarrow> 'd list_cb \<Rightarrow> 'd \<Rightarrow> int \<times> 'd" where
  "ccai_sp_list_all_class lib callback data =
     (case read_lable_file lib [] of (r, labels) \<Rightarrow>
        if r \<noteq> 0 then (- 1, data) else (0, foldl (\<lambda>d l. snd (callback (- 1) (Some (c_str l)) d)) data labels))"

definition ccai_sp_list_class_by_photo ::
  "'db sqlite \<Rightarrow> string \<Rightarrow> 'd list_cb option \<Rightarrow> 'd \<Rightarrow> ('img, 'db, 'w) sp_handle \<Rightarrow> (int \<times> 'd \<times> ('img, 'db, 'w) sp_handle) result" where
  "ccai_sp_list_class_by_photo sq path = query True (db_list_class_by_photo sq path) ''name''"

definition ccai_sp_list_person_by_photo ::
  "'db sqlite \<Rightarrow> string \<Rightarrow> 'd list_cb option \<Rightarrow> 'd \<Rightarrow> ('img, 'db, 'w) sp_handle \<Rightarrow> (int \<times> 'd \<times> ('img, 'db, 'w) sp_handle) result" where
  "ccai_sp_list_person_by_photo sq path = query True (db_list_person_by_photo sq path) ''name''"

text \<open>After the thread was stopped the database is closed and the memory released; also whether closing worked.\<close>

definition ccai_sp_release :: "'db sqlite \<Rightarrow> ('img, 'db, 'w) sp_handle \<Rightarrow> int \<times> bool" where
  "ccai_sp_release sq s = (case s of None \<Rightarrow> (- 1, False) | Some sp \<Rightarrow> (0, db_finit sq (sp_db sp) = 0))"

definition ccai_sp_scan_running :: "('img, 'db, 'w) sp_handle \<Rightarrow> int" where
  "ccai_sp_scan_running s = (case s of None \<Rightarrow> - 1 | Some sp \<Rightarrow> if scan_runing sp then 1 else 0)"

definition ccai_sp_waiting_scan_count :: "'db sqlite \<Rightarrow> ('img, 'db, 'w) sp_handle \<Rightarrow> (int \<times> ('img, 'db, 'w) sp_handle) result" where
  "ccai_sp_waiting_scan_count sq s =
     (case s of None \<Rightarrow> Inr (- 1, None)
      | Some sp \<Rightarrow> rbind (db_changed_table_count sq (sp_db sp)) (\<lambda>(count, h). Inr (count, Some (sp\<lparr>sp_db := h\<rparr>))))"

section \<open>Recording a photo\<close>

text \<open>What the steps on faces leave alone, and that the stored embeddings can be compared.\<close>

definition same_photos :: "tables \<Rightarrow> tables \<Rightarrow> bool" where
  "same_photos t u \<longleftrightarrow> t_changed u = t_changed t \<and> t_photo u = t_photo t \<and> t_object u = t_object t \<and> t_photo_object u = t_photo_object t \<and>
     n_photo u = n_photo t \<and> n_object u = n_object t \<and> n_photo_object u = n_photo_object t"

definition faces_ok :: "tables \<Rightarrow> bool" where
  "faces_ok t \<longleftrightarrow> tables_ok t \<and> (\<forall>r \<in> set (t_person t). 512 \<le> length (snd (snd r)))"

lemma same_photos_refl [simp]: "same_photos t t"
  by (simp add: same_photos_def)

lemma same_photos_trans: "same_photos t u \<Longrightarrow> same_photos u v \<Longrightarrow> same_photos t v"
  by (simp add: same_photos_def)

lemma linked_persons_frame:
  "same_photos t (table_of (Insert_photo_person i j) t)" "faces_ok t \<Longrightarrow> faces_ok (table_of (Insert_photo_person i j) t)"
  using table_of_ok [of t "Insert_photo_person i j"] by (auto simp: table_of_def same_photos_def faces_ok_def)

lemma new_person_frame:
  "same_photos t (snd (eval_insert_person v t))" "faces_ok t \<Longrightarrow> 512 \<le> length v \<Longrightarrow> faces_ok (snd (eval_insert_person v t))"
  using eval_insert_person_ok [of t v "fst (eval_insert_person v t)" "snd (eval_insert_person v t)"]
  by (auto simp: eval_insert_person_def same_photos_def faces_ok_def)

lemma face_row_callback:
  assumes "length v = 512" "512 \<le> length (snd (snd ps))" "0 < fst ps" "fst ps \<le> MAX_ROWID"
  shows "\<exists>ids'. person_for_each_callback lib v (face_row ps) ids = Inr (0, ids')"
proof -
  have "v \<noteq> []" "take 512 (snd (snd ps)) \<noteq> []" using assms by auto
  moreover have "length (take 512 (snd (snd ps))) = 512" using assms by simp
  ultimately show ?thesis
    using assms stoll_int_to_string [of "fst ps"] MAX_ROWID_less
    by (simp add: person_for_each_callback_def face_row_def id_cell_def cell_stoll_def cos_distance_def Let_def)
qed

lemma deliver_all:
  "(\<And>r d. r \<in> set rows \<Longrightarrow> \<exists>d'. callback r d = Inr (0, d')) \<Longrightarrow> \<exists>d'. deliver callback rows d = Inr (False, d')"
proof (induction rows arbitrary: d)
  case (Cons r rows)
  obtain d1 where "callback r d = Inr (0, d1)" using Cons.prems [of r d] by auto
  moreover obtain d2 where "deliver callback rows d1 = Inr (False, d2)" using Cons.IH [of d1] Cons.prems by (metis list.set_intros(2))
  ultimately show ?case by simp
qed simp

definition recorded :: "string \<Rightarrow> string list \<Rightarrow> tables \<Rightarrow> tables" where
  "recorded p ns t = link_objects (n_photo t + 1) ns (put_photo p (table_of (Delete_changed p) t))"

context photo_db
begin

lemma object_to_db_law:
  assumes "list_all (\<lambda>l. plain (c_str l)) ls" "tables_ok (view db)" "n_object (view db) + int (length ls) \<le> MAX_ROWID"
  shows "\<exists>db'. object_to_db sq i ls (Some db) = Inr (Some db') \<and> view db' = link_objects i (map c_str ls) (view db)"
  using assms
proof (induction ls arbitrary: db)
  case (Cons l ls)
  have p: "plain (c_str l)" "n_object (view db) < MAX_ROWID" using Cons.prems by auto
  obtain db1 where d1: "db_object_table_add sq (c_str l) (Some db) = Inr (0, Some (object_id (c_str l) (view db1)), Some db1)"
    "view db1 = table_of (Insert_object (c_str l)) (view db)"
    using object_add [OF p(1) Cons.prems(2) p(2)] .
  obtain db2 where d2: "snd (db_photo_object_table_add sq i (object_id (c_str l) (view db1)) (Some db1)) = Some db2"
    "view db2 = table_of (Insert_photo_object i (object_id (c_str l) (view db1))) (view db1)"
    using photo_object_add .
  have v: "view db2 = link_object i (c_str l) (view db)" by (simp add: d1(2) d2(2) link_object_def Let_def)
  have "\<exists>db'. object_to_db sq i ls (Some db2) = Inr (Some db') \<and> view db' = link_objects i (map c_str ls) (view db2)"
    using Cons.prems link_object_ok [OF Cons.prems(2), of i "c_str l"] link_object_frame(6) [of i "c_str l" "view db"]
    by (intro Cons.IH) (auto simp: v)
  then show ?case using d1(1) d2(1) by (auto simp: v link_objects_def)
qed (simp add: link_objects_def)

lemma link_persons_law:
  assumes "faces_ok (view db)"
  shows "\<exists>db'. link_persons sq i ids (Some db) = Some db' \<and> same_photos (view db) (view db') \<and> faces_ok (view db')"
  using assms
proof (induction ids arbitrary: db)
  case (Cons j ids)
  obtain db1 where d1: "snd (db_photo_person_table_add sq i j (Some db)) = Some db1" "view db1 = table_of (Insert_photo_person i j) (view db)"
    using photo_person_add .
  obtain db' where "link_persons sq i ids (Some db1) = Some db'" "same_photos (view db1) (view db')" "faces_ok (view db')"
    using Cons.IH [of db1] linked_persons_frame(2) [OF Cons.prems] d1(2) by auto
  then show ?case using d1 linked_persons_frame(1) [of "view db" i j] same_photos_trans by auto
qed simp

lemma known_faces_law:
  assumes "list_all (\<lambda>v. length v = 512) vs" "list_all (\<lambda>v. length v = 512) acc" "faces_ok (view db)"
  shows "\<exists>new db'. known_faces sq lib i vs acc (Some db) = Inr (new, Some db') \<and> list_all (\<lambda>v. length v = 512) new \<and>
    same_photos (view db) (view db') \<and> faces_ok (view db')"
  using assms
proof (induction vs arbitrary: acc db)
  case (Cons v vs)
  obtain rows db1 where d1: "mset rows = mset (map face_row (t_person (view db)))" "view db1 = view db"
    "exec_select sq True ''SELECT id, face_embeddings FROM Person;'' (person_for_each_callback lib v) [] (Some db) =
       rbind (deliver (person_for_each_callback lib v) rows []) (\<lambda>(aborted, d). Inr (if aborted \<and> \<not> True then - 1 else 0, d, Some db1))"
    using select_law [OF parse_select_faces eval_stmt.simps(12)] .
  have "\<exists>ids'. person_for_each_callback lib v r ids = Inr (0, ids')" if "r \<in> set rows" for r ids
  proof -
    have "r \<in> set (map face_row (t_person (view db)))" using that d1(1) by (metis set_mset_mset)
    then obtain ps where ps: "ps \<in> set (t_person (view db))" "r = face_row ps" by auto
    have "0 < fst ps" "fst ps \<le> MAX_ROWID" "512 \<le> length (snd (snd ps))"
      using Cons.prems(3) ps(1) unfolding faces_ok_def tables_ok_def numbered_def by fastforce+
    with face_row_callback [of v ps] Cons.prems(1) show ?thesis by (simp add: ps(2))
  qed
  then obtain ids where ids: "deliver (person_for_each_callback lib v) rows [] = Inr (False, ids)" using deliver_all by metis
  have e: "db_person_table_for_each_row sq (person_for_each_callback lib v) [] (Some db) = Inr (0, ids, Some db1)"
    unfolding db_person_table_for_each_row_def d1(3) ids by simp
  obtain db2 where d2: "link_persons sq i ids (Some db1) = Some db2" "same_photos (view db1) (view db2)" "faces_ok (view db2)"
    using link_persons_law [of db1 i ids] Cons.prems(3) d1(2) by auto
  show ?case
  proof (cases "ids = []")
    case True
    with Cons.IH [of "acc @ [v]" db1] Cons.prems d1(2) e show ?thesis by auto
  next
    case False
    obtain new db' where "known_faces sq lib i vs acc (Some db2) = Inr (new, Some db')" "list_all (\<lambda>v. length v = 512) new"
      "same_photos (view db2) (view db')" "faces_ok (view db')"
      using Cons.IH [of acc db2] Cons.prems(1,2) d2(3) by auto
    with False e d1(2) d2 show ?thesis by (auto intro: same_photos_trans)
  qed
qed auto

lemma new_faces_law:
  assumes "list_all (\<lambda>v. length v = 512) vs" "faces_ok (view db)"
  shows "\<exists>db'. new_faces sq i vs (Some db) = Some db' \<and> same_photos (view db) (view db') \<and> faces_ok (view db')"
  using assms
proof (induction vs arbitrary: db)
  case (Cons v vs)
  obtain stored db1 where d1: "db_person_table_add sq v (Some db) = (if n_person (view db) < MAX_ROWID then 0 else - 1, stored, Some db1)"
    "view db1 = snd (eval_insert_person v (view db))"
    using person_add .
  let ?j = "case stored of None \<Rightarrow> 0 | Some i \<Rightarrow> i"
  obtain db2 where d2: "snd (db_photo_person_table_add sq i ?j (Some db1)) = Some db2" "view db2 = table_of (Insert_photo_person i ?j) (view db1)"
    using photo_person_add .
  have ok: "faces_ok (view db2)" "same_photos (view db) (view db2)"
    using Cons.prems new_person_frame [of "view db" v] linked_persons_frame [of "view db1" i ?j] d1(2) d2(2) same_photos_trans by auto
  obtain db' where "new_faces sq i vs (Some db2) = Some db'" "same_photos (view db2) (view db')" "faces_ok (view db')"
    using Cons.IH [of db2] Cons.prems(1) ok(1) by auto
  with d1(1) d2(1) ok(2) show ?case by (auto intro: same_photos_trans)
qed simp

end

end
