(* ===== verification/PhotoScans.thy ===== *)
theory PhotoScans
  imports SmartPhoto
begin

text \<open>
  What the photo library guarantees: recording an image and asking for its classes, the thread on its own and interleaved
  with calls, which classes an image is given, and what goes wrong with quotes in paths, with two
  threads and with two faces of one person. The contract of SQLite is a hypothesis of the theorems
  (\<^verbatim>\<open>photo_db\<close>), and the interpreter of the statements satisfies it.
\<close>

lemma recorded_props:
  assumes "tables_ok t" "n_photo t < MAX_ROWID"
  shows "tables_ok (recorded p ns t)" "t_changed (recorded p ns t) = filter (\<lambda>r. snd r \<noteq> p) (t_changed t)"
    "t_photo (recorded p ns t) = filter (\<lambda>r. snd r \<noteq> p) (t_photo t) @ [(n_photo t + 1, p)]"
    "n_photo (recorded p ns t) = n_photo t + 1" "n_object (recorded p ns t) \<le> n_object t + int (length ns)"
    "t_person (recorded p ns t) = t_person t"
proof -
  let ?u = "table_of (Delete_changed p) t"
  have n: "n_photo ?u = n_photo t" "n_object (put_photo p ?u) = n_object t" by (simp_all add: table_of_def put_photo_def without_photo_def Let_def)
  have ok: "tables_ok (put_photo p ?u)" using put_photo_ok [OF table_of_ok [OF assms(1)]] n assms(2) by simp
  then show "tables_ok (recorded p ns t)" unfolding recorded_def by (rule link_objects_ok)
  show "t_changed (recorded p ns t) = filter (\<lambda>r. snd r \<noteq> p) (t_changed t)"
    "t_photo (recorded p ns t) = filter (\<lambda>r. snd r \<noteq> p) (t_photo t) @ [(n_photo t + 1, p)]"
    "n_photo (recorded p ns t) = n_photo t + 1" "t_person (recorded p ns t) = t_person t"
    by (simp_all add: recorded_def link_objects_frame put_photo_def without_photo_def table_of_def Let_def)
  show "n_object (recorded p ns t) \<le> n_object t + int (length ns)"
    using link_objects_counts [of "n_photo t + 1" ns "put_photo p ?u"] n(2) by (simp add: recorded_def)
qed

lemma recorded_names:
  assumes "tables_ok t" "n_photo t < MAX_ROWID" "n_object t + int (length ns) \<le> MAX_ROWID" "n_photo_object t + int (length ns) \<le> MAX_ROWID"
  shows "linked_names (n_photo t + 1) (recorded p ns t) = set ns"
proof -
  let ?u = "table_of (Delete_changed p) t"
  have u: "tables_ok ?u" by (rule table_of_ok [OF assms(1)])
  have nu: "n_photo ?u = n_photo t" by (simp add: table_of_def)
  have v: "tables_ok (put_photo p ?u)" using put_photo_ok u nu assms(2) by simp
  have "n_photo t + 1 \<in> fst ` set (t_photo (put_photo p ?u))" "n_object (put_photo p ?u) = n_object t"
    "n_photo_object (put_photo p ?u) = n_photo_object t"
    by (simp_all add: put_photo_def without_photo_def table_of_def Let_def)
  with linked_names_objects [OF v, of "n_photo t + 1" ns] put_photo_new [OF u, of p] nu assms(3,4)
  show ?thesis by (simp add: recorded_def)
qed

lemma recorded_other:
  assumes "tables_ok t" "n_photo t < MAX_ROWID" "(i, q) \<in> set (t_photo t)" "q \<noteq> p"
  shows "(i, q) \<in> set (t_photo (recorded p ns t))" "linked_names i (recorded p ns t) = linked_names i t"
proof -
  let ?u = "table_of (Delete_changed p) t"
  have u: "tables_ok ?u" "t_photo ?u = t_photo t" "n_photo ?u = n_photo t" "linked_names i ?u = linked_names i t"
    using table_of_ok [OF assms(1), of "Delete_changed p"] by (simp_all add: table_of_def linked_names_def)
  note o = put_photo_other [OF u(1), of i q p, unfolded u(2,3), OF assms(3,4)]
  show "(i, q) \<in> set (t_photo (recorded p ns t))" using o(1) by (simp add: recorded_def link_objects_frame)
  have "tables_ok (put_photo p ?u)" using put_photo_ok [OF u(1)] u(3) assms(2) by simp
  then show "linked_names i (recorded p ns t) = linked_names i t"
    using link_objects_other [of _ "n_photo t + 1" i ns] o(2,3) u(4) by (simp add: recorded_def)
qed

lemma recorded_links: "n_photo_object (recorded p ns t) \<le> n_photo_object t + int (length ns)"
  using link_objects_links [of "n_photo t + 1" ns "put_photo p (table_of (Delete_changed p) t)"]
  by (simp add: recorded_def put_photo_def without_photo_def table_of_def Let_def)

context photo_db
begin

lemma record_photo_law:
  assumes "plain p" "list_all (\<lambda>l. plain (c_str l)) labels" "list_all (\<lambda>v. length v = 512) vs" "faces_ok (view db)"
    "n_photo (view db) < MAX_ROWID" "n_object (view db) + int (length labels) \<le> MAX_ROWID"
  shows "\<exists>db'. record_photo sq lib p vs labels (Some db) = Inr (Some db') \<and> faces_ok (view db') \<and>
    same_photos (recorded p (map c_str labels) (view db)) (view db')"
proof -
  have ok: "tables_ok (view db)" using assms(4) by (simp add: faces_ok_def)
  obtain db1 where d1: "db_changed_table_remove sq p (Some db) = (0, Some db1)" "view db1 = table_of (Delete_changed p) (view db)"
    using changed_remove [OF assms(1)] .
  have n1: "n_photo (view db1) = n_photo (view db)" "n_object (view db1) = n_object (view db)" by (simp_all add: d1(2) table_of_def)
  obtain db2 where d2: "db_photo_table_add sq p (Some db1) = (0, Some (n_photo (view db) + 1), Some db2)" "view db2 = put_photo p (view db1)"
    using photo_add [OF assms(1), of db1] n1(1) assms(5) by metis
  have ok2: "tables_ok (view db2)" using put_photo_ok [OF table_of_ok [OF ok]] n1(1) assms(5) by (simp add: d1(2) d2(2))
  have n2: "n_object (view db2) = n_object (view db)" using n1(2) by (simp add: d2(2) put_photo_def without_photo_def Let_def)
  obtain db3 where d3: "object_to_db sq (n_photo (view db) + 1) labels (Some db2) = Inr (Some db3)"
    "view db3 = link_objects (n_photo (view db) + 1) (map c_str labels) (view db2)"
    using object_to_db_law [OF assms(2) ok2, of "n_photo (view db) + 1"] n2 assms(6) by auto
  have r: "view db3 = recorded p (map c_str labels) (view db)" by (simp add: recorded_def d1(2) d2(2) d3(2))
  have f3: "faces_ok (view db3)"
    using assms(4) recorded_props(1,6) [OF ok assms(5), of p "map c_str labels"] by (simp add: faces_ok_def r)
  obtain new db4 where d4: "known_faces sq lib (n_photo (view db) + 1) vs [] (Some db3) = Inr (new, Some db4)"
    "list_all (\<lambda>v. length v = 512) new" "same_photos (view db3) (view db4)" "faces_ok (view db4)"
    using known_faces_law [OF assms(3) _ f3, of "[]" lib "n_photo (view db) + 1"] by auto
  obtain db5 where d5: "new_faces sq (n_photo (view db) + 1) new (Some db4) = Some db5" "same_photos (view db4) (view db5)" "faces_ok (view db5)"
    using new_faces_law [OF d4(2,4)] by blast
  have "record_photo sq lib p vs labels (Some db) = Inr (Some db5)"
    using d1(1) d2(1) d3(1) d4(1) d5(1) by (simp add: record_photo_def face_id_to_db_def)
  with d4(3) d5(2,3) same_photos_trans [of "view db3" "view db4" "view db5"] show ?thesis by (auto simp: r)
qed

end

text \<open>The names a query for the classes of a photo reports, for a client that collects them.\<close>

definition collect_names :: "string option list list_cb" where
  "collect_names = (\<lambda>_ name acc. (0, acc @ [name]))"

lemma deliver_collect:
  assumes "\<And>r. r \<in> set rows \<Longrightarrow> \<exists>n. list_columns str r 0 None = Inr (n, nm r)"
  shows "deliver (list_callback str collect_names) rows acc = Inr (False, acc @ map nm rows)"
  using assms
proof (induction rows arbitrary: acc)
  case (Cons r rows)
  obtain n where n: "list_columns str r 0 None = Inr (n, nm r)" using Cons.prems by force
  have "deliver (list_callback str collect_names) rows (acc @ [nm r]) = Inr (False, (acc @ [nm r]) @ map nm rows)"
    using Cons.prems by (intro Cons.IH) auto
  moreover have "list_callback str collect_names r acc = Inr (0, acc @ [nm r])" using n by (simp add: list_callback_def collect_names_def)
  ultimately show ?case by simp
qed simp

lemma object_row_columns:
  "0 < fst ob \<Longrightarrow> fst ob \<le> MAX_ROWID \<Longrightarrow> list_columns ''name'' (object_row ob) 0 None = Inr (fst ob, Some (snd ob))"
  using stoll_int_to_string [of "fst ob"] MAX_ROWID_less [of "fst ob"] by (simp add: object_row_def id_cell_def cell_stoll_def)

definition classes_rows :: "string \<Rightarrow> tables \<Rightarrow> (int \<times> string) list" where
  "classes_rows p t = [ob. ob \<leftarrow> t_object t, po \<leftarrow> t_photo_object t, snd (snd po) = fst ob, ph \<leftarrow> t_photo t, fst ph = fst (snd po) \<and> snd ph = p]"

lemma classes_rows_eval: "eval_stmt (Classes_of_photo p) t = (SQLITE_OK, map object_row (classes_rows p t), t)"
  by (simp add: classes_rows_def map_concat comp_def if_distrib [of "map object_row"] cong: if_cong)

lemma classes_rows_names:
  assumes "tables_ok t" "(i, p) \<in> set (t_photo t)"
  shows "snd ` set (classes_rows p t) = linked_names i t"
proof -
  have u: "j = i" if "(j, p) \<in> set (t_photo t)" for j
    using unique_row [of "t_photo t" i p] unique_row [of "t_photo t" j p] that assms by (simp add: tables_ok_def)
  show ?thesis
  proof (intro equalityI subsetI)
    fix n
    assume "n \<in> snd ` set (classes_rows p t)"
    then show "n \<in> linked_names i t" using u by (fastforce simp: classes_rows_def linked_names_def)
  next
    fix n
    assume "n \<in> linked_names i t"
    then obtain k j where "(k, i, j) \<in> set (t_photo_object t)" "(j, n) \<in> set (t_object t)" by (auto simp: linked_names_def)
    then have "(j, n) \<in> set (classes_rows p t)" using assms(2) by (force simp: classes_rows_def)
    then show "n \<in> snd ` set (classes_rows p t)" by force
  qed
qed

context photo_db
begin

lemma classes_query:
  assumes "plain p" "tables_ok (view db)" "(i, p) \<in> set (t_photo (view db))" "sp_db sp = Some db"
  shows "\<exists>names db'. ccai_sp_list_class_by_photo sq p (Some collect_names) [] (Some sp) = Inr (0, names, Some (sp\<lparr>sp_db := Some db'\<rparr>)) \<and>
    set names = Some ` linked_names i (view db) \<and> view db' = view db"
proof -
  obtain rows db' where d: "mset rows = mset (map object_row (classes_rows p (view db)))" "view db' = view db"
    "exec_select sq False (''SELECT o.id, o.name FROM Object o '' @ ''INNER JOIN PhotoObject po ON o.id = po.object_id '' @
         ''INNER JOIN Photo p ON p.id = po.photo_id '' @ ''WHERE p.path = '' @ [apos] @ p @ [apos] @ '';'')
       (list_callback ''name'' collect_names) [] (Some db) =
     rbind (deliver (list_callback ''name'' collect_names) rows []) (\<lambda>(aborted, d). Inr (if aborted \<and> \<not> False then - 1 else 0, d, Some db'))"
    using select_law [OF parse_classes_of_photo [OF assms(1)] classes_rows_eval] .
  let ?nm = "\<lambda>r. case map_of r ''name'' of Some (Text_cell s) \<Rightarrow> Some s | _ \<Rightarrow> None"
  have rows: "set rows = object_row ` set (classes_rows p (view db))" using arg_cong [OF d(1), of set_mset] by simp
  have "\<exists>n. list_columns ''name'' r 0 None = Inr (n, ?nm r)" if r: "r \<in> set rows" for r
  proof -
    obtain ob where ob: "r = object_row ob" "ob \<in> set (t_object (view db))" using r rows by (auto simp: classes_rows_def)
    have "0 < fst ob" "fst ob \<le> MAX_ROWID" using assms(2) ob(2) unfolding tables_ok_def numbered_def by fastforce+
    from object_row_columns [OF this] show ?thesis by (simp add: ob(1)) (simp add: object_row_def id_cell_def)
  qed
  then have dl: "deliver (list_callback ''name'' collect_names) rows [] = Inr (False, map ?nm rows)"
    using deliver_collect [of rows "''name''" ?nm "[]"] by simp
  have q: "ccai_sp_list_class_by_photo sq p (Some collect_names) [] (Some sp) = Inr (0, map ?nm rows, Some (sp\<lparr>sp_db := Some db'\<rparr>))"
    unfolding ccai_sp_list_class_by_photo_def query_def db_list_class_by_photo_def assms(4) prod.case option.case d(3) dl by simp
  have "?nm (object_row ob) = Some (snd ob)" for ob by (simp add: object_row_def id_cell_def)
  then have "set (map ?nm rows) = Some ` snd ` set (classes_rows p (view db))"
    unfolding set_map rows image_image by simp
  then show ?thesis using q d(2) classes_rows_names [OF assms(2,3)] by metis
qed

end

section \<open>The thread on its own\<close>

definition analysis_fine :: "'img photo_lib \<Rightarrow> ('img, 'w) irt_env \<Rightarrow> (string list \<Rightarrow> ('img, 'w) irt_state \<Rightarrow> bool) \<Rightarrow> bool" where
  "analysis_fine lib env ok \<longleftrightarrow>
     (\<forall>img known st. \<not> mat_empty lib img \<longrightarrow> ok known st \<longrightarrow>
        (\<exists>vs labels known' st'. analyse lib env img known st = Inr (vs, labels, known', st') \<and> ok known' st' \<and>
           list_all (\<lambda>v. length v = 512) vs \<and> list_all (\<lambda>l. plain (c_str l)) labels))"

text \<open>
  A photo has a row, and linked to it are the labels that an analysis of the image gives; the changed photos that
  can be loaded; the photos outside of a set keep their rows and what is linked to them.
\<close>

definition classified ::
  "'img photo_lib \<Rightarrow> ('img, 'w) irt_env \<Rightarrow> (string list \<Rightarrow> ('img, 'w) irt_state \<Rightarrow> bool) \<Rightarrow> string \<Rightarrow> tables \<Rightarrow> bool" where
  "classified lib env ok p t \<longleftrightarrow>
     (\<exists>i known st vs labels known' st'. (i, p) \<in> set (t_photo t) \<and> ok known st \<and>
        analyse lib env (cv_imread lib p) known st = Inr (vs, labels, known', st') \<and> linked_names i t = c_str ` set labels)"

definition waiting :: "'img photo_lib \<Rightarrow> tables \<Rightarrow> string set" where
  "waiting lib t = {p \<in> snd ` set (t_changed t). \<not> mat_empty lib (cv_imread lib p)}"

definition untouched :: "string set \<Rightarrow> tables \<Rightarrow> tables \<Rightarrow> bool" where
  "untouched A t u \<longleftrightarrow>
     (\<forall>i q. (i, q) \<in> set (t_photo t) \<longrightarrow> q \<notin> A \<longrightarrow> (i, q) \<in> set (t_photo u) \<and> linked_names i u = linked_names i t)"

lemma classifiedE:
  assumes "classified lib env ok p t"
  obtains i known st vs labels known' st' where "(i, p) \<in> set (t_photo t)" "ok known st"
    "analyse lib env (cv_imread lib p) known st = Inr (vs, labels, known', st')" "linked_names i t = c_str ` set labels"
  using assms unfolding classified_def by (elim exE conjE) (rule that; assumption)

lemma untouched_trans: "untouched A t u \<Longrightarrow> untouched B u v \<Longrightarrow> untouched (A \<union> B) t v"
  unfolding untouched_def by (metis UnI1 UnI2)

lemma untouched_classified: "classified lib env ok p t \<Longrightarrow> untouched A t u \<Longrightarrow> p \<notin> A \<Longrightarrow> classified lib env ok p u"
  unfolding classified_def untouched_def by metis

lemma untouched_same: "t_photo u = t_photo t \<Longrightarrow> t_object u = t_object t \<Longrightarrow> t_photo_object u = t_photo_object t \<Longrightarrow> untouched A t u"
  by (simp add: untouched_def linked_names_def)

lemma recorded_untouched: "tables_ok t \<Longrightarrow> n_photo t < MAX_ROWID \<Longrightarrow> untouched {p} t (recorded p ns t)"
  unfolding untouched_def using recorded_other [of t _ _ p ns] by blast

lemma same_photos_untouched: "same_photos t u \<Longrightarrow> untouched {} t u"
  by (intro untouched_same) (simp_all add: same_photos_def)

lemma length_concat_le: "(\<And>x. x \<in> set xs \<Longrightarrow> length (f x) \<le> 1) \<Longrightarrow> length (concat (map f xs)) \<le> length xs"
proof (induction xs)
  case (Cons x xs)
  then have "length (f x) \<le> 1" "length (concat (map f xs)) \<le> length xs" by auto
  then show ?case by simp
qed simp

lemma segmentation_markers:
  "sp_segmentation lib env img known st = Inr (r, labels, known', st') \<Longrightarrow> labels = [] \<or> (\<exists>ids counts. labels = frequent_markers ids counts)"
  by (auto simp: sp_segmentation_def rbind_def split: sum.splits prod.splits if_splits)

lemma frequent_markers_few: "length (frequent_markers ids counts) \<le> 150"
proof -
  have "length (frequent_markers ids counts) \<le> length [0..<SEG_C]"
    unfolding frequent_markers_def by (intro length_concat_le) (auto split: option.split)
  then show ?thesis by (simp add: SEG_C_def)
qed

lemma analyse_few:
  assumes "analyse lib env img known st = Inr (vs, labels, known', st')"
  shows "length labels \<le> 150"
proof -
  obtain r st1 where "sp_segmentation lib env img known st1 = Inr (r, labels, known', st')"
    using assms by (auto simp: analyse_def result_simps)
  from segmentation_markers [OF this] frequent_markers_few show ?thesis by auto
qed

lemma scan_thread_add:
  "scan_thread (m + n) sq lib env pc sp = rbind (scan_thread m sq lib env pc sp) (\<lambda>(pc', sp'). scan_thread n sq lib env pc' sp')"
  by (induction m arbitrary: pc sp) (auto simp: rbind_def split: sum.split prod.split)

lemma scan_thread_compose:
  "scan_thread m sq lib env pc sp = Inr (pc', sp') \<Longrightarrow> scan_thread n sq lib env pc' sp' = r \<Longrightarrow> scan_thread (m + n) sq lib env pc sp = r"
  by (simp add: scan_thread_add)

lemma deliver_changed:
  "\<forall>r \<in> set rows. \<exists>s. r = [(''path'', Text_cell s)] \<Longrightarrow>
     \<exists>ps. deliver (changed_for_each_callback True) rows acc = Inr (False, acc @ ps) \<and> rows = map (\<lambda>s. [(''path'', Text_cell s)]) ps"
proof (induction rows arbitrary: acc)
  case (Cons r rows)
  obtain s where s: "r = [(''path'', Text_cell s)]" using Cons.prems by auto
  obtain ps where "deliver (changed_for_each_callback True) rows (acc @ [s]) = Inr (False, (acc @ [s]) @ ps)" "rows = map (\<lambda>s. [(''path'', Text_cell s)]) ps"
    using Cons.IH [of "acc @ [s]"] Cons.prems by auto
  moreover have "changed_for_each_callback True r acc = Inr (0, acc @ [s])" by (simp add: s changed_for_each_callback_def)
  ultimately show ?case by (intro exI [of _ "s # ps"]) (simp add: s)
qed simp

context photo_db
begin

lemma changed_rows:
  obtains ps db' where "set ps = snd ` set (t_changed (view db))" "length ps = length (t_changed (view db))" "view db' = view db"
    "db_changed_table_for_each_row sq (changed_for_each_callback True) acc (Some db) = Inr (0, acc @ ps, Some db')"
proof -
  obtain rows db' where d: "mset rows = mset (map (\<lambda>r. [(''path'', Text_cell (snd r))]) (t_changed (view db)))" "view db' = view db"
    "exec_select sq True ''SELECT path FROM ChangedPhoto;'' (changed_for_each_callback True) acc (Some db) =
       rbind (deliver (changed_for_each_callback True) rows acc) (\<lambda>(aborted, d). Inr (if aborted \<and> \<not> True then - 1 else 0, d, Some db'))"
    using select_law [OF parse_select_changed eval_stmt.simps(5)] .
  have rows: "set rows = (\<lambda>r. [(''path'', Text_cell (snd r))]) ` set (t_changed (view db))" using arg_cong [OF d(1), of set_mset] by simp
  then have "\<forall>r \<in> set rows. \<exists>s. r = [(''path'', Text_cell s)]" by auto
  from deliver_changed [OF this, of acc]
  obtain ps where ps: "deliver (changed_for_each_callback True) rows acc = Inr (False, acc @ ps)" "rows = map (\<lambda>s. [(''path'', Text_cell s)]) ps"
    by blast
  have "(\<lambda>s. [(''path'', Text_cell s)]) ` set ps = (\<lambda>s. [(''path'', Text_cell s)]) ` (snd ` set (t_changed (view db)))"
    using rows ps(2) by (simp add: image_image)
  then have "set ps = snd ` set (t_changed (view db))" by (subst (asm) inj_image_eq_iff) (auto simp: inj_def)
  moreover have "length ps = length (t_changed (view db))" using arg_cong [OF d(1), of size] ps(2) by simp
  ultimately show ?thesis using that [of ps db'] d(2) unfolding db_changed_table_for_each_row_def d(3) ps(1) by simp
qed

lemma photo_round:
  assumes "analysis_fine lib env ok" "ok (sp_labels sp) (sp_irt sp)" "scan_runing sp" "sp_db sp = Some db" "faces_ok (view db)"
    "plain p" "n_photo (view db) < MAX_ROWID" "n_object (view db) + 150 \<le> MAX_ROWID" "n_photo_object (view db) + 150 \<le> MAX_ROWID"
  shows "\<exists>k sp1 db1. scan_thread k sq lib env (At_photo (photos_gen sp) (p # ps)) sp = Inr (At_photo (photos_gen sp1) ps, sp1) \<and>
    sp_db sp1 = Some db1 \<and> scan_runing sp1 \<and> ok (sp_labels sp1) (sp_irt sp1) \<and> faces_ok (view db1) \<and>
    n_photo (view db1) \<le> n_photo (view db) + 1 \<and> n_object (view db1) \<le> n_object (view db) + 150 \<and>
    n_photo_object (view db1) \<le> n_photo_object (view db) + 150 \<and>
    t_changed (view db1) = filter (\<lambda>r. snd r \<noteq> p) (t_changed (view db)) \<and>
    snd ` set (t_photo (view db1)) = snd ` set (t_photo (view db)) \<union> (if mat_empty lib (cv_imread lib p) then {} else {p}) \<and>
    untouched (if mat_empty lib (cv_imread lib p) then {} else {p}) (view db) (view db1) \<and>
    (\<not> mat_empty lib (cv_imread lib p) \<longrightarrow> classified lib env ok p (view db1))"
proof -
  have ok: "tables_ok (view db)" using assms(5) by (simp add: faces_ok_def)
  show ?thesis
  proof (cases "mat_empty lib (cv_imread lib p)")
    case True
    obtain db1 where d: "db_changed_table_remove sq p (Some db) = (0, Some db1)" "view db1 = table_of (Delete_changed p) (view db)"
      using changed_remove [OF assms(6)] .
    have "faces_ok (view db1)" using assms(5) table_of_ok [OF ok, of "Delete_changed p"] unfolding d(2) by (simp add: faces_ok_def) (simp add: table_of_def)
    moreover have "untouched {} (view db) (view db1)" unfolding d(2) by (rule untouched_same) (simp_all add: table_of_def)
    ultimately show ?thesis
      using True assms d by (intro exI [of _ "Suc (Suc (Suc 0))"] exI [of _ "sp\<lparr>sp_db := Some db1\<rparr>"] exI [of _ db1]) (simp add: table_of_def)
  next
    case False
    obtain vs labels known st where a: "analyse lib env (cv_imread lib p) (sp_labels sp) (sp_irt sp) = Inr (vs, labels, known, st)"
      "ok known st" "list_all (\<lambda>v. length v = 512) vs" "list_all (\<lambda>l. plain (c_str l)) labels"
      using assms(1,2) False unfolding analysis_fine_def by blast
    have few: "int (length labels) \<le> 150" using analyse_few [OF a(1)] by simp
    have b: "n_object (view db) + int (length labels) \<le> MAX_ROWID" "n_photo_object (view db) + int (length labels) \<le> MAX_ROWID"
      using assms(8,9) few by auto
    let ?r = "recorded p (map c_str labels) (view db)" and ?i = "n_photo (view db) + 1"
    obtain db1 where d: "record_photo sq lib p vs labels (Some db) = Inr (Some db1)" "faces_ok (view db1)" "same_photos ?r (view db1)"
      using record_photo_law [OF assms(6) a(4,3) assms(5,7) b(1)] by blast
    note r = recorded_props [OF ok assms(7), of p "map c_str labels"] recorded_links [of p "map c_str labels" "view db"]
    have "snd ` set (t_photo ?r) = snd ` set (t_photo (view db)) \<union> {p}" unfolding r(3) by force
    with r d(3) few have frame: "n_photo (view db1) \<le> n_photo (view db) + 1" "n_object (view db1) \<le> n_object (view db) + 150"
      "n_photo_object (view db1) \<le> n_photo_object (view db) + 150"
      "t_changed (view db1) = filter (\<lambda>r. snd r \<noteq> p) (t_changed (view db))"
      "snd ` set (t_photo (view db1)) = snd ` set (t_photo (view db)) \<union> {p}"
      by (auto simp: same_photos_def)
    have u: "untouched {p} (view db) (view db1)"
      using untouched_trans [OF recorded_untouched [OF ok assms(7)] same_photos_untouched [OF d(3)]] by simp
    have "(?i, p) \<in> set (t_photo (view db1))" using r(3) d(3) by (simp add: same_photos_def)
    moreover have "linked_names ?i (view db1) = c_str ` set labels"
      using recorded_names [OF ok assms(7), of "map c_str labels" p] b d(3) by (simp add: same_photos_def linked_names_def)
    ultimately have "classified lib env ok p (view db1)" using a(1) assms(2) unfolding classified_def by blast
    with frame u show ?thesis
      using False assms a d(1,2)
      by (intro exI [of _ "Suc (Suc (Suc 0))"] exI [of _ "sp\<lparr>sp_labels := known, sp_irt := st, sp_db := Some db1\<rparr>"] exI [of _ db1]) simp
  qed
qed

lemma photos_loop:
  assumes "analysis_fine lib env ok" "ok (sp_labels sp) (sp_irt sp)" "scan_runing sp" "sp_db sp = Some db" "faces_ok (view db)"
    "list_all plain ps" "n_photo (view db) + int (length ps) \<le> MAX_ROWID" "n_object (view db) + 150 * int (length ps) \<le> MAX_ROWID"
    "n_photo_object (view db) + 150 * int (length ps) \<le> MAX_ROWID"
  shows "\<exists>n sp' db'. scan_thread n sq lib env (At_photo (photos_gen sp) ps) sp = Inr (At_test, sp') \<and> sp_db sp' = Some db' \<and> scan_runing sp' \<and>
    changed_photos sp' = [] \<and> ok (sp_labels sp') (sp_irt sp') \<and> faces_ok (view db') \<and>
    t_changed (view db') = filter (\<lambda>r. snd r \<notin> set ps) (t_changed (view db)) \<and>
    snd ` set (t_photo (view db')) = snd ` set (t_photo (view db)) \<union> {p \<in> set ps. \<not> mat_empty lib (cv_imread lib p)} \<and>
    untouched {p \<in> set ps. \<not> mat_empty lib (cv_imread lib p)} (view db) (view db') \<and>
    (\<forall>p \<in> set ps. \<not> mat_empty lib (cv_imread lib p) \<longrightarrow> classified lib env ok p (view db'))"
  using assms(2-)
proof (induction ps arbitrary: sp db)
  case Nil
  obtain db' where d: "snd (db_transaction_end sq (Some db)) = Some db'" "view db' = table_of End_txn (view db)"
    using transaction_ends .
  have "faces_ok (view db')" using Nil.prems(4) table_of_ok [of "view db" End_txn] unfolding d(2) by (simp add: faces_ok_def) (simp add: table_of_def)
  moreover have "untouched {} (view db) (view db')" unfolding d(2) by (rule untouched_same) (simp_all add: table_of_def)
  ultimately show ?case
    using Nil.prems d by (intro exI [of _ 1] exI [of _ "sp\<lparr>sp_db := Some db', changed_photos := [], photos_gen := Suc (photos_gen sp)\<rparr>"] exI [of _ db']) (simp add: table_of_def)
next
  case (Cons p ps)
  let ?A = "if mat_empty lib (cv_imread lib p) then {} else {p}" and ?B = "{p \<in> set ps. \<not> mat_empty lib (cv_imread lib p)}"
  have pp: "plain p" "list_all plain ps" using Cons.prems(5) by auto
  have "n_photo (view db) < MAX_ROWID" "n_object (view db) + 150 \<le> MAX_ROWID" "n_photo_object (view db) + 150 \<le> MAX_ROWID"
    using Cons.prems(6-8) by auto
  from photo_round [OF assms(1) Cons.prems(1-4) pp(1) this, of ps]
  obtain k sp1 db1 where s: "scan_thread k sq lib env (At_photo (photos_gen sp) (p # ps)) sp = Inr (At_photo (photos_gen sp1) ps, sp1)"
      "sp_db sp1 = Some db1" "scan_runing sp1" "ok (sp_labels sp1) (sp_irt sp1)" "faces_ok (view db1)" "n_photo (view db1) \<le> n_photo (view db) + 1"
      "n_object (view db1) \<le> n_object (view db) + 150" "n_photo_object (view db1) \<le> n_photo_object (view db) + 150"
      "t_changed (view db1) = filter (\<lambda>r. snd r \<noteq> p) (t_changed (view db))"
      "snd ` set (t_photo (view db1)) = snd ` set (t_photo (view db)) \<union> ?A" "untouched ?A (view db) (view db1)"
      "\<not> mat_empty lib (cv_imread lib p) \<longrightarrow> classified lib env ok p (view db1)"
    by blast
  have "n_photo (view db1) + int (length ps) \<le> MAX_ROWID" "n_object (view db1) + 150 * int (length ps) \<le> MAX_ROWID"
    "n_photo_object (view db1) + 150 * int (length ps) \<le> MAX_ROWID"
    using s(6-8) Cons.prems(6-8) by auto
  then obtain n sp' db' where t: "scan_thread n sq lib env (At_photo (photos_gen sp1) ps) sp1 = Inr (At_test, sp')" "sp_db sp' = Some db'" "scan_runing sp'"
      "changed_photos sp' = []" "ok (sp_labels sp') (sp_irt sp')" "faces_ok (view db')"
      "t_changed (view db') = filter (\<lambda>r. snd r \<notin> set ps) (t_changed (view db1))"
      "snd ` set (t_photo (view db')) = snd ` set (t_photo (view db1)) \<union> ?B" "untouched ?B (view db1) (view db')"
      "\<forall>p \<in> set ps. \<not> mat_empty lib (cv_imread lib p) \<longrightarrow> classified lib env ok p (view db')"
    using Cons.IH [OF s(4,3,2,5) pp(2)] by blast
  have AB: "?A \<union> ?B = {q \<in> set (p # ps). \<not> mat_empty lib (cv_imread lib q)}" by auto
  have "t_changed (view db') = filter (\<lambda>r. snd r \<notin> set (p # ps)) (t_changed (view db))"
    unfolding t(7) s(9) by (simp add: conj_commute)
  moreover have "snd ` set (t_photo (view db')) = snd ` set (t_photo (view db)) \<union> {q \<in> set (p # ps). \<not> mat_empty lib (cv_imread lib q)}"
    unfolding t(8) s(10) AB [symmetric] by (rule Un_assoc)
  moreover have "untouched {q \<in> set (p # ps). \<not> mat_empty lib (cv_imread lib q)} (view db) (view db')"
    unfolding AB [symmetric] by (rule untouched_trans [OF s(11) t(9)])
  moreover have "classified lib env ok q (view db')" if "q \<in> set (p # ps)" "\<not> mat_empty lib (cv_imread lib q)" for q
    using that t(10) untouched_classified [OF _ t(9), of lib env ok q] s(12) by (cases "q \<in> set ps") auto
  ultimately show ?case using scan_thread_compose [OF s(1) t(1)] t(2-6) by blast
qed

end

context photo_db
begin

lemma nothing_changed:
  assumes "scan_runing sp" "changed_photos sp = []" "sp_db sp = Some db" "t_changed (view db) = []"
  shows "\<exists>db'. scan_step sq lib env At_test sp = Inr (At_end, sp\<lparr>sp_db := Some db', changed_photos := [], scan_runing := False\<rparr>) \<and> view db' = view db"
proof -
  obtain ps db' where "set ps = snd ` set (t_changed (view db))" "length ps = length (t_changed (view db))" "view db' = view db"
    "db_changed_table_for_each_row sq (changed_for_each_callback True) [] (Some db) = Inr (0, [] @ ps, Some db')"
    using changed_rows .
  with assms show ?thesis by (intro exI [of _ db']) simp
qed

lemma scan_alone:
  assumes fine: "analysis_fine lib env ok" "ok (sp_labels sp) (sp_irt sp)" and sp: "scan_runing sp" "changed_photos sp = []" "sp_db sp = Some db"
    and db: "faces_ok (view db)" "list_all (\<lambda>r. plain (snd r)) (t_changed (view db))"
    and room: "n_photo (view db) + int (length (t_changed (view db))) \<le> MAX_ROWID"
      "n_object (view db) + 150 * int (length (t_changed (view db))) \<le> MAX_ROWID"
      "n_photo_object (view db) + 150 * int (length (t_changed (view db))) \<le> MAX_ROWID"
  shows "\<exists>n sp' db'. scan_thread n sq lib env At_start sp = Inr (At_end, sp') \<and> \<not> scan_runing sp' \<and> sp_db sp' = Some db' \<and> faces_ok (view db') \<and>
    t_changed (view db') = [] \<and> snd ` set (t_photo (view db')) = snd ` set (t_photo (view db)) \<union> waiting lib (view db) \<and>
    (\<forall>p \<in> waiting lib (view db). classified lib env ok p (view db')) \<and> untouched (waiting lib (view db)) (view db) (view db')"
proof (cases "t_changed (view db) = []")
  case True
  obtain db' where "scan_step sq lib env At_test sp = Inr (At_end, sp\<lparr>sp_db := Some db', changed_photos := [], scan_runing := False\<rparr>)" "view db' = view db"
    using nothing_changed [OF sp True] by blast
  then show ?thesis
    using db(1) True untouched_same [of "view db" "view db"]
    by (intro exI [of _ "Suc (Suc 0)"] exI [of _ "sp\<lparr>sp_db := Some db', changed_photos := [], scan_runing := False\<rparr>"] exI [of _ db']) (simp add: waiting_def)
next
  case False
  obtain ps db1 where ps: "set ps = snd ` set (t_changed (view db))" "length ps = length (t_changed (view db))" "view db1 = view db"
    "db_changed_table_for_each_row sq (changed_for_each_callback True) [] (Some db) = Inr (0, [] @ ps, Some db1)"
    using changed_rows .
  obtain db2 where d2: "snd (db_transaction_begin sq (Some db1)) = Some db2" "view db2 = table_of Begin (view db1)"
    using transaction .
  let ?sp = "sp\<lparr>sp_db := Some db2, changed_photos := ps, photos_gen := Suc (photos_gen sp)\<rparr>"
  have "ps \<noteq> []" using ps(2) False by auto
  then have s1: "scan_thread (Suc (Suc 0)) sq lib env At_start sp = Inr (At_photo (photos_gen ?sp) ps, ?sp)" using sp ps(4) d2(1) by simp
  have v2: "t_changed (view db2) = t_changed (view db)" "t_photo (view db2) = t_photo (view db)" "n_photo (view db2) = n_photo (view db)"
    "n_object (view db2) = n_object (view db)" "n_photo_object (view db2) = n_photo_object (view db)" "t_person (view db2) = t_person (view db)"
    by (simp_all add: d2(2) ps(3) table_of_def)
  have u2: "untouched {} (view db) (view db2)" unfolding d2(2) ps(3) by (rule untouched_same) (simp_all add: table_of_def)
  have f2: "faces_ok (view db2)" using db(1) table_of_ok [of "view db1" Begin] v2(6) by (simp add: faces_ok_def d2(2) ps(3))
  have rd: "{p \<in> set ps. \<not> mat_empty lib (cv_imread lib p)} = waiting lib (view db)" by (simp add: ps(1) waiting_def)
  have "list_all plain ps" using db(2) ps(1) by (auto simp: list_all_iff)
  then obtain n sp3 db3 where s2: "scan_thread n sq lib env (At_photo (photos_gen ?sp) ps) ?sp = Inr (At_test, sp3)" "sp_db sp3 = Some db3" "scan_runing sp3"
      "changed_photos sp3 = []" "faces_ok (view db3)" "t_changed (view db3) = filter (\<lambda>r. snd r \<notin> set ps) (t_changed (view db2))"
      "snd ` set (t_photo (view db3)) = snd ` set (t_photo (view db2)) \<union> waiting lib (view db)" "untouched (waiting lib (view db)) (view db2) (view db3)"
      "\<forall>p \<in> set ps. \<not> mat_empty lib (cv_imread lib p) \<longrightarrow> classified lib env ok p (view db3)"
    using photos_loop [OF fine(1), of ?sp db2 ps, unfolded rd] fine(2) sp(1) f2 room v2 ps(2) by auto
  have e: "t_changed (view db3) = []" unfolding s2(6) v2(1) ps(1) by (simp add: filter_empty_conv)
  obtain db4 where s3: "scan_step sq lib env At_test sp3 = Inr (At_end, sp3\<lparr>sp_db := Some db4, changed_photos := [], scan_runing := False\<rparr>)"
    "view db4 = view db3"
    using nothing_changed [OF s2(3,4,2) e] by blast
  have "scan_thread (Suc (Suc 0) + (n + Suc 0)) sq lib env At_start sp = Inr (At_end, sp3\<lparr>sp_db := Some db4, changed_photos := [], scan_runing := False\<rparr>)"
    by (rule scan_thread_compose [OF s1 scan_thread_compose [OF s2(1)]]) (simp only: scan_thread.simps s3(1) rbind_Inr prod.case)
  moreover have "\<forall>p \<in> waiting lib (view db). classified lib env ok p (view db3)" using s2(9) unfolding rd [symmetric] by blast
  moreover have "untouched (waiting lib (view db)) (view db) (view db3)" using untouched_trans [OF u2 s2(8)] by simp
  ultimately show ?thesis
    using s2(5,7) e s3(2) v2(2)
    by (intro exI [of _ "Suc (Suc 0) + (n + Suc 0)"] exI [of _ "sp3\<lparr>sp_db := Some db4, changed_photos := [], scan_runing := False\<rparr>"] exI [of _ db4]) simp
qed

lemma buffer_recorded:
  assumes sp: "sp_db sp = Some db" "faces_ok (view db)" "plain path" "\<not> mat_empty lib (imdecode lib buffer)"
    and an: "analyse lib env (imdecode lib buffer) (sp_labels sp) (sp_irt sp) = Inr (vs, labels, known, st)"
      "list_all (\<lambda>v. length v = 512) vs" "list_all (\<lambda>l. plain (c_str l)) labels"
    and room: "n_photo (view db) < MAX_ROWID" "n_object (view db) + int (length labels) \<le> MAX_ROWID"
      "n_photo_object (view db) + int (length labels) \<le> MAX_ROWID"
  shows "\<exists>sp1 db1 names sp2. ccai_sp_scan_file_buffer sq lib env path buffer sp = Inr (0, sp1) \<and> sp_db sp1 = Some db1 \<and> faces_ok (view db1) \<and>
    path \<notin> snd ` set (t_changed (view db1)) \<and> path \<in> snd ` set (t_photo (view db1)) \<and>
    ccai_sp_list_class_by_photo sq path (Some collect_names) [] (Some sp1) = Inr (0, names, Some sp2) \<and>
    set names = Some ` c_str ` set labels"
proof -
  have ok: "tables_ok (view db)" using sp(2) by (simp add: faces_ok_def)
  obtain db1 where d: "record_photo sq lib path vs labels (Some db) = Inr (Some db1)" "faces_ok (view db1)"
      "same_photos (recorded path (map c_str labels) (view db)) (view db1)"
    using record_photo_law [OF sp(3) an(3,2) sp(2) room(1,2)] by blast
  let ?sp = "sp\<lparr>sp_db := Some db1, sp_labels := known, sp_irt := st\<rparr>" and ?i = "n_photo (view db) + 1"
  have s: "ccai_sp_scan_file_buffer sq lib env path buffer sp = Inr (0, ?sp)"
    using sp(1,4) an(1) d(1) by (simp add: ccai_sp_scan_file_buffer_def Let_def)
  note r = recorded_props [OF ok room(1), of path "map c_str labels"]
  have i: "(?i, path) \<in> set (t_photo (view db1))" "path \<notin> snd ` set (t_changed (view db1))" using d(3) r(2,3) by (auto simp: same_photos_def)
  have "linked_names ?i (view db1) = c_str ` set labels"
    using recorded_names [OF ok room(1), of "map c_str labels" path] room(2,3) d(3) by (simp add: same_photos_def linked_names_def)
  moreover have "tables_ok (view db1)" using d(2) by (simp add: faces_ok_def)
  ultimately obtain names db' where "ccai_sp_list_class_by_photo sq path (Some collect_names) [] (Some ?sp) = Inr (0, names, Some (?sp\<lparr>sp_db := Some db'\<rparr>))"
    "set names = Some ` c_str ` set labels"
    using classes_query [OF sp(3) _ i(1), of ?sp] by auto
  moreover have "path \<in> snd ` set (t_photo (view db1))" using imageI [OF i(1), of snd] by simp
  ultimately show ?thesis
    using s d(2) i(2) by (intro exI [of _ ?sp] exI [of _ db1] exI [of _ names] exI [of _ "?sp\<lparr>sp_db := Some db'\<rparr>"]) simp
qed

end

section \<open>Classes of things in an image\<close>

text \<open>
  The value of a class at a position, and the class that wins there: the first one with the largest
  value, if that is above the threshold.
\<close>

definition seg_value :: "rat list \<Rightarrow> nat \<Rightarrow> nat \<Rightarrow> rat" where
  "seg_value d pos k = d ! (k * (SEG_H * SEG_W) + pos)"

definition wins :: "rat list \<Rightarrow> nat \<Rightarrow> nat \<Rightarrow> bool" where
  "wins d pos k \<longleftrightarrow> k < SEG_C \<and> cf_less (f64_round (9 / 10)) (Fin (seg_value d pos k)) \<and>
     (\<forall>i < k. seg_value d pos i < seg_value d pos k) \<and> (\<forall>i < SEG_C. seg_value d pos i \<le> seg_value d pos k)"

lemma f64_09: "f64_round (9 / 10) = Fin (8106479329266893 / 9007199254740992)"
proof -
  have "ilog2 (9 / 10) = - 1" by (rule ilog2_unique) simp_all
  moreover have "rne (9 / 10 * 9007199254740992) = 8106479329266893" by (rule rne_near) simp
  ultimately show ?thesis by (simp add: f64_round_def Let_def power_int_minus)
qed

lemma f64_006: "f64_round (6 / 100) = Fin (8646911284551352 / 144115188075855872)"
proof -
  have "ilog2 (3 / 50) = - 5" by (rule ilog2_unique) (simp_all add: power_int_minus)
  moreover have "rne (6 / 100 * 144115188075855872) = 8646911284551352" by (rule rne_near) simp
  ultimately show ?thesis by (simp add: f64_round_def Let_def power_int_minus)
qed

text \<open>The least number of positions that counts, \<^verbatim>\<open>h * w * 0.06\<close> in double precision.\<close>

lemma frequent_bound: "f64_mul (Fin (of_nat (SEG_H * SEG_W))) (f64_round (6 / 100)) = Fin 6144"
proof -
  have i: "ilog2 (27021597764222975 / 4398046511104) = 12" by (rule ilog2_unique) simp_all
  have "rne (27021597764222975 / 4) = 6755399441055744" by (rule rne_near) simp
  then show ?thesis unfolding f64_006 by (simp add: SEG_H_def SEG_W_def) (simp add: f64_round_def Let_def i power_int_minus)
qed

lemma best_class_first:
  assumes "length d = SEG_C * SEG_H * SEG_W" "pos < SEG_H * SEG_W" "n \<le> SEG_C"
  shows "\<exists>v c. best_class (map Fin d) pos [0..<n] (Fin 0) None = (Fin v, c) \<and>
    (case c of
       None \<Rightarrow> v = 0 \<and> (\<forall>i < n. seg_value d pos i \<le> 0)
     | Some k \<Rightarrow> k < n \<and> v = seg_value d pos k \<and> 0 < v \<and> (\<forall>i < k. seg_value d pos i < v) \<and> (\<forall>i < n. seg_value d pos i \<le> v))"
  using assms(3)
proof (induction n)
  case (Suc n)
  then obtain v c where b: "best_class (map Fin d) pos [0..<n] (Fin 0) None = (Fin v, c)"
    "case c of None \<Rightarrow> v = 0 \<and> (\<forall>i < n. seg_value d pos i \<le> 0)
     | Some k \<Rightarrow> k < n \<and> v = seg_value d pos k \<and> 0 < v \<and> (\<forall>i < k. seg_value d pos i < v) \<and> (\<forall>i < n. seg_value d pos i \<le> v)" by auto
  have app: "best_class e q (is @ js) p k = (case best_class e q is p k of (p', k') \<Rightarrow> best_class e q js p' k')" for e q "is" js p k
    by (induction "is" arbitrary: p k) (auto simp: Let_def)
  have "n * (SEG_H * SEG_W) + pos < length d"
  proof -
    have "n * (SEG_H * SEG_W) + pos < Suc n * (SEG_H * SEG_W)" using assms(2) by simp
    also have "\<dots> \<le> SEG_C * (SEG_H * SEG_W)" using Suc.prems by (intro mult_le_mono1)
    finally show ?thesis by (simp add: assms(1) mult.assoc)
  qed
  then have "map Fin d ! (n * (SEG_H * SEG_W) + pos) = Fin (seg_value d pos n)" by (simp add: seg_value_def)
  then have "best_class (map Fin d) pos [0..<Suc n] (Fin 0) None = (if v < seg_value d pos n then (Fin (seg_value d pos n), Some n) else (Fin v, c))"
    by (simp add: app b(1) Let_def)
  with b(2) show ?case
    by (cases "v < seg_value d pos n"; cases c) (fastforce simp: less_Suc_eq)+
qed simp

lemma wins_unique: "wins d pos k \<Longrightarrow> wins d pos k' \<Longrightarrow> k = k'"
  unfolding wins_def by (metis linorder_neqE_nat not_less)

lemma best_class_wins:
  assumes "length d = SEG_C * SEG_H * SEG_W" "pos < SEG_H * SEG_W"
  obtains v c where "best_class (map Fin d) pos [0..<SEG_C] (Fin 0) None = (v, c)"
    "cf_less (f64_round (9 / 10)) v \<longleftrightarrow> (\<exists>k. wins d pos k)" "wins d pos k \<Longrightarrow> c = Some k"
proof -
  obtain v c where b: "best_class (map Fin d) pos [0..<SEG_C] (Fin 0) None = (Fin v, c)"
    "case c of None \<Rightarrow> v = 0 \<and> (\<forall>i < SEG_C. seg_value d pos i \<le> 0)
     | Some k \<Rightarrow> k < SEG_C \<and> v = seg_value d pos k \<and> 0 < v \<and> (\<forall>i < k. seg_value d pos i < v) \<and> (\<forall>i < SEG_C. seg_value d pos i \<le> v)"
    using best_class_first [OF assms order_refl] by blast
  show ?thesis
  proof (cases c)
    case None
    then have "\<not> wins d pos k" for k using b(2) by (force simp: wins_def f64_09)
    with None b that show ?thesis by (auto simp: f64_09)
  next
    case (Some k0)
    have "cf_less (f64_round (9 / 10)) (Fin v) \<Longrightarrow> wins d pos k0" using b(2) Some by (auto simp: wins_def)
    moreover have "k = k0 \<and> cf_less (f64_round (9 / 10)) (Fin v)" if "wins d pos k" for k
    proof -
      have f: "k0 < SEG_C" "v = seg_value d pos k0" "\<forall>i < k0. seg_value d pos i < v" "\<forall>i < SEG_C. seg_value d pos i \<le> v"
        using b(2) Some by auto
      have g: "k < SEG_C" "\<forall>i < k. seg_value d pos i < seg_value d pos k" "\<forall>i < SEG_C. seg_value d pos i \<le> seg_value d pos k"
        "cf_less (f64_round (9 / 10)) (Fin (seg_value d pos k))" using that by (auto simp: wins_def)
      have e: "seg_value d pos k = v" using f(1,2,4) g(1,3) by (intro antisym) auto
      have "\<not> k < k0" "\<not> k0 < k" using f(2,3) g(2) e by auto
      with g(4) e show ?thesis by simp
    qed
    ultimately show ?thesis using that b(1) Some by metis
  qed
qed

lemma markers_loop_counts:
  assumes "length d = SEG_C * SEG_H * SEG_W" "SEG_C \<le> length labels"
  shows "list_all (\<lambda>pos. pos < SEG_H * SEG_W) ps \<Longrightarrow> length counts = SEG_C \<Longrightarrow>
    \<exists>ids' counts'. markers_loop (map Fin d) labels ps ids counts = Inr (ids', counts') \<and>
      (\<forall>k < SEG_C. counts' ! k = counts ! k + length (filter (\<lambda>pos. wins d pos k) ps)) \<and>
      (\<forall>k. ids' k = (if \<exists>pos \<in> set ps. wins d pos k then Some (labels ! k) else ids k))"
proof (induction ps arbitrary: ids counts)
  case (Cons pos ps)
  have pos: "pos < SEG_H * SEG_W" and ps: "list_all (\<lambda>pos. pos < SEG_H * SEG_W) ps" using Cons.prems(1) by auto
  show ?case
  proof (cases "\<exists>k. wins d pos k")
    case True
    then obtain k where k: "wins d pos k" by blast
    obtain v c where b: "best_class (map Fin d) pos [0..<SEG_C] (Fin 0) None = (v, c)" "cf_less (f64_round (9 / 10)) v" "c = Some k"
      by (rule best_class_wins [OF assms(1) pos, of k]) (use True k in auto)
    have kl: "k < SEG_C" "k < length labels" using k assms(2) by (auto simp: wins_def)
    obtain ids' counts' where r: "markers_loop (map Fin d) labels ps (ids(k \<mapsto> labels ! k)) (counts[k := counts ! k + 1]) = Inr (ids', counts')"
      "\<forall>j < SEG_C. counts' ! j = counts[k := counts ! k + 1] ! j + length (filter (\<lambda>pos. wins d pos j) ps)"
      "\<forall>j. ids' j = (if \<exists>pos \<in> set ps. wins d pos j then Some (labels ! j) else (ids(k \<mapsto> labels ! k)) j)"
      using Cons.IH [OF ps, of "counts[k := counts ! k + 1]" "ids(k \<mapsto> labels ! k)"] Cons.prems(2) unfolding length_list_update by blast
    have w: "wins d pos j \<longleftrightarrow> j = k" for j using k wins_unique by blast
    have "markers_loop (map Fin d) labels (pos # ps) ids counts = Inr (ids', counts')"
      by (simp only: markers_loop.simps b prod.case if_True option.case vec_at_in [OF kl(2)] rbind_Inr r(1))
    moreover have "\<forall>j < SEG_C. counts' ! j = counts ! j + length (filter (\<lambda>pos. wins d pos j) (pos # ps))"
      using r(2) Cons.prems(2) by (simp add: w nth_list_update)
    moreover have "\<forall>j. ids' j = (if \<exists>pos \<in> set (pos # ps). wins d pos j then Some (labels ! j) else ids j)"
      using r(3) by (simp add: w)
    ultimately show ?thesis by blast
  next
    case False
    obtain v c where b: "best_class (map Fin d) pos [0..<SEG_C] (Fin 0) None = (v, c)" "\<not> cf_less (f64_round (9 / 10)) v"
      by (rule best_class_wins [OF assms(1) pos]) (use False in auto)
    with False Cons.IH [OF ps Cons.prems(2), of ids] show ?thesis by simp
  qed
qed simp

lemma concat_map_if: "concat (map (\<lambda>k. if P k then [f k] else []) xs) = map f (filter P xs)"
  by (induction xs) auto

lemma frequent_classes_law:
  assumes "infer lib env img SEGMENTATION_MODEL 1 st = Inr (0, [map Fin d], st1)" "length d = SEG_C * SEG_H * SEG_W" "SEG_C \<le> length labels"
  shows "sp_segmentation lib env img labels st =
    Inr (0, map (\<lambda>k. labels ! k) (filter (\<lambda>k. 6144 \<le> card {pos. pos < SEG_H * SEG_W \<and> wins d pos k}) [0..<SEG_C]), labels, st1)"
proof -
  let ?ps = "[0..<SEG_H * SEG_W]" and ?n = "\<lambda>k. card {pos. pos < SEG_H * SEG_W \<and> wins d pos k}"
  obtain ids counts where r: "markers_loop (map Fin d) labels ?ps Map.empty (replicate SEG_C 0) = Inr (ids, counts)"
    "\<forall>k < SEG_C. counts ! k = length (filter (\<lambda>pos. wins d pos k) ?ps)"
    "\<forall>k. ids k = (if \<exists>pos \<in> set ?ps. wins d pos k then Some (labels ! k) else None)"
    using markers_loop_counts [OF assms(2,3), of ?ps "replicate SEG_C 0" Map.empty] by (auto simp: list_all_iff)
  have n: "length (filter (\<lambda>pos. wins d pos k) ?ps) = ?n k" for k
    using distinct_card [of "filter (\<lambda>pos. wins d pos k) ?ps"] by (simp add: Collect_conj_eq atLeast0LessThan lessThan_def)
  have m: "(case ids k of None \<Rightarrow> [] | Some l \<Rightarrow> if \<not> cf_less (Fin (of_nat (counts ! k))) (Fin 6144) then [l] else []) =
      (if 6144 \<le> ?n k then [labels ! k] else [])" if "k < SEG_C" for k
  proof -
    have "\<exists>pos \<in> set ?ps. wins d pos k" if "6144 \<le> ?n k"
    proof (rule ccontr)
      assume "\<not> (\<exists>pos \<in> set ?ps. wins d pos k)"
      then have "{pos. pos < SEG_H * SEG_W \<and> wins d pos k} = {}" by auto
      with that show False by simp
    qed
    moreover have "(6144 \<le> (of_nat (?n k) :: rat)) = (6144 \<le> ?n k)" by (metis of_nat_le_iff of_nat_numeral)
    ultimately show ?thesis using r(2,3) that n [of k] by (auto simp: not_less)
  qed
  have "frequent_markers ids counts = map (\<lambda>k. labels ! k) (filter (\<lambda>k. 6144 \<le> ?n k) [0..<SEG_C])"
  proof -
    have "frequent_markers ids counts = concat (map (\<lambda>k. case ids k of None \<Rightarrow> [] | Some l \<Rightarrow> if \<not> cf_less (Fin (of_nat (counts ! k))) (Fin 6144) then [l] else []) [0..<SEG_C])"
      unfolding frequent_markers_def frequent_bound by (rule arg_cong [of _ _ concat], rule map_cong) (auto split: option.split)
    also have "\<dots> = concat (map (\<lambda>k. if 6144 \<le> ?n k then [labels ! k] else []) [0..<SEG_C])"
      by (rule arg_cong [of _ _ concat], rule map_cong) (use m in auto)
    also have "\<dots> = map (\<lambda>k. labels ! k) (filter (\<lambda>k. 6144 \<le> ?n k) [0..<SEG_C])"
      by (rule concat_map_if)
    finally show ?thesis .
  qed
  moreover have "labels \<noteq> []" using assms(3) by (auto simp: SEG_C_def)
  ultimately show ?thesis
    using assms(1,2) r(1) by (simp add: sp_segmentation_def RT_INFER_ERROR_def RT_REMOTE_INFER_OK_def)
qed

section \<open>Properties\<close>

text \<open>
  Instances: texts in place of images, an engine that gives every class the score 1 at every position, and
  150 labels.
\<close>

definition uniform :: "rat list" where
  "uniform = replicate (SEG_C * SEG_H * SEG_W) 1"

definition uniform_entity :: "(string, unit) iinfer_entity" where
  "uniform_entity = \<lparr>ie_infer_image = (\<lambda>(i, a, r) model device w. (0, (i, a, [map Fin uniform]), w)),
     ie_infer_speech = (\<lambda>s l b c device t w. (0, t, w)), ie_infer_common = (\<lambda>io model device w. (0, io, w)),
     ie_video_infer_init = (\<lambda>m device i w. (0, m, i, w)), ie_video_infer_frame = (\<lambda>io m w. (0, io, w))\<rparr>"

definition photo_env :: "(string, unit) irt_env" where
  "photo_env = \<lparr>env_loader = (\<lambda>f. None), env_curl = (\<lambda>address param w. None)\<rparr>"

definition photo_irt :: "(string, unit) irt_state" where
  "photo_irt = \<lparr>st_os = sample_os\<lparr>os_shm := None\<rparr>,
     gIrtInf = \<lparr>soLibraries = [''OPENVINO'' \<mapsto> ''vino.so''], backendEntities = [''OPENVINO'' \<mapsto> \<lparr>ent_so = None, ent_ptr = Some uniform_entity\<rparr>]\<rparr>,
     gIrtTempInferDevice = Map.empty, st_world = (), st_signals = []\<rparr>"

definition text_lib :: "string photo_lib" where
  "text_lib = \<lparr>imdecode = map (\<lambda>b. char_of (unat b)), mat_empty = (\<lambda>i. i = []), mat_cols = (\<lambda>i. 1), mat_rows = (\<lambda>i. 1),
     float_to_string = (\<lambda>x. []), cv_imread = (\<lambda>p. if p = ''bad'' then [] else p), rect_and = (\<lambda>r s. r), mat_crop = (\<lambda>i r. i),
     mat_dot = (\<lambda>a b. Fin 0), c_sqrt = (\<lambda>x. x), label_file = None, c_realpath = Some\<rparr>"

definition skies :: "string list" where
  "skies = replicate 150 ''sky''"

definition pending_tables :: tables where
  "pending_tables = empty_tables\<lparr>t_changed := [(1, ''a.jpg''), (2, ''bad'')], n_changed := 2\<rparr>"

definition photo_library :: "(string, tables, unit) smart_photo" where
  "photo_library = \<lparr>sp_db = Some pending_tables, changed_photos = [], photos_gen = 0, scan_runing = True, sp_labels = skies, sp_irt = photo_irt\<rparr>"

lemma uniform_infer: "img \<noteq> [] \<Longrightarrow> infer text_lib photo_env img model n photo_irt = Inr (0, [map Fin uniform], photo_irt)"
  unfolding infer_def vino_ie_pipeline_infer_images_def offload_or_def
  by (simp add: check_policy_no_segment photo_irt_def text_lib_def to_server_def default_params_def with_entity_def getInferenceEntity_def
      infer_image_def uniform_entity_def Let_def)

lemma uniform_value: "pos < SEG_H * SEG_W \<Longrightarrow> k < SEG_C \<Longrightarrow> seg_value uniform pos k = 1"
proof -
  assume p: "pos < SEG_H * SEG_W" and k: "k < SEG_C"
  have "k * (SEG_H * SEG_W) + pos < Suc k * (SEG_H * SEG_W)" using p by simp
  also have "\<dots> \<le> SEG_C * (SEG_H * SEG_W)" using k by (intro mult_le_mono1) simp
  finally show ?thesis by (simp add: seg_value_def uniform_def mult.assoc)
qed

lemma uniform_wins: "pos < SEG_H * SEG_W \<Longrightarrow> wins uniform pos k \<longleftrightarrow> k = 0"
proof
  show "wins uniform pos k" if p: "pos < SEG_H * SEG_W" and k: "k = 0"
    using uniform_value [OF p] by (simp add: wins_def f64_09 k SEG_C_def)
  show "k = 0" if p: "pos < SEG_H * SEG_W" and w: "wins uniform pos k"
  proof (rule ccontr)
    assume "k \<noteq> 0"
    with w uniform_value [OF p, of 0] uniform_value [OF p, of k] show False by (auto simp: wins_def SEG_C_def)
  qed
qed

lemma uniform_counts: "card {pos. pos < SEG_H * SEG_W \<and> wins uniform pos k} = (if k = 0 then 102400 else 0)"
proof -
  have "{pos. pos < SEG_H * SEG_W \<and> wins uniform pos k} = (if k = 0 then {..<SEG_H * SEG_W} else {})"
    using uniform_wins by auto
  then show ?thesis by (simp add: SEG_H_def SEG_W_def)
qed

lemma uniform_segmentation: "img \<noteq> [] \<Longrightarrow> sp_segmentation text_lib photo_env img skies photo_irt = Inr (0, [''sky''], skies, photo_irt)"
proof -
  assume "img \<noteq> []"
  have "filter (\<lambda>k. 6144 \<le> card {pos. pos < SEG_H * SEG_W \<and> wins uniform pos k}) [0..<SEG_C] = [0]"
  proof -
    have "[0..<SEG_C] = 0 # [1..<SEG_C]" by (simp add: SEG_C_def upt_rec)
    moreover have "filter (\<lambda>k. 6144 \<le> card {pos. pos < SEG_H * SEG_W \<and> wins uniform pos k}) [1..<SEG_C] = []"
      by (auto simp: filter_empty_conv uniform_counts)
    ultimately show ?thesis by (simp add: uniform_counts)
  qed
  then show ?thesis
    using frequent_classes_law [OF uniform_infer [OF \<open>img \<noteq> []\<close>], of skies] by (simp add: uniform_def skies_def SEG_C_def)
qed

lemma uniform_analyse: "img \<noteq> [] \<Longrightarrow> analyse text_lib photo_env img skies photo_irt = Inr ([], [''sky''], skies, photo_irt)"
  using uniform_infer [of img FACE_DETECTION_MODEL 1] uniform_segmentation [of img]
  by (simp add: analyse_def sp_face_detection_def face_detection_ex_def RT_INFER_ERROR_def RT_REMOTE_INFER_OK_def)
    (simp add: uniform_def SEG_C_def SEG_H_def SEG_W_def)

text \<open>
  C15: which classes an image is given. With finite scores and a label for every class, the classes that
  win at 6144 or more of the 102400 positions, in the order of their numbers, where a
  class wins at a position if it is the first one with the largest score there and the score is
  above 0.9.
\<close>

theorem segmentation_frequent_classes:
  assumes "infer lib env img SEGMENTATION_MODEL 1 st = Inr (0, [map Fin d], st1)" "length d = SEG_C * SEG_H * SEG_W" "SEG_C \<le> length labels"
  shows "sp_segmentation lib env img labels st =
    Inr (0, map (\<lambda>k. labels ! k) (filter (\<lambda>k. 6144 \<le> card {pos. pos < SEG_H * SEG_W \<and> wins d pos k}) [0..<SEG_C]), labels, st1)"
  by (rule frequent_classes_law [OF assms])

theorem segmentation_frequent_classes_witness:
  "\<exists>ks. sp_segmentation text_lib photo_env ''a'' skies photo_irt = Inr (0, map (\<lambda>k. skies ! k) ks, skies, photo_irt) \<and> 0 \<in> set ks"
proof -
  let ?ks = "filter (\<lambda>k. 6144 \<le> card {pos. pos < SEG_H * SEG_W \<and> wins uniform pos k}) [0..<SEG_C]"
  have "length uniform = SEG_C * SEG_H * SEG_W" "SEG_C \<le> length skies" by (simp_all add: uniform_def skies_def SEG_C_def)
  moreover have "infer text_lib photo_env ''a'' SEGMENTATION_MODEL 1 photo_irt = Inr (0, [map Fin uniform], photo_irt)" by (rule uniform_infer) simp
  ultimately have "sp_segmentation text_lib photo_env ''a'' skies photo_irt = Inr (0, map (\<lambda>k. skies ! k) ?ks, skies, photo_irt)"
    by (intro segmentation_frequent_classes)
  moreover have "0 \<in> set ?ks" by (simp add: uniform_counts SEG_C_def)
  ultimately show ?thesis by blast
qed

text \<open>
  C4: a scan ends and does its work. If nobody interferes, no path has a quote, the tables are in
  order, no counter of rows runs out and the analysis of an image that can be loaded ends with embeddings of 512
  numbers and labels without a quote, then the thread comes to its end after finitely many steps, the
  table of changed photos is empty, and the photos are those that were there before and the changed ones
  that can be loaded. Each of these is linked to exactly the labels of an analysis of its image; every other
  photo keeps its row and its links.
\<close>

theorem scan_completes:
  assumes "photo_db sq view" "analysis_fine lib env ok" "ok (sp_labels sp) (sp_irt sp)"
    "scan_runing sp" "changed_photos sp = []" "sp_db sp = Some db" "faces_ok (view db)"
    "list_all (\<lambda>r. plain (snd r)) (t_changed (view db))"
    "n_photo (view db) + int (length (t_changed (view db))) \<le> MAX_ROWID"
    "n_object (view db) + 150 * int (length (t_changed (view db))) \<le> MAX_ROWID"
    "n_photo_object (view db) + 150 * int (length (t_changed (view db))) \<le> MAX_ROWID"
  shows "\<exists>n sp' db'. scan_thread n sq lib env At_start sp = Inr (At_end, sp') \<and> \<not> scan_runing sp' \<and> sp_db sp' = Some db' \<and> faces_ok (view db') \<and>
    t_changed (view db') = [] \<and> snd ` set (t_photo (view db')) = snd ` set (t_photo (view db)) \<union> waiting lib (view db) \<and>
    (\<forall>p \<in> waiting lib (view db). classified lib env ok p (view db')) \<and> untouched (waiting lib (view db)) (view db) (view db')"
  by (rule photo_db.scan_alone [OF assms])

lemma pending_ok: "faces_ok pending_tables"
  by (simp add: faces_ok_def tables_ok_def pending_tables_def empty_tables_def numbered_def MAX_ROWID_def)

lemma uniform_fine: "analysis_fine text_lib photo_env (\<lambda>known st. known = skies \<and> st = photo_irt)"
proof -
  have "plain (c_str ''sky'')" by (simp add: apos_def c_str_def)
  then show ?thesis unfolding analysis_fine_def using uniform_analyse by (auto simp: text_lib_def [THEN arg_cong [of _ _ mat_empty]])
qed

theorem scan_completes_witness:
  "\<exists>n sp' db' i. scan_thread n sql_interpreter text_lib photo_env At_start photo_library = Inr (At_end, sp') \<and> sp_db sp' = Some db' \<and>
     t_changed db' = [] \<and> snd ` set (t_photo db') = {''a.jpg''} \<and> (i, ''a.jpg'') \<in> set (t_photo db') \<and> linked_names i db' = {''sky''}"
proof -
  let ?ok = "\<lambda>known st. known = skies \<and> st = photo_irt"
  have room: "list_all (\<lambda>r. plain (snd r)) (t_changed pending_tables)"
    "n_photo pending_tables + int (length (t_changed pending_tables)) \<le> MAX_ROWID"
    "n_object pending_tables + 150 * int (length (t_changed pending_tables)) \<le> MAX_ROWID"
    "n_photo_object pending_tables + 150 * int (length (t_changed pending_tables)) \<le> MAX_ROWID"
    by (simp_all add: pending_tables_def empty_tables_def MAX_ROWID_def apos_def)
  have sky: "\<exists>i. (i, ''a.jpg'') \<in> set (t_photo db') \<and> linked_names i db' = {''sky''}" if c: "classified text_lib photo_env ?ok ''a.jpg'' db'" for db'
  proof -
    have "cv_imread text_lib ''a.jpg'' = ''a.jpg''" "c_str ''sky'' = ''sky''" by (simp_all add: text_lib_def c_str_def)
    moreover obtain i known st vs labels known' st' where "(i, ''a.jpg'') \<in> set (t_photo db')" "?ok known st"
      "analyse text_lib photo_env (cv_imread text_lib ''a.jpg'') known st = Inr (vs, labels, known', st')" "linked_names i db' = c_str ` set labels"
      using c by (rule classifiedE)
    ultimately show ?thesis using uniform_analyse [of "''a.jpg''"] by (intro exI [of _ i]) auto
  qed
  have lib: "sp_labels photo_library = skies \<and> sp_irt photo_library = photo_irt" "scan_runing photo_library" "changed_photos photo_library = []"
    "sp_db photo_library = Some pending_tables"
    by (simp_all add: photo_library_def)
  have w: "snd ` set (t_photo pending_tables) = {}" "waiting text_lib pending_tables = {''a.jpg''}"
    by (auto simp: waiting_def pending_tables_def empty_tables_def text_lib_def)
  from scan_completes [OF interpreter.photo_db_axioms uniform_fine lib pending_ok room, unfolded w Un_empty_left]
  show ?thesis
  proof (elim exE conjE)
    fix n sp' db'
    assume r: "scan_thread n sql_interpreter text_lib photo_env At_start photo_library = Inr (At_end, sp')" "sp_db sp' = Some db'"
      "t_changed db' = []" "snd ` set (t_photo db') = {''a.jpg''}" "\<forall>p \<in> {''a.jpg''}. classified text_lib photo_env ?ok p db'"
    obtain i where "(i, ''a.jpg'') \<in> set (t_photo db')" "linked_names i db' = {''sky''}" using sky [OF bspec [OF r(5) singletonI]] by (elim exE conjE)
    with r(1-4) show ?thesis by (intro exI conjI)
  qed
qed

text \<open>
  C11: what is recorded is what is reported. Scanning an image that can be decoded takes its path from
  the changed photos and enters it as a photo, and asking for the classes of the photo
  afterwards reports exactly the labels the analysis gave, under the same conditions.
\<close>

theorem scanned_classes_listed:
  assumes "photo_db sq view" "sp_db sp = Some db" "faces_ok (view db)" "plain path" "\<not> mat_empty lib (imdecode lib buffer)"
    "analyse lib env (imdecode lib buffer) (sp_labels sp) (sp_irt sp) = Inr (vs, labels, known, st)"
    "list_all (\<lambda>v. length v = 512) vs" "list_all (\<lambda>l. plain (c_str l)) labels"
    "n_photo (view db) < MAX_ROWID" "n_object (view db) + int (length labels) \<le> MAX_ROWID"
    "n_photo_object (view db) + int (length labels) \<le> MAX_ROWID"
  shows "\<exists>sp1 db1 names sp2. ccai_sp_scan_file_buffer sq lib env path buffer sp = Inr (0, sp1) \<and> sp_db sp1 = Some db1 \<and> faces_ok (view db1) \<and>
    path \<notin> snd ` set (t_changed (view db1)) \<and> path \<in> snd ` set (t_photo (view db1)) \<and>
    ccai_sp_list_class_by_photo sq path (Some collect_names) [] (Some sp1) = Inr (0, names, Some sp2) \<and>
    set names = Some ` c_str ` set labels"
  by (rule photo_db.buffer_recorded [OF assms])

theorem scanned_classes_listed_witness:
  "\<exists>sp1 names sp2. ccai_sp_scan_file_buffer sql_interpreter text_lib photo_env ''bad'' [97] photo_library = Inr (0, sp1) \<and>
     ccai_sp_list_class_by_photo sql_interpreter ''bad'' (Some collect_names) [] (Some sp1) = Inr (0, names, Some sp2) \<and> set names = {Some ''sky''}"
proof -
  have "imdecode text_lib [97] = ''a''" by (simp add: text_lib_def) code_simp
  moreover have "plain ''bad''" "plain (c_str ''sky'')" "c_str ''sky'' = ''sky''" by (simp_all add: apos_def c_str_def)
  moreover have "n_photo pending_tables < MAX_ROWID" "n_object pending_tables + int (length [''sky'']) \<le> MAX_ROWID"
    "n_photo_object pending_tables + int (length [''sky'']) \<le> MAX_ROWID"
    by (simp_all add: pending_tables_def empty_tables_def MAX_ROWID_def)
  ultimately show ?thesis
    using scanned_classes_listed [OF interpreter.photo_db_axioms, of photo_library pending_tables "''bad''" text_lib "[97]" photo_env
        "[]" "[''sky'']" skies photo_irt] uniform_analyse [of "''a''"]
    by (auto simp: photo_library_def pending_ok text_lib_def)
qed

section \<open>Integrity under interleaving\<close>

text \<open>The calls that change the library.\<close>

datatype sp_call =
    Add_file string
  | Add_dir string "dir_entry list option"
  | Remove_file string
  | Remove_all_file
  | Move_file string string
  | Scan_buffer string "u8 list"

fun run_call ::
  "'db sqlite \<Rightarrow> 'img photo_lib \<Rightarrow> ('img, 'w) irt_env \<Rightarrow> sp_call \<Rightarrow> ('img, 'db, 'w) smart_photo \<Rightarrow> ('img, 'db, 'w) sp_handle result" where
  "run_call sq lib env (Add_file path) sp = Inr (snd (ccai_sp_add_file sq lib path (Some sp)))"
| "run_call sq lib env (Add_dir dir des) sp = Inr (snd (ccai_sp_add_dir sq lib dir des (Some sp)))"
| "run_call sq lib env (Remove_file path) sp = Inr (snd (ccai_sp_remove_file sq path (Some sp)))"
| "run_call sq lib env Remove_all_file sp = Inr (snd (ccai_sp_remove_all_file sq (Some sp)))"
| "run_call sq lib env (Move_file a b) sp = Inr (snd (ccai_sp_move_file sq a b (Some sp)))"
| "run_call sq lib env (Scan_buffer path buffer) sp =
     rbind (ccai_sp_scan_file_buffer sq lib env path buffer sp) (\<lambda>(_, sp'). Inr (Some sp'))"

fun plain_call :: "sp_call \<Rightarrow> bool" where
  "plain_call (Remove_file path) \<longleftrightarrow> plain path"
| "plain_call (Move_file a b) \<longleftrightarrow> plain a \<and> plain b"
| "plain_call (Scan_buffer path buffer) \<longleftrightarrow> plain path"
| "plain_call _ \<longleftrightarrow> True"

fun plain_pc :: "scan_pc \<Rightarrow> bool" where
  "plain_pc (At_photo gen ps) \<longleftrightarrow> list_all plain ps"
| "plain_pc (At_infer gen p ps) \<longleftrightarrow> plain p \<and> list_all plain ps"
| "plain_pc (At_update gen p vs labels ps) \<longleftrightarrow> plain p \<and> list_all (\<lambda>l. plain (c_str l)) labels \<and> list_all plain ps"
| "plain_pc (At_remove gen p ps) \<longleftrightarrow> plain p \<and> list_all plain ps"
| "plain_pc _ \<longleftrightarrow> True"

definition library_inv :: "('db \<Rightarrow> tables) \<Rightarrow> ('img, 'db, 'w) smart_photo \<Rightarrow> bool" where
  "library_inv view sp \<longleftrightarrow>
     (\<exists>db. sp_db sp = Some db \<and> tables_ok (view db) \<and> list_all (\<lambda>r. plain (snd r)) (t_changed (view db))) \<and>
     list_all plain (changed_photos sp) \<and> list_all (\<lambda>l. plain (c_str l)) (sp_labels sp)"

definition system_inv :: "('db \<Rightarrow> tables) \<Rightarrow> ('img, 'db, 'w) sp_system \<Rightarrow> bool" where
  "system_inv view s \<longleftrightarrow> library_inv view (sys_sp s) \<and> list_all plain_pc (sys_threads s)"

definition plain_world :: "'img photo_lib \<Rightarrow> bool" where
  "plain_world lib \<longleftrightarrow> (\<forall>p q. c_realpath lib p = Some q \<longrightarrow> plain q) \<and>
     (\<forall>f. label_file lib = Some f \<longrightarrow> list_all (\<lambda>l. plain (c_str l)) (lines_of f))"

definition library_call ::
  "'db sqlite \<Rightarrow> 'img photo_lib \<Rightarrow> ('img, 'w) irt_env \<Rightarrow> ('img, 'db, 'w) smart_photo \<Rightarrow> ('img, 'db, 'w) smart_photo \<Rightarrow> bool" where
  "library_call sq lib env sp sp' \<longleftrightarrow> (\<exists>c. plain_call c \<and> run_call sq lib env c sp = Inr (Some sp'))"

text \<open>What every statement keeps.\<close>

definition plain_tables :: "tables \<Rightarrow> bool" where
  "plain_tables t \<longleftrightarrow> tables_ok t \<and> list_all (\<lambda>r. plain (snd r)) (t_changed t)"

lemma plain_tables_stmt: "plain_tables t \<Longrightarrow> (\<forall>p. st = Insert_changed p \<longrightarrow> plain p) \<Longrightarrow> plain_tables (table_of st t)"
  unfolding plain_tables_def using table_of_ok [of t st]
  by (cases st) (auto simp: table_of_def list_all_iff without_photo_def Let_def)

lemma plain_tables_person: "plain_tables t \<Longrightarrow> plain_tables (snd (eval_insert_person v t))"
  unfolding plain_tables_def using eval_insert_person_ok [of t v] by (auto simp: eval_insert_person_def)

lemma markers_from_labels:
  "markers_loop d labels ps ids counts = Inr (ids', counts') \<Longrightarrow> \<forall>k l. ids k = Some l \<longrightarrow> l \<in> set labels \<Longrightarrow> \<forall>k l. ids' k = Some l \<longrightarrow> l \<in> set labels"
proof (induction d labels ps ids counts rule: markers_loop.induct)
  case (2 d labels pos ps ids counts)
  obtain v c where b: "best_class d pos [0..<SEG_C] (Fin 0) None = (v, c)" by (cases "best_class d pos [0..<SEG_C] (Fin 0) None")
  show ?case
  proof (cases "cf_less (f64_round (9 / 10)) v")
    case True
    then obtain k where k: "c = Some k" "k < length labels" using "2.prems"(1) b
      by (auto simp: vec_at_def split: option.splits if_splits)
    have m: "markers_loop d labels ps (ids(k \<mapsto> labels ! k)) (counts[k := counts ! k + 1]) = Inr (ids', counts')" using "2.prems"(1) True b k by simp
    have "\<forall>j l. (ids(k \<mapsto> labels ! k)) j = Some l \<longrightarrow> l \<in> set labels" using "2.prems"(2) k(2) by simp
    from "2.IH"(1) [OF b [symmetric] True k(1) m this] show ?thesis .
  next
    case False
    with b "2.prems" "2.IH"(2) [OF b [symmetric] False] show ?thesis by simp
  qed
qed auto

lemma analyse_labels:
  assumes "analyse lib env img known st = Inr (vs, labels, known', st')" "plain_world lib" "list_all (\<lambda>l. plain (c_str l)) known"
  shows "list_all (\<lambda>l. plain (c_str l)) labels" "list_all (\<lambda>l. plain (c_str l)) known'"
proof -
  obtain r st1 where s: "sp_segmentation lib env img known st1 = Inr (r, labels, known', st')"
    using assms(1) by (auto simp: analyse_def result_simps)
  define k where "k = snd (if known = [] then read_lable_file lib known else (0, known))"
  have k: "list_all (\<lambda>l. plain (c_str l)) k"
    using assms(2,3) by (auto simp: k_def read_lable_file_def plain_world_def split: option.split)
  have kk: "known' = k \<and> (labels = [] \<or> (\<exists>d ids counts. markers_loop d k [0..<SEG_H * SEG_W] Map.empty (replicate SEG_C 0) = Inr (ids, counts) \<and>
      labels = frequent_markers ids counts))"
    using s unfolding sp_segmentation_def k_def by (auto simp: rbind_def split: sum.splits prod.splits if_splits)
  then show "list_all (\<lambda>l. plain (c_str l)) known'" using k by simp
  have "set (frequent_markers ids counts) \<subseteq> set k" if "markers_loop d k [0..<SEG_H * SEG_W] Map.empty (replicate SEG_C 0) = Inr (ids, counts)" for d ids counts
    using markers_from_labels [OF that] by (force simp: frequent_markers_def split: option.splits)
  then show "list_all (\<lambda>l. plain (c_str l)) labels" using kk k by (fastforce simp: list_all_iff)
qed

context photo_db
begin

lemma status_plain:
  assumes "parse_stmt s = Some st" "\<forall>p. st \<noteq> Insert_changed p" "plain_tables (view db)"
  obtains rc db' where "exec_status sq s (Some db) = (rc, Some db')" "plain_tables (view db')"
  using status_table [OF assms(1), of db] plain_tables_stmt [OF assms(3), of st] assms(2) by metis

lemma select_plain:
  assumes "parse_stmt s = Some st" "table_of st (view db) = view db" "exec_select sq ab s callback data (Some db) = Inr (rc, d, h)"
  obtains db' where "h = Some db'" "view db' = view db"
proof -
  obtain rc' rows db' where e: "sq_exec sq s db = (rc', rows, db')" by (cases "sq_exec sq s db") auto
  obtain rc2 rows2 t where v: "eval_stmt st (view db) = (rc2, rows2, t)" by (metis prod_cases3)
  have "view db' = view db" using exec_law [OF assms(1) e v] v assms(2) by (simp add: table_of_def)
  moreover have "h = Some db'" using assms(3) e by (auto simp: exec_select_def exec_callback_def result_simps)
  ultimately show ?thesis using that by blast
qed

lemma object_to_db_plain:
  "object_to_db sq i ls (Some db) = Inr h \<Longrightarrow> list_all (\<lambda>l. plain (c_str l)) ls \<Longrightarrow> plain_tables (view db) \<Longrightarrow>
     \<exists>db'. h = Some db' \<and> plain_tables (view db')"
proof (induction ls arbitrary: db)
  case (Cons l ls)
  have p: "plain (c_str l)" using Cons.prems(2) by simp
  obtain rc db1 where d1: "exec_status sq (''INSERT OR IGNORE INTO Object (name) VALUES ('' @ [apos] @ c_str l @ [apos] @ '');'') (Some db) = (rc, Some db1)"
    "plain_tables (view db1)"
    by (rule status_plain [OF parse_insert_object [OF p] _ Cons.prems(3)]) simp
  obtain rc2 stored h1 where o: "db_object_table_add sq (c_str l) (Some db) = Inr (rc2, stored, h1)" "stored \<noteq> None"
    using Cons.prems(1) by (auto simp: result_simps split: option.splits)
  have "rc = 0" using o unfolding db_object_table_add_def d1(1) prod.case by (auto split: if_splits)
  then have "exec_select sq False (''SELECT id FROM Object WHERE name ='' @ [apos] @ c_str l @ [apos] @ '';'')
      (\<lambda>r stored. rbind (id_columns r stored) (\<lambda>stored'. Inr (0, stored'))) None (Some db1) = Inr (rc2, stored, h1)"
    using o(1) unfolding db_object_table_add_def d1(1) prod.case by (simp del: append.simps)
  moreover have "table_of (Select_object (c_str l)) (view db1) = view db1" by (simp add: table_of_def)
  ultimately obtain db2 where d2: "h1 = Some db2" "view db2 = view db1" using select_plain [OF parse_select_object [OF p]] by metis
  obtain i2 where i2: "stored = Some i2" using o(2) by auto
  obtain db3 where d3: "snd (db_photo_object_table_add sq i i2 (Some db2)) = Some db3" "view db3 = table_of (Insert_photo_object i i2) (view db2)"
    using photo_object_add .
  have "plain_tables (view db3)" using plain_tables_stmt [of "view db2" "Insert_photo_object i i2"] d1(2) d2(2) d3(2) by simp
  moreover have "object_to_db sq i ls (Some db3) = Inr h" using Cons.prems(1) o(1) d2(1) d3(1) i2 by simp
  ultimately show ?case using Cons.IH [of db3] Cons.prems(2) by simp
qed auto

lemma link_persons_plain: "plain_tables (view db) \<Longrightarrow> \<exists>db'. link_persons sq i ids (Some db) = Some db' \<and> plain_tables (view db')"
proof (induction ids arbitrary: db)
  case (Cons j ids)
  obtain db1 where d1: "snd (db_photo_person_table_add sq i j (Some db)) = Some db1" "view db1 = table_of (Insert_photo_person i j) (view db)"
    using photo_person_add .
  with Cons.IH [of db1] plain_tables_stmt [OF Cons.prems, of "Insert_photo_person i j"] show ?case by simp
qed simp

lemma known_faces_plain:
  "known_faces sq lib i vs acc (Some db) = Inr (new, h) \<Longrightarrow> plain_tables (view db) \<Longrightarrow> \<exists>db'. h = Some db' \<and> plain_tables (view db')"
proof (induction vs arbitrary: acc db)
  case (Cons v vs)
  obtain rc ids h1 where e: "db_person_table_for_each_row sq (person_for_each_callback lib v) [] (Some db) = Inr (rc, ids, h1)"
    "known_faces sq lib i vs (if ids \<noteq> [] then acc else acc @ [v]) (if ids \<noteq> [] then link_persons sq i ids h1 else h1) = Inr (new, h)"
    using Cons.prems(1) by (auto simp: result_simps split: if_splits)
  obtain db1 where d1: "h1 = Some db1" "view db1 = view db"
    by (rule select_plain [OF parse_select_faces _ e(1) [unfolded db_person_table_for_each_row_def]]) (simp add: table_of_def)
  obtain db2 where "link_persons sq i ids (Some db1) = Some db2" "plain_tables (view db2)"
    using link_persons_plain [of db1 i ids] Cons.prems(2) d1(2) by auto
  with e(2) Cons.IH [of _ db2] Cons.IH [of _ db1] Cons.prems(2) d1 show ?case by (cases "ids = []") auto
qed auto

lemma new_faces_plain: "plain_tables (view db) \<Longrightarrow> \<exists>db'. new_faces sq i vs (Some db) = Some db' \<and> plain_tables (view db')"
proof (induction vs arbitrary: db)
  case (Cons v vs)
  obtain stored db1 where d1: "db_person_table_add sq v (Some db) = (if n_person (view db) < MAX_ROWID then 0 else - 1, stored, Some db1)"
    "view db1 = snd (eval_insert_person v (view db))"
    using person_add .
  let ?j = "case stored of None \<Rightarrow> 0 | Some i \<Rightarrow> i"
  obtain db2 where d2: "snd (db_photo_person_table_add sq i ?j (Some db1)) = Some db2" "view db2 = table_of (Insert_photo_person i ?j) (view db1)"
    using photo_person_add .
  have "plain_tables (view db2)"
    using plain_tables_stmt [of "view db1" "Insert_photo_person i ?j"] plain_tables_person [OF Cons.prems, of v] d1(2) d2(2) by simp
  with Cons.IH [of db2] d1(1) d2(1) show ?case by simp
qed simp

end

lemma library_inv_plain:
  "library_inv view sp \<longleftrightarrow> (\<exists>db. sp_db sp = Some db \<and> plain_tables (view db)) \<and> list_all plain (changed_photos sp) \<and>
     list_all (\<lambda>l. plain (c_str l)) (sp_labels sp)"
  by (simp add: library_inv_def plain_tables_def)

context photo_db
begin

lemma changed_remove_plain:
  assumes "plain p" "plain_tables (view db)"
  obtains db' where "snd (db_changed_table_remove sq p (Some db)) = Some db'" "plain_tables (view db')"
proof -
  obtain db' where "db_changed_table_remove sq p (Some db) = (0, Some db')" "view db' = table_of (Delete_changed p) (view db)"
    using changed_remove [OF assms(1)] .
  with that plain_tables_stmt [OF assms(2), of "Delete_changed p"] show ?thesis by simp
qed

lemma photo_add_plain:
  assumes "plain p" "plain_tables (view db)"
  obtains rc stored db' where "db_photo_table_add sq p (Some db) = (rc, stored, Some db')" "plain_tables (view db')"
proof -
  obtain rc1 db1 where d1: "exec_status sq (''PRAGMA foreign_keys=ON; DELETE FROM Photo WHERE path='' @ [apos] @ p @ [apos] @ '';'') (Some db) = (rc1, Some db1)"
    "plain_tables (view db1)"
    by (rule status_plain [OF parse_replace_photo [OF assms(1)] _ assms(2)]) simp
  obtain rc2 db2 where d2: "exec_status sq (''INSERT INTO Photo (path) VALUES ('' @ [apos] @ p @ [apos] @ '');'') (Some db1) = (rc2, Some db2)"
    "plain_tables (view db2)"
    by (rule status_plain [OF parse_insert_photo [OF assms(1)] _ d1(2)]) simp
  show ?thesis
  proof (cases "rc1 = 0")
    case True
    then show ?thesis
      using that d1 d2 by (cases "rc2 = 0") (simp_all only: db_photo_table_add_def d1(1) d2(1) prod.case if_True if_False simp_thms option.map)
  next
    case False
    then show ?thesis using that d1(2) by (simp only: db_photo_table_add_def d1(1) prod.case if_True simp_thms)
  qed
qed

lemma record_photo_plain:
  assumes "record_photo sq lib p vs labels (Some db) = Inr h" "plain p" "list_all (\<lambda>l. plain (c_str l)) labels" "plain_tables (view db)"
  shows "\<exists>db'. h = Some db' \<and> plain_tables (view db')"
proof -
  obtain db1 where d1: "snd (db_changed_table_remove sq p (Some db)) = Some db1" "plain_tables (view db1)"
    using changed_remove_plain [OF assms(2,4)] .
  obtain rc stored db2 where d2: "db_photo_table_add sq p (Some db1) = (rc, stored, Some db2)" "plain_tables (view db2)"
    using photo_add_plain [OF assms(2) d1(2)] .
  obtain i h1 where i: "stored = Some i" "object_to_db sq i labels (Some db2) = Inr h1" "face_id_to_db sq lib i vs h1 = Inr h"
    using assms(1) d1(1) d2(1) by (auto simp: record_photo_def result_simps split: option.splits)
  obtain db3 where d3: "h1 = Some db3" "plain_tables (view db3)" using object_to_db_plain [OF i(2) assms(3) d2(2)] by blast
  obtain new h2 where k: "known_faces sq lib i vs [] (Some db3) = Inr (new, h2)" "h = new_faces sq i new h2"
    using i(3) d3(1) by (auto simp: face_id_to_db_def result_simps)
  obtain db4 where "h2 = Some db4" "plain_tables (view db4)" using known_faces_plain [OF k(1) d3(2)] by blast
  with k(2) new_faces_plain [of db4 i new] show ?thesis by auto
qed

lemma scan_step_inv:
  assumes "scan_step sq lib env pc sp = Inr (pc', sp')" "library_inv view sp" "plain_pc pc" "plain_world lib"
  shows "library_inv view sp' \<and> plain_pc pc'"
proof -
  obtain db where db: "sp_db sp = Some db" "plain_tables (view db)" and cp: "list_all plain (changed_photos sp)"
    and lb: "list_all (\<lambda>l. plain (c_str l)) (sp_labels sp)" using assms(2) by (auto simp: library_inv_plain)
  show ?thesis
  proof (cases pc)
    case At_test
    show ?thesis
    proof (cases "scan_runing sp")
      case True
      obtain qs db1 where qs: "set qs = snd ` set (t_changed (view db))" "view db1 = view db"
        "db_changed_table_for_each_row sq (changed_for_each_callback True) (changed_photos sp) (Some db) = Inr (0, changed_photos sp @ qs, Some db1)"
        using changed_rows .
      let ?ps = "changed_photos sp @ qs"
      have pl: "list_all plain ?ps" using db(2) cp qs(1) by (auto simp: plain_tables_def list_all_iff)
      obtain db2 where d2: "snd (db_transaction_begin sq (Some db1)) = Some db2" "view db2 = table_of Begin (view db1)"
        using transaction .
      have p2: "plain_tables (view db1)" "plain_tables (view db2)" using db(2) qs(2) d2(2) plain_tables_stmt [of "view db1" Begin] by auto
      show ?thesis
      proof (cases "?ps = []")
        case ps: True
        with At_test True qs(3) db(1) assms(1) have "pc' = At_end" "sp' = sp\<lparr>sp_db := Some db1, changed_photos := [], scan_runing := False\<rparr>" by auto
        with p2(1) lb show ?thesis by (auto simp: library_inv_plain)
      next
        case ps: False
        with At_test True qs(3) db(1) assms(1) d2(1) have "\<exists>g. pc' = At_photo g ?ps \<and> sp' = sp\<lparr>sp_db := Some db2, changed_photos := ?ps, photos_gen := g\<rparr>" by (auto simp: Let_def)
        with p2(2) lb pl show ?thesis by (auto simp: library_inv_plain)
      qed
    qed (use At_test assms(1) db cp lb in \<open>auto simp: library_inv_plain\<close>)
  next
    case (At_photo gen ps)
    obtain db1 where d: "snd (db_transaction_end sq (Some db)) = Some db1" "view db1 = table_of End_txn (view db)"
      using transaction_ends .
    have "plain_tables (view db1)" using plain_tables_stmt [OF db(2), of End_txn] d(2) by simp
    then show ?thesis
      using At_photo assms(1,3) db cp lb d(1) by (auto simp: library_inv_plain split: list.splits if_splits)
  next
    case (At_infer gen p ps)
    show ?thesis
    proof (cases "mat_empty lib (cv_imread lib p)")
      case True
      with At_infer assms(1-3) show ?thesis by auto
    next
      case False
      then obtain vs labels known st where a: "analyse lib env (cv_imread lib p) (sp_labels sp) (sp_irt sp) = Inr (vs, labels, known, st)"
        "pc' = At_update gen p vs labels ps" "sp' = sp\<lparr>sp_labels := known, sp_irt := st\<rparr>"
        using At_infer assms(1) by (auto simp: result_simps Let_def)
      with analyse_labels [OF a(1) assms(4) lb] At_infer assms(3) db cp show ?thesis by (simp add: library_inv_plain)
    qed
  next
    case (At_update gen p vs labels ps)
    obtain h where h: "record_photo sq lib p vs labels (Some db) = Inr h" "pc' = At_photo gen ps" "sp' = sp\<lparr>sp_db := h\<rparr>"
      using At_update assms(1) db(1) by (auto simp: result_simps)
    with record_photo_plain [OF h(1) _ _ db(2)] At_update assms(3) cp lb show ?thesis by (auto simp: library_inv_plain)
  next
    case (At_remove gen p ps)
    have "plain p" using At_remove assms(3) by simp
    then obtain db1 where "snd (db_changed_table_remove sq p (Some db)) = Some db1" "plain_tables (view db1)"
      using changed_remove_plain [OF _ db(2)] by blast
    with At_remove assms(1,3) db(1) cp lb show ?thesis by (auto simp: library_inv_plain)
  qed (use assms in auto)
qed

lemma add_photo_plain:
  assumes "plain_world lib" "plain_tables (view db)"
  shows "\<exists>r db'. add_photo sq lib path (Some db) = (r, Some db') \<and> plain_tables (view db')"
proof (cases "c_realpath lib path")
  case (Some pp)
  then have pp: "plain pp" using assms(1) by (simp add: plain_world_def)
  obtain db' where "db_changed_table_add sq pp (Some db) =
      (if pp \<in> snd ` set (t_changed (view db)) \<or> n_changed (view db) < MAX_ROWID then 0 else - 1, Some db')"
    "view db' = snd (snd (eval_stmt (Insert_changed pp) (view db)))"
    using changed_add [OF pp] .
  with Some plain_tables_stmt [OF assms(2), of "Insert_changed pp"] pp show ?thesis by (simp add: add_photo_def table_of_def)
qed (simp add: add_photo_def assms)

lemma add_dir_plain:
  assumes "plain_world lib"
  shows "plain_tables (view db) \<Longrightarrow> \<exists>r' db'. add_dir sq lib dir des (Some db) = (r', Some db') \<and> plain_tables (view db')"
    and "plain_tables (view db) \<Longrightarrow> \<exists>r' db'. add_entries sq lib dir ds r (Some db) = (r', Some db') \<and> plain_tables (view db')"
proof (induction sq\<equiv>sq lib\<equiv>lib dir des "Some db" and sq\<equiv>sq lib\<equiv>lib dir ds r "Some db" arbitrary: db and db rule: add_dir_add_entries.induct)
  case (4 dir d_name d_type sub des r)
  show ?case
  proof (cases "d_name = ''.'' \<or> d_name = ''..''")
    case True
    with 4 show ?thesis by simp
  next
    case False
    let ?p = "dir @ ''/'' @ d_name"
    obtain k db1 where s: "(if is_dir d_type then add_dir sq lib ?p sub (Some db) else add_photo sq lib ?p (Some db)) = (k, Some db1)" "plain_tables (view db1)"
      using add_photo_plain [OF assms "4.prems", of ?p] "4.hyps"(2) [OF False refl _ "4.prems"] by (cases "is_dir d_type") auto
    have "add_entries sq lib dir (Dir_entry d_name d_type sub # des) r (Some db) = add_entries sq lib dir des (if k \<noteq> 0 then - 1 else r) (Some db1)"
      unfolding add_entries.simps if_not_P [OF False] Let_def s(1) prod.case ..
    with "4.hyps"(3) [OF False refl s(1) [symmetric] s(2)] show ?thesis by simp
  qed
qed simp_all

end

context photo_db
begin

lemma on_db_inv:
  assumes "library_inv view sp" "\<And>db. plain_tables (view db) \<Longrightarrow> \<exists>r db'. f (Some db) = (r, Some db') \<and> plain_tables (view db')"
    "snd (on_db f (Some sp)) = Some sp'"
  shows "library_inv view sp'"
proof -
  obtain db where db: "sp_db sp = Some db" "plain_tables (view db)" using assms(1) by (auto simp: library_inv_plain)
  obtain r db' where "f (Some db) = (r, Some db')" "plain_tables (view db')" using assms(2) [OF db(2)] by blast
  with assms(1,3) db(1) show ?thesis by (auto simp: library_inv_plain on_db_def)
qed

lemma status_plain_ex:
  assumes "parse_stmt s = Some st" "\<forall>p. st \<noteq> Insert_changed p" "plain_tables (view db)"
  shows "\<exists>rc db'. exec_status sq s (Some db) = (rc, Some db') \<and> plain_tables (view db')"
  using status_plain [OF assms] by metis

lemma add_dir_transaction:
  assumes "plain_world lib" "plain_tables (view db)"
  shows "\<exists>r db'. (case add_dir sq lib dir des (snd (db_transaction_begin sq (Some db))) of (r, h) \<Rightarrow> (r, snd (db_transaction_end sq h))) = (r, Some db') \<and>
    plain_tables (view db')"
proof -
  obtain db1 where d1: "snd (db_transaction_begin sq (Some db)) = Some db1" "view db1 = table_of Begin (view db)"
    using transaction .
  obtain r db2 where d2: "add_dir sq lib dir des (Some db1) = (r, Some db2)" "plain_tables (view db2)"
    using add_dir_plain(1) [OF assms(1), of db1 dir des] plain_tables_stmt [OF assms(2), of Begin] d1(2) by auto
  obtain db3 where d3: "snd (db_transaction_end sq (Some db2)) = Some db3" "view db3 = table_of End_txn (view db2)"
    using transaction_ends .
  show ?thesis using d1(1) d2 d3 plain_tables_stmt [OF d2(2), of End_txn] by simp
qed

lemma call_inv:
  assumes "library_call sq lib env sp sp'" "library_inv view sp" "plain_world lib"
  shows "library_inv view sp'"
proof -
  obtain c where c: "plain_call c" "run_call sq lib env c sp = Inr (Some sp')" using assms(1) by (auto simp: library_call_def)
  show ?thesis
  proof (cases c)
    case (Add_file path)
    then have "snd (on_db (add_photo sq lib path) (Some sp)) = Some sp'" using c(2) by (simp add: ccai_sp_add_file_def)
    then show ?thesis by (rule on_db_inv [OF assms(2), rotated]) (rule add_photo_plain [OF assms(3)])
  next
    case (Add_dir dir des)
    then have "snd (on_db (\<lambda>h. case add_dir sq lib dir des (snd (db_transaction_begin sq h)) of (r, h') \<Rightarrow> (r, snd (db_transaction_end sq h'))) (Some sp)) = Some sp'"
      using c(2) by (simp add: ccai_sp_add_dir_def)
    then show ?thesis by (rule on_db_inv [OF assms(2), rotated]) (rule add_dir_transaction [OF assms(3)])
  next
    case (Remove_file path)
    then have e: "plain path" "snd (on_db (db_photo_table_remove sq path) (Some sp)) = Some sp'" using c by (simp_all add: ccai_sp_remove_file_def)
    show ?thesis
      by (rule on_db_inv [OF assms(2) _ e(2)], unfold db_photo_table_remove_def) (rule status_plain_ex [OF parse_delete_photo [OF e(1)]], simp_all)
  next
    case Remove_all_file
    then have e: "snd (on_db (db_photo_table_remove_all sq) (Some sp)) = Some sp'" using c by (simp add: ccai_sp_remove_all_file_def)
    show ?thesis
      by (rule on_db_inv [OF assms(2) _ e], unfold db_photo_table_remove_all_def) (rule status_plain_ex [OF parse_delete_all], simp_all)
  next
    case (Move_file a b)
    then have e: "plain b" "plain a" "snd (on_db (db_photo_table_move sq a b) (Some sp)) = Some sp'" using c by (simp_all add: ccai_sp_move_file_def)
    show ?thesis
      by (rule on_db_inv [OF assms(2) _ e(3)], unfold db_photo_table_move_def) (rule status_plain_ex [OF parse_move_photo [OF e(1,2)]], simp_all)
  next
    case (Scan_buffer path buffer)
    obtain r where s: "ccai_sp_scan_file_buffer sq lib env path buffer sp = Inr (r, sp')" using c(2) Scan_buffer by (auto simp: result_simps)
    show ?thesis
    proof (cases "mat_empty lib (imdecode lib buffer)")
      case True
      with s assms(2) show ?thesis by (simp add: ccai_sp_scan_file_buffer_def)
    next
      case False
      obtain vs labels known st h where a: "analyse lib env (imdecode lib buffer) (sp_labels sp) (sp_irt sp) = Inr (vs, labels, known, st)"
        "record_photo sq lib path vs labels (sp_db sp) = Inr h" "sp' = sp\<lparr>sp_db := h, sp_labels := known, sp_irt := st\<rparr>"
        using s False by (auto simp: ccai_sp_scan_file_buffer_def result_simps)
      obtain db where db: "sp_db sp = Some db" "plain_tables (view db)" "list_all (\<lambda>l. plain (c_str l)) (sp_labels sp)"
        using assms(2) by (auto simp: library_inv_plain)
      note l = analyse_labels [OF a(1) assms(3) db(3)]
      have "\<exists>db'. h = Some db' \<and> plain_tables (view db')"
        using record_photo_plain [OF a(2) [unfolded db(1)] _ l(1) db(2)] c(1) Scan_buffer by simp
      with a(3) l(2) assms(2) show ?thesis by (auto simp: library_inv_plain)
    qed
  qed
qed

lemma system_keeps:
  assumes "plain_world lib"
  shows "preserved_invariant (system_step (library_call sq lib env) sq lib env) (system_inv view)"
proof
  fix s s'
  assume "system_step (library_call sq lib env) sq lib env s s'" "system_inv view s"
  then show "system_inv view s'"
  proof (induction rule: system_step.induct)
    case (thread_step i s pc sp)
    then have "plain_pc (sys_threads s ! i)" by (simp add: system_inv_def list_all_length)
    with thread_step scan_step_inv [OF thread_step.hyps(4) _ _ assms] show ?case
      by (auto simp: system_inv_def list_all_iff dest: set_update_subset_insert [THEN subsetD])
  next
    case (start_scan s r created sp)
    then show ?case by (auto simp: system_inv_def library_inv_def ccai_sp_scan_def split: if_splits)
  next
    case (stop_scan s r sp)
    then show ?case by (auto simp: system_inv_def library_inv_def ccai_sp_stop_scan_def split: if_splits)
  next
    case (api_call s sp)
    then show ?case using call_inv [OF api_call.hyps(2) _ assms] by (simp add: system_inv_def)
  qed
qed

end

text \<open>So the tables stay in order whatever the threads and the calls do, as long as no text has a quote.\<close>

lemma interleaved_tables_ok:
  assumes "photo_db sq view" "plain_world lib" "(system_step (library_call sq lib env) sq lib env)\<^sup>*\<^sup>* s s'" "system_inv view s"
  shows "\<exists>db. sp_db (sys_sp s') = Some db \<and> tables_ok (view db)"
  using preserved_invariant.run_keeps [OF photo_db.system_keeps [OF assms(1,2)] assms(3,4)] by (auto simp: system_inv_def library_inv_def)

definition idle_system :: "(string, tables, unit) sp_system" where
  "idle_system = \<lparr>sys_sp = photo_library\<lparr>sp_db := Some empty_tables, scan_runing := False\<rparr>, sys_threads = []\<rparr>"

lemma idle_inv: "system_inv (\<lambda>t. t) idle_system"
  by (simp add: system_inv_def library_inv_def idle_system_def photo_library_def empty_tables_ok skies_def apos_def c_str_def list_all_iff)
    (simp add: empty_tables_def)

section \<open>Defects\<close>

text \<open>A path with a quote cannot be entered: the statement is not well-formed.\<close>

lemma quote_not_entered:
  "db_changed_table_add sql_interpreter (''it'' @ [apos] @ ''s.jpg'') (Some empty_tables) = (- 1, Some empty_tables)"
proof -
  have "parse_stmt (''INSERT INTO ChangedPhoto (path) VALUES ('' @ [apos] @ (''it'' @ [apos] @ ''s.jpg'') @ [apos] @ '');'') = None"
    by code_simp
  moreover have "(''INSERT INTO ChangedPhoto (path) VALUES ('' @ [apos] @ (''it'' @ [apos] @ ''s.jpg'') @ [apos] @ '');'') \<noteq> create_tables"
    by code_simp
  ultimately show ?thesis
    unfolding db_changed_table_add_def exec_ignoring_def sql_interpreter_def
    by (simp del: append.simps add: SQLITE_ERROR_def SQLITE_OK_def SQLITE_CONSTRAINT_def)
qed

text \<open>
  A path with two quotes in a row is entered as one with a single quote, which cannot be removed
  again: the thread goes round for ever.
\<close>

definition quote_tables :: tables where
  "quote_tables = empty_tables\<lparr>t_changed := [(1, ''it'' @ [apos] @ ''s'')], n_changed := 1, t_last := 1\<rparr>"

lemma doubled_quote_entered:
  "db_changed_table_add sql_interpreter (''it'' @ [apos, apos] @ ''s'') (Some empty_tables) = (0, Some quote_tables)"
proof -
  have "parse_stmt (''INSERT INTO ChangedPhoto (path) VALUES ('' @ [apos] @ (''it'' @ [apos, apos] @ ''s'') @ [apos] @ '');'') =
      Some (Insert_changed (''it'' @ [apos] @ ''s''))"
    by code_simp
  moreover have "(''INSERT INTO ChangedPhoto (path) VALUES ('' @ [apos] @ (''it'' @ [apos, apos] @ ''s'') @ [apos] @ '');'') \<noteq> create_tables"
    by code_simp
  moreover have "eval_stmt (Insert_changed (''it'' @ [apos] @ ''s'')) empty_tables = (SQLITE_OK, [], quote_tables)"
    by (simp add: quote_tables_def empty_tables_def MAX_ROWID_def)
  ultimately show ?thesis
    unfolding db_changed_table_add_def exec_ignoring_def sql_interpreter_def by (simp del: append.simps eval_stmt.simps)
qed

lemma quote_not_removed:
  "db_changed_table_remove sql_interpreter (''it'' @ [apos] @ ''s'') (Some t) = (- 1, Some t)"
proof -
  have "parse_stmt (''DELETE FROM ChangedPhoto WHERE path = '' @ [apos] @ (''it'' @ [apos] @ ''s'') @ [apos] @ '';'') = None" by code_simp
  moreover have "(''DELETE FROM ChangedPhoto WHERE path = '' @ [apos] @ (''it'' @ [apos] @ ''s'') @ [apos] @ '';'') \<noteq> create_tables" by code_simp
  ultimately show ?thesis
    unfolding db_changed_table_remove_def exec_status_def sql_interpreter_def by (simp del: append.simps add: SQLITE_ERROR_def SQLITE_OK_def)
qed

definition quote_library :: "(string, tables, unit) smart_photo" where
  "quote_library = photo_library\<lparr>sp_db := Some quote_tables\<rparr>"

definition blind_lib :: "string photo_lib" where
  "blind_lib = text_lib\<lparr>cv_imread := (\<lambda>p. [])\<rparr>"

lemma interpreter_exec: "s \<noteq> create_tables \<Longrightarrow> parse_stmt s = Some st \<Longrightarrow> sq_exec sql_interpreter s t = eval_stmt st t"
  by (simp add: sql_interpreter_def)

lemma short_not_create: "length s \<noteq> length create_tables \<Longrightarrow> s \<noteq> create_tables"
  by auto

lemma quote_round: "scan_thread 5 sql_interpreter blind_lib photo_env At_test (quote_library\<lparr>photos_gen := g\<rparr>) =
    Inr (At_test, quote_library\<lparr>photos_gen := g + 2\<rparr>)"
proof -
  let ?p = "''it'' @ [apos] @ ''s''" and ?t = "quote_tables\<lparr>t_open := True\<rparr>"
  have nc: "''SELECT path FROM ChangedPhoto;'' \<noteq> create_tables" "''BEGIN;'' \<noteq> create_tables" "''END;'' \<noteq> create_tables" by code_simp+
  have q: "t_changed quote_tables = [(1, ?p)]" "t_open quote_tables = False" by (simp_all add: quote_tables_def empty_tables_def)
  have s1: "db_changed_table_for_each_row sql_interpreter (changed_for_each_callback True) [] (Some quote_tables) = Inr (0, [?p], Some quote_tables)"
    unfolding db_changed_table_for_each_row_def exec_select_def exec_callback_def option.case interpreter_exec [OF nc(1) parse_select_changed]
    by (simp add: q changed_for_each_callback_def)
  have s2: "db_transaction_begin sql_interpreter (Some quote_tables) = (0, Some ?t)"
    unfolding db_transaction_begin_def exec_status_def option.case interpreter_exec [OF nc(2) parse_begin] by (simp add: q)
  have s3: "db_transaction_end sql_interpreter (Some ?t) = (0, Some quote_tables)"
    unfolding db_transaction_end_def exec_status_def option.case interpreter_exec [OF nc(3) parse_end] by (simp add: quote_tables_def empty_tables_def)
  let ?q = "\<lambda>k. quote_library\<lparr>photos_gen := k\<rparr>"
  let ?l = "quote_library\<lparr>sp_db := Some ?t, changed_photos := [?p], photos_gen := Suc g\<rparr>"
  have l: "scan_runing quote_library" "changed_photos quote_library = []" "sp_db quote_library = Some quote_tables"
    by (simp_all add: quote_library_def photo_library_def)
  have e: "mat_empty blind_lib (cv_imread blind_lib p)" for p by (simp add: blind_lib_def text_lib_def)
  have "scan_step sql_interpreter blind_lib photo_env At_test (?q g) = Inr (At_photo (Suc g) [?p], ?l)" using l s1 s2 by simp
  moreover have "scan_step sql_interpreter blind_lib photo_env (At_photo (Suc g) [?p]) ?l = Inr (At_infer (Suc g) ?p [], ?l)" using l(1) by simp
  moreover have "scan_step sql_interpreter blind_lib photo_env (At_infer (Suc g) ?p []) ?l = Inr (At_remove (Suc g) ?p [], ?l)" using e by simp
  moreover have "scan_step sql_interpreter blind_lib photo_env (At_remove (Suc g) ?p []) ?l = Inr (At_photo (Suc g) [], ?l)"
    using quote_not_removed [of ?t] by simp
  moreover have "scan_step sql_interpreter blind_lib photo_env (At_photo (Suc g) []) ?l = Inr (At_test, ?q (g + 2))"
    using s3 l by simp
  ultimately show ?thesis by (simp only: numeral_eq_Suc pred_numeral_simps scan_thread.simps rbind_Inr prod.case BitM.simps)
qed

lemma quote_scans_for_ever:
  "scan_thread (Suc (5 * k)) sql_interpreter blind_lib photo_env At_start (quote_library\<lparr>photos_gen := g\<rparr>) =
     Inr (At_test, quote_library\<lparr>photos_gen := g + 2 * k\<rparr>)"
proof -
  have "scan_thread (5 * k) sql_interpreter blind_lib photo_env At_test (quote_library\<lparr>photos_gen := g\<rparr>) =
      Inr (At_test, quote_library\<lparr>photos_gen := g + 2 * k\<rparr>)"
  proof (induction k arbitrary: g)
    case (Suc k)
    then show ?case using scan_thread_compose [OF quote_round, of "5 * k"] Suc [of "g + 2"]
      by (simp only: mult_Suc_right) (simp add: add.commute add.left_commute)
  qed simp
  then show ?thesis by simp
qed

text \<open>Stopping a scan and starting another one before the first has ended leaves two threads at work.\<close>

lemma two_scan_threads:
  "\<exists>s. (system_step (\<lambda>_ _. False) sql_interpreter text_lib photo_env)\<^sup>*\<^sup>* idle_system s \<and> sys_threads s = [At_start, At_start]"
proof -
  let ?step = "system_step (\<lambda>_ _. False) sql_interpreter text_lib photo_env"
  let ?on = "(sys_sp idle_system)\<lparr>scan_runing := True\<rparr>" and ?off = "sys_sp idle_system"
  let ?s1 = "idle_system\<lparr>sys_sp := ?on, sys_threads := [At_start]\<rparr>"
  let ?s2 = "?s1\<lparr>sys_sp := ?on\<lparr>scan_runing := False\<rparr>\<rparr>"
  let ?s3 = "?s2\<lparr>sys_sp := ?on\<lparr>scan_runing := False, scan_runing := True\<rparr>, sys_threads := [At_start] @ [At_start]\<rparr>"
  have off: "\<not> scan_runing ?off" by (simp add: idle_system_def)
  have "?step idle_system ?s1"
    using system_step.start_scan [of idle_system 0 True ?on "\<lambda>_ _. False" sql_interpreter text_lib photo_env] off
    by (simp add: mutex_free_def idle_system_def ccai_sp_scan_def)
  moreover have "?step ?s1 ?s2"
    using system_step.stop_scan [of ?s1 0 "?on\<lparr>scan_runing := False\<rparr>" "\<lambda>_ _. False" sql_interpreter text_lib photo_env]
    by (simp add: mutex_free_def ccai_sp_stop_scan_def holds_mutex_def)
  moreover have "?step ?s2 ?s3"
    using system_step.start_scan [of ?s2 0 True "?on\<lparr>scan_runing := False, scan_runing := True\<rparr>" "\<lambda>_ _. False" sql_interpreter text_lib photo_env]
    by (simp add: mutex_free_def ccai_sp_scan_def holds_mutex_def)
  ultimately have "?step\<^sup>*\<^sup>* idle_system ?s3" by (meson converse_rtranclp_into_rtranclp rtranclp.rtrancl_refl)
  then show ?thesis by (intro exI [of _ ?s3]) simp
qed

text \<open>
  With two threads at work, the second one pushes the changed photos that the first one has not recorded yet into the vector the
  first one iterates over, while that one infers: its next turn of the loop is undefined.
\<close>

lemma second_thread_invalidates:
  assumes "photo_db sq view" "sp_db sp = Some db" "t_changed (view db) \<noteq> []" "scan_runing sp" "scan_step sq lib env At_test sp = Inr (pc, sp2)"
  shows "scan_step sq lib env (At_photo (photos_gen sp) ps) (sp2\<lparr>sp_db := h, sp_labels := ls, sp_irt := st\<rparr>) = Inl Undefined"
proof -
  obtain qs db1 where "set qs = snd ` set (t_changed (view db))"
    "db_changed_table_for_each_row sq (changed_for_each_callback True) (changed_photos sp) (Some db) = Inr (0, changed_photos sp @ qs, Some db1)"
    using photo_db.changed_rows [OF assms(1)] by metis
  moreover from this assms(3) have "qs \<noteq> []" by auto
  ultimately have "photos_gen sp2 = Suc (photos_gen sp)" using assms(2,4,5) by (auto simp: Let_def)
  then show ?thesis by simp
qed

text \<open>A photo with two faces of a person counts as two photos of that person.\<close>

lemma photo_counted_twice:
  "\<exists>s. ccai_sp_count_photo_by_person sql_interpreter 1 (Some (photo_library\<lparr>sp_db := Some (empty_tables\<lparr>t_photo := [(1, ''a'')],
     t_person := [(1, None, [])], t_photo_person := [(1, 1, 1), (2, 1, 1)]\<rparr>)\<rparr>)) = Inr (2, s)"
proof -
  let ?t = "empty_tables\<lparr>t_photo := [(1, ''a'')], t_person := [(1, None, [])], t_photo_person := [(1, 1, 1), (2, 1, 1)]\<rparr>"
  let ?s = "''SELECT p.id, p.path FROM Photo p '' @ ''INNER JOIN PhotoPerson pp ON p.id = pp.photo_id '' @
    ''INNER JOIN Person ps ON ps.id = pp.person_id '' @ ''WHERE ps.id = '' @ int_to_string 1 @ '';''"
  have nc: "?s \<noteq> create_tables" by code_simp
  have "eval_stmt (Photos_of_person 1) ?t = (SQLITE_OK, [photo_row (1, ''a''), photo_row (1, ''a'')], ?t)" by simp
  then show ?thesis
    unfolding ccai_sp_count_photo_by_person_def db_list_photo_by_person_def exec_select_def exec_callback_def
    by (simp add: interpreter_exec [OF nc parse_photos_of_person] as_int_def photo_library_def del: append.simps eval_stmt.simps)
qed

end
