(* ===== verification/SmartPhotoService.thy ===== *)
theory SmartPhotoService
  imports PhotoScans
begin

text \<open>
  The FastCGI service in front of the photo library, \<^verbatim>\<open>api-gateway/fcgi/smart-photo/cpp/fcgi_smartphoto.cpp\<close>: a request
  is a JSON object with a method and a parameter, the reply another one. The JSON library is a
  parameter; memory is never exhausted and log messages are left out.
\<close>

section \<open>Values\<close>

datatype json = J_null | J_bool bool | J_int int | J_string string | J_array "json list" | J_object "(string \<times> json) list"

text \<open>\<^verbatim>\<open>json_tokener_parse\<close>, \<^verbatim>\<open>json_object_to_json_string\<close> and \<^verbatim>\<open>json_object_get_int64\<close>.\<close>

record json_lib =
  js_parse :: "string \<Rightarrow> json option"
  js_print :: "json \<Rightarrow> string"
  js_int64 :: "json \<Rightarrow> int"

text \<open>\<^verbatim>\<open>json_object_get_string\<close>: a null pointer for null, the text of anything that is no string.\<close>

definition js_string :: "json_lib \<Rightarrow> json \<Rightarrow> string option" where
  "js_string js v = (case v of J_null \<Rightarrow> None | J_string s \<Rightarrow> Some (c_str s) | _ \<Rightarrow> Some (js_print js v))"

text \<open>A null pointer where a C string is needed.\<close>

definition need :: "'a option \<Rightarrow> 'a result" where
  "need x = (case x of None \<Rightarrow> Inl Undefined | Some y \<Rightarrow> Inr y)"

definition int32_of :: "int \<Rightarrow> int" where
  "int32_of n = (n + 2 ^ 31) mod 2 ^ 32 - 2 ^ 31"

section \<open>Requests\<close>

text \<open>
  \<^verbatim>\<open>strncmp(key, "method", 6)\<close> and \<^verbatim>\<open>strncmp(key, "param", 4)\<close> compare the first characters; null is a null
  pointer, as if there were no parameter.
\<close>

fun request_fields :: "json_lib \<Rightarrow> (string \<times> json) list \<Rightarrow> string \<Rightarrow> json option \<Rightarrow> (string \<times> json option) result" where
  "request_fields js [] method req_param = Inr (method, req_param)"
| "request_fields js ((key, v) # kvs) method req_param =
     (if take 6 key = ''method'' then rbind (need (js_string js v)) (\<lambda>m. request_fields js kvs m req_param)
      else if take 4 key = ''para'' then request_fields js kvs method (if v = J_null then None else Some v)
      else request_fields js kvs method req_param)"

definition collect_rows :: "(int \<times> string option) list list_cb" where
  "collect_rows = (\<lambda>n name acc. (0, acc @ [(n, name)]))"

text \<open>The objects in the lists of the replies; a class must have a name.\<close>

fun class_objects :: "(int \<times> string option) list \<Rightarrow> json list result" where
  "class_objects [] = Inr []"
| "class_objects ((n, name) # rs) =
     rbind (need name) (\<lambda>s. rbind (class_objects rs) (\<lambda>js. Inr (J_object [(''id'', J_int n), (''name'', J_string s)] # js)))"

definition photo_object :: "int \<times> string option \<Rightarrow> json" where
  "photo_object r = J_object ([(''id'', J_int (fst r))] @ (case snd r of None \<Rightarrow> [] | Some p \<Rightarrow> [(''path'', J_string p)]))"

fun person_objects ::
  "'db sqlite \<Rightarrow> (int \<times> string option) list \<Rightarrow> ('img, 'db, 'w) sp_handle \<Rightarrow> (json list \<times> ('img, 'db, 'w) sp_handle) result" where
  "person_objects sq [] s = Inr ([], s)"
| "person_objects sq ((n, name) # rs) s =
     (let i = int32_of n; nm = (case name of None \<Rightarrow> [] | Some t \<Rightarrow> t)
      in rbind (ccai_sp_count_photo_by_person sq i s) (\<lambda>(cnt, s1).
         rbind (person_objects sq rs s1) (\<lambda>(js, s2).
           Inr (J_object ([(''id'', J_int i)] @ (if nm \<noteq> [] then [(''name'', J_string nm)] else []) @ [(''count'', J_int cnt)]) # js, s2))))"

definition result_only :: "int \<Rightarrow> json" where
  "result_only r = J_object [(''result'', J_int r)]"

definition no_result :: string where
  "no_result = ''{'' @ quoted ''result'' @ '' : -1}''"

text \<open>
  What a method does: the reply, or none if an error left the prepared one; whether a thread was
  created; and the library. The contents of a directory are looked up by its name.
\<close>

definition run_method ::
  "json_lib \<Rightarrow> 'db sqlite \<Rightarrow> 'img photo_lib \<Rightarrow> (string \<Rightarrow> dir_entry list option) \<Rightarrow> string \<Rightarrow> json option \<Rightarrow> ('img, 'db, 'w) sp_handle \<Rightarrow>
     (json option \<times> bool \<times> ('img, 'db, 'w) sp_handle) result" where
  "run_method js sq lib dirs method req_param s =
     (if method = ''add_dir'' then
        (case req_param of None \<Rightarrow> Inr (None, False, s)
         | Some v \<Rightarrow> rbind (need (js_string js v)) (\<lambda>path.
             (case ccai_sp_add_dir sq lib path (dirs path) s of (r, s') \<Rightarrow> Inr (Some (result_only r), False, s'))))
      else if method = ''scan_start'' then
        (case ccai_sp_scan s of (r, created, s') \<Rightarrow> Inr (Some (result_only r), created, s'))
      else if method = ''scan_running'' then
        Inr (Some (J_object [(''result'', J_int 0), (''running'', J_bool (ccai_sp_scan_running s \<noteq> 0))]), False, s)
      else if method = ''scan_stop'' then
        (case ccai_sp_stop_scan s of (r, s') \<Rightarrow> Inr (Some (result_only r), False, s'))
      else if method = ''waiting_scan_count'' then
        rbind (ccai_sp_waiting_scan_count sq s) (\<lambda>(c, s').
          (let n = int32_of c in Inr (Some (J_object [(''result'', J_int (if n < 0 then - 1 else 0)), (''count'', J_int n)]), False, s')))
      else if method = ''list_all_class'' then
        (case ccai_sp_list_all_class lib collect_rows [] of (r, rows) \<Rightarrow>
           if r \<noteq> 0 then Inr (None, False, s)
           else rbind (class_objects rows) (\<lambda>_.
             Inr (Some (J_object [(''clsses'', J_array (map (\<lambda>(_, name). J_string (case name of None \<Rightarrow> [] | Some n \<Rightarrow> n)) rows)), (''result'', J_int 0)]), False, s)))
      else if method = ''list_class'' then
        rbind (ccai_sp_list_class sq (Some collect_rows) [] s) (\<lambda>(r, rows, s').
          if r \<noteq> 0 then Inr (None, False, s')
          else rbind (class_objects rows) (\<lambda>cs. Inr (Some (J_object [(''clsses'', J_array cs), (''result'', J_int 0)]), False, s')))
      else if method = ''list_person'' then
        rbind (ccai_sp_list_person sq (Some collect_rows) [] s) (\<lambda>(r, rows, s1).
          if r \<noteq> 0 then Inr (None, False, s1)
          else rbind (person_objects sq rows s1) (\<lambda>(ps, s2). Inr (Some (J_object [(''person'', J_array ps), (''result'', J_int 0)]), False, s2)))
      else if method = ''list_photo_by_class'' \<or> method = ''list_photo_by_person'' \<or> method = ''list_all_photo'' then
        (if req_param = None \<and> method \<noteq> ''list_all_photo'' then Inr (None, False, s)
         else
           rbind (if method = ''list_photo_by_class''
                  then rbind (need (js_string js (the req_param))) (\<lambda>name. ccai_sp_list_photo_by_class sq name (Some collect_rows) [] s)
                  else if method = ''list_photo_by_person''
                  then ccai_sp_list_photo_by_person sq (js_int64 js (the req_param)) (Some collect_rows) [] s
                  else ccai_sp_list_photo sq (Some collect_rows) [] s) (\<lambda>(r, rows, s').
             Inr (if r \<noteq> 0 then None else Some (J_object [(''photos'', J_array (map photo_object rows)), (''result'', J_int 0)]), False, s')))
      else if method = ''add_file'' then
        (case req_param of None \<Rightarrow> Inr (None, False, s)
         | Some v \<Rightarrow> rbind (need (js_string js v)) (\<lambda>path.
             (case ccai_sp_add_file sq lib path s of (r, s1) \<Rightarrow>
                if r = 0 then (case ccai_sp_scan s1 of (r2, created, s2) \<Rightarrow> Inr (Some (result_only r2), created, s2))
                else Inr (Some (result_only r), False, s1))))
      else if method = ''del_file'' then
        (case req_param of None \<Rightarrow> Inr (None, False, s)
         | Some v \<Rightarrow> rbind (need (js_string js v)) (\<lambda>path.
             (case ccai_sp_remove_file sq path s of (r, s') \<Rightarrow> Inr (Some (result_only r), False, s'))))
      else if method = ''mv_file'' then
        (case req_param of
           Some (J_object kvs) \<Rightarrow>
             (case (map_of kvs ''from'', map_of kvs ''to'') of
                (Some a, Some b) \<Rightarrow>
                  rbind (need (js_string js a)) (\<lambda>from_file. rbind (need (js_string js b)) (\<lambda>to_file.
                    (case ccai_sp_move_file sq from_file to_file s of (r, s') \<Rightarrow> Inr (Some (result_only r), False, s'))))
              | _ \<Rightarrow> Inr (None, False, s))
         | _ \<Rightarrow> Inr (None, False, s))
      else if method = ''del_all_file'' then
        (case ccai_sp_remove_all_file sq s of (r, s') \<Rightarrow> Inr (Some (result_only r), False, s'))
      else Inr (None, False, s))"

text \<open>\<^verbatim>\<open>json_object_object_foreach\<close> reads through a null pointer if the value is no object.\<close>

definition smartphoto_resp ::
  "json_lib \<Rightarrow> 'db sqlite \<Rightarrow> 'img photo_lib \<Rightarrow> (string \<Rightarrow> dir_entry list option) \<Rightarrow> string \<Rightarrow> ('img, 'db, 'w) sp_handle \<Rightarrow>
     (string \<times> bool \<times> ('img, 'db, 'w) sp_handle) result" where
  "smartphoto_resp js sq lib dirs post_data s =
     (case js_parse js post_data of
        None \<Rightarrow> Inr (no_result, False, s)
      | Some J_null \<Rightarrow> Inr (no_result, False, s)
      | Some (J_object kvs) \<Rightarrow>
          rbind (request_fields js kvs [] None) (\<lambda>(method, req_param).
          rbind (run_method js sq lib dirs method req_param s) (\<lambda>(resp, created, s').
            Inr (case resp of None \<Rightarrow> no_result | Some v \<Rightarrow> js_print js v, created, s')))
      | Some _ \<Rightarrow> Inl Undefined)"

section \<open>The loop\<close>

definition CORS :: string where
  "CORS = ''Access-Control-Allow-Origin: *'' @ line_end @ ''Access-Control-Allow-Methods: DELETE, POST, GET, OPTIONS'' @ line_end @
     ''Access-Control-Allow-Headers: Content-Type, '' @ ''Access-Control-Allow-Headers, Authorization, '' @ ''X-Requested-With'' @ line_end"

definition cors_error :: "string \<Rightarrow> string" where
  "cors_error msg = CORS @ ''Status: 404 error'' @ line_end @ ''Content-Type: text/html'' @ line_end @ line_end @ msg"

definition cors_ok :: string where
  "cors_ok = CORS @ ''Status: 200 OK'' @ line_end @ ''Content-Type: application/json'' @ line_end @ ''charset: utf-8'' @ line_end @
     ''X-Content-Type-Options: nosniff'' @ line_end @ ''X-frame-options: deny'' @ line_end @ line_end"

text \<open>
  The body of the loop in \<^verbatim>\<open>main\<close> for one request. The zero behind the data is outside the buffer if the
  client sends as much as the buffer holds.
\<close>

definition smartphoto_request ::
  "json_lib \<Rightarrow> 'db sqlite \<Rightarrow> 'img photo_lib \<Rightarrow> (string \<Rightarrow> dir_entry list option) \<Rightarrow> fcgi_request \<Rightarrow> ('img, 'db, 'w) sp_handle \<Rightarrow>
     (string \<times> bool \<times> ('img, 'db, 'w) sp_handle) result" where
  "smartphoto_request js sq lib dirs req s =
     (case req_CONTENT_LENGTH req of
        None \<Rightarrow> Inr (cors_error ''get content length error'', False, s)
      | Some lenstr \<Rightarrow>
          (let data_length = unat (1 + strtoul lenstr)
           in if data_length > INT32_MAX then Inr (cors_error ''get content length error'', False, s)
              else if \<not> req_malloc req then Inr (cors_error ''malloc buffer error'', False, s)
              else
                (let data = take data_length (req_in req)
                 in if length data < data_length
                    then
                      (let post_str = takeWhile (\<lambda>c. c \<noteq> CHR 0x00) data
                       in if get_data post_str ''healthcheck'' = ''1'' then Inr (cors_ok @ ''healthcheck ok'', False, s)
                          else rbind (smartphoto_resp js sq lib dirs post_str s) (\<lambda>(ret, created, s'). Inr (cors_ok @ ret, created, s')))
                    else Inl Undefined)))"

text \<open>\<^verbatim>\<open>init_smartphoto_dir\<close>: the file of the database from the environment, cut to the size of its buffer.\<close>

definition PATH_MAX :: nat where
  "PATH_MAX = 4096"

definition init_smartphoto_dir :: "string option \<Rightarrow> string" where
  "init_smartphoto_dir d =
     take (PATH_MAX - 1) (case d of Some dir \<Rightarrow> dir @ ''/'' @ ''.smartphoto.db'' | None \<Rightarrow> ''/smartphoto/'' @ ''/'' @ ''.smartphoto.db'')"

section \<open>What a listing returns\<close>

lemma deliver_rows:
  assumes "\<And>r. r \<in> set rs \<Longrightarrow> list_columns str (row_of r) 0 None = Inr (fst r, Some (snd r))"
  shows "deliver (list_callback str collect_rows) (map row_of rs) acc = Inr (False, acc @ map (\<lambda>(n, t). (n, Some t)) rs)"
  using assms
proof (induction rs arbitrary: acc)
  case (Cons r rs)
  have "deliver (list_callback str collect_rows) (map row_of rs) (acc @ [(fst r, Some (snd r))]) =
      Inr (False, (acc @ [(fst r, Some (snd r))]) @ map (\<lambda>(n, t). (n, Some t)) rs)"
    using Cons.prems by (intro Cons.IH) auto
  moreover have "list_callback str collect_rows (row_of r) acc = Inr (0, acc @ [(fst r, Some (snd r))])"
    using Cons.prems [of r] by (simp add: list_callback_def collect_rows_def)
  ultimately show ?case by (simp add: split_beta)
qed simp

lemma mset_map_listed:
  assumes "mset ys = mset (map f xs)"
  obtains zs where "mset zs = mset xs" "ys = map f zs"
  using assms
proof (induction ys arbitrary: xs thesis)
  case (Cons y ys)
  have "y \<in> set (map f xs)" using mset_eq_setD [OF Cons.prems(2)] by auto
  then obtain x where x: "x \<in> set xs" "y = f x" by auto
  have "mset ys = mset (map f (remove1 x xs))" using x Cons.prems(2) [symmetric] by (simp add: image_mset_Diff)
  then obtain zs where "mset zs = mset (remove1 x xs)" "ys = map f zs" using Cons.IH by blast
  with x Cons.prems(1) [of "x # zs"] show ?case by simp
qed simp



lemma photo_row_columns:
  "0 < fst ph \<Longrightarrow> fst ph \<le> MAX_ROWID \<Longrightarrow> list_columns ''path'' (photo_row ph) 0 None = Inr (fst ph, Some (snd ph))"
  using stoll_int_to_string [of "fst ph"] MAX_ROWID_less [of "fst ph"] by (simp add: photo_row_def id_cell_def cell_stoll_def)

context photo_db
begin

text \<open>A query for numbers and texts reports exactly the rows of its table and changes nothing.\<close>

lemma rows_query:
  assumes "parse_stmt s = Some st" "eval_stmt st (view db) = (SQLITE_OK, map row_of rs, view db)" "sp_db sp = Some db"
    "\<And>r. r \<in> set rs \<Longrightarrow> list_columns str (row_of r) 0 None = Inr (fst r, Some (snd r))"
  shows "\<exists>listed db'. query keep (exec_select sq False s) str (Some collect_rows) [] (Some sp) =
      Inr (0, map (\<lambda>(n, t). (n, Some t)) listed, Some (sp\<lparr>sp_db := Some db'\<rparr>)) \<and> mset listed = mset rs \<and> view db' = view db"
proof -
  obtain rows db' where d: "mset rows = mset (map row_of rs)" "view db' = view db"
    "exec_select sq False s (list_callback str collect_rows) [] (Some db) =
       rbind (deliver (list_callback str collect_rows) rows []) (\<lambda>(aborted, d). Inr (if aborted \<and> \<not> False then - 1 else 0, d, Some db'))"
    using select_law [OF assms(1,2)] .
  obtain listed where l: "mset listed = mset rs" "rows = map row_of listed" using mset_map_listed [OF d(1)] .
  have "list_columns str (row_of r) 0 None = Inr (fst r, Some (snd r))" if "r \<in> set listed" for r
    using assms(4) [of r] that mset_eq_setD [OF l(1)] by simp
  then have dl: "deliver (list_callback str collect_rows) rows [] = Inr (False, map (\<lambda>(n, t). (n, Some t)) listed)"
    using deliver_rows [of listed str row_of "[]"] by (simp add: l(2))
  have "query keep (exec_select sq False s) str (Some collect_rows) [] (Some sp) =
      Inr (0, map (\<lambda>(n, t). (n, Some t)) listed, Some (sp\<lparr>sp_db := Some db'\<rparr>))"
    unfolding query_def assms(3) prod.case option.case d(3) dl by simp
  with l(1) d(2) show ?thesis by blast
qed

lemma list_class_query:
  assumes "tables_ok (view db)" "sp_db sp = Some db"
  shows "\<exists>listed db'. ccai_sp_list_class sq (Some collect_rows) [] (Some sp) =
      Inr (0, map (\<lambda>(n, t). (n, Some t)) listed, Some (sp\<lparr>sp_db := Some db'\<rparr>)) \<and> mset listed = mset (t_object (view db)) \<and> view db' = view db"
  unfolding ccai_sp_list_class_def db_class_table_list_def
proof (rule rows_query [OF parse_list_objects _ assms(2)])
  fix r
  assume "r \<in> set (t_object (view db))"
  with assms(1) show "list_columns ''name'' (object_row r) 0 None = Inr (fst r, Some (snd r))"
    by (intro object_row_columns) (fastforce simp: tables_ok_def numbered_def)+
qed simp

lemma list_photo_query:
  assumes "tables_ok (view db)" "sp_db sp = Some db"
  shows "\<exists>listed db'. ccai_sp_list_photo sq (Some collect_rows) [] (Some sp) =
      Inr (0, map (\<lambda>(n, t). (n, Some t)) listed, Some (sp\<lparr>sp_db := Some db'\<rparr>)) \<and> mset listed = mset (t_photo (view db)) \<and> view db' = view db"
  unfolding ccai_sp_list_photo_def db_photo_table_list_def
proof (rule rows_query [OF parse_list_photos _ assms(2)])
  fix r
  assume "r \<in> set (t_photo (view db))"
  with assms(1) show "list_columns ''path'' (photo_row r) 0 None = Inr (fst r, Some (snd r))"
    by (intro photo_row_columns) (fastforce simp: tables_ok_def numbered_def)+
qed simp

end

section \<open>What a request does to the library\<close>

text \<open>No text of the parameter contains a quote.\<close>

definition plain_json :: "json_lib \<Rightarrow> json \<Rightarrow> bool" where
  "plain_json js v \<longleftrightarrow> (\<forall>t. js_string js v = Some t \<longrightarrow> plain t) \<and>
     (\<forall>kvs k w t. v = J_object kvs \<longrightarrow> map_of kvs k = Some w \<longrightarrow> js_string js w = Some t \<longrightarrow> plain t)"

abbreviation kept :: "('db \<Rightarrow> tables) \<Rightarrow> ('img, 'db, 'w) sp_handle \<Rightarrow> bool" where
  "kept view s \<equiv> (\<exists>sp. s = Some sp \<and> library_inv view sp)"

lemma need_Inr [result_simps]: "need x = Inr y \<longleftrightarrow> x = Some y"
  by (auto simp: need_def split: option.splits)

context photo_db
begin

lemma listing_kept:
  assumes "parse_stmt s = Some st" "\<And>t. table_of st t = t" "library_inv view sp"
    "query keep (exec_select sq False s) str (Some cb) d (Some sp) = Inr (r, d', s')"
  shows "kept view s'"
proof -
  obtain db where db: "sp_db sp = Some db" "plain_tables (view db)" using assms(3) by (auto simp: library_inv_plain)
  obtain rc h where q: "exec_select sq False s (list_callback str cb) d (Some db) = Inr (rc, d', h)" "s' = Some (sp\<lparr>sp_db := h\<rparr>)"
    using assms(4) db(1) by (auto simp: query_def result_simps)
  obtain db' where "h = Some db'" "view db' = view db" using select_plain [OF assms(1) assms(2) q(1)] .
  with q(2) assms(3) db show ?thesis by (auto simp: library_inv_plain)
qed

lemma count_kept:
  assumes "library_inv view sp" "ccai_sp_count_photo_by_person sq n (Some sp) = Inr (c, s')"
  shows "kept view s'"
proof -
  obtain db where db: "sp_db sp = Some db" "plain_tables (view db)" using assms(1) by (auto simp: library_inv_plain)
  obtain rc d h where q: "db_list_photo_by_person sq n (\<lambda>_ count. rbind (as_int (count + 1)) (\<lambda>c. Inr (0, c))) 0 (Some db) = Inr (rc, d, h)"
    "s' = Some (sp\<lparr>sp_db := h\<rparr>)"
    using assms(2) db(1) by (auto simp: ccai_sp_count_photo_by_person_def result_simps)
  obtain db' where "h = Some db'" "view db' = view db"
    using select_plain [OF parse_photos_of_person _ q(1) [unfolded db_list_photo_by_person_def]] by (auto simp: table_of_def)
  with q(2) assms(1) db show ?thesis by (auto simp: library_inv_plain)
qed

lemma waiting_kept:
  assumes "library_inv view sp" "ccai_sp_waiting_scan_count sq (Some sp) = Inr (c, s')"
  shows "kept view s'"
proof -
  obtain db where db: "sp_db sp = Some db" "plain_tables (view db)" using assms(1) by (auto simp: library_inv_plain)
  obtain rc d h where q: "exec_select sq False ''SELECT COUNT(*) from ChangedPhoto;''
        (\<lambda>r c. case r of [(_, v)] \<Rightarrow> rbind (cell_stoll v) (\<lambda>n. Inr (0, n)) | _ \<Rightarrow> Inr (- 1, c)) (- 1) (Some db) = Inr (rc, d, h)"
    "s' = Some (sp\<lparr>sp_db := h\<rparr>)"
    using assms(2) db(1) unfolding ccai_sp_waiting_scan_count_def db_changed_table_count_def by (auto simp: result_simps)
  obtain db' where "h = Some db'" "view db' = view db" using select_plain [OF parse_count_changed _ q(1)] by (auto simp: table_of_def)
  with q(2) assms(1) db show ?thesis by (auto simp: library_inv_plain)
qed

lemma person_objects_kept:
  "person_objects sq rs s = Inr (js, s') \<Longrightarrow> kept view s \<Longrightarrow> kept view s'"
proof (induction rs arbitrary: s js)
  case (Cons r rs)
  obtain c s1 js1 where "ccai_sp_count_photo_by_person sq (int32_of (fst r)) s = Inr (c, s1)" "person_objects sq rs s1 = Inr (js1, s')"
    using Cons.prems(1) by (cases r) (auto simp: Let_def result_simps)
  with Cons.prems(2) count_kept Cons.IH show ?case by blast
qed simp

lemma call_kept:
  assumes "plain_world lib" "library_inv view sp" "plain_call c" "run_call sq lib undefined c sp = Inr s'" "s' \<noteq> None"
  shows "kept view s'"
  using assms call_inv [of lib undefined sp] by (auto simp: library_call_def)

lemma scans_kept:
  "library_inv view sp \<Longrightarrow> kept view (snd (snd (ccai_sp_scan (Some sp))))"
  "library_inv view sp \<Longrightarrow> kept view (snd (ccai_sp_stop_scan (Some sp)))"
  by (auto simp: ccai_sp_scan_def ccai_sp_stop_scan_def library_inv_def)

lemma calls_kept:
  assumes "plain_world lib" "library_inv view sp"
  shows "kept view (snd (ccai_sp_add_dir sq lib p des (Some sp)))"
    "kept view (snd (ccai_sp_add_file sq lib p (Some sp)))"
    "plain p \<Longrightarrow> kept view (snd (ccai_sp_remove_file sq p (Some sp)))"
    "plain p \<Longrightarrow> plain q \<Longrightarrow> kept view (snd (ccai_sp_move_file sq p q (Some sp)))"
    "kept view (snd (ccai_sp_remove_all_file sq (Some sp)))"
  using call_kept [OF assms, of "Add_dir p des"] call_kept [OF assms, of "Add_file p"] call_kept [OF assms, of "Remove_file p"]
    call_kept [OF assms, of "Move_file p q"] call_kept [OF assms, of Remove_all_file]
  by (simp_all add: ccai_sp_add_dir_def ccai_sp_add_file_def ccai_sp_remove_file_def ccai_sp_move_file_def ccai_sp_remove_all_file_def on_db_def split_beta)

lemma lists_kept:
  assumes "library_inv view sp"
  shows "ccai_sp_list_class sq (Some cb) d (Some sp) = Inr (r, d', s') \<Longrightarrow> kept view s'"
    "ccai_sp_list_person sq (Some cb) d (Some sp) = Inr (r, d', s') \<Longrightarrow> kept view s'"
    "ccai_sp_list_photo sq (Some cb) d (Some sp) = Inr (r, d', s') \<Longrightarrow> kept view s'"
    "ccai_sp_list_photo_by_person sq n (Some cb) d (Some sp) = Inr (r, d', s') \<Longrightarrow> kept view s'"
    "plain p \<Longrightarrow> ccai_sp_list_photo_by_class sq p (Some cb) d (Some sp) = Inr (r, d', s') \<Longrightarrow> kept view s'"
  unfolding ccai_sp_list_class_def ccai_sp_list_person_def ccai_sp_list_photo_def ccai_sp_list_photo_by_person_def ccai_sp_list_photo_by_class_def
    db_class_table_list_def db_person_table_list_def db_photo_table_list_def db_list_photo_by_person_def db_list_photo_by_class_def
  by (rule listing_kept [OF parse_list_objects _ assms], simp_all add: table_of_def)
    (rule listing_kept [OF parse_list_persons _ assms], simp_all add: table_of_def,
     rule listing_kept [OF parse_list_photos _ assms], simp_all add: table_of_def,
     rule listing_kept [OF parse_photos_of_person _ assms], simp_all add: table_of_def,
     rule listing_kept [OF parse_photos_of_class _ assms], simp_all add: table_of_def)

lemma run_method_kept:
  assumes "plain_world lib" "library_inv view sp" "\<And>v. req_param = Some v \<Longrightarrow> plain_json js v"
    "run_method js sq lib dirs method req_param (Some sp) = Inr (reply, created, s')"
  shows "kept view s'"
proof -
  note calls = calls_kept [OF assms(1,2)] and lists = lists_kept [OF assms(2)] and scans = scans_kept [OF assms(2)]
  have txt_ok: "plain p" if "req_param = Some v" "js_string js v = Some p" for v p
    using assms(3) [OF that(1)] that(2) by (simp add: plain_json_def)
  have mem_ok: "plain p" if "req_param = Some (J_object kvs)" "map_of kvs k = Some w" "js_string js w = Some p" for kvs k w p
    using assms(3) [OF that(1)] that(2,3) by (auto simp: plain_json_def)
  consider "method = ''add_dir''" | "method = ''scan_start''" | "method = ''scan_stop''" | "method = ''waiting_scan_count''" |
    "method = ''list_class''" | "method = ''list_person''" | "method = ''list_photo_by_class''" | "method = ''list_photo_by_person''" |
    "method = ''list_all_photo''" | "method = ''add_file''" | "method = ''del_file''" | "method = ''mv_file''" | "method = ''del_all_file''" |
    "method \<notin> {''add_dir'', ''scan_start'', ''scan_stop'', ''waiting_scan_count'', ''list_class'', ''list_person'', ''list_photo_by_class'',
      ''list_photo_by_person'', ''list_all_photo'', ''add_file'', ''del_file'', ''mv_file'', ''del_all_file''}"
    by (simp only: insert_iff empty_iff) argo
  then show ?thesis
  proof cases
    case 1
    show ?thesis using assms(4,2) calls(1) unfolding 1 run_method_def
      by (auto simp: result_simps split_beta split: option.splits)
  next
    case 2
    show ?thesis using assms(4,2) scans(1) unfolding 2 run_method_def
      by (simp add: split_beta)
  next
    case 3
    show ?thesis using assms(4,2) scans(2) unfolding 3 run_method_def
      by (simp add: split_beta)
  next
    case 4
    show ?thesis using assms(4,2) unfolding 4 run_method_def
      by (auto simp: result_simps Let_def dest!: waiting_kept [OF assms(2)])
  next
    case 5
    show ?thesis using assms(4,2) unfolding 5 run_method_def
      by (auto simp: result_simps split: if_splits dest!: lists(1))
  next
    case 6
    obtain r rows s1 where l: "ccai_sp_list_person sq (Some collect_rows) [] (Some sp) = Inr (r, rows, s1)"
      "s' = s1 \<or> (\<exists>ps. person_objects sq rows s1 = Inr (ps, s'))"
      using assms(4) unfolding 6 run_method_def by (auto simp: result_simps split: if_splits)
    then show ?thesis using lists(2) [OF l(1)] person_objects_kept by metis
  next
    case 7
    show ?thesis using assms(4,2) unfolding 7 run_method_def
      by (auto simp: result_simps split: if_splits dest!: lists(5) [OF txt_ok, rotated 2])
  next
    case 8
    show ?thesis using assms(4,2) unfolding 8 run_method_def
      by (auto simp: result_simps split: if_splits dest!: lists(4))
  next
    case 9
    show ?thesis using assms(4,2) unfolding 9 run_method_def
      by (auto simp: result_simps split: if_splits dest!: lists(3))
  next
    case 10
    show ?thesis using assms(4,2) calls(2) unfolding 10 run_method_def
      by (auto simp: result_simps split_beta split: option.splits if_splits) (metis snd_conv scans_kept(1))
  next
    case 11
    show ?thesis using assms(4,2) calls(3) [OF txt_ok] unfolding 11 run_method_def
      by (auto simp: result_simps split_beta split: option.splits)
  next
    case 12
    show ?thesis using assms(4,2) calls(4) [OF mem_ok mem_ok] unfolding 12 run_method_def
      by (auto simp: result_simps split_beta split: option.splits json.splits)
  next
    case 13
    show ?thesis using assms(4,2) calls(5) unfolding 13 run_method_def
      by (simp add: split_beta)
  next
    case 14
    with assms(2,4) show ?thesis by (auto simp: run_method_def result_simps split: if_splits prod.splits)
  qed
qed

end

text \<open>So an answered request leaves the tables in order, if no text of it has a quote.\<close>

lemma answered_tables_ok:
  assumes "photo_db sq view" "plain_world lib" "library_inv view sp"
    "\<And>kvs m v. js_parse js post_data = Some (J_object kvs) \<Longrightarrow> request_fields js kvs [] None = Inr (m, Some v) \<Longrightarrow> plain_json js v"
    "smartphoto_resp js sq lib dirs post_data (Some sp) = Inr (reply, created, s')"
  shows "\<exists>sp' db. s' = Some sp' \<and> sp_db sp' = Some db \<and> tables_ok (view db)"
proof -
  have "kept view s'"
  proof (cases "\<exists>kvs. js_parse js post_data = Some (J_object kvs)")
    case True
    then obtain kvs m p where k: "js_parse js post_data = Some (J_object kvs)" "request_fields js kvs [] None = Inr (m, p)"
      "\<exists>v. run_method js sq lib dirs m p (Some sp) = Inr (v, created, s')"
      using assms(5) by (auto simp: smartphoto_resp_def result_simps)
    then obtain v where v: "run_method js sq lib dirs m p (Some sp) = Inr (v, created, s')" by blast
    show ?thesis by (rule photo_db.run_method_kept [OF assms(1,2,3) _ v]) (use assms(4) [OF k(1)] k(2) in simp)
  next
    case False
    then show ?thesis using assms(3,5) by (auto simp: smartphoto_resp_def split: option.splits json.splits)
  qed
  then show ?thesis by (auto simp: library_inv_def)
qed

section \<open>Properties\<close>












section \<open>Defects\<close>

text \<open>A posted number, string or list is used as an object.\<close>

lemma posted_number_undefined: "js_parse js post_data = Some (J_int n) \<Longrightarrow> smartphoto_resp js sq lib dirs post_data s = Inl Undefined"
  by (simp add: smartphoto_resp_def)

text \<open>Every key that begins with four letters is taken for the parameter.\<close>

lemma paragraph_is_parameter:
  "request_fields js [(''method'', J_string ''del_file''), (''paragraph'', J_string p)] [] None = Inr (''del_file'', Some (J_string p))"
  by (simp add: need_def js_string_def c_str_def)

end
