(* ===== verification/LogClient.thy ===== *)
theory LogClient
  imports GatewayServices
begin

unbundle bit_operations_syntax

text \<open>
  The logging library: the syslog client of \<^verbatim>\<open>log/log.c\<close> and the front end of \<^verbatim>\<open>log/ccai_log.c\<close>.
  The operating system (sockets, processes, the clock) is a parameter with a world of its own; the
  formatting of a message is done before the model starts. Strings are C strings without their
  terminating zero, memory is never exhausted, and the build does not define \<^verbatim>\<open>HAVE_NTP_GETTIME\<close>.
\<close>

section \<open>The operating system\<close>

text \<open>The result of \<^verbatim>\<open>localtime_r\<close>; the year counts from 0, the offset from UTC is in minutes.\<close>

record tm =
  tm_year :: nat
  tm_mon :: nat
  tm_mday :: nat
  tm_hour :: nat
  tm_min :: nat
  tm_sec :: nat
  tm_gmtoff :: int

datatype 'a sockaddr = Unix_addr string | Inet_addr 'a

record ('a, 'w) log_os =
  os_socket :: "'a sockaddr \<Rightarrow> int \<Rightarrow> 'w \<Rightarrow> int \<times> 'w"
  os_connect :: "int \<Rightarrow> 'a sockaddr \<Rightarrow> 'w \<Rightarrow> bool \<times> 'w"
  os_close :: "int \<Rightarrow> 'w \<Rightarrow> 'w"
  os_getaddrinfo :: "string \<Rightarrow> string \<Rightarrow> int \<Rightarrow> 'w \<Rightarrow> 'a option \<times> 'w"
  os_so_type :: "int \<Rightarrow> 'w \<Rightarrow> int"
  os_sendmsg :: "int \<Rightarrow> string \<Rightarrow> 32 word option \<Rightarrow> 'w \<Rightarrow> bool \<times> 'w"
  os_writev :: "int \<Rightarrow> string \<Rightarrow> 'w \<Rightarrow> 'w"
  os_getpid :: "32 word"
  os_root :: bool
  os_alive :: "32 word \<Rightarrow> 'w \<Rightarrow> bool"
  os_progname :: string
  os_readlink :: "string \<Rightarrow> 'w \<Rightarrow> string option"
  os_gethostname :: "'w \<Rightarrow> string option"
  os_getsockname :: "int \<Rightarrow> 'w \<Rightarrow> string option"
  os_now :: "'w \<Rightarrow> tm \<times> nat"

section \<open>Connections\<close>

definition SOCK_STREAM :: int where
  "SOCK_STREAM = 1"

definition SOCK_DGRAM :: int where
  "SOCK_DGRAM = 2"

definition TYPE_UDP :: int where
  "TYPE_UDP = 2"

definition TYPE_TCP :: int where
  "TYPE_TCP = 4"

definition TYPE_ANY :: int where
  "TYPE_ANY = 6"

definition HOSTNAME_MAX :: nat where
  "HOSTNAME_MAX = 255"

definition APPNAME_MAX :: nat where
  "APPNAME_MAX = 48"

definition MSGID_MAX :: nat where
  "MSGID_MAX = 32"

definition PATHNAME_MAX :: nat where
  "PATHNAME_MAX = 4096"

text \<open>\<^verbatim>\<open>PRIORITY_MAX + 2 + TIME5424_MAX + 1 + HOSTNAME_MAX + 1 + APPNAME_MAX + PROCID_MAX + 1 + MSGID_MAX + 1\<close>.\<close>

definition HEADER_MAX :: nat where
  "HEADER_MAX = 5 + 2 + 32 + 1 + HOSTNAME_MAX + 1 + APPNAME_MAX + 12 + 1 + MSGID_MAX + 1"

record log_t =
  lg_fd :: int
  lg_output :: int
  lg_pid :: "32 word"
  lg_facility :: "32 word"
  lg_app :: string
  lg_msgid :: string
  lg_hostname :: "string option"
  lg_server :: "string option"
  lg_local :: bool
  lg_stream :: bool
  lg_rfc5424 :: bool
  lg_time :: bool
  lg_tq :: bool
  lg_host :: bool
  lg_octet_count :: bool

text \<open>The socket types the loops try, in this order.\<close>

definition socket_types :: "int \<Rightarrow> int list" where
  "socket_types type = (if type AND TYPE_UDP \<noteq> 0 then [SOCK_DGRAM] else []) @ (if type AND TYPE_TCP \<noteq> 0 then [SOCK_STREAM] else [])"

fun unix_loop :: "('a, 'w) log_os \<Rightarrow> string \<Rightarrow> int list \<Rightarrow> int \<Rightarrow> 'w \<Rightarrow> int \<times> 'w" where
  "unix_loop os path [] fd w = (fd, w)"
| "unix_loop os path (st # sts) fd w =
     (case os_socket os (Unix_addr path) st w of (fd1, w1) \<Rightarrow>
        if fd1 \<ge> 0
        then (case os_connect os fd1 (Unix_addr path) w1 of (ok, w2) \<Rightarrow>
                if ok then (fd1, w2) else unix_loop os path sts (- 1) (os_close os fd1 w2))
        else unix_loop os path sts fd1 w1)"

text \<open>\<^verbatim>\<open>sun_path\<close> has 108 bytes, one of them for the zero.\<close>

definition unix_socket :: "('a, 'w) log_os \<Rightarrow> string \<Rightarrow> int \<Rightarrow> 'w \<Rightarrow> int \<times> 'w" where
  "unix_socket os path type w = (if length path \<ge> 108 then (- 1, w) else unix_loop os path (socket_types type) (- 1) w)"

fun inet_loop :: "('a, 'w) log_os \<Rightarrow> string \<Rightarrow> string \<Rightarrow> int list \<Rightarrow> int \<Rightarrow> 'w \<Rightarrow> int \<times> 'w" where
  "inet_loop os server port [] fd w = (fd, w)"
| "inet_loop os server port (st # sts) fd w =
     (case os_getaddrinfo os server port st w of (res, w1) \<Rightarrow>
        (case res of
           None \<Rightarrow> inet_loop os server port sts fd w1
         | Some a \<Rightarrow>
             (case os_socket os (Inet_addr a) st w1 of (fd1, w2) \<Rightarrow>
                if fd1 \<ge> 0
                then (case os_connect os fd1 (Inet_addr a) w2 of (ok, w3) \<Rightarrow>
                        if ok then (fd1, w3) else inet_loop os server port sts (- 1) (os_close os fd1 w3))
                else inet_loop os server port sts fd1 w2)))"

text \<open>\<^verbatim>\<open>strrchr(server, ':')\<close>: the parts before and behind the last colon.\<close>

definition host_port :: "string \<Rightarrow> (string \<times> string) option" where
  "host_port server =
     (if CHR '':'' \<in> set server
      then (let p = takeWhile (\<lambda>c. c \<noteq> CHR '':'') (rev server) in Some (take (length server - length p - 1) server, rev p))
      else None)"

text \<open>An array of length 0 has no meaning.\<close>

definition inet_socket :: "('a, 'w) log_os \<Rightarrow> string \<Rightarrow> int \<Rightarrow> 'w \<Rightarrow> (int \<times> 'w) result" where
  "inet_socket os server type w =
     (if server = [] then Inl Undefined
      else Inr (case host_port server of
                  Some (host, port) \<Rightarrow> inet_loop os host port (socket_types type) (- 1) w
                | None \<Rightarrow> inet_loop os server ''syslog'' (socket_types type) (- 1) w))"

definition log_connect0 :: "('a, 'w) log_os \<Rightarrow> log_t \<Rightarrow> string \<Rightarrow> int \<Rightarrow> 'w \<Rightarrow> (bool \<times> log_t \<times> 'w) result" where
  "log_connect0 os lg server type w =
     (let is_path = (take 1 server = ''/'')
      in rbind (if is_path then Inr (unix_socket os server type w) else inet_socket os server type w) (\<lambda>(fd, w1).
           let lg1 = lg\<lparr>lg_fd := fd, lg_local := is_path\<rparr>
           in if fd < 0 then Inr (False, lg1, w1)
              else Inr (True, lg1\<lparr>lg_stream := (os_so_type os fd w1 = SOCK_STREAM)\<rparr>, w1)))"

text \<open>A null pointer for the server has no meaning; a failed assertion aborts the program.\<close>

definition log_reconnect :: "('a, 'w) log_os \<Rightarrow> log_t \<Rightarrow> 'w \<Rightarrow> (bool \<times> log_t \<times> 'w) result" where
  "log_reconnect os lg w =
     (case lg_server lg of
        None \<Rightarrow> Inl Undefined
      | Some server \<Rightarrow>
          if lg_fd lg \<ge> 0
          then
            (let type = os_so_type os (lg_fd lg) w
             in if type = SOCK_STREAM then log_connect0 os lg server TYPE_TCP (os_close os (lg_fd lg) w)
                else if type = SOCK_DGRAM then log_connect0 os lg server TYPE_UDP (os_close os (lg_fd lg) w)
                else Inl Aborted)
          else log_connect0 os lg server TYPE_ANY w)"

definition log_connect :: "('a, 'w) log_os \<Rightarrow> log_t \<Rightarrow> string \<Rightarrow> 'w \<Rightarrow> (bool \<times> log_t \<times> 'w) result" where
  "log_connect os lg server w =
     (let (type, server') =
        (if take 7 server = ''unix://'' then (TYPE_ANY, (if take 1 (drop 7 server) \<noteq> ''/'' then drop 6 server else drop 7 server))
         else if take 6 server = ''udp://'' then (TYPE_UDP, drop 6 server)
         else if take 6 server = ''tcp://'' then (TYPE_TCP, drop 6 server)
         else (TYPE_ANY, server))
      in log_connect0 os (lg\<lparr>lg_server := Some server'\<rparr>) server' type w)"

section \<open>Settings\<close>

text \<open>
  The name of another process: the link is read into the buffer that holds its own path, and is not
  terminated. What follows it is the rest of that path, and behind it nothing that was ever written.
\<close>

definition linked_path :: "string \<Rightarrow> string option \<Rightarrow> string result" where
  "linked_path path target =
     (let old = path @ [CHR 0x00]; new = (case target of None \<Rightarrow> [] | Some t \<Rightarrow> take PATHNAME_MAX t);
          buf = new @ drop (length new) old
      in if CHR 0x00 \<in> set buf then Inr (takeWhile (\<lambda>c. c \<noteq> CHR 0x00) buf) else Inl Undefined)"

definition base_name :: "string \<Rightarrow> string" where
  "base_name path = rev (takeWhile (\<lambda>c. c \<noteq> CHR ''/'') (rev path))"

definition log_setapp :: "('a, 'w) log_os \<Rightarrow> log_t \<Rightarrow> 32 word \<Rightarrow> string option \<Rightarrow> 'w \<Rightarrow> (bool \<times> log_t) result" where
  "log_setapp os lg pid app w =
     (let store = (\<lambda>p a. Inr (True, lg\<lparr>lg_app := take APPNAME_MAX a, lg_pid := p\<rparr>))
      in if pid = 0 \<or> pid = os_getpid os then store (os_getpid os) (case app of None \<Rightarrow> os_progname os | Some a \<Rightarrow> a)
         else if os_root os \<and> os_alive os pid w
         then
           (case app of
              Some a \<Rightarrow> store pid a
            | None \<Rightarrow>
                (let path = ''/proc/'' @ nat_to_string (unat pid) @ ''/exe''
                 in rbind (linked_path path (os_readlink os path w)) (\<lambda>p. store pid (base_name p))))
         else Inr (False, lg))"

text \<open>
  \<^verbatim>\<open>inet_ntop\<close> turns the first four bytes of the name into an address and never fails; a shorter name
  is read past its end.
\<close>

definition host_name :: "('a, 'w) log_os \<Rightarrow> log_t \<Rightarrow> string option \<Rightarrow> 'w \<Rightarrow> (string \<times> bool \<times> log_t) result" where
  "host_name os lg host w =
     (case host of
        Some h \<Rightarrow>
          if length h < 3 then Inl Undefined
          else Inr (take HOSTNAME_MAX h, True, if lg_rfc5424 lg then lg\<lparr>lg_host := (h \<noteq> [])\<rparr> else lg)
      | None \<Rightarrow>
          (case os_gethostname os w of
             Some h \<Rightarrow> Inr (take HOSTNAME_MAX h, False, lg)
           | None \<Rightarrow>
               (case os_getsockname os (lg_fd lg) w of
                  Some a \<Rightarrow> Inr (take HOSTNAME_MAX a, True, lg)
                | None \<Rightarrow> Inr (''unknown'', False, lg))))"

definition log_sethostname :: "('a, 'w) log_os \<Rightarrow> log_t \<Rightarrow> string option \<Rightarrow> 'w \<Rightarrow> log_t result" where
  "log_sethostname os lg host w =
     (if lg_local lg then Inr lg
      else rbind (host_name os lg host w) (\<lambda>(buf, is_ip, lg1).
        let buf' = (if \<not> is_ip \<and> \<not> lg_rfc5424 lg1 then takeWhile (\<lambda>c. c \<noteq> CHR ''.'') buf else buf)
        in Inr (lg1\<lparr>lg_hostname := (if buf' = [] then None else Some buf')\<rparr>)))"

definition log_setoutput :: "log_t \<Rightarrow> int \<Rightarrow> log_t" where
  "log_setoutput lg fd = lg\<lparr>lg_output := fd\<rparr>"

definition LOG_FACMASK :: "32 word" where
  "LOG_FACMASK = 0x3f8"

definition LOG_PRIMASK :: "32 word" where
  "LOG_PRIMASK = 7"

definition log_setfacility :: "log_t \<Rightarrow> 32 word \<Rightarrow> log_t" where
  "log_setfacility lg fac = lg\<lparr>lg_facility := fac AND LOG_FACMASK\<rparr>"

text \<open>The fields of the flags have one bit, so only the lowest bit of a value is kept.\<close>

definition log_rfc5424opts :: "log_t \<Rightarrow> 32 word \<Rightarrow> 32 word \<Rightarrow> 32 word \<Rightarrow> string option \<Rightarrow> log_t" where
  "log_rfc5424opts lg time tq host msgid =
     (let lg1 = lg\<lparr>lg_time := bit time 0, lg_tq := bit tq 0, lg_host := bit host 0\<rparr>;
          lg2 = (if \<not> lg_host lg1 then lg1\<lparr>lg_hostname := None\<rparr> else lg1);
          lg3 = lg2\<lparr>lg_msgid := (case msgid of Some m \<Rightarrow> if m \<noteq> [] then take MSGID_MAX m else ''-'' | None \<Rightarrow> ''-'')\<rparr>
      in lg3\<lparr>lg_rfc5424 := (bit time 0 \<or> bit host 0 \<or> bit tq 0 \<or> msgid \<noteq> None)\<rparr>)"

definition DEFAULT_SERVER :: string where
  "DEFAULT_SERVER = ''/dev/log''"

definition cleared_log :: log_t where
  "cleared_log = \<lparr>lg_fd = 0, lg_output = 0, lg_pid = 0, lg_facility = 0, lg_app = [], lg_msgid = [], lg_hostname = None, lg_server = None,
     lg_local = False, lg_stream = False, lg_rfc5424 = False, lg_time = False, lg_tq = False, lg_host = False, lg_octet_count = False\<rparr>"

definition LOG_USER :: "32 word" where
  "LOG_USER = 8"

definition log_init :: "('a, 'w) log_os \<Rightarrow> string option \<Rightarrow> 'w \<Rightarrow> (log_t option \<times> 'w) result" where
  "log_init os server w =
     rbind (log_connect os (cleared_log\<lparr>lg_output := - 1, lg_facility := LOG_USER, lg_msgid := ''-''\<rparr>)
              (case server of Some s \<Rightarrow> s | None \<Rightarrow> DEFAULT_SERVER) w) (\<lambda>(ok, lg, w1).
     rbind (if ok then rbind (log_setapp os lg 0 None w1) (\<lambda>(_, lg1). if \<not> lg_local lg1 then log_sethostname os lg1 None w1 else Inr lg1)
            else Inr lg) (\<lambda>lg2.
       Inr (if lg_fd lg2 \<ge> 0 then Some lg2 else None, w1)))"

definition log_fini :: "('a, 'w) log_os \<Rightarrow> log_t \<Rightarrow> 'w \<Rightarrow> log_t \<times> 'w" where
  "log_fini os lg w =
     (let (fd, w1) = (if lg_fd lg \<ge> 0 then (- 1, os_close os (lg_fd lg) w) else (lg_fd lg, w))
      in (lg\<lparr>lg_fd := fd, lg_server := None, lg_hostname := None\<rparr>, w1))"

section \<open>Messages\<close>

text \<open>The buffer of the header; bytes that were never written are \<^const>\<open>None\<close>.\<close>

type_synonym buffer = "char option list"

text \<open>\<^verbatim>\<open>snprintf\<close> of a text with room for \<open>n\<close> bytes, at a position of a buffer.\<close>

definition put_text :: "buffer \<Rightarrow> nat \<Rightarrow> nat \<Rightarrow> string \<Rightarrow> buffer result" where
  "put_text buf pos n s =
     (let t = (if n = 0 then [] else take (n - 1) s @ [CHR 0x00])
      in if pos + length t \<le> length buf then Inr (take pos buf @ map Some t @ drop (pos + length t) buf) else Inl Undefined)"

text \<open>\<^verbatim>\<open>strftime\<close> returns 0 if the text with its zero does not fit, and what it has written then is indeterminate.\<close>

definition put_time :: "buffer \<Rightarrow> nat \<Rightarrow> nat \<Rightarrow> string \<Rightarrow> (nat \<times> buffer) result" where
  "put_time buf pos n s =
     (if length s + 1 \<le> n then rbind (put_text buf pos n s) (\<lambda>b. Inr (length s, b))
      else if pos + n \<le> length buf then Inr (0, take pos buf @ replicate n None @ drop (pos + n) buf) else Inl Undefined)"

definition pad :: "nat \<Rightarrow> nat \<Rightarrow> string" where
  "pad k n = (let s = nat_to_string n in replicate (k - length s) (CHR ''0'') @ s)"

definition month_name :: "nat \<Rightarrow> string" where
  "month_name m =
     (if m < 12 then [''Jan'', ''Feb'', ''Mar'', ''Apr'', ''May'', ''Jun'', ''Jul'', ''Aug'', ''Sep'', ''Oct'', ''Nov'', ''Dec''] ! m else ''?'')"

definition clock_text :: "tm \<Rightarrow> string" where
  "clock_text t = pad 2 (tm_hour t) @ '':'' @ pad 2 (tm_min t) @ '':'' @ pad 2 (tm_sec t)"

definition zone_text :: "tm \<Rightarrow> string" where
  "zone_text t = (let m = nat \<bar>tm_gmtoff t\<bar> in (if tm_gmtoff t < 0 then ''-'' else ''+'') @ pad 2 (m div 60) @ pad 2 (m mod 60))"

definition time3164 :: "tm \<Rightarrow> string" where
  "time3164 t = month_name (tm_mon t) @ '' '' @ pad 2 (tm_mday t) @ '' '' @ clock_text t @ '' ''"

definition format5424 :: "tm \<Rightarrow> string" where
  "format5424 t =
     ''1 '' @ nat_to_string (tm_year t) @ ''-'' @ pad 2 (tm_mon t + 1) @ ''-'' @ pad 2 (tm_mday t) @ ''T'' @ clock_text t @ ''.%06u'' @ zone_text t @ ''  ''"

text \<open>The colon of the zone is moved in, then the microseconds are filled in. \<^verbatim>\<open>f\<close> has 34 bytes.\<close>

definition time5424 :: "tm \<Rightarrow> nat \<Rightarrow> string result" where
  "time5424 t usec =
     (let f = format5424 t; i = length f
      in if i + 1 > 34 \<or> i < 4 then Inl Undefined
         else
           (let f1 = f[i - 2 := f ! (i - 3)]; f2 = f1[i - 3 := f1 ! (i - 4)]; f3 = f2[i - 4 := CHR '':'']
            in Inr (takeWhile (\<lambda>c. c \<noteq> CHR ''%'') f3 @ pad 6 usec @ drop 4 (dropWhile (\<lambda>c. c \<noteq> CHR ''%'') f3))))"

definition time_part :: "log_t \<Rightarrow> tm \<Rightarrow> nat \<Rightarrow> buffer \<Rightarrow> nat \<Rightarrow> (nat \<times> buffer) result" where
  "time_part lg t usec hdr l1 =
     (if \<not> lg_rfc5424 lg then rbind (put_time hdr l1 17 (time3164 t)) (\<lambda>(k, b). Inr (l1 + k, b))
      else if lg_time lg then rbind (time5424 t usec) (\<lambda>s. rbind (put_text hdr l1 36 s) (\<lambda>b. Inr (l1 + length s, b)))
      else rbind (put_text hdr l1 (length ''1 - '' + 1) ''1 - '') (\<lambda>b. Inr (l1 + length ''1 - '', b)))"

text \<open>\<^verbatim>\<open>%s\<close> with a null pointer has no meaning.\<close>

definition origin_text :: "log_t \<Rightarrow> string result" where
  "origin_text lg =
     (let pid = nat_to_string (unat (lg_pid lg))
      in if \<not> lg_local lg \<and> lg_rfc5424 lg
         then (case (if lg_host lg then lg_hostname lg else Some ''-'') of
                 None \<Rightarrow> Inl Undefined
               | Some host \<Rightarrow> Inr (host @ '' '' @ lg_app lg @ '' '' @ pid @ '' '' @ lg_msgid lg @ '' ''))
         else (case lg_hostname lg of
                 Some host \<Rightarrow> Inr (host @ '' '' @ lg_app lg @ ''['' @ pid @ '']: '')
               | None \<Rightarrow> Inr (lg_app lg @ ''['' @ pid @ '']: '')))"

text \<open>The first \<open>n\<close> bytes of a buffer are sent.\<close>

definition sent_bytes :: "buffer \<Rightarrow> nat \<Rightarrow> string result" where
  "sent_bytes buf n = (if n \<le> length buf \<and> None \<notin> set (take n buf) then Inr (map the (take n buf)) else Inl Undefined)"

definition log_header :: "log_t \<Rightarrow> 32 word \<Rightarrow> tm \<Rightarrow> nat \<Rightarrow> string result" where
  "log_header lg pri t usec =
     (let s = ''<'' @ nat_to_string (unat pri) @ ''>''
      in rbind (put_text (replicate (HEADER_MAX + 1) None) 0 6 s) (\<lambda>hdr.
         rbind (time_part lg t usec hdr (length s)) (\<lambda>(l1, hdr1).
         rbind (origin_text lg) (\<lambda>s2.
         rbind (put_text hdr1 l1 (HEADER_MAX + 1 - l1) s2) (\<lambda>hdr2. sent_bytes hdr2 (l1 + length s2))))))"

definition structured_data :: "log_t \<Rightarrow> string" where
  "structured_data lg =
     (if \<not> lg_local lg \<and> lg_rfc5424 lg
      then if lg_time lg \<and> lg_tq lg
           then ''[timeQuality tzKnown='' @ quoted ''1'' @ '' isSynced='' @ quoted ''0'' @ ''] ''
           else ''- ''
      else [])"

definition trim_end :: "string \<Rightarrow> string" where
  "trim_end s = rev (dropWhile isspace (rev s))"

text \<open>The octet count has room for seven digits.\<close>

definition octet_text :: "nat \<Rightarrow> string result" where
  "octet_text n =
     (let d = nat_to_string n
      in if length d \<le> 7 then Inr d else if length d = 8 then Inr (take 7 d @ [CHR 0x00]) else Inl Undefined)"

text \<open>Both attempts to send, and the copy without the structured data.\<close>

definition log_deliver :: "('a, 'w) log_os \<Rightarrow> log_t \<Rightarrow> string \<Rightarrow> string \<Rightarrow> 'w \<Rightarrow> (log_t \<times> 'w) result" where
  "log_deliver os lg message copy w =
     (let cred = (if lg_pid lg \<noteq> os_getpid os \<and> os_alive os (lg_pid lg) w then Some (lg_pid lg) else None)
      in rbind (case os_sendmsg os (lg_fd lg) message cred w of (ok, w1) \<Rightarrow>
                  if ok then Inr (lg, w1)
                  else rbind (log_reconnect os lg w1) (\<lambda>(_, lg1, w2).
                    Inr (lg1, snd (os_sendmsg os (lg_fd lg1) message cred w2)))) (\<lambda>(lg2, w3).
           Inr (lg2, if lg_output lg2 \<ge> 0 then os_writev os (lg_output lg2) copy w3 else w3)))"

definition LOG_FAC :: "32 word \<Rightarrow> 32 word" where
  "LOG_FAC pri = drop_bit 3 (pri AND LOG_FACMASK)"

definition LOG_PRI :: "32 word \<Rightarrow> 32 word" where
  "LOG_PRI pri = pri AND LOG_PRIMASK"

definition message_pri :: "log_t \<Rightarrow> 32 word \<Rightarrow> 32 word" where
  "message_pri lg pri = (if LOG_FAC pri = 0 then lg_facility lg OR LOG_PRI pri else pri AND NOT (LOG_FACMASK OR LOG_PRIMASK))"

definition log_vsend :: "('a, 'w) log_os \<Rightarrow> log_t \<Rightarrow> 32 word \<Rightarrow> string \<Rightarrow> 'w \<Rightarrow> (log_t \<times> 'w) result" where
  "log_vsend os lg pri msg w =
     (case os_now os w of (t, usec) \<Rightarrow>
        rbind (log_header lg (message_pri lg pri) t usec) (\<lambda>hdr.
          let data = structured_data lg; body0 = trim_end msg;
              body = (if \<not> lg_local lg \<and> \<not> lg_rfc5424 lg \<and> length hdr + length body0 > 1024 then take (1024 - length hdr) body0 else body0);
              newline = [CHR 0x0A]
          in rbind (if lg_octet_count lg
                    then rbind (octet_text (length hdr + length data + length body)) (\<lambda>cnt. Inr (cnt @ hdr @ data))
                    else Inr (hdr @ data @ body @ (if lg_stream lg then newline else []))) (\<lambda>message.
               log_deliver os lg message (hdr @ body @ newline) w)))"

section \<open>The front end\<close>

record front =
  fr_log :: "log_t option"
  fr_mask :: nat

text \<open>\<^verbatim>\<open>prioritynames\<close> of \<^verbatim>\<open>syslog.h\<close>.\<close>

definition prioritynames :: "(string \<times> nat) list" where
  "prioritynames = [(''alert'', 1), (''crit'', 2), (''debug'', 7), (''emerg'', 0), (''err'', 3), (''error'', 3), (''info'', 6), (''none'', 16),
     (''notice'', 5), (''panic'', 0), (''warn'', 4), (''warning'', 4)]"

definition LOG_MASK :: "nat \<Rightarrow> nat" where
  "LOG_MASK pri = 2 ^ pri"

definition LOG_UPTO :: "nat \<Rightarrow> nat" where
  "LOG_UPTO pri = 2 ^ (pri + 1) - 1"

text \<open>What the environment or the program says; a variable of the environment comes first.\<close>

record log_settings =
  set_threshold :: "string option"
  set_stderr :: "string option"
  set_ident :: "string option"
  set_server :: "string option"

definition lower :: "string \<Rightarrow> string" where
  "lower s = map (\<lambda>c. let n = of_char c :: nat in if 65 \<le> n \<and> n \<le> 90 then char_of (n + 32) else c) s"

definition threshold_mask :: "string option \<Rightarrow> nat" where
  "threshold_mask str =
     (case str of None \<Rightarrow> LOG_UPTO 7
      | Some s \<Rightarrow> (case find (\<lambda>(name, _). lower s = name) prioritynames of None \<Rightarrow> LOG_UPTO 7 | Some (_, v) \<Rightarrow> LOG_UPTO v))"

definition copy_to_stderr :: "bool \<Rightarrow> string option \<Rightarrow> bool" where
  "copy_to_stderr ndebug str =
     (if ndebug then (case str of None \<Rightarrow> False | Some s \<Rightarrow> lower s = ''y'' \<or> s = ''1'')
      else (case str of None \<Rightarrow> True | Some s \<Rightarrow> s \<noteq> [] \<and> lower s \<noteq> ''n'' \<and> s \<noteq> ''0''))"

text \<open>If no connection can be made the messages go to \<^verbatim>\<open>syslog\<close> of the C library.\<close>

definition ccai_log_init :: "('a, 'w) log_os \<Rightarrow> bool \<Rightarrow> log_settings \<Rightarrow> log_settings \<Rightarrow> 'w \<Rightarrow> (front \<times> 'w) result" where
  "ccai_log_init os ndebug env prog w =
     (let pick = (\<lambda>f. case f env of Some s \<Rightarrow> Some s | None \<Rightarrow> f prog);
          fmask = threshold_mask (pick set_threshold); perror = copy_to_stderr ndebug (pick set_stderr)
      in rbind (log_init os (pick set_server) w) (\<lambda>(lg, w1).
           (case lg of
              None \<Rightarrow> Inr (\<lparr>fr_log = None, fr_mask = fmask\<rparr>, w1)
            | Some l \<Rightarrow>
                rbind (case pick set_ident of None \<Rightarrow> Inr l | Some a \<Rightarrow> rbind (log_setapp os l 0 (Some a) w1) (\<lambda>(_, l'). Inr l')) (\<lambda>l1.
                  Inr (\<lparr>fr_log = Some (if perror then log_setoutput l1 2 else l1), fr_mask = fmask\<rparr>, w1)))))"

definition ccai_vlog :: "('a, 'w) log_os \<Rightarrow> (32 word \<Rightarrow> string \<Rightarrow> 'w \<Rightarrow> 'w) \<Rightarrow> front \<Rightarrow> 32 word \<Rightarrow> string \<Rightarrow> 'w \<Rightarrow> (front \<times> 'w) result" where
  "ccai_vlog os vsyslog fr pri msg w =
     (case fr_log fr of
        None \<Rightarrow> Inr (fr, vsyslog pri msg w)
      | Some lg \<Rightarrow>
          if LOG_MASK (unat (LOG_PRI pri)) AND fr_mask fr \<noteq> 0
          then rbind (log_vsend os lg pri msg w) (\<lambda>(lg', w1). Inr (fr\<lparr>fr_log := Some lg'\<rparr>, w1))
          else Inr (fr, w))"

definition ccai_log_fini :: "('a, 'w) log_os \<Rightarrow> ('w \<Rightarrow> 'w) \<Rightarrow> front \<Rightarrow> 'w \<Rightarrow> front \<times> 'w" where
  "ccai_log_fini os closelog fr w =
     (case fr_log fr of None \<Rightarrow> (fr, closelog w) | Some lg \<Rightarrow> (fr\<lparr>fr_log := None\<rparr>, snd (log_fini os lg w)))"

section \<open>What is sent\<close>

text \<open>The texts that are meant, without the buffer they are put together in. The layout is that of RFC 3164 and RFC 5424, but for the day of the short date.\<close>

definition timestamp :: "tm \<Rightarrow> nat \<Rightarrow> string" where
  "timestamp t usec =
     (let m = nat \<bar>tm_gmtoff t\<bar>
      in nat_to_string (tm_year t) @ ''-'' @ pad 2 (tm_mon t + 1) @ ''-'' @ pad 2 (tm_mday t) @ ''T'' @ clock_text t @ ''.'' @ pad 6 usec @
         (if tm_gmtoff t < 0 then ''-'' else ''+'') @ pad 2 (m div 60) @ '':'' @ pad 2 (m mod 60))"

definition origin :: "log_t \<Rightarrow> string" where
  "origin lg =
     (let pid = nat_to_string (unat (lg_pid lg))
      in if \<not> lg_local lg \<and> lg_rfc5424 lg
         then (if lg_host lg then the (lg_hostname lg) else ''-'') @ '' '' @ lg_app lg @ '' '' @ pid @ '' '' @ lg_msgid lg @ '' ''
         else (case lg_hostname lg of Some host \<Rightarrow> host @ '' '' | None \<Rightarrow> []) @ lg_app lg @ ''['' @ pid @ '']: '')"

definition time_text :: "log_t \<Rightarrow> tm \<Rightarrow> nat \<Rightarrow> string" where
  "time_text lg t usec = (if \<not> lg_rfc5424 lg then time3164 t else ''1 '' @ (if lg_time lg then timestamp t usec else ''-'') @ '' '')"

definition syslog_header :: "log_t \<Rightarrow> 32 word \<Rightarrow> tm \<Rightarrow> nat \<Rightarrow> string" where
  "syslog_header lg pri t usec =
     ''<'' @ nat_to_string (unat pri) @ ''>'' @ time_text lg t usec @ origin lg"

definition syslog_body :: "log_t \<Rightarrow> string \<Rightarrow> string \<Rightarrow> string" where
  "syslog_body lg hdr msg = (if \<not> lg_local lg \<and> \<not> lg_rfc5424 lg then take (1024 - length hdr) (trim_end msg) else trim_end msg)"

definition clock_ok :: "tm \<times> nat \<Rightarrow> bool" where
  "clock_ok tu = (case tu of (t, usec) \<Rightarrow>
     tm_year t \<le> 9999 \<and> tm_mon t < 12 \<and> tm_mday t \<le> 31 \<and> tm_hour t < 24 \<and> tm_min t < 60 \<and> tm_sec t \<le> 60 \<and> \<bar>tm_gmtoff t\<bar> < 24 * 60 \<and>
     usec < 1000000)"

definition log_ok :: "log_t \<Rightarrow> bool" where
  "log_ok lg \<longleftrightarrow>
     length (lg_app lg) \<le> APPNAME_MAX \<and> length (lg_msgid lg) \<le> MSGID_MAX \<and>
     (\<forall>h. lg_hostname lg = Some h \<longrightarrow> length h \<le> HOSTNAME_MAX \<and> \<not> lg_local lg) \<and> \<not> lg_octet_count lg \<and>
     (\<exists>s. lg_server lg = Some s \<and> s \<noteq> [] \<and> lg_local lg = (take 1 s = ''/''))"

lemma nat_to_string_length: "n < 10 ^ Suc k \<Longrightarrow> length (nat_to_string n) \<le> Suc k"
proof (induction k arbitrary: n)
  case (Suc k)
  have "n div 10 < 10 ^ Suc k" using Suc.prems by (simp add: div_less_iff_less_mult)
  from Suc.IH [OF this] show ?case by (subst nat_to_string.simps) simp
qed (subst nat_to_string.simps, simp)

lemma pad_length: "n < 10 ^ Suc k \<Longrightarrow> length (pad (Suc k) n) = Suc k"
  using nat_to_string_length [of n k] by (simp add: pad_def Let_def)

lemma pad2_length [simp]: "n < 100 \<Longrightarrow> length (pad 2 n) = 2"
  using pad_length [of n 1] by (simp add: numeral_eq_Suc)

lemma pad_digits: "c \<in> set (pad k n) \<Longrightarrow> isdigit c"
  by (auto simp: pad_def Let_def isdigit_def dest: nat_to_string_digits)

definition holds :: "buffer \<Rightarrow> string \<Rightarrow> bool" where
  "holds buf s \<longleftrightarrow> length buf = HEADER_MAX + 1 \<and> take (length s) buf = map Some s"

lemma put_text_holds:
  assumes "holds buf s" "length t < n" "length s + length t \<le> HEADER_MAX"
  shows "\<exists>b. put_text buf (length s) n t = Inr b \<and> holds b (s @ t)"
  using assms by (auto simp: put_text_def holds_def Let_def)

lemma sent_bytes_holds: "holds buf s \<Longrightarrow> length s \<le> HEADER_MAX + 1 \<Longrightarrow> sent_bytes buf (length s) = Inr s"
  by (simp add: sent_bytes_def holds_def comp_def)

lemma clock_text_length: "clock_ok (t, usec) \<Longrightarrow> length (clock_text t) = 8"
  by (simp add: clock_ok_def clock_text_def)

lemma month_name_length: "m < 12 \<Longrightarrow> length (month_name m) = 3"
proof -
  assume "m < 12"
  moreover have "\<forall>m \<in> set [0..<12]. length (month_name m) = 3" by code_simp
  ultimately show ?thesis by simp
qed

lemma time3164_length: "clock_ok (t, usec) \<Longrightarrow> length (time3164 t) = 16"
  using clock_text_length [of t usec] month_name_length [of "tm_mon t"] by (simp add: time3164_def clock_ok_def)

lemma year_length: "clock_ok (t, usec) \<Longrightarrow> length (nat_to_string (tm_year t)) \<le> 4"
  using nat_to_string_length [of "tm_year t" 3] by (simp add: clock_ok_def)

definition zone_minutes :: "tm \<Rightarrow> nat" where
  "zone_minutes t = nat \<bar>tm_gmtoff t\<bar>"

lemma zone_bounds: "clock_ok (t, usec) \<Longrightarrow> zone_minutes t div 60 < 100" "zone_minutes t mod 60 < 100"
proof -
  assume "clock_ok (t, usec)"
  then have "zone_minutes t < 24 * 60" by (simp add: clock_ok_def zone_minutes_def nat_less_iff)
  then show "zone_minutes t div 60 < 100" by linarith
next
  have "zone_minutes t mod 60 < 60" by simp
  then show "zone_minutes t mod 60 < 100" by linarith
qed

text \<open>The part of the time stamp before the microseconds.\<close>

definition date_text :: "tm \<Rightarrow> string" where
  "date_text t = ''1 '' @ nat_to_string (tm_year t) @ ''-'' @ pad 2 (tm_mon t + 1) @ ''-'' @ pad 2 (tm_mday t) @ ''T'' @ clock_text t @ ''.''"

lemma date_text_no_percent: "CHR ''%'' \<notin> set (date_text t)"
  by (auto simp: date_text_def clock_text_def isdigit_def dest: pad_digits nat_to_string_digits)

lemma date_text_length: "clock_ok (t, usec) \<Longrightarrow> length (date_text t) \<le> 22"
  using year_length [of t usec] clock_text_length [of t usec] by (simp add: date_text_def clock_ok_def)

lemma percent_filled:
  assumes "CHR ''%'' \<notin> set a"
  shows "takeWhile (\<lambda>c. c \<noteq> CHR ''%'') (a @ ''%06u'' @ b) = a" "drop 4 (dropWhile (\<lambda>c. c \<noteq> CHR ''%'') (a @ ''%06u'' @ b)) = b"
  using assms by (simp_all add: takeWhile_append dropWhile_append)

lemma colon_moved:
  assumes "format5424 t = g @ [a, b, CHR '' '', CHR '' '']" "length g \<le> 29"
  shows "time5424 t usec = Inr (takeWhile (\<lambda>c. c \<noteq> CHR ''%'') (g @ [CHR '':'', a, b, CHR '' '']) @ pad 6 usec @
    drop 4 (dropWhile (\<lambda>c. c \<noteq> CHR ''%'') (g @ [CHR '':'', a, b, CHR '' ''])))"
  using assms by (simp add: time5424_def Let_def list_update_append nth_append del: takeWhile_append dropWhile_append)

lemma two_chars:
  assumes "length xs = 2"
  obtains a b where "xs = [a, b]"
proof -
  obtain a ys where "xs = a # ys" "length ys = 1" using assms by (cases xs) auto
  moreover obtain b where "ys = [b]" using calculation(2) by (cases ys) auto
  ultimately show ?thesis using that by simp
qed

lemma time5424_law:
  assumes "clock_ok (t, usec)"
  shows "time5424 t usec = Inr (''1 '' @ timestamp t usec @ '' '')" "length (''1 '' @ timestamp t usec @ '' '') \<le> 35"
proof -
  let ?m = "zone_minutes t" and ?sign = "if tm_gmtoff t < 0 then ''-'' else ''+''"
  obtain a b where mm: "pad 2 (?m mod 60) = [a, b]" using two_chars [OF pad2_length [OF zone_bounds(2)]] .
  let ?g = "date_text t @ ''%06u'' @ ?sign @ pad 2 (?m div 60)"
  have f: "format5424 t = ?g @ [a, b, CHR '' '', CHR '' '']"
    using mm by (simp add: format5424_def zone_text_def zone_minutes_def date_text_def Let_def)
  have l: "length ?g \<le> 29" using date_text_length [OF assms] zone_bounds(1) [OF assms] by simp
  have "time5424 t usec = Inr (date_text t @ pad 6 usec @ ?sign @ pad 2 (?m div 60) @ [CHR '':'', a, b, CHR '' ''])"
    unfolding colon_moved [OF f l] using percent_filled [OF date_text_no_percent, of t] by simp
  then show "time5424 t usec = Inr (''1 '' @ timestamp t usec @ '' '')"
    using mm by (simp add: timestamp_def date_text_def zone_minutes_def Let_def)
  show "length (''1 '' @ timestamp t usec @ '' '') \<le> 35"
    using pad_length [of usec 5] date_text_length [OF assms] zone_bounds(1) [OF assms] zone_bounds(2) [of t] assms
    by (simp add: timestamp_def date_text_def zone_minutes_def Let_def clock_ok_def)
qed

text \<open>In these states the name of the host is there when it is needed.\<close>

definition host_known :: "log_t \<Rightarrow> bool" where
  "host_known lg \<longleftrightarrow> (\<not> lg_local lg \<and> lg_rfc5424 lg \<and> lg_host lg \<longrightarrow> lg_hostname lg \<noteq> None)"

lemma origin_law:
  assumes "log_ok lg" "host_known lg"
  shows "origin_text lg = Inr (origin lg)" "length (origin lg) \<le> 349"
proof -
  show "origin_text lg = Inr (origin lg)" using assms(2) by (auto simp: origin_text_def origin_def host_known_def Let_def split: option.splits)
  have "unat (lg_pid lg) < 10 ^ Suc 9" by (rule less_trans [OF unsigned_less]) simp
  from nat_to_string_length [OF this] show "length (origin lg) \<le> 349"
    using assms by (auto simp: origin_def log_ok_def host_known_def APPNAME_MAX_def MSGID_MAX_def HOSTNAME_MAX_def Let_def split: option.splits)
qed

lemma time_part_law:
  assumes "holds hdr s" "length s \<le> 5" "clock_ok (t, usec)"
  shows "\<exists>b. time_part lg t usec hdr (length s) = Inr (length (s @ time_text lg t usec), b) \<and> holds b (s @ time_text lg t usec)" "length (time_text lg t usec) \<le> 35"
proof -
  have l: "length (time3164 t) = 16" using time3164_length [OF assms(3)] .
  note f = time5424_law [OF assms(3)]
  have h: "HEADER_MAX \<ge> 100" by (simp add: HEADER_MAX_def HOSTNAME_MAX_def)
  show "length (time_text lg t usec) \<le> 35" using l f(2) by (simp add: time_text_def)
  consider "\<not> lg_rfc5424 lg" | "lg_rfc5424 lg" "lg_time lg" | "lg_rfc5424 lg" "\<not> lg_time lg" by blast
  then show "\<exists>b. time_part lg t usec hdr (length s) = Inr (length (s @ time_text lg t usec), b) \<and> holds b (s @ time_text lg t usec)"
  proof cases
    case 1
    then show ?thesis using put_text_holds [OF assms(1), of "time3164 t" 17] assms(2) l h by (auto simp: time_part_def time_text_def put_time_def)
  next
    case 2
    then show ?thesis using put_text_holds [OF assms(1), of "''1 '' @ timestamp t usec @ '' ''" 36] assms(2) f h by (auto simp: time_part_def time_text_def)
  next
    case 3
    then show ?thesis using put_text_holds [OF assms(1), of "''1 - ''" "Suc (Suc (Suc (Suc (Suc 0))))"] assms(2) h by (auto simp: time_part_def time_text_def)
  qed
qed

lemma header_law:
  assumes "log_ok lg" "host_known lg" "clock_ok (t, usec)" "unat pri < 1000"
  shows "log_header lg pri t usec = Inr (syslog_header lg pri t usec)" "length (syslog_header lg pri t usec) \<le> 389"
proof -
  let ?p = "''<'' @ nat_to_string (unat pri) @ ''>''"
  let ?tx = "time_text lg t usec"
  have p: "length ?p \<le> 5" using nat_to_string_length [of "unat pri" 2] assms(4) by simp
  have "holds (replicate (HEADER_MAX + 1) None) []" by (simp add: holds_def)
  from put_text_holds [OF this, of ?p 6] p obtain b1 where b1: "put_text (replicate (HEADER_MAX + 1) None) 0 6 ?p = Inr b1" "holds b1 ?p"
    by (auto simp: HEADER_MAX_def)
  obtain b2 where b2: "time_part lg t usec b1 (length ?p) = Inr (length (?p @ ?tx), b2)" "holds b2 (?p @ ?tx)"
    using time_part_law(1) [OF b1(2) p assms(3)] by blast
  have tx: "length ?tx \<le> 35" using time_part_law(2) [OF b1(2) p assms(3)] .
  note og = origin_law [OF assms(1,2)]
  have room: "length (?p @ ?tx) + length (origin lg) \<le> 389" using p tx og(2) by simp
  have H: "HEADER_MAX = 390" by (simp add: HEADER_MAX_def HOSTNAME_MAX_def APPNAME_MAX_def MSGID_MAX_def)
  have "length (origin lg) < HEADER_MAX + 1 - length (?p @ ?tx)" "length (?p @ ?tx) + length (origin lg) \<le> HEADER_MAX" using room H by linarith+
  from put_text_holds [OF b2(2) this] obtain b3 where
    b3: "put_text b2 (length (?p @ ?tx)) (HEADER_MAX + 1 - length (?p @ ?tx)) (origin lg) = Inr b3" "holds b3 ((?p @ ?tx) @ origin lg)" by blast
  have sent: "sent_bytes b3 (length (?p @ ?tx) + length (origin lg)) = Inr ((?p @ ?tx) @ origin lg)"
    using sent_bytes_holds [OF b3(2)] room H by (simp add: add.assoc)
  have e: "syslog_header lg pri t usec = (?p @ ?tx) @ origin lg" by (simp add: syslog_header_def)
  show "log_header lg pri t usec = Inr (syslog_header lg pri t usec)"
    unfolding log_header_def Let_def b1(1) og(1) e rbind_Inr b2(1) prod.case b3(1) by (rule sent)
  show "length (syslog_header lg pri t usec) \<le> 389" using room by (simp add: e)
qed

section \<open>Sessions\<close>

text \<open>What a program can do with a log it has opened, with any state of the world each time.\<close>

inductive log_session :: "('a, 'w) log_os \<Rightarrow> log_t \<Rightarrow> bool" for os where
  opened: "log_init os server w = Inr (Some lg, w') \<Longrightarrow> log_session os lg"
| named: "log_session os lg \<Longrightarrow> log_setapp os lg pid app w = Inr (r, lg') \<Longrightarrow> log_session os lg'"
| hosted: "log_session os lg \<Longrightarrow> log_sethostname os lg host w = Inr lg' \<Longrightarrow> log_session os lg'"
| copied: "log_session os lg \<Longrightarrow> log_session os (log_setoutput lg fd)"
| classed: "log_session os lg \<Longrightarrow> log_session os (log_setfacility lg fac)"
| styled: "log_session os lg \<Longrightarrow> log_session os (log_rfc5424opts lg time tq host msgid)"
| sent: "log_session os lg \<Longrightarrow> log_vsend os lg pri msg w = Inr (lg', w') \<Longrightarrow> log_session os lg'"

lemma log_setapp_shape:
  assumes "log_setapp os lg pid app w = Inr (r, lg')"
  obtains "lg' = lg" | p a where "lg' = lg\<lparr>lg_app := take APPNAME_MAX a, lg_pid := p\<rparr>"
  using assms unfolding log_setapp_def Let_def by (auto simp: rbind_eq_Inr split: if_split_asm option.split_asm)

lemma log_setapp_ok:
  assumes "log_setapp os lg pid app w = Inr (r, lg')" "log_ok lg"
  shows "log_ok lg' \<and> lg_fd lg' = lg_fd lg \<and> lg_local lg' = lg_local lg"
  using assms(1) by (rule log_setapp_shape) (use assms(2) in \<open>auto simp: log_ok_def\<close>)

lemma host_name_shape:
  "host_name os lg host w = Inr (buf, is_ip, lg1) \<Longrightarrow> length buf \<le> HOSTNAME_MAX \<and> (\<exists>b. lg1 = lg\<lparr>lg_host := b\<rparr>)"
  by (cases lg) (auto simp: host_name_def HOSTNAME_MAX_def split: option.splits if_splits)

lemma log_sethostname_shape:
  assumes "log_sethostname os lg host w = Inr lg'"
  obtains "lg' = lg" | h b where "\<not> lg_local lg" "length h \<le> HOSTNAME_MAX" "lg' = lg\<lparr>lg_host := b, lg_hostname := (if h = [] then None else Some h)\<rparr>"
proof (cases "lg_local lg")
  case False
  obtain buf is_ip lg1 where n: "host_name os lg host w = Inr (buf, is_ip, lg1)"
    "lg' = (let buf' = (if \<not> is_ip \<and> \<not> lg_rfc5424 lg1 then takeWhile (\<lambda>c. c \<noteq> CHR ''.'') buf else buf)
            in lg1\<lparr>lg_hostname := (if buf' = [] then None else Some buf')\<rparr>)"
    using assms False by (auto simp: log_sethostname_def Let_def rbind_eq_Inr)
  obtain b where s: "length buf \<le> HOSTNAME_MAX" "lg1 = lg\<lparr>lg_host := b\<rparr>" using host_name_shape [OF n(1)] by blast
  let ?h = "if \<not> is_ip \<and> \<not> lg_rfc5424 lg1 then takeWhile (\<lambda>c. c \<noteq> CHR ''.'') buf else buf"
  have "length ?h \<le> HOSTNAME_MAX" using s(1) length_takeWhile_le [of "\<lambda>c. c \<noteq> CHR ''.''" buf] by auto
  then show ?thesis using that(2) [OF False, of ?h b] s(2) n(2) by (simp add: Let_def)
qed (use assms that(1) in \<open>simp add: log_sethostname_def\<close>)

lemma log_sethostname_ok:
  assumes "log_sethostname os lg host w = Inr lg'" "log_ok lg"
  shows "log_ok lg' \<and> lg_fd lg' = lg_fd lg"
  using assms(1) by (rule log_sethostname_shape) (use assms(2) in \<open>auto simp: log_ok_def\<close>)

lemma log_rfc5424opts_ok: "log_ok lg \<Longrightarrow> log_ok (log_rfc5424opts lg time tq host msgid)"
  by (auto simp: log_rfc5424opts_def log_ok_def Let_def MSGID_MAX_def split: option.splits)

text \<open>A connection to the same server changes neither the kind of connection nor the names.\<close>

lemma log_connect0_ok:
  assumes "log_connect0 os lg server type w = Inr (ok, lg', w')" "lg_server lg = Some server" "log_ok lg \<or> lg_hostname lg = None \<and> log_ok (lg\<lparr>lg_local := (take 1 server = ''/'')\<rparr>)"
  shows "log_ok lg'" "lg_server lg' = Some server"
  using assms by (auto simp: log_connect0_def log_ok_def Let_def result_simps split: if_splits option.splits)

lemma log_reconnect_ok: "log_reconnect os lg w = Inr (ok, lg', w') \<Longrightarrow> log_ok lg \<Longrightarrow> log_ok lg'"
  by (auto simp: log_reconnect_def Let_def split: option.splits if_splits dest: log_connect0_ok(1))

lemma log_deliver_ok: "log_deliver os lg m c w = Inr (lg', w') \<Longrightarrow> log_ok lg \<Longrightarrow> log_ok lg'"
  by (auto simp: log_deliver_def Let_def result_simps split: prod.splits if_splits dest: log_reconnect_ok)

lemma log_vsend_ok: "log_vsend os lg pri msg w = Inr (lg', w') \<Longrightarrow> log_ok lg \<Longrightarrow> log_ok lg'"
  by (auto simp: log_vsend_def Let_def result_simps split: prod.splits if_splits dest: log_deliver_ok)

lemma log_connect_ok:
  assumes "log_connect os lg server w = Inr (ok, lg', w')" "lg_hostname lg = None" "\<not> lg_octet_count lg" "lg_app lg = []" "length (lg_msgid lg) \<le> MSGID_MAX"
  shows "log_ok lg'" "ok \<or> lg_fd lg' < 0"
proof -
  obtain type server' where c: "log_connect0 os (lg\<lparr>lg_server := Some server'\<rparr>) server' type w = Inr (ok, lg', w')"
    using assms(1) by (auto simp: log_connect_def Let_def split: prod.splits)
  then have "server' \<noteq> []" by (auto simp: log_connect0_def inet_socket_def Let_def)
  with assms(2-5) show "log_ok lg'" by (intro log_connect0_ok(1) [OF c]) (auto simp: log_ok_def)
  show "ok \<or> lg_fd lg' < 0" using c by (auto simp: log_connect0_def Let_def result_simps split: if_splits)
qed

lemma log_init_ok:
  assumes "log_init os server w = Inr (Some lg, w')"
  shows "log_ok lg"
proof -
  obtain ok lg1 where c: "log_connect os (cleared_log\<lparr>lg_output := - 1, lg_facility := LOG_USER, lg_msgid := ''-''\<rparr>)
        (case server of Some s \<Rightarrow> s | None \<Rightarrow> DEFAULT_SERVER) w = Inr (ok, lg1, w')"
    "(if ok then rbind (log_setapp os lg1 0 None w') (\<lambda>(_, l). if \<not> lg_local l then log_sethostname os l None w' else Inr l) else Inr lg1) = Inr lg"
    "lg_fd lg \<ge> 0"
    using assms unfolding log_init_def by (auto simp: result_simps split: if_split_asm)
  have l: "log_ok lg1" "ok \<or> lg_fd lg1 < 0" using log_connect_ok [OF c(1)] by (auto simp: cleared_log_def MSGID_MAX_def)
  have ok using l(2) c(2,3) by (auto split: if_splits)
  with c(2) l(1) show ?thesis by (auto simp: rbind_eq_Inr dest!: log_setapp_ok log_sethostname_ok split: if_splits)
qed

lemma log_session_ok: "log_session os lg \<Longrightarrow> log_ok lg"
proof (induction rule: log_session.induct)
  case (opened server w lg w')
  then show ?case by (rule log_init_ok)
next
  case (classed lg fac)
  then show ?case by (simp add: log_setfacility_def log_ok_def)
next
  case (copied lg fd)
  then show ?case by (simp add: log_setoutput_def log_ok_def)
qed (auto dest: log_setapp_ok log_sethostname_ok log_vsend_ok intro: log_rfc5424opts_ok)

lemma log_connect0_returns: "server \<noteq> [] \<Longrightarrow> \<exists>ok lg' w'. log_connect0 os lg server type w = Inr (ok, lg', w')"
  by (auto simp: log_connect0_def inet_socket_def Let_def split: prod.split)

lemma log_deliver_returns:
  assumes "log_ok lg" "\<And>fd w. os_so_type os fd w = SOCK_STREAM \<or> os_so_type os fd w = SOCK_DGRAM"
  shows "\<exists>lg' w'. log_deliver os lg m c w = Inr (lg', w')"
proof -
  have r: "\<exists>ok lg1 w2. log_reconnect os lg w1 = Inr (ok, lg1, w2)" for w1
    using assms(1) assms(2) [of "lg_fd lg" w1] log_connect0_returns
    by (auto simp: log_reconnect_def log_ok_def Let_def SOCK_STREAM_def SOCK_DGRAM_def)
  let ?cred = "if lg_pid lg \<noteq> os_getpid os \<and> os_alive os (lg_pid lg) w then Some (lg_pid lg) else None"
  obtain ok w1 where s: "os_sendmsg os (lg_fd lg) m ?cred w = (ok, w1)" by force
  obtain ok' lg1 w2 where "log_reconnect os lg w1 = Inr (ok', lg1, w2)" using r by blast
  then show ?thesis unfolding log_deliver_def Let_def s prod.case by (cases ok) simp_all
qed

lemma vsend_law:
  assumes "log_ok lg" "host_known lg" "clock_ok (os_now os w)" "unat (message_pri lg pri) < 1000"
  defines "hdr \<equiv> (case os_now os w of (t, usec) \<Rightarrow> syslog_header lg (message_pri lg pri) t usec)"
  shows "log_vsend os lg pri msg w =
    log_deliver os lg (hdr @ structured_data lg @ syslog_body lg hdr msg @ (if lg_stream lg then [CHR 0x0A] else [])) (hdr @ syslog_body lg hdr msg @ [CHR 0x0A]) w"
proof -
  obtain t usec where n: "os_now os w = (t, usec)" by force
  have h: "log_header lg (message_pri lg pri) t usec = Inr hdr" "length hdr \<le> 389"
    using header_law [OF assms(1,2), of t usec "message_pri lg pri"] assms(3,4) by (simp_all add: hdr_def n)
  have "\<not> lg_octet_count lg" using assms(1) by (simp add: log_ok_def)
  then show ?thesis unfolding log_vsend_def n prod.case h(1) rbind_Inr Let_def syslog_body_def
    by (auto simp: take_all_iff)
qed

section \<open>Properties\<close>

text \<open>
  C8: a log that was opened and used in any way sends a message as one text: the header with
  all its fields, in the short form (priority, date, host, program; the day of the month has two digits, which is not the date of RFC 3164) or in
  that of RFC 5424, then the structured data, then the message without the white
  space at its end, cut to 1024 characters together with its header in the short form, and the line end on a stream.
  The header never leaves its buffer, and sending returns whatever the server does. Conditions: the
  priority is below 1000, the year has at most four digits and the other parts of the date are in their ranges, the name of the host is known if the options ask for it,
  and the sockets are streams or datagram sockets.
\<close>

theorem syslog_messages_wellformed:
  assumes "log_session os lg" "host_known lg" "clock_ok (os_now os w)" "unat (message_pri lg pri) < 1000"
    "\<And>fd w. os_so_type os fd w = SOCK_STREAM \<or> os_so_type os fd w = SOCK_DGRAM"
  shows "\<exists>lg' w' hdr body. log_vsend os lg pri msg w = Inr (lg', w') \<and>
    hdr = (case os_now os w of (t, usec) \<Rightarrow> syslog_header lg (message_pri lg pri) t usec) \<and> length hdr < HEADER_MAX \<and>
    body = syslog_body lg hdr msg \<and>
    log_deliver os lg (hdr @ structured_data lg @ body @ (if lg_stream lg then [CHR 0x0A] else [])) (hdr @ body @ [CHR 0x0A]) w = Inr (lg', w')"
proof -
  note ok = log_session_ok [OF assms(1)]
  let ?hdr = "case os_now os w of (t, usec) \<Rightarrow> syslog_header lg (message_pri lg pri) t usec"
  obtain lg' w' where d: "log_deliver os lg (?hdr @ structured_data lg @ syslog_body lg ?hdr msg @ (if lg_stream lg then [CHR 0x0A] else []))
      (?hdr @ syslog_body lg ?hdr msg @ [CHR 0x0A]) w = Inr (lg', w')"
    using log_deliver_returns [OF ok assms(5)] by blast
  have "length ?hdr < HEADER_MAX"
    using header_law(2) [OF ok assms(2), of "fst (os_now os w)" "snd (os_now os w)" "message_pri lg pri"] assms(3,4)
    by (simp add: split_beta HEADER_MAX_def HOSTNAME_MAX_def APPNAME_MAX_def MSGID_MAX_def)
  with d vsend_law [OF ok assms(2-4)] show ?thesis by metis
qed

text \<open>A network with one server, in which the world is the list of the messages it received.\<close>

definition test_os :: "(string, string list) log_os" where
  "test_os = \<lparr>os_socket = (\<lambda>_ _ w. (3, w)), os_connect = (\<lambda>_ _ w. (True, w)), os_close = (\<lambda>_ w. w),
     os_getaddrinfo = (\<lambda>host _ _ w. (Some host, w)), os_so_type = (\<lambda>_ _. 2), os_sendmsg = (\<lambda>_ m _ w. (True, w @ [m])),
     os_writev = (\<lambda>_ _ w. w), os_getpid = 42, os_root = False, os_alive = (\<lambda>_ _. True), os_progname = ''svc'',
     os_readlink = (\<lambda>_ _. None), os_gethostname = (\<lambda>_. Some ''box.lan''), os_getsockname = (\<lambda>_ _. None),
     os_now = (\<lambda>_. (\<lparr>tm_year = 2021, tm_mon = 5, tm_mday = 7, tm_hour = 8, tm_min = 9, tm_sec = 10, tm_gmtoff = 120\<rparr>, 500))\<rparr>"

definition test_log :: log_t where
  "test_log = \<lparr>lg_fd = 3, lg_output = - 1, lg_pid = 42, lg_facility = 8, lg_app = ''svc'', lg_msgid = ''-'', lg_hostname = Some ''box'',
     lg_server = Some ''logs:514'', lg_local = False, lg_stream = False, lg_rfc5424 = False, lg_time = False, lg_tq = False, lg_host = False,
     lg_octet_count = False\<rparr>"

lemma test_log_opened: "log_init test_os (Some ''udp://logs:514'') [] = Inr (Some test_log, [])"
  by code_simp

theorem syslog_messages_wellformed_witness:
  "\<exists>lg' hdr. hdr = ''<11>Jun 07 08:09:10 box svc[42]: '' \<and> log_vsend test_os test_log 3 ''disk full  '' [] = Inr (lg', [hdr @ ''disk full''])"
proof -
  have "log_session test_os test_log" using log_session.opened [OF test_log_opened] .
  moreover have "host_known test_log" "clock_ok (os_now test_os [])" "unat (message_pri test_log 3) < 1000" by code_simp+
  moreover have "os_so_type test_os fd w = SOCK_STREAM \<or> os_so_type test_os fd w = SOCK_DGRAM" for fd w
    by (simp add: test_os_def SOCK_DGRAM_def)
  moreover have "(case os_now test_os [] of (t, usec) \<Rightarrow> syslog_header test_log (message_pri test_log 3) t usec) = ''<11>Jun 07 08:09:10 box svc[42]: ''"
    "syslog_body test_log ''<11>Jun 07 08:09:10 box svc[42]: '' ''disk full  '' = ''disk full''" "structured_data test_log = []" "\<not> lg_stream test_log"
    "log_deliver test_os test_log (''<11>Jun 07 08:09:10 box svc[42]: '' @ ''disk full'') c [] = Inr (test_log, [''<11>Jun 07 08:09:10 box svc[42]: '' @ ''disk full''])" for c
    by (code_simp, code_simp, code_simp, code_simp, simp add: log_deliver_def test_os_def test_log_def)
  ultimately show ?thesis using syslog_messages_wellformed [of test_os test_log "[]" 3 "''disk full  ''"] by simp
qed

lemma mask_test: "LOG_MASK p AND LOG_UPTO v \<noteq> 0 \<longleftrightarrow> p \<le> v"
proof -
  have "LOG_MASK p AND LOG_UPTO v = take_bit (v + 1) (2 ^ p)" by (simp add: LOG_MASK_def LOG_UPTO_def take_bit_eq_mask mask_eq_exp_minus_1)
  also have "\<dots> = (if p \<le> v then 2 ^ p else 0)" by (simp add: take_bit_of_exp less_Suc_eq_le)
  finally show ?thesis by simp
qed

lemma priority_found: "(n, v) \<in> set prioritynames \<Longrightarrow> find (\<lambda>(name, _). n = name) prioritynames = Some (n, v)"
proof -
  assume "(n, v) \<in> set prioritynames"
  moreover have "list_all (\<lambda>nv. find (\<lambda>(name, _). fst nv = name) prioritynames = Some nv) prioritynames" by code_simp
  ultimately show ?thesis by (fastforce simp: list_all_iff)
qed

lemma init_mask:
  assumes "ccai_log_init os ndebug env prog w0 = Inr (fr, w1)" "set_threshold env = Some name"
  shows "fr_mask fr = threshold_mask (Some name)"
proof -
  let ?pick = "\<lambda>f. case f env of Some s \<Rightarrow> Some s | None \<Rightarrow> f prog"
  obtain lg w' where "log_init os (?pick set_server) w0 = Inr (lg, w')"
    "(case lg of None \<Rightarrow> Inr (\<lparr>fr_log = None, fr_mask = threshold_mask (?pick set_threshold)\<rparr>, w')
      | Some l \<Rightarrow> rbind (case ?pick set_ident of None \<Rightarrow> Inr l | Some a \<Rightarrow> rbind (log_setapp os l 0 (Some a) w') (\<lambda>(_, l'). Inr l')) (\<lambda>l1.
          Inr (\<lparr>fr_log = Some (if copy_to_stderr ndebug (?pick set_stderr) then log_setoutput l1 2 else l1), fr_mask = threshold_mask (?pick set_threshold)\<rparr>, w'))) =
     Inr (fr, w1)"
    using assms(1) unfolding ccai_log_init_def Let_def rbind_eq_Inr [of "log_init os (?pick set_server) w0"] by auto
  then show ?thesis using assms(2) by (cases lg) (auto simp: rbind_eq_Inr)
qed

text \<open>
  C39: after the start with a threshold in the environment, in upper or lower case, a message is sent
  exactly if it is at least as urgent as the threshold; any other message changes nothing.
\<close>

theorem threshold_filters:
  assumes "ccai_log_init os ndebug env prog w0 = Inr (fr, w1)" "fr_log fr = Some lg" "set_threshold env = Some name" "(lower name, v) \<in> set prioritynames"
  shows "ccai_vlog os vsyslog fr pri msg w =
    (if unat (LOG_PRI pri) \<le> v then rbind (log_vsend os lg pri msg w) (\<lambda>(lg', w'). Inr (fr\<lparr>fr_log := Some lg'\<rparr>, w')) else Inr (fr, w))"
proof -
  have "fr_mask fr = LOG_UPTO v"
    using init_mask [OF assms(1,3)] priority_found [OF assms(4)] by (simp add: threshold_mask_def)
  then show ?thesis using assms(2) mask_test [of "unat (LOG_PRI pri)" v] by (simp add: ccai_vlog_def)
qed

definition quiet :: log_settings where
  "quiet = \<lparr>set_threshold = Some ''Warning'', set_stderr = None, set_ident = None, set_server = Some ''udp://logs:514''\<rparr>"

theorem threshold_filters_witness:
  "\<exists>fr. ccai_log_init test_os True quiet quiet [] = Inr (fr, []) \<and> ccai_vlog test_os (\<lambda>_ _ w. w) fr 7 ''starting'' [] = Inr (fr, [])"
proof -
  let ?fr = "\<lparr>fr_log = Some test_log, fr_mask = 31\<rparr>"
  have i: "ccai_log_init test_os True quiet quiet [] = Inr (?fr, [])" by code_simp
  have l: "(lower ''Warning'', 4) \<in> set prioritynames" "set_threshold quiet = Some ''Warning''" "\<not> unat (LOG_PRI 7) \<le> 4" by code_simp+
  show ?thesis using i threshold_filters [OF i _ l(2) l(1), of test_log "\<lambda>_ _ w. w" 7 "''starting''" "[]"] l(3) by simp
qed

text \<open>The address of a server: the last colon separates the port.\<close>

lemma host_port_split: "CHR '':'' \<notin> set port \<Longrightarrow> host_port (host @ '':'' @ port) = Some (host, port)"
  by (simp add: host_port_def takeWhile_append Let_def)

section \<open>Defects\<close>

text \<open>A priority with a facility of its own becomes 0: an emergency of the kernel.\<close>

lemma facility_lost: "message_pri lg (LOG_USER OR 3) = 0" "message_pri lg (0x80 OR 7) = 0"
  by (simp_all add: message_pri_def LOG_FAC_def LOG_USER_def LOG_FACMASK_def LOG_PRIMASK_def)

text \<open>The name of another process is taken from what is left of the path of the link, or from memory that was never written.\<close>

lemma linked_name_wrong:
  "linked_path ''/proc/12/exe'' (Some ''/bin/sh'') = Inr ''/bin/sh2/exe''" "base_name ''/bin/sh2/exe'' = ''exe''"
  "linked_path ''/proc/12/exe'' (Some ''/usr/bin/python3'') = Inl Undefined"
  by code_simp+

text \<open>
  RFC 3164 fills the day of the month with a blank, the code with a zero: the first nine days of a month are
  not written as the standard demands.
\<close>

definition rfc3164_time :: "tm \<Rightarrow> string" where
  "rfc3164_time t =
     month_name (tm_mon t) @ '' '' @ (let d = nat_to_string (tm_mday t) in replicate (2 - length d) (CHR '' '') @ d) @ '' '' @ clock_text t @ '' ''"

lemma day_not_rfc3164:
  assumes "tm_mday t < 100"
  shows "time3164 t = rfc3164_time t \<longleftrightarrow> 10 \<le> tm_mday t"
proof (cases "tm_mday t < 10")
  case True
  then have "length (nat_to_string (tm_mday t)) = 1" by (simp add: nat_to_string.simps)
  with True show ?thesis by (simp add: time3164_def rfc3164_time_def pad_def Let_def)
next
  case False
  then have "length (nat_to_string (tm_mday t)) = 2" using assms
    by (simp add: nat_to_string.simps [of "tm_mday t"] nat_to_string.simps [of "tm_mday t div 10"] div_less_iff_less_mult)
  with False show ?thesis by (simp add: time3164_def rfc3164_time_def pad_def Let_def)
qed

text \<open>A given name keeps its domain, although RFC 3164 asks for the name alone.\<close>

lemma domain_kept:
  "log_sethostname test_os test_log (Some ''box.lan'') w = Inr (test_log\<lparr>lg_hostname := Some ''box.lan''\<rparr>)"
  by (simp add: log_sethostname_def host_name_def test_log_def HOSTNAME_MAX_def)

text \<open>Switching the name of the host off and on again leaves a null pointer to be printed.\<close>

lemma host_forgotten:
  "\<not> lg_local lg \<Longrightarrow> origin_text (log_rfc5424opts (log_rfc5424opts lg 0 0 0 None) 1 0 1 None) = Inl Undefined"
  by (simp add: origin_text_def log_rfc5424opts_def Let_def)

end
