(* ===== verification/FaceOnnx.thy ===== *)
theory FaceOnnx
  imports GatewayServices
begin

text \<open>
  The face detection service with the ONNX engine,
  \<^verbatim>\<open>api-gateway/fcgi/face-detection-onnx/cpp/fcgi_face_detection_onnx.cpp\<close>: preparing the image, picking the confident
  boxes, and suppressing boxes that overlap a better one. Resizing, the order of colours and the wrapping of
  numbers as a matrix are operations of OpenCV and parameters; resizing an empty image throws.
\<close>

section \<open>Preparing the image\<close>

record 'img onnx_cv = "'img cv_lib" +
  cv_resized_rgb :: "'img \<Rightarrow> nat \<Rightarrow> nat \<Rightarrow> u8 list"
  cv_of_floats :: "cfloat list \<Rightarrow> 'img"

definition IMG_W :: nat where
  "IMG_W = 640"

definition IMG_H :: nat where
  "IMG_H = 480"

definition IMG_CHANNEL :: nat where
  "IMG_CHANNEL = 3"

definition normalised :: "u8 \<Rightarrow> cfloat" where
  "normalised b = f32_of_f64 (f64_round ((of_int (uint b) - 127) / 128))"

definition preprocessTranspose :: "u8 list \<Rightarrow> nat \<Rightarrow> nat \<Rightarrow> nat \<Rightarrow> cfloat list result" where
  "preprocessTranspose src width height channels =
     (if length src < width * height * channels then Inl Undefined
      else Inr [normalised (src ! (i * width * channels + j * channels + c)). c \<leftarrow> [0..<channels], i \<leftarrow> [0..<height], j \<leftarrow> [0..<width]])"

section \<open>Suppressing overlapping boxes\<close>

datatype bbox = Bbox cfloat cfloat cfloat cfloat

text \<open>\<^verbatim>\<open>std::min\<close>: the first argument unless the second is smaller.\<close>

definition cf_min :: "cfloat \<Rightarrow> cfloat \<Rightarrow> cfloat" where
  "cf_min x y = (if cf_less y x then y else x)"

text \<open>
  The stable sort needs an order: with a NaN among the scores the comparison is none. Only vectors of two or
  more elements are compared.
\<close>

definition sortIndexes :: "cfloat list \<Rightarrow> nat list result" where
  "sortIndexes v =
     (if length v \<ge> 2 \<and> NaN \<in> set v then Inl Undefined
      else Inr (insort_by (\<lambda>i1 i2. cf_less (v ! i1) (v ! i2)) [0..<length v]))"

definition box_area :: "bbox \<Rightarrow> cfloat" where
  "box_area b = (case b of Bbox x1 y1 x2 y2 \<Rightarrow> f32_mul (f32_sub x2 x1) (f32_sub y2 y1))"

definition box_iou :: "bbox \<Rightarrow> bbox \<Rightarrow> cfloat" where
  "box_iou cur bbox =
     (case (cur, bbox) of (Bbox a0 a1 a2 a3, Bbox b0 b1 b2 b3) \<Rightarrow>
        let tmpXmin = cf_max a0 b0; tmpYmin = cf_max a1 b1; tmpXmax = cf_min a2 b2; tmpYmax = cf_min a3 b3;
            tmpW = cf_max (f32_sub tmpXmax tmpXmin) (Fin 0); tmpH = cf_max (f32_sub tmpYmax tmpYmin) (Fin 0);
            intersection = f32_mul tmpW tmpH;
            unionArea = f32_sub (f32_add (box_area bbox) (box_area cur)) intersection
        in f32_div intersection unionArea)"

text \<open>One round: the best of the remaining boxes is kept, and those that overlap it too much are dropped.\<close>

function nms_loop :: "(nat \<Rightarrow> bbox) \<Rightarrow> cfloat \<Rightarrow> nat list \<Rightarrow> nat list" where
  "nms_loop box overlapThresh sortedIndices =
     (if sortedIndices = [] then []
      else
        (let currentIdx = last sortedIndices
         in currentIdx #
            (if length sortedIndices = 1 then []
             else nms_loop box overlapThresh (filter (\<lambda>elem. cf_le (box_iou (box currentIdx) (box elem)) overlapThresh) (butlast sortedIndices)))))"
  by pat_completeness auto
termination
  by (relation "measure (\<lambda>(_, _, xs). length xs)") (auto intro: le_less_trans [OF length_filter_le])

declare nms_loop.simps [simp del]

text \<open>
  With no boxes the number of boxes to skip wraps around, and the queue is popped when it is empty, as it is with
  fewer scores than boxes to skip. With more scores than boxes the boxes are read past their end.
\<close>

definition nms :: "bbox list \<Rightarrow> cfloat list \<Rightarrow> cfloat \<Rightarrow> u64 \<Rightarrow> nat list result" where
  "nms bboxes scores overlapThresh topK =
     (let boxesLength = length bboxes; realK = max (min boxesLength (unat topK)) 1
      in rbind (sortIndexes scores) (\<lambda>sortedIndices.
           if boxesLength < realK \<or> boxesLength - realK > length scores \<or> length scores > boxesLength then Inl Undefined
           else Inr (nms_loop ((!) bboxes) overlapThresh (drop (boxesLength - realK) sortedIndices))))"

section \<open>The service\<close>

definition CONFIDENCE_THRESHOLD :: cfloat where
  "CONFIDENCE_THRESHOLD = f32_of_f64 (f64_round (7 / 10))"

definition NMS_THRESHOLD :: cfloat where
  "NMS_THRESHOLD = f32_of_f64 (f64_round (3 / 10))"

definition numAnchors :: nat where
  "numAnchors = 17640"

fun anchors_loop :: "nat list \<Rightarrow> cfloat \<Rightarrow> cfloat \<Rightarrow> cfloat list \<Rightarrow> cfloat list \<Rightarrow> (bbox \<times> cfloat) list result" where
  "anchors_loop [] origW origH confidence boxes = Inr []"
| "anchors_loop (k # ks) origW origH confidence boxes =
     rbind (vec_at confidence (k * 2 + 1)) (\<lambda>conf.
       if cf_less conf CONFIDENCE_THRESHOLD then anchors_loop ks origW origH confidence boxes
       else
         rbind (vec_at boxes (k * 4)) (\<lambda>x1. rbind (vec_at boxes (k * 4 + 1)) (\<lambda>y1.
         rbind (vec_at boxes (k * 4 + 2)) (\<lambda>x2. rbind (vec_at boxes (k * 4 + 3)) (\<lambda>y2.
         rbind (anchors_loop ks origW origH confidence boxes) (\<lambda>rest.
           Inr ((Bbox (f32_mul x1 origW) (f32_mul y1 origH) (f32_mul x2 origW) (f32_mul y2 origH), conf) # rest)))))))"

definition bbox_json :: "(cfloat \<Rightarrow> string) \<Rightarrow> bbox \<Rightarrow> string" where
  "bbox_json fstr b = (case b of Bbox x1 y1 x2 y2 \<Rightarrow>
     tab @ tab @ ''{'' @ [CHR 0x0A] @ tab @ tab @ tab @ quoted ''x1'' @ '':'' @ fstr x1 @
     '','' @ [CHR 0x0A] @ tab @ tab @ tab @ quoted ''y1'' @ '':'' @ fstr y1 @
     '','' @ [CHR 0x0A] @ tab @ tab @ tab @ quoted ''x2'' @ '':'' @ fstr x2 @
     '','' @ [CHR 0x0A] @ tab @ tab @ tab @ quoted ''y2'' @ '':'' @ fstr y2 @ [CHR 0x0A] @ tab @ tab @ ''}'')"

fun boxes_json :: "(cfloat \<Rightarrow> string) \<Rightarrow> bbox list \<Rightarrow> nat list \<Rightarrow> nat \<Rightarrow> string" where
  "boxes_json fstr bboxes [] flag = []"
| "boxes_json fstr bboxes (idx # ids) flag =
     (if flag \<noteq> 1 then '','' @ [CHR 0x0A] else []) @ bbox_json fstr (bboxes ! idx) @ boxes_json fstr bboxes ids (flag + 1)"

definition local_faces :: "(cfloat \<Rightarrow> string) \<Rightarrow> cfloat \<Rightarrow> cfloat \<Rightarrow> cfloat list \<Rightarrow> cfloat list \<Rightarrow> string result" where
  "local_faces fstr origW origH confidenceResult bboxResult =
     rbind (anchors_loop [0..<numAnchors] origW origH confidenceResult bboxResult) (\<lambda>found.
       (let bboxes = map fst found; scores = map snd found
        in if bboxes = [] then Inr []
           else rbind (nms bboxes scores NMS_THRESHOLD (- 1)) (\<lambda>afterNmsIndices. Inr (boxes_json fstr bboxes afterNmsIndices 1))))"

definition face_detection_onnx ::
  "'img onnx_cv \<Rightarrow> ('img, 'w) irt_env \<Rightarrow> 'img \<Rightarrow> string \<Rightarrow> ('img, 'w) irt_state \<Rightarrow> (string \<times> ('img, 'w) irt_state) result" where
  "face_detection_onnx cv env inputImg params_str st =
     (if mat_empty cv inputImg then Inl Runtime_error
      else
        rbind (preprocessTranspose (cv_resized_rgb cv inputImg IMG_W IMG_H) IMG_W IMG_H IMG_CHANNEL) (\<lambda>dst.
        rbind (irt_infer_from_image env
            \<lparr>pImageInputs = Some [[cv_of_floats cv dst]], pAdditionalInputs = Some [], pInferenceResult = Some [[], []]\<rparr>
            ''./models/version-RFB-640.onnx'' ''ONNXRT''
            \<lparr>url = ''https://api.ai.qq.com/fcgi-bin/face/face_detectmultiface'', urlParam = params_str, response = []\<rparr> st)
          (\<lambda>(res, tensorData, urlInfo, st').
             rbind (if res = RT_REMOTE_INFER_OK then remote_result (response urlInfo)
                    else if res = 0
                    then (case or_empty (pInferenceResult tensorData) of
                            confidenceResult # bboxResult # _ \<Rightarrow>
                              rbind (local_faces (float_to_string cv) (f32_round (of_int (mat_cols cv inputImg))) (f32_round (of_int (mat_rows cv inputImg)))
                                  confidenceResult bboxResult) (\<lambda>items. Inr (data_list ''face_list'' items))
                          | _ \<Rightarrow> Inl Undefined)
                    else Inr (infer_error ('','' @ line_end))) (\<lambda>ie_result. Inr (ie_result, st')))))"

definition onnx_request ::
  "'img onnx_cv \<Rightarrow> ('img, 'w) irt_env \<Rightarrow> fcgi_request \<Rightarrow> ('img, 'w) irt_state \<Rightarrow> (string \<times> ('img, 'w) irt_state) result" where
  "onnx_request cv env req st = image_service (cv_lib.truncate cv) (face_detection_onnx cv env) [] req st"

section \<open>Which boxes are kept\<close>

definition fits :: "(nat \<Rightarrow> bbox) \<Rightarrow> cfloat \<Rightarrow> nat \<Rightarrow> nat \<Rightarrow> bool" where
  "fits box t k e \<longleftrightarrow> cf_le (box_iou (box k) (box e)) t"

lemma nms_loop_Nil [simp]: "nms_loop box t [] = []"
  by (subst nms_loop.simps) simp

lemma nms_loop_snoc: "nms_loop box t (xs @ [x]) = x # nms_loop box t (filter (fits box t x) xs)"
  by (subst nms_loop.simps) (auto simp: Let_def fits_def [abs_def])

text \<open>The rounds of the loop as an induction.\<close>

lemma rounds_induct [case_names none round]:
  assumes "P []" "\<And>xs x. P (filter (fits box t x) xs) \<Longrightarrow> P (xs @ [x])"
  shows "P xs"
proof (induction "length xs" arbitrary: xs rule: less_induct)
  case less
  show ?case
  proof (cases xs rule: rev_cases)
    case (snoc ys y)
    then show ?thesis using less [of "filter (fits box t y) ys"] assms(2) by (simp add: le_less_trans [OF length_filter_le])
  qed (use assms(1) in simp)
qed

lemma nms_loop_subset: "set (nms_loop box t xs) \<subseteq> set xs"
  by (induction xs rule: rounds_induct [of _ box t]) (auto simp: nms_loop_snoc)

lemma nms_loop_distinct: "distinct xs \<Longrightarrow> distinct (nms_loop box t xs)"
proof (induction xs rule: rounds_induct [of _ box t])
  case (round xs x)
  then show ?case using nms_loop_subset [of box t "filter (fits box t x) xs"] by (auto simp: nms_loop_snoc)
qed simp

lemma nms_loop_sorted: "sorted_wrt R xs \<Longrightarrow> sorted_wrt (\<lambda>a b. R b a \<and> fits box t a b) (nms_loop box t xs)"
proof (induction xs rule: rounds_induct [of _ box t])
  case (round xs x)
  then show ?case
    using nms_loop_subset [of box t "filter (fits box t x) xs"] by (auto simp: nms_loop_snoc sorted_wrt_append sorted_wrt_filter)
qed simp

lemma nms_loop_suppressed:
  "sorted_wrt R xs \<Longrightarrow> e \<in> set xs \<Longrightarrow> e \<notin> set (nms_loop box t xs) \<Longrightarrow> \<exists>k \<in> set (nms_loop box t xs). R e k \<and> \<not> fits box t k e"
proof (induction xs rule: rounds_induct [of _ box t])
  case (round xs x)
  then show ?case by (cases "fits box t x e") (auto simp: nms_loop_snoc sorted_wrt_append sorted_wrt_filter)
qed simp

lemma sortIndexes_sorted:
  assumes "NaN \<notin> set v"
  obtains xs where "sortIndexes v = Inr xs" "mset xs = mset [0..<length v]" "sorted_wrt (\<lambda>a b. \<not> cf_less (v ! b) (v ! a)) xs"
proof -
  let ?before = "\<lambda>i1 i2. cf_less (v ! i1) (v ! i2)"
  have "weak_order_on (\<lambda>i. v ! i \<noteq> NaN) ?before"
    by (rule weak_order_onI) (blast dest: cf_less_asym, blast dest: cf_less_incomp)
  then have "sorts (\<lambda>i. v ! i \<noteq> NaN) ?before (insort_by ?before)" by (rule sorts_insort_by)
  moreover have "list_all (\<lambda>i. v ! i \<noteq> NaN) [0..<length v]" using assms by (auto simp: list_all_iff in_set_conv_nth)
  ultimately have "mset (insort_by ?before [0..<length v]) = mset [0..<length v]" "sorted_by ?before (insort_by ?before [0..<length v])"
    by (auto simp: sorts_def)
  then show ?thesis using that [of "insort_by ?before [0..<length v]"] assms by (simp add: sortIndexes_def sorted_by_def)
qed

text \<open>
  C19: among the boxes with the best scores, as many as are asked for, suppression keeps each exactly if
  no kept box of at least the same score overlaps it by more than the threshold; the kept boxes come in
  the order of falling scores and no two of them overlap too much.
\<close>

theorem nms_correct:
  assumes "bboxes \<noteq> []" "length scores = length bboxes" "NaN \<notin> set scores"
  defines "n \<equiv> length bboxes"
  shows "\<exists>ks best. nms bboxes scores t topK = Inr ks \<and>
    best \<subseteq> {..<n} \<and> card best = max (min n (unat topK)) 1 \<and> (\<forall>i \<in> best. \<forall>j \<in> {..<n} - best. \<not> cf_less (scores ! i) (scores ! j)) \<and>
    distinct ks \<and> set ks \<subseteq> best \<and>
    sorted_wrt (\<lambda>a b. \<not> cf_less (scores ! a) (scores ! b) \<and> cf_le (box_iou (bboxes ! a) (bboxes ! b)) t) ks \<and>
    (\<forall>e \<in> best - set ks. \<exists>k \<in> set ks. \<not> cf_less (scores ! k) (scores ! e) \<and> \<not> cf_le (box_iou (bboxes ! k) (bboxes ! e)) t)"
proof -
  let ?R = "\<lambda>a b. \<not> cf_less (scores ! b) (scores ! a)"
  let ?K = "max (min n (unat topK)) 1"
  obtain xs where xs: "sortIndexes scores = Inr xs" "mset xs = mset [0..<length scores]" "sorted_wrt ?R xs" using sortIndexes_sorted [OF assms(3)] .
  have n: "n > 0" "length scores = n" using assms(1,2) by (auto simp: n_def)
  have se: "set xs = {..<n}" "distinct xs" "length xs = n"
    subgoal using mset_eq_setD [OF xs(2)] by (simp add: n(2) atLeast0LessThan)
    subgoal using mset_eq_imp_distinct_iff [OF xs(2)] by simp
    subgoal using mset_eq_length [OF xs(2)] by (simp add: n(2))
    done
  let ?ys = "drop (n - ?K) xs"
  have split: "xs = take (n - ?K) xs @ ?ys" by simp
  have sorted: "sorted_wrt ?R ?ys" "\<forall>a \<in> set (take (n - ?K) xs). \<forall>b \<in> set ?ys. ?R a b"
    using sorted_wrt_append [of ?R "take (n - ?K) xs" ?ys] xs(3) unfolding append_take_drop_id by blast+
  have best: "distinct ?ys" "set ?ys \<subseteq> {..<n}" "{..<n} - set ?ys \<subseteq> set (take (n - ?K) xs)"
    subgoal using se(2) by (rule distinct_drop)
    subgoal using set_drop_subset [of "n - ?K" xs] unfolding se(1) .
    subgoal using arg_cong [OF split, of set] unfolding set_append se(1) by blast
    done
  have card: "card (set ?ys) = ?K" using distinct_card [OF best(1)] se(3) n(1) by simp
  let ?ks = "nms_loop ((!) bboxes) t ?ys"
  have "nms bboxes scores t topK = Inr ?ks" using n xs(1) by (auto simp: nms_def n_def Let_def Suc_le_eq not_less)
  moreover have "distinct ?ks" "set ?ks \<subseteq> set ?ys" using nms_loop_distinct [OF best(1)] nms_loop_subset by auto
  moreover have "sorted_wrt (\<lambda>a b. ?R b a \<and> cf_le (box_iou (bboxes ! a) (bboxes ! b)) t) ?ks"
    using nms_loop_sorted [OF sorted(1), of "(!) bboxes" t] by (simp add: fits_def)
  moreover have "\<forall>e \<in> set ?ys - set ?ks. \<exists>k \<in> set ?ks. ?R e k \<and> \<not> cf_le (box_iou (bboxes ! k) (bboxes ! e)) t"
    using nms_loop_suppressed [OF sorted(1), of _ "(!) bboxes" t] by (simp add: fits_def)
  moreover have "\<forall>i \<in> set ?ys. \<forall>j \<in> {..<n} - set ?ys. \<not> cf_less (scores ! i) (scores ! j)" using sorted(2) best(3) by blast
  ultimately show ?thesis using best(2) card by blast
qed

lemma f32_round_2: "f32_round 2 = Fin 2"
proof -
  have "bitlen 2 = 2" "bitlen 1 = 1" by code_simp+
  then show ?thesis by (simp add: f32_round_def ilog2_def Let_def power_int_minus rne_def)
qed

theorem nms_correct_witness:
  "\<exists>ks. nms [Bbox (Fin 0) (Fin 0) (Fin 1) (Fin 1), Bbox (Fin 0) (Fin 0) (Fin 1) (Fin 1), Bbox (Fin 1) (Fin 1) (Fin 2) (Fin 2)]
      [Fin 3, Fin 5, Fin 4] (Fin (1 / 2)) (- 1) = Inr ks \<and> distinct ks \<and> set ks = {1, 2}"
proof -
  let ?b = "[Bbox (Fin 0) (Fin 0) (Fin 1) (Fin 1), Bbox (Fin 0) (Fin 0) (Fin 1) (Fin 1), Bbox (Fin 1) (Fin 1) (Fin 2) (Fin 2)]"
  let ?s = "[Fin 3, Fin 5, Fin 4]"
  have d: "\<exists>ks. nms ?b ?s (Fin (1 / 2)) (- 1) = Inr ks \<and> distinct ks" using nms_correct [of ?b ?s "Fin (1 / 2)" "- 1"] by auto
  have "sortIndexes ?s = Inr [0, 2, 1]" by code_simp
  moreover have "nms_loop ((!) ?b) (Fin (1 / 2)) [0, 2, 1] = [1, 2]"
    using nms_loop_snoc [of "(!) ?b" "Fin (1 / 2)" "[0, 2]" 1] nms_loop_snoc [of "(!) ?b" "Fin (1 / 2)" "[]" 2]
    by (simp add: fits_def box_iou_def box_area_def cf_max_def cf_min_def cf_le_def f32_sub_def f32_round_0 f32_round_1 f32_round_2 f32_round_minus_1)
  moreover have "unat (- 1 :: u64) = 18446744073709551615" by code_simp
  ultimately have "nms ?b ?s (Fin (1 / 2)) (- 1) = Inr [1, 2]" by (simp add: nms_def Let_def)
  with d show ?thesis by auto
qed

section \<open>Preparing the image, and a defect\<close>

lemma concat_nth_same:
  assumes "\<And>x. x \<in> set xs \<Longrightarrow> length (f x) = m" "i < length xs" "j < m"
  shows "concat (map f xs) ! (i * m + j) = f (xs ! i) ! j"
  using assms
proof (induction xs arbitrary: i)
  case (Cons x xs)
  then show ?case by (cases i) (auto simp: nth_append)
qed simp

lemma length_concat_same: "(\<And>x. x \<in> set xs \<Longrightarrow> length (f x) = m) \<Longrightarrow> length (concat (map f xs)) = length xs * m"
  by (induction xs) auto

lemma preprocessTranspose_at:
  assumes "width * height * channels \<le> length src" "c < channels" "i < height" "j < width"
  shows "\<exists>dst. preprocessTranspose src width height channels = Inr dst \<and> length dst = channels * (height * width) \<and>
    dst ! (c * (height * width) + (i * width + j)) = normalised (src ! (i * width * channels + j * channels + c))"
proof -
  let ?row = "\<lambda>c i. map (\<lambda>j. normalised (src ! (i * width * channels + j * channels + c))) [0..<width]"
  let ?plane = "\<lambda>c. concat (map (?row c) [0..<height])"
  have p: "length (?plane c) = height * width" for c using length_concat_same [of "[0..<height]" "?row c" width] by simp
  have k: "i * width + j < height * width"
    using mult_le_mono1 [of "i + 1" height width] assms(3,4) by simp
  have "concat (map ?plane [0..<channels]) ! (c * (height * width) + (i * width + j)) = ?plane c ! (i * width + j)"
    using concat_nth_same [of "[0..<channels]" ?plane "height * width" c "i * width + j"] p k assms(2) by simp
  also have "\<dots> = ?row c i ! j" using concat_nth_same [of "[0..<height]" "?row c" width i j] assms(3,4) by simp
  finally have "concat (map ?plane [0..<channels]) ! (c * (height * width) + (i * width + j)) = normalised (src ! (i * width * channels + j * channels + c))"
    using assms(4) by simp
  moreover have "length (concat (map ?plane [0..<channels])) = channels * (height * width)"
    using length_concat_same [of "[0..<channels]" ?plane "height * width"] p by simp
  moreover have "preprocessTranspose src width height channels = Inr (concat (map ?plane [0..<channels]))"
    using assms(1) by (simp add: preprocessTranspose_def)
  ultimately show ?thesis by blast
qed

text \<open>A posted text that is no image ends the service: nothing catches the exception of the resizing.\<close>

lemma undecodable_image_throws: "mat_empty cv img \<Longrightarrow> face_detection_onnx cv env img params st = Inl Runtime_error"
  by (simp add: face_detection_onnx_def)

end
