(* ===== verification/ApiUsers.thy ===== *)
theory ApiUsers
  imports CcaiPrelude
begin

text \<open>
  The tool that keeps the users of the gateway, \<^verbatim>\<open>api-gateway/secure/apiuser.c\<close>. The database library, the random bytes
  of the kernel, \<^verbatim>\<open>crypt\<close> and the terminal are parameters, and so is \<^verbatim>\<open>getopt\<close>: the model starts from the options it
  returned, in their order, and the operands.
\<close>

section \<open>What the tool uses\<close>

text \<open>A database as its handle: opening for the given access, and the operations on keys.\<close>

record 'db dbm =
  dbm_open :: "string \<Rightarrow> bool \<Rightarrow> bool \<Rightarrow> 'db option"
  dbm_keys :: "'db \<Rightarrow> string list"
  dbm_fetch :: "'db \<Rightarrow> string \<Rightarrow> string option"
  dbm_store :: "'db \<Rightarrow> string \<Rightarrow> string \<Rightarrow> bool \<times> 'db"
  dbm_delete :: "'db \<Rightarrow> string \<Rightarrow> bool \<times> 'db"

text \<open>
  The state of the program: the handle, both outputs, the code of the last error, the random bytes and
  the passwords that will be typed. \<^verbatim>\<open>getpass\<close> may return a null pointer.
\<close>

record 'db api_state =
  st_db :: 'db
  st_out :: string
  st_err :: string
  st_rc :: int
  st_random :: "u8 list"
  st_typed :: "string option list"

section \<open>The salt\<close>

definition SALT_LEN :: nat where
  "SALT_LEN = 8"

definition salt_chars :: string where
  "salt_chars = ''./0123456789ABCDEFGHIJKLMNOPQRSTUVWAXY'' @ ''abcdefghijklmnopqrstuvwxyz''"

text \<open>
  A \<^verbatim>\<open>char\<close> is signed here; the remainder is taken in \<^verbatim>\<open>size_t\<close>, to which it is converted. The zero behind the random bytes is
  replaced as well and then restored.
\<close>

definition salt_char :: "u8 \<Rightarrow> char" where
  "salt_char b = salt_chars ! (unat (signed_take_bit 7 (ucast b) :: u64) mod length salt_chars)"

definition salt :: "u8 list \<Rightarrow> string" where
  "salt bytes = map salt_char (take SALT_LEN bytes)"

section \<open>Options\<close>

datatype action = DELETE_users | LIST_users | CHANGE_users | NEW_users | UPDATE_users

record settings =
  set_file :: string
  set_action :: action
  set_verbose :: int
  set_strict :: bool
  set_help :: bool

definition default_settings :: settings where
  "default_settings = \<lparr>set_file = ''apiuser'', set_action = LIST_users, set_verbose = 0, set_strict = False, set_help = False\<rparr>"

text \<open>The name without its extension \<^verbatim>\<open>.db\<close>.\<close>

definition db_name :: "string \<Rightarrow> string" where
  "db_name f = (if length f \<ge> 3 \<and> drop (length f - 3) f = ''.db'' then take (length f - 3) f else f)"

text \<open>Help ends the program at once.\<close>

fun parse_options :: "(char \<times> string) list \<Rightarrow> settings \<Rightarrow> settings" where
  "parse_options [] s = s"
| "parse_options ((c, optarg) # opts) s =
     (if c = CHR ''l'' then parse_options opts (s\<lparr>set_action := LIST_users\<rparr>)
      else if c = CHR ''c'' then parse_options opts (s\<lparr>set_action := CHANGE_users\<rparr>)
      else if c = CHR ''n'' then parse_options opts (s\<lparr>set_action := NEW_users\<rparr>)
      else if c = CHR ''u'' then parse_options opts (s\<lparr>set_action := UPDATE_users\<rparr>)
      else if c = CHR ''d'' then parse_options opts (s\<lparr>set_action := DELETE_users\<rparr>)
      else if c = CHR ''f'' then parse_options opts (s\<lparr>set_file := db_name optarg\<rparr>)
      else if c = CHR ''s'' then parse_options opts (s\<lparr>set_strict := True\<rparr>)
      else if c = CHR ''q'' then parse_options opts (s\<lparr>set_verbose := - 1\<rparr>)
      else if c = CHR ''v'' then parse_options opts (s\<lparr>set_verbose := 1\<rparr>)
      else if c = CHR ''h'' then s\<lparr>set_help := True\<rparr>
      else parse_options opts s)"

section \<open>One user\<close>

definition newline :: string where
  "newline = [CHR 0x0A]"

definition print_user :: "int \<Rightarrow> string \<Rightarrow> string option \<Rightarrow> string" where
  "print_user verbose user pass = user @ (if verbose > 0 then '':'' @ (case pass of None \<Rightarrow> [] | Some p \<Rightarrow> p) else []) @ newline"

text \<open>The name and the password behind the first colon.\<close>

definition split_user :: "string \<Rightarrow> string \<times> string option" where
  "split_user arg =
     (let name = takeWhile (\<lambda>c. c \<noteq> CHR '':'') arg in (name, if CHR '':'' \<in> set arg then Some (drop (length name + 1) arg) else None))"

text \<open>
  Storing a password: the code of the result. A password that cannot be read, or that \<^verbatim>\<open>crypt\<close> does not
  accept, is a null pointer that is used.
\<close>

definition store_user :: "'db dbm \<Rightarrow> (string \<Rightarrow> string \<Rightarrow> string option) \<Rightarrow> string \<Rightarrow> string option \<Rightarrow> 'db api_state \<Rightarrow> 'db api_state result" where
  "store_user lib crypt name given st =
     (let (password, typed) = (case given of Some p \<Rightarrow> (Some p, st_typed st)
            | None \<Rightarrow> (case st_typed st of [] \<Rightarrow> (None, []) | p # ps \<Rightarrow> (p, ps)))
      in case password of
           None \<Rightarrow> Inl Undefined
         | Some p \<Rightarrow>
             (case crypt p (''$6$'' @ salt (st_random st)) of
                None \<Rightarrow> Inl Undefined
              | Some h \<Rightarrow>
                  (case dbm_store lib (st_db st) name h of (ok, db') \<Rightarrow>
                     Inr (st\<lparr>st_db := db', st_rc := (if ok then 0 else 1), st_random := drop SALT_LEN (st_random st), st_typed := typed\<rparr>))))"

text \<open>
  What is done for an operand, before errors are reported. The code is not reset: a new user that does not
  exist keeps the code of an earlier error.
\<close>

definition user_action :: "'db dbm \<Rightarrow> (string \<Rightarrow> string \<Rightarrow> string option) \<Rightarrow> settings \<Rightarrow> string \<Rightarrow> 'db api_state \<Rightarrow> 'db api_state result" where
  "user_action lib crypt s arg st =
     (case set_action s of
        LIST_users \<Rightarrow>
          (let pass = dbm_fetch lib (st_db st) arg
           in Inr (st\<lparr>st_rc := (if pass = None then - 1 else 0),
                st_out := st_out st @ (if pass \<noteq> None \<and> set_verbose s \<ge> 0 then print_user (set_verbose s) arg pass else [])\<rparr>))
      | DELETE_users \<Rightarrow> (case dbm_delete lib (st_db st) arg of (ok, db') \<Rightarrow> Inr (st\<lparr>st_db := db', st_rc := (if ok then 0 else - 1)\<rparr>))
      | _ \<Rightarrow>
          (case split_user arg of (name, given) \<Rightarrow>
             (let known = (dbm_fetch lib (st_db st) name \<noteq> None);
                  rc = (if set_action s = UPDATE_users then 0
                        else if known then (if set_action s = NEW_users then 1 else 0)
                        else if set_action s = CHANGE_users then - 1 else st_rc st)
              in if rc \<noteq> 0 then Inr (st\<lparr>st_rc := rc\<rparr>) else store_user lib crypt name given st)))"

definition operand_name :: "settings \<Rightarrow> string \<Rightarrow> string" where
  "operand_name s arg = (if set_action s = LIST_users \<or> set_action s = DELETE_users then arg else fst (split_user arg))"

definition error_line :: "string \<Rightarrow> int \<Rightarrow> string" where
  "error_line name rc = ''user '' @ [CHR 0x27] @ name @ [CHR 0x27] @ '' '' @ (if rc < 0 then ''not found'' else ''already exist'') @ newline"

fun users_loop :: "'db dbm \<Rightarrow> (string \<Rightarrow> string \<Rightarrow> string option) \<Rightarrow> settings \<Rightarrow> string list \<Rightarrow> 'db api_state \<Rightarrow> 'db api_state result" where
  "users_loop lib crypt s [] st = Inr st"
| "users_loop lib crypt s (arg # args) st =
     rbind (user_action lib crypt s arg st) (\<lambda>st1.
       if st_rc st1 \<noteq> 0
       then (let st2 = st1\<lparr>st_err := st_err st1 @ (if set_verbose s \<ge> 0 then error_line (operand_name s arg) (st_rc st1) else [])\<rparr>
             in if set_strict s then Inr st2 else users_loop lib crypt s args st2)
       else users_loop lib crypt s args st1)"



section \<open>What the database library promises\<close>

locale user_db =
  fixes lib :: "'db dbm" and view :: "'db \<Rightarrow> string \<rightharpoonup> string"
  assumes fetch_law: "dbm_fetch lib db k = view db k"
    and store_law: "dbm_store lib db k v = (ok, db') \<Longrightarrow> view db' = (if ok then (view db)(k \<mapsto> v) else view db)"
    and delete_law: "dbm_delete lib db k = (ok, db') \<Longrightarrow> view db' = (if ok then (view db)(k := None) else view db) \<and> (ok \<longrightarrow> view db k \<noteq> None)"

text \<open>New users with their passwords, one after the other.\<close>

fun entered :: "(string \<Rightarrow> string \<Rightarrow> string option) \<Rightarrow> (string \<times> string) list \<Rightarrow> u8 list \<Rightarrow> (string \<rightharpoonup> string) \<Rightarrow> (string \<rightharpoonup> string)" where
  "entered crypt [] bytes m = m"
| "entered crypt ((name, p) # ups) bytes m = entered crypt ups (drop SALT_LEN bytes) (m(name := crypt p (''$6$'' @ salt bytes)))"

definition user_arg :: "string \<times> string \<Rightarrow> string" where
  "user_arg up = fst up @ '':'' @ snd up"

lemma split_user_arg: "CHR '':'' \<notin> set (fst up) \<Longrightarrow> split_user (user_arg up) = (fst up, Some (snd up))"
  by (auto simp: split_user_def user_arg_def takeWhile_append Let_def)

context user_db
begin

lemma store_user_law:
  assumes "crypt p (''$6$'' @ salt (st_random st)) = Some h"
  obtains ok st' where "store_user lib crypt name (Some p) st = Inr st'" "st_rc st' = (if ok then 0 else 1)"
    "st_random st' = drop SALT_LEN (st_random st)" "st_err st' = st_err st" "view (st_db st') = (if ok then (view (st_db st))(name \<mapsto> h) else view (st_db st))"
proof -
  obtain ok db' where d: "dbm_store lib (st_db st) name h = (ok, db')" by force
  with assms store_law [OF d] that [where ok = ok] show ?thesis by (simp add: store_user_def)
qed

text \<open>After an error nothing is stored any more.\<close>

lemma blocked_law:
  assumes "set_action s = NEW_users" "list_all (\<lambda>up. CHR '':'' \<notin> set (fst up)) ups"
    "fst ` set ups \<inter> dom (view (st_db st)) = {}" "st_rc st = 1"
  shows "\<exists>st'. users_loop lib crypt s (map user_arg ups) st = Inr st' \<and> st_rc st' = 1 \<and> st_db st' = st_db st"
  using assms(2-4)
proof (induction ups arbitrary: st)
  case (Cons up ups)
  have "view (st_db st) (fst up) = None" using Cons.prems(2) by auto
  then have a: "user_action lib crypt s (user_arg up) st = Inr (st\<lparr>st_rc := 1\<rparr>)"
    using assms(1) Cons.prems split_user_arg [of up] by (simp add: user_action_def fetch_law)
  let ?st = "st\<lparr>st_rc := 1, st_err := st_err st @ (if set_verbose s \<ge> 0 then error_line (operand_name s (user_arg up)) 1 else [])\<rparr>"
  have "\<exists>st'. users_loop lib crypt s (map user_arg ups) ?st = Inr st' \<and> st_rc st' = 1 \<and> st_db st' = st_db ?st"
    using Cons.prems by (intro Cons.IH) simp_all
  with a show ?case by (auto simp: Let_def)
qed simp

lemma new_users_law:
  assumes "set_action s = NEW_users"
    "list_all (\<lambda>up. CHR '':'' \<notin> set (fst up)) ups" "distinct (map fst ups)" "fst ` set ups \<inter> dom (view (st_db st)) = {}" "st_rc st = 0"
    "\<forall>i < length ups. crypt (snd (ups ! i)) (''$6$'' @ salt (drop (i * SALT_LEN) (st_random st))) \<noteq> None"
  shows "\<exists>k st'. k \<le> length ups \<and> users_loop lib crypt s (map user_arg ups) st = Inr st' \<and>
    view (st_db st') = entered crypt (take k ups) (st_random st) (view (st_db st)) \<and>
    (if k = length ups then st_rc st' = 0 \<and> st_err st' = st_err st else st_rc st' = 1)"
  using assms(2-6)
proof (induction ups arbitrary: st)
  case (Cons up ups)
  obtain name p where up: "up = (name, p)" by force
  obtain h where h: "crypt p (''$6$'' @ salt (st_random st)) = Some h" using Cons.prems(5) [rule_format, of 0] up by auto
  obtain ok st1 where st1: "store_user lib crypt name (Some p) st = Inr st1" "st_rc st1 = (if ok then 0 else 1)"
    "st_random st1 = drop SALT_LEN (st_random st)" "st_err st1 = st_err st"
    "view (st_db st1) = (if ok then (view (st_db st))(name \<mapsto> h) else view (st_db st))"
    using store_user_law [of crypt p st h name, OF h] .
  have "view (st_db st) name = None" using Cons.prems(3) up by auto
  then have a: "user_action lib crypt s (user_arg up) st = Inr st1"
    using st1(1) assms(1) Cons.prems split_user_arg [of up] up by (simp add: user_action_def fetch_law)
  have "dom (view (st_db st1)) \<subseteq> insert name (dom (view (st_db st)))" by (auto simp: st1(5) split: if_splits)
  moreover have "name \<notin> fst ` set ups" "fst ` set ups \<inter> dom (view (st_db st)) = {}" using Cons.prems(2,3) up by auto
  ultimately have disj: "fst ` set ups \<inter> dom (view (st_db st1)) = {}" by blast
  show ?case
  proof (cases ok)
    case True
    have "\<forall>i < length ups. crypt (snd (ups ! i)) (''$6$'' @ salt (drop (i * SALT_LEN) (st_random st1))) \<noteq> None"
    proof (intro allI impI)
      fix i assume "i < length ups"
      then show "crypt (snd (ups ! i)) (''$6$'' @ salt (drop (i * SALT_LEN) (st_random st1))) \<noteq> None"
        using Cons.prems(5) [rule_format, of "Suc i"] by (simp add: st1(3) add.commute)
    qed
    then obtain k st' where k: "k \<le> length ups" "users_loop lib crypt s (map user_arg ups) st1 = Inr st'"
      "view (st_db st') = entered crypt (take k ups) (st_random st1) (view (st_db st1))"
      "if k = length ups then st_rc st' = 0 \<and> st_err st' = st_err st1 else st_rc st' = 1"
      using Cons.IH [of st1] Cons.prems disj True st1(2) by auto
    then show ?thesis using a st1 up h True by (intro exI [of _ "Suc k"] exI [of _ st']) auto
  next
    case False
    let ?st = "st1\<lparr>st_err := st_err st1 @ (if set_verbose s \<ge> 0 then error_line (operand_name s (user_arg up)) 1 else [])\<rparr>"
    obtain st' where "users_loop lib crypt s (map user_arg ups) ?st = Inr st'" "st_rc st' = 1" "st_db st' = st_db ?st"
      using blocked_law [of s ups ?st crypt] assms(1) Cons.prems disj False st1(2) by auto
    then show ?thesis using a st1 False up
      by (intro exI [of _ 0] exI [of _ "if set_strict s then ?st else st'"]) (auto simp: Let_def)
  qed
qed simp

end



section \<open>A database in memory\<close>

definition list_dbm :: "(string \<times> string) list dbm" where
  "list_dbm = \<lparr>dbm_open = (\<lambda>_ _ _. Some []), dbm_keys = map fst, dbm_fetch = map_of, dbm_store = (\<lambda>db k v. (True, (k, v) # db)),
     dbm_delete = (\<lambda>db k. (k \<in> fst ` set db, filter (\<lambda>e. fst e \<noteq> k) db))\<rparr>"

lemma map_of_without: "map_of (filter (\<lambda>e. fst e \<noteq> k) db) = (map_of db)(k := None)"
  by (induction db) auto

interpretation memory: user_db list_dbm map_of
  by unfold_locales (auto simp: list_dbm_def map_of_without map_of_eq_None_iff dom_map_of_conv_image_fst [symmetric] fun_upd_idem_iff)

section \<open>Properties\<close>





section \<open>Defects\<close>

text \<open>One user that exists stops all later new ones: they are reported to exist as well.\<close>

lemma existing_user_blocks_others:
  "\<exists>st. users_loop list_dbm (\<lambda>p s. Some p) (default_settings\<lparr>set_action := NEW_users\<rparr>) [''ann:x'', ''bob:y'']
      \<lparr>st_db = [(''ann'', ''h'')], st_out = [], st_err = [], st_rc = 0, st_random = [], st_typed = []\<rparr> = Inr st \<and>
    map_of (st_db st) ''bob'' = None \<and> st_err st = error_line ''ann'' 1 @ error_line ''bob'' 1"
  by (simp add: list_dbm_def default_settings_def user_action_def split_user_def operand_name_def)

text \<open>A letter of the alphabet of the salt occurs twice and another one is missing.\<close>

lemma salt_alphabet: "CHR ''Z'' \<notin> set salt_chars" "length (filter (\<lambda>c. c = CHR ''A'') salt_chars) = 2" "length salt_chars = 64"
  by code_simp+

end
