(* ===== verification/Spec2Isabelle.thy ===== *)
theory Spec2Isabelle
  imports BeamSearch PolicyDaemon GatewayServices HealthMonitor DnsHosts StreamPlugins SmartPhotoService LogClient FaceOnnx ApiUsers
begin

text \<open>
  Verification of the C and C++ code of the Cloud-Client AI Service Framework. The framework offers
  inference as a service: a gateway answers HTTP requests with FastCGI programs, the programs call the
  inference runtime, the runtime computes on a local device or asks a server, a daemon observes the
  load of the machine, and a few programs around them (photo library, health monitor, name service
  module, video streamer, speech recognition, logging) support the services. Paths below are relative to \<^verbatim>\<open>src/\<close>.

  \<^bold>\<open>Conventions.\<close> A theory holds the definitions of one component in the order of its source, then
  its lemmas, and last the theorems about it, each after a text that states it. An exception is a
  value \<^verbatim>\<open>Inl e\<close> of \<^typ>\<open>'a result\<close>; \<^const>\<open>Undefined\<close> marks an evaluation to which the language gives no
  meaning, so that \<open>\<noteq> Inl Undefined\<close> reads ``no access out of bounds, no undefined
  shift''. A loop that may run forever yields an option (\<^verbatim>\<open>partial_function\<close>), and that it ends is
  proved; every other loop is a total function with its own termination proof, and no definition
  takes a bound on the number of steps that the source does not have. Machine integers are words
  where they wrap around and integers with an explicit check where leaving the range has no meaning.
  What lies outside the repository is an argument of the definitions: the elementary functions
  and the sorting algorithms of the C++ library (\<^typ>\<open>cxx_lib\<close>), the dynamic loader and the engines it loads,
  the network library, OpenCV, SQLite, the shell, the files and the clock. What the theorems rely on there
  is a hypothesis that states the documented behaviour, and a witness instantiates it.

  \<^bold>\<open>Shared theories.\<close>
  \<^item> \<^verbatim>\<open>CcaiPrelude\<close>: machine integers, results, little-endian reads, searching, invariants of
    transition systems (locale \<^verbatim>\<open>preserved_invariant\<close>).
  \<^item> \<^verbatim>\<open>CxxDouble\<close>, \<^verbatim>\<open>CxxFloat\<close>: \<^verbatim>\<open>double\<close> and \<^verbatim>\<open>float\<close> arithmetic as correctly rounded rational arithmetic, with
    infinities and NaN where the code meets them.
  \<^item> \<^verbatim>\<open>ConfigText\<close>: lines, fields and numbers of configuration files.

  \<^bold>\<open>Speech recognition\<close>, \<^verbatim>\<open>api-gateway/fcgi/asr/python/ctcdecode-numpy/ctcdecode_numpy\<close>.
  \<^item> \<^verbatim>\<open>SortedSearch\<close> (\<^verbatim>\<open>yoklm/sorted_search.hpp\<close>): binary and interpolation search over the contract of an
    array (locale \<^verbatim>\<open>array_reader\<close>), with the rounding of the probe; both end and find what is there.
  \<^item> \<^verbatim>\<open>MemorySections\<close> (\<^verbatim>\<open>yoklm/memory_section.*\<close>): no accessor of a section leaves the file, and a bit
    array returns the number its bits denote.
  \<^item> \<^verbatim>\<open>Vocabulary\<close>, \<^verbatim>\<open>LanguageModel\<close>, \<^verbatim>\<open>KenlmLoader\<close> (the rest of \<^verbatim>\<open>yoklm/\<close>): the hash is MurmurHash64A, lookups are
    exact up to rounding, a loaded file answers every n-gram as a plain linear descent
    does, scores are the longest match with its back-off weights, and loading is free of undefined
    behaviour for files that claim less than \<open>2 ^ 63\<close> n-grams.
  \<^item> \<^verbatim>\<open>WordPrefixSet\<close>, \<^verbatim>\<open>DecoderUtils\<close>, \<^verbatim>\<open>PathTrie\<close>, \<^verbatim>\<open>Scorer\<close>: the prefix dictionary against the set of prefixes
    (locale \<^verbatim>\<open>prefix_dictionary\<close>), pruning, the trie of candidates on an explicit heap with dangling
    addresses (locale \<^verbatim>\<open>prunable\<close>), the scores of words.
  \<^item> \<^verbatim>\<open>BeamSearch\<close> (\<^verbatim>\<open>ctc_beam_search_decoder.cpp\<close>): the invariant of the decoder, what decoding returns, its life
    cycle, and the read past the pruned list when the cut-off is below the size of the alphabet.

  \<^bold>\<open>Inference runtime\<close>, \<^verbatim>\<open>inference-runtime/runtime_service/src\<close>.
  \<^item> \<^verbatim>\<open>Policy\<close> (\<^verbatim>\<open>policy.cpp\<close>): the configuration file and the segment of shared memory.
  \<^item> \<^verbatim>\<open>PolicyDaemon\<close> (\<^verbatim>\<open>daemon_policy.cpp\<close>, \<^verbatim>\<open>cpu_state.cpp\<close>): the daemon as a state machine over the samples
    it reads; the interval stays one of seven values, it falls asleep and wakes up.
  \<^item> \<^verbatim>\<open>InferenceBackend\<close> (\<^verbatim>\<open>irt_inference_engine.cpp\<close>, \<^verbatim>\<open>shared_lib_*\<close>): the registry of engines as a cache (locale
    \<^verbatim>\<open>keyed_cache\<close>).
  \<^item> \<^verbatim>\<open>InferencePipe\<close> (\<^verbatim>\<open>vino_ie_pipe.cpp\<close>, \<^verbatim>\<open>connect_server.cpp\<close>): where a request is computed, and that what a user
    sets governs it.

  \<^bold>\<open>Gateway\<close>, \<^verbatim>\<open>api-gateway/fcgi\<close>.
  \<^item> \<^verbatim>\<open>GatewayUtils\<close> (\<^verbatim>\<open>utils/cpp/fcgi_utils.cpp\<close>): base64, percent decoding, forms.
  \<^item> \<^verbatim>\<open>OcrMask\<close> (\<^verbatim>\<open>ocr/cpp/fcgi_ocr.cpp\<close>): text detection with union-find against the components of linked
    pixels, the order of the axes, the corners of a box, reading the recognised text.
  \<^item> \<^verbatim>\<open>GatewayServices\<close> (\<^verbatim>\<open>classification\<close>, \<^verbatim>\<open>face-detection\<close>, \<^verbatim>\<open>segmentation\<close>, \<^verbatim>\<open>policy\<close>): a request from the posted form
    to the reply, through the runtime. A posted length is less than \<open>2 ^ 31\<close>; the model of the
    detection network has 200 rows of 7 numbers, as in the code.
  \<^item> \<^verbatim>\<open>FaceOnnx\<close> (\<^verbatim>\<open>face-detection-onnx\<close>): what suppressing overlapping boxes keeps and drops, from the image
    to the reply.
  \<^item> \<^verbatim>\<open>ApiUsers\<close> (\<^verbatim>\<open>api-gateway/secure/apiuser.c\<close>): the users of the gateway; which of the new users are
    stored and what the program returns, when the data base refuses some.

  \<^bold>\<open>Photo library\<close>, \<^verbatim>\<open>smart-photo/\<close> and \<^verbatim>\<open>api-gateway/fcgi/smart-photo\<close>.
  \<^item> \<^verbatim>\<open>SmartPhotoDb\<close> (\<^verbatim>\<open>db.cpp\<close>): the texts of the SQL statements as the code puts them together. SQLite is the contract
    \<^verbatim>\<open>photo_db\<close>: a statement is understood by matching its text, string literals end at the first quote that is not doubled, and it
    acts on tables as SQL says. What SQLite enforces (unique columns, foreign keys, their cascades) is read off
    the text of \<^verbatim>\<open>create_tables\<close> that the code executes. An interpreter of the statements is an instance.
  \<^item> \<^verbatim>\<open>SmartPhoto\<close> (\<^verbatim>\<open>smart_photo.cpp\<close>): entering files, recording faces and classes, queries, and the scanning thread as
    a step function between its points of locking, so that threads and calls interleave. The thread iterates over a
    vector that it shares; advancing an iterator after another thread has changed the vector is undefined.
  \<^item> \<^verbatim>\<open>PhotoScans\<close>: a scan ends with every readable photo linked to its classes, what is recorded is what is listed,
    which classes an image is given, and what goes wrong with quotes and with two threads. Embeddings have 512
    numbers and an image at most 150 classes, as in the code; numbers of rows stay below \<open>2 ^ 63\<close>.
  \<^item> \<^verbatim>\<open>SmartPhotoService\<close> (\<^verbatim>\<open>fcgi_smartphoto.cpp\<close>): requests and replies as JSON values; listing, deleting and moving
    from the posted text to the tables and back.

  \<^bold>\<open>Programs around them.\<close>
  \<^item> \<^verbatim>\<open>HealthMonitor\<close> (\<^verbatim>\<open>health-monitor/\<close>): restarts after three unhealthy reports, the watchdog as a step relation
    of two threads and a mutex, where waiting times out if the deadline has passed when the mutex is locked
    again. The counter of reports does not wrap for fewer than \<open>2 ^ 32\<close> of them.
  \<^item> \<^verbatim>\<open>DnsHosts\<close> (\<^verbatim>\<open>dns_interceptor/\<close>): what is read from files of at most 127 bytes, whatever the
    uninitialised buffer of 256 bytes holds: \<^verbatim>\<open>strchr\<close> looks behind the text of the file, and the theorem says exactly when that
    leaves the buffer.
  \<^item> \<^verbatim>\<open>StreamPlugins\<close> (\<^verbatim>\<open>video-streamer/plugin.c\<close>, \<^verbatim>\<open>ccai_stream.c\<close>): which plugins are loaded and in which
    order, if their priorities are so close that comparing them does not overflow; pipelines and probes. The sorted lists of GLib are a
    contract for arbitrary comparators.
  \<^item> \<^verbatim>\<open>LogClient\<close> (\<^verbatim>\<open>log/\<close>): the syslog client. The header, written piece by piece into a buffer of 390 bytes, stays
    within it for years of four digits and priorities below 1000; the front end filters by a threshold.

  \<^bold>\<open>Not modelled.\<close> \<^verbatim>\<open>decoders_wrap.cpp\<close> is generated; the Python bindings convert arguments; the gRPC services pass
  messages; \<^verbatim>\<open>emotion.cpp\<close>, \<^verbatim>\<open>pose.cpp\<close> and \<^verbatim>\<open>backgroundblur.cpp\<close> are calls of OpenCV and GStreamer on frames; \<^verbatim>\<open>general_launcher.c\<close> and the
  streaming service start pipelines of GStreamer; the
  engines wrap OpenVINO, ONNX, TensorFlow, PyTorch and Paddle and are arguments of the registry; the remaining gateway
  services repeat the loop of the image services around other models.
  Log messages and timings are left out everywhere.
\<close>

end
